(* ===== verification/Prelude.thy ===== *)
theory Prelude
  imports Main "HOL-Library.AList" "HOL-Library.Word" "HOL-Library.List_Lexorder"
    "HOL-Library.Product_Lexorder" "HOL-Library.Multiset"
begin

text \<open>
  Shared vocabulary of the development: Python exceptions as values, effectful
  operations as functions from a state to a result and a state, insertion-ordered
  dictionaries as association lists, byte strings, and the handful of list facts the
  components share.

  A method that reads and writes the object it belongs to is a function of type
  \<open>('s, 'e, 'a) eff\<close>: it takes the state and returns \<open>Inl e\<close> (an exception) or
  \<open>Inr v\<close> (a value) together with the state at that moment. The state is returned on
  the exceptional path too, because an exception in Python does not undo the writes
  made before it.
\<close>

section \<open>Exceptions\<close>

datatype py_error =
    ValueError string
  | RuntimeError string
  | KeyError string
  | IndexError string
  | TypeError string
  | NotImplementedError string
  | AssertionError string
  | AttributeError string
  | ZeroDivisionError
  | StructError
  | Diverges

type_synonym 'a res = "py_error + 'a"

text \<open>
  \<open>StructError\<close> is \<open>struct.error\<close>. \<open>Diverges\<close> is no exception of Python: it is the
  result of a loop that does not return (the \<open>None\<close> of a partial function), so that a
  theorem that an operation returns a value also says that its loops end.
\<close>

definition returns :: "'a option \<Rightarrow> 'a res" where
  "returns r = (case r of None \<Rightarrow> Inl Diverges | Some x \<Rightarrow> Inr x)"

lemma returns_simps [simp]: "returns (Some x) = Inr x" "returns None = Inl Diverges"
  by (simp_all add: returns_def)

section \<open>Results and effects\<close>

type_synonym ('s, 'e, 'a) eff = "'s \<Rightarrow> ('e + 'a) \<times> 's"

named_theorems eff_simps "unfolding of the effect combinators"

definition retE :: "'a \<Rightarrow> ('s, 'e, 'a) eff" where
  "retE x = (\<lambda>s. (Inr x, s))"

definition raiseE :: "'e \<Rightarrow> ('s, 'e, 'a) eff" where
  "raiseE e = (\<lambda>s. (Inl e, s))"

definition bindE :: "('s, 'e, 'a) eff \<Rightarrow> ('a \<Rightarrow> ('s, 'e, 'b) eff) \<Rightarrow> ('s, 'e, 'b) eff" where
  "bindE m f = (\<lambda>s. case m s of (Inl e, t) \<Rightarrow> (Inl e, t) | (Inr x, t) \<Rightarrow> f x t)"

definition getE :: "('s \<Rightarrow> 'a) \<Rightarrow> ('s, 'e, 'a) eff" where
  "getE f = (\<lambda>s. (Inr (f s), s))"

definition modifyE :: "('s \<Rightarrow> 's) \<Rightarrow> ('s, 'e, unit) eff" where
  "modifyE f = (\<lambda>s. (Inr (), f s))"

definition liftE :: "('e + 'a) \<Rightarrow> ('s, 'e, 'a) eff" where
  "liftE r = (\<lambda>s. (r, s))"

definition failIf :: "bool \<Rightarrow> 'e \<Rightarrow> ('s, 'e, unit) eff" where
  "failIf c e = (\<lambda>s. if c then (Inl e, s) else (Inr (), s))"

fun forE :: "('x \<Rightarrow> ('s, 'e, unit) eff) \<Rightarrow> 'x list \<Rightarrow> ('s, 'e, unit) eff" where
  "forE f [] = retE ()"
| "forE f (x # xs) = bindE (f x) (\<lambda>_. forE f xs)"

lemma retE_run [simp, eff_simps]: "retE x s = (Inr x, s)"
  by (simp add: retE_def)

lemma raiseE_run [simp, eff_simps]: "raiseE e s = (Inl e, s)"
  by (simp add: raiseE_def)

lemma getE_run [simp, eff_simps]: "getE f s = (Inr (f s), s)"
  by (simp add: getE_def)

lemma modifyE_run [simp, eff_simps]: "modifyE f s = (Inr (), f s)"
  by (simp add: modifyE_def)

lemma liftE_run [simp, eff_simps]: "liftE r s = (r, s)"
  by (simp add: liftE_def)

lemma failIf_run [simp, eff_simps]: "failIf c e s = (if c then (Inl e, s) else (Inr (), s))"
  by (simp add: failIf_def)

lemma bindE_run [eff_simps]:
  "bindE m f s = (case m s of (Inl e, t) \<Rightarrow> (Inl e, t) | (Inr x, t) \<Rightarrow> f x t)"
  by (simp add: bindE_def)

lemma bindE_Inr [simp]: "m s = (Inr x, t) \<Longrightarrow> bindE m f s = f x t"
  by (simp add: bindE_def)

lemma bindE_Inl [simp]: "m s = (Inl e, t) \<Longrightarrow> bindE m f s = (Inl e, t)"
  by (simp add: bindE_def)

lemma bindE_eq_Inr:
  "bindE m f s = (Inr y, u) \<longleftrightarrow> (\<exists>x t. m s = (Inr x, t) \<and> f x t = (Inr y, u))"
  by (auto simp: bindE_def split: prod.splits sum.splits)

text \<open>An effect keeps a state predicate if it holds of the state left behind, raised or not.\<close>

definition keeps :: "('s \<Rightarrow> bool) \<Rightarrow> ('s, 'e, 'a) eff \<Rightarrow> bool" where
  "keeps I m \<longleftrightarrow> (\<forall>s. I s \<longrightarrow> I (snd (m s)))"

named_theorems keeps_intros "closure of state predicates under the effect combinators"

lemma keepsD: "keeps I m \<Longrightarrow> I s \<Longrightarrow> I (snd (m s))"
  by (simp add: keeps_def)

lemma keepsI: "(\<And>s. I s \<Longrightarrow> I (snd (m s))) \<Longrightarrow> keeps I m"
  by (simp add: keeps_def)

lemma keeps_pure [keeps_intros]:
  "keeps I (retE x)" "keeps I (raiseE e)" "keeps I (getE f)" "keeps I (liftE r)"
  "keeps I (failIf c e)"
  by (simp_all add: keeps_def)

lemma keeps_bind [keeps_intros]:
  "keeps I m \<Longrightarrow> (\<And>x. keeps I (f x)) \<Longrightarrow> keeps I (bindE m f)"
  unfolding keeps_def bindE_def
  by (fastforce split: prod.splits sum.splits)

lemma keeps_modify [keeps_intros]: "(\<And>s. I s \<Longrightarrow> I (f s)) \<Longrightarrow> keeps I (modifyE f)"
  by (simp add: keeps_def)

lemma keeps_for [keeps_intros]: "(\<And>x. keeps I (f x)) \<Longrightarrow> keeps I (forE f xs)"
  by (induction xs) (auto intro: keeps_intros)

text \<open>A list comprehension whose element expression may raise.\<close>

fun mapE :: "('a \<Rightarrow> 'e + 'b) \<Rightarrow> 'a list \<Rightarrow> 'e + 'b list" where
  "mapE f [] = Inr []"
| "mapE f (x # xs) =
     (case f x of Inl e \<Rightarrow> Inl e
      | Inr y \<Rightarrow> (case mapE f xs of Inl e \<Rightarrow> Inl e | Inr ys \<Rightarrow> Inr (y # ys)))"

lemma mapE_total: "(\<And>x. x \<in> set xs \<Longrightarrow> f x = Inr (g x)) \<Longrightarrow> mapE f xs = Inr (map g xs)"
  by (induction xs) auto

lemma mapE_length: "mapE f xs = Inr ys \<Longrightarrow> length ys = length xs"
  by (induction xs arbitrary: ys) (auto split: sum.splits)

section \<open>Insertion-ordered dictionaries\<close>

text \<open>
  A Python \<open>dict\<close> is an association list without repeated keys: \<open>AList.update\<close>
  overwrites in place or appends, \<open>AList.delete\<close> removes, and iteration follows the
  list. A Python \<open>set\<close> that is iterated over is a list without repetitions.
\<close>

type_synonym ('k, 'v) dict = "('k \<times> 'v) list"

abbreviation dict_get :: "('k, 'v) dict \<Rightarrow> 'k \<Rightarrow> 'v option" where
  "dict_get \<equiv> map_of"

abbreviation dict_set :: "'k \<Rightarrow> 'v \<Rightarrow> ('k, 'v) dict \<Rightarrow> ('k, 'v) dict" where
  "dict_set \<equiv> AList.update"

abbreviation dict_del :: "'k \<Rightarrow> ('k, 'v) dict \<Rightarrow> ('k, 'v) dict" where
  "dict_del \<equiv> AList.delete"

abbreviation dict_ok :: "('k, 'v) dict \<Rightarrow> bool" where
  "dict_ok d \<equiv> distinct (map fst d)"

definition set_add :: "'a \<Rightarrow> 'a list \<Rightarrow> 'a list" where
  "set_add x xs = (if x \<in> set xs then xs else xs @ [x])"

definition set_discard :: "'a \<Rightarrow> 'a list \<Rightarrow> 'a list" where
  "set_discard x xs = filter (\<lambda>y. y \<noteq> x) xs"

lemma set_set_add [simp]: "set (set_add x xs) = insert x (set xs)"
  by (auto simp: set_add_def)

lemma set_set_discard [simp]: "set (set_discard x xs) = set xs - {x}"
  by (auto simp: set_discard_def)

lemma distinct_set_add [simp]: "distinct xs \<Longrightarrow> distinct (set_add x xs)"
  by (simp add: set_add_def)

lemma distinct_set_discard [simp]: "distinct xs \<Longrightarrow> distinct (set_discard x xs)"
  by (simp add: set_discard_def)

lemma map_of_dict_set [simp]: "map_of (AList.update k v d) = (map_of d)(k \<mapsto> v)"
  by (rule update_conv')

lemma map_of_dict_del [simp]: "map_of (AList.delete k d) = (map_of d)(k := None)"
  by (rule delete_conv')

lemma dict_ok_set [simp]: "dict_ok d \<Longrightarrow> dict_ok (AList.update k v d)"
  by (rule distinct_update)

lemma dict_ok_del [simp]: "dict_ok d \<Longrightarrow> dict_ok (AList.delete k d)"
  by (rule distinct_delete)

lemma dict_get_mem: "dict_ok d \<Longrightarrow> (k, v) \<in> set d \<longleftrightarrow> dict_get d k = Some v"
  by simp

lemma dict_set_new: "dict_get d k = None \<Longrightarrow> dict_set k v d = d @ [(k, v)]"
  by (induction d) (auto split: if_splits)

lemma length_dict_set_new: "dict_get d k = None \<Longrightarrow> length (AList.update k v d) = Suc (length d)"
  by (induction d) (auto split: if_splits)

lemma length_dict_del:
  "dict_ok d \<Longrightarrow> dict_get d k = Some v \<Longrightarrow> Suc (length (AList.delete k d)) = length d"
proof (induction d)
  case Nil
  then show ?case by simp
next
  case (Cons p d)
  show ?case
  proof (cases "fst p = k")
    case True
    with Cons.prems have "\<forall>q\<in>set d. k \<noteq> fst q" by (auto intro: rev_image_eqI)
    then have "filter (\<lambda>q. k \<noteq> fst q) d = d" by (simp add: filter_id_conv)
    with True show ?thesis by (simp add: AList.delete_eq case_prod_unfold)
  next
    case False
    with Cons have "Suc (length (AList.delete k d)) = length d" by auto
    with False show ?thesis by (cases p) (simp add: AList.delete_eq)
  qed
qed

lemma dict_len_card: "dict_ok d \<Longrightarrow> length d = card (dom (map_of d))"
  by (metis distinct_card dom_map_of_conv_image_fst length_map set_map)

section \<open>Bytes\<close>

type_synonym byte = "8 word"

type_synonym bytes = "byte list"

section \<open>Lists\<close>

text \<open>\<open>range(0, n, step)\<close> cuts a list into consecutive chunks; \<open>chunks\<close> keeps full ones only.\<close>

fun chunks :: "nat \<Rightarrow> 'a list \<Rightarrow> 'a list list" where
  "chunks 0 xs = []"
| "chunks (Suc k) xs =
     (if length xs < Suc k then [] else take (Suc k) xs # chunks (Suc k) (drop (Suc k) xs))"

lemma chunks_short [simp]: "length xs < k \<Longrightarrow> chunks k xs = []"
  by (cases k) auto

lemma chunks_step: "0 < k \<Longrightarrow> k \<le> length xs \<Longrightarrow> chunks k xs = take k xs # chunks k (drop k xs)"
  by (cases k) auto

declare chunks.simps(2) [simp del]

lemma chunks_induct [consumes 1, case_names short step]:
  assumes "0 < k"
    and "\<And>xs. length xs < k \<Longrightarrow> P xs"
    and "\<And>xs. k \<le> length xs \<Longrightarrow> P (drop k xs) \<Longrightarrow> P xs"
  shows "P xs"
proof (induction xs rule: length_induct)
  case (1 xs)
  show ?case
  proof (cases "length xs < k")
    case True
    then show ?thesis by (rule assms(2))
  next
    case False
    with assms(1) have "length (drop k xs) < length xs" by simp
    then have "P (drop k xs)" by (rule 1 [rule_format])
    moreover have "k \<le> length xs" using False by simp
    ultimately show ?thesis by (rule assms(3) [rotated])
  qed
qed

lemma length_chunks:
  assumes k: "0 < k"
  shows "length (chunks k xs) = length xs div k"
  using k
proof (induction xs rule: chunks_induct)
  case (step xs)
  with k show ?case by (simp add: chunks_step le_div_geq)
qed simp_all

lemma chunks_all_full: "c \<in> set (chunks k xs) \<Longrightarrow> length c = k"
proof (cases "0 < k")
  case k: True
  then show "c \<in> set (chunks k xs) \<Longrightarrow> length c = k"
  proof (induction xs rule: chunks_induct)
    case (step xs)
    with k show ?case by (auto simp: chunks_step)
  qed simp_all
qed simp

lemma concat_chunks:
  assumes k: "0 < k"
  shows "concat (chunks k xs) = take (length xs div k * k) xs"
  using k
proof (induction xs rule: chunks_induct)
  case (step xs)
  have *: "length xs div k = Suc ((length xs - k) div k)"
    using k step by (simp add: le_div_geq)
  have "concat (chunks k xs) = take k xs @ take ((length xs - k) div k * k) (drop k xs)"
    using k step by (simp add: chunks_step)
  also have "\<dots> = take (k + (length xs - k) div k * k) xs"
    by (simp add: take_add)
  finally show ?case by (simp add: *)
qed simp_all

end
