(* ===== verification/Radix_Tree.thy ===== *)
theory Radix_Tree
  imports Prelude
begin

text \<open>
  The block-level radix tree of \<open>src/sparsevllm/engine/prefix_cache.py\<close>
  (\<open>RadixTreeNode\<close>, \<open>RadixTreeBackend\<close>). Nodes are mutable objects with parent and child
  pointers, so the model is an explicit store: a node is an address, the store maps
  addresses to node records, and address 0 is the root. The location map and the set of
  leaf block ids are kept next to the store exactly as the code keeps them.
\<close>

section \<open>State\<close>

record 'b rnode =
  segment :: "'b list"
  parent :: "nat option"
  children :: "('b, nat) dict"

record 'b radix =
  heap :: "nat \<Rightarrow> 'b rnode"
  next_node :: nat
  locations :: "('b, nat \<times> nat) dict"
  leaf_ids :: "'b list"

definition new_node :: "'b rnode" where
  "new_node = \<lparr>segment = [], parent = None, children = []\<rparr>"

definition empty_radix :: "'b radix" where
  "empty_radix = \<lparr>heap = (\<lambda>_. new_node), next_node = 1, locations = [], leaf_ids = []\<rparr>"

abbreviation (input) root_node :: nat where
  "root_node \<equiv> 0"

abbreviation seg :: "'b radix \<Rightarrow> nat \<Rightarrow> 'b list" where
  "seg s n \<equiv> segment (heap s n)"

abbreviation par :: "'b radix \<Rightarrow> nat \<Rightarrow> nat option" where
  "par s n \<equiv> parent (heap s n)"

abbreviation kids :: "'b radix \<Rightarrow> nat \<Rightarrow> ('b, nat) dict" where
  "kids s n \<equiv> children (heap s n)"

abbreviation loc :: "'b radix \<Rightarrow> 'b \<Rightarrow> (nat \<times> nat) option" where
  "loc s b \<equiv> dict_get (locations s) b"

definition upd_node :: "nat \<Rightarrow> ('b rnode \<Rightarrow> 'b rnode) \<Rightarrow> 'b radix \<Rightarrow> 'b radix" where
  "upd_node n f s = s\<lparr>heap := (heap s)(n := f (heap s n))\<rparr>"

definition alloc_node :: "'b rnode \<Rightarrow> 'b radix \<Rightarrow> nat \<times> 'b radix" where
  "alloc_node x s =
     (next_node s, s\<lparr>heap := (heap s)(next_node s := x), next_node := next_node s + 1\<rparr>)"

section \<open>Index maintenance\<close>

definition index_segment :: "nat \<Rightarrow> 'b radix \<Rightarrow> 'b radix" where
  "index_segment n s =
     s\<lparr>locations := fold (\<lambda>(i, b). dict_set b (n, i)) (enumerate 0 (seg s n)) (locations s)\<rparr>"

definition unindex_segment :: "'b list \<Rightarrow> 'b radix \<Rightarrow> 'b radix" where
  "unindex_segment bs s = s\<lparr>locations := fold dict_del bs (locations s)\<rparr>"

definition discard_leaf :: "nat \<Rightarrow> 'b radix \<Rightarrow> 'b radix" where
  "discard_leaf n s =
     (if seg s n \<noteq> [] then s\<lparr>leaf_ids := set_discard (last (seg s n)) (leaf_ids s)\<rparr> else s)"

definition add_leaf :: "nat \<Rightarrow> 'b radix \<Rightarrow> 'b radix" where
  "add_leaf n s =
     (if seg s n \<noteq> [] \<and> kids s n = []
      then s\<lparr>leaf_ids := set_add (last (seg s n)) (leaf_ids s)\<rparr> else s)"

definition split_after :: "nat \<Rightarrow> nat \<Rightarrow> 'b radix \<Rightarrow> 'b radix" where
  "split_after n i s =
     (let old_segment = seg s n;
          prefix = take (i + 1) old_segment;
          suffix = drop (i + 1) old_segment
      in if suffix = [] then s
      else
        (let old_children = kids s n;
             s1 = unindex_segment old_segment s;
             (m, s2) = alloc_node \<lparr>segment = suffix, parent = Some n, children = old_children\<rparr> s1;
             s3 = fold (\<lambda>c. upd_node c (\<lambda>x. x\<lparr>parent := Some m\<rparr>)) (map snd old_children) s2;
             s4 = upd_node n (\<lambda>x. x\<lparr>segment := prefix, children := [(hd suffix, m)]\<rparr>) s3
         in index_segment m (index_segment n s4)))"

section \<open>Insertion of one block\<close>

definition insert_child :: "'b option \<Rightarrow> 'b \<Rightarrow> ('b radix, py_error, unit) eff" where
  "insert_child parent_block_id block_id s =
     (if loc s block_id \<noteq> None then (Inr (), s)
      else case parent_block_id of
        None \<Rightarrow>
          if dict_get (kids s root_node) block_id \<noteq> None
          then (Inl (RuntimeError ''Radix tree root child exists without a block location.''), s)
          else
            (let (c, s1) = alloc_node
                   \<lparr>segment = [block_id], parent = Some root_node, children = []\<rparr> s;
                 s2 = upd_node root_node
                   (\<lambda>x. x\<lparr>children := dict_set block_id c (children x)\<rparr>) s1
             in (Inr (), add_leaf c (index_segment c s2)))
      | Some p \<Rightarrow>
          (case loc s p of
             None \<Rightarrow>
               (Inl (KeyError ''Prefix cache parent block id is not present in radix tree.''), s)
           | Some (n, i) \<Rightarrow>
               (let s1 = split_after n i s;
                    s2 = (if kids s1 n = [] then discard_leaf n s1 else s1)
                in if dict_get (kids s2 n) block_id \<noteq> None
                   then (Inl (RuntimeError ''Radix tree child exists without a block location.''), s2)
                   else
                     (let (c, s3) = alloc_node
                            \<lparr>segment = [block_id], parent = Some n, children = []\<rparr> s2;
                          s4 = upd_node n
                            (\<lambda>x. x\<lparr>children := dict_set block_id c (children x)\<rparr>) s3
                      in (Inr (), add_leaf c (index_segment c s4))))))"

section \<open>Lookup\<close>

text \<open>
  The inner \<open>for\<close> loop of \<open>lookup\<close> over one edge: it either leaves the function
  (\<open>None\<close>) or goes on below the edge with the ids that are left. The ids are those of
  the first \<open>limit\<close> positions not yet matched, so \<open>hit_count >= limit\<close> is an empty list.
\<close>

fun walk_segment ::
    "'b list \<Rightarrow> 'b list \<Rightarrow> nat \<times> 'b option \<Rightarrow> (nat \<times> 'b option) \<times> 'b list option" where
  "walk_segment [] ids (hit_count, last_id) = ((hit_count, last_id), Some ids)"
| "walk_segment (x # xs) [] (hit_count, last_id) = ((hit_count, last_id), None)"
| "walk_segment (x # xs) (y # ys) (hit_count, last_id) =
     (if y \<noteq> x then ((hit_count, last_id), None)
      else walk_segment xs ys (hit_count + 1, Some x))"

partial_function (option) lookup_loop ::
    "'b radix \<Rightarrow> nat \<Rightarrow> 'b list \<Rightarrow> nat \<times> 'b option \<Rightarrow> (nat \<times> 'b option) option" where
  "lookup_loop s n ids r =
     (case ids of
        [] \<Rightarrow> Some r
      | b # _ \<Rightarrow>
          (case dict_get (kids s n) b of
             None \<Rightarrow> Some r
           | Some c \<Rightarrow>
               (case walk_segment (seg s c) ids r of
                  (r', None) \<Rightarrow> Some r'
                | (r', Some rest) \<Rightarrow> lookup_loop s c rest r')))"

definition radix_lookup :: "'b radix \<Rightarrow> 'b list \<Rightarrow> int \<Rightarrow> (nat \<times> 'b option) res" where
  "radix_lookup s block_ids max_blocks =
     (let limit = min max_blocks (int (length block_ids))
      in returns (lookup_loop s root_node (take (nat limit) block_ids) (0, None)))"

section \<open>Removal, paths, subtrees\<close>

definition remove_block :: "'b \<Rightarrow> ('b radix, py_error, unit) eff" where
  "remove_block block_id s =
     (case loc s block_id of
        None \<Rightarrow> (Inl (KeyError ''Prefix cache block id is not present in radix tree.''), s)
      | Some (n, i) \<Rightarrow>
          if Suc i \<noteq> length (seg s n) \<or> kids s n \<noteq> []
          then (Inl (RuntimeError ''Cannot remove a prefix cache tree block with live children.''), s)
          else case par s n of
            None \<Rightarrow> (Inl (RuntimeError ''Cannot remove radix tree root.''), s)
          | Some p \<Rightarrow>
              (let s1 = s\<lparr>locations := dict_del block_id (locations s),
                          leaf_ids := set_discard block_id (leaf_ids s)\<rparr>
               in if length (seg s n) = 1
                  then
                    (if dict_get (kids s p) (hd (seg s n)) = None
                     then (Inl (KeyError ''children''), s1)
                     else (Inr (), add_leaf p
                       (upd_node p (\<lambda>x. x\<lparr>children := dict_del (hd (seg s n)) (children x)\<rparr>) s1)))
                  else (Inr (), add_leaf n
                         (upd_node n (\<lambda>x. x\<lparr>segment := butlast (segment x)\<rparr>) s1))))"

partial_function (option) path_up :: "'b radix \<Rightarrow> nat \<Rightarrow> 'b list list \<Rightarrow> 'b list list option" where
  "path_up s n segments =
     (case par s n of
        None \<Rightarrow> Some segments
      | Some p \<Rightarrow> path_up s p (if seg s p \<noteq> [] then segments @ [seg s p] else segments))"

definition path_to_block :: "'b radix \<Rightarrow> 'b \<Rightarrow> 'b list res" where
  "path_to_block s block_id =
     (case loc s block_id of
        None \<Rightarrow> Inl (KeyError ''Prefix cache block id is not present in radix tree.'')
      | Some (n, i) \<Rightarrow>
          returns (map_option (\<lambda>segments. concat (rev segments))
                     (path_up s n [take (i + 1) (seg s n)])))"

text \<open>
  The three traversals of the class are the same stack loop: pop a node, visit it, push
  its children.
\<close>

partial_function (option) dfs ::
    "'b radix \<Rightarrow> (nat \<Rightarrow> 'a \<Rightarrow> 'a) \<Rightarrow> nat list \<Rightarrow> 'a \<Rightarrow> 'a option" where
  "dfs s visit stack acc =
     (if stack = [] then Some acc
      else dfs s visit (butlast stack @ map snd (kids s (last stack))) (visit (last stack) acc))"

definition subtree_block_ids :: "'b radix \<Rightarrow> 'b \<Rightarrow> 'b list res" where
  "subtree_block_ids s root_block_id =
     (case loc s root_block_id of
        None \<Rightarrow> Inl (KeyError ''Prefix cache subtree root is not present.'')
      | Some (n, i) \<Rightarrow>
          returns (dfs s (\<lambda>m result. result @ seg s m) (map snd (kids s n)) (drop i (seg s n))))"

definition child_count :: "'b radix \<Rightarrow> 'b \<Rightarrow> nat res" where
  "child_count s block_id =
     (case loc s block_id of
        None \<Rightarrow> Inl (KeyError ''Prefix cache block id is not present in radix tree.'')
      | Some (n, i) \<Rightarrow>
          if Suc i < length (seg s n) then Inr 1 else Inr (length (kids s n)))"

definition child_block_ids :: "'b radix \<Rightarrow> 'b \<Rightarrow> 'b list res" where
  "child_block_ids s block_id =
     (case loc s block_id of
        None \<Rightarrow> Inl (KeyError ''Prefix cache block id is not present in radix tree.'')
      | Some (n, i) \<Rightarrow>
          if Suc i < length (seg s n) then Inr [seg s n ! Suc i]
          else Inr (map (\<lambda>c. hd (seg s c)) (map snd (kids s n))))"

definition leaf_block_ids :: "'b radix \<Rightarrow> 'b list" where
  "leaf_block_ids s = leaf_ids s"

definition radix_stats :: "'b radix \<Rightarrow> (nat \<times> nat) res" where
  "radix_stats s =
     returns (dfs s (\<lambda>n (node_count, edge_count).
                       (node_count + 1, edge_count + length (kids s n))) [root_node] (0, 0))"

definition rebuild_locations :: "'b radix \<Rightarrow> 'b radix res" where
  "rebuild_locations s =
     returns (map_option (\<lambda>(locs, leaves). s\<lparr>locations := locs, leaf_ids := leaves\<rparr>)
       (dfs s (\<lambda>n (locs, leaves).
          (fold (\<lambda>(i, b). dict_set b (n, i)) (enumerate 0 (seg s n)) locs,
           if seg s n \<noteq> [] \<and> kids s n = [] then set_add (last (seg s n)) leaves else leaves))
        (map snd (kids s root_node)) ([], [])))"

section \<open>Insertion of a whole path\<close>

fun common_len :: "'b list \<Rightarrow> 'b list \<Rightarrow> nat" where
  "common_len (x # xs) (y # ys) = (if x = y then Suc (common_len xs ys) else 0)"
| "common_len _ _ = 0"

text \<open>
  The loop of \<open>insert\<close>: \<open>ids\<close> is \<open>block_ids[offset:]\<close>, \<open>n\<close> the node reached.
\<close>

partial_function (option) insert_path_loop ::
    "nat \<Rightarrow> 'b list \<Rightarrow> 'b radix \<Rightarrow> (unit res \<times> 'b radix) option" where
  "insert_path_loop n ids s =
     (case ids of
        [] \<Rightarrow> Some (Inr (), s)
      | b # _ \<Rightarrow>
          (case dict_get (kids s n) b of
             None \<Rightarrow>
               (let s1 = (if kids s n = [] then discard_leaf n s else s);
                    (c, s2) = alloc_node \<lparr>segment = ids, parent = Some n, children = []\<rparr> s1;
                    s3 = upd_node n (\<lambda>x. x\<lparr>children := dict_set b c (children x)\<rparr>) s2
                in Some (Inr (), add_leaf c (index_segment c s3)))
           | Some c \<Rightarrow>
               (let common = common_len ids (seg s c)
                in if common = length (seg s c) then insert_path_loop c (drop common ids) s
                   else if common = 0 then
                     Some (Inl (RuntimeError
                       ''Radix tree child map is inconsistent with edge segment.''), s)
                   else
                     (let old_segment = seg s c;
                          s1 = unindex_segment old_segment s;
                          prefix = take common old_segment;
                          suffix = drop common old_segment;
                          (m, s2) = alloc_node
                            \<lparr>segment = prefix, parent = Some n, children = []\<rparr> s1;
                          s3 = upd_node n (\<lambda>x. x\<lparr>children := dict_set (hd prefix) m (children x)\<rparr>) s2;
                          s4 = upd_node c (\<lambda>x. x\<lparr>segment := suffix, parent := Some m\<rparr>) s3;
                          s5 = upd_node m (\<lambda>x. x\<lparr>children := dict_set (hd suffix) c (children x)\<rparr>) s4;
                          rest = drop common ids;
                          s6 = (if rest \<noteq> [] then
                                  (let (d, t1) = alloc_node
                                         \<lparr>segment = rest, parent = Some m, children = []\<rparr> s5;
                                       t2 = upd_node m
                                         (\<lambda>x. x\<lparr>children := dict_set (hd rest) d (children x)\<rparr>) t1
                                   in add_leaf d (index_segment d t2))
                                else s5)
                      in Some (Inr (), index_segment c (index_segment m s6))))))"

definition insert_path :: "'b list \<Rightarrow> ('b radix, py_error, unit) eff" where
  "insert_path block_ids s =
     (if block_ids = [] then (Inr (), s)
      else case insert_path_loop root_node block_ids s of
        None \<Rightarrow> (Inl Diverges, s)
      | Some r \<Rightarrow> r)"

end
