(* ===== verification/Radix_Invariant.thy ===== *)
theory Radix_Invariant
  imports Radix_Tree
begin

text \<open>
  The representation invariant of the radix tree store, the parent map it stands for, and
  the proofs that every operation keeps the one and acts as specified on the other.
\<close>

section \<open>Positions\<close>

fun pos :: "'b list \<Rightarrow> 'b \<Rightarrow> nat" where
  "pos [] b = 0"
| "pos (x # xs) b = (if x = b then 0 else Suc (pos xs b))"

lemma pos_nth: "b \<in> set xs \<Longrightarrow> pos xs b < length xs \<and> xs ! pos xs b = b"
  by (induction xs) auto

lemma pos_of_nth: "distinct xs \<Longrightarrow> i < length xs \<Longrightarrow> pos xs (xs ! i) = i"
  by (meson nth_eq_iff_index_eq nth_mem pos_nth)

lemma dict_index_fold:
  "distinct xs \<Longrightarrow>
   map_of (fold (\<lambda>(i, b). dict_set b (n, i)) (enumerate k xs) d) b =
     (if b \<in> set xs then Some (n, k + pos xs b) else map_of d b)"
  by (induction xs arbitrary: k d) auto

lemma dict_ok_index_fold:
  "dict_ok d \<Longrightarrow> dict_ok (fold (\<lambda>(i, b). dict_set b (n, i)) (enumerate k xs) d)"
  by (induction xs arbitrary: k d) auto

lemma dict_unindex_fold:
  "map_of (fold dict_del bs d) b = (if b \<in> set bs then None else map_of d b)"
  by (induction bs arbitrary: d) auto

lemma dict_ok_unindex_fold: "dict_ok d \<Longrightarrow> dict_ok (fold dict_del bs d)"
  by (induction bs arbitrary: d) auto

section \<open>Effect of the primitive writes\<close>

lemma upd_node_simps [simp]:
  "heap (upd_node n f s) = (heap s)(n := f (heap s n))"
  "next_node (upd_node n f s) = next_node s"
  "locations (upd_node n f s) = locations s"
  "leaf_ids (upd_node n f s) = leaf_ids s"
  by (simp_all add: upd_node_def)

lemma index_segment_simps [simp]:
  "heap (index_segment n s) = heap s"
  "next_node (index_segment n s) = next_node s"
  "leaf_ids (index_segment n s) = leaf_ids s"
  "dict_ok (locations s) \<Longrightarrow> dict_ok (locations (index_segment n s))"
  "distinct (seg s n) \<Longrightarrow> loc (index_segment n s) b =
     (if b \<in> set (seg s n) then Some (n, pos (seg s n) b) else loc s b)"
  by (simp_all add: index_segment_def dict_index_fold dict_ok_index_fold)

lemma unindex_segment_simps [simp]:
  "heap (unindex_segment bs s) = heap s"
  "next_node (unindex_segment bs s) = next_node s"
  "leaf_ids (unindex_segment bs s) = leaf_ids s"
  "dict_ok (locations s) \<Longrightarrow> dict_ok (locations (unindex_segment bs s))"
  "loc (unindex_segment bs s) b = (if b \<in> set bs then None else loc s b)"
  by (simp_all add: unindex_segment_def dict_unindex_fold dict_ok_unindex_fold)

lemma leaf_writes_simps [simp]:
  "heap (add_leaf n s) = heap s" "next_node (add_leaf n s) = next_node s"
  "locations (add_leaf n s) = locations s"
  "heap (discard_leaf n s) = heap s" "next_node (discard_leaf n s) = next_node s"
  "locations (discard_leaf n s) = locations s"
  "distinct (leaf_ids s) \<Longrightarrow> distinct (leaf_ids (add_leaf n s))"
  "distinct (leaf_ids s) \<Longrightarrow> distinct (leaf_ids (discard_leaf n s))"
  by (simp_all add: add_leaf_def discard_leaf_def)

lemma leaf_set_simps:
  "set (leaf_ids (add_leaf n s)) =
     (if seg s n \<noteq> [] \<and> kids s n = [] then insert (last (seg s n)) (set (leaf_ids s))
      else set (leaf_ids s))"
  "set (leaf_ids (discard_leaf n s)) =
     (if seg s n \<noteq> [] then set (leaf_ids s) - {last (seg s n)} else set (leaf_ids s))"
  by (simp_all add: add_leaf_def discard_leaf_def)

lemma reparent_fold:
  "heap (fold (\<lambda>c. upd_node c (\<lambda>x. x\<lparr>parent := Some m\<rparr>)) cs s) =
     (\<lambda>x. if x \<in> set cs then (heap s x)\<lparr>parent := Some m\<rparr> else heap s x)"
  "next_node (fold (\<lambda>c. upd_node c (\<lambda>x. x\<lparr>parent := Some m\<rparr>)) cs s) = next_node s"
  "locations (fold (\<lambda>c. upd_node c (\<lambda>x. x\<lparr>parent := Some m\<rparr>)) cs s) = locations s"
  "leaf_ids (fold (\<lambda>c. upd_node c (\<lambda>x. x\<lparr>parent := Some m\<rparr>)) cs s) = leaf_ids s"
  by (induction cs arbitrary: s) (auto simp: fun_eq_iff)

section \<open>The invariant\<close>

definition live :: "'b radix \<Rightarrow> nat \<Rightarrow> bool" where
  "live s n \<longleftrightarrow> n = 0 \<or> (\<exists>b i. loc s b = Some (n, i))"

definition radix_ok :: "'b radix \<Rightarrow> bool" where
  "radix_ok s \<longleftrightarrow>
     seg s 0 = [] \<and> par s 0 = None \<and> 0 < next_node s
     \<and> dict_ok (locations s) \<and> distinct (leaf_ids s)
     \<and> (\<forall>b n i. loc s b = Some (n, i) \<longrightarrow>
           n \<noteq> 0 \<and> n < next_node s \<and> i < length (seg s n) \<and> seg s n ! i = b)
     \<and> (\<forall>n i. live s n \<and> i < length (seg s n) \<longrightarrow> loc s (seg s n ! i) = Some (n, i))
     \<and> (\<forall>n. live s n \<longrightarrow> dict_ok (kids s n))
     \<and> (\<forall>n k c. live s n \<and> dict_get (kids s n) k = Some c \<longrightarrow>
           live s c \<and> c \<noteq> 0 \<and> hd (seg s c) = k \<and> par s c = Some n)
     \<and> (\<forall>n. live s n \<and> n \<noteq> 0 \<longrightarrow>
           (\<exists>p. par s n = Some p \<and> live s p \<and> dict_get (kids s p) (hd (seg s n)) = Some n))
     \<and> (\<forall>b. b \<in> set (leaf_ids s) \<longleftrightarrow>
           (\<exists>n. live s n \<and> n \<noteq> 0 \<and> kids s n = [] \<and> b = last (seg s n)))
     \<and> (\<exists>dep :: nat \<Rightarrow> nat. \<forall>n p. live s n \<and> n \<noteq> 0 \<and> par s n = Some p \<longrightarrow>
           dep n = dep p + length (seg s p))"

lemma radix_okI:
  fixes dep :: "nat \<Rightarrow> nat"
  assumes "seg s 0 = []" "par s 0 = None" "0 < next_node s" "dict_ok (locations s)"
    "distinct (leaf_ids s)"
    and "\<And>b n i. loc s b = Some (n, i) \<Longrightarrow>
           n \<noteq> 0 \<and> n < next_node s \<and> i < length (seg s n) \<and> seg s n ! i = b"
    and "\<And>n i. live s n \<Longrightarrow> i < length (seg s n) \<Longrightarrow> loc s (seg s n ! i) = Some (n, i)"
    and "\<And>n. live s n \<Longrightarrow> dict_ok (kids s n)"
    and "\<And>n k c. live s n \<Longrightarrow> dict_get (kids s n) k = Some c \<Longrightarrow>
           live s c \<and> c \<noteq> 0 \<and> hd (seg s c) = k \<and> par s c = Some n"
    and "\<And>n. live s n \<Longrightarrow> n \<noteq> 0 \<Longrightarrow>
           \<exists>p. par s n = Some p \<and> live s p \<and> dict_get (kids s p) (hd (seg s n)) = Some n"
    and "\<And>b. b \<in> set (leaf_ids s) \<longleftrightarrow>
           (\<exists>n. live s n \<and> n \<noteq> 0 \<and> kids s n = [] \<and> b = last (seg s n))"
    and "\<And>n p. live s n \<Longrightarrow> n \<noteq> 0 \<Longrightarrow> par s n = Some p \<Longrightarrow> dep n = dep p + length (seg s p)"
  shows "radix_ok s"
  unfolding radix_ok_def using assms by blast

lemma ok_root: "radix_ok s \<Longrightarrow> seg s 0 = [] \<and> par s 0 = None \<and> 0 < next_node s"
  by (simp add: radix_ok_def)

lemma ok_dicts: "radix_ok s \<Longrightarrow> dict_ok (locations s)" "radix_ok s \<Longrightarrow> distinct (leaf_ids s)"
  by (simp_all add: radix_ok_def)

lemma ok_loc:
  "radix_ok s \<Longrightarrow> loc s b = Some (n, i) \<Longrightarrow>
     n \<noteq> 0 \<and> n < next_node s \<and> i < length (seg s n) \<and> seg s n ! i = b"
  unfolding radix_ok_def by blast

lemma ok_index:
  "radix_ok s \<Longrightarrow> live s n \<Longrightarrow> i < length (seg s n) \<Longrightarrow> loc s (seg s n ! i) = Some (n, i)"
  unfolding radix_ok_def by blast

lemma ok_kids_dict: "radix_ok s \<Longrightarrow> live s n \<Longrightarrow> dict_ok (kids s n)"
  unfolding radix_ok_def by blast

lemma ok_child:
  "radix_ok s \<Longrightarrow> live s n \<Longrightarrow> dict_get (kids s n) k = Some c \<Longrightarrow>
     live s c \<and> c \<noteq> 0 \<and> hd (seg s c) = k \<and> par s c = Some n"
  unfolding radix_ok_def by blast

lemma ok_parent:
  "radix_ok s \<Longrightarrow> live s n \<Longrightarrow> n \<noteq> 0 \<Longrightarrow>
     \<exists>p. par s n = Some p \<and> live s p \<and> dict_get (kids s p) (hd (seg s n)) = Some n"
  unfolding radix_ok_def by blast

lemma ok_leaf:
  "radix_ok s \<Longrightarrow>
     b \<in> set (leaf_ids s) \<longleftrightarrow> (\<exists>n. live s n \<and> n \<noteq> 0 \<and> kids s n = [] \<and> b = last (seg s n))"
  unfolding radix_ok_def by blast

lemma ok_depth:
  assumes "radix_ok s"
  obtains dep :: "nat \<Rightarrow> nat"
  where "\<And>n p. live s n \<Longrightarrow> n \<noteq> 0 \<Longrightarrow> par s n = Some p \<Longrightarrow> dep n = dep p + length (seg s p)"
  using assms unfolding radix_ok_def by blast

lemma loc_live: "loc s b = Some (n, i) \<Longrightarrow> live s n"
  by (auto simp: live_def)

lemma live_root [simp]: "live s 0"
  by (simp add: live_def)

lemma ok_live_bound: "radix_ok s \<Longrightarrow> live s n \<Longrightarrow> n < next_node s"
  using ok_loc ok_root by (fastforce simp: live_def)

lemma ok_seg_nonempty: "radix_ok s \<Longrightarrow> live s n \<Longrightarrow> n \<noteq> 0 \<Longrightarrow> seg s n \<noteq> []"
  using ok_loc by (fastforce simp: live_def)

lemma ok_seg_nonempty_iff: "radix_ok s \<Longrightarrow> live s n \<Longrightarrow> seg s n \<noteq> [] \<longleftrightarrow> n \<noteq> 0"
  by (metis ok_root ok_seg_nonempty)

lemma ok_seg_distinct: "radix_ok s \<Longrightarrow> live s n \<Longrightarrow> distinct (seg s n)"
  unfolding distinct_conv_nth by (metis ok_index option.inject prod.inject)

lemma ok_loc_pos:
  "radix_ok s \<Longrightarrow> live s n \<Longrightarrow> b \<in> set (seg s n) \<Longrightarrow> loc s b = Some (n, pos (seg s n) b)"
  by (metis ok_index pos_nth)

lemma ok_kid_node:
  assumes "radix_ok s" "live s n" "c \<in> snd ` set (kids s n)"
  shows "live s c" "c \<noteq> 0" "par s c = Some n" "dict_get (kids s n) (hd (seg s c)) = Some c"
proof -
  from assms obtain k where "dict_get (kids s n) k = Some c"
    using ok_kids_dict by fastforce
  with ok_child [OF assms(1,2) this] show "live s c" "c \<noteq> 0" "par s c = Some n"
    "dict_get (kids s n) (hd (seg s c)) = Some c" by auto
qed

lemma ok_not_own_kid:
  assumes ok: "radix_ok s" and "live s n" shows "n \<notin> snd ` set (kids s n)"
proof
  assume a: "n \<in> snd ` set (kids s n)"
  obtain dep :: "nat \<Rightarrow> nat" where
    "\<And>n p. live s n \<Longrightarrow> n \<noteq> 0 \<Longrightarrow> par s n = Some p \<Longrightarrow> dep n = dep p + length (seg s p)"
    using ok by (rule ok_depth) blast
  from this [of n n] ok_kid_node [OF assms a] have "seg s n = []" by auto
  with ok_kid_node [OF assms a] ok_seg_nonempty [OF ok] show False by blast
qed

lemma radix_ok_empty: "radix_ok empty_radix"
  by (rule radix_okI [where dep = "\<lambda>_. 0"])
    (auto simp: empty_radix_def new_node_def live_def)

section \<open>The parent map\<close>

text \<open>
  The abstraction: the parent of a block is the block before it on its edge, or the last
  block of the edge above, or none below the root.
\<close>

definition above :: "'b radix \<Rightarrow> nat \<Rightarrow> 'b option" where
  "above s n = (case par s n of
     None \<Rightarrow> None | Some p \<Rightarrow> if seg s p = [] then None else Some (last (seg s p)))"

definition parent_map :: "'b radix \<Rightarrow> 'b \<Rightarrow> 'b option option" where
  "parent_map s b = (case loc s b of
     None \<Rightarrow> None
   | Some (n, i) \<Rightarrow> Some (if i = 0 then above s n else Some (seg s n ! (i - 1))))"

lemma parent_map_None: "parent_map s b = None \<longleftrightarrow> loc s b = None"
  by (auto simp: parent_map_def split: option.splits)

lemma dom_parent_map: "dom (parent_map s) = dom (loc s)"
  by (auto simp: dom_def parent_map_None)

lemma parent_map_Some:
  "loc s b = Some (n, i) \<Longrightarrow>
     parent_map s b = Some (if i = 0 then above s n else Some (seg s n ! (i - 1)))"
  by (simp add: parent_map_def)

section \<open>Splitting an edge\<close>

lemma split_after_nothing: "length (seg s n) \<le> i + 1 \<Longrightarrow> split_after n i s = s"
  by (simp add: split_after_def)

lemma split_after_view:
  assumes ok: "radix_ok s" and n: "live s n" "n \<noteq> 0" and i: "i + 1 < length (seg s n)"
  defines "m \<equiv> next_node s" and "t \<equiv> split_after n i s"
  shows "heap t = (\<lambda>x.
      if x = n then \<lparr>segment = take (i + 1) (seg s n), parent = par s n,
                     children = [(hd (drop (i + 1) (seg s n)), m)]\<rparr>
      else if x = m then \<lparr>segment = drop (i + 1) (seg s n), parent = Some n, children = kids s n\<rparr>
      else if x \<in> snd ` set (kids s n) then (heap s x)\<lparr>parent := Some m\<rparr>
      else heap s x)" (is "?heap")
    and "next_node t = Suc m" "leaf_ids t = leaf_ids s"
    and "dict_ok (locations t)"
    and "loc t b = (if b \<in> set (drop (i + 1) (seg s n)) then Some (m, pos (drop (i + 1) (seg s n)) b)
                    else loc s b)" (is "?loc b")
proof -
  define s4 where "s4 = upd_node n
      (\<lambda>x. x\<lparr>segment := take (i + 1) (seg s n), children := [(hd (drop (i + 1) (seg s n)), m)]\<rparr>)
    (fold (\<lambda>c. upd_node c (\<lambda>x. x\<lparr>parent := Some m\<rparr>)) (map snd (kids s n))
      (snd (alloc_node \<lparr>segment = drop (i + 1) (seg s n), parent = Some n, children = kids s n\<rparr>
        (unindex_segment (seg s n) s))))"
  have t: "t = index_segment m (index_segment n s4)"
    using i by (simp add: t_def split_after_def s4_def alloc_node_def m_def Let_def case_prod_unfold)
  have nm: "n \<noteq> m" "n < m" using ok_live_bound [OF ok n(1)] by (auto simp: m_def)
  have fresh: "m \<notin> snd ` set (kids s n)"
    using ok_kid_node(1) [OF ok n(1)] ok_live_bound [OF ok] by (auto simp: m_def)
  have own: "n \<notin> snd ` set (kids s n)" by (rule ok_not_own_kid [OF ok n(1)])
  have h4: "heap s4 = (\<lambda>x.
      if x = n then \<lparr>segment = take (i + 1) (seg s n), parent = par s n,
                     children = [(hd (drop (i + 1) (seg s n)), m)]\<rparr>
      else if x = m then \<lparr>segment = drop (i + 1) (seg s n), parent = Some n, children = kids s n\<rparr>
      else if x \<in> snd ` set (kids s n) then (heap s x)\<lparr>parent := Some m\<rparr>
      else heap s x)"
  proof
    fix x
    show "heap s4 x = (if x = n then \<lparr>segment = take (i + 1) (seg s n), parent = par s n,
                     children = [(hd (drop (i + 1) (seg s n)), m)]\<rparr>
      else if x = m then \<lparr>segment = drop (i + 1) (seg s n), parent = Some n, children = kids s n\<rparr>
      else if x \<in> snd ` set (kids s n) then (heap s x)\<lparr>parent := Some m\<rparr>
      else heap s x)"
      using nm(1) fresh own
      by (cases "x = n"; cases "x = m") (simp_all add: s4_def reparent_fold alloc_node_def m_def)
  qed
  have d: "distinct (seg s n)" by (rule ok_seg_distinct [OF ok n(1)])
  have locs4: "loc s4 b = (if b \<in> set (seg s n) then None else loc s b)" for b
    by (simp add: s4_def reparent_fold alloc_node_def)
  have dict4: "dict_ok (locations s4)"
    using ok_dicts(1) [OF ok] by (simp add: s4_def reparent_fold alloc_node_def)
  show ?heap using h4 by (simp add: t)
  show "next_node t = Suc m" "leaf_ids t = leaf_ids s"
    by (simp_all add: t s4_def reparent_fold alloc_node_def m_def)
  show "dict_ok (locations t)" using dict4 by (simp add: t)
  have part: "seg s n = take (i + 1) (seg s n) @ drop (i + 1) (seg s n)" by simp
  have prefix: "b \<in> set (take (i + 1) (seg s n)) \<Longrightarrow>
      loc s b = Some (n, pos (take (i + 1) (seg s n)) b)" for b
  proof -
    assume b: "b \<in> set (take (i + 1) (seg s n))"
    let ?j = "pos (take (i + 1) (seg s n)) b"
    from pos_nth [OF b] have j: "?j < length (seg s n)" "seg s n ! ?j = b" by auto
    from ok_index [OF ok n(1) j(1)] show ?thesis by (simp only: j(2))
  qed
  have sets: "set (seg s n) = set (take (i + 1) (seg s n)) \<union> set (drop (i + 1) (seg s n))"
    by (metis part set_append)
  consider "b \<in> set (drop (i + 1) (seg s n))"
    | "b \<in> set (take (i + 1) (seg s n))" "b \<notin> set (drop (i + 1) (seg s n))"
    | "b \<notin> set (seg s n)" using sets by blast
  then show "?loc b"
  proof cases
    case 2
    then show ?thesis using d nm by (simp add: t h4 locs4 prefix)
  qed (use d nm sets in \<open>simp_all add: t h4 locs4\<close>)
qed

lemma split_after_fields:
  assumes ok: "radix_ok s" and n: "live s n" "n \<noteq> 0" and i: "i + 1 < length (seg s n)"
  shows "seg (split_after n i s) x =
           (if x = n then take (i + 1) (seg s n)
            else if x = next_node s then drop (i + 1) (seg s n) else seg s x)"
    and "par (split_after n i s) x =
           (if x = n then par s n else if x = next_node s then Some n
            else if x \<in> snd ` set (kids s n) then Some (next_node s) else par s x)"
    and "kids (split_after n i s) x =
           (if x = n then [(hd (drop (i + 1) (seg s n)), next_node s)]
            else if x = next_node s then kids s n else kids s x)"
  by (simp_all add: split_after_view(1) [OF assms])

lemma split_after_live:
  assumes ok: "radix_ok s" and n: "live s n" "n \<noteq> 0" and i: "i + 1 < length (seg s n)"
  shows "live (split_after n i s) x \<longleftrightarrow> live s x \<or> x = next_node s"
proof
  assume "live (split_after n i s) x"
  then show "live s x \<or> x = next_node s"
    unfolding live_def split_after_view(5) [OF assms] by (auto split: if_splits)
next
  note vw = split_after_view(5) [OF assms]
  have d: "distinct (seg s n)" by (rule ok_seg_distinct [OF ok n(1)])
  assume "live s x \<or> x = next_node s"
  then consider "x = 0" | "x = next_node s" | "x = n"
    | b j where "loc s b = Some (x, j)" "x \<noteq> n" by (auto simp: live_def)
  then show "live (split_after n i s) x"
  proof cases
    case 2
    have "hd (drop (i + 1) (seg s n)) \<in> set (drop (i + 1) (seg s n))" using i by simp
    with 2 show ?thesis by (auto simp: live_def vw)
  next
    case 3
    have z: "0 < length (seg s n)" using i by linarith
    have "seg s n ! 0 \<in> set (take (i + 1) (seg s n))" using z by (cases "seg s n") auto
    with d have "seg s n ! 0 \<notin> set (drop (i + 1) (seg s n))"
      by (metis append_take_drop_id disjoint_iff distinct_append)
    with 3 ok_index [OF ok n(1) z] show ?thesis by (auto simp: live_def vw)
  next
    case (4 b j)
    then have "b \<notin> set (drop (i + 1) (seg s n))"
      using ok_loc_pos [OF ok n(1)] by (metis in_set_dropD option.inject prod.inject)
    with 4 show ?thesis by (auto simp: live_def vw)
  qed simp
qed

lemma split_after_ok:
  assumes ok: "radix_ok s" and n: "live s n" "n \<noteq> 0" and i: "i + 1 < length (seg s n)"
  shows "radix_ok (split_after n i s)"
proof -
  let ?t = "split_after n i s" and ?m = "next_node s"
  let ?P = "take (i + 1) (seg s n)" and ?S = "drop (i + 1) (seg s n)"
  note fl = split_after_fields [OF assms] and lv = split_after_live [OF assms]
    and vw = split_after_view [OF assms]
  have m: "?m \<noteq> n" "?m \<noteq> 0" "\<not> live s ?m"
    using ok_live_bound [OF ok] ok_root [OF ok] n by auto
  have d: "distinct (seg s n)" by (rule ok_seg_distinct [OF ok n(1)])
  have SP: "b \<in> set ?S \<Longrightarrow> b \<notin> set ?P" for b
    using d by (metis append_take_drop_id disjoint_iff distinct_append)
  have S0: "?S \<noteq> []" using i by simp
  have hdP: "hd ?P = hd (seg s n)" using i by (cases "seg s n") auto
  have own: "n \<notin> snd ` set (kids s n)" by (rule ok_not_own_kid [OF ok n(1)])
  have kid: "live s c" "c \<noteq> 0" "par s c = Some n" "dict_get (kids s n) (hd (seg s c)) = Some c"
    "c \<noteq> n" "c \<noteq> ?m" if "c \<in> snd ` set (kids s n)" for c
    using ok_kid_node [OF ok n(1) that] own that m(3) by auto
  have par_n: "x \<in> snd ` set (kids s n)" if "live s x" "x \<noteq> 0" "par s x = Some n" for x
    using ok_parent [OF ok that(1,2)] that(3) by (force dest: map_of_SomeD)
  have inS: "j \<le> i" if l: "loc s b = Some (n, j)" and b: "b \<notin> set ?S" for b j
  proof (rule ccontr)
    assume "\<not> j \<le> i"
    with ok_loc [OF ok l] have "j - (i + 1) < length ?S" "?S ! (j - (i + 1)) = b" by auto
    with b show False by (metis nth_mem)
  qed
  obtain dep :: "nat \<Rightarrow> nat" where
    dep: "\<And>n p. live s n \<Longrightarrow> n \<noteq> 0 \<Longrightarrow> par s n = Some p \<Longrightarrow> dep n = dep p + length (seg s p)"
    using ok by (rule ok_depth) blast
  show ?thesis
  proof (rule radix_okI [where dep = "\<lambda>x. if x = ?m then dep n + (i + 1) else dep x"], goal_cases)
    case 1 show ?case using ok_root [OF ok] m n by (simp add: fl)
  next
    case 2 show ?case using ok_root [OF ok] m n kid(2) by (auto simp: fl)
  next
    case 3 show ?case by (simp add: vw)
  next
    case 4 show ?case by (simp add: vw)
  next
    case 5 show ?case using ok_dicts [OF ok] by (simp add: vw)
  next
    case (6 b x j)
    show ?case
    proof (cases "b \<in> set ?S")
      case True
      with 6 pos_nth [OF True] m show ?thesis by (auto simp: vw(5) vw(2) fl(1))
    next
      case False
      with 6 have l: "loc s b = Some (x, j)" by (simp add: vw(5))
      from ok_loc [OF ok l] m loc_live [OF l] have "x \<noteq> ?m" by auto
      with ok_loc [OF ok l] inS [of b j] l False i show ?thesis
        by (auto simp: fl(1) vw(2) min_def)
    qed
  next
    case (7 x j)
    then consider "x = n" | "x = ?m" | "x \<noteq> n" "x \<noteq> ?m" "live s x" by (auto simp: lv)
    then show ?case
    proof cases
      case 1
      with 7(2) have j: "j < length (seg s n)" "j < i + 1" by (auto simp: fl(1))
      then have "?P ! j \<in> set ?P" by (intro nth_mem) simp
      with SP have "seg s n ! j \<notin> set ?S" using j by auto
      with 1 j m ok_index [OF ok n(1) j(1)] show ?thesis by (simp add: fl(1) vw(5))
    next
      case 2
      with 7(2) m have j: "j < length ?S" by (simp add: fl(1))
      with d have "pos ?S (?S ! j) = j" by (intro pos_of_nth) simp_all
      moreover from j have "?S ! j \<in> set ?S" by (rule nth_mem)
      ultimately show ?thesis using 2 m by (simp only: fl(1) vw(5) if_True if_False simp_thms)
    next
      case 3
      with 7(2) have j: "j < length (seg s x)" by (simp add: fl(1))
      with ok_index [OF ok 3(3) j] 3(1) have "seg s x ! j \<notin> set ?S"
        using ok_loc_pos [OF ok n(1)] by (metis in_set_dropD option.inject prod.inject)
      with 3 j ok_index [OF ok 3(3) j] show ?thesis by (simp add: fl(1) vw(5))
    qed
  next
    case (8 x)
    with ok_kids_dict [OF ok] n show ?case by (auto simp: fl lv)
  next
    case (9 x k c)
    then consider "x = n" | "x = ?m" | "x \<noteq> n" "x \<noteq> ?m" "live s x" by (auto simp: lv)
    then show ?case
    proof cases
      case 1
      with 9 m show ?thesis by (auto simp: fl lv split: if_splits)
    next
      case 2
      with 9 m have c: "dict_get (kids s n) k = Some c" by (simp add: fl)
      then have "c \<in> snd ` set (kids s n)" by (force dest: map_of_SomeD)
      with kid [OF this] ok_child [OF ok n(1) c] 2 m show ?thesis by (simp add: fl lv)
    next
      case 3
      with 9 have c: "dict_get (kids s x) k = Some c" by (simp add: fl)
      from ok_child [OF ok 3(3) c] have c': "live s c" "c \<noteq> 0" "hd (seg s c) = k" "par s c = Some x"
        by auto
      have "c \<notin> snd ` set (kids s n)" using kid(3) [of c] c'(4) 3(1) by (metis option.inject)
      moreover have "c \<noteq> ?m" using c'(1) m by blast
      ultimately have "c \<notin> snd ` set (kids s n)" "c \<noteq> ?m" .
      with c' 3 hdP show ?thesis by (auto simp: fl lv)
    qed
  next
    case (10 x)
    then consider "x = n" | "x = ?m" | "x \<noteq> n" "x \<noteq> ?m" "live s x" by (auto simp: lv)
    then show ?case
    proof cases
      case 1
      from ok_parent [OF ok n] obtain p where p: "par s n = Some p" "live s p"
        "dict_get (kids s p) (hd (seg s n)) = Some n" by blast
      then have "p \<noteq> n" "p \<noteq> ?m" using par_n [OF n] own m by auto
      with 1 p hdP show ?thesis by (simp add: fl lv)
    next
      case 2
      with m n show ?thesis by (simp add: fl lv)
    next
      case 3
      show ?thesis
      proof (cases "x \<in> snd ` set (kids s n)")
        case True
        with kid [OF True] 3 m show ?thesis by (simp add: fl lv)
      next
        case False
        from ok_parent [OF ok 3(3) 10(2)] obtain p where p: "par s x = Some p" "live s p"
          "dict_get (kids s p) (hd (seg s x)) = Some x" by blast
        with False par_n [OF 3(3) 10(2)] m have "p \<noteq> n" "p \<noteq> ?m" by auto
        with p 3 False show ?thesis by (simp add: fl lv)
      qed
    qed
  next
    case (11 b)
    have lS: "last ?S = last (seg s n)" using i by (simp add: last_drop)
    let ?A = "\<lambda>x. live s x \<and> x \<noteq> 0 \<and> kids s x = [] \<and> b = last (seg s x)"
    let ?B = "\<lambda>x. live ?t x \<and> x \<noteq> 0 \<and> kids ?t x = [] \<and> b = last (seg ?t x)"
    have "?B (if x = n then ?m else x)" if "?A x" for x
      using that m lS by (auto simp: fl lv)
    moreover have "?A (if x = ?m then n else x)" if "?B x" for x
      using that m n lS by (cases "x = n"; cases "x = ?m") (simp_all add: fl lv)
    ultimately have "(\<exists>x. ?A x) \<longleftrightarrow> (\<exists>x. ?B x)" by blast
    then show ?case by (simp add: vw(3) ok_leaf [OF ok])
  next
    case (12 x p)
    show ?case
    proof (cases "x = n \<or> x = ?m \<or> x \<in> snd ` set (kids s n)")
      case True
      then consider "x = n" | "x = ?m" | "x \<in> snd ` set (kids s n)" by blast
      then show ?thesis
      proof cases
        case 1
        with 12 m have p: "par s n = Some p" by (simp add: fl)
        with par_n [OF n] own ok_parent [OF ok n] m have "p \<noteq> n" "p \<noteq> ?m" by auto
        with 1 m dep [OF n p] show ?thesis by (simp add: fl)
      next
        case 2
        with 12 m have "p = n" by (simp add: fl)
        with 2 m i fl(1) [of n] show ?thesis by simp
      next
        case 3
        from dep [OF kid(1) [OF 3] kid(2) [OF 3] kid(3) [OF 3]]
        have "dep x = dep n + length (seg s n)" .
        moreover have "p = ?m" using 12(3) 3 kid [OF 3] by (simp add: fl)
        ultimately show ?thesis using kid [OF 3] m i fl(1) [of ?m] by simp
      qed
    next
      case False
      with 12 have x: "live s x" "par s x = Some p" by (auto simp: fl lv)
      with par_n [OF x(1) 12(2)] False ok_parent [OF ok x(1) 12(2)] m
      have "p \<noteq> n" "p \<noteq> ?m" by auto
      with False dep [OF x(1) 12(2) x(2)] show ?thesis by (simp add: fl)
    qed
  qed
qed

end
