(* ===== verification/Radix_Operations.thy ===== *)
theory Radix_Operations
  imports Radix_Invariant
begin

text \<open>
  The operations of the radix tree against its parent map: splitting an edge changes
  nothing, inserting a child adds one binding, removing a leaf deletes one, and the
  queries read the map. Every operation keeps \<open>radix_ok\<close> and none of the internal
  inconsistency errors of the code can occur while it holds.
\<close>

section \<open>Splitting leaves the parent map alone\<close>

lemma split_after_above:
  assumes ok: "radix_ok s" and n: "live s n" "n \<noteq> 0" and i: "i + 1 < length (seg s n)"
    and x: "live s x"
  shows "above (split_after n i s) x = above s x"
proof -
  let ?m = "next_node s"
  note fl = split_after_fields [OF ok n i]
  have m: "?m \<noteq> n" "\<not> live s ?m" using ok_live_bound [OF ok] n by auto
  have xm: "x \<noteq> ?m" using x m by auto
  show ?thesis
  proof (cases "x \<in> snd ` set (kids s n)")
    case True
    with ok_kid_node(3) [OF ok n(1) True] ok_not_own_kid [OF ok n(1)] xm m i
    show ?thesis by (auto simp: above_def fl last_drop)
  next
    case False
    show ?thesis
    proof (cases "x = 0")
      case True
      with False ok_root [OF ok] n xm show ?thesis by (simp add: above_def fl)
    next
      case x0: False
      from ok_parent [OF ok x x0] obtain p where p: "par s x = Some p" "live s p"
        "dict_get (kids s p) (hd (seg s x)) = Some x" by blast
      with False have "p \<noteq> n" by (force dest: map_of_SomeD)
      moreover have "p \<noteq> ?m" using p m by auto
      ultimately show ?thesis using p False xm by (cases "x = n") (simp_all add: above_def fl)
    qed
  qed
qed

lemma split_after_parent_map:
  assumes ok: "radix_ok s" and n: "live s n" "n \<noteq> 0" and i: "i + 1 < length (seg s n)"
  shows "parent_map (split_after n i s) = parent_map s"
proof
  fix b
  let ?t = "split_after n i s" and ?m = "next_node s" and ?S = "drop (i + 1) (seg s n)"
  note fl = split_after_fields [OF ok n i] and vw = split_after_view(5) [OF ok n i]
  have m: "?m \<noteq> n" "\<not> live s ?m" using ok_live_bound [OF ok] n by auto
  have d: "distinct (seg s n)" by (rule ok_seg_distinct [OF ok n(1)])
  show "parent_map ?t b = parent_map s b"
  proof (cases "b \<in> set ?S")
    case True
    from pos_nth [OF True] have j: "pos ?S b < length ?S" "?S ! pos ?S b = b" by auto
    then have old: "loc s b = Some (n, i + 1 + pos ?S b)"
      using ok_index [OF ok n(1), of "i + 1 + pos ?S b"] by simp
    have new: "loc ?t b = Some (?m, pos ?S b)" using True by (simp add: vw)
    have "seg ?t n = take (i + 1) (seg s n)" "par ?t ?m = Some n" using m by (simp_all add: fl)
    then have ab: "above ?t ?m = Some (seg s n ! i)"
      using i by (auto simp: above_def last_conv_nth min_def)
    show ?thesis
    proof (cases "pos ?S b")
      case 0
      with ab show ?thesis by (simp add: parent_map_Some [OF new] parent_map_Some [OF old])
    next
      case (Suc j')
      with j m show ?thesis by (simp add: parent_map_Some [OF new] parent_map_Some [OF old] fl(1))
    qed
  next
    case False
    then have same: "loc ?t b = loc s b" by (simp only: vw if_False)
    show ?thesis
    proof (cases "loc s b")
      case None
      with same show ?thesis by (simp add: parent_map_def)
    next
      case (Some q)
      then obtain x j where l: "loc s b = Some (x, j)" by (cases q) auto
      have x: "live s x" "j < length (seg s x)" using loc_live [OF l] ok_loc [OF ok l] by auto
      have "seg ?t x ! (j - 1) = seg s x ! (j - 1)"
      proof (cases "x = n")
        case True
        have "j \<le> i"
        proof (rule ccontr)
          assume "\<not> j \<le> i"
          with ok_loc [OF ok l] True have "j - (i + 1) < length ?S" "?S ! (j - (i + 1)) = b" by auto
          with False show False by (metis nth_mem)
        qed
        with True show ?thesis by (simp add: fl(1))
      next
        case False
        with x m show ?thesis by (auto simp: fl(1))
      qed
      with split_after_above [OF ok n i x(1)] show ?thesis
        by (simp add: parent_map_Some [OF l] parent_map_Some [of ?t, OF same [unfolded l]])
    qed
  qed
qed

section \<open>Attaching a new leaf\<close>

definition attach :: "nat \<Rightarrow> 'b \<Rightarrow> 'b radix \<Rightarrow> 'b radix" where
  "attach n b s =
     (let s2 = (if kids s n = [] then discard_leaf n s else s);
          (c, s3) = alloc_node \<lparr>segment = [b], parent = Some n, children = []\<rparr> s2;
          s4 = upd_node n (\<lambda>x. x\<lparr>children := dict_set b c (children x)\<rparr>) s3
      in add_leaf c (index_segment c s4))"

lemma attach_view:
  assumes ok: "radix_ok s" and n: "live s n" and b: "loc s b = None"
  defines "c \<equiv> next_node s" and "t \<equiv> attach n b s"
  shows "heap t = (\<lambda>x. if x = c then \<lparr>segment = [b], parent = Some n, children = []\<rparr>
                      else if x = n then (heap s n)\<lparr>children := dict_set b c (kids s n)\<rparr>
                      else heap s x)" (is "?heap")
    and "next_node t = Suc c" "dict_ok (locations t)" "distinct (leaf_ids t)"
    and "loc t x = (if x = b then Some (c, 0) else loc s x)"
    and "set (leaf_ids t) = insert b
          (if kids s n = [] \<and> n \<noteq> 0 then set (leaf_ids s) - {last (seg s n)} else set (leaf_ids s))"
proof -
  have nc: "n \<noteq> c" using ok_live_bound [OF ok n] by (simp add: c_def)
  have ne: "seg s n \<noteq> [] \<longleftrightarrow> n \<noteq> 0" by (rule ok_seg_nonempty_iff [OF ok n])
  show h: ?heap
    using nc by (auto simp: t_def attach_def alloc_node_def c_def Let_def fun_eq_iff)
  show "next_node t = Suc c"
    by (simp add: t_def attach_def alloc_node_def c_def Let_def)
  show "dict_ok (locations t)"
    using ok_dicts(1) [OF ok] by (simp add: t_def attach_def alloc_node_def c_def Let_def)
  show "distinct (leaf_ids t)"
    using ok_dicts(2) [OF ok] by (simp add: t_def attach_def alloc_node_def c_def Let_def)
  show "loc t x = (if x = b then Some (c, 0) else loc s x)"
    using nc by (simp add: t_def attach_def alloc_node_def c_def Let_def)
  show "set (leaf_ids t) = insert b
          (if kids s n = [] \<and> n \<noteq> 0 then set (leaf_ids s) - {last (seg s n)} else set (leaf_ids s))"
    using nc ne ok_root [OF ok]
    by (cases "n = 0"; cases "kids s n = []")
      (simp_all add: t_def attach_def alloc_node_def c_def Let_def leaf_set_simps)
qed

lemma attach_live:
  assumes ok: "radix_ok s" and n: "live s n" and b: "loc s b = None"
  shows "live (attach n b s) x \<longleftrightarrow> live s x \<or> x = next_node s"
proof -
  have "(\<exists>b' i. loc (attach n b s) b' = Some (x, i)) \<longleftrightarrow>
      x = next_node s \<or> (\<exists>b' i. loc s b' = Some (x, i))"
    unfolding attach_view(5) [OF assms] using b by (metis option.distinct(1) option.inject prod.inject)
  then show ?thesis by (auto simp: live_def)
qed

lemma ok_kid_key:
  assumes ok: "radix_ok s" and n: "live s n" and k: "dict_get (kids s n) b = Some c"
  shows "loc s b = Some (c, 0)"
proof -
  from ok_child [OF ok n k] have c: "live s c" "c \<noteq> 0" "hd (seg s c) = b" by auto
  with ok_seg_nonempty [OF ok c(1,2)] have "0 < length (seg s c)" "seg s c ! 0 = b"
    by (auto simp: hd_conv_nth)
  with ok_index [OF ok c(1), of 0] show ?thesis by simp
qed

lemma ok_loc_last:
  assumes ok: "radix_ok s" and n: "live s n" "n \<noteq> 0"
  shows "loc s (last (seg s n)) = Some (n, length (seg s n) - 1)"
  using ok_index [OF ok n(1), of "length (seg s n) - 1"] ok_seg_nonempty [OF ok n]
  by (simp add: last_conv_nth)

lemma ok_loc_hd:
  assumes ok: "radix_ok s" and n: "live s n" "n \<noteq> 0"
  shows "loc s (hd (seg s n)) = Some (n, 0)"
  using ok_index [OF ok n(1), of 0] ok_seg_nonempty [OF ok n] by (simp add: hd_conv_nth)

lemma ok_last_inj:
  assumes "radix_ok s" "live s n" "n \<noteq> 0" "live s m" "m \<noteq> 0" "last (seg s n) = last (seg s m)"
  shows "n = m"
  by (metis assms(6) ok_loc_last [OF assms(1,2,3)] ok_loc_last [OF assms(1,4,5)]
      option.inject prod.inject)

lemma attach_fields:
  assumes ok: "radix_ok s" and n: "live s n" and b: "loc s b = None"
  shows "seg (attach n b s) x = (if x = next_node s then [b] else seg s x)"
    and "par (attach n b s) x = (if x = next_node s then Some n else par s x)"
    and "kids (attach n b s) x = (if x = next_node s then []
           else if x = n then dict_set b (next_node s) (kids s n) else kids s x)"
  by (simp_all add: attach_view(1) [OF assms])

lemma attach_ok:
  assumes ok: "radix_ok s" and n: "live s n" and b: "loc s b = None"
  shows "radix_ok (attach n b s)"
proof -
  let ?t = "attach n b s" and ?c = "next_node s"
  note fl = attach_fields [OF assms] and lv = attach_live [OF assms] and vw = attach_view [OF assms]
  have c: "?c \<noteq> n" "?c \<noteq> 0" "\<not> live s ?c"
    using ok_live_bound [OF ok] ok_root [OF ok] n by auto
  have old: "x \<noteq> ?c" if "live s x" for x using that c by auto
  have kb: "dict_get (kids s n) b = None"
    using ok_kid_key [OF ok n] b by (cases "dict_get (kids s n) b") auto
  obtain dep :: "nat \<Rightarrow> nat" where
    dep: "\<And>n p. live s n \<Longrightarrow> n \<noteq> 0 \<Longrightarrow> par s n = Some p \<Longrightarrow> dep n = dep p + length (seg s p)"
    using ok by (rule ok_depth) blast
  show ?thesis
  proof (rule radix_okI [where dep = "dep(?c := dep n + length (seg s n))"], goal_cases)
    case 1 show ?case using ok_root [OF ok] c by (simp add: fl)
  next
    case 2 show ?case using ok_root [OF ok] c by (simp add: fl)
  next
    case 3 show ?case by (simp add: vw)
  next
    case 4 show ?case by (rule vw(3))
  next
    case 5 show ?case by (rule vw(4))
  next
    case (6 b' x i)
    then show ?case
    proof (cases "b' = b")
      case True
      with 6 c show ?thesis by (auto simp: vw(5) vw(2) fl)
    next
      case False
      with 6 have l: "loc s b' = Some (x, i)" by (simp add: vw(5))
      with ok_loc [OF ok l] old [OF loc_live [OF l]] show ?thesis by (simp add: vw(2) fl)
    qed
  next
    case (7 x i)
    show ?case
    proof (cases "x = ?c")
      case True
      with 7 show ?thesis by (simp add: fl vw(5))
    next
      case False
      with 7 have x: "live s x" "i < length (seg s x)" by (auto simp: lv fl)
      from ok_index [OF ok x] b have "seg s x ! i \<noteq> b" by auto
      with False x ok_index [OF ok x] show ?thesis by (simp add: fl vw(5))
    qed
  next
    case (8 x)
    with ok_kids_dict [OF ok] n show ?case by (auto simp: fl lv)
  next
    case (9 x k d)
    then have x: "live s x" "x \<noteq> ?c" by (auto simp: fl lv)
    show ?case
    proof (cases "x = n \<and> k = b")
      case True
      with 9 x have "d = ?c" by (simp add: fl)
      with True c show ?thesis by (simp add: fl lv)
    next
      case False
      with 9 x have "dict_get (kids s x) k = Some d" by (auto simp: fl split: if_splits)
      from ok_child [OF ok x(1) this] old [of d] show ?thesis by (simp add: fl lv)
    qed
  next
    case (10 x)
    show ?case
    proof (cases "x = ?c")
      case True
      with c n show ?thesis by (simp add: fl lv)
    next
      case False
      with 10 have x: "live s x" "x \<noteq> 0" by (auto simp: lv)
      from ok_parent [OF ok x] obtain p where p: "par s x = Some p" "live s p"
        "dict_get (kids s p) (hd (seg s x)) = Some x" by blast
      moreover have "hd (seg s x) \<noteq> b" if "p = n" using p(3) kb that by auto
      ultimately show ?thesis using False old [OF p(2)] by (auto simp: fl lv)
    qed
  next
    case (11 b')
    have "(\<exists>x. live ?t x \<and> x \<noteq> 0 \<and> kids ?t x = [] \<and> b' = last (seg ?t x)) \<longleftrightarrow>
        b' = b \<or> (\<exists>x. live s x \<and> x \<noteq> 0 \<and> x \<noteq> n \<and> kids s x = [] \<and> b' = last (seg s x))"
      (is "?l \<longleftrightarrow> ?r")
    proof
      assume ?l
      then obtain x where x: "live ?t x" "x \<noteq> 0" "kids ?t x = []" "b' = last (seg ?t x)" by blast
      show ?r
      proof (cases "x = ?c")
        case True with x show ?thesis by (simp add: fl)
      next
        case False
        have "dict_set b ?c (kids s n) \<noteq> []" by (cases "kids s n") auto
        with x False have "x \<noteq> n" by (auto simp: fl)
        with x False show ?thesis by (auto simp: fl lv)
      qed
    next
      assume ?r
      then show ?l
      proof
        assume "b' = b" with c show ?l by (intro exI [of _ ?c]) (simp add: fl lv)
      next
        assume "\<exists>x. live s x \<and> x \<noteq> 0 \<and> x \<noteq> n \<and> kids s x = [] \<and> b' = last (seg s x)"
        then obtain x where x: "live s x" "x \<noteq> 0" "x \<noteq> n" "kids s x = []" "b' = last (seg s x)"
          by blast
        with old [OF x(1)] show ?l by (intro exI [of _ x]) (simp add: fl lv)
      qed
    qed
    moreover have "b' \<in> set (leaf_ids ?t) \<longleftrightarrow>
        b' = b \<or> (\<exists>x. live s x \<and> x \<noteq> 0 \<and> x \<noteq> n \<and> kids s x = [] \<and> b' = last (seg s x))"
      using ok_last_inj [OF ok n] ok_last_inj [OF ok _ _ n] by (auto simp: vw(6) ok_leaf [OF ok])
    ultimately show ?case by simp
  next
    case (12 x p)
    show ?case
    proof (cases "x = ?c")
      case True
      with 12 c have "p = n" by (simp add: fl)
      with True c show ?thesis by (simp add: fl)
    next
      case False
      with 12 have x: "live s x" "par s x = Some p" by (auto simp: fl lv)
      with ok_parent [OF ok x(1) 12(2)] old have "p \<noteq> ?c" by auto
      with False dep [OF x(1) 12(2) x(2)] show ?thesis by (simp add: fl)
    qed
  qed
qed

lemma attach_parent_map:
  assumes ok: "radix_ok s" and n: "live s n" and b: "loc s b = None"
  shows "parent_map (attach n b s) =
      (parent_map s)(b \<mapsto> if n = 0 then None else Some (last (seg s n)))"
proof
  fix x
  let ?t = "attach n b s" and ?c = "next_node s"
  note fl = attach_fields [OF assms] and vw = attach_view(5) [OF assms]
  have c: "n \<noteq> ?c" "\<not> live s ?c" using ok_live_bound [OF ok] n by auto
  show "parent_map ?t x = ((parent_map s)(b \<mapsto> if n = 0 then None else Some (last (seg s n)))) x"
  proof (cases "x = b")
    case True
    then have "loc ?t x = Some (?c, 0)" by (simp add: vw)
    with True c ok_seg_nonempty_iff [OF ok n] ok_root [OF ok] fl(2) [of ?c] fl(1) [of n]
    show ?thesis by (auto simp: parent_map_Some above_def)
  next
    case False
    show ?thesis
    proof (cases "loc s x")
      case None
      with False show ?thesis by (simp add: parent_map_def vw)
    next
      case (Some q)
      then obtain y i where l: "loc s x = Some (y, i)" by (cases q) auto
      with False have l': "loc ?t x = Some (y, i)" by (simp add: vw)
      have y: "y \<noteq> ?c" "live s y" "y \<noteq> 0" using loc_live [OF l] c ok_loc [OF ok l] by auto
      from ok_parent [OF ok y(2,3)] obtain p where "par s y = Some p" "live s p" by blast
      with c y have "above ?t y = above s y" by (auto simp: above_def fl)
      with y False show ?thesis by (simp add: parent_map_Some [OF l] parent_map_Some [OF l'] fl)
    qed
  qed
qed

section \<open>Inserting a child\<close>

theorem insert_child_root:
  assumes ok: "radix_ok s" and b: "parent_map s b = None"
  shows "insert_child None b s = (Inr (), attach 0 b s)"
proof -
  have l: "loc s b = None" using b by (simp add: parent_map_None)
  have "dict_get (kids s 0) b = None"
    using ok_kid_key [OF ok live_root] l by (cases "dict_get (kids s 0) b") auto
  moreover have "discard_leaf 0 s = s" using ok_root [OF ok] by (simp add: discard_leaf_def)
  ultimately show ?thesis
    using l by (simp add: insert_child_def attach_def Let_def case_prod_unfold)
qed

theorem insert_child_below:
  assumes ok: "radix_ok s" and b: "parent_map s b = None" and p: "loc s p = Some (n, i)"
  shows "insert_child (Some p) b s = (Inr (), attach n b (split_after n i s))"
    and "radix_ok (split_after n i s)" "live (split_after n i s) n"
    and "parent_map (split_after n i s) = parent_map s"
    and "last (seg (split_after n i s) n) = p"
proof -
  let ?t = "split_after n i s"
  have l: "loc s b = None" using b by (simp add: parent_map_None)
  have n: "live s n" "n \<noteq> 0" "i < length (seg s n)" "seg s n ! i = p"
    using loc_live [OF p] ok_loc [OF ok p] by auto
  have facts: "radix_ok ?t \<and> live ?t n \<and> parent_map ?t = parent_map s \<and> last (seg ?t n) = p"
  proof (cases "i + 1 < length (seg s n)")
    case True
    have "last (take (i + 1) (seg s n)) = p" using n by (simp add: take_Suc_conv_app_nth)
    with True n split_after_ok [OF ok n(1,2) True] split_after_live [OF ok n(1,2) True]
      split_after_parent_map [OF ok n(1,2) True] split_after_fields(1) [OF ok n(1,2) True]
    show ?thesis by simp
  next
    case False
    then have "split_after n i s = s" by (intro split_after_nothing) simp
    moreover from False n(3) have "i = length (seg s n) - 1" by linarith
    ultimately show ?thesis
      using n ok ok_seg_nonempty [OF ok n(1,2)] by (simp add: last_conv_nth)
  qed
  then show "radix_ok ?t" "live ?t n" "parent_map ?t = parent_map s" "last (seg ?t n) = p" by auto
  have l': "loc ?t b = None" using facts b by (metis parent_map_None)
  have "dict_get (kids ?t n) b = None"
    using ok_kid_key [of ?t n b] facts l' by (cases "dict_get (kids ?t n) b") auto
  then show "insert_child (Some p) b s = (Inr (), attach n b ?t)"
    using l p by (simp add: insert_child_def attach_def Let_def case_prod_unfold discard_leaf_def)
qed

theorem insert_child_spec:
  assumes ok: "radix_ok s" and b: "parent_map s b = None"
    and po: "\<And>p. po = Some p \<Longrightarrow> parent_map s p \<noteq> None"
  shows "\<exists>t. insert_child po b s = (Inr (), t) \<and> radix_ok t \<and> parent_map t = (parent_map s)(b \<mapsto> po)"
proof (cases po)
  case None
  have "loc s b = None" using b by (simp add: parent_map_None)
  with None insert_child_root [OF ok b] attach_ok [OF ok live_root]
    attach_parent_map [OF ok live_root] show ?thesis by simp
next
  case (Some p)
  then obtain n i where p: "loc s p = Some (n, i)"
    using po [of p] by (auto simp: parent_map_None)
  let ?t = "split_after n i s"
  note below = insert_child_below [OF ok b p]
  have "loc ?t b = None" using b below(4) by (metis parent_map_None)
  moreover have "n \<noteq> 0" using ok_loc [OF ok p] by simp
  ultimately show ?thesis
    using Some below attach_ok [OF below(2,3)] attach_parent_map [OF below(2,3)] by simp
qed

section \<open>Removing a leaf\<close>

lemma ok_par_kid:
  assumes "radix_ok s" "live s x" "x \<noteq> 0" "par s x = Some n"
  shows "live s n" "dict_get (kids s n) (hd (seg s x)) = Some x"
  using ok_parent [OF assms(1-3)] assms(4) by auto

lemma ok_hd_inj:
  assumes "radix_ok s" "live s n" "n \<noteq> 0" "live s m" "m \<noteq> 0" "hd (seg s n) = hd (seg s m)"
  shows "n = m"
  by (metis assms(6) ok_loc_hd [OF assms(1,2,3)] ok_loc_hd [OF assms(1,4,5)]
      option.inject prod.inject)

text \<open>The last block of a childless edge of length one: the node leaves the tree.\<close>

definition drop_node :: "nat \<Rightarrow> nat \<Rightarrow> 'b \<Rightarrow> 'b radix \<Rightarrow> 'b radix" where
  "drop_node n p b s =
     add_leaf p (upd_node p (\<lambda>x. x\<lparr>children := dict_del (hd (seg s n)) (children x)\<rparr>)
       (s\<lparr>locations := dict_del b (locations s), leaf_ids := set_discard b (leaf_ids s)\<rparr>))"

definition shrink_node :: "nat \<Rightarrow> 'b \<Rightarrow> 'b radix \<Rightarrow> 'b radix" where
  "shrink_node n b s =
     add_leaf n (upd_node n (\<lambda>x. x\<lparr>segment := butlast (segment x)\<rparr>)
       (s\<lparr>locations := dict_del b (locations s), leaf_ids := set_discard b (leaf_ids s)\<rparr>))"

lemma drop_node_fields [simp]:
  "seg (drop_node n p b s) x = seg s x"
  "par (drop_node n p b s) x = par s x"
  "kids (drop_node n p b s) x = (if x = p then dict_del (hd (seg s n)) (kids s p) else kids s x)"
  "next_node (drop_node n p b s) = next_node s"
  "locations (drop_node n p b s) = dict_del b (locations s)"
  by (simp_all add: drop_node_def)

lemma shrink_node_fields [simp]:
  "seg (shrink_node n b s) x = (if x = n then butlast (seg s n) else seg s x)"
  "par (shrink_node n b s) x = par s x"
  "kids (shrink_node n b s) x = kids s x"
  "next_node (shrink_node n b s) = next_node s"
  "locations (shrink_node n b s) = dict_del b (locations s)"
  by (simp_all add: shrink_node_def)

lemma shrink_node_ok:
  assumes ok: "radix_ok s" and n: "live s n" "n \<noteq> 0" "kids s n = []"
    and b: "last (seg s n) = b" and len: "1 < length (seg s n)"
  shows "radix_ok (shrink_node n b s)" and "parent_map (shrink_node n b s) = (parent_map s)(b := None)"
proof -
  let ?t = "shrink_node n b s"
  have lb: "loc s b = Some (n, length (seg s n) - 1)" using ok_loc_last [OF ok n(1,2)] b by simp
  have lc: "seg s n ! (length (seg s n) - 1) = b" using ok_loc [OF ok lb] by simp
  have lt: "loc ?t x = (if x = b then None else loc s x)" for x by simp
  have z: "0 < length (seg s n)" using len by linarith
  have "seg s n ! 0 \<noteq> b"
    using ok_index [OF ok n(1) z] lb len by auto
  then have "loc ?t (seg s n ! 0) = Some (n, 0)"
    using ok_index [OF ok n(1) z] by (simp add: lt)
  then have "live ?t n" by (rule loc_live)
  moreover have "live ?t x \<longleftrightarrow> live s x" if "x \<noteq> n" for x
    unfolding live_def lt using lb that by (metis option.inject option.distinct(1) prod.inject)
  ultimately have lv: "live ?t x \<longleftrightarrow> live s x" for x using n(1) by (cases "x = n") auto
  have hdn: "hd (butlast (seg s n)) = hd (seg s n)" using len by (cases "seg s n") auto
  have nopar: "par s x \<noteq> Some n" if "live s x" "x \<noteq> 0" for x
    using ok_par_kid [OF ok that] n(3) by auto
  have leaves: "set (leaf_ids ?t) = insert (last (butlast (seg s n))) (set (leaf_ids s) - {b})"
  proof -
    have "butlast (seg s n) \<noteq> []" using len by (cases "seg s n") auto
    with n show ?thesis by (simp add: shrink_node_def leaf_set_simps)
  qed
  obtain dep :: "nat \<Rightarrow> nat" where
    dep: "\<And>n p. live s n \<Longrightarrow> n \<noteq> 0 \<Longrightarrow> par s n = Some p \<Longrightarrow> dep n = dep p + length (seg s p)"
    using ok by (rule ok_depth) blast
  show "radix_ok ?t"
  proof (rule radix_okI [where dep = dep], goal_cases)
    case 5 show ?case using ok_dicts(2) [OF ok] by (simp add: shrink_node_def)
  next
    case (6 b' x i)
    then have l: "loc s b' = Some (x, i)" and ne: "b' \<noteq> b" by (auto split: if_splits)
    have "i \<noteq> length (seg s n) - 1" if "x = n" using ok_loc [OF ok l] that lc ne by auto
    with ok_loc [OF ok l] show ?case by (auto simp: nth_butlast)
  next
    case (7 x i)
    show ?case
    proof (cases "x = n")
      case True
      with 7 have i: "i < length (seg s n)" "i \<noteq> length (seg s n) - 1" by auto
      with ok_index [OF ok n(1) i(1)] lb have "seg s n ! i \<noteq> b" by auto
      with True i ok_index [OF ok n(1) i(1)] show ?thesis by (simp add: nth_butlast)
    next
      case False
      with 7 have x: "live s x" "i < length (seg s x)" by (simp_all add: lv)
      with ok_index [OF ok x] lb False have "seg s x ! i \<noteq> b" by auto
      with False ok_index [OF ok x] show ?thesis by simp
    qed
  next
    case (9 x k c)
    then have x: "live s x" "dict_get (kids s x) k = Some c" by (simp_all add: lv)
    from ok_child [OF ok x] hdn show ?case by (auto simp: lv)
  next
    case (10 x)
    with ok_parent [OF ok, of x] hdn show ?case by (auto simp: lv)
  next
    case (11 b')
    let ?Q = "\<exists>x. live s x \<and> x \<noteq> 0 \<and> x \<noteq> n \<and> kids s x = [] \<and> b' = last (seg s x)"
    have "(\<exists>x. live ?t x \<and> x \<noteq> 0 \<and> kids ?t x = [] \<and> b' = last (seg ?t x)) \<longleftrightarrow>
        b' = last (butlast (seg s n)) \<or> ?Q" (is "(\<exists>x. ?B x) \<longleftrightarrow> _")
    proof
      assume "\<exists>x. ?B x"
      then obtain x where x: "?B x" by blast
      then show "b' = last (butlast (seg s n)) \<or> ?Q"
        by (cases "x = n") (auto simp only: lv shrink_node_fields if_True if_False simp_thms)
    next
      assume "b' = last (butlast (seg s n)) \<or> ?Q"
      then show "\<exists>x. ?B x"
      proof
        assume "b' = last (butlast (seg s n))"
        with n have "?B n" by (simp only: lv shrink_node_fields if_True) simp
        then show ?thesis by blast
      next
        assume ?Q
        then obtain x where "live s x" "x \<noteq> 0" "x \<noteq> n" "kids s x = []" "b' = last (seg s x)"
          by blast
        then have "?B x" by (simp add: lv)
        then show ?thesis by blast
      qed
    qed
    moreover have "b' \<in> set (leaf_ids s) \<and> b' \<noteq> b \<longleftrightarrow> ?Q"
      unfolding ok_leaf [OF ok] using ok_last_inj [OF ok _ _ n(1,2)] n b by metis
    ultimately show ?case by (auto simp: leaves)
  next
    case (12 x p)
    then have x: "live s x" "par s x = Some p" by (simp_all add: lv)
    with nopar [OF x(1) 12(2)] dep [OF x(1) 12(2) x(2)] show ?case by auto
  qed (use ok_root [OF ok] ok_dicts [OF ok] ok_kids_dict [OF ok] n in \<open>auto simp: lv\<close>)
  show "parent_map ?t = (parent_map s)(b := None)"
  proof
    fix x
    show "parent_map ?t x = ((parent_map s)(b := None)) x"
    proof (cases "x = b \<or> loc s x = None")
      case True
      then show ?thesis by (auto simp: parent_map_def)
    next
      case False
      then obtain y i where l: "loc s x = Some (y, i)" and ne: "x \<noteq> b" by auto
      then have l': "loc ?t x = Some (y, i)" by simp
      have y: "live s y" "y \<noteq> 0" "i < length (seg s y)" "seg s y ! i = x"
        using loc_live [OF l] ok_loc [OF ok l] by auto
      have ab: "above ?t y = above s y" using nopar [OF y(1,2)]
        by (auto simp: above_def split: option.splits)
      have "i \<noteq> length (seg s n) - 1" if "y = n" using y that lc ne by auto
      with y have "seg ?t y ! (i - 1) = seg s y ! (i - 1)" by (auto simp: nth_butlast)
      with ab ne show ?thesis by (simp add: parent_map_Some [OF l] parent_map_Some [OF l'])
    qed
  qed
qed

lemma drop_node_ok:
  assumes ok: "radix_ok s" and n: "live s n" "n \<noteq> 0" "kids s n = []"
    and b: "seg s n = [b]" and p: "par s n = Some p"
  shows "radix_ok (drop_node n p b s)" and "parent_map (drop_node n p b s) = (parent_map s)(b := None)"
proof -
  let ?t = "drop_node n p b s"
  have hdb: "hd (seg s n) = b" by (simp add: b)
  have lb: "loc s b = Some (n, 0)" using ok_loc_hd [OF ok n(1,2)] by (simp only: hdb)
  note pk = ok_par_kid [OF ok n(1,2) p]
  have pn: "p \<noteq> n" using pk(2) n(3) by auto
  have lt: "loc ?t x = (if x = b then None else loc s x)" for x by simp
  have onlyb: "x = b" if "loc s x = Some (n, i)" for x i
    using ok_loc [OF ok that] by (auto simp: b)
  have "(\<exists>x' i. loc ?t x' = Some (x, i)) \<longleftrightarrow> (\<exists>x' i. loc s x' = Some (x, i)) \<and> x \<noteq> n" for x
    unfolding lt using lb onlyb by (metis option.distinct(1) option.inject prod.inject)
  then have lv: "live ?t x \<longleftrightarrow> live s x \<and> x \<noteq> n" for x using n(2) by (auto simp: live_def)
  have nopar: "par s x \<noteq> Some n" if "live s x" "x \<noteq> 0" for x
    using ok_par_kid [OF ok that] n(3) by auto
  have kt: "kids ?t x = (if x = p then dict_del b (kids s p) else kids s x)" for x by (simp add: hdb)
  have leaves: "set (leaf_ids ?t) =
      (if p \<noteq> 0 \<and> dict_del b (kids s p) = [] then insert (last (seg s p)) (set (leaf_ids s) - {b})
       else set (leaf_ids s) - {b})"
    using ok_seg_nonempty_iff [OF ok pk(1)] pn by (simp add: drop_node_def leaf_set_simps b)
  obtain dep :: "nat \<Rightarrow> nat" where
    dep: "\<And>n p. live s n \<Longrightarrow> n \<noteq> 0 \<Longrightarrow> par s n = Some p \<Longrightarrow> dep n = dep p + length (seg s p)"
    using ok by (rule ok_depth) blast
  show "radix_ok ?t"
  proof (rule radix_okI [where dep = dep], goal_cases)
    case 5 show ?case using ok_dicts(2) [OF ok] by (simp add: drop_node_def)
  next
    case (6 b' x i)
    then have l: "loc s b' = Some (x, i)" by (simp split: if_splits)
    with ok_loc [OF ok l] show ?case by simp
  next
    case (7 x i)
    then have x: "live s x" "x \<noteq> n" "i < length (seg s x)" by (simp_all add: lv)
    with ok_index [OF ok x(1,3)] lb have "seg s x ! i \<noteq> b" by auto
    with ok_index [OF ok x(1,3)] show ?case by simp
  next
    case (9 x k c)
    then have x: "live s x" "dict_get (kids s x) k = Some c" and kb: "x = p \<longrightarrow> k \<noteq> b"
      by (auto simp: lv kt simp del: drop_node_fields(3) split: if_splits)
    have "c \<noteq> n" using ok_child [OF ok x] kb p hdb by auto
    with ok_child [OF ok x] show ?case by (simp add: lv)
  next
    case (10 x)
    then have x: "live s x" "x \<noteq> 0" "x \<noteq> n" by (simp_all add: lv)
    from ok_parent [OF ok x(1,2)] obtain q where q: "par s x = Some q" "live s q"
      "dict_get (kids s q) (hd (seg s x)) = Some x" by blast
    have "hd (seg s x) \<noteq> b" using ok_hd_inj [OF ok x(1,2) n(1,2)] x(3) hdb by metis
    with q nopar [OF x(1,2)] show ?case by (auto simp: lv kt simp del: drop_node_fields(3))
  next
    case (11 b')
    let ?Q = "\<exists>x. live s x \<and> x \<noteq> 0 \<and> x \<noteq> n \<and> kids s x = [] \<and> b' = last (seg s x)"
    have Q: "b' \<in> set (leaf_ids s) \<and> b' \<noteq> b \<longleftrightarrow> ?Q"
      unfolding ok_leaf [OF ok] using ok_last_inj [OF ok _ _ n(1,2)] n b by (metis last.simps)
    have kp: "kids s p \<noteq> []" using pk(2) by auto
    let ?B = "\<lambda>x. live ?t x \<and> x \<noteq> 0 \<and> kids ?t x = [] \<and> b' = last (seg ?t x)"
    have B: "?B x \<longleftrightarrow> live s x \<and> x \<noteq> n \<and> x \<noteq> 0 \<and>
        (if x = p then dict_del b (kids s p) = [] else kids s x = []) \<and> b' = last (seg s x)" for x
      by (auto simp: lv kt simp del: drop_node_fields(3))
    have "(\<exists>x. ?B x) \<longleftrightarrow> (p \<noteq> 0 \<and> dict_del b (kids s p) = [] \<and> b' = last (seg s p)) \<or> ?Q"
      (is "?l \<longleftrightarrow> ?r")
    proof
      assume ?l
      then obtain x where x: "?B x" by blast
      then show ?r unfolding B by (cases "x = p") auto
    next
      assume ?r
      then show ?l
      proof
        assume "p \<noteq> 0 \<and> dict_del b (kids s p) = [] \<and> b' = last (seg s p)"
        then have "?B p" unfolding B using pk(1) pn by simp
        then show ?l by blast
      next
        assume ?Q
        then obtain x where "live s x" "x \<noteq> 0" "x \<noteq> n" "kids s x = []" "b' = last (seg s x)"
          by blast
        then have "?B x" unfolding B using kp by auto
        then show ?l by blast
      qed
    qed
    then show ?case unfolding leaves using Q by auto
  next
    case (12 x q)
    then have x: "live s x" "par s x = Some q" by (simp_all add: lv)
    with dep [OF x(1) 12(2) x(2)] show ?case by simp
  qed (use ok_root [OF ok] ok_dicts [OF ok] ok_kids_dict [OF ok] pk in
      \<open>auto simp: lv kt simp del: drop_node_fields(3)\<close>)
  show "parent_map ?t = (parent_map s)(b := None)"
  proof
    fix x
    have ab: "above ?t y = above s y" for y by (simp add: above_def split: option.split)
    show "parent_map ?t x = ((parent_map s)(b := None)) x"
      by (cases "x = b") (simp_all add: parent_map_def ab split: option.splits)
  qed
qed

theorem remove_block_absent:
  "parent_map s b = None \<Longrightarrow>
     remove_block b s = (Inl (KeyError ''Prefix cache block id is not present in radix tree.''), s)"
  by (simp add: remove_block_def parent_map_None)

lemma parent_map_child:
  assumes ok: "radix_ok s" and l: "loc s b = Some (n, i)"
  shows "parent_map s c = Some (Some b) \<longleftrightarrow>
      (if Suc i < length (seg s n) then c = seg s n ! Suc i
       else c \<in> (\<lambda>m. hd (seg s m)) ` snd ` set (kids s n))" (is "?l \<longleftrightarrow> ?r")
proof
  have n: "live s n" "n \<noteq> 0" "i < length (seg s n)" "seg s n ! i = b"
    using loc_live [OF l] ok_loc [OF ok l] by auto
  { assume ?l
    then obtain y j where c: "loc s c = Some (y, j)"
      by (auto simp: parent_map_def split: option.splits)
    have y: "live s y" "y \<noteq> 0" "j < length (seg s y)" "seg s y ! j = c"
      using loc_live [OF c] ok_loc [OF ok c] by auto
    show ?r
    proof (cases j)
      case 0
      with \<open>?l\<close> c have "above s y = Some b" by (simp add: parent_map_Some)
      then obtain p where p: "par s y = Some p" "seg s p \<noteq> []" "last (seg s p) = b"
        by (auto simp: above_def split: option.splits if_splits)
      from ok_parent [OF ok y(1,2)] p have "live s p" "dict_get (kids s p) (hd (seg s y)) = Some y"
        by auto
      moreover from p(2) have "p \<noteq> 0" using ok_root [OF ok] by (metis (no_types))
      ultimately have "p = n" "i = length (seg s n) - 1" "y \<in> snd ` set (kids s n)"
        using ok_loc_last [OF ok, of p] p l by (force dest: map_of_SomeD)+
      moreover have "hd (seg s y) = c" using y 0 by (simp add: hd_conv_nth ok_seg_nonempty [OF ok y(1,2)])
      ultimately show ?thesis by auto
    next
      case (Suc j')
      with \<open>?l\<close> c have e: "seg s y ! j' = b" by (simp add: parent_map_Some)
      with ok_index [OF ok y(1), of j'] y Suc l have "y = n" "i = j'" by auto
      with Suc y show ?thesis by auto
    qed }
  { assume r: ?r
    show ?l
    proof (cases "Suc i < length (seg s n)")
      case True
      with r ok_index [OF ok n(1) True] n show ?thesis by (simp add: parent_map_Some)
    next
      case False
      with r obtain m where m: "m \<in> snd ` set (kids s n)" "c = hd (seg s m)" by auto
      note k = ok_kid_node [OF ok n(1) m(1)]
      have "i = length (seg s n) - 1" using False n(3) by linarith
      with n ok_seg_nonempty [OF ok n(1,2)] have "last (seg s n) = b" by (simp add: last_conv_nth)
      with ok_loc_hd [OF ok k(1,2)] m k n ok_seg_nonempty [OF ok n(1,2)] show ?thesis
        by (simp add: parent_map_Some above_def)
    qed }
qed

theorem remove_block_spec:
  assumes ok: "radix_ok s" and b: "parent_map s b \<noteq> None"
  shows "if \<exists>c. parent_map s c = Some (Some b)
      then remove_block b s =
        (Inl (RuntimeError ''Cannot remove a prefix cache tree block with live children.''), s)
      else \<exists>t. remove_block b s = (Inr (), t) \<and> radix_ok t \<and> parent_map t = (parent_map s)(b := None)"
proof -
  obtain n i where l: "loc s b = Some (n, i)" using b by (auto simp: parent_map_None)
  have n: "live s n" "n \<noteq> 0" "i < length (seg s n)" "seg s n ! i = b"
    using loc_live [OF l] ok_loc [OF ok l] by auto
  have ch: "(\<exists>c. parent_map s c = Some (Some b)) \<longleftrightarrow> Suc i \<noteq> length (seg s n) \<or> kids s n \<noteq> []"
    unfolding parent_map_child [OF ok l] using n(3)
    by (cases "Suc i < length (seg s n)"; cases "kids s n") auto
  show ?thesis
  proof (cases "Suc i \<noteq> length (seg s n) \<or> kids s n \<noteq> []")
    case True
    with ch l show ?thesis by (auto simp: remove_block_def)
  next
    case False
    then have i: "Suc i = length (seg s n)" "kids s n = []" by auto
    then have "last (seg s n) = b" using n
      by (metis diff_Suc_1 last_conv_nth list.size(3) nat.distinct(1))
    obtain p where p: "par s n = Some p" "dict_get (kids s p) (hd (seg s n)) = Some n"
      using ok_parent [OF ok n(1,2)] by blast
    show ?thesis
    proof (cases "length (seg s n) = 1")
      case True
      then have seg: "seg s n = [b]" using n(4) i by (cases "seg s n") auto
      have "remove_block b s = (Inr (), drop_node n p b s)"
        using l i p seg by (simp add: remove_block_def drop_node_def)
      with drop_node_ok [OF ok n(1,2) i(2) seg p(1)] ch False show ?thesis by auto
    next
      case len: False
      then have "remove_block b s = (Inr (), shrink_node n b s)"
        using l i p by (simp add: remove_block_def shrink_node_def)
      moreover have "1 < length (seg s n)" using len n(3) by linarith
      ultimately show ?thesis
        using shrink_node_ok [OF ok n(1,2) i(2) \<open>last (seg s n) = b\<close>] ch False by auto
    qed
  qed
qed

end
