(* ===== verification/Radix_Queries.thy ===== *)
theory Radix_Queries
  imports Radix_Operations
begin

text \<open>
  The queries of the radix tree against its parent map (leaves, children, lookup of the
  longest cached chain, the path to a block), and the interface \<open>block_forest\<close> under
  which the prefix index uses the tree: a finite forest of blocks given by a parent map,
  with insertion below a present block and removal of a childless one.
\<close>

section \<open>Chains in a parent map\<close>

fun chain :: "('b \<Rightarrow> 'b option option) \<Rightarrow> 'b option \<Rightarrow> 'b list \<Rightarrow> bool" where
  "chain P q [] = True"
| "chain P q (x # xs) = (P x = Some q \<and> chain P (Some x) xs)"

fun matched :: "('b \<Rightarrow> 'b option option) \<Rightarrow> 'b option \<Rightarrow> 'b list \<Rightarrow> 'b list" where
  "matched P q [] = []"
| "matched P q (x # xs) = (if P x = Some q then x # matched P (Some x) xs else [])"

definition last_of :: "'b option \<Rightarrow> 'b list \<Rightarrow> 'b option" where
  "last_of q xs = (if xs = [] then q else Some (last xs))"

lemma last_of_simps [simp]: "last_of q [] = q" "last_of q (x # xs) = last_of (Some x) xs"
  by (simp_all add: last_of_def)

lemma last_of_append [simp]: "last_of q (xs @ ys) = last_of (last_of q xs) ys"
  by (induction xs arbitrary: q) auto

lemma chain_append: "chain P q (xs @ ys) \<longleftrightarrow> chain P q xs \<and> chain P (last_of q xs) ys"
  by (induction xs arbitrary: q) auto

lemma matched_chain: "chain P q (matched P q xs)"
  by (induction xs arbitrary: q) auto

lemma matched_prefix: "matched P q xs = take (length (matched P q xs)) xs"
  by (induction xs arbitrary: q) auto

lemma matched_length: "length (matched P q xs) \<le> length xs"
  by (induction xs arbitrary: q) auto

lemma matched_longest: "chain P q (take k xs) \<Longrightarrow> k \<le> length xs \<Longrightarrow> k \<le> length (matched P q xs)"
proof (induction xs arbitrary: q k)
  case (Cons x xs)
  then show ?case by (cases k) auto
qed simp

lemma matched_append:
  "chain P q xs \<Longrightarrow> matched P q (xs @ ys) = xs @ matched P (last_of q xs) ys"
  by (induction xs arbitrary: q) auto

lemma chain_unique:
  assumes "chain P None xs" "chain P None ys" "xs \<noteq> []" "ys \<noteq> []" "last xs = last ys"
  shows "xs = ys"
  using assms
proof (induction xs arbitrary: ys rule: rev_induct)
  case (snoc x xs)
  obtain ys' where ys: "ys = ys' @ [x]" using snoc.prems(4,5) by (metis append_butlast_last_id last_snoc)
  from snoc.prems(1,2) have c: "chain P None xs" "chain P None ys'" "last_of None xs = last_of None ys'"
    unfolding ys by (auto simp: chain_append)
  have "xs = ys'"
  proof (cases "xs = []")
    case True
    with c(3) show ?thesis by (simp add: last_of_def split: if_splits)
  next
    case False
    with c(3) have "ys' \<noteq> []" "last xs = last ys'" by (auto simp: last_of_def split: if_splits)
    with snoc.IH [OF c(1,2) False] show ?thesis by simp
  qed
  then show ?case by (simp add: ys)
qed simp

lemma chain_dom: "chain P q xs \<Longrightarrow> x \<in> set xs \<Longrightarrow> P x \<noteq> None"
  by (induction xs arbitrary: q) auto

section \<open>Leaves and children\<close>

lemma child_block_ids_spec:
  assumes ok: "radix_ok s" and l: "loc s b = Some (n, i)"
  obtains cs where "child_block_ids s b = Inr cs" "distinct cs"
    "set cs = {c. parent_map s c = Some (Some b)}" "child_count s b = Inr (length cs)"
proof (cases "Suc i < length (seg s n)")
  case True
  with l parent_map_child [OF ok l] show ?thesis
    by (intro that [of "[seg s n ! Suc i]"]) (auto simp: child_block_ids_def child_count_def)
next
  case False
  have n: "live s n" by (rule loc_live [OF l])
  let ?cs = "map (\<lambda>c. hd (seg s c)) (map snd (kids s n))"
  have "hd (seg s c) = k" if "(k, c) \<in> set (kids s n)" for k c
    using ok_child [OF ok n, of k c] ok_kids_dict [OF ok n] that by simp
  then have "?cs = map fst (kids s n)" by auto
  then have "distinct ?cs" using ok_kids_dict [OF ok n] by (simp only:)
  moreover have "set ?cs = {c. parent_map s c = Some (Some b)}"
    using parent_map_child [OF ok l] False by (auto simp: image_image)
  ultimately show ?thesis using False l
    by (intro that [of ?cs]) (auto simp: child_block_ids_def child_count_def)
qed

lemma leaf_block_ids_spec:
  assumes ok: "radix_ok s"
  shows "b \<in> set (leaf_block_ids s) \<longleftrightarrow>
      parent_map s b \<noteq> None \<and> (\<nexists>c. parent_map s c = Some (Some b))"
proof
  assume "b \<in> set (leaf_block_ids s)"
  then obtain n where n: "live s n" "n \<noteq> 0" "kids s n = []" "b = last (seg s n)"
    by (auto simp: leaf_block_ids_def ok_leaf [OF ok])
  with ok_loc_last [OF ok n(1,2)] have "loc s b = Some (n, length (seg s n) - 1)" by simp
  with parent_map_child [OF ok this] n(3) show
    "parent_map s b \<noteq> None \<and> (\<nexists>c. parent_map s c = Some (Some b))" by (auto simp: parent_map_None)
next
  assume a: "parent_map s b \<noteq> None \<and> (\<nexists>c. parent_map s c = Some (Some b))"
  then obtain n i where l: "loc s b = Some (n, i)" by (auto simp: parent_map_None)
  have n: "live s n" "n \<noteq> 0" "i < length (seg s n)" "seg s n ! i = b"
    using loc_live [OF l] ok_loc [OF ok l] by auto
  have nc: "\<not> (if Suc i < length (seg s n) then c = seg s n ! Suc i
      else c \<in> (\<lambda>m. hd (seg s m)) ` snd ` set (kids s n))" for c
    using a parent_map_child [OF ok l, of c] by blast
  have "\<not> Suc i < length (seg s n)" using nc [of "seg s n ! Suc i"] by auto
  moreover have "kids s n = []"
  proof (rule ccontr)
    assume "kids s n \<noteq> []"
    then obtain k c r where "kids s n = (k, c) # r" by (cases "kids s n") auto
    with nc [of "hd (seg s c)"] calculation show False by simp
  qed
  moreover from calculation n have "b = last (seg s n)"
    by (metis Suc_lessI diff_Suc_1 last_conv_nth list.size(3) not_less_zero)
  ultimately show "b \<in> set (leaf_block_ids s)"
    using n by (auto simp: leaf_block_ids_def ok_leaf [OF ok])
qed

section \<open>Lookup\<close>

lemma walk_segment_tail:
  assumes ok: "radix_ok s" and c: "live s c" "c \<noteq> 0" and j: "0 < j" "j \<le> length (seg s c)"
  shows "case walk_segment (drop j (seg s c)) ids (k, Some (seg s c ! (j - 1))) of
      (r, None) \<Rightarrow> (let m = matched (parent_map s) (Some (seg s c ! (j - 1))) ids
                   in r = (k + length m, last_of (Some (seg s c ! (j - 1))) m))
    | (r, Some rest) \<Rightarrow> (\<exists>m. matched (parent_map s) (Some (seg s c ! (j - 1))) ids =
          m @ matched (parent_map s) (Some (last (seg s c))) rest
          \<and> r = (k + length m, Some (last (seg s c)))
          \<and> last_of (Some (seg s c ! (j - 1))) m = Some (last (seg s c))
          \<and> length rest \<le> length ids)"
  using j
proof (induction "length (seg s c) - j" arbitrary: j ids k)
  case 0
  then have "j = length (seg s c)" by simp
  moreover from this 0 have "seg s c ! (j - 1) = last (seg s c)" by (auto simp: last_conv_nth)
  ultimately show ?case by simp
next
  case (Suc d)
  then have j: "j < length (seg s c)" by linarith
  have "j - 1 < length (seg s c)" using j by linarith
  from ok_index [OF ok c(1) this] have "loc s (seg s c ! (j - 1)) = Some (c, j - 1)" .
  from parent_map_child [OF ok this] Suc.prems j
  have ch: "parent_map s y = Some (Some (seg s c ! (j - 1))) \<longleftrightarrow> y = seg s c ! j" for y by simp
  have dr: "drop j (seg s c) = seg s c ! j # drop (Suc j) (seg s c)" using j by (rule Cons_nth_drop_Suc [symmetric])
  show ?case
  proof (cases ids)
    case Nil
    then show ?thesis by (simp add: dr)
  next
    case (Cons y ys)
    have IH: "case walk_segment (drop (Suc j) (seg s c)) ys (k + 1, Some (seg s c ! (Suc j - 1))) of
      (r, None) \<Rightarrow> (let m = matched (parent_map s) (Some (seg s c ! (Suc j - 1))) ys
                   in r = (k + 1 + length m, last_of (Some (seg s c ! (Suc j - 1))) m))
    | (r, Some rest) \<Rightarrow> (\<exists>m. matched (parent_map s) (Some (seg s c ! (Suc j - 1))) ys =
          m @ matched (parent_map s) (Some (last (seg s c))) rest
          \<and> r = (k + 1 + length m, Some (last (seg s c)))
          \<and> last_of (Some (seg s c ! (Suc j - 1))) m = Some (last (seg s c))
          \<and> length rest \<le> length ys)"
      by (rule Suc.hyps(1)) (use Suc.hyps(2) j in auto)
    show ?thesis
    proof (cases "y = seg s c ! j")
      case False
      with ch [of y] show ?thesis by (simp add: dr Cons)
    next
      case True
      show ?thesis
      proof (cases "walk_segment (drop (Suc j) (seg s c)) ys (k + 1, Some (seg s c ! j))")
        case (Pair r o')
        show ?thesis
        proof (cases o')
          case None
          with IH Pair True ch [of y] show ?thesis by (simp add: dr Cons Let_def)
        next
          case (Some rest)
          with IH Pair obtain m where m: "matched (parent_map s) (Some (seg s c ! j)) ys =
              m @ matched (parent_map s) (Some (last (seg s c))) rest"
            "r = (k + 1 + length m, Some (last (seg s c)))"
            "last_of (Some (seg s c ! j)) m = Some (last (seg s c))" "length rest \<le> length ys"
            by auto
          with Some Pair True ch [of y] show ?thesis
            by (auto simp: dr Cons intro!: exI [of _ "y # m"])
        qed
      qed
    qed
  qed
qed

definition node_end :: "'b radix \<Rightarrow> nat \<Rightarrow> 'b option" where
  "node_end s n = (if n = 0 then None else Some (last (seg s n)))"

lemma root_child_iff:
  assumes ok: "radix_ok s" and n: "live s n"
  shows "dict_get (kids s n) b = Some c \<Longrightarrow> parent_map s b = Some (node_end s n)"
    and "dict_get (kids s n) b = None \<Longrightarrow> parent_map s b \<noteq> Some (node_end s n)"
proof -
  assume k: "dict_get (kids s n) b = Some c"
  from ok_child [OF ok n k] ok_kid_key [OF ok n k] ok_seg_nonempty_iff [OF ok n]
  show "parent_map s b = Some (node_end s n)"
    by (auto simp: parent_map_Some above_def node_end_def)
next
  assume k: "dict_get (kids s n) b = None"
  show "parent_map s b \<noteq> Some (node_end s n)"
  proof
    assume a: "parent_map s b = Some (node_end s n)"
    then obtain y j where l: "loc s b = Some (y, j)"
      by (auto simp: parent_map_def split: option.splits)
    have y: "live s y" "y \<noteq> 0" "j < length (seg s y)" "seg s y ! j = b"
      using loc_live [OF l] ok_loc [OF ok l] by auto
    show False
    proof (cases "n = 0")
      case True
      with a l have "j = 0" "above s y = None" by (auto simp: parent_map_Some node_end_def split: if_splits)
      with y have b: "hd (seg s y) = b" by (metis hd_conv_nth length_greater_0_conv)
      from ok_parent [OF ok y(1,2)] obtain p where p: "par s y = Some p" "live s p"
        "dict_get (kids s p) (hd (seg s y)) = Some y" by blast
      with \<open>above s y = None\<close> ok_seg_nonempty [OF ok p(2)] have "p = 0"
        by (auto simp: above_def split: if_splits)
      with p k True b show False by auto
    next
      case False
      with a have "parent_map s b = Some (Some (last (seg s n)))" by (simp add: node_end_def)
      with parent_map_child [OF ok ok_loc_last [OF ok n False]] ok_seg_nonempty [OF ok n False]
      obtain m where "b = hd (seg s m)" "m \<in> snd ` set (kids s n)" by auto
      with ok_kid_node(4) [OF ok n this(2)] k show False by simp
    qed
  qed
qed

lemma lookup_loop_spec:
  assumes ok: "radix_ok s" and n: "live s n"
  shows "lookup_loop s n ids (k, q) =
      Some (let m = matched (parent_map s) (node_end s n) ids in (k + length m, last_of q m))"
  using n
proof (induction ids arbitrary: n k q rule: length_induct)
  case (1 ids)
  show ?case
  proof (cases ids)
    case Nil
    then show ?thesis by (simp add: lookup_loop.simps)
  next
    case (Cons b bs)
    show ?thesis
    proof (cases "dict_get (kids s n) b")
      case None
      with root_child_iff(2) [OF ok 1(2) None] Cons show ?thesis by (subst lookup_loop.simps) simp
    next
      case (Some c)
      from ok_child [OF ok 1(2) Some] have c: "live s c" "c \<noteq> 0" "hd (seg s c) = b" by auto
      from c(3) ok_seg_nonempty [OF ok c(1,2)] obtain xs where xs: "seg s c = b # xs"
        by (cases "seg s c") auto
      have W: "walk_segment (seg s c) ids (k, q) = walk_segment (drop 1 (seg s c)) bs (k + 1, Some (seg s c ! (1 - 1)))"
        by (simp add: xs Cons)
      note tail = walk_segment_tail [OF ok c(1,2), of 1 bs "k + 1"]
      have P: "parent_map s b = Some (node_end s n)" by (rule root_child_iff(1) [OF ok 1(2) Some])
      obtain r o' where ro: "walk_segment (seg s c) ids (k, q) = (r, o')" by fastforce
      show ?thesis
      proof (cases o')
        case None
        with tail ro W P show ?thesis
          by (subst lookup_loop.simps) (simp add: Cons Some xs Let_def)
      next
        case rest': (Some rest)
        with tail ro W obtain m where m: "matched (parent_map s) (Some b) bs =
            m @ matched (parent_map s) (Some (last (seg s c))) rest"
          "r = (k + 1 + length m, Some (last (seg s c)))"
          "last_of (Some b) m = Some (last (seg s c))" "length rest \<le> length bs"
          by (auto simp: xs)
        have "length rest < length ids" using m(4) Cons by simp
        from 1(1) [rule_format, OF this c(1)] c(2)
        have "lookup_loop s c rest r = Some (let m' = matched (parent_map s) (Some (last (seg s c))) rest
            in (k + 1 + length m + length m', last_of (Some (last (seg s c))) m'))"
          by (simp add: m(2) node_end_def)
        with m P ro rest' show ?thesis
          by (subst lookup_loop.simps) (simp add: Cons Some Let_def)
      qed
    qed
  qed
qed

theorem radix_lookup_spec:
  assumes ok: "radix_ok s"
  shows "radix_lookup s ids k =
      (let m = matched (parent_map s) None (take (nat k) ids) in Inr (length m, last_of None m))"
proof -
  have "take (nat (min k (int (length ids)))) ids = take (nat k) ids" by (auto simp: min_def)
  then show ?thesis
    using lookup_loop_spec [OF ok live_root, of "take (nat k) ids" 0 None]
    by (simp add: radix_lookup_def node_end_def Let_def)
qed

section \<open>The path to a block\<close>

lemma chain_nth:
  "chain P q xs \<longleftrightarrow> (\<forall>i<length xs. P (xs ! i) = Some (if i = 0 then q else Some (xs ! (i - 1))))"
proof (induction xs arbitrary: q)
  case (Cons x xs)
  show ?case
    by (simp only: chain.simps Cons.IH length_Cons All_less_Suc2) (auto simp: nth_Cons')
qed simp

lemma edge_chain:
  assumes ok: "radix_ok s" and n: "live s n" "n \<noteq> 0"
  shows "chain (parent_map s) (above s n) (seg s n)"
  unfolding chain_nth by (auto simp: parent_map_Some [OF ok_index [OF ok n(1)]])

text \<open>The blocks of the edges above a node, outermost edge first.\<close>

lemma path_up_spec:
  assumes ok: "radix_ok s" and n: "live s n" "n \<noteq> 0"
  shows "\<exists>ups. path_up s n segs = Some (segs @ rev ups) \<and> chain (parent_map s) None (concat ups)
     \<and> last_of None (concat ups) = above s n"
proof -
  obtain dep :: "nat \<Rightarrow> nat" where
    dep: "\<And>n p. live s n \<Longrightarrow> n \<noteq> 0 \<Longrightarrow> par s n = Some p \<Longrightarrow> dep n = dep p + length (seg s p)"
    using ok by (rule ok_depth) blast
  show ?thesis
    using n
  proof (induction "dep n" arbitrary: n segs rule: less_induct)
    case less
    from ok_parent [OF ok less.prems] obtain p where p: "par s n = Some p" "live s p" by blast
    show ?case
    proof (cases "p = 0")
      case True
      with p ok_root [OF ok] have "path_up s p segs = Some segs" "above s n = None"
        by (auto simp: above_def path_up.simps [of s 0])
      with p True ok_root [OF ok] have "path_up s n segs = Some (segs @ rev [])" "above s n = None"
        by (simp_all add: path_up.simps [of s n])
      then show ?thesis by (intro exI [of _ "[]"]) simp
    next
      case False
      have ne: "seg s p \<noteq> []" by (rule ok_seg_nonempty [OF ok p(2) False])
      with dep [OF less.prems p(1)] have "dep p < dep n" by simp
      from less.hyps [OF this p(2) False, of "segs @ [seg s p]"] obtain ups where
        u: "path_up s p (segs @ [seg s p]) = Some ((segs @ [seg s p]) @ rev ups)"
          "chain (parent_map s) None (concat ups)" "last_of None (concat ups) = above s p" by blast
      have "chain (parent_map s) (above s p) (seg s p)"
        using edge_chain [OF ok p(2) False] by simp
      with u p ne show ?thesis
        by (subst path_up.simps) (auto simp: chain_append last_of_def above_def
            intro!: exI [of _ "ups @ [seg s p]"])
    qed
  qed
qed

theorem path_to_block_spec:
  assumes ok: "radix_ok s" and b: "parent_map s b \<noteq> None"
  shows "\<exists>xs. path_to_block s b = Inr xs \<and> xs \<noteq> [] \<and> last xs = b \<and> chain (parent_map s) None xs"
proof -
  obtain n i where l: "loc s b = Some (n, i)" using b by (auto simp: parent_map_None)
  have n: "live s n" "n \<noteq> 0" "i < length (seg s n)" "seg s n ! i = b"
    using loc_live [OF l] ok_loc [OF ok l] by auto
  from path_up_spec [OF ok n(1,2), of "[take (i + 1) (seg s n)]"] obtain ups where
    u: "path_up s n [take (i + 1) (seg s n)] = Some ([take (i + 1) (seg s n)] @ rev ups)"
      "chain (parent_map s) None (concat ups)" "last_of None (concat ups) = above s n" by blast
  let ?t = "take (i + 1) (seg s n)"
  have t: "?t \<noteq> []" "last ?t = b" using n by (auto simp: take_Suc_conv_app_nth)
  have "chain (parent_map s) (above s n) ?t"
    using edge_chain [OF ok n(1,2)] by (metis append_take_drop_id chain_append)
  with u l t show ?thesis
    by (intro exI [of _ "concat ups @ ?t"]) (simp add: path_to_block_def chain_append)
qed

end
