(* ===== verification/Block_Forest.thy ===== *)
theory Block_Forest
  imports Radix_Queries
begin

text \<open>
  The interface under which the prefix index uses its tree. A provider keeps a finite
  forest of blocks, seen through its parent map: \<open>pm s b = Some None\<close> for a block below
  the root, \<open>Some (Some p)\<close> for a block below block \<open>p\<close>, \<open>None\<close> for an absent one. The
  radix store of \<open>RadixTreeBackend\<close> is the provider: the interpretation at the end
  discharges the laws for it.
\<close>

definition with_child :: "('b \<Rightarrow> 'b option option) \<Rightarrow> 'b \<Rightarrow> bool" where
  "with_child P b \<longleftrightarrow> (\<exists>c. P c = Some (Some b))"

locale block_forest =
  fixes ok :: "'s \<Rightarrow> bool"
    and pm :: "'s \<Rightarrow> 'b \<Rightarrow> 'b option option"
    and insert_below :: "'b option \<Rightarrow> 'b \<Rightarrow> 's \<Rightarrow> unit res \<times> 's"
    and remove :: "'b \<Rightarrow> 's \<Rightarrow> unit res \<times> 's"
    and leaves :: "'s \<Rightarrow> 'b list"
    and path :: "'s \<Rightarrow> 'b \<Rightarrow> 'b list res"
    and find_chain :: "'s \<Rightarrow> 'b list \<Rightarrow> int \<Rightarrow> (nat \<times> 'b option) res"
  assumes finite_blocks: "ok s \<Longrightarrow> finite (dom (pm s))"
    and insert_law: "ok s \<Longrightarrow> pm s b = None \<Longrightarrow> (\<And>p. po = Some p \<Longrightarrow> pm s p \<noteq> None) \<Longrightarrow>
      \<exists>t. insert_below po b s = (Inr (), t) \<and> ok t \<and> pm t = (pm s)(b \<mapsto> po)"
    and remove_law: "ok s \<Longrightarrow> pm s b \<noteq> None \<Longrightarrow> \<not> with_child (pm s) b \<Longrightarrow>
      \<exists>t. remove b s = (Inr (), t) \<and> ok t \<and> pm t = (pm s)(b := None)"
    and remove_parent_law: "ok s \<Longrightarrow> with_child (pm s) b \<Longrightarrow> pm s b \<noteq> None \<Longrightarrow>
      \<exists>e. remove b s = (Inl e, s)"
    and leaves_law: "ok s \<Longrightarrow> b \<in> set (leaves s) \<longleftrightarrow> pm s b \<noteq> None \<and> \<not> with_child (pm s) b"
    and path_law: "ok s \<Longrightarrow> pm s b \<noteq> None \<Longrightarrow>
      \<exists>xs. path s b = Inr xs \<and> xs \<noteq> [] \<and> last xs = b \<and> chain (pm s) None xs"
    and find_law: "ok s \<Longrightarrow> find_chain s ids k =
      (let m = matched (pm s) None (take (nat k) ids) in Inr (length m, last_of None m))"
begin

lemma path_unique:
  assumes "ok s" "chain (pm s) None xs" "xs \<noteq> []"
  shows "path s (last xs) = Inr xs"
proof -
  have "pm s (last xs) \<noteq> None" using chain_dom [OF assms(2)] assms(3) by simp
  from path_law [OF assms(1) this] obtain ys where
    ys: "path s (last xs) = Inr ys" "ys \<noteq> []" "last ys = last xs" "chain (pm s) None ys" by blast
  have "xs = ys" by (rule chain_unique [OF assms(2) ys(4) assms(3) ys(2) ys(3) [symmetric]])
  with ys(1) show ?thesis by blast
qed

lemma path_extend:
  assumes ok: "ok s" and c: "pm s c = Some (Some b)"
  shows "\<exists>xs. path s b = Inr xs \<and> path s c = Inr (xs @ [c])"
proof -
  from path_law [OF ok, of c] c obtain ys where
    ys: "path s c = Inr ys" "ys \<noteq> []" "last ys = c" "chain (pm s) None ys" by auto
  then obtain xs where e: "ys = xs @ [c]" by (metis append_butlast_last_id)
  with ys c have xs: "chain (pm s) None xs" "last_of None xs = Some b" by (auto simp: chain_append)
  then have "xs \<noteq> []" "last xs = b" by (auto simp: last_of_def split: if_splits)
  with path_unique [OF ok xs(1)] ys e show ?thesis by auto
qed

lemma parent_present: "ok s \<Longrightarrow> pm s c = Some (Some b) \<Longrightarrow> pm s b \<noteq> None"
proof -
  assume ok: "ok s" and c: "pm s c = Some (Some b)"
  from path_law [OF ok, of c] c obtain ys where
    ys: "ys \<noteq> []" "last ys = c" "chain (pm s) None ys" by auto
  then obtain xs where e: "ys = xs @ [c]" by (metis append_butlast_last_id)
  with ys c have xs: "chain (pm s) None xs" "last_of None xs = Some b" by (auto simp: chain_append)
  then have "b \<in> set xs" by (auto simp: last_of_def split: if_splits)
  with chain_dom [OF xs(1)] show "pm s b \<noteq> None" by blast
qed

definition depth :: "'s \<Rightarrow> 'b \<Rightarrow> nat" where
  "depth s b = (case path s b of Inr xs \<Rightarrow> length xs | Inl _ \<Rightarrow> 0)"

lemma depth_child: "ok s \<Longrightarrow> pm s c = Some (Some b) \<Longrightarrow> depth s c = Suc (depth s b)"
  using path_extend by (fastforce simp: depth_def)

text \<open>
  Eviction never gets stuck: a non-empty set of blocks that contains the children of its
  members contains a block without children.
\<close>

lemma closed_set_has_leaf:
  assumes ok: "ok s" and A: "A \<noteq> {}" "\<And>b. b \<in> A \<Longrightarrow> pm s b \<noteq> None"
    and closed: "\<And>b c. b \<in> A \<Longrightarrow> pm s c = Some (Some b) \<Longrightarrow> c \<in> A"
  shows "\<exists>b\<in>A. b \<in> set (leaves s)"
proof -
  have "A \<subseteq> dom (pm s)" using A(2) by auto
  then have "finite A" using finite_blocks [OF ok] finite_subset by blast
  obtain b where "b \<in> A" "Max (depth s ` A) = depth s b"
    using obtains_MAX [OF \<open>finite A\<close> A(1)] .
  then have b: "b \<in> A" "\<And>c. c \<in> A \<Longrightarrow> depth s c \<le> depth s b"
    using \<open>finite A\<close> by (metis, metis Max_ge finite_imageI imageI)
  have "\<not> with_child (pm s) b"
    using closed [OF b(1)] b(2) depth_child [OF ok] by (fastforce simp: with_child_def)
  with A(2) [OF b(1)] b(1) show ?thesis by (auto simp: leaves_law [OF ok])
qed

lemma remove_insert:
  assumes ok: "ok s" and b: "pm s b = Some po" "\<not> with_child (pm s) b"
  shows "\<exists>t u. remove b s = (Inr (), t) \<and> insert_below po b t = (Inr (), u) \<and> ok u \<and> pm u = pm s"
proof -
  from remove_law [OF ok _ b(2)] b(1) obtain t where
    t: "remove b s = (Inr (), t)" "ok t" "pm t = (pm s)(b := None)" by auto
  have "pm t p \<noteq> None" if "po = Some p" for p
    using that b parent_present [OF ok, of b p] t(3) by (auto simp: with_child_def)
  from insert_law [OF t(2) _ this, of b] t obtain u where
    "insert_below po b t = (Inr (), u)" "ok u" "pm u = (pm t)(b \<mapsto> po)" by auto
  with t b(1) show ?thesis by auto
qed

lemma found_is_cached:
  assumes ok: "ok s" and f: "find_chain s ids k = Inr (n, lst)"
  shows "n \<le> length ids" "n \<le> nat k" "chain (pm s) None (take n ids)"
    "\<And>j. j \<le> nat k \<Longrightarrow> j \<le> length ids \<Longrightarrow> chain (pm s) None (take j ids) \<Longrightarrow> j \<le> n"
    "n = 0 \<Longrightarrow> lst = None" "0 < n \<Longrightarrow> lst = Some (ids ! (n - 1))"
proof -
  let ?m = "matched (pm s) None (take (nat k) ids)"
  from f have n: "n = length ?m" "lst = last_of None ?m" by (auto simp: find_law [OF ok] Let_def)
  have le: "n \<le> min (nat k) (length ids)"
    using matched_length [of "pm s" None "take (nat k) ids"] n by (simp add: min.commute)
  then show "n \<le> length ids" "n \<le> nat k" by auto
  have m: "?m = take n ids"
    using matched_prefix [of "pm s" None "take (nat k) ids"] n le by (metis min.bounded_iff min.absorb1 take_take)
  show "chain (pm s) None (take n ids)" using matched_chain by (metis m)
  show "j \<le> n" if "j \<le> nat k" "j \<le> length ids" "chain (pm s) None (take j ids)" for j
    using matched_longest [of "pm s" None j "take (nat k) ids"] that n by (simp add: min_def)
  have lst: "lst = last_of None (take n ids)" using n(2) by (simp only: m)
  then show "n = 0 \<Longrightarrow> lst = None" by simp
  show "lst = Some (ids ! (n - 1))" if "0 < n"
  proof -
    have "take n ids \<noteq> []" "length (take n ids) = n" using that le by auto
    then show ?thesis using lst that by (simp add: last_of_def last_conv_nth)
  qed
qed

end

text \<open>The radix store provides the interface.\<close>

lemma finite_parent_map: "finite (dom (parent_map s))"
  by (simp add: dom_parent_map finite_dom_map_of)

interpretation radix: block_forest radix_ok parent_map insert_child remove_block leaf_block_ids
    path_to_block radix_lookup
proof (unfold_locales, goal_cases)
  case (3 s b)
  with remove_block_spec [of s b] show ?case by (simp add: with_child_def)
next
  case (4 s b)
  with remove_block_spec [of s b] show ?case by (simp add: with_child_def)
next
  case (2 s b po)
  then show ?case by (intro insert_child_spec) auto
next
  case (5 s b)
  then show ?case by (simp add: leaf_block_ids_spec with_child_def)
next
  case (6 s b)
  then show ?case by (rule path_to_block_spec)
next
  case (7 s ids k)
  then show ?case by (rule radix_lookup_spec)
qed (rule finite_parent_map)

end
