(* ===== verification/Routing_Membership.thy ===== *)
theory Routing_Membership
  imports Prelude
begin

text \<open>
  The persistent AVL set of \<open>src/sparsevllm/engine/prefix_cache.py\<close>
  (\<open>_PrefixCacheRoutingMembership\<close> and its node functions): the set of block ids a
  routing snapshot shares with the live prefix index. The operations are pure, so they
  are functions into results; the exceptions of the rotations are kept as values and
  proved unreachable on AVL trees.
\<close>

section \<open>Nodes\<close>

text \<open>\<open>MNone\<close> is Python's \<open>None\<close>; the source's node has the fields in this order.\<close>

datatype 'b mnode =
    MNone
  | MNode (block_id: 'b) (left: "'b mnode") (right: "'b mnode") (height: nat)

definition routing_membership_height :: "'b mnode \<Rightarrow> nat" where
  "routing_membership_height n = (case n of MNone \<Rightarrow> 0 | MNode _ _ _ h \<Rightarrow> h)"

definition make_routing_membership_node :: "'b \<Rightarrow> 'b mnode \<Rightarrow> 'b mnode \<Rightarrow> 'b mnode" where
  "make_routing_membership_node b l r =
     MNode b l r (1 + max (routing_membership_height l) (routing_membership_height r))"

fun rotate_routing_membership_left :: "'b mnode \<Rightarrow> 'b mnode res" where
  "rotate_routing_membership_left MNone = Inl (AttributeError ''right'')"
| "rotate_routing_membership_left (MNode b l MNone h) =
     Inl (RuntimeError ''Cannot rotate prefix-cache routing membership left.'')"
| "rotate_routing_membership_left (MNode b l (MNode pb pl pr ph) h) =
     (let moved = make_routing_membership_node b l pl
      in Inr (make_routing_membership_node pb moved pr))"

fun rotate_routing_membership_right :: "'b mnode \<Rightarrow> 'b mnode res" where
  "rotate_routing_membership_right MNone = Inl (AttributeError ''left'')"
| "rotate_routing_membership_right (MNode b MNone r h) =
     Inl (RuntimeError ''Cannot rotate prefix-cache routing membership right.'')"
| "rotate_routing_membership_right (MNode b (MNode pb pl pr ph) r h) =
     (let moved = make_routing_membership_node b pr r
      in Inr (make_routing_membership_node pb pl moved))"

fun balance_routing_membership :: "'b mnode \<Rightarrow> 'b mnode res" where
  "balance_routing_membership MNone = Inl (AttributeError ''left'')"
| "balance_routing_membership (MNode b l r h) =
     (let balance = int (routing_membership_height l) - int (routing_membership_height r) in
      if balance > 1 then
        (case l of
           MNone \<Rightarrow> Inl (RuntimeError ''Invalid left-heavy prefix-cache routing membership.'')
         | MNode lb ll lr lh \<Rightarrow>
             if routing_membership_height ll < routing_membership_height lr then
               (case rotate_routing_membership_left l of
                  Inl e \<Rightarrow> Inl e
                | Inr l' \<Rightarrow>
                    rotate_routing_membership_right (make_routing_membership_node b l' r))
             else rotate_routing_membership_right (MNode b l r h))
      else if balance < - 1 then
        (case r of
           MNone \<Rightarrow> Inl (RuntimeError ''Invalid right-heavy prefix-cache routing membership.'')
         | MNode rb rl rr rh \<Rightarrow>
             if routing_membership_height rr < routing_membership_height rl then
               (case rotate_routing_membership_right r of
                  Inl e \<Rightarrow> Inl e
                | Inr r' \<Rightarrow>
                    rotate_routing_membership_left (make_routing_membership_node b l r'))
             else rotate_routing_membership_left (MNode b l r h))
      else Inr (MNode b l r h))"

fun insert_routing_membership :: "'b::linorder mnode \<Rightarrow> 'b \<Rightarrow> ('b mnode \<times> bool) res" where
  "insert_routing_membership MNone x = Inr (MNode x MNone MNone 1, True)"
| "insert_routing_membership (MNode b l r h) x =
     (if x = b then Inr (MNode b l r h, False)
      else if x < b then
        (case insert_routing_membership l x of
           Inl e \<Rightarrow> Inl e
         | Inr (l', inserted) \<Rightarrow>
             if \<not> inserted then Inr (MNode b l r h, False)
             else (case balance_routing_membership (make_routing_membership_node b l' r) of
                     Inl e \<Rightarrow> Inl e | Inr t \<Rightarrow> Inr (t, True)))
      else
        (case insert_routing_membership r x of
           Inl e \<Rightarrow> Inl e
         | Inr (r', inserted) \<Rightarrow>
             if \<not> inserted then Inr (MNode b l r h, False)
             else (case balance_routing_membership (make_routing_membership_node b l r') of
                     Inl e \<Rightarrow> Inl e | Inr t \<Rightarrow> Inr (t, True))))"

fun minimum_routing_membership_node :: "'b mnode \<Rightarrow> 'b mnode" where
  "minimum_routing_membership_node MNone = MNone"
| "minimum_routing_membership_node (MNode b MNone r h) = MNode b MNone r h"
| "minimum_routing_membership_node (MNode b (MNode lb ll lr lh) r h) =
     minimum_routing_membership_node (MNode lb ll lr lh)"

fun remove_routing_membership :: "'b::linorder mnode \<Rightarrow> 'b \<Rightarrow> ('b mnode \<times> bool) res" where
  "remove_routing_membership MNone x = Inr (MNone, False)"
| "remove_routing_membership (MNode b l r h) x =
     (if x < b then
        (case remove_routing_membership l x of
           Inl e \<Rightarrow> Inl e
         | Inr (l', removed) \<Rightarrow>
             if \<not> removed then Inr (MNode b l r h, False)
             else (case balance_routing_membership (make_routing_membership_node b l' r) of
                     Inl e \<Rightarrow> Inl e | Inr t \<Rightarrow> Inr (t, True)))
      else if b < x then
        (case remove_routing_membership r x of
           Inl e \<Rightarrow> Inl e
         | Inr (r', removed) \<Rightarrow>
             if \<not> removed then Inr (MNode b l r h, False)
             else (case balance_routing_membership (make_routing_membership_node b l r') of
                     Inl e \<Rightarrow> Inl e | Inr t \<Rightarrow> Inr (t, True)))
      else if l = MNone then Inr (r, True)
      else if r = MNone then Inr (l, True)
      else
        (let successor = block_id (minimum_routing_membership_node r) in
         case remove_routing_membership r successor of
           Inl e \<Rightarrow> Inl e
         | Inr (r', removed) \<Rightarrow>
             if \<not> removed then
               Inl (RuntimeError
                      ''Failed to remove prefix-cache routing membership successor.'')
             else (case balance_routing_membership
                          (make_routing_membership_node successor l r') of
                     Inl e \<Rightarrow> Inl e | Inr t \<Rightarrow> Inr (t, True))))"

section \<open>The membership record\<close>

record 'b membership =
  membership_root :: "'b mnode"
  live_blocks :: nat

definition empty_membership :: "'b membership" where
  "empty_membership = \<lparr>membership_root = MNone, live_blocks = 0\<rparr>"

fun node_contains :: "'b::linorder mnode \<Rightarrow> 'b \<Rightarrow> bool" where
  "node_contains MNone x = False"
| "node_contains (MNode b l r h) x =
     (if x = b then True else node_contains (if x < b then l else r) x)"

definition membership_contains :: "'b::linorder membership \<Rightarrow> 'b \<Rightarrow> bool" where
  "membership_contains m x = node_contains (membership_root m) x"

definition membership_insert :: "'b::linorder membership \<Rightarrow> 'b \<Rightarrow> 'b membership res" where
  "membership_insert m x =
     (case insert_routing_membership (membership_root m) x of
        Inl e \<Rightarrow> Inl e
      | Inr (t, inserted) \<Rightarrow>
          if \<not> inserted then
            Inl (RuntimeError ''Prefix-cache routing membership already contains inserted block.'')
          else Inr \<lparr>membership_root = t, live_blocks = live_blocks m + 1\<rparr>)"

text \<open>\<open>live_blocks\<close> counts the nodes, so the decrement is exact whenever a node was removed.\<close>

definition membership_remove :: "'b::linorder membership \<Rightarrow> 'b \<Rightarrow> 'b membership res" where
  "membership_remove m x =
     (case remove_routing_membership (membership_root m) x of
        Inl e \<Rightarrow> Inl e
      | Inr (t, removed) \<Rightarrow>
          if \<not> removed then
            Inl (RuntimeError ''Prefix-cache routing membership is missing removed block.'')
          else Inr \<lparr>membership_root = t, live_blocks = live_blocks m - 1\<rparr>)"

section \<open>Invariants\<close>

fun inorder :: "'b mnode \<Rightarrow> 'b list" where
  "inorder MNone = []"
| "inorder (MNode b l r h) = inorder l @ b # inorder r"

fun avl :: "'b mnode \<Rightarrow> bool" where
  "avl MNone = True"
| "avl (MNode b l r h) \<longleftrightarrow>
     h = 1 + max (routing_membership_height l) (routing_membership_height r)
     \<and> routing_membership_height l \<le> routing_membership_height r + 1
     \<and> routing_membership_height r \<le> routing_membership_height l + 1
     \<and> avl l \<and> avl r"

definition bst :: "'b::linorder mnode \<Rightarrow> bool" where
  "bst t \<longleftrightarrow> sorted_wrt (<) (inorder t)"

definition node_set :: "'b mnode \<Rightarrow> 'b set" where
  "node_set t = set (inorder t)"

lemma height_simps [simp]:
  "routing_membership_height MNone = 0"
  "routing_membership_height (MNode b l r h) = h"
  by (simp_all add: routing_membership_height_def)

lemma make_node_simps [simp]:
  "routing_membership_height (make_routing_membership_node b l r) =
     1 + max (routing_membership_height l) (routing_membership_height r)"
  "inorder (make_routing_membership_node b l r) = inorder l @ b # inorder r"
  by (simp_all add: make_routing_membership_node_def)

lemma node_set_simps [simp]:
  "node_set MNone = {}"
  "node_set (MNode b l r h) = insert b (node_set l \<union> node_set r)"
  by (auto simp: node_set_def)

lemma bst_simps [simp]:
  "bst MNone"
  "bst (MNode b l r h) \<longleftrightarrow>
     bst l \<and> bst r \<and> (\<forall>x\<in>node_set l. x < b) \<and> (\<forall>x\<in>node_set r. b < x)"
  by (auto simp: bst_def node_set_def sorted_wrt_append dest: order.strict_trans)

lemma finite_node_set [simp]: "finite (node_set t)"
  by (simp add: node_set_def)

lemma node_contains_set: "bst t \<Longrightarrow> node_contains t x \<longleftrightarrow> x \<in> node_set t"
  by (induction t) auto

lemma avl_height_pos: "avl t \<Longrightarrow> routing_membership_height t = 0 \<longleftrightarrow> t = MNone"
  by (cases t) auto

text \<open>
  Rebalancing a node whose subtrees are AVL and differ by at most two levels never
  raises, keeps the in-order sequence and gives an AVL tree of the old height or one less.
\<close>

definition balanced_from :: "'b \<Rightarrow> 'b mnode \<Rightarrow> 'b mnode \<Rightarrow> 'b mnode \<Rightarrow> bool" where
  "balanced_from b l r t \<longleftrightarrow>
     avl t \<and> inorder t = inorder l @ b # inorder r
     \<and> routing_membership_height t
         \<in> {max (routing_membership_height l) (routing_membership_height r),
            1 + max (routing_membership_height l) (routing_membership_height r)}
     \<and> (routing_membership_height l \<le> routing_membership_height r + 1
        \<and> routing_membership_height r \<le> routing_membership_height l + 1
        \<longrightarrow> routing_membership_height t =
              1 + max (routing_membership_height l) (routing_membership_height r))"

lemma balance_ok:
  assumes "avl l" "avl r"
    and "routing_membership_height l \<le> routing_membership_height r + 2"
    and "routing_membership_height r \<le> routing_membership_height l + 2"
  shows "\<exists>t. balance_routing_membership (make_routing_membership_node b l r) = Inr t
             \<and> balanced_from b l r t"
proof -
  let ?hl = "routing_membership_height l" and ?hr = "routing_membership_height r"
  consider (lefty) "?hl = ?hr + 2" | (righty) "?hr = ?hl + 2"
    | (even) "?hl \<le> ?hr + 1" "?hr \<le> ?hl + 1"
    using assms(3,4) by linarith
  then show ?thesis
  proof cases
    case lefty
    then obtain lb ll lr lh where l: "l = MNode lb ll lr lh" by (cases l) auto
    show ?thesis
    proof (cases "routing_membership_height ll < routing_membership_height lr")
      case True
      then obtain mb ml mr mh where lr: "lr = MNode mb ml mr mh" by (cases lr) auto
      from True lefty assms l lr show ?thesis
        by (auto simp: make_routing_membership_node_def balanced_from_def Let_def max_def
            split: if_splits)
    next
      case False
      with lefty assms l show ?thesis
        by (auto simp: make_routing_membership_node_def balanced_from_def Let_def max_def
            split: if_splits)
    qed
  next
    case righty
    then obtain rb rl rr rh where r: "r = MNode rb rl rr rh" by (cases r) auto
    show ?thesis
    proof (cases "routing_membership_height rr < routing_membership_height rl")
      case True
      then obtain mb ml mr mh where rl: "rl = MNode mb ml mr mh" by (cases rl) auto
      from True righty assms r rl show ?thesis
        by (auto simp: make_routing_membership_node_def balanced_from_def Let_def max_def
            split: if_splits)
    next
      case False
      with righty assms r show ?thesis
        by (auto simp: make_routing_membership_node_def balanced_from_def Let_def max_def
            split: if_splits)
    qed
  next
    case even
    with assms show ?thesis
      by (auto simp: make_routing_membership_node_def balanced_from_def Let_def)
  qed
qed

lemma balanced_fromD:
  assumes "balanced_from b l r t"
  shows "avl t" "node_set t = insert b (node_set l \<union> node_set r)"
    "inorder t = inorder l @ b # inorder r"
  using assms by (auto simp: balanced_from_def node_set_def)

lemma rebalance:
  assumes "avl l" "avl r" "bst l" "bst r"
    and "routing_membership_height l \<le> routing_membership_height r + 2"
    and "routing_membership_height r \<le> routing_membership_height l + 2"
    and "\<forall>x\<in>node_set l. x < b" "\<forall>x\<in>node_set r. b < x"
  obtains t where "balance_routing_membership (make_routing_membership_node b l r) = Inr t"
    and "balanced_from b l r t" and "bst t"
proof -
  from balance_ok [OF assms(1,2,5,6)] obtain t
    where t: "balance_routing_membership (make_routing_membership_node b l r) = Inr t"
      and bt: "balanced_from b l r t" by blast
  with assms have "bst t" unfolding balanced_from_def
    by (auto simp: bst_def node_set_def sorted_wrt_append dest: order.strict_trans)
  with t bt show ?thesis by (rule that)
qed

section \<open>Insertion\<close>

text \<open>
  The result of an insertion: a search tree in AVL shape over one more element, of the
  old height or one more; the flag says whether the element was new, and when it was not,
  the very same tree comes back.
\<close>

definition inserted_ok :: "'b::linorder mnode \<Rightarrow> 'b \<Rightarrow> 'b mnode \<times> bool \<Rightarrow> bool" where
  "inserted_ok t x = (\<lambda>(t', ins).
     avl t' \<and> bst t' \<and> node_set t' = insert x (node_set t) \<and> (ins \<longleftrightarrow> x \<notin> node_set t)
     \<and> (\<not> ins \<longrightarrow> t' = t)
     \<and> routing_membership_height t \<le> routing_membership_height t'
     \<and> routing_membership_height t' \<le> routing_membership_height t + 1)"

lemma insert_routing_ok:
  "avl t \<Longrightarrow> bst t \<Longrightarrow> \<exists>p. insert_routing_membership t x = Inr p \<and> inserted_ok t x p"
proof (induction t)
  case MNone
  show ?case by (simp add: inserted_ok_def)
next
  case (MNode b l r h)
  consider "x = b" | "x < b" | "b < x" by (rule linorder_cases)
  then show ?case
  proof cases
    case 1
    with MNode.prems show ?thesis by (auto simp: inserted_ok_def)
  next
    case 2
    from MNode obtain l' ins where l': "insert_routing_membership l x = Inr (l', ins)"
      and ok: "inserted_ok l x (l', ins)" by fastforce
    with 2 MNode.prems obtain t
      where t: "balance_routing_membership (make_routing_membership_node b l' r) = Inr t"
        and bt: "balanced_from b l' r t" "bst t"
      by (elim rebalance [of l' r b, rotated -1]) (auto simp: inserted_ok_def)
    with ok 2 MNode.prems have "ins \<Longrightarrow> inserted_ok (MNode b l r h) x (t, True)"
      using balanced_fromD [OF bt(1)] by (auto simp: inserted_ok_def balanced_from_def)
    moreover have "\<not> ins \<Longrightarrow> inserted_ok (MNode b l r h) x (MNode b l r h, False)"
      using ok 2 MNode.prems by (auto simp: inserted_ok_def)
    ultimately show ?thesis using 2 l' t by (cases ins) auto
  next
    case 3
    from MNode obtain r' ins where r': "insert_routing_membership r x = Inr (r', ins)"
      and ok: "inserted_ok r x (r', ins)" by fastforce
    with 3 MNode.prems obtain t
      where t: "balance_routing_membership (make_routing_membership_node b l r') = Inr t"
        and bt: "balanced_from b l r' t" "bst t"
      by (elim rebalance [of l r' b, rotated -1]) (auto simp: inserted_ok_def)
    with ok 3 MNode.prems have "ins \<Longrightarrow> inserted_ok (MNode b l r h) x (t, True)"
      using balanced_fromD [OF bt(1)] by (auto simp: inserted_ok_def balanced_from_def)
    moreover have "\<not> ins \<Longrightarrow> inserted_ok (MNode b l r h) x (MNode b l r h, False)"
      using ok 3 MNode.prems by (auto simp: inserted_ok_def)
    ultimately show ?thesis using 3 r' t by (cases ins) auto
  qed
qed

section \<open>Removal\<close>

lemma minimum_node_least:
  "bst t \<Longrightarrow> t \<noteq> MNone \<Longrightarrow>
     block_id (minimum_routing_membership_node t) \<in> node_set t
     \<and> (\<forall>x\<in>node_set t. block_id (minimum_routing_membership_node t) \<le> x)"
proof (induction t rule: minimum_routing_membership_node.induct)
  case (3 b lb ll lr lh r h)
  then show ?case by (auto simp: less_imp_le) (meson order.strict_iff_not order.trans less_imp_le)+
qed (auto simp: less_imp_le)

definition removed_ok :: "'b::linorder mnode \<Rightarrow> 'b \<Rightarrow> 'b mnode \<times> bool \<Rightarrow> bool" where
  "removed_ok t x = (\<lambda>(t', rem).
     avl t' \<and> bst t' \<and> (\<forall>y. y \<in> node_set t' \<longleftrightarrow> y \<in> node_set t \<and> y \<noteq> x) \<and> (rem \<longleftrightarrow> x \<in> node_set t)
     \<and> (\<not> rem \<longrightarrow> t' = t)
     \<and> routing_membership_height t' \<le> routing_membership_height t
     \<and> routing_membership_height t \<le> routing_membership_height t' + 1)"

lemma removed_okI:
  assumes bt: "balanced_from b l' r' t" and "bst t" and "x \<in> node_set t0"
    and els: "\<And>y. y = b \<or> y \<in> node_set l' \<or> y \<in> node_set r' \<longleftrightarrow> y \<in> node_set t0 \<and> y \<noteq> x"
    and up: "1 + max (routing_membership_height l') (routing_membership_height r')
               \<le> routing_membership_height t0"
    and low: "routing_membership_height t0
               \<le> 1 + max (routing_membership_height l') (routing_membership_height r')
             \<or> routing_membership_height l' \<le> routing_membership_height r' + 1
               \<and> routing_membership_height r' \<le> routing_membership_height l' + 1
               \<and> routing_membership_height t0
                    \<le> 2 + max (routing_membership_height l') (routing_membership_height r')"
  shows "removed_ok t0 x (t, True)"
proof -
  have "\<forall>y. y \<in> node_set t \<longleftrightarrow> y \<in> node_set t0 \<and> y \<noteq> x"
    using els by (simp add: balanced_fromD(2) [OF bt])
  moreover have "routing_membership_height t \<le> routing_membership_height t0"
    "routing_membership_height t0 \<le> routing_membership_height t + 1"
    using bt up low unfolding balanced_from_def by auto
  ultimately show ?thesis
    using assms(2,3) balanced_fromD(1) [OF bt] by (simp add: removed_ok_def)
qed

lemma removed_okD:
  assumes "removed_ok t x (t', rem)"
  shows "avl t'" "bst t'" "y \<in> node_set t' \<longleftrightarrow> y \<in> node_set t \<and> y \<noteq> x"
    "rem \<longleftrightarrow> x \<in> node_set t"
    "routing_membership_height t' \<le> routing_membership_height t"
    "routing_membership_height t \<le> routing_membership_height t' + 1"
  using assms by (auto simp: removed_ok_def)

lemma remove_routing_ok:
  "avl t \<Longrightarrow> bst t \<Longrightarrow> \<exists>p. remove_routing_membership t x = Inr p \<and> removed_ok t x p"
proof (induction t arbitrary: x)
  case MNone
  show ?case by (simp add: removed_ok_def)
next
  case (MNode b l r h)
  consider "x < b" | "b < x" | "x = b" by (metis linorder_less_linear)
  then show ?case
  proof cases
    case 1
    from MNode obtain l' rem where l': "remove_routing_membership l x = Inr (l', rem)"
      and ok: "removed_ok l x (l', rem)" by fastforce
    with 1 MNode.prems obtain t
      where t: "balance_routing_membership (make_routing_membership_node b l' r) = Inr t"
        and bt: "balanced_from b l' r t" "bst t"
      by (elim rebalance [of l' r b, rotated -1]) (auto simp: removed_ok_def)
    have "removed_ok (MNode b l r h) x (t, True)" if "rem"
    proof (rule removed_okI [OF bt])
      show "x \<in> node_set (MNode b l r h)" using that removed_okD(4) [OF ok] by simp
    qed (use 1 MNode.prems removed_okD [OF ok] in \<open>auto simp: max_def dest: order.asym\<close>)
    moreover have "\<not> rem \<Longrightarrow> removed_ok (MNode b l r h) x (MNode b l r h, False)"
      using ok 1 MNode.prems by (auto simp: removed_ok_def)
    ultimately show ?thesis using 1 l' t by (cases rem) auto
  next
    case 2
    from MNode obtain r' rem where r': "remove_routing_membership r x = Inr (r', rem)"
      and ok: "removed_ok r x (r', rem)" by fastforce
    with 2 MNode.prems obtain t
      where t: "balance_routing_membership (make_routing_membership_node b l r') = Inr t"
        and bt: "balanced_from b l r' t" "bst t"
      by (elim rebalance [of l r' b, rotated -1]) (auto simp: removed_ok_def)
    have "removed_ok (MNode b l r h) x (t, True)" if "rem"
    proof (rule removed_okI [OF bt])
      show "x \<in> node_set (MNode b l r h)" using that removed_okD(4) [OF ok] by simp
    qed (use 2 MNode.prems removed_okD [OF ok] in \<open>auto simp: max_def dest: order.asym\<close>)
    moreover have "\<not> rem \<Longrightarrow> removed_ok (MNode b l r h) x (MNode b l r h, False)"
      using ok 2 MNode.prems by (auto simp: removed_ok_def)
    ultimately show ?thesis using 2 r' t by (cases rem) auto
  next
    case 3
    show ?thesis
    proof (cases "l = MNone \<or> r = MNone")
      case True
      with 3 MNode.prems show ?thesis by (auto simp: removed_ok_def)
    next
      case False
      define s where "s = block_id (minimum_routing_membership_node r)"
      have s: "s \<in> node_set r" "\<forall>y\<in>node_set r. s \<le> y"
        using minimum_node_least [of r] False MNode.prems by (auto simp: s_def)
      from MNode obtain r' rem where r': "remove_routing_membership r s = Inr (r', rem)"
        and ok: "removed_ok r s (r', rem)" by fastforce
      from s(1) MNode.prems have bs: "b < s" by auto
      have ls: "\<forall>y\<in>node_set l. y < s"
        using MNode.prems bs by (auto intro: order.strict_trans)
      have sr: "\<forall>y\<in>node_set r'. s < y"
        using s(2) ok by (auto simp: removed_ok_def order.strict_iff_order)
      from ok MNode.prems obtain t
        where t: "balance_routing_membership (make_routing_membership_node s l r') = Inr t"
          and bt: "balanced_from s l r' t" "bst t"
        by (elim rebalance [of l r' s, rotated -1]) (simp_all add: removed_ok_def ls sr)
      have "removed_ok (MNode b l r h) x (t, True)"
      proof (rule removed_okI [OF bt])
        show "y = s \<or> y \<in> node_set l \<or> y \<in> node_set r'
                \<longleftrightarrow> y \<in> node_set (MNode b l r h) \<and> y \<noteq> x" for y
          using 3 MNode.prems removed_okD(3) [OF ok] s(1) by auto
      qed (use 3 MNode.prems removed_okD [OF ok] in \<open>auto simp: max_def\<close>)
      with 3 False r' t ok s show ?thesis
        by (auto simp: removed_ok_def s_def [symmetric] Let_def)
    qed
  qed
qed

section \<open>The membership as a finite set\<close>

definition membership_set :: "'b membership \<Rightarrow> 'b set" where
  "membership_set m = node_set (membership_root m)"

definition membership_ok :: "'b::linorder membership \<Rightarrow> bool" where
  "membership_ok m \<longleftrightarrow> avl (membership_root m) \<and> bst (membership_root m)
     \<and> live_blocks m = card (membership_set m)"

lemma finite_membership_set [simp]: "finite (membership_set m)"
  by (simp add: membership_set_def node_set_def)

text \<open>
  The interface the prefix index relies on: a finite set of block ids with a size, whose
  insertions and removals raise exactly when they would not change it.
\<close>

locale id_set =
  fixes empty :: "'m" and contains :: "'m \<Rightarrow> 'b \<Rightarrow> bool"
    and ins :: "'m \<Rightarrow> 'b \<Rightarrow> 'm res" and rem :: "'m \<Rightarrow> 'b \<Rightarrow> 'm res"
    and size_of :: "'m \<Rightarrow> nat" and elems :: "'m \<Rightarrow> 'b set" and ok :: "'m \<Rightarrow> bool"
  assumes ok_empty: "ok empty" and elems_empty: "elems empty = {}"
    and contains_elems: "ok m \<Longrightarrow> contains m b \<longleftrightarrow> b \<in> elems m"
    and size_card: "ok m \<Longrightarrow> size_of m = card (elems m)"
    and ins_new: "ok m \<Longrightarrow> b \<notin> elems m \<Longrightarrow>
        \<exists>m'. ins m b = Inr m' \<and> ok m' \<and> elems m' = insert b (elems m)"
    and ins_old: "ok m \<Longrightarrow> b \<in> elems m \<Longrightarrow> \<exists>msg. ins m b = Inl (RuntimeError msg)"
    and rem_old: "ok m \<Longrightarrow> b \<in> elems m \<Longrightarrow>
        \<exists>m'. rem m b = Inr m' \<and> ok m' \<and> elems m' = elems m - {b}"
    and rem_new: "ok m \<Longrightarrow> b \<notin> elems m \<Longrightarrow> \<exists>msg. rem m b = Inl (RuntimeError msg)"
begin

lemma ins_cases:
  assumes "ok m"
  obtains (new) m' where "b \<notin> elems m" "ins m b = Inr m'" "ok m'" "elems m' = insert b (elems m)"
    | (old) msg where "b \<in> elems m" "ins m b = Inl (RuntimeError msg)"
  using ins_new [OF assms, of b] ins_old [OF assms, of b] by blast

lemma rem_cases:
  assumes "ok m"
  obtains (old) m' where "b \<in> elems m" "rem m b = Inr m'" "ok m'" "elems m' = elems m - {b}"
    | (new) msg where "b \<notin> elems m" "rem m b = Inl (RuntimeError msg)"
  using rem_new [OF assms, of b] rem_old [OF assms, of b] by blast

text \<open>Removing what was just inserted gives back the same elements and the same answers.\<close>

lemma rem_after_ins:
  assumes "ok m" "ins m b = Inr m'"
  shows "\<exists>m''. rem m' b = Inr m'' \<and> ok m'' \<and> elems m'' = elems m \<and> size_of m'' = size_of m
           \<and> contains m'' = contains m"
proof -
  from assms have new: "b \<notin> elems m" "ok m'" "elems m' = insert b (elems m)"
    by (auto elim: ins_cases [of m b])
  then obtain m'' where m'': "rem m' b = Inr m''" "ok m''" "elems m'' = elems m' - {b}"
    using rem_old [of m' b] by auto
  with new assms(1) show ?thesis by (auto simp: contains_elems size_card fun_eq_iff)
qed

end

interpretation membership: id_set empty_membership membership_contains membership_insert
  membership_remove live_blocks membership_set membership_ok
proof (unfold_locales, goal_cases)
  case 1
  show ?case by (simp add: membership_ok_def membership_set_def empty_membership_def)
next
  case 2
  show ?case by (simp add: membership_set_def empty_membership_def)
next
  case (3 m b)
  then show ?case
    by (simp add: membership_contains_def membership_ok_def membership_set_def node_contains_set)
next
  case (4 m)
  then show ?case by (simp add: membership_ok_def)
next
  case (5 m b)
  then show ?case using insert_routing_ok [of "membership_root m" b]
    by (auto simp: membership_insert_def membership_ok_def membership_set_def inserted_ok_def)
next
  case (6 m b)
  then show ?case using insert_routing_ok [of "membership_root m" b]
    by (auto simp: membership_insert_def membership_ok_def membership_set_def inserted_ok_def)
next
  case (7 m b)
  then obtain t where "remove_routing_membership (membership_root m) b = Inr (t, True)"
    "removed_ok (membership_root m) b (t, True)"
    using remove_routing_ok [of "membership_root m" b]
    by (auto simp: membership_ok_def membership_set_def removed_ok_def)
  moreover from this(2) have "node_set t = node_set (membership_root m) - {b}"
    by (auto simp: removed_ok_def)
  ultimately show ?case using 7
    by (auto simp: membership_remove_def membership_ok_def membership_set_def removed_ok_def)
next
  case (8 m b)
  then show ?case using remove_routing_ok [of "membership_root m" b]
    by (auto simp: membership_remove_def membership_ok_def membership_set_def removed_ok_def)
qed

section \<open>Logarithmic height\<close>

lemma avl_size_height:
  "avl t \<Longrightarrow> 2 ^ (routing_membership_height t div 2) \<le> length (inorder t) + 1"
proof (induction "routing_membership_height t" arbitrary: t rule: less_induct)
  case less
  show ?case
  proof (cases t)
    case (MNode b l r h)
    with less have "2 ^ (routing_membership_height l div 2) \<le> length (inorder l) + 1"
      "2 ^ (routing_membership_height r div 2) \<le> length (inorder r) + 1" by auto
    moreover have "h div 2 \<le> Suc (routing_membership_height l div 2)"
      "h div 2 \<le> Suc (routing_membership_height r div 2)"
      using less.prems MNode by auto
    then have "(2::nat) ^ (h div 2) \<le> 2 ^ Suc (routing_membership_height l div 2)"
      "(2::nat) ^ (h div 2) \<le> 2 ^ Suc (routing_membership_height r div 2)"
      by (intro power_increasing; simp)+
    ultimately show ?thesis using MNode by simp
  qed simp
qed

end
