(* ===== verification/Prefix_Ids.thy ===== *)
theory Prefix_Ids
  imports Routing_Membership
begin

text \<open>
  How \<open>engine/prefix_cache.py\<close> names prefix blocks and matches a prompt against a routing
  snapshot: the usable prefix of a prompt, the block size a configuration resolves to,
  the byte packing of token ids, the chained block ids, and
  \<open>PrefixCacheRoutingSnapshot.match\<close>. SHA-256 is code outside the repository: it is the
  parameter \<open>H\<close> of the definitions that use it.
\<close>

section \<open>Usable prefix and block size\<close>

definition usable_prefix_cache_tokens :: "int \<Rightarrow> int \<Rightarrow> int res" where
  "usable_prefix_cache_tokens prompt_len block_size =
     (if block_size \<le> 0 then Inl (ValueError ''prefix cache block_size must be > 0, got '')
      else if prompt_len \<le> 1 then Inr 0
      else Inr ((prompt_len - 1) div block_size * block_size))"

text \<open>
  The configuration attributes the resolver reads. \<open>CfgOther\<close> is a value of another type
  (a \<open>bool\<close> counts as one: the code refuses it).
\<close>

datatype cfg_int = CfgNone | CfgInt int | CfgOther

record block_size_config =
  prefix_cache_block_size :: cfg_int
  sparse_method :: string
  quest_chunk_size :: int
  linear_attention_layer_indices :: "int list"

definition resolve_prefix_cache_block_size :: "block_size_config \<Rightarrow> int res" where
  "resolve_prefix_cache_block_size config =
     (case prefix_cache_block_size config of
        CfgOther \<Rightarrow> Inl (ValueError ''prefix_cache_block_size must be a positive integer, got '')
      | configured \<Rightarrow>
          if sparse_method config = ''quest'' then
            (if linear_attention_layer_indices config \<noteq> [] then
               (let block_size = (case configured of CfgInt k \<Rightarrow> k | _ \<Rightarrow> quest_chunk_size config)
                in if block_size \<le> 0 then
                     Inl (ValueError ''mixed Quest prefix_cache_block_size must be a positive multiple of quest_chunk_size: '')
                   else if quest_chunk_size config = 0 then Inl ZeroDivisionError
                   else if block_size mod quest_chunk_size config \<noteq> 0 then
                     Inl (ValueError ''mixed Quest prefix_cache_block_size must be a positive multiple of quest_chunk_size: '')
                   else Inr block_size)
             else if (case configured of CfgInt k \<Rightarrow> k \<noteq> quest_chunk_size config | _ \<Rightarrow> False) then
               Inl (ValueError ''prefix_cache_block_size must equal quest_chunk_size for quest prefix caching: '')
             else Inr (quest_chunk_size config))
          else
            (let block_size = (case configured of CfgInt k \<Rightarrow> k | _ \<Rightarrow> 16)
             in if block_size \<le> 0 then Inl (ValueError ''prefix_cache_block_size must be > 0, got '')
                else Inr block_size))"

section \<open>Packing token ids\<close>

text \<open>\<open>struct.pack("<q", x)\<close>: eight bytes, least significant first, two's complement.\<close>

definition pack_q :: "int \<Rightarrow> bytes res" where
  "pack_q x =
     (if - (2 ^ 63) \<le> x \<and> x < 2 ^ 63
      then Inr (map (\<lambda>i. word_of_int (x div 2 ^ (8 * i))) [0..<8]) else Inl StructError)"

fun pack_token_ids :: "int list \<Rightarrow> bytes res" where
  "pack_token_ids [] = Inr []"
| "pack_token_ids (x # xs) =
     (case pack_q x of Inl e \<Rightarrow> Inl e
      | Inr b \<Rightarrow> (case pack_token_ids xs of Inl e \<Rightarrow> Inl e | Inr bs \<Rightarrow> Inr (b @ bs)))"

section \<open>Chained block ids\<close>

definition id_input :: "bytes \<Rightarrow> int list \<Rightarrow> bytes option \<Rightarrow> bytes res" where
  "id_input fingerprint token_ids parent_block_id =
     (case pack_token_ids token_ids of
        Inl e \<Rightarrow> Inl e
      | Inr packed \<Rightarrow>
          Inr (fingerprint @ (case parent_block_id of None \<Rightarrow> [0] | Some p \<Rightarrow> 1 # p) @ packed))"

definition stable_prefix_block_id ::
    "(bytes \<Rightarrow> bytes) \<Rightarrow> bytes \<Rightarrow> int list \<Rightarrow> bytes option \<Rightarrow> bytes res" where
  "stable_prefix_block_id H fingerprint token_ids parent_block_id =
     (case id_input fingerprint token_ids parent_block_id of
        Inl e \<Rightarrow> Inl e | Inr m \<Rightarrow> Inr (H m))"

text \<open>
  The loop of \<open>block_ids_for_tokens\<close> over the full blocks of the token list, each block
  named below the one before it.
\<close>

fun chain_ids ::
    "(bytes \<Rightarrow> bytes) \<Rightarrow> bytes \<Rightarrow> bytes option \<Rightarrow> int list list \<Rightarrow> bytes list res" where
  "chain_ids H fp parent [] = Inr []"
| "chain_ids H fp parent (c # cs) =
     (case stable_prefix_block_id H fp c parent of
        Inl e \<Rightarrow> Inl e
      | Inr b \<Rightarrow> (case chain_ids H fp (Some b) cs of Inl e \<Rightarrow> Inl e | Inr bs \<Rightarrow> Inr (b # bs)))"

definition prefix_block_ids ::
    "(bytes \<Rightarrow> bytes) \<Rightarrow> bytes \<Rightarrow> nat \<Rightarrow> int list \<Rightarrow> int option \<Rightarrow> bytes list res" where
  "prefix_block_ids H fp bs token_ids max_tokens =
     (let token_limit = (case max_tokens of None \<Rightarrow> int (length token_ids)
                         | Some m \<Rightarrow> min m (int (length token_ids)));
          token_limit' = token_limit div int bs * int bs
      in chain_ids H fp None (chunks bs (take (nat token_limit') token_ids)))"

section \<open>Matching a routing snapshot\<close>

record routing_snapshot =
  snap_supported :: bool
  snap_enabled :: bool
  snap_method :: string
  snap_block_size :: "int option"
  snap_fingerprint :: bytes
  snap_block_ids :: "bytes list"
  snap_membership :: "bytes membership option"
  snap_reason :: "string option"

text \<open>
  The dictionary \<open>match\<close> returns. \<open>match_ratio\<close> keeps the two operands of the float
  division (\<open>None\<close> for the literal 0.0).
\<close>

record match_result =
  res_supported :: bool
  res_enabled :: bool
  res_method :: string
  usable_tokens :: int
  matched_tokens :: int
  matched_blocks :: nat
  match_ratio :: "(int \<times> int) option"
  last_block_id :: "bytes option"
  res_live_blocks :: int
  res_reason :: "string option"

definition snapshot_contains :: "routing_snapshot \<Rightarrow> bytes \<Rightarrow> bool" where
  "snapshot_contains snap b =
     (case snap_membership snap of
        None \<Rightarrow> b \<in> set (snap_block_ids snap)
      | Some m \<Rightarrow> membership_contains m b)"

text \<open>The block loop of \<open>match\<close>: it stops at the first id that is not indexed.\<close>

fun match_loop ::
    "(bytes \<Rightarrow> bytes) \<Rightarrow> routing_snapshot \<Rightarrow> int list list \<Rightarrow> nat \<Rightarrow> bytes option
       \<Rightarrow> (nat \<times> bytes option) res" where
  "match_loop H snap [] hit_blocks lst = Inr (hit_blocks, lst)"
| "match_loop H snap (c # cs) hit_blocks lst =
     (case stable_prefix_block_id H (snap_fingerprint snap) c lst of
        Inl e \<Rightarrow> Inl e
      | Inr b \<Rightarrow> if snapshot_contains snap b then match_loop H snap cs (hit_blocks + 1) (Some b)
                else Inr (hit_blocks, lst))"

definition snapshot_match ::
    "(bytes \<Rightarrow> bytes) \<Rightarrow> routing_snapshot \<Rightarrow> int list \<Rightarrow> match_result res" where
  "snapshot_match H snap token_ids =
     (if \<not> snap_supported snap \<or> \<not> snap_enabled snap then
        Inr \<lparr>res_supported = snap_supported snap, res_enabled = snap_enabled snap,
             res_method = snap_method snap, usable_tokens = 0, matched_tokens = 0,
             matched_blocks = 0, match_ratio = None, last_block_id = None,
             res_live_blocks = 0, res_reason = snap_reason snap\<rparr>
      else case snap_block_size snap of
        None \<Rightarrow> Inl (RuntimeError ''Enabled prefix-cache routing snapshot has no valid block size.'')
      | Some bs \<Rightarrow>
          if bs \<le> 0 then
            Inl (RuntimeError ''Enabled prefix-cache routing snapshot has no valid block size.'')
          else case usable_prefix_cache_tokens (int (length token_ids)) bs of
            Inl e \<Rightarrow> Inl e
          | Inr usable \<Rightarrow>
              (case match_loop H snap (chunks (nat bs) (take (nat usable) token_ids)) 0 None of
                 Inl e \<Rightarrow> Inl e
               | Inr (hit_blocks, lst) \<Rightarrow>
                   Inr \<lparr>res_supported = True, res_enabled = True, res_method = snap_method snap,
                        usable_tokens = usable, matched_tokens = int hit_blocks * bs,
                        matched_blocks = hit_blocks,
                        match_ratio = (if usable \<le> 0 then None
                                       else Some (int hit_blocks * bs, usable)),
                        last_block_id = lst,
                        res_live_blocks = (case snap_membership snap of
                            None \<Rightarrow> int (length (snap_block_ids snap))
                          | Some m \<Rightarrow> int (live_blocks m)),
                        res_reason = None\<rparr>))"

section \<open>Facts about usable prefixes\<close>

lemma usable_tokens_spec:
  assumes "0 < bs" "0 < n"
  shows "\<exists>u. usable_prefix_cache_tokens n bs = Inr u \<and> 0 \<le> u \<and> bs dvd u \<and> u < n \<and> n \<le> u + bs"
proof -
  have e: "usable_prefix_cache_tokens n bs = Inr ((n - 1) div bs * bs)"
    using assms by (auto simp: usable_prefix_cache_tokens_def)
  let ?u = "(n - 1) div bs * bs"
  have m: "?u + (n - 1) mod bs = n - 1" by simp
  have r: "0 \<le> (n - 1) mod bs" "(n - 1) mod bs < bs" using assms by simp_all
  have "?u < n" using m r by linarith
  moreover have "n \<le> ?u + bs" using m r by linarith
  moreover have "0 \<le> ?u" using assms by (simp add: pos_imp_zdiv_nonneg_iff)
  moreover have "bs dvd ?u" by simp
  ultimately show ?thesis using e by blast
qed

section \<open>Packing loses nothing\<close>

definition unpack_q :: "bytes \<Rightarrow> int" where
  "unpack_q bs = (let u = (\<Sum>i<8. uint (bs ! i) * 2 ^ (8 * i)) in if u < 2 ^ 63 then u else u - 2 ^ 64)"

lemma digits256: "(\<Sum>i<n. (x div 2 ^ (8 * i) mod 256) * 2 ^ (8 * i)) = x mod (2::int) ^ (8 * n)"
proof (induction n)
  case (Suc n)
  have "x mod 2 ^ (8 * Suc n) = 2 ^ (8 * n) * (x div 2 ^ (8 * n) mod 256) + x mod 2 ^ (8 * n)"
    using zmod_zmult2_eq [of 256 x "2 ^ (8 * n)"] by (simp add: power_add mult.commute)
  with Suc show ?case by simp
qed simp

lemma pack_unpack: "pack_q x = Inr b \<Longrightarrow> unpack_q b = x \<and> length b = 8"
proof -
  assume p: "pack_q x = Inr b"
  then have r: "- (2 ^ 63) \<le> x" "x < 2 ^ 63"
    and b: "b = map (\<lambda>i. word_of_int (x div 2 ^ (8 * i))) [0..<8]"
    by (auto simp: pack_q_def split: if_splits)
  have "(\<Sum>i<8. uint (b ! i) * 2 ^ (8 * i)) = (\<Sum>i<8. (x div 2 ^ (8 * i) mod 256) * 2 ^ (8 * i))"
    by (rule sum.cong) (auto simp: b unsigned_of_int take_bit_eq_mod)
  also have "\<dots> = x mod 2 ^ 64" using digits256 [of x 8] by simp
  finally have u: "(\<Sum>i<8. uint (b ! i) * 2 ^ (8 * i)) = x mod 2 ^ 64" .
  have "x mod 2 ^ 64 = (if 0 \<le> x then x else x + 2 ^ 64)"
    using r by (auto simp: mod_pos_pos_trivial) (simp add: mod_add_self2 [symmetric, of x] mod_pos_pos_trivial del: mod_add_self2)
  with u r show ?thesis by (auto simp: unpack_q_def b)
qed

lemma pack_q_inj: "pack_q x = Inr b \<Longrightarrow> pack_q y = Inr b \<Longrightarrow> x = y"
  using pack_unpack by metis

lemma pack_length: "pack_token_ids xs = Inr b \<Longrightarrow> length b = 8 * length xs"
proof (induction xs arbitrary: b)
  case (Cons x xs)
  then show ?case using pack_unpack by (fastforce split: sum.splits)
qed simp

lemma pack_inj: "pack_token_ids xs = Inr b \<Longrightarrow> pack_token_ids ys = Inr b \<Longrightarrow> xs = ys"
proof (induction xs arbitrary: ys b)
  case Nil
  then show ?case using pack_length [of ys b] by simp
next
  case (Cons x xs)
  from Cons.prems(1) obtain p ps where x: "pack_q x = Inr p" "pack_token_ids xs = Inr ps" "b = p @ ps"
    by (auto split: sum.splits)
  from pack_length [OF Cons.prems(1)] pack_length [OF Cons.prems(2)]
  have "length ys = Suc (length xs)" by simp
  then obtain y ys' where ys: "ys = y # ys'" by (cases ys) auto
  with Cons.prems(2) obtain p' ps' where y: "pack_q y = Inr p'" "pack_token_ids ys' = Inr ps'"
    "b = p' @ ps'" by (auto split: sum.splits)
  have "p = p'" "ps = ps'" using x y pack_unpack by (metis append_eq_append_conv)+
  with x y ys Cons.IH [of ps ys'] show ?case using pack_q_inj by blast
qed

section \<open>Block ids name token chains\<close>

lemma id_input_inj:
  assumes "id_input fp c q = Inr m" "id_input fp d r = Inr m" "length c = length d"
  shows "c = d \<and> q = r"
proof -
  from assms obtain pc pd where p: "pack_token_ids c = Inr pc" "pack_token_ids d = Inr pd"
    and e: "(case q of None \<Rightarrow> [0] | Some p \<Rightarrow> 1 # p) @ pc = (case r of None \<Rightarrow> [0] | Some p \<Rightarrow> 1 # p) @ pd"
    by (auto simp: id_input_def split: sum.splits)
  have "length pc = length pd" using p assms(3) by (simp add: pack_length)
  with e have "pc = pd" "(case q of None \<Rightarrow> [0::byte] | Some p \<Rightarrow> 1 # p) = (case r of None \<Rightarrow> [0] | Some p \<Rightarrow> 1 # p)"
    by auto
  with p pack_inj show ?thesis by (auto split: option.splits)
qed

text \<open>The messages hashed for a chain of blocks.\<close>

fun chain_inputs ::
    "(bytes \<Rightarrow> bytes) \<Rightarrow> bytes \<Rightarrow> bytes option \<Rightarrow> int list list \<Rightarrow> bytes set" where
  "chain_inputs H fp q [] = {}"
| "chain_inputs H fp q (c # cs) =
     (case id_input fp c q of Inl e \<Rightarrow> {} | Inr m \<Rightarrow> insert m (chain_inputs H fp (Some (H m)) cs))"

lemma chain_ids_length: "chain_ids H fp q cs = Inr ids \<Longrightarrow> length ids = length cs"
  by (induction cs arbitrary: q ids) (auto split: sum.splits)

text \<open>
  Walking two chains backwards from their last ids: if the ids agree, so do the tokens of
  every block, as long as the hash separates the messages of the two chains.
\<close>

lemma chain_ids_snoc:
  "chain_ids H fp q (cs @ [c]) =
     (case chain_ids H fp q cs of Inl e \<Rightarrow> Inl e
      | Inr ids \<Rightarrow> (case stable_prefix_block_id H fp c (if ids = [] then q else Some (last ids)) of
          Inl e \<Rightarrow> Inl e | Inr b \<Rightarrow> Inr (ids @ [b])))"
  by (induction cs arbitrary: q) (auto split: sum.splits)

lemma chain_inputs_snoc:
  "chain_ids H fp q cs = Inr ids \<Longrightarrow>
   id_input fp c (if ids = [] then q else Some (last ids)) = Inr m \<Longrightarrow>
   chain_inputs H fp q (cs @ [c]) = insert m (chain_inputs H fp q cs)"
proof (induction cs arbitrary: q ids)
  case (Cons d ds)
  then show ?case
    by (auto simp: stable_prefix_block_id_def split: sum.splits if_splits)
qed simp

lemma chain_ids_injective:
  assumes "chain_ids H fp None cs = Inr ids" "chain_ids H fp None ds = Inr jds"
    and "\<And>c. c \<in> set cs \<union> set ds \<Longrightarrow> length c = k"
    and "inj_on H (chain_inputs H fp None cs \<union> chain_inputs H fp None ds)"
    and "length cs = length ds" "cs \<noteq> []" "last ids = last jds"
  shows "cs = ds"
  using assms
proof (induction cs arbitrary: ds ids jds rule: rev_induct)
  case (snoc c cs)
  from snoc.prems(5) obtain ds' d where ds: "ds = ds' @ [d]" by (cases ds rule: rev_cases) auto
  from snoc.prems(1) obtain is' b m where i: "chain_ids H fp None cs = Inr is'"
    "id_input fp c (if is' = [] then None else Some (last is')) = Inr m" "b = H m" "ids = is' @ [b]"
    by (auto simp: chain_ids_snoc stable_prefix_block_id_def split: sum.splits)
  from snoc.prems(2) obtain js' b' m' where j: "chain_ids H fp None ds' = Inr js'"
    "id_input fp d (if js' = [] then None else Some (last js')) = Inr m'" "b' = H m'" "jds = js' @ [b']"
    by (auto simp: ds chain_ids_snoc stable_prefix_block_id_def split: sum.splits)
  have C: "chain_inputs H fp None (cs @ [c]) = insert m (chain_inputs H fp None cs)"
    "chain_inputs H fp None ds = insert m' (chain_inputs H fp None ds')"
    using chain_inputs_snoc [OF i(1,2)] chain_inputs_snoc [OF j(1,2)] by (simp_all add: ds)
  have "b = b'" using snoc.prems(7) unfolding i(4) j(4) by (simp only: last_snoc)
  then have "H m = H m'" by (simp only: i(3) j(3))
  then have mm: "m = m'" by (rule inj_onD [OF snoc.prems(4)]) (simp_all only: C insertI1 Un_iff disj_ac simp_thms)
  have "length c = length d" using snoc.prems(3) [of c] snoc.prems(3) [of d] ds by auto
  from id_input_inj [OF i(2) j(2) [folded mm] this]
  have cd: "c = d" and q: "(if is' = [] then None else Some (last is')) = (if js' = [] then None else Some (last js'))"
    by auto
  have len: "length cs = length ds'" using snoc.prems(5) ds by simp
  have "cs = ds'"
  proof (cases "cs = []")
    case True
    with len show ?thesis by simp
  next
    case False
    have "is' \<noteq> []" "js' \<noteq> []" using False len chain_ids_length [OF i(1)] chain_ids_length [OF j(1)] by auto
    with q have "last is' = last js'" by simp
    moreover have "inj_on H (chain_inputs H fp None cs \<union> chain_inputs H fp None ds')"
      using snoc.prems(4) unfolding C by (rule inj_on_subset) auto
    moreover have "length x = k" if "x \<in> set cs \<union> set ds'" for x
      using snoc.prems(3) [of x] that ds by auto
    ultimately show ?thesis using snoc.IH [OF i(1) j(1) _ _ len False] by blast
  qed
  with cd ds show ?case by simp
qed simp

end
