(* ===== verification/Prefix_Index.thy ===== *)
theory Prefix_Index
  imports Block_Forest Prefix_Ids
begin

text \<open>
  \<open>RadixPrefixIndex\<close> of \<open>engine/prefix_cache.py\<close>: the live index of prefix blocks. Block
  objects are mutable and compared by identity (\<open>is not\<close>), so they live in an explicit
  store \<open>obj\<close>: a reference is an address, \<open>blocks\<close> maps a stable block id to the reference
  of the indexed object. Methods that write are effects on the index; the queries that
  may raise return a result.
\<close>

section \<open>Blocks and their residency\<close>

datatype transfer_kind = D2H | H2D

record residency =
  device_present :: bool
  host_present :: bool
  transfer :: "transfer_kind option"

definition validate :: "residency \<Rightarrow> unit res" where
  "validate rs =
     (if \<not> device_present rs \<and> \<not> host_present rs then
        Inl (RuntimeError ''Prefix cache block has no resident payload.'')
      else if transfer rs = Some D2H then
        (if \<not> device_present rs \<or> host_present rs then
           Inl (RuntimeError ''D2H prefix transfer requires a device payload and no published host payload.'')
         else Inr ())
      else if transfer rs = Some H2D then
        (if \<not> device_present rs \<or> \<not> host_present rs then
           Inl (RuntimeError ''H2D prefix transfer requires allocated device and host payloads.'')
         else Inr ())
      else Inr ())"

text \<open>
  \<open>payload\<close> and \<open>prune_record\<close> are references to objects the index never looks into.
\<close>

record block =
  stable_block_id :: bytes
  parent_block_id :: "bytes option"
  logical_tokens :: int
  logical_block_idx :: int
  payload :: nat
  token_ids :: "int list"
  ref_count :: int
  last_access :: int
  eviction_priority :: int
  residency :: residency
  prune_record :: "nat option"

section \<open>The index\<close>

record counters =
  lookup_requests :: int
  block_id_generation_requests :: int
  hit_requests :: int
  hit_tokens :: int
  hit_blocks :: int
  committed_blocks :: int
  evicted_blocks :: int
  device_demoted_blocks :: int
  host_evicted_blocks :: int
  deleted_blocks :: int
  duplicate_commits :: int
  control_inspect_requests :: int
  control_delete_requests :: int
  control_priority_updates :: int
  freeable_scans :: int
  freeable_cache_hits :: int
  evictable_scans :: int
  evictable_cache_hits :: int
  device_reclaimable_scans :: int
  device_reclaimable_cache_hits :: int

record id_cache =
  cache_epoch :: int
  cached_ids :: "bytes list"

record index =
  block_size :: int
  fingerprint :: bytes
  max_blocks :: "int option"
  backend :: "bytes radix"
  obj :: "nat \<Rightarrow> block"
  blocks :: "(bytes, nat) dict"
  clock :: int
  mutation_epoch :: int
  capacity_epoch :: int
  lookup_epoch :: int
  insert_epoch :: int
  remove_epoch :: int
  freeable_cache :: id_cache
  evictable_cache :: id_cache
  device_freeable_cache :: id_cache
  device_reclaimable_cache :: id_cache
  cnt :: counters
  snapshot_cache :: "routing_snapshot option"
  routing :: "bytes membership"

definition zero_counters :: counters where
  "zero_counters = \<lparr>lookup_requests = 0, block_id_generation_requests = 0, hit_requests = 0,
     hit_tokens = 0, hit_blocks = 0, committed_blocks = 0, evicted_blocks = 0,
     device_demoted_blocks = 0, host_evicted_blocks = 0, deleted_blocks = 0,
     duplicate_commits = 0, control_inspect_requests = 0, control_delete_requests = 0,
     control_priority_updates = 0, freeable_scans = 0, freeable_cache_hits = 0,
     evictable_scans = 0, evictable_cache_hits = 0, device_reclaimable_scans = 0,
     device_reclaimable_cache_hits = 0\<rparr>"

definition stale_cache :: id_cache where
  "stale_cache = \<lparr>cache_epoch = - 1, cached_ids = []\<rparr>"

definition make_index ::
    "int \<Rightarrow> bytes \<Rightarrow> int option \<Rightarrow> (nat \<Rightarrow> block) \<Rightarrow> index res" where
  "make_index bs fp cap heap0 =
     (if bs \<le> 0 then Inl (ValueError ''block_size must be > 0, got '')
      else if (case cap of None \<Rightarrow> False | Some m \<Rightarrow> m \<le> 0) then
        Inl (ValueError ''max_blocks must be > 0 when set, got '')
      else Inr \<lparr>block_size = bs, fingerprint = fp, max_blocks = cap, backend = empty_radix,
        obj = heap0, blocks = [], clock = 0, mutation_epoch = 0, capacity_epoch = 0,
        lookup_epoch = 0, insert_epoch = 0, remove_epoch = 0, freeable_cache = stale_cache,
        evictable_cache = stale_cache, device_freeable_cache = stale_cache,
        device_reclaimable_cache = stale_cache, cnt = zero_counters, snapshot_cache = None,
        routing = empty_membership\<rparr>)"

type_synonym 'a ix = "(index, py_error, 'a) eff"

definition upd_obj :: "nat \<Rightarrow> (block \<Rightarrow> block) \<Rightarrow> index \<Rightarrow> index" where
  "upd_obj r f s = s\<lparr>obj := (obj s)(r := f (obj s r))\<rparr>"

definition count_up :: "(counters \<Rightarrow> counters) \<Rightarrow> index \<Rightarrow> index" where
  "count_up f s = s\<lparr>cnt := f (cnt s)\<rparr>"

abbreviation get_block :: "index \<Rightarrow> bytes \<Rightarrow> nat option" where
  "get_block s b \<equiv> dict_get (blocks s) b"

definition has_block :: "index \<Rightarrow> bytes \<Rightarrow> bool" where
  "has_block s b \<longleftrightarrow> get_block s b \<noteq> None"

text \<open>The block object indexed under an id.\<close>

definition the_block :: "index \<Rightarrow> bytes \<Rightarrow> block option" where
  "the_block s b = map_option (obj s) (get_block s b)"

definition on_backend :: "(bytes radix, py_error, 'a) eff \<Rightarrow> 'a ix" where
  "on_backend m s = (case m (backend s) of (r, t) \<Rightarrow> (r, s\<lparr>backend := t\<rparr>))"

section \<open>Clock and epochs\<close>

definition tick :: "index \<Rightarrow> int \<times> index" where
  "tick s = (clock s + 1, s\<lparr>clock := clock s + 1\<rparr>)"

definition mark_mutated :: "index \<Rightarrow> index" where
  "mark_mutated s = s\<lparr>mutation_epoch := mutation_epoch s + 1\<rparr>"

definition mark_capacity_mutated :: "index \<Rightarrow> index" where
  "mark_capacity_mutated s = mark_mutated (s\<lparr>capacity_epoch := capacity_epoch s + 1\<rparr>)"

definition mark_inserted :: "bool \<Rightarrow> index \<Rightarrow> index" where
  "mark_inserted capacity_changed s =
     (let s1 = s\<lparr>insert_epoch := insert_epoch s + 1, lookup_epoch := lookup_epoch s + 1\<rparr>
      in if capacity_changed then mark_capacity_mutated s1 else mark_mutated s1)"

definition mark_removed :: "index \<Rightarrow> index" where
  "mark_removed s =
     mark_capacity_mutated
       (s\<lparr>remove_epoch := remove_epoch s + 1, lookup_epoch := lookup_epoch s + 1\<rparr>)"

section \<open>Reference counts\<close>

definition validate_indexed_block :: "index \<Rightarrow> nat \<Rightarrow> bool" where
  "validate_indexed_block s r \<longleftrightarrow> get_block s (stable_block_id (obj s r)) = Some r"

definition not_indexed :: py_error where
  "not_indexed = RuntimeError ''Cannot update a prefix block that is not indexed.''"

definition mark_payload_compacted :: "nat list \<Rightarrow> unit ix" where
  "mark_payload_compacted rs s =
     (if rs = [] then (Inr (), s)
      else if \<exists>r\<in>set rs. \<not> validate_indexed_block s r then (Inl not_indexed, s)
      else (Inr (), mark_capacity_mutated s))"

definition set_block_ref_count :: "nat \<Rightarrow> int \<Rightarrow> string \<Rightarrow> unit ix" where
  "set_block_ref_count r n negative_error s =
     (if \<not> validate_indexed_block s r then (Inl not_indexed, s)
      else if n < 0 then (Inl (RuntimeError negative_error), s)
      else let old = ref_count (obj s r) in
        if old = n then (Inr (), s)
        else let s1 = upd_obj r (\<lambda>b. b\<lparr>ref_count := n\<rparr>) s in
          (Inr (), if (old = 0) \<noteq> (n = 0) then mark_capacity_mutated s1 else mark_mutated s1))"

definition negative_ref :: string where
  "negative_ref = ''Prefix cache block ref_count became negative.''"

definition acquire_block_ref :: "nat \<Rightarrow> unit ix" where
  "acquire_block_ref r s = set_block_ref_count r (ref_count (obj s r) + 1) negative_ref s"

definition release_block_ref :: "nat \<Rightarrow> string \<Rightarrow> unit ix" where
  "release_block_ref r negative_error s =
     set_block_ref_count r (ref_count (obj s r) - 1) negative_error s"

section \<open>Routing view\<close>

definition record_routing_insert :: "bytes \<Rightarrow> unit ix" where
  "record_routing_insert b s =
     (case membership_insert (routing s) b of
        Inl e \<Rightarrow> (Inl e, s) | Inr m \<Rightarrow> (Inr (), s\<lparr>routing := m, snapshot_cache := None\<rparr>))"

definition record_routing_remove :: "bytes \<Rightarrow> unit ix" where
  "record_routing_remove b s =
     (case membership_remove (routing s) b of
        Inl e \<Rightarrow> (Inl e, s) | Inr m \<Rightarrow> (Inr (), s\<lparr>routing := m, snapshot_cache := None\<rparr>))"

definition fresh_snapshot :: "string \<Rightarrow> routing_snapshot ix" where
  "fresh_snapshot method s =
     (if live_blocks (routing s) \<noteq> length (blocks s) then
        (Inl (RuntimeError ''Prefix-cache routing membership is inconsistent with the live index: ''), s)
      else let snap = \<lparr>snap_supported = True, snap_enabled = True, snap_method = method,
             snap_block_size = Some (block_size s), snap_fingerprint = fingerprint s,
             snap_block_ids = [], snap_membership = Some (routing s), snap_reason = None\<rparr>
        in (Inr snap, s\<lparr>snapshot_cache := Some snap\<rparr>))"

definition get_routing_snapshot :: "string \<Rightarrow> routing_snapshot ix" where
  "get_routing_snapshot method s =
     (case snapshot_cache s of
        Some snap \<Rightarrow> if snap_method snap = method then (Inr snap, s) else fresh_snapshot method s
      | None \<Rightarrow> fresh_snapshot method s)"

section \<open>Block ids and lookups\<close>

definition index_block_id ::
    "(bytes \<Rightarrow> bytes) \<Rightarrow> index \<Rightarrow> int list \<Rightarrow> bytes option \<Rightarrow> bytes res" where
  "index_block_id H s tokens parent_id =
     (if int (length tokens) \<noteq> block_size s then
        Inl (ValueError ''prefix cache blocks must be full: got '')
      else stable_prefix_block_id H (fingerprint s) tokens parent_id)"

definition block_ids_for_tokens ::
    "(bytes \<Rightarrow> bytes) \<Rightarrow> int list \<Rightarrow> int option \<Rightarrow> bytes list ix" where
  "block_ids_for_tokens H tokens max_tokens s =
     (prefix_block_ids H (fingerprint s) (nat (block_size s)) tokens max_tokens,
      count_up (\<lambda>c. c\<lparr>block_id_generation_requests := block_id_generation_requests c + 1\<rparr>) s)"

text \<open>The triple (hit length, last block id, hit blocks).\<close>

type_synonym hit = "int \<times> bytes option \<times> nat"

definition match_longest_block_ids :: "index \<Rightarrow> bytes list \<Rightarrow> hit res" where
  "match_longest_block_ids s block_ids =
     (case radix_lookup (backend s) block_ids (int (length block_ids)) of
        Inl e \<Rightarrow> Inl e
      | Inr (hit_block_count, last_id) \<Rightarrow>
          if hit_block_count = 0 then Inr (0, None, 0)
          else Inr (int hit_block_count * block_size s, last_id, hit_block_count))"

definition match_longest_prefix ::
    "(bytes \<Rightarrow> bytes) \<Rightarrow> int list \<Rightarrow> int \<Rightarrow> hit ix" where
  "match_longest_prefix H tokens max_usable_tokens s =
     (case block_ids_for_tokens H tokens (Some max_usable_tokens) s of
        (Inl e, t) \<Rightarrow> (Inl e, t)
      | (Inr block_ids, t) \<Rightarrow> (match_longest_block_ids t block_ids, t))"

definition lookup_longest_block_ids :: "bytes list \<Rightarrow> hit ix" where
  "lookup_longest_block_ids block_ids s =
     (let s1 = count_up (\<lambda>c. c\<lparr>lookup_requests := lookup_requests c + 1\<rparr>) s
      in case match_longest_block_ids s1 block_ids of
        Inl e \<Rightarrow> (Inl e, s1)
      | Inr (hit_len, last_id, hits) \<Rightarrow>
          if hits = 0 then (Inr (0, None, 0), s1)
          else (Inr (hit_len, last_id, hits),
                count_up (\<lambda>c. c\<lparr>hit_requests := hit_requests c + 1,
                  hit_tokens := hit_tokens c + hit_len,
                  hit_blocks := hit_blocks c + int hits\<rparr>) s1))"

definition lookup_longest_prefix ::
    "(bytes \<Rightarrow> bytes) \<Rightarrow> int list \<Rightarrow> int \<Rightarrow> hit ix" where
  "lookup_longest_prefix H tokens max_usable_tokens s =
     (case block_ids_for_tokens H tokens (Some max_usable_tokens) s of
        (Inl e, t) \<Rightarrow> (Inl e, t)
      | (Inr block_ids, t) \<Rightarrow> lookup_longest_block_ids block_ids t)"

fun collect_blocks :: "index \<Rightarrow> bytes list \<Rightarrow> nat list res" where
  "collect_blocks s [] = Inr []"
| "collect_blocks s (b # bs) =
     (case get_block s b of
        None \<Rightarrow> Inl (RuntimeError ''Prefix cache chain is incomplete: '')
      | Some r \<Rightarrow> (case collect_blocks s bs of Inl e \<Rightarrow> Inl e | Inr rs \<Rightarrow> Inr (r # rs)))"

definition get_chain :: "index \<Rightarrow> bytes \<Rightarrow> int \<Rightarrow> nat list res" where
  "get_chain s last_id block_count =
     (if block_count \<le> 0 then Inl (ValueError ''block_count must be > 0, got '')
      else case path_to_block (backend s) last_id of
        Inl e \<Rightarrow> Inl e
      | Inr path \<Rightarrow>
          if int (length path) < block_count then
            Inl (RuntimeError ''Prefix cache chain is shorter than expected: '')
          else collect_blocks s (drop (length path - nat block_count) path))"

section \<open>Children and local conditions\<close>

definition index_child_count :: "index \<Rightarrow> bytes \<Rightarrow> nat res" where
  "index_child_count s b = child_count (backend s) b"

definition device_child_count :: "index \<Rightarrow> bytes \<Rightarrow> nat res" where
  "device_child_count s b =
     (case child_block_ids (backend s) b of
        Inl e \<Rightarrow> Inl e
      | Inr cs \<Rightarrow> Inr (length (filter (\<lambda>c. case the_block s c of None \<Rightarrow> False
                                        | Some k \<Rightarrow> device_present (residency k)) cs)))"

definition locally_blocked :: "block \<Rightarrow> bool" where
  "locally_blocked b \<longleftrightarrow>
     ref_count b \<noteq> 0 \<or> eviction_priority b < 0 \<or> transfer (residency b) \<noteq> None"

definition can_evict :: "index \<Rightarrow> nat \<Rightarrow> bool res" where
  "can_evict s r =
     (if locally_blocked (obj s r) then Inr False
      else case index_child_count s (stable_block_id (obj s r)) of
        Inl e \<Rightarrow> Inl e | Inr k \<Rightarrow> Inr (k = 0))"

definition can_demote_device :: "index \<Rightarrow> nat \<Rightarrow> bool res" where
  "can_demote_device s r =
     (let b = obj s r; rs = residency b in
      if ref_count b \<noteq> 0 \<or> eviction_priority b < 0 \<or> \<not> device_present rs
         \<or> \<not> host_present rs \<or> transfer rs \<noteq> None then Inr False
      else case device_child_count s (stable_block_id b) of
        Inl e \<Rightarrow> Inl e | Inr k \<Rightarrow> Inr (k = 0))"

definition can_evict_host :: "index \<Rightarrow> nat \<Rightarrow> bool res" where
  "can_evict_host s r =
     (let b = obj s r; rs = residency b in
      if ref_count b \<noteq> 0 \<or> eviction_priority b < 0 \<or> device_present rs
         \<or> \<not> host_present rs \<or> transfer rs \<noteq> None then Inr False
      else case index_child_count s (stable_block_id b) of
        Inl e \<Rightarrow> Inl e | Inr k \<Rightarrow> Inr (k = 0))"

definition evictable_block_ids :: "index \<Rightarrow> bytes list \<times> index" where
  "evictable_block_ids s =
     (if cache_epoch (evictable_cache s) = capacity_epoch s then
        (cached_ids (evictable_cache s),
         count_up (\<lambda>c. c\<lparr>evictable_cache_hits := evictable_cache_hits c + 1\<rparr>) s)
      else
        let ids = filter (\<lambda>b. case the_block s b of None \<Rightarrow> False | Some k \<Rightarrow> \<not> locally_blocked k)
                    (leaf_block_ids (backend s))
        in (ids, count_up (\<lambda>c. c\<lparr>evictable_scans := evictable_scans c + 1\<rparr>) s
                   \<lparr>evictable_cache := \<lparr>cache_epoch = capacity_epoch s, cached_ids = ids\<rparr>\<rparr>))"

section \<open>Insertion\<close>

text \<open>The capacity error counts the evictable blocks in its message, which fills the cache.\<close>

definition parent_of :: "index \<Rightarrow> block \<Rightarrow> block option" where
  "parent_of s b = (case parent_block_id b of None \<Rightarrow> None | Some p \<Rightarrow> the_block s p)"

definition insert_admissible :: "index \<Rightarrow> block \<Rightarrow> unit res" where
  "insert_admissible s b =
     (case parent_block_id b of
        None \<Rightarrow> Inr ()
      | Some p \<Rightarrow>
          (case the_block s p of
             None \<Rightarrow> Inl (KeyError ''Cannot insert prefix cache block because parent is missing.'')
           | Some p' \<Rightarrow>
               if device_present (residency b) \<and> \<not> device_present (residency p') then
                 Inl (RuntimeError ''Cannot insert a device-resident prefix block below a host-only parent.'')
               else if host_present (residency b) \<and> \<not> host_present (residency p') then
                 Inl (RuntimeError ''Cannot insert a host-resident prefix block below a device-only parent.'')
               else Inr ()))"

definition insert_block :: "nat \<Rightarrow> nat ix" where
  "insert_block r s =
     (let b = obj s r; key = stable_block_id b in
      case validate (residency b) of Inl e \<Rightarrow> (Inl e, s) | Inr _ \<Rightarrow>
      (case get_block s key of
         Some existing \<Rightarrow>
           (let s1 = count_up (\<lambda>c. c\<lparr>duplicate_commits := duplicate_commits c + 1\<rparr>) s;
                (access, s2) = tick s1
            in (Inr existing, upd_obj existing (\<lambda>k. k\<lparr>last_access := access\<rparr>) s2))
       | None \<Rightarrow>
           if (case max_blocks s of None \<Rightarrow> False | Some m \<Rightarrow> int (length (blocks s)) \<ge> m) then
             (Inl (RuntimeError ''Prefix cache capacity exceeded before insert: ''),
              snd (evictable_block_ids s))
           else case insert_admissible s b of Inl e \<Rightarrow> (Inl e, s) | Inr _ \<Rightarrow>
             (let (access, s1) = tick s;
                  s2 = upd_obj r (\<lambda>k. k\<lparr>last_access := access\<rparr>) s1;
                  s3 = s2\<lparr>blocks := dict_set key r (blocks s2)\<rparr>
              in bindE (on_backend (insert_child (parent_block_id b) key)) (\<lambda>_.
                 bindE (modifyE (count_up (\<lambda>c. c\<lparr>committed_blocks := committed_blocks c + 1\<rparr>))) (\<lambda>_.
                 bindE (record_routing_insert key) (\<lambda>_ t.
                   let p_block = parent_of t (obj t r);
                       capacity_changed =
                         \<not> (locally_blocked (obj t r)
                            \<and> (case p_block of None \<Rightarrow> True | Some p \<Rightarrow> locally_blocked p))
                   in (Inr r, mark_inserted capacity_changed t)))) s3)))"

definition touch_chain :: "nat list \<Rightarrow> index \<Rightarrow> index" where
  "touch_chain rs s =
     (let (access, s1) = tick s
      in fold (\<lambda>r. upd_obj r (\<lambda>b. b\<lparr>last_access := access\<rparr>)) rs s1)"

section \<open>Transfers between device and host\<close>

definition set_residency :: "nat \<Rightarrow> residency \<Rightarrow> unit ix" where
  "set_residency r rs s =
     (let s1 = upd_obj r (\<lambda>b. b\<lparr>residency := rs\<rparr>) s
      in case validate rs of Inl e \<Rightarrow> (Inl e, s1) | Inr _ \<Rightarrow> (Inr (), mark_capacity_mutated s1))"

definition begin_d2h :: "nat \<Rightarrow> unit ix" where
  "begin_d2h r s =
     (let b = obj s r; rs = residency b in
      if \<not> validate_indexed_block s r then
        (Inl (RuntimeError ''Cannot back up a prefix block that is not indexed.''), s)
      else case validate rs of Inl e \<Rightarrow> (Inl e, s) | Inr _ \<Rightarrow>
        if ref_count b \<noteq> 0 then
          (Inl (RuntimeError ''Cannot back up a referenced prefix cache block.''), s)
        else if host_present rs then
          (Inl (RuntimeError ''Cannot back up a prefix cache block that already has a host payload.''), s)
        else if transfer rs \<noteq> None then
          (Inl (RuntimeError ''Cannot start D2H while another prefix transfer is active.''), s)
        else if parent_block_id b \<noteq> None \<and>
            (case parent_of s b of None \<Rightarrow> True
             | Some p \<Rightarrow> \<not> (host_present (residency p) \<or> transfer (residency p) = Some D2H)) then
          (Inl (RuntimeError ''Prefix D2H backup must preserve a host-resident path from the radix root.''), s)
        else set_residency r (rs\<lparr>transfer := Some D2H\<rparr>) s)"

definition finish_d2h :: "nat \<Rightarrow> unit ix" where
  "finish_d2h r s =
     (let b = obj s r; rs = residency b in
      if transfer rs \<noteq> Some D2H then
        (Inl (RuntimeError ''Cannot finish D2H without an active D2H prefix transfer.''), s)
      else if parent_block_id b \<noteq> None \<and>
          (case parent_of s b of None \<Rightarrow> True | Some p \<Rightarrow> \<not> host_present (residency p)) then
        (Inl (RuntimeError ''Cannot publish a host prefix payload before its parent is host-resident.''), s)
      else set_residency r (rs\<lparr>host_present := True, transfer := None\<rparr>) s)"

definition abort_d2h :: "nat \<Rightarrow> unit ix" where
  "abort_d2h r s =
     (let rs = residency (obj s r) in
      if transfer rs \<noteq> Some D2H then
        (Inl (RuntimeError ''Cannot abort D2H without an active D2H prefix transfer.''), s)
      else set_residency r (rs\<lparr>transfer := None\<rparr>) s)"

definition begin_h2d :: "nat \<Rightarrow> unit ix" where
  "begin_h2d r s =
     (let b = obj s r; rs = residency b in
      if \<not> validate_indexed_block s r then
        (Inl (RuntimeError ''Cannot promote a prefix block that is not indexed.''), s)
      else case validate rs of Inl e \<Rightarrow> (Inl e, s) | Inr _ \<Rightarrow>
        if device_present rs then
          (Inl (RuntimeError ''Cannot promote a prefix cache block that already has a device payload.''), s)
        else if \<not> host_present rs then
          (Inl (RuntimeError ''Cannot promote a prefix cache block without a host payload.''), s)
        else if transfer rs \<noteq> None then
          (Inl (RuntimeError ''Cannot start H2D while another prefix transfer is active.''), s)
        else if parent_block_id b \<noteq> None \<and>
            (case parent_of s b of None \<Rightarrow> True | Some p \<Rightarrow> \<not> device_present (residency p)) then
          (Inl (RuntimeError ''Prefix H2D promotion must preserve a device-resident path from the radix root.''), s)
        else set_residency r (rs\<lparr>device_present := True, transfer := Some H2D\<rparr>) s)"

definition finish_h2d :: "nat \<Rightarrow> unit ix" where
  "finish_h2d r s =
     (let rs = residency (obj s r) in
      if transfer rs \<noteq> Some H2D then
        (Inl (RuntimeError ''Cannot finish H2D without an active H2D prefix transfer.''), s)
      else set_residency r (rs\<lparr>transfer := None\<rparr>) s)"

definition abort_h2d :: "nat \<Rightarrow> unit ix" where
  "abort_h2d r s =
     (let rs = residency (obj s r) in
      if transfer rs \<noteq> Some H2D then
        (Inl (RuntimeError ''Cannot abort H2D without an active H2D prefix transfer.''), s)
      else case device_child_count s (stable_block_id (obj s r)) of
        Inl e \<Rightarrow> (Inl e, s)
      | Inr k \<Rightarrow>
          if k \<noteq> 0 then
            (Inl (RuntimeError ''Cannot abort H2D while a device-resident child depends on the block.''), s)
          else set_residency r (rs\<lparr>device_present := False, transfer := None\<rparr>) s)"

end
