(* ===== verification/Prefix_Eviction.thy ===== *)
theory Prefix_Eviction
  imports Prefix_Index
begin

text \<open>
  The second half of \<open>RadixPrefixIndex\<close>: removal from the index, the priority-ordered
  eviction and demotion loops, the scans that count reclaimable blocks, and the control
  operations on a subtree.
\<close>

section \<open>Removal\<close>

definition remove_block_from_index :: "bytes \<Rightarrow> nat ix" where
  "remove_block_from_index b s =
     (case get_block s b of
        None \<Rightarrow> (Inl (KeyError ''Prefix cache block is not present.''), s)
      | Some r \<Rightarrow>
          if ref_count (obj s r) \<noteq> 0 then
            (Inl (RuntimeError ''Cannot remove a referenced prefix cache block.''), s)
          else if eviction_priority (obj s r) < 0 then
            (Inl (RuntimeError ''Cannot remove a negative-priority prefix cache block.''), s)
          else if transfer (residency (obj s r)) \<noteq> None then
            (Inl (RuntimeError ''Cannot remove a prefix cache block with an in-flight transfer.''), s)
          else case index_child_count s b of
            Inl e \<Rightarrow> (Inl e, s)
          | Inr k \<Rightarrow>
              if k \<noteq> 0 then
                (Inl (RuntimeError ''Cannot remove a prefix cache block with live children.''), s)
              else bindE (on_backend (remove_block b)) (\<lambda>_.
                   bindE (modifyE (\<lambda>t. t\<lparr>blocks := dict_del b (blocks t)\<rparr>)) (\<lambda>_.
                   bindE (record_routing_remove b) (\<lambda>_ t. (Inr r, mark_removed t)))) s)"

definition rollback_inserted_leaf :: "nat \<Rightarrow> unit ix" where
  "rollback_inserted_leaf r s =
     (let key = stable_block_id (obj s r) in
      if get_block s key \<noteq> Some r then
        (Inl (RuntimeError ''Cannot roll back a prefix block that is not the current indexed block.''), s)
      else if ref_count (obj s r) \<noteq> 0 then
        (Inl (RuntimeError ''Cannot roll back a referenced prefix block.''), s)
      else case index_child_count s key of
        Inl e \<Rightarrow> (Inl e, s)
      | Inr k \<Rightarrow>
          if k \<noteq> 0 then
            (Inl (RuntimeError ''Cannot roll back a prefix block with live children.''), s)
          else if committed_blocks (cnt s) \<le> 0 then
            (Inl (RuntimeError ''Cannot roll back prefix commit statistics below zero.''), s)
          else bindE (remove_block_from_index key) (\<lambda>_.
               modifyE (count_up (\<lambda>c. c\<lparr>committed_blocks := committed_blocks c - 1\<rparr>))) s)"

section \<open>The candidate heap\<close>

text \<open>
  \<open>heapq\<close> pops the least tuple (minus the priority, last access, id); the heap is the list
  of the tuples it holds, \<open>queued\<close> the set of ids in it.
\<close>

type_synonym candidate = "int \<times> int \<times> bytes"

fun heap_min :: "candidate list \<Rightarrow> candidate" where
  "heap_min [] = (0, 0, [])"
| "heap_min (x # xs) = fold min xs x"

definition candidate_of :: "block \<Rightarrow> bytes \<Rightarrow> candidate" where
  "candidate_of b key = (- eviction_priority b, last_access b, key)"

definition queue_if ::
    "(index \<Rightarrow> nat \<Rightarrow> bool res) \<Rightarrow> index \<Rightarrow> bytes option \<Rightarrow> candidate list \<times> bytes list
       \<Rightarrow> (candidate list \<times> bytes list) res" where
  "queue_if test s key_opt hq =
     (case key_opt of
        None \<Rightarrow> Inr hq
      | Some key \<Rightarrow>
          if key \<in> set (snd hq) then Inr hq
          else case get_block s key of
            None \<Rightarrow> Inr hq
          | Some r \<Rightarrow>
              (case test s r of
                 Inl e \<Rightarrow> Inl e
               | Inr ready \<Rightarrow>
                   if ready then Inr (candidate_of (obj s r) key # fst hq, key # snd hq)
                   else Inr hq))"

fun queue_all ::
    "(index \<Rightarrow> nat \<Rightarrow> bool res) \<Rightarrow> index \<Rightarrow> bytes list \<Rightarrow> candidate list \<times> bytes list
       \<Rightarrow> (candidate list \<times> bytes list) res" where
  "queue_all test s [] hq = Inr hq"
| "queue_all test s (b # bs) hq =
     (case queue_if test s (Some b) hq of Inl e \<Rightarrow> Inl e | Inr hq' \<Rightarrow> queue_all test s bs hq')"

lemma remove_from_index_Inr:
  assumes "remove_block_from_index b s = (Inr r, t)"
  obtains u m where "get_block s b = Some r" "\<not> locally_blocked (obj s r)"
    "index_child_count s b = Inr 0" "remove_block b (backend s) = (Inr (), u)"
    "membership_remove (routing s) b = Inr m"
    "t = mark_removed (s\<lparr>backend := u, blocks := dict_del b (blocks s), routing := m,
                        snapshot_cache := None\<rparr>)"
proof -
  obtain q u where "remove_block b (backend s) = (q, u)" by fastforce
  with assms that show ?thesis
    by (auto simp: remove_block_from_index_def bindE_eq_Inr on_backend_def record_routing_remove_def
        locally_blocked_def split: option.split_asm if_split_asm sum.split_asm)
qed

lemma mark_simps [simp]:
  "blocks (mark_removed s) = blocks s" "obj (mark_removed s) = obj s"
  "backend (mark_removed s) = backend s" "routing (mark_removed s) = routing s"
  "blocks (mark_inserted c s) = blocks s" "obj (mark_inserted c s) = obj s"
  "backend (mark_inserted c s) = backend s" "routing (mark_inserted c s) = routing s"
  "blocks (mark_mutated s) = blocks s" "obj (mark_mutated s) = obj s"
  "backend (mark_mutated s) = backend s" "routing (mark_mutated s) = routing s"
  "blocks (mark_capacity_mutated s) = blocks s" "obj (mark_capacity_mutated s) = obj s"
  "backend (mark_capacity_mutated s) = backend s" "routing (mark_capacity_mutated s) = routing s"
  by (simp_all add: mark_removed_def mark_inserted_def mark_capacity_mutated_def mark_mutated_def Let_def)

lemma dict_del_shorter: "dict_get d b \<noteq> None \<Longrightarrow> length (AList.delete b d) < length d"
  by (induction d) (auto simp: AList.delete_eq less_Suc_eq_le length_filter_le split: if_splits)

lemma remove_length:
  "remove_block_from_index b s = (Inr r, t) \<Longrightarrow> length (blocks t) < length (blocks s)"
  by (erule remove_from_index_Inr) (simp add: dict_del_shorter)

section \<open>Eviction loops\<close>

text \<open>
  One round of the two nested loops: pop a candidate, skip it if it is stale, otherwise
  evict it and queue its parent. \<open>test\<close> is \<open>can_evict\<close> or \<open>can_evict_host\<close>, \<open>bump\<close> the counter.
\<close>

function evict_loop ::
    "(index \<Rightarrow> nat \<Rightarrow> bool res) \<Rightarrow> (counters \<Rightarrow> counters) \<Rightarrow> (block \<Rightarrow> int) \<Rightarrow> int
       \<Rightarrow> candidate list \<times> bytes list \<Rightarrow> nat list \<Rightarrow> int \<Rightarrow> nat list ix" where
  "evict_loop test bump weight_of needed hq evicted evicted_weight s =
     (if needed \<le> evicted_weight \<or> fst hq = [] then (Inr evicted, s)
      else
        (let top = heap_min (fst hq); key = snd (snd top);
             hq1 = (remove1 top (fst hq), set_discard key (snd hq))
         in case get_block s key of
              None \<Rightarrow> evict_loop test bump weight_of needed hq1 evicted evicted_weight s
            | Some r \<Rightarrow>
                (case test s r of
                   Inl e \<Rightarrow> (Inl e, s)
                 | Inr ready \<Rightarrow>
                     if \<not> ready then
                       evict_loop test bump weight_of needed hq1 evicted evicted_weight s
                     else if weight_of (obj s r) < 0 then
                       (Inl (ValueError ''Prefix cache eviction weight must be non-negative: ''), s)
                     else
                       (case remove_block_from_index (stable_block_id (obj s r)) s of
                          (Inl e, t) \<Rightarrow> (Inl e, t)
                        | (Inr gone, t) \<Rightarrow>
                            (case queue_if test (count_up bump t) (parent_block_id (obj s r)) hq1 of
                               Inl e \<Rightarrow> (Inl e, count_up bump t)
                             | Inr hq2 \<Rightarrow>
                                 evict_loop test bump weight_of needed hq2 (evicted @ [gone])
                                   (evicted_weight + weight_of (obj s r)) (count_up bump t))))))"
  by pat_completeness auto

lemma heap_min_in: "h \<noteq> [] \<Longrightarrow> heap_min h \<in> set h"
proof -
  have "fold min xs x \<in> insert x (set xs)" for xs and x :: candidate
  proof (induction xs arbitrary: x)
    case (Cons a xs)
    have "min a x = a \<or> min a x = x" by (simp add: min_def)
    with Cons.IH [of "min a x"] show ?case by auto
  qed simp
  then show "h \<noteq> [] \<Longrightarrow> heap_min h \<in> set h" by (cases h) auto
qed

lemma count_up_simps [simp]:
  "blocks (count_up f s) = blocks s" "obj (count_up f s) = obj s" "backend (count_up f s) = backend s"
  "routing (count_up f s) = routing s" "capacity_epoch (count_up f s) = capacity_epoch s"
  "max_blocks (count_up f s) = max_blocks s" "block_size (count_up f s) = block_size s"
  "fingerprint (count_up f s) = fingerprint s" "snapshot_cache (count_up f s) = snapshot_cache s"
  "clock (count_up f s) = clock s"
  by (simp_all add: count_up_def)

termination evict_loop
  by (relation "measures [\<lambda>(test, bump, w, needed, hq, evicted, weight, s). length (blocks s),
      \<lambda>(test, bump, w, needed, hq, evicted, weight, s). length (fst hq)]")
    (auto simp: length_remove1 heap_min_in dest: remove_length remove_length [OF sym])

declare evict_loop.simps [simp del]

definition evict_until_weight :: "int \<Rightarrow> (block \<Rightarrow> int) \<Rightarrow> nat list ix" where
  "evict_until_weight needed weight_of s =
     (if needed \<le> 0 then (Inr [], s)
      else case queue_all can_evict s (leaf_block_ids (backend s)) ([], []) of
        Inl e \<Rightarrow> (Inl e, s)
      | Inr hq \<Rightarrow> evict_loop can_evict (\<lambda>c. c\<lparr>evicted_blocks := evicted_blocks c + 1\<rparr>)
                    weight_of needed hq [] 0 s)"

definition evict_until_freeable :: "int \<Rightarrow> nat list ix" where
  "evict_until_freeable needed = evict_until_weight needed (\<lambda>_. 1)"

definition evict_host_until_freeable :: "int \<Rightarrow> nat list ix" where
  "evict_host_until_freeable needed s =
     (case queue_all can_evict_host s (leaf_block_ids (backend s)) ([], []) of
        Inl e \<Rightarrow> (Inl e, s)
      | Inr hq \<Rightarrow> evict_loop can_evict_host
                    (\<lambda>c. c\<lparr>host_evicted_blocks := host_evicted_blocks c + 1\<rparr>)
                    (\<lambda>_. 1) needed hq [] 0 s)"

definition ensure_insert_capacity :: "int \<Rightarrow> nat list ix" where
  "ensure_insert_capacity needed s =
     (case max_blocks s of
        None \<Rightarrow> (Inr [], s)
      | Some m \<Rightarrow>
          if needed \<le> 0 then (Inl (ValueError ''needed_blocks must be > 0, got ''), s)
          else
            (let over_capacity = int (length (blocks s)) + needed - m
             in if over_capacity \<le> 0 then (Inr [], s)
                else case evict_until_freeable over_capacity s of
                  (Inl e, t) \<Rightarrow> (Inl e, t)
                | (Inr evicted, t) \<Rightarrow>
                    if int (length evicted) \<noteq> over_capacity then
                      (Inl (RuntimeError ''Prefix cache capacity exceeded and not enough blocks are evictable: ''),
                       snd (evictable_block_ids t))
                    else (Inr evicted, t)))"

section \<open>Demotion of device payloads\<close>

definition device_blocks :: "index \<Rightarrow> nat" where
  "device_blocks s = length (filter (\<lambda>(b, r). device_present (residency (obj s r))) (blocks s))"

definition demote_block :: "nat \<Rightarrow> index \<Rightarrow> index" where
  "demote_block r s = upd_obj r (\<lambda>b. b\<lparr>residency := (residency b)\<lparr>device_present := False\<rparr>\<rparr>) s"

lemma can_demote_device_present: "can_demote_device s r = Inr True \<Longrightarrow> device_present (residency (obj s r))"
  by (auto simp: can_demote_device_def Let_def split: if_splits)

lemma demote_fewer:
  assumes "get_block s b = Some r" "device_present (residency (obj s r))"
  shows "device_blocks (demote_block r s) < device_blocks s"
proof -
  let ?P = "\<lambda>(b, r'). device_present (residency (obj s r'))"
  let ?Q = "\<lambda>(b, r'). device_present (residency (obj (demote_block r s) r'))"
  have sub: "filter ?Q (blocks s) = filter ?Q (filter ?P (blocks s))"
    by (auto simp: demote_block_def upd_obj_def intro!: filter_cong)
  have "(b, r) \<in> set (filter ?P (blocks s))" using assms by (auto dest: map_of_SomeD)
  moreover have "\<not> ?Q (b, r)" by (simp add: demote_block_def upd_obj_def)
  ultimately have "length (filter ?Q (filter ?P (blocks s))) < length (filter ?P (blocks s))"
    by (rule length_filter_less)
  then show ?thesis using sub by (simp add: device_blocks_def) (simp add: demote_block_def upd_obj_def)
qed

function demote_loop ::
    "(block \<Rightarrow> int) \<Rightarrow> int \<Rightarrow> candidate list \<times> bytes list \<Rightarrow> nat list \<Rightarrow> int \<Rightarrow> nat list ix" where
  "demote_loop weight_of needed hq demoted demoted_weight s =
     (if needed \<le> demoted_weight \<or> fst hq = [] then (Inr demoted, s)
      else
        (let top = heap_min (fst hq); key = snd (snd top);
             hq1 = (remove1 top (fst hq), set_discard key (snd hq))
         in case get_block s key of
              None \<Rightarrow> demote_loop weight_of needed hq1 demoted demoted_weight s
            | Some r \<Rightarrow>
                (case can_demote_device s r of
                   Inl e \<Rightarrow> (Inl e, s)
                 | Inr ready \<Rightarrow>
                     if \<not> ready then demote_loop weight_of needed hq1 demoted demoted_weight s
                     else if weight_of (obj s r) < 0 then
                       (Inl (ValueError ''Prefix cache demotion weight must be non-negative: ''), s)
                     else
                       (let s1 = demote_block r s in
                        case validate (residency (obj s1 r)) of
                          Inl e \<Rightarrow> (Inl e, s1)
                        | Inr _ \<Rightarrow>
                            (let t = mark_capacity_mutated (count_up
                                   (\<lambda>c. c\<lparr>device_demoted_blocks := device_demoted_blocks c + 1\<rparr>) s1)
                             in case queue_if can_demote_device t (parent_block_id (obj s r)) hq1 of
                                  Inl e \<Rightarrow> (Inl e, t)
                                | Inr hq2 \<Rightarrow>
                                    demote_loop weight_of needed hq2 (demoted @ [r])
                                      (demoted_weight + weight_of (obj s r)) t)))))"
  by pat_completeness auto

lemma device_blocks_marks [simp]:
  "device_blocks (mark_capacity_mutated s) = device_blocks s"
  "device_blocks (count_up f s) = device_blocks s"
  by (simp_all add: device_blocks_def)

termination demote_loop
  by (relation "measures [\<lambda>(w, needed, hq, demoted, weight, s). device_blocks s,
      \<lambda>(w, needed, hq, demoted, weight, s). length (fst hq)]")
    (auto simp: length_remove1 heap_min_in dest!: can_demote_device_present intro!: demote_fewer)

declare demote_loop.simps [simp del]

text \<open>The first scan queues the device blocks without device children, in index order.\<close>

fun device_leaves :: "index \<Rightarrow> (bytes \<times> nat) list \<Rightarrow> bytes list res" where
  "device_leaves s [] = Inr []"
| "device_leaves s ((b, r) # rest) =
     (if device_present (residency (obj s r)) then
        (case device_child_count s b of
           Inl e \<Rightarrow> Inl e
         | Inr k \<Rightarrow> (case device_leaves s rest of
             Inl e \<Rightarrow> Inl e | Inr bs \<Rightarrow> Inr (if k = 0 then b # bs else bs)))
      else device_leaves s rest)"

definition demote_device_until_weight :: "int \<Rightarrow> (block \<Rightarrow> int) \<Rightarrow> nat list ix" where
  "demote_device_until_weight needed weight_of s =
     (if needed \<le> 0 then (Inr [], s)
      else case device_leaves s (blocks s) of
        Inl e \<Rightarrow> (Inl e, s)
      | Inr bs \<Rightarrow>
          (case queue_all can_demote_device s bs ([], []) of
             Inl e \<Rightarrow> (Inl e, s)
           | Inr hq \<Rightarrow> demote_loop weight_of needed hq [] 0 s))"

section \<open>Scans of reclaimable capacity\<close>

definition device_reclaimable_local :: "bool \<Rightarrow> block \<Rightarrow> bool" where
  "device_reclaimable_local include_inflight_d2h b \<longleftrightarrow>
     ref_count b = 0 \<and> 0 \<le> eviction_priority b \<and> device_present (residency b)
     \<and> (host_present (residency b) \<and> transfer (residency b) = None
        \<or> include_inflight_d2h \<and> transfer (residency b) = Some D2H)"

text \<open>The worklist: \<open>kids\<close> counts the device children not yet found reclaimable.\<close>

partial_function (option) reclaim_loop ::
    "bool \<Rightarrow> index \<Rightarrow> (bytes, int) dict \<Rightarrow> bytes list \<Rightarrow> bytes list \<Rightarrow> bytes list option" where
  "reclaim_loop inflight s counts stack freeable =
     (if stack = [] then Some freeable
      else
        (let b = last stack; rest = butlast stack
         in case the_block s b of
              None \<Rightarrow> reclaim_loop inflight s counts rest freeable
            | Some k \<Rightarrow>
                if b \<in> set freeable \<or> \<not> device_reclaimable_local inflight k then
                  reclaim_loop inflight s counts rest freeable
                else
                  (case parent_block_id k of
                     None \<Rightarrow> reclaim_loop inflight s counts rest (set_add b freeable)
                   | Some p \<Rightarrow>
                       (case dict_get counts p of
                          None \<Rightarrow> reclaim_loop inflight s counts rest (set_add b freeable)
                        | Some c \<Rightarrow>
                            reclaim_loop inflight s (dict_set p (c - 1) counts)
                              (if c - 1 = 0 then rest @ [p] else rest) (set_add b freeable)))))"

definition device_counts :: "index \<Rightarrow> (bytes, int) dict res" where
  "device_counts s =
     mapE (\<lambda>(b, r). case device_child_count s b of Inl e \<Rightarrow> Inl e | Inr k \<Rightarrow> Inr (b, int k))
       (filter (\<lambda>(b, r). device_present (residency (obj s r))) (blocks s))"

definition scan_reclaimable :: "bool \<Rightarrow> index \<Rightarrow> bytes list res" where
  "scan_reclaimable inflight s =
     (case device_counts s of
        Inl e \<Rightarrow> Inl e
      | Inr counts \<Rightarrow>
          returns (reclaim_loop inflight s counts (map fst (filter (\<lambda>(b, k). k = 0) counts)) []))"

definition device_reclaimable_block_ids :: "bool \<Rightarrow> bytes list ix" where
  "device_reclaimable_block_ids inflight s =
     (let cache = (if inflight then device_reclaimable_cache s else device_freeable_cache s)
      in if cache_epoch cache = capacity_epoch s then
           (Inr (cached_ids cache),
            count_up (\<lambda>c. c\<lparr>device_reclaimable_cache_hits := device_reclaimable_cache_hits c + 1\<rparr>) s)
         else
           let s1 = count_up (\<lambda>c. c\<lparr>device_reclaimable_scans := device_reclaimable_scans c + 1\<rparr>) s
           in case scan_reclaimable inflight s of
             Inl e \<Rightarrow> (Inl e, s1)
           | Inr ids \<Rightarrow>
               (let fresh = \<lparr>cache_epoch = capacity_epoch s, cached_ids = ids\<rparr>
                in (Inr ids, if inflight then s1\<lparr>device_reclaimable_cache := fresh\<rparr>
                             else s1\<lparr>device_freeable_cache := fresh\<rparr>)))"

text \<open>
  The post-order walk of \<open>freeable_block_ids\<close>: a node is pushed again as visited below its
  children, whose flags are popped when it is visited the second time.
\<close>

definition segment_freeable ::
    "index \<Rightarrow> bytes list \<Rightarrow> bool \<Rightarrow> bytes list \<Rightarrow> bool \<times> bytes list" where
  "segment_freeable s bs children_freeable freeable =
     fold (\<lambda>b (suffix, acc).
         let local = (case the_block s b of None \<Rightarrow> False | Some k \<Rightarrow> \<not> locally_blocked k)
         in if local \<and> suffix then (True, set_add b acc) else (False, acc))
       (rev bs) (children_freeable, freeable)"

partial_function (option) freeable_loop ::
    "index \<Rightarrow> (nat \<times> bool) list \<Rightarrow> bytes list \<Rightarrow> (nat, bool) dict \<Rightarrow> bytes list option" where
  "freeable_loop s stack freeable flags =
     (if stack = [] then Some freeable
      else
        (let (n, visited) = last stack; rest = butlast stack;
             cs = map snd (kids (backend s) n)
         in if \<not> visited then
              freeable_loop s (rest @ (n, True) # map (\<lambda>c. (c, False)) cs) freeable flags
            else
              (let (suffix, freeable') =
                     segment_freeable s (seg (backend s) n)
                       (\<forall>c\<in>set cs. dict_get flags c = Some True) freeable
               in freeable_loop s rest freeable' (dict_set n suffix (fold dict_del cs flags)))))"

definition freeable_block_ids :: "bytes list ix" where
  "freeable_block_ids s =
     (if cache_epoch (freeable_cache s) = capacity_epoch s then
        (Inr (cached_ids (freeable_cache s)),
         count_up (\<lambda>c. c\<lparr>freeable_cache_hits := freeable_cache_hits c + 1\<rparr>) s)
      else
        let s1 = count_up (\<lambda>c. c\<lparr>freeable_scans := freeable_scans c + 1\<rparr>) s
        in case freeable_loop s [(root_node, False)] [] [] of
          None \<Rightarrow> (Inl Diverges, s1)
        | Some ids \<Rightarrow>
            (Inr ids, s1\<lparr>freeable_cache := \<lparr>cache_epoch = capacity_epoch s, cached_ids = ids\<rparr>\<rparr>))"

section \<open>Control operations on a subtree\<close>

definition exact_subtree_ids ::
    "(bytes \<Rightarrow> bytes) \<Rightarrow> int list \<Rightarrow> bytes list option ix" where
  "exact_subtree_ids H tokens s =
     (case block_ids_for_tokens H tokens None s of
        (Inl e, t) \<Rightarrow> (Inl e, t)
      | (Inr ids, t) \<Rightarrow>
          if ids = [] then (Inr None, t)
          else case radix_lookup (backend t) ids (int (length ids)) of
            Inl e \<Rightarrow> (Inl e, t)
          | Inr (hits, last_id) \<Rightarrow>
              (case last_id of
                 None \<Rightarrow> (Inr None, t)
               | Some b \<Rightarrow>
                   if hits \<noteq> length ids then (Inr None, t)
                   else case subtree_block_ids (backend t) b of
                     Inl e \<Rightarrow> (Inl e, t) | Inr bs \<Rightarrow> (Inr (Some bs), t)))"

text \<open>A blocked block and the reason; the id \<open>None\<close> stands for a prefix that is not cached.\<close>

record delete_result =
  planned :: "nat list"
  refused :: "(bytes option \<times> string) list"

definition refusal :: "index \<Rightarrow> bytes list \<Rightarrow> block \<Rightarrow> bytes \<Rightarrow> string option res" where
  "refusal s planned_ids k b =
     (if 0 < ref_count k then Inr (Some ''referenced'')
      else if eviction_priority k < 0 then Inr (Some ''negative_priority'')
      else if transfer (residency k) \<noteq> None then Inr (Some ''transfer_inflight'')
      else case child_block_ids (backend s) b of
        Inl e \<Rightarrow> Inl e
      | Inr cs \<Rightarrow> Inr (if \<exists>c\<in>set cs. c \<notin> set planned_ids then Some ''has_children'' else None))"

fun plan_delete ::
    "index \<Rightarrow> bytes list \<Rightarrow> bytes list \<Rightarrow> delete_result \<Rightarrow> delete_result res" where
  "plan_delete s [] planned_ids d = Inr d"
| "plan_delete s (b # bs) planned_ids d =
     (case get_block s b of
        None \<Rightarrow> plan_delete s bs planned_ids d
      | Some r \<Rightarrow>
          (case refusal s planned_ids (obj s r) b of
             Inl e \<Rightarrow> Inl e
           | Inr (Some reason) \<Rightarrow>
               plan_delete s bs planned_ids (d\<lparr>refused := refused d @ [(Some b, reason)]\<rparr>)
           | Inr None \<Rightarrow>
               plan_delete s bs (set_add b planned_ids) (d\<lparr>planned := planned d @ [r]\<rparr>)))"

definition preview_delete_subtree :: "(bytes \<Rightarrow> bytes) \<Rightarrow> int list \<Rightarrow> delete_result ix" where
  "preview_delete_subtree H tokens s =
     (case exact_subtree_ids H tokens s of
        (Inl e, t) \<Rightarrow> (Inl e, t)
      | (Inr None, t) \<Rightarrow> (Inr \<lparr>planned = [], refused = [(None, ''not_found'')]\<rparr>, t)
      | (Inr (Some ids), t) \<Rightarrow>
          (case mapE (\<lambda>b. case path_to_block (backend t) b of
                 Inl e \<Rightarrow> Inl e | Inr path \<Rightarrow> Inr (b, length path)) ids of
             Inl e \<Rightarrow> (Inl e, t)
           | Inr depths \<Rightarrow>
               (plan_delete t (map fst (sort_key (\<lambda>(b, d). - int d) depths)) []
                  \<lparr>planned = [], refused = []\<rparr>, t)))"

fun apply_delete :: "(nat \<times> bytes) list \<Rightarrow> nat list \<Rightarrow> nat list ix" where
  "apply_delete [] acc s = (Inr acc, s)"
| "apply_delete ((r, key) # rest) acc s =
     (if get_block s key \<noteq> Some r then
        (Inl (RuntimeError ''Prefix subtree deletion plan became stale before it was applied.''), s)
      else case remove_block_from_index key s of
        (Inl e, t) \<Rightarrow> (Inl e, t)
      | (Inr gone, t) \<Rightarrow>
          apply_delete rest (acc @ [gone])
            (count_up (\<lambda>c. c\<lparr>deleted_blocks := deleted_blocks c + 1\<rparr>) t))"

definition safe_delete_subtree :: "(bytes \<Rightarrow> bytes) \<Rightarrow> int list \<Rightarrow> delete_result ix" where
  "safe_delete_subtree H tokens s =
     (let s1 = count_up (\<lambda>c. c\<lparr>control_delete_requests := control_delete_requests c + 1\<rparr>) s
      in case preview_delete_subtree H tokens s1 of
        (Inl e, t) \<Rightarrow> (Inl e, t)
      | (Inr d, t) \<Rightarrow>
          (case apply_delete (map (\<lambda>r. (r, stable_block_id (obj t r))) (planned d)) [] t of
             (Inl e, u) \<Rightarrow> (Inl e, u)
           | (Inr gone, u) \<Rightarrow> (Inr \<lparr>planned = gone, refused = refused d\<rparr>, u)))"

record priority_result =
  pr_matched :: bool
  pr_reason :: "string option"
  pr_root :: "bytes option"
  pr_updated :: nat
  pr_priority :: int

fun set_priorities :: "int \<Rightarrow> bytes list \<Rightarrow> nat \<times> bool \<times> bool \<Rightarrow> index \<Rightarrow> (nat \<times> bool \<times> bool) \<times> index" where
  "set_priorities p [] acc s = (acc, s)"
| "set_priorities p (b # bs) (n, changed, capacity_changed) s =
     (case get_block s b of
        None \<Rightarrow> set_priorities p bs (n, changed, capacity_changed) s
      | Some r \<Rightarrow>
          (let old = eviction_priority (obj s r)
           in if old = p then set_priorities p bs (n + 1, changed, capacity_changed) s
              else set_priorities p bs (n + 1, True, capacity_changed \<or> ((old < 0) \<noteq> (p < 0)))
                     (upd_obj r (\<lambda>k. k\<lparr>eviction_priority := p\<rparr>) s)))"

definition set_subtree_eviction_priority ::
    "(bytes \<Rightarrow> bytes) \<Rightarrow> int list \<Rightarrow> int \<Rightarrow> priority_result ix" where
  "set_subtree_eviction_priority H tokens p s =
     (let s1 = count_up (\<lambda>c. c\<lparr>control_priority_updates := control_priority_updates c + 1\<rparr>) s;
          unmatched = (\<lambda>reason. \<lparr>pr_matched = False, pr_reason = Some reason, pr_root = None,
                                pr_updated = 0, pr_priority = p\<rparr>)
      in case block_ids_for_tokens H tokens None s1 of
        (Inl e, t) \<Rightarrow> (Inl e, t)
      | (Inr ids, t) \<Rightarrow>
          if ids = [] then (Inr (unmatched ''prefix_shorter_than_block_size''), t)
          else case radix_lookup (backend t) ids (int (length ids)) of
            Inl e \<Rightarrow> (Inl e, t)
          | Inr (hits, None) \<Rightarrow> (Inr (unmatched ''not_found''), t)
          | Inr (hits, Some b) \<Rightarrow>
              if hits \<noteq> length ids then (Inr (unmatched ''not_found''), t)
              else case subtree_block_ids (backend t) b of
                Inl e \<Rightarrow> (Inl e, t)
              | Inr subtree \<Rightarrow>
                  (case set_priorities p subtree (0, False, False) t of
                     ((n, changed, capacity_changed), u) \<Rightarrow>
                       (Inr \<lparr>pr_matched = True, pr_reason = None, pr_root = Some b,
                             pr_updated = n, pr_priority = p\<rparr>,
                        if capacity_changed then mark_capacity_mutated u
                        else if changed then mark_mutated u else u)))"

end
