(* ===== verification/Prefix_Invariant.thy ===== *)
theory Prefix_Invariant
  imports Prefix_Eviction
begin

text \<open>
  The invariant of the prefix index and its preservation. The tree, the dictionary of
  blocks and the routing membership name the same ids; every indexed object carries its
  own key and the parent the tree knows; every residency is valid and residency paths
  reach the root: below a block that is not on the device (host) nothing is.
\<close>

section \<open>The invariant\<close>

definition blocks_agree :: "index \<Rightarrow> bool" where
  "blocks_agree s \<longleftrightarrow>
     (\<forall>b. parent_map (backend s) b = map_option parent_block_id (the_block s b))
     \<and> (\<forall>b r. get_block s b = Some r \<longrightarrow> stable_block_id (obj s r) = b)"

definition resident :: "index \<Rightarrow> bool" where
  "resident s \<longleftrightarrow>
     (\<forall>b k. the_block s b = Some k \<longrightarrow> validate (residency k) = Inr () \<and> 0 \<le> ref_count k)
     \<and> (\<forall>b k p. the_block s b = Some k \<and> parent_of s k = Some p \<longrightarrow>
          (device_present (residency k) \<longrightarrow> device_present (residency p))
          \<and> (host_present (residency k) \<longrightarrow> host_present (residency p)))"

definition snapshot_current :: "index \<Rightarrow> bool" where
  "snapshot_current s \<longleftrightarrow>
     (\<forall>snap. snapshot_cache s = Some snap \<longrightarrow>
        snap = \<lparr>snap_supported = True, snap_enabled = True, snap_method = snap_method snap,
             snap_block_size = Some (block_size s), snap_fingerprint = fingerprint s,
             snap_block_ids = [], snap_membership = Some (routing s), snap_reason = None\<rparr>)"

definition index_ok :: "index \<Rightarrow> bool" where
  "index_ok s \<longleftrightarrow>
     0 < block_size s \<and> radix_ok (backend s) \<and> membership_ok (routing s) \<and> dict_ok (blocks s)
     \<and> blocks_agree s
     \<and> (\<forall>b. b \<in> membership_set (routing s) \<longleftrightarrow> get_block s b \<noteq> None)
     \<and> resident s
     \<and> (\<forall>m. max_blocks s = Some m \<longrightarrow> int (length (blocks s)) \<le> m)
     \<and> snapshot_current s"

named_theorems index_defs "the parts of the index invariant"

lemmas [index_defs] = index_ok_def blocks_agree_def resident_def snapshot_current_def

lemma index_okD:
  assumes "index_ok s"
  shows "0 < block_size s" "radix_ok (backend s)" "membership_ok (routing s)" "dict_ok (blocks s)"
    "parent_map (backend s) b = map_option parent_block_id (the_block s b)"
    "get_block s b = Some r \<Longrightarrow> stable_block_id (obj s r) = b"
    "b \<in> membership_set (routing s) \<longleftrightarrow> get_block s b \<noteq> None"
    "the_block s b = Some k \<Longrightarrow> validate (residency k) = Inr ()"
    "the_block s b = Some k \<Longrightarrow> 0 \<le> ref_count k"
    "the_block s b = Some k \<Longrightarrow> parent_of s k = Some p \<Longrightarrow> device_present (residency k) \<Longrightarrow>
       device_present (residency p)"
    "the_block s b = Some k \<Longrightarrow> parent_of s k = Some p \<Longrightarrow> host_present (residency k) \<Longrightarrow>
       host_present (residency p)"
    "max_blocks s = Some m \<Longrightarrow> int (length (blocks s)) \<le> m"
  using assms unfolding index_ok_def blocks_agree_def resident_def by blast+

lemma the_block_Some: "the_block s b = Some k \<longleftrightarrow> (\<exists>r. get_block s b = Some r \<and> k = obj s r)"
  by (auto simp: the_block_def)

lemma the_block_None [simp]: "the_block s b = None \<longleftrightarrow> get_block s b = None"
  by (simp add: the_block_def)

lemma in_index_tree: "index_ok s \<Longrightarrow> get_block s b = None \<longleftrightarrow> parent_map (backend s) b = None"
  by (simp add: index_okD(5))

lemma index_child_count_spec:
  assumes ok: "index_ok s" and b: "get_block s b \<noteq> None"
  obtains cs where "child_block_ids (backend s) b = Inr cs" "distinct cs"
    "set cs = {c. parent_map (backend s) c = Some (Some b)}" "index_child_count s b = Inr (length cs)"
proof -
  from b in_index_tree [OF ok] obtain n i where "loc (backend s) b = Some (n, i)"
    by (auto simp: parent_map_None)
  with child_block_ids_spec [OF index_okD(2) [OF ok] this] that show thesis
    by (metis index_child_count_def)
qed

lemma child_count_zero:
  assumes ok: "index_ok s" and b: "get_block s b \<noteq> None"
  shows "index_child_count s b = Inr 0 \<longleftrightarrow> \<not> with_child (parent_map (backend s)) b"
  using index_child_count_spec [OF ok b] by (metis (mono_tags, lifting) Collect_empty_eq
      length_0_conv set_empty sum.inject(2) with_child_def)

text \<open>Fields the invariant reads: the epochs, counters, clock and caches are not among them.\<close>

lemma index_ok_cong:
  assumes "block_size t = block_size s" "backend t = backend s" "routing t = routing s"
    "blocks t = blocks s" "obj t = obj s" "max_blocks t = max_blocks s"
    "snapshot_cache t = snapshot_cache s" "fingerprint t = fingerprint s"
  shows "index_ok t = index_ok s"
proof -
  have tb: "the_block t = the_block s" by (rule ext) (simp add: the_block_def assms)
  have po: "parent_of t = parent_of s" by (rule ext) (simp add: parent_of_def tb split: option.split)
  show ?thesis unfolding index_defs by (simp only: assms tb po)
qed

lemma mark_more [simp]:
  "block_size (mark_removed s) = block_size s" "max_blocks (mark_removed s) = max_blocks s"
  "snapshot_cache (mark_removed s) = snapshot_cache s" "fingerprint (mark_removed s) = fingerprint s"
  "block_size (mark_inserted c s) = block_size s" "max_blocks (mark_inserted c s) = max_blocks s"
  "snapshot_cache (mark_inserted c s) = snapshot_cache s"
  "fingerprint (mark_inserted c s) = fingerprint s"
  "block_size (mark_mutated s) = block_size s" "max_blocks (mark_mutated s) = max_blocks s"
  "snapshot_cache (mark_mutated s) = snapshot_cache s" "fingerprint (mark_mutated s) = fingerprint s"
  "block_size (mark_capacity_mutated s) = block_size s"
  "max_blocks (mark_capacity_mutated s) = max_blocks s"
  "snapshot_cache (mark_capacity_mutated s) = snapshot_cache s"
  "fingerprint (mark_capacity_mutated s) = fingerprint s"
  "cnt (mark_removed s) = cnt s" "clock (mark_removed s) = clock s"
  "cnt (mark_inserted c s) = cnt s" "clock (mark_inserted c s) = clock s"
  "cnt (mark_mutated s) = cnt s" "clock (mark_mutated s) = clock s"
  "cnt (mark_capacity_mutated s) = cnt s" "clock (mark_capacity_mutated s) = clock s"
  "capacity_epoch (mark_removed s) = capacity_epoch s + 1"
  "capacity_epoch (mark_mutated s) = capacity_epoch s"
  "capacity_epoch (mark_capacity_mutated s) = capacity_epoch s + 1"
  "capacity_epoch (mark_inserted c s) = (if c then capacity_epoch s + 1 else capacity_epoch s)"
  by (simp_all add: mark_removed_def mark_inserted_def mark_capacity_mutated_def mark_mutated_def Let_def)

lemma index_ok_marks [simp]:
  "index_ok (mark_removed s) = index_ok s" "index_ok (mark_inserted c s) = index_ok s"
  "index_ok (mark_mutated s) = index_ok s" "index_ok (mark_capacity_mutated s) = index_ok s"
  "index_ok (count_up f s) = index_ok s" "index_ok (s\<lparr>clock := t\<rparr>) = index_ok s"
  by (rule index_ok_cong; simp)+

lemma index_ok_evictable [simp]: "index_ok (snd (evictable_block_ids s)) = index_ok s"
  by (rule index_ok_cong) (simp_all add: evictable_block_ids_def Let_def)

text \<open>
  Writing to one object: harmless when the keys, parents and residency conditions it is
  part of survive.
\<close>

lemma upd_obj_simps [simp]:
  "block_size (upd_obj r f s) = block_size s" "backend (upd_obj r f s) = backend s"
  "routing (upd_obj r f s) = routing s" "blocks (upd_obj r f s) = blocks s"
  "max_blocks (upd_obj r f s) = max_blocks s" "snapshot_cache (upd_obj r f s) = snapshot_cache s"
  "fingerprint (upd_obj r f s) = fingerprint s" "capacity_epoch (upd_obj r f s) = capacity_epoch s"
  "obj (upd_obj r f s) x = (if x = r then f (obj s r) else obj s x)"
  by (simp_all add: upd_obj_def)

lemma the_block_upd:
  "the_block (upd_obj r f s) b =
     (if get_block s b = Some r then Some (f (obj s r)) else the_block s b)"
  by (cases "get_block s b") (auto simp: the_block_def)

text \<open>An update that changes neither key nor parent nor residency, and keeps the count sane.\<close>

definition inert :: "(block \<Rightarrow> block) \<Rightarrow> block \<Rightarrow> bool" where
  "inert f k \<longleftrightarrow> stable_block_id (f k) = stable_block_id k \<and> parent_block_id (f k) = parent_block_id k
     \<and> residency (f k) = residency k \<and> (0 \<le> ref_count k \<longrightarrow> 0 \<le> ref_count (f k))"

lemma index_ok_inert:
  assumes ok: "index_ok s" and f: "inert f (obj s r)"
  shows "index_ok (upd_obj r f s)"
proof -
  let ?t = "upd_obj r f s"
  have tb: "the_block ?t b = Some k' \<Longrightarrow> \<exists>k. the_block s b = Some k \<and> stable_block_id k' = stable_block_id k
      \<and> parent_block_id k' = parent_block_id k \<and> residency k' = residency k
      \<and> (0 \<le> ref_count k \<longrightarrow> 0 \<le> ref_count k')" for b k'
    using f by (auto simp: the_block_upd inert_def the_block_Some split: if_splits)
  have mp: "map_option g (the_block ?t b) = map_option g (the_block s b)"
    if "\<And>k. k = obj s r \<Longrightarrow> g (f k) = g k" for g :: "block \<Rightarrow> 'z" and b
    using that by (cases "get_block s b") (auto simp: the_block_def)
  have po: "parent_of ?t k' = Some p' \<Longrightarrow> \<exists>p. parent_of s k = Some p \<and> residency p' = residency p"
    if "parent_block_id k' = parent_block_id k" for k k' p'
    using that tb by (auto simp: parent_of_def split: option.splits)
  have "blocks_agree ?t" using ok mp [of parent_block_id] f
    by (auto simp: index_ok_def blocks_agree_def inert_def)
  moreover have "resident ?t" unfolding resident_def
  proof (intro conjI allI impI; (elim conjE)?)
    fix b k' assume "the_block ?t b = Some k'"
    with tb obtain k where "the_block s b = Some k" "residency k' = residency k"
      "0 \<le> ref_count k \<longrightarrow> 0 \<le> ref_count k'" by blast
    with index_okD(8,9) [OF ok] show "validate (residency k') = Inr ()" "0 \<le> ref_count k'" by auto
  next
    fix b k' p' assume "the_block ?t b = Some k'" "parent_of ?t k' = Some p'"
    with tb po obtain k p where "the_block s b = Some k" "residency k' = residency k"
      "parent_of s k = Some p" "residency p' = residency p" by blast
    with index_okD(10,11) [OF ok, of b k p]
    show "device_present (residency k') \<Longrightarrow> device_present (residency p')"
      "host_present (residency k') \<Longrightarrow> host_present (residency p')" by auto
  qed
  ultimately show ?thesis using ok by (auto simp: index_ok_def snapshot_current_def)
qed

lemma index_ok_make: "make_index bs fp cap h = Inr s \<Longrightarrow> index_ok s"
  using radix_ok_empty membership.ok_empty membership.elems_empty
  by (auto simp: make_index_def index_defs the_block_def parent_map_def empty_radix_def
      split: if_split_asm)

section \<open>Reference counts\<close>

theorem set_block_ref_count_ok:
  assumes "index_ok s"
  shows "index_ok (snd (set_block_ref_count r n e s))"
proof (cases "0 \<le> n")
  case True
  then have "inert (\<lambda>b. b\<lparr>ref_count := n\<rparr>) (obj s r)" by (simp add: inert_def)
  from index_ok_inert [OF assms this] assms show ?thesis
    by (simp add: set_block_ref_count_def Let_def)
qed (use assms in \<open>simp add: set_block_ref_count_def\<close>)

section \<open>Removing a block\<close>

lemma remove_from_index_run:
  assumes ok: "index_ok s" and r: "get_block s b = Some r" and free: "\<not> locally_blocked (obj s r)"
    and leaf: "\<not> with_child (parent_map (backend s)) b"
  shows "\<exists>t. remove_block_from_index b s = (Inr r, t) \<and> index_ok t
      \<and> blocks t = dict_del b (blocks s) \<and> obj t = obj s
      \<and> parent_map (backend t) = (parent_map (backend s))(b := None)
      \<and> cnt t = cnt s \<and> clock t = clock s \<and> block_size t = block_size s \<and> max_blocks t = max_blocks s
      \<and> fingerprint t = fingerprint s \<and> capacity_epoch t = capacity_epoch s + 1"
proof -
  have pb: "parent_map (backend s) b \<noteq> None" using in_index_tree [OF ok, of b] r by simp
  from radix.remove_law [OF index_okD(2) [OF ok] pb leaf] obtain u where
    u: "remove_block b (backend s) = (Inr (), u)" "radix_ok u"
      "parent_map u = (parent_map (backend s))(b := None)" by blast
  have "b \<in> membership_set (routing s)" using index_okD(7) [OF ok] r by simp
  from membership.rem_old [OF index_okD(3) [OF ok] this] obtain m where
    m: "membership_remove (routing s) b = Inr m" "membership_ok m"
      "membership_set m = membership_set (routing s) - {b}" by blast
  have cc: "index_child_count s b = Inr 0" using child_count_zero [OF ok] r leaf by simp
  let ?t0 = "s\<lparr>backend := u, blocks := dict_del b (blocks s), routing := m, snapshot_cache := None\<rparr>"
  have run: "remove_block_from_index b s = (Inr r, mark_removed ?t0)"
    using r free cc u(1) m(1)
    by (simp add: remove_block_from_index_def locally_blocked_def bindE_def on_backend_def
        record_routing_remove_def)
  have tb: "the_block ?t0 x = (if x = b then None else the_block s x)" for x
    by (simp add: the_block_def)
  have nopar: "parent_block_id k \<noteq> Some b" if "the_block s x = Some k" for x k
    using leaf that index_okD(5) [OF ok, of x] by (auto simp: with_child_def)
  have po: "parent_of ?t0 k = parent_of s k" if "parent_block_id k \<noteq> Some b" for k
    using that by (simp add: parent_of_def tb split: option.split)
  have "resident ?t0"
    unfolding resident_def tb
  proof (intro conjI allI impI; (elim conjE)?)
    fix x k assume "(if x = b then None else the_block s x) = Some k"
    then show "validate (residency k) = Inr ()" "0 \<le> ref_count k"
      using index_okD(8,9) [OF ok] by (auto split: if_splits)
  next
    fix x k p assume "(if x = b then None else the_block s x) = Some k" "parent_of ?t0 k = Some p"
    then have "the_block s x = Some k" "parent_of s k = Some p"
      using po nopar by (auto split: if_splits)
    then show "device_present (residency k) \<Longrightarrow> device_present (residency p)"
      "host_present (residency k) \<Longrightarrow> host_present (residency p)"
      using index_okD(10,11) [OF ok] by auto
  qed
  moreover have "blocks_agree ?t0"
    using index_okD(5,6) [OF ok] by (auto simp: blocks_agree_def tb u(3))
  moreover have "int (length (blocks ?t0)) \<le> k" if "max_blocks s = Some k" for k
    using index_okD(12) [OF ok that] dict_del_shorter [of "blocks s" b] r by simp
  ultimately have "index_ok ?t0"
    using ok u m by (auto simp: index_ok_def snapshot_current_def)
  with run u(3) show ?thesis
    by (intro exI [of _ "mark_removed ?t0"]) simp
qed

text \<open>Every refusal leaves the index as it was, so removal keeps the invariant.\<close>

theorem remove_block_from_index_ok:
  assumes ok: "index_ok s"
  shows "index_ok (snd (remove_block_from_index b s))"
proof (cases "get_block s b")
  case None
  with ok show ?thesis by (simp add: remove_block_from_index_def)
next
  case (Some r)
  show ?thesis
  proof (cases "locally_blocked (obj s r) \<or> with_child (parent_map (backend s)) b")
    case True
    have "\<exists>e. remove_block_from_index b s = (Inl e, s)"
    proof (cases "locally_blocked (obj s r)")
      case True
      with Some show ?thesis by (auto simp: remove_block_from_index_def locally_blocked_def)
    next
      case False
      with True \<open>locally_blocked (obj s r) \<or> _\<close> have "with_child (parent_map (backend s)) b" by blast
      moreover have nb: "get_block s b \<noteq> None" using Some by simp
      then obtain cs :: "bytes list" where "index_child_count s b = Inr (length cs)"
        by (rule index_child_count_spec [OF ok])
      ultimately have "index_child_count s b = Inr (length cs)" "length cs \<noteq> 0"
        using child_count_zero [OF ok, of b] Some by auto
      with Some False show ?thesis by (auto simp: remove_block_from_index_def locally_blocked_def)
    qed
    with ok show ?thesis by auto
  next
    case False
    with remove_from_index_run [OF ok Some] show ?thesis by auto
  qed
qed

section \<open>Inserting a block\<close>

theorem insert_block_run:
  assumes ok: "index_ok s" and new: "get_block s (stable_block_id (obj s r)) = None"
    and res: "validate (residency (obj s r)) = Inr ()" and rc: "0 \<le> ref_count (obj s r)"
    and cap: "\<And>m. max_blocks s = Some m \<Longrightarrow> int (length (blocks s)) < m"
    and adm: "insert_admissible s (obj s r) = Inr ()"
  defines "key \<equiv> stable_block_id (obj s r)" and "po \<equiv> parent_block_id (obj s r)"
  shows "\<exists>t. insert_block r s = (Inr r, t) \<and> index_ok t
      \<and> blocks t = dict_set key r (blocks s)
      \<and> obj t = (obj s)(r := (obj s r)\<lparr>last_access := clock s + 1\<rparr>)
      \<and> parent_map (backend t) = (parent_map (backend s))(key \<mapsto> po)
      \<and> clock t = clock s + 1 \<and> committed_blocks (cnt t) = committed_blocks (cnt s) + 1"
proof -
  let ?k = "(obj s r)\<lparr>last_access := clock s + 1\<rparr>"
  have par: "the_block s p \<noteq> None \<and> p \<noteq> key" if "po = Some p" for p
    using adm that new by (auto simp: insert_admissible_def po_def key_def the_block_def split: option.splits)
  have nk: "parent_map (backend s) key = None" using in_index_tree [OF ok] new by (simp add: key_def)
  have "parent_map (backend s) p \<noteq> None" if "po = Some p" for p
    using par [OF that] index_okD(5) [OF ok] by auto
  from radix.insert_law [OF index_okD(2) [OF ok] nk this] obtain u where
    u: "insert_child po key (backend s) = (Inr (), u)" "radix_ok u"
      "parent_map u = (parent_map (backend s))(key \<mapsto> po)" by blast
  have "key \<notin> membership_set (routing s)" using index_okD(7) [OF ok] new by (simp add: key_def)
  from membership.ins_new [OF index_okD(3) [OF ok] this] obtain m where
    m: "membership_insert (routing s) key = Inr m" "membership_ok m"
      "membership_set m = insert key (membership_set (routing s))" by blast
  define t0 where "t0 = count_up (\<lambda>c. c\<lparr>committed_blocks := committed_blocks c + 1\<rparr>)
      (s\<lparr>clock := clock s + 1, obj := (obj s)(r := ?k), blocks := dict_set key r (blocks s),
         backend := u\<rparr>)\<lparr>routing := m, snapshot_cache := None\<rparr>"
  have f0: "blocks t0 = dict_set key r (blocks s)" "obj t0 = (obj s)(r := ?k)" "backend t0 = u"
    "routing t0 = m" "snapshot_cache t0 = None" "block_size t0 = block_size s"
    "max_blocks t0 = max_blocks s" "clock t0 = clock s + 1"
    "committed_blocks (cnt t0) = committed_blocks (cnt s) + 1"
    by (simp_all add: t0_def count_up_def)
  have cap': "\<not> (case max_blocks s of None \<Rightarrow> False | Some m \<Rightarrow> int (length (blocks s)) \<ge> m)"
    using cap by (auto split: option.splits)
  have e1: "s\<lparr>clock := clock s + 1, obj := (obj s)(r := ?k), blocks := dict_set key r (blocks s)\<rparr>
      = upd_obj r (\<lambda>k. k\<lparr>last_access := clock s + 1\<rparr>) (s\<lparr>clock := clock s + 1\<rparr>)
        \<lparr>blocks := dict_set key r (blocks s)\<rparr>"
    by (simp add: upd_obj_def)
  obtain c where run: "insert_block r s = (Inr r, mark_inserted c t0)"
    using res new cap' adm u(1) m(1)
    by (simp add: insert_block_def Let_def tick_def key_def [symmetric] po_def [symmetric] bindE_def
        on_backend_def record_routing_insert_def count_up_def t0_def upd_obj_def)
  have notr: "r' \<noteq> r" if "get_block s b = Some r'" for b r'
    using index_okD(6) [OF ok that] new that by auto
  have tb: "the_block t0 x = (if x = key then Some ?k else the_block s x)" for x
    using notr [of x] by (cases "get_block s x") (auto simp: the_block_def f0)
  have kp: "parent_block_id ?k = po" "residency ?k = residency (obj s r)" "stable_block_id ?k = key"
    "ref_count ?k = ref_count (obj s r)"
    by (simp_all add: po_def key_def)
  have tb': "the_block t0 p = the_block s p" if "po = Some p" for p
    using par [OF that] by (simp add: tb)
  have pk: "parent_of t0 ?k = parent_of s (obj s r)"
    using tb' by (simp add: parent_of_def po_def [symmetric] kp split: option.split)
  have nochild: "parent_block_id k \<noteq> Some key" if "the_block s x = Some k" for x k
  proof
    assume "parent_block_id k = Some key"
    with that index_okD(5) [OF ok, of x] have "parent_map (backend s) x = Some (Some key)" by simp
    with radix.parent_present [OF index_okD(2) [OF ok]] nk show False by blast
  qed
  have po': "parent_of t0 k = parent_of s k" if "the_block s x = Some k" for x k
    using nochild [OF that] by (simp add: parent_of_def tb split: option.split)
  have "resident t0"
    unfolding resident_def
  proof (intro conjI allI impI; (elim conjE)?)
    fix x k assume "the_block t0 x = Some k"
    then show "validate (residency k) = Inr ()" "0 \<le> ref_count k"
      using index_okD(8,9) [OF ok] res rc kp by (auto simp: tb split: if_splits)
  next
    fix x k p assume a: "the_block t0 x = Some k" "parent_of t0 k = Some p"
    show "device_present (residency p)" if "device_present (residency k)"
    proof (cases "x = key")
      case True
      with a pk have "parent_of s (obj s r) = Some p" "residency k = residency (obj s r)"
        using kp by (auto simp: tb)
      with adm that show ?thesis
        by (auto simp: insert_admissible_def parent_of_def split: option.splits if_splits)
    next
      case False
      with a have x: "the_block s x = Some k" by (simp add: tb)
      with a po' [OF x] index_okD(10) [OF ok x] that show ?thesis by auto
    qed
    show "host_present (residency p)" if "host_present (residency k)"
    proof (cases "x = key")
      case True
      with a pk have "parent_of s (obj s r) = Some p" "residency k = residency (obj s r)"
        using kp by (auto simp: tb)
      with adm that show ?thesis
        by (auto simp: insert_admissible_def parent_of_def split: option.splits if_splits)
    next
      case False
      with a have x: "the_block s x = Some k" by (simp add: tb)
      with a po' [OF x] index_okD(11) [OF ok x] that show ?thesis by auto
    qed
  qed
  moreover have "blocks_agree t0"
    using index_okD(5,6) [OF ok] notr kp
    by (auto simp: blocks_agree_def tb u(3) f0)
  moreover have "int (length (blocks t0)) \<le> k" if "max_blocks s = Some k" for k
    using cap [OF that] length_dict_set_new [of "blocks s" key r] new by (simp add: f0 key_def)
  ultimately have "index_ok t0"
    using ok u m by (auto simp: index_ok_def snapshot_current_def f0)
  with run u(3) f0 show ?thesis
    by (intro exI [of _ "mark_inserted c t0"]) simp
qed

section \<open>Transfers and demotion\<close>

lemma unindexed_write:
  assumes "\<And>b. get_block s b \<noteq> Some r"
  shows "index_ok (upd_obj r f s) = index_ok s"
proof -
  let ?t = "upd_obj r f s"
  have tb: "the_block ?t = the_block s" using assms by (auto simp: the_block_upd)
  have po: "parent_of ?t = parent_of s"
    by (rule ext) (simp add: parent_of_def tb split: option.split)
  have "(\<forall>b r'. get_block s b = Some r' \<longrightarrow> stable_block_id (obj ?t r') = b)
      = (\<forall>b r'. get_block s b = Some r' \<longrightarrow> stable_block_id (obj s r') = b)"
    using assms by (metis upd_obj_simps(9))
  then show ?thesis unfolding index_defs by (simp add: tb po)
qed

lemma not_own_parent:
  assumes ok: "index_ok s" and r: "get_block s b = Some r"
  shows "parent_block_id (obj s r) \<noteq> Some b"
proof
  assume "parent_block_id (obj s r) = Some b"
  with index_okD(5) [OF ok, of b] r have "parent_map (backend s) b = Some (Some b)"
    by (simp add: the_block_def)
  from radix.depth_child [OF index_okD(2) [OF ok] this] show False by simp
qed

lemma index_ok_residency:
  assumes ok: "index_ok s" and r: "get_block s b = Some r" and valid: "validate rs = Inr ()"
    and up: "\<And>p. parent_of s (obj s r) = Some p \<Longrightarrow>
      (device_present rs \<longrightarrow> device_present (residency p)) \<and> (host_present rs \<longrightarrow> host_present (residency p))"
    and down: "\<And>c k. the_block s c = Some k \<Longrightarrow> parent_block_id k = Some b \<Longrightarrow>
      (device_present (residency k) \<longrightarrow> device_present rs) \<and> (host_present (residency k) \<longrightarrow> host_present rs)"
  shows "index_ok (upd_obj r (\<lambda>k. k\<lparr>residency := rs\<rparr>) s)"
proof -
  let ?t = "upd_obj r (\<lambda>k. k\<lparr>residency := rs\<rparr>) s" and ?k = "(obj s r)\<lparr>residency := rs\<rparr>"
  have key: "get_block s x = Some r \<longleftrightarrow> x = b" for x
    using index_okD(6) [OF ok r] index_okD(6) [OF ok, of x r] r by auto
  have tb: "the_block ?t x = (if x = b then Some ?k else the_block s x)" for x
    by (simp add: the_block_upd key)
  have own: "parent_block_id (obj s r) \<noteq> Some b" by (rule not_own_parent [OF ok r])
  have pk: "parent_of ?t ?k = parent_of s (obj s r)"
    using own by (simp add: parent_of_def tb split: option.split)
  have po: "parent_of ?t k = (if parent_block_id k = Some b then Some ?k else parent_of s k)" for k
    by (simp add: parent_of_def tb split: option.split)
  have "resident ?t" unfolding resident_def
  proof (intro conjI allI impI; (elim conjE)?)
    fix x k assume "the_block ?t x = Some k"
    then show "validate (residency k) = Inr ()" "0 \<le> ref_count k"
      using index_okD(8,9) [OF ok, of x k] index_okD(9) [OF ok, of b "obj s r"] r valid
      by (cases "x = b"; auto simp: tb the_block_Some)+
  next
    fix x k p assume a: "the_block ?t x = Some k" "parent_of ?t k = Some p"
    have "(device_present (residency k) \<longrightarrow> device_present (residency p))
        \<and> (host_present (residency k) \<longrightarrow> host_present (residency p))"
    proof (cases "x = b")
      case True
      with a(1) have "k = ?k" by (simp add: tb)
      with a(2) pk up [of p] show ?thesis by simp
    next
      case False
      with a(1) have x: "the_block s x = Some k" by (simp add: tb)
      show ?thesis
      proof (cases "parent_block_id k = Some b")
        case True
        with a(2) po have "p = ?k" by simp
        with down [OF x True] show ?thesis by simp
      next
        case False
        with a(2) po have "parent_of s k = Some p" by simp
        with index_okD(10,11) [OF ok x] show ?thesis by blast
      qed
    qed
    then show "device_present (residency k) \<Longrightarrow> device_present (residency p)"
      "host_present (residency k) \<Longrightarrow> host_present (residency p)" by blast+
  qed
  moreover have "blocks_agree ?t"
  proof -
    have "the_block s b = Some (obj s r)" using r by (simp add: the_block_def)
    then have "map_option parent_block_id (the_block ?t x) = map_option parent_block_id (the_block s x)" for x
      by (simp add: tb)
    with index_okD(5,6) [OF ok] show ?thesis by (auto simp: blocks_agree_def)
  qed
  ultimately show ?thesis using ok by (auto simp: index_ok_def snapshot_current_def)
qed

lemma residency_cases:
  assumes ok: "index_ok s" and r: "get_block s b = Some r"
  shows "parent_of s (obj s r) = Some p \<Longrightarrow>
      (device_present (residency (obj s r)) \<longrightarrow> device_present (residency p))
      \<and> (host_present (residency (obj s r)) \<longrightarrow> host_present (residency p))"
    and "the_block s c = Some k \<Longrightarrow> parent_block_id k = Some b \<Longrightarrow>
      (device_present (residency k) \<longrightarrow> device_present (residency (obj s r)))
      \<and> (host_present (residency k) \<longrightarrow> host_present (residency (obj s r)))"
    and "validate (residency (obj s r)) = Inr ()"
  using index_okD(8) [OF ok, of b "obj s r"] index_okD(10,11) [OF ok, of b "obj s r"]
    index_okD(10,11) [OF ok, of c k "obj s r"] r
  by (auto simp: the_block_def parent_of_def)

lemma device_child_free:
  assumes ok: "index_ok s" and b: "get_block s b \<noteq> None" and z: "device_child_count s b = Inr 0"
    and c: "the_block s c = Some k" "parent_block_id k = Some b"
  shows "\<not> device_present (residency k)"
proof -
  obtain cs where cs: "child_block_ids (backend s) b = Inr cs"
    "set cs = {c. parent_map (backend s) c = Some (Some b)}"
    by (rule index_child_count_spec [OF ok b])
  from c index_okD(5) [OF ok, of c] cs(2) have "c \<in> set cs" by simp
  with z cs(1) c(1) show ?thesis
    by (auto simp: device_child_count_def filter_empty_conv)
qed

lemma device_child_total:
  assumes ok: "index_ok s" and b: "get_block s b \<noteq> None"
  shows "\<exists>k. device_child_count s b = Inr k"
  by (rule index_child_count_spec [OF ok b]) (simp add: device_child_count_def)

lemma set_residency_ok:
  assumes ok: "index_ok s"
    and "\<And>b. get_block s b = Some r \<Longrightarrow> validate rs = Inr ()"
    and "\<And>b p. get_block s b = Some r \<Longrightarrow> parent_of s (obj s r) = Some p \<Longrightarrow>
      (device_present rs \<longrightarrow> device_present (residency p)) \<and> (host_present rs \<longrightarrow> host_present (residency p))"
    and "\<And>b c k. get_block s b = Some r \<Longrightarrow> the_block s c = Some k \<Longrightarrow> parent_block_id k = Some b \<Longrightarrow>
      (device_present (residency k) \<longrightarrow> device_present rs) \<and> (host_present (residency k) \<longrightarrow> host_present rs)"
  shows "index_ok (snd (set_residency r rs s))"
proof (cases "\<exists>b. get_block s b = Some r")
  case True
  then obtain b where b: "get_block s b = Some r" by blast
  have "index_ok (upd_obj r (\<lambda>k. k\<lparr>residency := rs\<rparr>) s)"
    using index_ok_residency [OF ok b] assms(2-4) [OF b] by blast
  then show ?thesis by (simp add: set_residency_def Let_def split: sum.split)
next
  case False
  then have "index_ok (upd_obj r (\<lambda>k. k\<lparr>residency := rs\<rparr>) s)" using unindexed_write ok by blast
  then show ?thesis by (simp add: set_residency_def Let_def split: sum.split)
qed

text \<open>Transfer flags alone never matter for the paths.\<close>

lemma validate_cases:
  "validate rs = Inr () \<longleftrightarrow>
     (device_present rs \<or> host_present rs)
     \<and> (transfer rs = Some D2H \<longrightarrow> device_present rs \<and> \<not> host_present rs)
     \<and> (transfer rs = Some H2D \<longrightarrow> device_present rs \<and> host_present rs)"
  by (auto simp: validate_def)

theorem transfers_ok:
  assumes ok: "index_ok s"
  shows "index_ok (snd (begin_d2h r s))" "index_ok (snd (finish_d2h r s))"
    "index_ok (snd (abort_d2h r s))" "index_ok (snd (begin_h2d r s))"
    "index_ok (snd (finish_h2d r s))" "index_ok (snd (abort_h2d r s))"
proof -
  let ?rs = "residency (obj s r)"
  note rc = residency_cases [OF ok]
  have fin: "index_ok (snd (set_residency r rs s))"
    if "\<And>b. get_block s b = Some r \<Longrightarrow> validate rs = Inr ()"
      "\<And>b p. get_block s b = Some r \<Longrightarrow> parent_of s (obj s r) = Some p \<Longrightarrow>
        (device_present rs \<longrightarrow> device_present ?rs \<or> device_present (residency p))
        \<and> (host_present rs \<longrightarrow> host_present ?rs \<or> host_present (residency p))"
      "\<And>b c k. get_block s b = Some r \<Longrightarrow> the_block s c = Some k \<Longrightarrow> parent_block_id k = Some b \<Longrightarrow>
        (device_present (residency k) \<longrightarrow> device_present ?rs \<longrightarrow> device_present rs)
        \<and> (host_present (residency k) \<longrightarrow> host_present ?rs \<longrightarrow> host_present rs)" for rs
  proof (rule set_residency_ok [OF ok], goal_cases)
    case (1 b) then show ?case by (rule that(1))
  next
    case (2 b p) with that(2) [OF 2] rc(1) [OF 2] show ?case by blast
  next
    case (3 b c k) with that(3) [OF 3] rc(2) [OF 3] show ?case by blast
  qed
  have val: "validate ?rs = Inr ()" if "get_block s b = Some r" for b by (rule rc(3) [OF that])
  show "index_ok (snd (begin_d2h r s))"
    using ok fin [of "?rs\<lparr>transfer := Some D2H\<rparr>"] val
    by (auto simp: begin_d2h_def Let_def validate_cases split: sum.split)
  show "index_ok (snd (abort_d2h r s))"
    using ok fin [of "?rs\<lparr>transfer := None\<rparr>"] val
    by (auto simp: abort_d2h_def Let_def validate_cases)
  show "index_ok (snd (finish_h2d r s))"
    using ok fin [of "?rs\<lparr>transfer := None\<rparr>"] val
    by (auto simp: finish_h2d_def Let_def validate_cases)
  show "index_ok (snd (begin_h2d r s))"
  proof -
    have "index_ok (snd (set_residency r (?rs\<lparr>device_present := True, transfer := Some H2D\<rparr>) s))"
      if "\<forall>p. parent_of s (obj s r) = Some p \<longrightarrow> device_present (residency p)" "host_present ?rs"
      using fin [of "?rs\<lparr>device_present := True, transfer := Some H2D\<rparr>"] that
      by (auto simp: validate_cases)
    with ok show ?thesis
      by (auto simp: begin_h2d_def Let_def parent_of_def split: sum.split option.splits)
  qed
  show "index_ok (snd (finish_d2h r s))"
  proof -
    have "index_ok (snd (set_residency r (?rs\<lparr>host_present := True, transfer := None\<rparr>) s))"
      if "\<forall>p. parent_of s (obj s r) = Some p \<longrightarrow> host_present (residency p)"
      using fin [of "?rs\<lparr>host_present := True, transfer := None\<rparr>"] that
      by (auto simp: validate_cases)
    with ok show ?thesis
      by (auto simp: finish_d2h_def Let_def parent_of_def split: option.splits)
  qed
  show "index_ok (snd (abort_h2d r s))"
  proof (cases "\<exists>b. get_block s b = Some r")
    case True
    then obtain b where b: "get_block s b = Some r" by blast
    have key: "stable_block_id (obj s r) = b" by (rule index_okD(6) [OF ok b])
    obtain k where k: "device_child_count s b = Inr k" using device_child_total [OF ok, of b] b by auto
    have only: "x = b" if "get_block s x = Some r" for x
      using index_okD(6) [OF ok that] key by simp
    have nodev: "\<not> device_present (residency k')"
      if "the_block s c = Some k'" "parent_block_id k' = Some b" "k = 0" for c k'
      using device_child_free [OF ok _ _ that(1,2)] b k that(3) by simp
    have "index_ok (snd (set_residency r (?rs\<lparr>device_present := False, transfer := None\<rparr>) s))"
      if "host_present ?rs" "k = 0"
      by (rule fin) (use that nodev only in \<open>auto simp: validate_cases\<close>)
    with ok val [OF b] show ?thesis
      by (auto simp: abort_h2d_def Let_def validate_cases key k)
  next
    case False
    then show ?thesis
      using ok fin [of "?rs\<lparr>device_present := False, transfer := None\<rparr>"]
      by (auto simp: abort_h2d_def Let_def split: sum.split)
  qed
qed

end
