(* ===== verification/Prefix_Eviction_Correct.thy ===== *)
theory Prefix_Eviction_Correct
  imports Prefix_Invariant
begin

text \<open>
  What the eviction loop does, stated on the index before it runs: it removes blocks in
  the order a greedy selector would (always the least candidate among the unblocked
  blocks whose children are all gone), and it stops early only when nothing that can be
  freed is left.
\<close>

section \<open>Freeable blocks\<close>

text \<open>A block can be freed by repeated leaf eviction when nothing below it is blocked.\<close>

inductive freeable :: "index \<Rightarrow> bytes \<Rightarrow> bool" for s where
  "get_block s b = Some r \<Longrightarrow> \<not> locally_blocked (obj s r) \<Longrightarrow>
   (\<And>c. parent_map (backend s) c = Some (Some b) \<Longrightarrow> freeable s c) \<Longrightarrow> freeable s b"

inductive_cases freeableE: "freeable s b"

definition free_set :: "index \<Rightarrow> bytes set" where
  "free_set s = {b. freeable s b}"

definition evictable_after :: "index \<Rightarrow> bytes set \<Rightarrow> bytes set" where
  "evictable_after s D =
     {b. \<exists>r. get_block s b = Some r \<and> \<not> locally_blocked (obj s r) \<and> b \<notin> D
          \<and> (\<forall>c. parent_map (backend s) c = Some (Some b) \<longrightarrow> c \<in> D)}"

definition candidate_for :: "index \<Rightarrow> bytes \<Rightarrow> candidate" where
  "candidate_for s b =
     (case the_block s b of Some k \<Rightarrow> (- eviction_priority k, last_access k, b) | None \<Rightarrow> (0, 0, b))"

fun greedy :: "index \<Rightarrow> bytes set \<Rightarrow> bytes list \<Rightarrow> bool" where
  "greedy s D [] = True"
| "greedy s D (b # bs) =
     (b \<in> evictable_after s D \<and> (\<forall>x\<in>evictable_after s D. candidate_for s b \<le> candidate_for s x)
      \<and> greedy s (insert b D) bs)"

lemma greedy_nth:
  assumes "greedy s D ks" "i < length ks"
  shows "ks ! i \<in> evictable_after s (D \<union> set (take i ks))
    \<and> (\<forall>x\<in>evictable_after s (D \<union> set (take i ks)). candidate_for s (ks ! i) \<le> candidate_for s x)"
  using assms
proof (induction ks arbitrary: D i)
  case (Cons k ks)
  then show ?case using Cons.IH [of "insert k D" "i - 1"] by (cases i) auto
qed simp

text \<open>
  The candidates compare by priority first, the largest before the others, then by age, then by id.
\<close>

definition evicted_before :: "index \<Rightarrow> bytes \<times> nat \<Rightarrow> bytes \<times> nat \<Rightarrow> bool" where
  "evicted_before s = (\<lambda>(b, r) (c, q).
     eviction_priority (obj s q) < eviction_priority (obj s r)
     \<or> eviction_priority (obj s q) = eviction_priority (obj s r)
       \<and> (last_access (obj s r) < last_access (obj s q)
         \<or> last_access (obj s r) = last_access (obj s q) \<and> b \<le> c))"

lemma greedy_order:
  assumes g: "greedy s {} ks" and i: "i < length ks" and r: "get_block s (ks ! i) = Some r"
    and c: "c \<in> evictable_after s (set (take i ks))" "get_block s c = Some q"
  shows "evicted_before s (ks ! i, r) (c, q)"
proof -
  have "candidate_for s (ks ! i) \<le> candidate_for s c" using greedy_nth [OF g i] c(1) by simp
  then show ?thesis
    using r c(2) by (auto simp: evicted_before_def candidate_for_def the_block_def less_eq_prod_def)
qed

definition minus_block :: "index \<Rightarrow> bytes \<Rightarrow> index \<Rightarrow> bool" where
  "minus_block s b t \<longleftrightarrow>
     blocks t = dict_del b (blocks s) \<and> obj t = obj s
     \<and> parent_map (backend t) = (parent_map (backend s))(b := None)"

lemma minus_block_get: "minus_block s b t \<Longrightarrow> get_block t x = (if x = b then None else get_block s x)"
  by (simp add: minus_block_def)

lemma minus_block_child:
  "minus_block s b t \<Longrightarrow> parent_map (backend t) c = Some q \<longleftrightarrow> c \<noteq> b \<and> parent_map (backend s) c = Some q"
  by (simp add: minus_block_def)

lemma evictable_after_minus:
  assumes "minus_block s b t"
  shows "evictable_after t D = evictable_after s (insert b D)"
  unfolding evictable_after_def minus_block_child [OF assms] minus_block_get [OF assms]
  using assms by (auto simp: minus_block_def)

lemma greedy_minus:
  assumes m: "minus_block s b t"
  shows "greedy t D bs \<longleftrightarrow> greedy s (insert b D) bs"
proof (induction bs arbitrary: D)
  case (Cons x xs)
  have c: "candidate_for t y = candidate_for s y" if "y \<noteq> b" for y
    using that m by (simp add: candidate_for_def the_block_def minus_block_def)
  have "y \<noteq> b" if "y \<in> evictable_after s (insert b D)" for y
    using that by (auto simp: evictable_after_def)
  then show ?case
    using Cons.IH [of "insert x D"] c
    by (auto simp: evictable_after_minus [OF m] insert_commute)
qed simp

lemma freeable_indexed: "freeable s b \<Longrightarrow> get_block s b \<noteq> None"
  by (auto elim: freeableE)

lemma finite_free_set: "finite (free_set s)"
proof -
  have "free_set s \<subseteq> dom (get_block s)" using freeable_indexed by (auto simp: free_set_def)
  then show ?thesis using finite_dom_map_of finite_subset by metis
qed

lemma evictable_freeable: "b \<in> evictable_after s {} \<Longrightarrow> freeable s b"
  by (auto simp: evictable_after_def intro: freeable.intros)

lemma freeable_minus:
  assumes m: "minus_block s b t" and b: "b \<in> evictable_after s {}"
  shows "free_set t = free_set s - {b}"
proof -
  have 1: "freeable t x \<Longrightarrow> freeable s x \<and> x \<noteq> b" for x
  proof (induction rule: freeable.induct)
    case (1 x r)
    have r: "x \<noteq> b" "get_block s x = Some r" "\<not> locally_blocked (obj s r)"
      using 1(1,2) m by (auto simp: minus_block_get [OF m] minus_block_def split: if_splits)
    have "freeable s c" if "parent_map (backend s) c = Some (Some x)" for c
      using that 1(4) [of c] evictable_freeable [OF b]
      by (cases "c = b") (auto simp: minus_block_child [OF m])
    with r show ?case by (auto intro: freeable.intros)
  qed
  have 2: "freeable s x \<Longrightarrow> x \<noteq> b \<longrightarrow> freeable t x" for x
  proof (induction rule: freeable.induct)
    case (1 x r)
    show ?case
    proof
      assume "x \<noteq> b"
      show "freeable t x"
      proof (rule freeable.intros)
        show "get_block t x = Some r" using 1(1) \<open>x \<noteq> b\<close> by (simp add: minus_block_get [OF m])
        show "\<not> locally_blocked (obj t r)" using 1(2) m by (simp add: minus_block_def)
        fix c assume "parent_map (backend t) c = Some (Some x)"
        with 1(4) [of c] show "freeable t c" by (simp add: minus_block_child [OF m])
      qed
    qed
  qed
  from 1 2 show ?thesis by (auto simp: free_set_def)
qed

lemma no_evictable_no_free:
  assumes ok: "index_ok s" and none: "evictable_after s {} = {}"
  shows "free_set s = {}"
proof (rule ccontr)
  assume ne: "free_set s \<noteq> {}"
  have "\<exists>b\<in>free_set s. b \<in> set (leaf_block_ids (backend s))"
  proof (rule radix.closed_set_has_leaf [OF index_okD(2) [OF ok] ne])
    show "parent_map (backend s) b \<noteq> None" if "b \<in> free_set s" for b
      using that freeable_indexed [of s b] in_index_tree [OF ok, of b] by (simp add: free_set_def)
    show "c \<in> free_set s" if "b \<in> free_set s" "parent_map (backend s) c = Some (Some b)" for b c
      using that by (auto simp: free_set_def elim: freeableE)
  qed
  then obtain b where b: "freeable s b" "\<not> with_child (parent_map (backend s)) b"
    by (auto simp: free_set_def radix.leaves_law [OF index_okD(2) [OF ok]])
  then have "b \<in> evictable_after s {}"
    by (auto simp: evictable_after_def with_child_def elim: freeableE)
  with none show False by simp
qed

section \<open>The heap invariant\<close>

text \<open>
  The heap holds exactly the candidates of the blocks that can be evicted now, and
  \<open>queued\<close> their ids.
\<close>

definition heap_exact :: "index \<Rightarrow> candidate list \<times> bytes list \<Rightarrow> bool" where
  "heap_exact s hq \<longleftrightarrow>
     distinct (fst hq) \<and> set (fst hq) = candidate_for s ` evictable_after s {}
     \<and> set (snd hq) = evictable_after s {}"

lemma candidate_key: "snd (snd (candidate_for s b)) = b"
  by (simp add: candidate_for_def candidate_of_def split: option.splits)

lemma candidate_inj: "candidate_for s a = candidate_for s b \<Longrightarrow> a = b"
  by (metis candidate_key)

lemma heap_min_Min: "h \<noteq> [] \<Longrightarrow> heap_min h = Min (set h)"
  by (cases h) (simp_all add: Min.set_eq_fold del: list.set)

lemma can_evict_spec:
  assumes ok: "index_ok s" and r: "get_block s b = Some r"
  shows "can_evict s r = Inr (b \<in> evictable_after s {})"
proof -
  have key: "stable_block_id (obj s r) = b" by (rule index_okD(6) [OF ok r])
  have nb: "get_block s b \<noteq> None" using r by simp
  obtain cs where cs: "child_block_ids (backend s) b = Inr cs" "distinct cs"
    "set cs = {c. parent_map (backend s) c = Some (Some b)}" "index_child_count s b = Inr (length cs)"
    by (rule index_child_count_spec [OF ok nb])
  have "length cs = 0 \<longleftrightarrow> set cs = {}" by simp
  then have "length cs = 0 \<longleftrightarrow> (\<nexists>c. parent_map (backend s) c = Some (Some b))"
    unfolding cs(3) by blast
  then have "b \<in> evictable_after s {} \<longleftrightarrow> \<not> locally_blocked (obj s r) \<and> length cs = 0"
    using r by (simp add: evictable_after_def)
  then show ?thesis by (simp add: can_evict_def key cs(4))
qed

lemma heap_exact_top:
  assumes h: "heap_exact s hq" and ne: "fst hq \<noteq> []"
  obtains b where "b \<in> evictable_after s {}" "heap_min (fst hq) = candidate_for s b"
    "\<And>x. x \<in> evictable_after s {} \<Longrightarrow> candidate_for s b \<le> candidate_for s x"
proof -
  have m: "heap_min (fst hq) \<in> set (fst hq)" by (rule heap_min_in [OF ne])
  then obtain b where b: "b \<in> evictable_after s {}" "heap_min (fst hq) = candidate_for s b"
    using h by (auto simp: heap_exact_def)
  moreover have "candidate_for s b \<le> candidate_for s x" if "x \<in> evictable_after s {}" for x
    using that h b(2) heap_min_Min [OF ne] by (metis Min_le heap_exact_def finite_set imageI)
  ultimately show thesis by (rule that)
qed

lemma heap_exact_minus:
  assumes ok: "index_ok t" and h: "heap_exact s hq" and b: "b \<in> evictable_after s {}"
    and m: "minus_block s b t" and r: "get_block s b = Some r"
    and pb: "parent_map (backend s) b = Some (parent_block_id (obj s r))"
  shows "\<exists>hq'. queue_if can_evict t (parent_block_id (obj s r))
      (remove1 (candidate_for s b) (fst hq), set_discard b (snd hq)) = Inr hq' \<and> heap_exact t hq'"
proof -
  define h1 where "h1 = remove1 (candidate_for s b) (fst hq)"
  define q1 where "q1 = set_discard b (snd hq)"
  have cand: "candidate_for t y = candidate_for s y" if "y \<noteq> b" for y
    using that m by (simp add: candidate_for_def the_block_def minus_block_def)
  have other: "y \<in> evictable_after t {} \<longleftrightarrow> y \<in> evictable_after s {}"
    if "y \<noteq> b" "parent_block_id (obj s r) \<noteq> Some y" for y
  proof -
    have "c \<noteq> b" if "parent_map (backend s) c = Some (Some y)" for c
      using that pb \<open>parent_block_id (obj s r) \<noteq> Some y\<close> by auto
    then have "(\<exists>c. parent_map (backend t) c = Some (Some y)) \<longleftrightarrow>
        (\<exists>c. parent_map (backend s) c = Some (Some y))"
      by (auto simp: minus_block_child [OF m])
    moreover have "obj t = obj s" using m by (simp add: minus_block_def)
    ultimately show ?thesis using \<open>y \<noteq> b\<close>
      by (auto simp: evictable_after_def minus_block_get [OF m])
  qed
  have nb: "b \<notin> evictable_after t {}" by (simp add: evictable_after_def minus_block_get [OF m])
  have np: "p \<notin> evictable_after s {}" if "parent_block_id (obj s r) = Some p" for p
    using pb that by (auto simp: evictable_after_def)
  have pne: "p \<noteq> b" if "parent_block_id (obj s r) = Some p" for p
    using np [OF that] b by auto
  have d: "distinct h1" "set h1 = candidate_for s ` (evictable_after s {} - {b})"
    "set q1 = evictable_after s {} - {b}"
    using h candidate_inj by (auto simp: heap_exact_def h1_def q1_def) (metis imageI)
  have img: "candidate_for s ` (evictable_after s {} - {b}) = candidate_for t ` (evictable_after s {} - {b})"
    by (rule image_cong) (auto simp: cand)
  have "\<exists>hq'. queue_if can_evict t (parent_block_id (obj s r)) (h1, q1) = Inr hq' \<and> heap_exact t hq'"
    (is ?goal)
  proof (cases "parent_block_id (obj s r)")
    case None
    have "y \<in> evictable_after t {} \<longleftrightarrow> y \<in> evictable_after s {} - {b}" for y
      using other [of y] nb None by (cases "y = b") simp_all
    then have "evictable_after t {} = evictable_after s {} - {b}" by blast
    with d img None show ?goal by (simp add: queue_if_def heap_exact_def)
  next
    case (Some p)
    have E: "evictable_after t {} = (evictable_after s {} - {b}) \<union>
        (if p \<in> evictable_after t {} then {p} else {})"
    proof -
      have e: "y \<in> evictable_after t {} \<longleftrightarrow>
          y \<in> evictable_after s {} \<and> y \<noteq> b \<or> y = p \<and> p \<in> evictable_after t {}" for y
        using other [of y] nb np [OF Some] pne [OF Some] Some by (cases "y = b"; cases "y = p") simp_all
      show ?thesis
      proof (rule set_eqI)
        fix y
        show "y \<in> evictable_after t {} \<longleftrightarrow> y \<in> (evictable_after s {} - {b}) \<union>
            (if p \<in> evictable_after t {} then {p} else {})"
          using e [of y] by (cases "p \<in> evictable_after t {}") auto
      qed
    qed
    have notq: "p \<notin> set q1" using np [OF Some] d by auto
    show ?goal
    proof (cases "get_block t p")
      case None
      then have "p \<notin> evictable_after t {}" by (simp add: evictable_after_def)
      with E d img Some notq None show ?goal by (simp add: queue_if_def heap_exact_def)
    next
      case r': (Some q)
      note ce = can_evict_spec [OF ok r']
      show ?goal
      proof (cases "p \<in> evictable_after t {}")
        case False
        then have ce': "can_evict t q = Inr False"
          and E': "evictable_after t {} = evictable_after s {} - {b}"
          using ce E by simp_all
        have "queue_if can_evict t (parent_block_id (obj s r)) (h1, q1) = Inr (h1, q1)"
          using notq by (simp add: queue_if_def Some r' ce')
        with d img show ?goal by (simp add: heap_exact_def E')
      next
        case True
        have cp: "candidate_of (obj t q) p = candidate_for t p"
          using r' by (simp add: candidate_for_def candidate_of_def the_block_def)
        have "candidate_for t p \<notin> set h1"
          using d(2) img np [OF Some] candidate_inj [of t p] by auto
        moreover have "queue_if can_evict t (parent_block_id (obj s r)) (h1, q1)
            = Inr (candidate_for t p # h1, p # q1)"
          using notq by (simp add: queue_if_def Some r' ce True cp)
        moreover have "evictable_after t {} = insert p (evictable_after s {} - {b})"
          using E True by simp
        ultimately show ?goal using d img by (simp add: heap_exact_def)
      qed
    qed
  qed
  then show ?thesis by (simp only: h1_def q1_def)
qed

section \<open>The loop\<close>

abbreviation total_weight :: "(block \<Rightarrow> int) \<Rightarrow> index \<Rightarrow> nat list \<Rightarrow> int" where
  "total_weight weight_of s rs \<equiv> sum_list (map (\<lambda>r. weight_of (obj s r)) rs)"

text \<open>The outcome of an eviction run that started at \<open>s\<close> with weight \<open>w\<close> already evicted.\<close>

definition evicted_greedily ::
    "(block \<Rightarrow> int) \<Rightarrow> int \<Rightarrow> int \<Rightarrow> index \<Rightarrow> bytes list \<Rightarrow> nat list \<Rightarrow> index \<Rightarrow> bool" where
  "evicted_greedily weight_of needed w s ks rs t \<longleftrightarrow>
     index_ok t \<and> map (get_block s) ks = map Some rs \<and> distinct ks \<and> greedy s {} ks
     \<and> set ks \<subseteq> free_set s
     \<and> (\<forall>b. get_block t b = (if b \<in> set ks then None else get_block s b)) \<and> obj t = obj s
     \<and> free_set t = free_set s - set ks
     \<and> (needed \<le> w + total_weight weight_of s rs \<or> free_set t = {})
     \<and> (rs \<noteq> [] \<longrightarrow> w + total_weight weight_of s (butlast rs) < needed)
     \<and> max_blocks t = max_blocks s \<and> block_size t = block_size s \<and> fingerprint t = fingerprint s"

lemma evicted_none:
  "index_ok s \<Longrightarrow> needed \<le> w \<or> free_set s = {} \<Longrightarrow> evicted_greedily weight_of needed w s [] [] s"
  by (simp add: evicted_greedily_def)

lemma evicted_cons:
  assumes b: "b \<in> evictable_after s {}" "\<And>x. x \<in> evictable_after s {} \<Longrightarrow> candidate_for s b \<le> candidate_for s x"
    and r: "get_block s b = Some r" and m: "minus_block s b t" and w: "w < needed"
    and same: "max_blocks t = max_blocks s" "block_size t = block_size s" "fingerprint t = fingerprint s"
    and rest: "evicted_greedily weight_of needed (w + weight_of (obj s r)) t ks rs u"
  shows "evicted_greedily weight_of needed w s (b # ks) (r # rs) u"
proof -
  have o: "obj t = obj s" using m by (simp add: minus_block_def)
  have ft: "free_set t = free_set s - {b}" by (rule freeable_minus [OF m b(1)])
  have bf: "b \<in> free_set s" using evictable_freeable [OF b(1)] by (simp add: free_set_def)
  have bk: "b \<notin> set ks" using rest ft by (auto simp: evicted_greedily_def)
  have "map (get_block s) ks = map (get_block t) ks"
    using bk by (intro map_cong) (auto simp: minus_block_get [OF m])
  also have "\<dots> = map Some rs" using rest by (simp only: evicted_greedily_def)
  finally have "map (get_block s) ks = map Some rs" .
  moreover have "greedy s {b} ks" using rest greedy_minus [OF m, of "{}"] by (simp add: evicted_greedily_def)
  moreover have "total_weight weight_of s (butlast (r # rs)) =
      (if rs = [] then 0 else weight_of (obj s r) + total_weight weight_of s (butlast rs))" by simp
  ultimately show ?thesis
    using rest b r bf bk w ft o same
    by (auto simp: evicted_greedily_def minus_block_get [OF m] add.assoc)
qed

lemma evict_loop_spec:
  assumes "index_ok s" "heap_exact s hq" and pos: "\<And>k. 0 \<le> weight_of k"
  shows "\<exists>ks rs t. evict_loop can_evict bump weight_of needed hq ev w s = (Inr (ev @ rs), t)
      \<and> evicted_greedily weight_of needed w s ks rs t"
  using assms(1,2)
proof (induction "length (blocks s)" arbitrary: s hq ev w rule: less_induct)
  case less
  note ok = less.prems(1)
  show ?case
  proof (cases "needed \<le> w \<or> fst hq = []")
    case True
    then have "needed \<le> w \<or> free_set s = {}"
      using no_evictable_no_free [OF ok] less.prems(2) by (auto simp: heap_exact_def)
    with evicted_none [OF ok this] True show ?thesis
      by (intro exI [of _ "[]"] exI [of _ s]) (simp add: evict_loop.simps)
  next
    case False
    then obtain b where b: "b \<in> evictable_after s {}" "heap_min (fst hq) = candidate_for s b"
      "\<And>x. x \<in> evictable_after s {} \<Longrightarrow> candidate_for s b \<le> candidate_for s x"
      using heap_exact_top [OF less.prems(2)] by metis
    from b(1) obtain r where r: "get_block s b = Some r" "\<not> locally_blocked (obj s r)"
      "\<not> with_child (parent_map (backend s)) b"
      by (auto simp: evictable_after_def with_child_def)
    have key: "stable_block_id (obj s r) = b" by (rule index_okD(6) [OF ok r(1)])
    from remove_from_index_run [OF ok r] obtain t where
      t: "remove_block_from_index b s = (Inr r, t)" "index_ok t" "blocks t = dict_del b (blocks s)"
        "obj t = obj s" "parent_map (backend t) = (parent_map (backend s))(b := None)"
        "block_size t = block_size s" "max_blocks t = max_blocks s" "fingerprint t = fingerprint s"
      by blast
    let ?t = "count_up bump t"
    have m: "minus_block s b ?t" using t by (simp add: minus_block_def)
    have okt: "index_ok ?t" using t by simp
    have pb: "parent_map (backend s) b = Some (parent_block_id (obj s r))"
      using index_okD(5) [OF ok, of b] r by (simp add: the_block_def)
    obtain hq2 where hq2: "queue_if can_evict ?t (parent_block_id (obj s r))
        (remove1 (candidate_for s b) (fst hq), set_discard b (snd hq)) = Inr hq2" "heap_exact ?t hq2"
      using heap_exact_minus [OF okt less.prems(2) b(1) m r(1) pb] by blast
    have "can_evict s r = Inr True" using can_evict_spec [OF ok r(1)] b(1) by simp
    then have step: "evict_loop can_evict bump weight_of needed hq ev w s =
        evict_loop can_evict bump weight_of needed hq2 (ev @ [r]) (w + weight_of (obj s r)) ?t"
      using False r(1) key t(1) hq2(1) pos [of "obj s r"]
      by (subst evict_loop.simps) (simp add: b(2) candidate_key Let_def leD)
    have "length (blocks ?t) < length (blocks s)" using remove_length [OF t(1)] by simp
    from less.hyps [OF this okt hq2(2), of "ev @ [r]" "w + weight_of (obj s r)"] obtain ks rs u where
      u: "evict_loop can_evict bump weight_of needed hq2 (ev @ [r]) (w + weight_of (obj s r)) ?t =
          (Inr ((ev @ [r]) @ rs), u)"
        "evicted_greedily weight_of needed (w + weight_of (obj s r)) ?t ks rs u" by blast
    have "evicted_greedily weight_of needed w s (b # ks) (r # rs) u"
      by (rule evicted_cons [OF b(1) b(3) r(1) m _ _ _ _ u(2)]) (use False t in auto)
    with u(1) step show ?thesis by (intro exI [of _ "b # ks"] exI [of _ "r # rs"] exI [of _ u]) simp
  qed
qed

section \<open>Queueing the leaves\<close>

lemma queue_all_leaves:
  assumes ok: "index_ok s"
    and inv: "distinct h" "set h = candidate_for s ` set q" "set q \<subseteq> evictable_after s {}"
    and bs: "\<And>b. b \<in> set bs \<Longrightarrow> get_block s b \<noteq> None"
  shows "\<exists>h' q'. queue_all can_evict s bs (h, q) = Inr (h', q') \<and> distinct h'
      \<and> set h' = candidate_for s ` set q' \<and> set q' = set q \<union> (set bs \<inter> evictable_after s {})"
  using inv bs
proof (induction bs arbitrary: h q)
  case (Cons b bs)
  from Cons.prems(4) [of b] obtain r where r: "get_block s b = Some r" by auto
  have cand: "candidate_of (obj s r) b = candidate_for s b"
    using r by (simp add: candidate_for_def candidate_of_def the_block_def)
  note ce = can_evict_spec [OF ok r]
  show ?case
  proof (cases "b \<in> set q \<or> b \<notin> evictable_after s {}")
    case True
    then have "queue_if can_evict s (Some b) (h, q) = Inr (h, q)"
      using r ce by (auto simp: queue_if_def)
    moreover obtain h' q' where "queue_all can_evict s bs (h, q) = Inr (h', q')" "distinct h'"
      "set h' = candidate_for s ` set q'" "set q' = set q \<union> (set bs \<inter> evictable_after s {})"
      using Cons.IH [OF Cons.prems(1-3)] Cons.prems(4) by auto
    ultimately show ?thesis using True Cons.prems(3) by auto
  next
    case False
    then have q: "queue_if can_evict s (Some b) (h, q) = Inr (candidate_for s b # h, b # q)"
      using r ce cand by (simp add: queue_if_def)
    have d: "distinct (candidate_for s b # h)"
      using Cons.prems(1,2) False candidate_inj [of s b] by auto
    have sh: "set (candidate_for s b # h) = candidate_for s ` set (b # q)" using Cons.prems(2) by simp
    have sq: "set (b # q) \<subseteq> evictable_after s {}" using Cons.prems(3) False by simp
    obtain h' q' where "queue_all can_evict s bs (candidate_for s b # h, b # q) = Inr (h', q')"
      "distinct h'" "set h' = candidate_for s ` set q'"
      "set q' = set (b # q) \<union> (set bs \<inter> evictable_after s {})"
      using Cons.IH [OF d sh sq] Cons.prems(4) by auto
    with q False show ?thesis by auto
  qed
qed auto

lemma queue_leaves_exact:
  assumes ok: "index_ok s"
  shows "\<exists>hq. queue_all can_evict s (leaf_block_ids (backend s)) ([], []) = Inr hq \<and> heap_exact s hq"
proof -
  let ?ls = "leaf_block_ids (backend s)"
  have l: "b \<in> set ?ls \<longleftrightarrow> get_block s b \<noteq> None \<and> \<not> with_child (parent_map (backend s)) b" for b
    using radix.leaves_law [OF index_okD(2) [OF ok]] in_index_tree [OF ok] by simp
  obtain h q where hq: "queue_all can_evict s ?ls ([], []) = Inr (h, q)" "distinct h"
    "set h = candidate_for s ` set q" "set q = set ?ls \<inter> evictable_after s {}"
    using queue_all_leaves [OF ok, of "[]" "[]" ?ls] l by auto
  moreover have "evictable_after s {} \<subseteq> set ?ls"
    using l by (auto simp: evictable_after_def with_child_def)
  ultimately show ?thesis by (intro exI [of _ "(h, q)"]) (auto simp: heap_exact_def)
qed

text \<open>
  The whole operation: it returns, keeps the invariant, evicts greedily, frees enough weight
  or everything that can be freed, and never one block more than it needs.
\<close>

theorem evict_until_weight_spec:
  assumes ok: "index_ok s" and pos: "\<And>k. 0 \<le> weight_of k"
  shows "\<exists>ks rs t. evict_until_weight needed weight_of s = (Inr rs, t)
      \<and> evicted_greedily weight_of needed 0 s ks rs t"
proof (cases "needed \<le> 0")
  case True
  with evicted_none [OF ok, of needed 0 weight_of] show ?thesis
    by (intro exI [of _ "[]"] exI [of _ s]) (simp add: evict_until_weight_def)
next
  case False
  from queue_leaves_exact [OF ok] obtain hq where
    hq: "queue_all can_evict s (leaf_block_ids (backend s)) ([], []) = Inr hq" "heap_exact s hq" by blast
  from evict_loop_spec [OF ok hq(2) pos,
      where bump = "\<lambda>c. c\<lparr>evicted_blocks := evicted_blocks c + 1\<rparr>" and needed = needed and ev = "[]" and w = 0]
    hq(1) False show ?thesis by (simp add: evict_until_weight_def)
qed

theorem evict_until_freeable_count:
  assumes ok: "index_ok s"
  shows "\<exists>ks rs t. evict_until_freeable needed s = (Inr rs, t)
      \<and> evicted_greedily (\<lambda>_. 1) needed 0 s ks rs t
      \<and> length rs = min (nat needed) (card (free_set s))"
proof -
  from evict_until_weight_spec [OF ok, of "\<lambda>_. 1" needed] obtain ks rs t where
    e: "evict_until_weight needed (\<lambda>_. 1) s = (Inr rs, t)" "evicted_greedily (\<lambda>_. 1) needed 0 s ks rs t"
    by auto
  have w: "total_weight (\<lambda>_. 1) s xs = int (length xs)" for xs by (induction xs) auto
  have len: "length rs = length ks" using e(2) by (metis evicted_greedily_def length_map)
  have sub: "length ks = card (set ks)" "set ks \<subseteq> free_set s"
    using e(2) by (auto simp: evicted_greedily_def distinct_card)
  then have le: "length rs \<le> card (free_set s)" using card_mono [OF finite_free_set] len by simp
  have full: "needed \<le> int (length rs) \<or> length rs = card (free_set s)"
    using e(2) w sub len by (auto simp: evicted_greedily_def)
  have "int (length rs) \<le> max 0 needed"
    using e(2) w [of "butlast rs"] by (cases "rs = []") (auto simp: evicted_greedily_def)
  with full le have "length rs = min (nat needed) (card (free_set s))" by linarith
  with e show ?thesis unfolding evict_until_freeable_def by blast
qed

theorem ensure_insert_capacity_spec:
  assumes ok: "index_ok s" and m: "max_blocks s = Some m" and n: "0 < needed"
  defines "over \<equiv> int (length (blocks s)) + needed - m"
  shows "(over \<le> int (card (free_set s)) \<longrightarrow>
            (\<exists>rs t. ensure_insert_capacity needed s = (Inr rs, t) \<and> index_ok t
               \<and> int (length (blocks t)) + needed \<le> m
               \<and> int (length rs) = max 0 over))
       \<and> (int (card (free_set s)) < over \<longrightarrow>
            (\<exists>e t. ensure_insert_capacity needed s = (Inl (RuntimeError e), t) \<and> index_ok t))"
proof -
  from evict_until_freeable_count [OF ok, of over] obtain ks rs t where
    e: "evict_until_freeable over s = (Inr rs, t)" "evicted_greedily (\<lambda>_. 1) over 0 s ks rs t"
      "length rs = min (nat over) (card (free_set s))" by blast
  have okt: "index_ok t" using e(2) by (simp add: evicted_greedily_def)
  have len: "length rs = length ks" using e(2) by (metis evicted_greedily_def length_map)
  have gt: "get_block t b = (if b \<in> set ks then None else get_block s b)" for b
    using e(2) by (simp add: evicted_greedily_def)
  have ksin: "set ks \<subseteq> dom (get_block s)"
    using e(2) freeable_indexed by (auto simp: evicted_greedily_def free_set_def)
  have "dom (get_block t) = dom (get_block s) - set ks" by (auto simp: dom_def gt)
  then have "length (blocks t) = length (blocks s) - length ks"
    using dict_len_card [OF index_okD(4) [OF ok]] dict_len_card [OF index_okD(4) [OF okt]] ksin e(2)
    by (simp add: card_Diff_subset evicted_greedily_def distinct_card)
  moreover have "length ks \<le> length (blocks s)"
    using ksin dict_len_card [OF index_okD(4) [OF ok]] e(2)
    by (metis card_mono distinct_card evicted_greedily_def finite_dom_map_of)
  ultimately have lt: "int (length (blocks t)) = int (length (blocks s)) - int (length rs)"
    using len by linarith
  show ?thesis
  proof (cases "over \<le> 0")
    case True
    with ok m n show ?thesis by (auto simp: ensure_insert_capacity_def over_def Let_def)
  next
    case False
    have run: "ensure_insert_capacity needed s = (if int (length rs) \<noteq> over
        then (Inl (RuntimeError ''Prefix cache capacity exceeded and not enough blocks are evictable: ''),
              snd (evictable_block_ids t)) else (Inr rs, t))"
      using False m n e(1) by (simp add: ensure_insert_capacity_def over_def Let_def)
    show ?thesis
    proof (intro conjI impI)
      assume "over \<le> int (card (free_set s))"
      with e(3) False have "int (length rs) = over" by linarith
      with run okt lt False show "\<exists>rs t. ensure_insert_capacity needed s = (Inr rs, t) \<and> index_ok t
          \<and> int (length (blocks t)) + needed \<le> m \<and> int (length rs) = max 0 over"
        by (intro exI [of _ rs] exI [of _ t]) (simp add: over_def)
    next
      assume "int (card (free_set s)) < over"
      with e(3) False have "int (length rs) \<noteq> over" by linarith
      with run okt show "\<exists>e t. ensure_insert_capacity needed s = (Inl (RuntimeError e), t) \<and> index_ok t"
        by simp
    qed
  qed
qed

end
