(* ===== verification/Prefix_System.thy ===== *)
theory Prefix_System
  imports Prefix_Eviction_Correct
begin

text \<open>
  The whole \<open>RadixPrefixIndex\<close> as a state machine: every public operation as a step. The index
  invariant holds in every reachable state, so the facts proved from it hold for any use of the
  class; only the block objects not (yet) indexed may be written from outside.
\<close>

section \<open>The remaining operations keep the invariant\<close>

lemma index_ok_cache [simp]:
  "index_ok (s\<lparr>device_reclaimable_cache := c\<rparr>) = index_ok s"
  "index_ok (s\<lparr>device_freeable_cache := c\<rparr>) = index_ok s"
  "index_ok (s\<lparr>freeable_cache := c\<rparr>) = index_ok s"
  by (rule index_ok_cong; simp)+

lemma payload_compacted_ok: "index_ok s \<Longrightarrow> index_ok (snd (mark_payload_compacted rs s))"
  by (simp add: mark_payload_compacted_def)

lemma lookups_ok:
  assumes "index_ok s"
  shows "index_ok (snd (block_ids_for_tokens H ts mx s))" "index_ok (snd (match_longest_prefix H ts n s))"
    "index_ok (snd (lookup_longest_block_ids ids s))" "index_ok (snd (lookup_longest_prefix H ts n s))"
proof -
  show b: "index_ok (snd (block_ids_for_tokens H ts mx s))" for mx
    using assms by (simp add: block_ids_for_tokens_def)
  obtain x t where x: "block_ids_for_tokens H ts (Some n) s = (x, t)" by fastforce
  then have t: "index_ok t" using b [of "Some n"] by simp
  show "index_ok (snd (match_longest_prefix H ts n s))"
    using x t by (cases x) (simp_all add: match_longest_prefix_def)
  have l: "index_ok t \<Longrightarrow> index_ok (snd (lookup_longest_block_ids ids t))" for ids t
    by (simp add: lookup_longest_block_ids_def Let_def split: prod.splits sum.splits)
  show "index_ok (snd (lookup_longest_block_ids ids s))" using l assms by blast
  show "index_ok (snd (lookup_longest_prefix H ts n s))"
    using x t l by (cases x) (simp_all add: lookup_longest_prefix_def)
qed

lemma snapshot_ok: "index_ok s \<Longrightarrow> index_ok (snd (get_routing_snapshot m s))"
proof -
  assume ok: "index_ok s"
  have f: "index_ok (snd (fresh_snapshot m s))"
  proof -
    let ?snap = "\<lparr>snap_supported = True, snap_enabled = True, snap_method = m,
             snap_block_size = Some (block_size s), snap_fingerprint = fingerprint s,
             snap_block_ids = [], snap_membership = Some (routing s), snap_reason = None\<rparr>"
    have tb: "the_block (s\<lparr>snapshot_cache := Some ?snap\<rparr>) = the_block s" by (rule ext) (simp add: the_block_def)
    have po: "parent_of (s\<lparr>snapshot_cache := Some ?snap\<rparr>) = parent_of s"
      by (rule ext) (simp add: parent_of_def tb split: option.split)
    have "index_ok (s\<lparr>snapshot_cache := Some ?snap\<rparr>)"
      using ok by (simp add: index_defs tb po)
    then show ?thesis using ok by (simp add: fresh_snapshot_def Let_def)
  qed
  show ?thesis
  proof (cases "snapshot_cache s")
    case None
    then show ?thesis using f by (simp add: get_routing_snapshot_def)
  next
    case (Some snap)
    then show ?thesis using f ok by (simp add: get_routing_snapshot_def)
  qed
qed

lemma touch_chain_ok: "index_ok s \<Longrightarrow> index_ok (touch_chain rs s)"
proof -
  assume ok: "index_ok s"
  have "index_ok t \<Longrightarrow> index_ok (fold (\<lambda>r. upd_obj r (\<lambda>b. b\<lparr>last_access := a\<rparr>)) rs t)" for a t
  proof (induction rs arbitrary: t)
    case (Cons r rs)
    have "index_ok (upd_obj r (\<lambda>b. b\<lparr>last_access := a\<rparr>) t)"
      by (rule index_ok_inert [OF Cons.prems]) (simp add: inert_def)
    then show ?case using Cons.IH by simp
  qed simp
  then show ?thesis using ok by (simp add: touch_chain_def tick_def)
qed

lemma insert_block_ok:
  assumes ok: "index_ok s" and rc: "0 \<le> ref_count (obj s r)"
  shows "index_ok (snd (insert_block r s))"
proof -
  let ?b = "obj s r"
  show ?thesis
  proof (cases "validate (residency ?b)")
    case (Inl e)
    then show ?thesis using ok by (simp add: insert_block_def Let_def)
  next
    case valid: (Inr u)
    then have v: "validate (residency ?b) = Inr ()" by simp
    show ?thesis
    proof (cases "get_block s (stable_block_id ?b)")
      case (Some x)
      have "index_ok (upd_obj x (\<lambda>k. k\<lparr>last_access := a\<rparr>) t)" if "index_ok t" for a t
        by (rule index_ok_inert [OF that]) (simp add: inert_def)
      then show ?thesis using v Some ok by (simp add: insert_block_def Let_def tick_def)
    next
      case None
      show ?thesis
      proof (cases "\<exists>m. max_blocks s = Some m \<and> m \<le> int (length (blocks s))")
        case True
        then show ?thesis using v None ok by (auto simp: insert_block_def Let_def)
      next
        case cap: False
        show ?thesis
        proof (cases "insert_admissible s ?b")
          case (Inl e)
          then show ?thesis using v None ok cap
            by (auto simp: insert_block_def Let_def not_le split: option.splits)
        next
          case (Inr u)
          then have a: "insert_admissible s ?b = Inr ()" by simp
          have c: "int (length (blocks s)) < m" if "max_blocks s = Some m" for m using cap that by force
          show ?thesis using insert_block_run [OF ok None v rc c a] by auto
        qed
      qed
    qed
  qed
qed

lemma remove_keeps: "remove_block_from_index b s = (x, t) \<Longrightarrow> index_ok s \<Longrightarrow> index_ok t"
  using remove_block_from_index_ok [of s b] by simp

lemma rollback_ok:
  assumes ok: "index_ok s"
  shows "index_ok (snd (rollback_inserted_leaf r s))"
proof -
  let ?key = "stable_block_id (obj s r)"
  have rm: "keeps index_ok (remove_block_from_index ?key)"
    by (rule keepsI) (rule remove_block_from_index_ok)
  have "keeps index_ok (bindE (remove_block_from_index ?key)
      (\<lambda>_. modifyE (count_up (\<lambda>c. c\<lparr>committed_blocks := committed_blocks c - 1\<rparr>))))"
    by (rule keeps_bind [OF rm]) (rule keeps_modify, simp)
  from keepsD [OF this ok]
  show ?thesis using ok by (simp add: rollback_inserted_leaf_def Let_def split: sum.splits)
qed

lemma evict_loop_ok:
  "index_ok s \<Longrightarrow> index_ok (snd (evict_loop test bump w n hq ev ew s))"
proof (induction test bump w n hq ev ew s rule: evict_loop.induct)
  case (1 test bump w n hq ev ew s)
  note IH = "1.IH" and ok = "1.prems"
  let ?key = "snd (snd (heap_min (fst hq)))"
  let ?hq1 = "(remove1 (heap_min (fst hq)) (fst hq), set_discard ?key (snd hq))"
  show ?case
  proof (cases "n \<le> ew \<or> fst hq = []")
    case True
    then show ?thesis using ok by (subst evict_loop.simps) simp
  next
    case go: False
    show ?thesis
    proof (cases "get_block s ?key")
      case None
      have "evict_loop test bump w n hq ev ew s = evict_loop test bump w n ?hq1 ev ew s"
        using go None by (subst evict_loop.simps) (simp add: Let_def)
      then show ?thesis using IH(1) [OF go refl refl refl None ok] by simp
    next
      case (Some r)
      show ?thesis
      proof (cases "test s r")
        case (Inl e)
        then show ?thesis using go Some ok by (subst evict_loop.simps) (simp add: Let_def)
      next
        case ready: (Inr rd)
        show ?thesis
        proof (cases rd)
          case False
          have "evict_loop test bump w n hq ev ew s = evict_loop test bump w n ?hq1 ev ew s"
            using go Some ready False by (subst evict_loop.simps) (simp add: Let_def)
          then show ?thesis using IH(2) [OF go refl refl refl Some ready] False ok by simp
        next
          case True
          show ?thesis
          proof (cases "w (obj s r) < 0")
            case True
            then show ?thesis using go Some ready \<open>rd\<close> ok by (subst evict_loop.simps) (simp add: Let_def)
          next
            case nw: False
            obtain x t where rm: "remove_block_from_index (stable_block_id (obj s r)) s = (x, t)" by fastforce
            have tok: "index_ok t" by (rule remove_keeps [OF rm ok])
            show ?thesis
            proof (cases x)
              case (Inl e)
              then show ?thesis using go Some ready \<open>rd\<close> nw rm tok
                by (subst evict_loop.simps) (simp add: Let_def)
            next
              case (Inr gone)
              show ?thesis
              proof (cases "queue_if test (count_up bump t) (parent_block_id (obj s r)) ?hq1")
                case (Inl e)
                then show ?thesis using go Some ready \<open>rd\<close> nw rm \<open>x = Inr gone\<close> tok
                  by (subst evict_loop.simps) (simp add: Let_def)
              next
                case (Inr hq2)
                have "evict_loop test bump w n hq ev ew s
                    = evict_loop test bump w n hq2 (ev @ [gone]) (ew + w (obj s r)) (count_up bump t)"
                  using go Some ready \<open>rd\<close> nw rm \<open>x = Inr gone\<close> Inr
                  by (subst evict_loop.simps) (simp add: Let_def)
                moreover have "index_ok (count_up bump t)" using tok by simp
                ultimately show ?thesis
                  using IH(3) [OF go refl refl refl Some ready] nw rm \<open>x = Inr gone\<close> Inr \<open>rd\<close> by simp
              qed
            qed
          qed
        qed
      qed
    qed
  qed
qed

lemma evictions_ok:
  assumes ok: "index_ok s"
  shows "index_ok (snd (evict_until_weight n w s))" "index_ok (snd (evict_until_freeable n s))"
    "index_ok (snd (evict_host_until_freeable n s))" "index_ok (snd (ensure_insert_capacity n s))"
proof -
  show w: "index_ok (snd (evict_until_weight n w s))" for n w
    using ok by (simp add: evict_until_weight_def evict_loop_ok split: sum.splits)
  show f: "index_ok (snd (evict_until_freeable n s))" for n
    using w by (simp add: evict_until_freeable_def)
  show "index_ok (snd (evict_host_until_freeable n s))"
    using ok by (simp add: evict_host_until_freeable_def evict_loop_ok split: sum.splits)
  show "index_ok (snd (ensure_insert_capacity n s))"
    using ok f [of "int (length (blocks s)) + n - the (max_blocks s)"]
    by (auto simp: ensure_insert_capacity_def Let_def split: option.splits prod.splits sum.splits)
qed

text \<open>Demotion drops the device copy of a block whose children have none.\<close>

lemma demote_block_ok:
  assumes ok: "index_ok s" and r: "get_block s b = Some r" and d: "can_demote_device s r = Inr True"
  shows "index_ok (demote_block r s)"
proof -
  let ?rs = "(residency (obj s r))\<lparr>device_present := False\<rparr>"
  have key: "stable_block_id (obj s r) = b" by (rule index_okD(6) [OF ok r])
  have rs: "host_present (residency (obj s r))" "transfer (residency (obj s r)) = None"
    "device_child_count s b = Inr 0"
    using d key by (auto simp: can_demote_device_def Let_def split: if_splits sum.splits)
  have v: "validate ?rs = Inr ()" using rs by (simp add: validate_cases)
  note rc = residency_cases [OF ok r]
  have up: "(device_present ?rs \<longrightarrow> device_present (residency p)) \<and> (host_present ?rs \<longrightarrow> host_present (residency p))"
    if "parent_of s (obj s r) = Some p" for p using rc(1) [OF that] by simp
  have down: "(device_present (residency k) \<longrightarrow> device_present ?rs) \<and> (host_present (residency k) \<longrightarrow> host_present ?rs)"
    if c: "the_block s c = Some k" "parent_block_id k = Some b" for c k
    using rc(2) [OF c] device_child_free [OF ok _ rs(3) c] r rs(1) by simp
  have "demote_block r s = upd_obj r (\<lambda>k. k\<lparr>residency := ?rs\<rparr>) s"
    by (simp add: demote_block_def upd_obj_def)
  then show ?thesis using index_ok_residency [OF ok r v up down] by simp
qed

lemma demote_loop_ok:
  "index_ok s \<Longrightarrow> index_ok (snd (demote_loop w n hq dm dw s))"
proof (induction w n hq dm dw s rule: demote_loop.induct)
  case (1 w n hq dm dw s)
  note IH = "1.IH" and ok = "1.prems"
  let ?key = "snd (snd (heap_min (fst hq)))"
  let ?hq1 = "(remove1 (heap_min (fst hq)) (fst hq), set_discard ?key (snd hq))"
  show ?case
  proof (cases "n \<le> dw \<or> fst hq = []")
    case True
    then show ?thesis using ok by (subst demote_loop.simps) simp
  next
    case go: False
    show ?thesis
    proof (cases "get_block s ?key")
      case None
      have "demote_loop w n hq dm dw s = demote_loop w n ?hq1 dm dw s"
        using go None by (subst demote_loop.simps) (simp add: Let_def)
      then show ?thesis using IH(1) [OF go refl refl refl None ok] by simp
    next
      case (Some r)
      show ?thesis
      proof (cases "can_demote_device s r")
        case (Inl e)
        then show ?thesis using go Some ok by (subst demote_loop.simps) (simp add: Let_def)
      next
        case ready: (Inr rd)
        show ?thesis
        proof (cases rd)
          case False
          have "demote_loop w n hq dm dw s = demote_loop w n ?hq1 dm dw s"
            using go Some ready False by (subst demote_loop.simps) (simp add: Let_def)
          then show ?thesis using IH(2) [OF go refl refl refl Some ready] False ok by simp
        next
          case True
          then have rdy: "can_demote_device s r = Inr True" using ready by simp
          show ?thesis
          proof (cases "w (obj s r) < 0")
            case True
            then show ?thesis using go Some rdy ok by (subst demote_loop.simps) (simp add: Let_def)
          next
            case nw: False
            let ?s1 = "demote_block r s"
            let ?t = "mark_capacity_mutated (count_up
                (\<lambda>c. c\<lparr>device_demoted_blocks := device_demoted_blocks c + 1\<rparr>) ?s1)"
            have sok: "index_ok ?s1" by (rule demote_block_ok [OF ok Some rdy])
            then have tok: "index_ok ?t" by simp
            show ?thesis
            proof (cases "validate (residency (obj ?s1 r))")
              case (Inl e)
              then show ?thesis using go Some rdy nw sok by (subst demote_loop.simps) (simp add: Let_def)
            next
              case v: (Inr u)
              show ?thesis
              proof (cases "queue_if can_demote_device ?t (parent_block_id (obj s r)) ?hq1")
                case (Inl e)
                then show ?thesis using go Some rdy nw v tok by (subst demote_loop.simps) (simp add: Let_def)
              next
                case (Inr hq2)
                have "demote_loop w n hq dm dw s = demote_loop w n hq2 (dm @ [r]) (dw + w (obj s r)) ?t"
                  using go Some rdy nw v Inr by (subst demote_loop.simps) (simp add: Let_def)
                then show ?thesis
                  using IH(3) [OF go refl refl refl Some rdy _ nw refl v refl Inr tok] by simp
              qed
            qed
          qed
        qed
      qed
    qed
  qed
qed

lemma demote_device_ok: "index_ok s \<Longrightarrow> index_ok (snd (demote_device_until_weight n w s))"
  by (simp add: demote_device_until_weight_def demote_loop_ok split: sum.splits)

lemma scans_ok:
  assumes "index_ok s"
  shows "index_ok (snd (device_reclaimable_block_ids fl s))" "index_ok (snd (freeable_block_ids s))"
  using assms by (simp_all add: device_reclaimable_block_ids_def freeable_block_ids_def Let_def
      split: sum.splits option.splits)

lemma exact_subtree_ok: "index_ok s \<Longrightarrow> index_ok (snd (exact_subtree_ids H ts s))"
proof -
  assume ok: "index_ok s"
  obtain x t where x: "block_ids_for_tokens H ts None s = (x, t)" by fastforce
  then have "index_ok t" using lookups_ok(1) [OF ok, of H ts None] by simp
  then show ?thesis using x
    by (cases x) (simp_all add: exact_subtree_ids_def split: sum.splits prod.splits option.splits)
qed

lemma preview_delete_ok: "index_ok s \<Longrightarrow> index_ok (snd (preview_delete_subtree H ts s))"
proof -
  assume ok: "index_ok s"
  obtain x t where x: "exact_subtree_ids H ts s = (x, t)" by fastforce
  then have t: "index_ok t" using exact_subtree_ok [OF ok, of H ts] by simp
  show ?thesis
  proof (cases x)
    case (Inr o1)
    then show ?thesis using x t
      by (cases o1) (simp_all add: preview_delete_subtree_def split: sum.splits)
  qed (use x t in \<open>simp add: preview_delete_subtree_def\<close>)
qed

lemma apply_delete_ok: "index_ok s \<Longrightarrow> index_ok (snd (apply_delete ps acc s))"
proof (induction ps acc s rule: apply_delete.induct)
  case (2 r key rest acc s)
  obtain x t where x: "remove_block_from_index key s = (x, t)" by fastforce
  have t: "index_ok t" by (rule remove_keeps [OF x "2.prems"])
  show ?case
  proof (cases "get_block s key = Some r")
    case True
    then show ?thesis using x t "2.IH" "2.prems" by (cases x) simp_all
  qed (use "2.prems" in simp)
qed simp

lemma safe_delete_ok: "index_ok s \<Longrightarrow> index_ok (snd (safe_delete_subtree H ts s))"
proof -
  assume ok: "index_ok s"
  let ?s1 = "count_up (\<lambda>c. c\<lparr>control_delete_requests := control_delete_requests c + 1\<rparr>) s"
  obtain x t where x: "preview_delete_subtree H ts ?s1 = (x, t)" by fastforce
  then have t: "index_ok t" using preview_delete_ok [of ?s1 H ts] ok by simp
  show ?thesis
  proof (cases x)
    case (Inr d)
    obtain y u where y: "apply_delete (map (\<lambda>r. (r, stable_block_id (obj t r))) (planned d)) [] t = (y, u)"
      by fastforce
    then have "index_ok u" using apply_delete_ok [OF t] by (metis snd_conv)
    then show ?thesis using x Inr y by (cases y) (simp_all add: safe_delete_subtree_def Let_def)
  qed (use x t in \<open>simp add: safe_delete_subtree_def Let_def\<close>)
qed

lemma set_priorities_ok: "index_ok s \<Longrightarrow> index_ok (snd (set_priorities p bs acc s))"
proof (induction p bs acc s rule: set_priorities.induct)
  case (2 p b bs n changed cc s)
  have w: "index_ok (upd_obj r (\<lambda>k. k\<lparr>eviction_priority := p\<rparr>) s)" for r
    by (rule index_ok_inert [OF "2.prems"]) (simp add: inert_def)
  show ?case
  proof (cases "get_block s b")
    case None
    then show ?thesis using "2.IH"(1) "2.prems" by simp
  next
    case (Some r)
    then show ?thesis using "2.IH"(2,3) [OF Some refl] "2.prems" w by (simp add: Let_def)
  qed
qed simp

lemma set_subtree_priority_ok: "index_ok s \<Longrightarrow> index_ok (snd (set_subtree_eviction_priority H ts p s))"
proof -
  assume ok: "index_ok s"
  let ?s1 = "count_up (\<lambda>c. c\<lparr>control_priority_updates := control_priority_updates c + 1\<rparr>) s"
  obtain x t where x: "block_ids_for_tokens H ts None ?s1 = (x, t)" by fastforce
  then have t: "index_ok t" using lookups_ok(1) [of ?s1 H ts None] ok by simp
  have sp: "index_ok (snd (case set_priorities p bs a t of
      ((n, c, cc), u) \<Rightarrow> (g n, if cc then mark_capacity_mutated u else if c then mark_mutated u else u)))"
    for bs a and g :: "nat \<Rightarrow> priority_result res"
    using set_priorities_ok [OF t, of p bs a] by (auto split: prod.splits)
  show ?thesis
    using x t sp by (cases x)
      (simp_all add: set_subtree_eviction_priority_def Let_def split: sum.splits prod.splits option.splits)
qed

section \<open>Reachable states\<close>

text \<open>
  Every use of a \<open>RadixPrefixIndex\<close>: it is built, block objects outside the index are written
  freely (\<open>prepare\<close>), and the public operations are called in any order with any arguments,
  whether they succeed or raise. \<open>H\<close> is the hash behind the block ids.
\<close>

inductive index_run :: "(bytes \<Rightarrow> bytes) \<Rightarrow> index \<Rightarrow> bool" for H where
  make: "make_index bs fp cap h = Inr s \<Longrightarrow> index_run H s"
| prepare: "index_run H s \<Longrightarrow> \<forall>b. get_block s b \<noteq> Some r \<Longrightarrow> index_run H (upd_obj r f s)"
| insert: "index_run H s \<Longrightarrow> 0 \<le> ref_count (obj s r) \<Longrightarrow> index_run H (snd (insert_block r s))"
| remove: "index_run H s \<Longrightarrow> index_run H (snd (remove_block_from_index b s))"
| rollback: "index_run H s \<Longrightarrow> index_run H (snd (rollback_inserted_leaf r s))"
| ref: "index_run H s \<Longrightarrow> index_run H (snd (set_block_ref_count r n e s))"
| compacted: "index_run H s \<Longrightarrow> index_run H (snd (mark_payload_compacted rs s))"
| lookup: "index_run H s \<Longrightarrow> index_run H (snd (lookup_longest_block_ids ids s))"
| lookup_tokens: "index_run H s \<Longrightarrow> index_run H (snd (lookup_longest_prefix H ts n s))"
| match_tokens: "index_run H s \<Longrightarrow> index_run H (snd (match_longest_prefix H ts n s))"
| ids: "index_run H s \<Longrightarrow> index_run H (snd (block_ids_for_tokens H ts mx s))"
| snapshot: "index_run H s \<Longrightarrow> index_run H (snd (get_routing_snapshot m s))"
| touch: "index_run H s \<Longrightarrow> index_run H (touch_chain rs s)"
| begin_out: "index_run H s \<Longrightarrow> index_run H (snd (begin_d2h r s))"
| finish_out: "index_run H s \<Longrightarrow> index_run H (snd (finish_d2h r s))"
| abort_out: "index_run H s \<Longrightarrow> index_run H (snd (abort_d2h r s))"
| begin_in: "index_run H s \<Longrightarrow> index_run H (snd (begin_h2d r s))"
| finish_in: "index_run H s \<Longrightarrow> index_run H (snd (finish_h2d r s))"
| abort_in: "index_run H s \<Longrightarrow> index_run H (snd (abort_h2d r s))"
| evictable: "index_run H s \<Longrightarrow> index_run H (snd (evictable_block_ids s))"
| free_scan: "index_run H s \<Longrightarrow> index_run H (snd (freeable_block_ids s))"
| device_scan: "index_run H s \<Longrightarrow> index_run H (snd (device_reclaimable_block_ids fl s))"
| evict: "index_run H s \<Longrightarrow> index_run H (snd (evict_until_weight n w s))"
| evict_host: "index_run H s \<Longrightarrow> index_run H (snd (evict_host_until_freeable n s))"
| make_room: "index_run H s \<Longrightarrow> index_run H (snd (ensure_insert_capacity n s))"
| demote: "index_run H s \<Longrightarrow> index_run H (snd (demote_device_until_weight n w s))"
| preview: "index_run H s \<Longrightarrow> index_run H (snd (preview_delete_subtree H ts s))"
| delete: "index_run H s \<Longrightarrow> index_run H (snd (safe_delete_subtree H ts s))"
| priority: "index_run H s \<Longrightarrow> index_run H (snd (set_subtree_eviction_priority H ts p s))"

lemma index_run_ok: "index_run H s \<Longrightarrow> index_ok s"
proof (induction rule: index_run.induct)
  case (make bs fp cap h s)
  then show ?case by (rule index_ok_make)
next
  case (prepare s r f)
  then show ?case using unindexed_write by blast
qed (simp_all add: insert_block_ok remove_block_from_index_ok rollback_ok set_block_ref_count_ok
    payload_compacted_ok lookups_ok snapshot_ok touch_chain_ok transfers_ok scans_ok evictions_ok
    demote_device_ok preview_delete_ok safe_delete_ok set_subtree_priority_ok)

text \<open>The invariant in the vocabulary of the class.\<close>

lemma index_facts:
  assumes ok: "index_ok s"
  shows "(\<forall>b. parent_map (backend s) b = map_option (\<lambda>r. parent_block_id (obj s r)) (get_block s b))
    \<and> (\<forall>b r. get_block s b = Some r \<longrightarrow> stable_block_id (obj s r) = b \<and> 0 \<le> ref_count (obj s r)
         \<and> validate (residency (obj s r)) = Inr ())
    \<and> (\<forall>b. membership_contains (routing s) b \<longleftrightarrow> get_block s b \<noteq> None)
    \<and> live_blocks (routing s) = length (blocks s)
    \<and> (\<forall>m. max_blocks s = Some m \<longrightarrow> int (length (blocks s)) \<le> m)
    \<and> (\<forall>b r p. get_block s b = Some r \<and> parent_of s (obj s r) = Some p \<longrightarrow>
         (device_present (residency (obj s r)) \<longrightarrow> device_present (residency p))
         \<and> (host_present (residency (obj s r)) \<longrightarrow> host_present (residency p)))
    \<and> radix_ok (backend s) \<and> membership_ok (routing s) \<and> snapshot_current s"
proof -
  note k = index_okD [OF ok]
  have m: "membership_ok (routing s)" by (rule k(3))
  have dom: "membership_set (routing s) = dom (get_block s)" using k(7) by auto
  have "live_blocks (routing s) = length (blocks s)"
    using membership.size_card [OF m] dict_len_card [OF k(4)] by (simp only: dom)
  moreover have "membership_contains (routing s) b \<longleftrightarrow> get_block s b \<noteq> None" for b
    using membership.contains_elems [OF m, of b] k(7) [of b] by simp
  moreover have "parent_map (backend s) b = map_option (\<lambda>r. parent_block_id (obj s r)) (get_block s b)" for b
    using k(5) [of b] by (simp add: the_block_def option.map_comp comp_def)
  moreover have tb: "get_block s b = Some r \<Longrightarrow> the_block s b = Some (obj s r)" for b r
    by (simp add: the_block_def)
  moreover have "snapshot_current s" using ok by (simp add: index_ok_def)
  ultimately show ?thesis using k(2,6,8-12) m by blast
qed

section \<open>Packing and unpacking\<close>

lemma pack_roundtrip:
  "case pack_token_ids ts of
      Inr b \<Rightarrow> length b = 8 * length ts \<and> map unpack_q (chunks 8 b) = ts
        \<and> (\<forall>t\<in>set ts. - (2 ^ 63) \<le> t \<and> t < 2 ^ 63)
    | Inl e \<Rightarrow> \<exists>t\<in>set ts. t < - (2 ^ 63) \<or> 2 ^ 63 \<le> t"
proof (induction ts)
  case Nil
  show ?case by simp
next
  case (Cons t ts)
  show ?case
  proof (cases "pack_q t")
    case (Inl e)
    then show ?thesis by (auto simp: pack_q_def not_le not_less split: if_splits)
  next
    case (Inr p)
    then have p: "unpack_q p = t" "length p = 8" "- (2 ^ 63) \<le> t" "t < 2 ^ 63"
      using pack_unpack by (auto simp: pack_q_def split: if_splits)
    show ?thesis
    proof (cases "pack_token_ids ts")
      case (Inl e)
      then show ?thesis using Cons.IH \<open>pack_q t = Inr p\<close> by auto
    next
      case (Inr ps)
      have "chunks 8 (p @ ps) = p # chunks 8 ps" using p(2) by (subst chunks_step) simp_all
      then show ?thesis using Cons.IH Inr \<open>pack_q t = Inr p\<close> p by simp
    qed
  qed
qed

end
