(* ===== verification/Slot_Ranges.thy ===== *)
theory Slot_Ranges
  imports Prelude
begin

text \<open>
  What the cache managers do with one-dimensional int32 tensors and half-open ranges:
  slicing and slice assignment of \<open>torch\<close>, and \<open>_merge_ranges\<close> and \<open>_complement_ranges\<close> of
  \<open>engine/cache_manager/standard.py\<close>, with the specification of the latter by the positions
  the ranges denote.
\<close>

section \<open>Slices of tensors\<close>

text \<open>
  Bounds are clamped as in Python, negative ones count from the end. A store needs as many
  values as the slice has cells, except that a single value is broadcast.
\<close>

definition clamp :: "nat \<Rightarrow> int \<Rightarrow> nat" where
  "clamp n i = nat (min (int n) (max 0 (if i < 0 then i + int n else i)))"

definition tslice :: "'a list \<Rightarrow> int \<Rightarrow> int \<Rightarrow> 'a list" where
  "tslice xs a b = take (clamp (length xs) b - clamp (length xs) a) (drop (clamp (length xs) a) xs)"

definition tstore :: "int \<Rightarrow> int \<Rightarrow> 'a list \<Rightarrow> 'a list \<Rightarrow> 'a list res" where
  "tstore a b vs xs =
     (let lo = clamp (length xs) a; n = clamp (length xs) b - lo;
          fill = (\<lambda>ys. take lo xs @ ys @ drop (lo + n) xs)
      in if length vs = n then Inr (fill vs)
         else if length vs = 1 then Inr (fill (replicate n (hd vs)))
         else Inl (RuntimeError ''The expanded size of the tensor must match the existing size''))"

lemma clamp_in [simp]: "0 \<le> i \<Longrightarrow> i \<le> int n \<Longrightarrow> clamp n i = nat i"
  by (simp add: clamp_def)

lemma tslice_in: "0 \<le> a \<Longrightarrow> a \<le> b \<Longrightarrow> b \<le> int (length xs) \<Longrightarrow>
    tslice xs a b = take (nat (b - a)) (drop (nat a) xs)"
  by (simp add: tslice_def nat_diff_distrib)

lemma length_tslice_in: "0 \<le> a \<Longrightarrow> a \<le> b \<Longrightarrow> b \<le> int (length xs) \<Longrightarrow>
    length (tslice xs a b) = nat (b - a)"
  by (simp add: tslice_in nat_diff_distrib)

lemma tstore_in:
  "0 \<le> a \<Longrightarrow> a + int (length vs) \<le> int (length xs) \<Longrightarrow> b = a + int (length vs) \<Longrightarrow>
    tstore a b vs xs = Inr (take (nat a) xs @ vs @ drop (nat a + length vs) xs)"
proof -
  assume a: "0 \<le> a" "a + int (length vs) \<le> int (length xs)" "b = a + int (length vs)"
  then have "clamp (length xs) a = nat a" "clamp (length xs) b = nat a + length vs"
    by (simp_all add: nat_add_distrib)
  then show ?thesis unfolding tstore_def Let_def by simp
qed

lemma clamp_le: "clamp n i \<le> n"
  unfolding clamp_def by linarith

lemma length_tstore:
  assumes "tstore a b vs xs = Inr ys"
  shows "length ys = length xs"
proof -
  define lo n where "lo = clamp (length xs) a" and "n = clamp (length xs) b - lo"
  have le: "lo + n \<le> length xs" using clamp_le [of "length xs" a] clamp_le [of "length xs" b]
    by (simp add: lo_def n_def)
  have "\<exists>vs'. length vs' = n \<and> ys = take lo xs @ vs' @ drop (lo + n) xs"
    using assms unfolding tstore_def Let_def lo_def [symmetric] n_def [symmetric]
    by (auto split: if_splits intro: exI [of _ vs] exI [of _ "replicate n (hd vs)"])
  with le show ?thesis by auto
qed

section \<open>Ranges\<close>

type_synonym ranges = "(int \<times> int) list"

text \<open>The loop of \<open>_merge_ranges\<close> over the sorted ranges, the merged ones in reverse.\<close>

fun merge_step :: "ranges \<Rightarrow> int \<times> int \<Rightarrow> ranges" where
  "merge_step [] (s, e) = [(s, e)]"
| "merge_step ((a, b) # acc) (s, e) =
     (if b < s then (s, e) # (a, b) # acc else (a, max b e) # acc)"

definition merge_ranges :: "ranges \<Rightarrow> ranges" where
  "merge_ranges rs = rev (foldl merge_step [] (sort (filter (\<lambda>(s, e). s < e) rs)))"

fun complement_loop :: "int \<Rightarrow> ranges \<Rightarrow> int \<times> ranges" where
  "complement_loop cur [] = (cur, [])"
| "complement_loop cur ((s, e) # rs) =
     (case complement_loop (max cur e) rs of (cur', out) \<Rightarrow>
        (cur', (if cur < s then (cur, s) # out else out)))"

definition complement_ranges :: "int \<Rightarrow> int \<Rightarrow> ranges \<Rightarrow> ranges" where
  "complement_ranges start end rs =
     (case complement_loop start (merge_ranges rs) of (cur, out) \<Rightarrow>
        (if cur < end then out @ [(cur, end)] else out))"

section \<open>What ranges denote\<close>

definition covered :: "ranges \<Rightarrow> int \<Rightarrow> bool" where
  "covered rs i \<longleftrightarrow> (\<exists>(s, e)\<in>set rs. s \<le> i \<and> i < e)"

definition positions :: "ranges \<Rightarrow> int list" where
  "positions rs = concat (map (\<lambda>(s, e). [s..e - 1]) rs)"

lemma covered_simps [simp]:
  "covered [] i = False" "covered ((s, e) # rs) i = (s \<le> i \<and> i < e \<or> covered rs i)"
  "covered (xs @ ys) i = (covered xs i \<or> covered ys i)" "covered (rev xs) i = covered xs i"
  by (auto simp: covered_def)

lemma positions_simps [simp]:
  "positions [] = []" "positions ((s, e) # rs) = [s..e - 1] @ positions rs"
  "positions (xs @ ys) = positions xs @ positions ys"
  by (simp_all add: positions_def)

lemma set_positions: "i \<in> set (positions rs) \<longleftrightarrow> covered rs i"
  by (auto simp: positions_def covered_def)

text \<open>Merged ranges are nonempty, in order and do not touch.\<close>

fun apart :: "ranges \<Rightarrow> bool" where
  "apart [] = True"
| "apart [(s, e)] = (s < e)"
| "apart ((s, e) # (s', e') # rs) = (s < e \<and> e < s' \<and> apart ((s', e') # rs))"

lemma apart_mem: "apart rs \<Longrightarrow> (s, e) \<in> set rs \<Longrightarrow> s < e"
  by (induction rs rule: apart.induct) auto

lemma apart_tail: "apart (r # rs) \<Longrightarrow> apart rs"
  by (cases r; cases rs) auto

lemma apart_after: "apart ((s, e) # rs) \<Longrightarrow> covered rs i \<Longrightarrow> e < i"
proof (induction rs arbitrary: s e)
  case (Cons r rs)
  obtain s' e' where r: "r = (s', e')" by fastforce
  with Cons.prems(1) have "e < s'" "s' < e'" "apart ((s', e') # rs)" by (cases rs; auto)+
  with Cons r show ?case by fastforce
qed simp

lemma apart_snoc: "apart (xs @ [(a, b)]) \<Longrightarrow> b < s \<Longrightarrow> s < e \<Longrightarrow> apart (xs @ [(a, b), (s, e)])"
  by (induction xs rule: apart.induct) auto

lemma apart_grow: "apart (xs @ [(a, b)]) \<Longrightarrow> b \<le> b' \<Longrightarrow> apart (xs @ [(a, b')])"
  by (induction xs rule: apart.induct) auto

text \<open>The running ranges lie before the start of every range still to come.\<close>

lemma merge_fold:
  assumes "sorted rs" "\<And>s e. (s, e) \<in> set rs \<Longrightarrow> s < e" "apart (rev acc)"
    "\<And>a b s e. (a, b) \<in> set acc \<Longrightarrow> (s, e) \<in> set rs \<Longrightarrow> a \<le> s"
  shows "apart (rev (foldl merge_step acc rs))
    \<and> (\<forall>i. covered (foldl merge_step acc rs) i \<longleftrightarrow> covered acc i \<or> covered rs i)"
  using assms
proof (induction rs arbitrary: acc)
  case Nil
  then show ?case by simp
next
  case (Cons r rs)
  obtain s e where r: "r = (s, e)" by fastforce
  have se: "s < e" using Cons.prems(2) r by simp
  have later: "s \<le> s'" if "(s', e') \<in> set rs" for s' e'
    using Cons.prems(1) that r by (auto simp: less_eq_prod_def)
  have srt: "sorted rs" using Cons.prems(1) by simp
  show ?case
  proof (cases acc)
    case Nil
    have "apart (rev (foldl merge_step [(s, e)] rs))
      \<and> (\<forall>i. covered (foldl merge_step [(s, e)] rs) i \<longleftrightarrow> covered [(s, e)] i \<or> covered rs i)"
      by (rule Cons.IH) (use srt Cons.prems(2) se later in \<open>auto\<close>)
    then show ?thesis using Nil r by auto
  next
    case A: (Cons p acc')
    obtain a b where p: "p = (a, b)" by fastforce
    let ?n = "merge_step acc (s, e)"
    have as: "a \<le> s" using Cons.prems(4) A p r by fastforce
    have ap: "apart (rev acc' @ [(a, b)])" using Cons.prems(3) A p by simp
    then have ab: "a < b" by (rule apart_mem) simp
    have "apart (rev ?n)"
    proof (cases "b < s")
      case True
      with apart_snoc [OF ap True se] A p show ?thesis by simp
    next
      case False
      with apart_grow [OF ap, of "max b e"] A p show ?thesis by simp
    qed
    moreover have "a' \<le> s'" if "(a', b') \<in> set ?n" "(s', e') \<in> set rs" for a' b' s' e'
      using that Cons.prems(4) A p r as later by (auto split: if_splits)
    ultimately have "apart (rev (foldl merge_step ?n rs))
      \<and> (\<forall>i. covered (foldl merge_step ?n rs) i \<longleftrightarrow> covered ?n i \<or> covered rs i)"
      using srt Cons.prems(2) by (intro Cons.IH) auto
    moreover have "covered ?n i \<longleftrightarrow> covered acc i \<or> s \<le> i \<and> i < e" for i
      using as ab se by (auto simp: A p)
    ultimately show ?thesis using r by auto
  qed
qed

theorem merge_ranges_spec:
  "apart (merge_ranges rs)" "covered (merge_ranges rs) i \<longleftrightarrow> covered rs i"
proof -
  let ?f = "sort (filter (\<lambda>(s, e). s < e) rs)"
  have *: "apart (rev (foldl merge_step [] ?f))
    \<and> (\<forall>i. covered (foldl merge_step [] ?f) i \<longleftrightarrow> covered [] i \<or> covered ?f i)"
    by (rule merge_fold) auto
  have "covered ?f i \<longleftrightarrow> covered rs i" by (fastforce simp: covered_def)
  with * show "apart (merge_ranges rs)" "covered (merge_ranges rs) i \<longleftrightarrow> covered rs i"
    by (simp_all add: merge_ranges_def)
qed

lemma upto_join: "a \<le> b \<Longrightarrow> b \<le> c + 1 \<Longrightarrow> [a..c] = [a..b - 1] @ [b..c]"
proof (cases "b \<le> c")
  case False
  moreover assume "b \<le> c + 1"
  ultimately have "c = b - 1" by simp
  then show ?thesis by simp
qed (use upto_split1 [of a b c] in simp)

lemma complement_loop_spec:
  assumes "apart rs" "\<And>s e. (s, e) \<in> set rs \<Longrightarrow> e \<le> hi" "cur \<le> hi"
    "complement_loop cur rs = (cur', out)"
  shows "cur' \<le> hi \<and> cur \<le> cur' \<and>
    positions out @ [cur'..hi - 1] = filter (\<lambda>i. \<not> covered rs i) [cur..hi - 1]"
  using assms
proof (induction rs arbitrary: cur out)
  case Nil
  then show ?case by simp
next
  case (Cons r rs)
  obtain s e where r: "r = (s, e)" by fastforce
  have se: "s < e" "e \<le> hi" using Cons.prems(1,2) r by (cases rs; auto)+
  obtain out' where o: "complement_loop (max cur e) rs = (cur', out')"
    "out = (if cur < s then (cur, s) # out' else out')"
    using Cons.prems(4) r by (auto split: prod.splits)
  have ih: "cur' \<le> hi \<and> max cur e \<le> cur' \<and>
      positions out' @ [cur'..hi - 1] = filter (\<lambda>i. \<not> covered rs i) [max cur e..hi - 1]"
    by (rule Cons.IH [OF _ _ _ o(1)]) (use apart_tail [OF Cons.prems(1)] Cons.prems(2,3) se in auto)
  have above: "e < i" if "covered rs i" for i using apart_after that Cons.prems(1) r by blast
  let ?C = "\<lambda>i. \<not> covered (r # rs) i"
  have tail: "filter ?C [max cur e..hi - 1] = filter (\<lambda>i. \<not> covered rs i) [max cur e..hi - 1]"
    by (rule filter_cong) (auto simp: r)
  have "[cur..hi - 1] = [cur..max cur e - 1] @ [max cur e..hi - 1]"
    using Cons.prems(3) se by (intro upto_join) auto
  moreover have "filter ?C [cur..max cur e - 1] = (if cur < s then [cur..s - 1] else [])"
  proof (cases "cur < s")
    case True
    then have "[cur..max cur e - 1] = [cur..s - 1] @ [s..e - 1]"
      using se upto_join [of cur s "e - 1"] by simp
    moreover have "filter ?C [cur..s - 1] = [cur..s - 1]"
      using above se by (intro filter_True) (fastforce simp: r)
    moreover have "filter ?C [s..e - 1] = []" by (auto simp: r filter_empty_conv)
    ultimately show ?thesis using True by simp
  next
    case False
    then show ?thesis by (auto simp: r filter_empty_conv)
  qed
  ultimately have "filter ?C [cur..hi - 1] =
      (if cur < s then [cur..s - 1] else []) @ filter (\<lambda>i. \<not> covered rs i) [max cur e..hi - 1]"
    using tail by simp
  with ih o(2) show ?case by auto
qed

text \<open>
  The complement lists, in order and each once, exactly the positions that no range covers.
\<close>

theorem complement_positions:
  assumes inside: "\<And>s e. (s, e) \<in> set rs \<Longrightarrow> s < e \<Longrightarrow> e \<le> hi" and lo: "lo \<le> hi"
  shows "positions (complement_ranges lo hi rs) = filter (\<lambda>i. \<not> covered rs i) [lo..hi - 1]"
proof -
  obtain cur out where c: "complement_loop lo (merge_ranges rs) = (cur, out)" by fastforce
  have "e \<le> hi" if "(s, e) \<in> set (merge_ranges rs)" for s e
  proof -
    have ap: "apart (merge_ranges rs)" by (rule merge_ranges_spec)
    then have se: "s < e" using that by (rule apart_mem)
    with that have "covered (merge_ranges rs) (e - 1)" by (force simp: covered_def)
    then have "covered rs (e - 1)" using merge_ranges_spec(2) by blast
    then obtain a b where "(a, b) \<in> set rs" "a \<le> e - 1" "e - 1 < b" by (auto simp: covered_def)
    with inside [of a b] show "e \<le> hi" by linarith
  qed
  from complement_loop_spec [OF merge_ranges_spec(1) this lo c] have
    "cur \<le> hi" "positions out @ [cur..hi - 1] = filter (\<lambda>i. \<not> covered (merge_ranges rs) i) [lo..hi - 1]"
    by simp_all
  then show ?thesis using c by (auto simp: complement_ranges_def merge_ranges_spec(2))
qed

lemma complement_nonempty: "(s, e) \<in> set (complement_ranges lo hi rs) \<Longrightarrow> s < e"
proof -
  have loop: "(s, e) \<in> set (snd (complement_loop cur rs)) \<Longrightarrow> s < e" for cur rs
    by (induction cur rs rule: complement_loop.induct) (auto split: prod.splits if_splits)
  assume "(s, e) \<in> set (complement_ranges lo hi rs)"
  moreover obtain cur out where "complement_loop lo (merge_ranges rs) = (cur, out)" by fastforce
  ultimately show ?thesis using loop [of lo "merge_ranges rs"]
    by (auto simp: complement_ranges_def split: if_splits)
qed

lemma range_covered: "(s, e) \<in> set rs \<Longrightarrow> s \<le> k \<Longrightarrow> k < e \<Longrightarrow> covered rs k"
  by (auto simp: covered_def)

lemma merge_members:
  assumes inside: "\<And>s e. (s, e) \<in> set rs \<Longrightarrow> lo \<le> s \<and> e \<le> hi" and mem: "(s, e) \<in> set (merge_ranges rs)"
  shows "s < e" "lo \<le> s" "e \<le> hi"
proof -
  show se: "s < e" by (rule apart_mem [OF merge_ranges_spec(1) mem])
  have "covered rs (e - 1)" "covered rs s"
    using range_covered [OF mem, of "e - 1"] range_covered [OF mem, of s] se merge_ranges_spec(2) [of rs] by simp_all
  then show "lo \<le> s" "e \<le> hi" using inside by (fastforce simp: covered_def)+
qed

text \<open>The ranges as \<open>free_seq\<close> uses them: merged first, complemented in \<open>0..hi\<close>.\<close>

theorem complement_merged:
  assumes inside: "\<And>s e. (s, e) \<in> set rs \<Longrightarrow> 0 \<le> s \<and> e \<le> hi" and hi: "0 \<le> hi"
  shows "positions (complement_ranges 0 hi (merge_ranges rs)) = filter (\<lambda>i. \<not> covered rs i) [0..hi - 1]"
    and "(s, e) \<in> set (complement_ranges 0 hi (merge_ranges rs)) \<Longrightarrow> 0 \<le> s \<and> s < e \<and> e \<le> hi"
proof -
  show pos: "positions (complement_ranges 0 hi (merge_ranges rs)) = filter (\<lambda>i. \<not> covered rs i) [0..hi - 1]"
  proof -
    have "e \<le> hi" if "(s, e) \<in> set (merge_ranges rs)" for s e
      by (rule merge_members(3) [OF inside that])
    then show ?thesis using complement_positions [of "merge_ranges rs" hi 0] hi
      by (simp only: merge_ranges_spec(2) simp_thms)
  qed
  assume mem: "(s, e) \<in> set (complement_ranges 0 hi (merge_ranges rs))"
  then have se: "s < e" by (rule complement_nonempty)
  have "k \<in> set (positions (complement_ranges 0 hi (merge_ranges rs)))" if "s \<le> k" "k < e" for k
    using range_covered [OF mem that] by (simp add: set_positions)
  then have in_range: "0 \<le> k \<and> k < hi" if "s \<le> k" "k < e" for k
    using that unfolding pos by fastforce
  from in_range [of s] in_range [of "e - 1"] se show "0 \<le> s \<and> s < e \<and> e \<le> hi" by auto
qed

end
