(* ===== verification/Sampling.thy ===== *)
theory Sampling
  imports Prelude Complex_Main
begin

text \<open>
  \<open>sampling_params.py\<close>: the validated sampling parameters of a request and the resolution
  of its stop tokens. Python floats are rationals with the two infinities and NaN, with
  the IEEE comparisons (every comparison with NaN is false).
\<close>

section \<open>Floats\<close>

datatype pyfloat = Fin rat | PInf | NInf | NaN

fun flt_le :: "pyfloat \<Rightarrow> pyfloat \<Rightarrow> bool" where
  "flt_le NaN _ = False"
| "flt_le _ NaN = False"
| "flt_le NInf _ = True"
| "flt_le _ PInf = True"
| "flt_le (Fin a) (Fin b) = (a \<le> b)"
| "flt_le _ _ = False"

definition flt_eq :: "pyfloat \<Rightarrow> pyfloat \<Rightarrow> bool" where
  "flt_eq a b \<longleftrightarrow> a = b \<and> a \<noteq> NaN"

definition flt_lt :: "pyfloat \<Rightarrow> pyfloat \<Rightarrow> bool" where
  "flt_lt a b \<longleftrightarrow> flt_le a b \<and> \<not> flt_eq a b"

lemma flt_le_Fin [simp]: "flt_le (Fin a) x \<longleftrightarrow> x = PInf \<or> (\<exists>b. x = Fin b \<and> a \<le> b)"
  by (cases x) auto

lemma flt_le_to_Fin [simp]: "flt_le x (Fin a) \<longleftrightarrow> x = NInf \<or> (\<exists>b. x = Fin b \<and> b \<le> a)"
  by (cases x) auto

lemma flt_lt_Fin [simp]: "flt_lt (Fin a) x \<longleftrightarrow> x = PInf \<or> (\<exists>b. x = Fin b \<and> a < b)"
  by (cases x) (auto simp: flt_lt_def flt_eq_def)

lemma flt_lt_to_Fin [simp]: "flt_lt x (Fin a) \<longleftrightarrow> x = NInf \<or> (\<exists>b. x = Fin b \<and> b < a)"
  by (cases x) (auto simp: flt_lt_def flt_eq_def)

section \<open>Stop tokens\<close>

datatype eos_arg = EosNone | EosInt int | EosList "int list"

fun as_eos_token_id_set :: "eos_arg \<Rightarrow> int set" where
  "as_eos_token_id_set EosNone = {}"
| "as_eos_token_id_set (EosInt t) = {t}"
| "as_eos_token_id_set (EosList ts) = set ts"

definition resolve_eos_token_ids :: "eos_arg \<Rightarrow> eos_arg \<Rightarrow> int option \<Rightarrow> int set" where
  "resolve_eos_token_ids request configured fallback =
     (let requested = as_eos_token_id_set request
      in if requested \<noteq> {} then requested
         else let configured' = as_eos_token_id_set configured
         in if configured' \<noteq> {} then configured'
            else case fallback of
              None \<Rightarrow> {}
            | Some t \<Rightarrow> if 0 \<le> t then {t} else {})"

section \<open>Sampling parameters\<close>

record sampling_params =
  temperature :: pyfloat
  top_p :: pyfloat
  top_k :: int
  presence_penalty :: pyfloat
  repetition_penalty :: pyfloat
  max_tokens :: int
  ignore_eos :: bool
  eos_token_ids :: "int list"
  logprobs :: "int option"

text \<open>\<open>tuple(dict.fromkeys(xs))\<close> keeps the first occurrence of every element.\<close>

definition from_keys :: "'a list \<Rightarrow> 'a list" where
  "from_keys xs = rev (remdups (rev xs))"

fun normal_eos :: "eos_arg \<Rightarrow> int list" where
  "normal_eos EosNone = []"
| "normal_eos (EosInt t) = [t]"
| "normal_eos (EosList ts) = from_keys ts"

text \<open>
  \<open>__post_init__\<close>: the checks in the order of the code. The stop tokens come in as the
  constructor argument and are normalised in between.
\<close>

definition post_init :: "sampling_params \<Rightarrow> eos_arg \<Rightarrow> sampling_params res" where
  "post_init p eos =
     (if flt_lt (temperature p) (Fin 0) then Inl (ValueError ''temperature must be non-negative'')
      else if \<not> (flt_lt (Fin 0) (top_p p) \<and> flt_le (top_p p) (Fin 1)) then
        Inl (ValueError ''top_p must be in (0, 1]'')
      else if top_k p < 0 then Inl (ValueError ''top_k must be non-negative'')
      else if \<not> (flt_le (Fin (- 2)) (presence_penalty p) \<and> flt_le (presence_penalty p) (Fin 2)) then
        Inl (ValueError ''presence_penalty must be in [-2, 2]'')
      else if \<not> flt_lt (Fin 0) (repetition_penalty p) then
        Inl (ValueError ''repetition_penalty must be positive'')
      else if max_tokens p \<le> 0 then Inl (ValueError ''max_tokens must be positive'')
      else
        (let ids = normal_eos eos
         in if \<exists>t\<in>set ids. t < 0 then
              Inl (ValueError ''eos_token_ids must contain non-negative token ids'')
            else if (case logprobs p of None \<Rightarrow> False | Some k \<Rightarrow> k < 0) then
              Inl (ValueError ''logprobs must be non-negative'')
            else Inr (p\<lparr>eos_token_ids := ids\<rparr>)))"

lemma from_keys_simps [simp]: "set (from_keys xs) = set xs" "distinct (from_keys xs)"
  by (simp_all add: from_keys_def)

text \<open>What a constructed object guarantees; the temperature may still be NaN.\<close>

definition params_ok :: "sampling_params \<Rightarrow> bool" where
  "params_ok p \<longleftrightarrow>
     (temperature p = NaN \<or> temperature p = PInf \<or> (\<exists>t. temperature p = Fin t \<and> 0 \<le> t))
     \<and> (\<exists>x. top_p p = Fin x \<and> 0 < x \<and> x \<le> 1) \<and> 0 \<le> top_k p
     \<and> (\<exists>x. presence_penalty p = Fin x \<and> - 2 \<le> x \<and> x \<le> 2)
     \<and> (repetition_penalty p = PInf \<or> (\<exists>x. repetition_penalty p = Fin x \<and> 0 < x))
     \<and> 0 < max_tokens p \<and> distinct (eos_token_ids p) \<and> (\<forall>t\<in>set (eos_token_ids p). 0 \<le> t)
     \<and> (\<forall>k. logprobs p = Some k \<longrightarrow> 0 \<le> k)"

lemma normal_eos_distinct: "distinct (normal_eos e)"
  by (cases e) auto

lemma not_negative_flt:
  "\<not> flt_lt x (Fin 0) \<longleftrightarrow> x = NaN \<or> x = PInf \<or> (\<exists>t. x = Fin t \<and> 0 \<le> t)"
  by (cases x) auto

theorem post_init_spec:
  "post_init p eos = Inr q \<longleftrightarrow> q = p\<lparr>eos_token_ids := normal_eos eos\<rparr> \<and> params_ok q"
proof -
  let ?p = "p\<lparr>eos_token_ids := normal_eos eos\<rparr>"
  let ?C = "\<not> flt_lt (temperature p) (Fin 0) \<and> flt_lt (Fin 0) (top_p p) \<and> flt_le (top_p p) (Fin 1)
     \<and> 0 \<le> top_k p \<and> flt_le (Fin (- 2)) (presence_penalty p) \<and> flt_le (presence_penalty p) (Fin 2)
     \<and> flt_lt (Fin 0) (repetition_penalty p) \<and> 0 < max_tokens p
     \<and> (\<forall>t\<in>set (normal_eos eos). 0 \<le> t) \<and> (\<forall>k. logprobs p = Some k \<longrightarrow> 0 \<le> k)"
  have run: "post_init p eos = Inr q \<longleftrightarrow> q = ?p \<and> ?C"
  proof (cases ?C)
    case True
    then have "post_init p eos = Inr ?p"
      by (auto simp: post_init_def Let_def leD split: option.splits)
    with True show ?thesis by auto
  next
    case False
    have ?C if "post_init p eos = Inr q"
      using that unfolding post_init_def Let_def
      by (simp only: split: if_split_asm option.split_asm) (simp_all add: not_less not_le Ball_def)
    with False show ?thesis by blast
  qed
  have "?C \<longleftrightarrow> params_ok ?p"
    unfolding not_negative_flt
    using normal_eos_distinct [of eos]
    by (cases "top_p p"; cases "presence_penalty p"; cases "repetition_penalty p")
      (simp_all add: params_ok_def)
  with run show ?thesis by blast
qed

theorem resolve_eos_priority:
  "resolve_eos_token_ids request configured fallback =
     (if as_eos_token_id_set request \<noteq> {} then as_eos_token_id_set request
      else if as_eos_token_id_set configured \<noteq> {} then as_eos_token_id_set configured
      else {t. fallback = Some t \<and> 0 \<le> t})"
  by (auto simp: resolve_eos_token_ids_def Let_def split: option.splits)

end
