(* ===== verification/Sequence.thy ===== *)
theory Sequence
  imports Sampling
begin

text \<open>
  \<open>engine/sequence.py\<close>: one request. The scalar fields that are shipped to the tensor
  parallel workers are the record \<open>seq_meta\<close>; the rest of the object extends it, so that
  \<open>__getstate__\<close> is the truncation plus the active tokens and \<open>__setstate__\<close> rebuilds the
  extension.
\<close>

section \<open>Unique token ids and their device buffer\<close>

text \<open>
  A device tensor is a list of cells, \<open>None\<close> for a cell of \<open>torch.empty\<close> that was never
  written; devices are numbers.
\<close>

record unique_tokens =
  ut_values :: "int list"
  ut_seen :: "int set"
  device_tensor :: "int option list option"
  tensor_device :: "nat option"
  tensor_vocab :: "int option"
  synced_count :: nat

definition add_unique :: "int \<Rightarrow> unique_tokens \<Rightarrow> unique_tokens" where
  "add_unique t u =
     (if t \<in> ut_seen u then u
      else u\<lparr>ut_seen := insert t (ut_seen u), ut_values := ut_values u @ [t]\<rparr>)"

definition make_unique :: "int list \<Rightarrow> unique_tokens" where
  "make_unique ts =
     (fold add_unique ts \<lparr>ut_values = [], ut_seen = {}, device_tensor = None, tensor_device = None,
        tensor_vocab = None, synced_count = 0\<rparr>)
     \<lparr>device_tensor := None, tensor_device := None, tensor_vocab := None, synced_count := 0\<rparr>"

definition write_cells :: "nat \<Rightarrow> int list \<Rightarrow> int option list \<Rightarrow> int option list" where
  "write_cells i vs cells = take i cells @ map Some vs @ drop (i + length vs) cells"

definition to_tensor ::
    "nat \<Rightarrow> int \<Rightarrow> int \<Rightarrow> (unique_tokens, py_error, int option list option) eff" where
  "to_tensor dev vocab_size max_new_tokens u =
     (if ut_values u = [] then (Inr None, u)
      else if vocab_size \<le> 0 then (Inl (ValueError ''vocab_size must be positive, got ''), u)
      else
        (let token_count = length (ut_values u);
             stale = (case device_tensor u of None \<Rightarrow> True
               | Some cells \<Rightarrow> tensor_device u \<noteq> Some dev \<or> tensor_vocab u \<noteq> Some vocab_size
                   \<or> length cells < token_count);
             capacity = max (int token_count)
               (min vocab_size (int token_count + max 0 max_new_tokens));
             u1 = (if stale then u\<lparr>device_tensor := Some (replicate (nat capacity) None),
                                   tensor_device := Some dev, tensor_vocab := Some vocab_size,
                                   synced_count := 0\<rparr> else u);
             cells = (case device_tensor u1 of None \<Rightarrow> [] | Some cells \<Rightarrow> cells);
             cells' = (if synced_count u1 < token_count
                       then write_cells (synced_count u1)
                              (drop (synced_count u1) (ut_values u1)) cells
                       else cells);
             u2 = u1\<lparr>device_tensor := Some cells',
                     synced_count := (if synced_count u1 < token_count then token_count
                                      else synced_count u1)\<rparr>
         in (Inr (Some (take token_count cells')), u2)))"

definition unique_ok :: "unique_tokens \<Rightarrow> bool" where
  "unique_ok u \<longleftrightarrow> distinct (ut_values u) \<and> ut_seen u = set (ut_values u)
     \<and> synced_count u \<le> length (ut_values u)
     \<and> (\<forall>cells. device_tensor u = Some cells \<longrightarrow>
          synced_count u \<le> length cells
          \<and> take (synced_count u) cells = map Some (take (synced_count u) (ut_values u)))"

lemma add_unique_ok: "unique_ok u \<Longrightarrow> unique_ok (add_unique t u) \<and> ut_seen (add_unique t u) = insert t (ut_seen u)"
  by (auto simp: unique_ok_def add_unique_def)

lemma make_unique_ok: "unique_ok (make_unique ts) \<and> ut_seen (make_unique ts) = set ts"
proof -
  have gen: "unique_ok u \<Longrightarrow> unique_ok (fold add_unique ts u) \<and> ut_seen (fold add_unique ts u) = ut_seen u \<union> set ts"
    for u
  proof (induction ts arbitrary: u)
    case (Cons t ts)
    from add_unique_ok [OF Cons.prems, of t] Cons.IH [of "add_unique t u"] show ?case by simp
  qed simp
  define f where "f = fold add_unique ts \<lparr>ut_values = [], ut_seen = {}, device_tensor = None,
      tensor_device = None, tensor_vocab = None, synced_count = 0\<rparr>"
  have "unique_ok \<lparr>ut_values = [], ut_seen = {}, device_tensor = None, tensor_device = None,
      tensor_vocab = None, synced_count = 0\<rparr>" by (simp add: unique_ok_def)
  from gen [OF this, folded f_def] have "unique_ok f" "ut_seen f = set ts" by simp_all
  then have "distinct (ut_values f)" "set ts = set (ut_values f)" "ut_seen f = set ts"
    unfolding unique_ok_def by auto
  then show ?thesis by (simp add: make_unique_def f_def [symmetric] unique_ok_def)
qed

text \<open>However adds and reads interleave, a read returns exactly the values seen so far.\<close>

theorem to_tensor_values:
  assumes ok: "unique_ok u" and v: "0 < vocab_size" and ne: "ut_values u \<noteq> []"
  shows "\<exists>u'. to_tensor dev vocab_size n u = (Inr (Some (map Some (ut_values u))), u')
      \<and> unique_ok u' \<and> ut_values u' = ut_values u \<and> synced_count u' = length (ut_values u)"
proof -
  let ?k = "length (ut_values u)"
  define stale where "stale = (case device_tensor u of None \<Rightarrow> True
     | Some cells \<Rightarrow> tensor_device u \<noteq> Some dev \<or> tensor_vocab u \<noteq> Some vocab_size \<or> length cells < ?k)"
  define u1 where "u1 = (if stale then u\<lparr>device_tensor := Some (replicate
      (nat (max (int ?k) (min vocab_size (int ?k + max 0 n)))) None),
      tensor_device := Some dev, tensor_vocab := Some vocab_size, synced_count := 0\<rparr> else u)"
  have val1: "ut_values u1 = ut_values u" "ut_seen u1 = ut_seen u" by (simp_all add: u1_def)
  obtain cells where c: "device_tensor u1 = Some cells" "?k \<le> length cells"
    "synced_count u1 \<le> ?k" "take (synced_count u1) cells = map Some (take (synced_count u1) (ut_values u))"
    using ok by (cases stale) (auto simp: u1_def stale_def unique_ok_def split: option.splits)
  define cells' where "cells' = (if synced_count u1 < ?k
      then write_cells (synced_count u1) (drop (synced_count u1) (ut_values u1)) cells else cells)"
  have t: "take ?k cells' = map Some (ut_values u)"
  proof (cases "synced_count u1 < ?k")
    case True
    then have "take ?k cells' = map Some (take (synced_count u1) (ut_values u)) @
        map Some (drop (synced_count u1) (ut_values u))"
      using c by (simp add: cells'_def write_cells_def val1 min_def)
    then show ?thesis by (simp flip: map_append)
  next
    case False
    with c have "synced_count u1 = ?k" by simp
    with c show ?thesis by (simp add: cells'_def)
  qed
  have l: "?k \<le> length cells'" using c by (simp add: cells'_def write_cells_def val1)
  let ?u2 = "u1\<lparr>device_tensor := Some cells', synced_count := (if synced_count u1 < ?k then ?k else synced_count u1)\<rparr>"
  have "to_tensor dev vocab_size n u = (Inr (Some (take ?k cells')), ?u2)"
    using ne v c(1) by (simp add: to_tensor_def Let_def stale_def [symmetric] u1_def [symmetric]
        cells'_def)
  moreover have "synced_count ?u2 = ?k" using c(3) by simp
  moreover have "unique_ok ?u2"
    using ok t l c(3) val1 by (auto simp: unique_ok_def)
  ultimately show ?thesis using t val1 by (intro exI [of _ ?u2]) simp
qed

section \<open>The sequence\<close>

datatype seq_status = WAITING | RUNNING | FINISHED

record seq_meta =
  seq_id :: int
  status :: seq_status
  num_tokens :: int
  num_prompt_tokens :: int
  num_prefilled_tokens :: int
  current_chunk_size :: "int option"
  sampling :: sampling_params
  prefix_cache_enabled :: bool
  prefix_cache_hit_len :: int
  prefix_cache_hit_block_count :: int
  prefix_cache_hit_last_block_id :: "bytes option"
  prefix_cache_block_size :: int
  prefix_cache_method :: string
  chain_id :: "string option"
  chain_status :: string
  chain_reused_tokens :: int
  recompute_replay_cursor :: "int option"
  decode_progress_checkpoint :: int
  multimodal_digest :: "string option"
  multimodal_position_delta :: int
  multimodal_full_prefill :: bool

record seq = seq_meta +
  seq_tokens :: "int list"
  prompt_copy :: "int list option"
  last_token :: "int option"
  presence_tokens :: "unique_tokens option"
  repetition_tokens :: "unique_tokens option"
  completion_token_logprobs :: "pyfloat option list"
  completion_top_logprobs :: "(int \<times> pyfloat) list option list"

definition make_seq :: "int \<Rightarrow> int list \<Rightarrow> sampling_params \<Rightarrow> seq" where
  "make_seq sid ts sp =
     \<lparr>seq_id = sid, status = WAITING, num_tokens = int (length ts),
      num_prompt_tokens = int (length ts), num_prefilled_tokens = 0, current_chunk_size = None,
      sampling = sp, prefix_cache_enabled = False, prefix_cache_hit_len = 0,
      prefix_cache_hit_block_count = 0, prefix_cache_hit_last_block_id = None,
      prefix_cache_block_size = 0, prefix_cache_method = [], chain_id = None,
      chain_status = ''disabled'', chain_reused_tokens = 0, recompute_replay_cursor = None,
      decode_progress_checkpoint = 0, multimodal_digest = None, multimodal_position_delta = 0,
      multimodal_full_prefill = False,
      seq_tokens = ts, prompt_copy = Some ts, last_token = (if ts = [] then None else Some (last ts)),
      presence_tokens = (if flt_eq (presence_penalty sp) (Fin 0) then None else Some (make_unique [])),
      repetition_tokens = (if flt_eq (repetition_penalty sp) (Fin 1) then None
                           else Some (make_unique ts)),
      completion_token_logprobs = [], completion_top_logprobs = []\<rparr>"

definition has_sampling_penalty :: "('a seq_meta_scheme) \<Rightarrow> bool" where
  "has_sampling_penalty s \<longleftrightarrow>
     \<not> flt_eq (presence_penalty (sampling s)) (Fin 0)
     \<or> \<not> flt_eq (repetition_penalty (sampling s)) (Fin 1)"

definition num_completion_tokens :: "('a seq_meta_scheme) \<Rightarrow> int" where
  "num_completion_tokens s = num_tokens s - num_prompt_tokens s"

definition kv_change_state :: "('a seq_meta_scheme) \<Rightarrow> string res" where
  "kv_change_state s =
     (if num_prefilled_tokens s = 0 then Inr ''first_prefill''
      else if num_prefilled_tokens s < num_prompt_tokens s then Inr ''prefill''
      else if num_prefilled_tokens s = num_prompt_tokens s then Inr ''decode''
      else Inl (ValueError []))"

definition prompt_token_ids :: "seq \<Rightarrow> int list" where
  "prompt_token_ids s =
     (case prompt_copy s of Some p \<Rightarrow> p | None \<Rightarrow> take (nat (num_prompt_tokens s)) (seq_tokens s))"

definition completion_token_ids :: "seq \<Rightarrow> int list" where
  "completion_token_ids s = drop (nat (num_prompt_tokens s)) (seq_tokens s)"

definition is_recompute_replay :: "('a seq_meta_scheme) \<Rightarrow> bool" where
  "is_recompute_replay s \<longleftrightarrow> recompute_replay_cursor s \<noteq> None"

definition is_recompute_prefill :: "('a seq_meta_scheme) \<Rightarrow> bool" where
  "is_recompute_prefill s \<longleftrightarrow>
     is_recompute_replay s \<and> num_prefilled_tokens s < num_prompt_tokens s"

definition is_recompute_decode :: "('a seq_meta_scheme) \<Rightarrow> bool" where
  "is_recompute_decode s \<longleftrightarrow>
     is_recompute_replay s \<and> num_prompt_tokens s \<le> num_prefilled_tokens s"

definition replay_decode_token_count :: "('a seq_meta_scheme) \<Rightarrow> int" where
  "replay_decode_token_count s = max 0 (num_completion_tokens s - 1)"

text \<open>\<open>int(x or 0)\<close> of an optional integer.\<close>

definition or_zero :: "int option \<Rightarrow> int" where
  "or_zero x = (case x of None \<Rightarrow> 0 | Some k \<Rightarrow> k)"

text \<open>Python slices \<open>xs[a:b]\<close> with non-negative bounds.\<close>

definition slice :: "int \<Rightarrow> int \<Rightarrow> 'a list \<Rightarrow> 'a list" where
  "slice a b xs = drop (nat a) (take (nat b) xs)"

definition replay_input_token_ids :: "seq \<Rightarrow> int list" where
  "replay_input_token_ids s =
     (if \<not> is_recompute_prefill s then []
      else let start = num_prefilled_tokens s; stop = start + or_zero (current_chunk_size s)
      in if int (length (seq_tokens s)) = stop - start then seq_tokens s
         else slice start stop (seq_tokens s))"

definition decode_input_token :: "seq \<Rightarrow> int res" where
  "decode_input_token s =
     (if \<not> is_recompute_decode s then
        (case last_token s of
           None \<Rightarrow> Inl (RuntimeError ''Decode input token is missing for seq_id='')
         | Some t \<Rightarrow> Inr t)
      else let cursor = or_zero (recompute_replay_cursor s)
      in if replay_decode_token_count s \<le> cursor then
           Inl (RuntimeError ''Recompute replay cursor is past the accepted decode history: '')
         else if int (length (seq_tokens s)) > num_prompt_tokens s + cursor then
           Inr (seq_tokens s ! nat (num_prompt_tokens s + cursor))
         else case last_token s of
           None \<Rightarrow> Inl (RuntimeError ''Replay decode input token is missing for seq_id='')
         | Some t \<Rightarrow> Inr t)"

definition decode_input_position :: "('a seq_meta_scheme) \<Rightarrow> int" where
  "decode_input_position s =
     (if is_recompute_decode s
      then num_prompt_tokens s + or_zero (recompute_replay_cursor s)
      else num_tokens s - 1) + multimodal_position_delta s"

definition should_publish_sample :: "('a seq_meta_scheme) \<Rightarrow> bool" where
  "should_publish_sample s \<longleftrightarrow> \<not> is_recompute_replay s"

section \<open>State changes\<close>

definition clear_prefix_cache_hit :: "seq \<Rightarrow> seq" where
  "clear_prefix_cache_hit s =
     s\<lparr>prefix_cache_enabled := False, prefix_cache_hit_len := 0, prefix_cache_hit_block_count := 0,
       prefix_cache_hit_last_block_id := None, prefix_cache_block_size := 0,
       prefix_cache_method := []\<rparr>"

definition start_recompute_replay :: "(seq, py_error, unit) eff" where
  "start_recompute_replay s =
     (if num_completion_tokens s \<le> 0 then
        (Inl (RuntimeError ''Recompute replay requires at least one accepted completion token: ''), s)
      else (Inr (), clear_prefix_cache_hit
        (s\<lparr>recompute_replay_cursor := Some 0,
           decode_progress_checkpoint := num_completion_tokens s,
           num_prefilled_tokens := 0, current_chunk_size := None, status := WAITING\<rparr>)))"

definition finish_recompute_replay :: "(seq, py_error, unit) eff" where
  "finish_recompute_replay s =
     (if \<not> is_recompute_replay s then
        (Inl (RuntimeError ''Sequence is not in recompute replay.''), s)
      else (Inr (), s\<lparr>recompute_replay_cursor := None,
                     decode_progress_checkpoint := num_completion_tokens s\<rparr>))"

definition advance_recompute_replay :: "(seq, py_error, unit) eff" where
  "advance_recompute_replay s =
     (if \<not> is_recompute_decode s then
        (Inl (RuntimeError ''Sequence is not replaying decode tokens.''), s)
      else
        (let cursor = or_zero (recompute_replay_cursor s) + 1;
             s1 = s\<lparr>recompute_replay_cursor := Some cursor\<rparr>
         in if replay_decode_token_count s1 \<le> cursor then finish_recompute_replay s1
            else (Inr (), s1)))"

definition is_last_chunk_prefill :: "('a seq_meta_scheme) \<Rightarrow> bool res" where
  "is_last_chunk_prefill s =
     (case current_chunk_size s of
        None \<Rightarrow> Inl (TypeError ''unsupported operand'')
      | Some c \<Rightarrow> Inr (num_prompt_tokens s \<le> num_prefilled_tokens s + c))"

definition track_penalty_token :: "int \<Rightarrow> seq \<Rightarrow> seq" where
  "track_penalty_token t s =
     s\<lparr>presence_tokens := map_option (add_unique t) (presence_tokens s),
       repetition_tokens := map_option (add_unique t) (repetition_tokens s)\<rparr>"

definition append_token ::
    "int \<Rightarrow> pyfloat option \<Rightarrow> (int \<times> pyfloat) list option \<Rightarrow> seq \<Rightarrow> seq" where
  "append_token t logprob tops s =
     (let s1 = (if has_sampling_penalty s then track_penalty_token t s else s);
          s2 = s1\<lparr>seq_tokens := seq_tokens s1 @ [t]\<rparr>;
          s3 = (if 0 \<le> num_completion_tokens s2
                then s2\<lparr>completion_token_logprobs := completion_token_logprobs s2 @ [logprob],
                        completion_top_logprobs := completion_top_logprobs s2 @ [tops]\<rparr>
                else s2)
      in s3\<lparr>last_token := Some t, num_tokens := num_tokens s3 + 1\<rparr>)"

datatype penalty_kind = Presence | Repetition | UnknownKind

text \<open>The token buffer of one penalty; the buffer it synchronises is written back.\<close>

definition penalty_token_tensor ::
    "penalty_kind \<Rightarrow> nat \<Rightarrow> int \<Rightarrow> (seq, py_error, int option list option) eff" where
  "penalty_token_tensor kind dev vocab_size s =
     (if kind = UnknownKind then (Inl (ValueError ''Unknown sampling penalty token kind: ''), s)
      else
        (let tokens = (if kind = Presence then presence_tokens s else repetition_tokens s);
             active = (if kind = Presence then \<not> flt_eq (presence_penalty (sampling s)) (Fin 0)
                       else \<not> flt_eq (repetition_penalty (sampling s)) (Fin 1))
         in if \<not> active then (Inr None, s)
            else case tokens of
              None \<Rightarrow> (Inl (RuntimeError ''Sampling penalty token history is unavailable on this TP worker. ''), s)
            | Some u \<Rightarrow>
                (case to_tensor dev vocab_size
                        (max 0 (max_tokens (sampling s) - num_completion_tokens s)) u of
                   (r, u') \<Rightarrow> (r, if kind = Presence then s\<lparr>presence_tokens := Some u'\<rparr>
                                 else s\<lparr>repetition_tokens := Some u'\<rparr>))))"

section \<open>Shipping a sequence to the workers\<close>

datatype wire_data = Chunk "int list" | Token "int option"

definition getstate :: "seq \<Rightarrow> (seq_meta \<times> wire_data) res" where
  "getstate s =
     (let m = seq_meta.truncate s
      in if num_completion_tokens s = 0 \<or> is_recompute_prefill s then
           (let chunk = (case current_chunk_size s of None \<Rightarrow> num_prompt_tokens s | Some c \<Rightarrow> c)
            in Inr (m, Chunk (slice (num_prefilled_tokens s) (num_prefilled_tokens s + chunk)
                                (seq_tokens s))))
         else if is_recompute_decode s then
           (case decode_input_token s of Inl e \<Rightarrow> Inl e | Inr t \<Rightarrow> Inr (m, Token (Some t)))
         else Inr (m, Token (last_token s)))"

text \<open>
  The two branches of \<open>__setstate__\<close> expect the data \<open>getstate\<close> produced for the same
  scalars; data of the other kind has no len (or is no token) and is refused.
\<close>

definition setstate :: "seq_meta \<times> wire_data \<Rightarrow> seq res" where
  "setstate w =
     (let (m, data) = w
      in if num_completion_tokens m = 0 \<or> is_recompute_prefill m then
           (case data of
              Token _ \<Rightarrow> Inl (TypeError ''object of type int has no len()'')
            | Chunk ts \<Rightarrow> Inr (seq_meta.extend m (seq.fields ts
                (if num_prefilled_tokens m = 0 \<and> int (length ts) = num_prompt_tokens m
                 then Some ts else None)
                (if ts = [] then None else Some (last ts)) None None [] [])))
         else
           (case data of
              Chunk _ \<Rightarrow> Inl (TypeError ''expected a token'')
            | Token t \<Rightarrow> Inr (seq_meta.extend m (seq.fields [] None t None None [] []))))"

section \<open>Well-formed sequences\<close>

text \<open>What rank 0 keeps: the counters describe the token list, and the prompt is its prefix.\<close>

definition seq_ok :: "seq \<Rightarrow> bool" where
  "seq_ok s \<longleftrightarrow>
     num_tokens s = int (length (seq_tokens s)) \<and> 0 \<le> num_prompt_tokens s
     \<and> num_prompt_tokens s \<le> num_tokens s
     \<and> prompt_copy s = Some (take (nat (num_prompt_tokens s)) (seq_tokens s))
     \<and> last_token s = (if seq_tokens s = [] then None else Some (last (seq_tokens s)))
     \<and> 0 \<le> num_prefilled_tokens s
     \<and> (\<forall>c. current_chunk_size s = Some c \<longrightarrow> 0 \<le> c)
     \<and> (\<forall>c. recompute_replay_cursor s = Some c \<longrightarrow> 0 \<le> c \<and> 0 < num_completion_tokens s
          \<and> (c = 0 \<or> c < replay_decode_token_count s))
     \<and> (presence_tokens s = None \<longleftrightarrow> flt_eq (presence_penalty (sampling s)) (Fin 0))
     \<and> (repetition_tokens s = None \<longleftrightarrow> flt_eq (repetition_penalty (sampling s)) (Fin 1))
     \<and> (\<forall>u. presence_tokens s = Some u \<longrightarrow> unique_ok u \<and> ut_seen u = set (completion_token_ids s))
     \<and> (\<forall>u. repetition_tokens s = Some u \<longrightarrow> unique_ok u \<and> ut_seen u = set (seq_tokens s))"

lemma seq_ok_make: "seq_ok (make_seq sid ts sp)"
  using make_unique_ok [of "[]"] make_unique_ok [of ts]
  by (auto simp: seq_ok_def make_seq_def num_completion_tokens_def completion_token_ids_def)

lemma seq_ok_append:
  assumes ok: "seq_ok s"
  shows "seq_ok (append_token t lp tops s)"
    and "seq_tokens (append_token t lp tops s) = seq_tokens s @ [t]"
    and "num_completion_tokens (append_token t lp tops s) = num_completion_tokens s + 1"
    and "completion_token_ids (append_token t lp tops s) = completion_token_ids s @ [t]"
proof -
  let ?t = "append_token t lp tops s"
  have f: "seq_tokens ?t = seq_tokens s @ [t]" "num_tokens ?t = num_tokens s + 1"
    "num_prompt_tokens ?t = num_prompt_tokens s" "prompt_copy ?t = prompt_copy s"
    "last_token ?t = Some t" "num_prefilled_tokens ?t = num_prefilled_tokens s"
    "current_chunk_size ?t = current_chunk_size s"
    "recompute_replay_cursor ?t = recompute_replay_cursor s" "sampling ?t = sampling s"
    by (simp_all add: append_token_def track_penalty_token_def Let_def)
  show "seq_tokens ?t = seq_tokens s @ [t]" by (rule f(1))
  show "num_completion_tokens ?t = num_completion_tokens s + 1"
    using f by (simp add: num_completion_tokens_def)
  have le: "nat (num_prompt_tokens s) \<le> length (seq_tokens s)" using ok by (auto simp: seq_ok_def)
  then show c: "completion_token_ids ?t = completion_token_ids s @ [t]"
    by (simp add: completion_token_ids_def f)
  have p: "presence_tokens ?t = map_option (add_unique t) (presence_tokens s)"
    "repetition_tokens ?t = map_option (add_unique t) (repetition_tokens s)"
    using ok by (auto simp: seq_ok_def append_token_def track_penalty_token_def Let_def
        has_sampling_penalty_def)
  have pt: "flt_eq (presence_penalty (sampling s)) (Fin 0) \<longleftrightarrow> presence_tokens s = None"
    "flt_eq (repetition_penalty (sampling s)) (Fin 1) \<longleftrightarrow> repetition_tokens s = None"
    using ok by (auto simp: seq_ok_def)
  have u1: "unique_ok u \<and> ut_seen u = set (completion_token_ids ?t)" if "presence_tokens ?t = Some u" for u
    using that ok add_unique_ok [of _ t] by (auto simp: p c seq_ok_def)
  have u2: "unique_ok u \<and> ut_seen u = set (seq_tokens ?t)" if "repetition_tokens ?t = Some u" for u
    using that ok add_unique_ok [of _ t] by (auto simp: p f seq_ok_def)
  have r: "0 \<le> k \<and> 0 < num_completion_tokens ?t \<and> (k = 0 \<or> k < replay_decode_token_count ?t)"
    if "recompute_replay_cursor ?t = Some k" for k
    using that ok by (auto simp: seq_ok_def f num_completion_tokens_def replay_decode_token_count_def)
  show "seq_ok ?t"
    unfolding seq_ok_def using ok le u1 u2 r pt
    by (simp add: f p) (simp add: seq_ok_def)
qed

lemma seq_ok_start:
  assumes "seq_ok s" "start_recompute_replay s = (Inr (), t)"
  shows "seq_ok t" "seq_tokens t = seq_tokens s" "num_tokens t = num_tokens s"
    "num_prompt_tokens t = num_prompt_tokens s" "recompute_replay_cursor t = Some 0"
proof -
  have t: "t = clear_prefix_cache_hit (s\<lparr>recompute_replay_cursor := Some 0,
      decode_progress_checkpoint := num_completion_tokens s,
      num_prefilled_tokens := 0, current_chunk_size := None, status := WAITING\<rparr>)"
    and pos: "0 < num_completion_tokens s"
    using assms(2) by (simp_all add: start_recompute_replay_def split: if_split_asm)
  show "seq_tokens t = seq_tokens s" "num_tokens t = num_tokens s"
    "num_prompt_tokens t = num_prompt_tokens s" "recompute_replay_cursor t = Some 0"
    by (simp_all add: t clear_prefix_cache_hit_def)
  show "seq_ok t"
    using assms(1) pos
    by (simp add: t clear_prefix_cache_hit_def seq_ok_def num_completion_tokens_def
        completion_token_ids_def)
qed

section \<open>Workers see the same inputs\<close>

lemma truncate_fields [simp]:
  "num_completion_tokens (seq_meta.truncate s) = num_completion_tokens s"
  "is_recompute_prefill (seq_meta.truncate s) = is_recompute_prefill s"
  "is_recompute_decode (seq_meta.truncate s) = is_recompute_decode s"
  "is_recompute_replay (seq_meta.truncate s) = is_recompute_replay s"
  "num_prefilled_tokens (seq_meta.truncate s) = num_prefilled_tokens s"
  "num_prompt_tokens (seq_meta.truncate s) = num_prompt_tokens s"
  "num_tokens (seq_meta.truncate s) = num_tokens s"
  "recompute_replay_cursor (seq_meta.truncate s) = recompute_replay_cursor s"
  "current_chunk_size (seq_meta.truncate s) = current_chunk_size s"
  "multimodal_position_delta (seq_meta.truncate s) = multimodal_position_delta s"
  by (simp_all add: seq_meta.truncate_def num_completion_tokens_def is_recompute_prefill_def
      is_recompute_decode_def is_recompute_replay_def)

lemma extend_fields [simp]:
  "num_completion_tokens (seq_meta.extend m x) = num_completion_tokens m"
  "is_recompute_prefill (seq_meta.extend m x) = is_recompute_prefill m"
  "is_recompute_decode (seq_meta.extend m x) = is_recompute_decode m"
  "is_recompute_replay (seq_meta.extend m x) = is_recompute_replay m"
  "replay_decode_token_count (seq_meta.extend m x) = replay_decode_token_count m"
  "num_prefilled_tokens (seq_meta.extend m x) = num_prefilled_tokens m"
  "num_prompt_tokens (seq_meta.extend m x) = num_prompt_tokens m"
  "num_tokens (seq_meta.extend m x) = num_tokens m"
  "recompute_replay_cursor (seq_meta.extend m x) = recompute_replay_cursor m"
  "current_chunk_size (seq_meta.extend m x) = current_chunk_size m"
  "multimodal_position_delta (seq_meta.extend m x) = multimodal_position_delta m"
  by (simp_all add: seq_meta.extend_def num_completion_tokens_def is_recompute_prefill_def
      is_recompute_decode_def is_recompute_replay_def replay_decode_token_count_def)

lemma extend_tokens [simp]:
  "seq_tokens (seq_meta.extend m (seq.fields a b c d e f g)) = a"
  "last_token (seq_meta.extend m (seq.fields a b c d e f g)) = c"
  "prompt_copy (seq_meta.extend m (seq.fields a b c d e f g)) = b"
  by (simp_all add: seq_meta.extend_def seq.fields_def)

lemma extend_truncate [simp]: "seq_meta.truncate (seq_meta.extend (seq_meta.truncate s) x) = seq_meta.truncate s"
  by (simp add: seq_meta.extend_def seq_meta.truncate_def)

lemma replay_count_truncate [simp]:
  "replay_decode_token_count (seq_meta.truncate s) = replay_decode_token_count s"
  by (simp add: replay_decode_token_count_def)

lemma position_same:
  "decode_input_position (seq_meta.extend (seq_meta.truncate s) x) = decode_input_position s"
  by (simp add: decode_input_position_def)

lemma slice_length: "0 \<le> a \<Longrightarrow> int (length (slice a (a + c) xs)) = max 0 (min c (int (length xs) - a))"
  by (auto simp: slice_def min_def max_def)

theorem ship_decode:
  assumes ok: "seq_ok s" and dec: "0 < num_completion_tokens s" "\<not> is_recompute_prefill s"
  shows "\<exists>w t. getstate s = Inr w \<and> setstate w = Inr t \<and> seq_meta.truncate t = seq_meta.truncate s
      \<and> decode_input_token t = decode_input_token s \<and> decode_input_position t = decode_input_position s
      \<or> (\<exists>e. getstate s = Inl e \<and> decode_input_token s = Inl e)"
proof (cases "is_recompute_decode s")
  case False
  let ?t = "seq_meta.extend (seq_meta.truncate s) (seq.fields [] None (last_token s) None None [] [])"
  have "getstate s = Inr (seq_meta.truncate s, Token (last_token s))"
    using dec False by (simp add: getstate_def)
  moreover have "setstate (seq_meta.truncate s, Token (last_token s)) = Inr ?t"
    using dec by (simp add: setstate_def)
  moreover have "decode_input_token ?t = decode_input_token s"
    using False by (simp add: decode_input_token_def)
  ultimately show ?thesis using position_same by fastforce
next
  case True
  show ?thesis
  proof (cases "decode_input_token s")
    case (Inl e)
    then have "getstate s = Inl e" using dec True by (simp add: getstate_def)
    with Inl show ?thesis by blast
  next
    case (Inr t)
    let ?t = "seq_meta.extend (seq_meta.truncate s) (seq.fields [] None (Some t) None None [] [])"
    have "getstate s = Inr (seq_meta.truncate s, Token (Some t))"
      using dec True Inr by (simp add: getstate_def)
    moreover have "setstate (seq_meta.truncate s, Token (Some t)) = Inr ?t"
      using dec by (simp add: setstate_def)
    moreover have "decode_input_token ?t = Inr t"
    proof -
      have "0 \<le> num_prompt_tokens s + or_zero (recompute_replay_cursor s)"
        using ok by (auto simp: seq_ok_def or_zero_def split: option.splits)
      then show ?thesis
        using Inr True by (auto simp: decode_input_token_def Let_def split: if_splits)
    qed
    ultimately show ?thesis using position_same Inr by fastforce
  qed
qed

theorem ship_replay_prefill:
  assumes ok: "seq_ok s" and pre: "is_recompute_prefill s"
    and c: "current_chunk_size s = Some c" "num_prefilled_tokens s + c \<le> num_prompt_tokens s"
  shows "\<exists>w t. getstate s = Inr w \<and> setstate w = Inr t \<and> seq_meta.truncate t = seq_meta.truncate s
      \<and> replay_input_token_ids t = replay_input_token_ids s
      \<and> replay_input_token_ids s = slice (num_prefilled_tokens s) (num_prefilled_tokens s + c) (seq_tokens s)"
proof -
  let ?ids = "slice (num_prefilled_tokens s) (num_prefilled_tokens s + c) (seq_tokens s)"
  let ?t = "seq_meta.extend (seq_meta.truncate s) (seq.fields ?ids
      (if num_prefilled_tokens s = 0 \<and> int (length ?ids) = num_prompt_tokens s then Some ?ids else None)
      (if ?ids = [] then None else Some (last ?ids)) None None [] [])"
  have b: "0 \<le> num_prefilled_tokens s" "0 \<le> c" using ok c by (auto simp: seq_ok_def)
  have nt: "num_tokens s = int (length (seq_tokens s))" using ok by (simp add: seq_ok_def)
  have comp: "0 < num_completion_tokens s"
    using ok pre by (auto simp: seq_ok_def is_recompute_prefill_def is_recompute_replay_def)
  have len: "int (length ?ids) = c"
    using slice_length [OF b(1), of c "seq_tokens s"] b c(2) comp nt
    by (simp add: num_completion_tokens_def)
  have "getstate s = Inr (seq_meta.truncate s, Chunk ?ids)"
    using pre c by (simp add: getstate_def)
  moreover have "setstate (seq_meta.truncate s, Chunk ?ids) = Inr ?t"
    using pre by (simp add: setstate_def)
  moreover have "replay_input_token_ids ?t = ?ids"
    using pre c len by (simp add: replay_input_token_ids_def or_zero_def)
  moreover have "replay_input_token_ids s = ?ids"
  proof -
    have "int (length (seq_tokens s)) \<noteq> c" using comp nt b c(2) by (simp add: num_completion_tokens_def)
    then show ?thesis using pre c by (simp add: replay_input_token_ids_def or_zero_def Let_def)
  qed
  ultimately show ?thesis by (intro exI [of _ "(seq_meta.truncate s, Chunk ?ids)"] exI [of _ ?t]) simp
qed

section \<open>Replay feeds exactly the accepted completion\<close>

text \<open>
  The decode inputs of a replay: read the input, advance, until the replay is over.
\<close>

fun replay_inputs :: "nat \<Rightarrow> seq \<Rightarrow> int list res \<times> seq" where
  "replay_inputs 0 s = (Inl Diverges, s)"
| "replay_inputs (Suc fuel) s =
     (if \<not> is_recompute_decode s then (Inr [], s)
      else case decode_input_token s of
        Inl e \<Rightarrow> (Inl e, s)
      | Inr t \<Rightarrow>
          (case advance_recompute_replay s of
             (Inl e, s') \<Rightarrow> (Inl e, s')
           | (Inr _, s') \<Rightarrow>
               (case replay_inputs fuel s' of
                  (Inl e, s'') \<Rightarrow> (Inl e, s'') | (Inr ts, s'') \<Rightarrow> (Inr (t # ts), s''))))"

lemma replay_inputs_from:
  assumes ok: "seq_ok s" and dec: "is_recompute_decode s" and c: "recompute_replay_cursor s = Some c"
    and lt: "c < replay_decode_token_count s" and fuel: "replay_decode_token_count s - c < int fuel"
  shows "\<exists>t. replay_inputs fuel s = (Inr (drop (nat c) (butlast (completion_token_ids s))), t)
      \<and> seq_tokens t = seq_tokens s \<and> \<not> is_recompute_replay t \<and> seq_ok t"
  using assms
proof (induction fuel arbitrary: s c)
  case (Suc fuel)
  let ?n = "nat (num_prompt_tokens s)"
  have b: "0 \<le> c" "0 \<le> num_prompt_tokens s" "num_tokens s = int (length (seq_tokens s))"
    using Suc.prems by (auto simp: seq_ok_def)
  have cnt: "replay_decode_token_count s = num_tokens s - num_prompt_tokens s - 1"
    using Suc.prems(4) b by (auto simp: replay_decode_token_count_def num_completion_tokens_def max_def split: if_splits)
  have idx: "nat (num_prompt_tokens s + c) < length (seq_tokens s)" using Suc.prems(4) cnt b by linarith
  have tok: "decode_input_token s = Inr (seq_tokens s ! nat (num_prompt_tokens s + c))"
    using Suc.prems(2,3,4) idx b by (auto simp: decode_input_token_def or_zero_def)
  have len: "length (completion_token_ids s) = nat (replay_decode_token_count s) + 1"
    using cnt b Suc.prems(4) by (auto simp: completion_token_ids_def)
  have nc: "nat c < length (butlast (completion_token_ids s))" using len Suc.prems(4) b by simp
  have nth: "butlast (completion_token_ids s) ! nat c = seq_tokens s ! nat (num_prompt_tokens s + c)"
    using nc b by (simp add: nth_butlast completion_token_ids_def nat_add_distrib)
  have split: "drop (nat c) (butlast (completion_token_ids s)) =
      seq_tokens s ! nat (num_prompt_tokens s + c) # drop (nat (c + 1)) (butlast (completion_token_ids s))"
    using nc nth b by (simp add: Cons_nth_drop_Suc [symmetric] nat_add_distrib)
  show ?case
  proof (cases "replay_decode_token_count s \<le> c + 1")
    case True
    let ?t = "s\<lparr>recompute_replay_cursor := None, decode_progress_checkpoint := num_completion_tokens s\<rparr>"
    have adv: "advance_recompute_replay s = (Inr (), ?t)"
      using Suc.prems(2,3) True
      by (simp add: advance_recompute_replay_def finish_recompute_replay_def or_zero_def Let_def
          is_recompute_replay_def replay_decode_token_count_def num_completion_tokens_def)
    have nr: "\<not> is_recompute_decode ?t" by (simp add: is_recompute_decode_def is_recompute_replay_def)
    obtain f where f: "fuel = Suc f" using Suc.prems(4,5) by (cases fuel) auto
    have "drop (nat (c + 1)) (butlast (completion_token_ids s)) = []" using True len b by simp
    moreover have "seq_ok ?t"
      using Suc.prems(1) by (simp add: seq_ok_def completion_token_ids_def)
    ultimately show ?thesis
      using Suc.prems(2) tok adv nr split
      by (simp add: f) (simp add: is_recompute_replay_def)
  next
    case False
    let ?t = "s\<lparr>recompute_replay_cursor := Some (c + 1)\<rparr>"
    have rc: "replay_decode_token_count ?t = replay_decode_token_count s"
      by (simp add: replay_decode_token_count_def num_completion_tokens_def)
    have adv: "advance_recompute_replay s = (Inr (), ?t)"
      using Suc.prems(2,3) False by (simp add: advance_recompute_replay_def or_zero_def Let_def rc)
    have same: "replay_decode_token_count ?t = replay_decode_token_count s"
      "completion_token_ids ?t = completion_token_ids s" "is_recompute_decode ?t"
      using Suc.prems(2) by (simp_all add: replay_decode_token_count_def num_completion_tokens_def
          completion_token_ids_def is_recompute_decode_def is_recompute_replay_def)
    have okt: "seq_ok ?t"
      using Suc.prems(1,3) False b
      by (auto simp: seq_ok_def num_completion_tokens_def replay_decode_token_count_def completion_token_ids_def)
    have "\<exists>t. replay_inputs fuel ?t = (Inr (drop (nat (c + 1)) (butlast (completion_token_ids ?t))), t)
        \<and> seq_tokens t = seq_tokens ?t \<and> \<not> is_recompute_replay t \<and> seq_ok t"
      by (rule Suc.IH [OF okt]) (use same False Suc.prems(5) in auto)
    with Suc.prems(2) tok adv split same show ?thesis by auto
  qed
qed simp

theorem replay_feeds_history:
  assumes ok: "seq_ok s" and n: "1 < num_completion_tokens s"
  shows "\<exists>t. start_recompute_replay s = (Inr (), t)
      \<and> (\<exists>u. replay_inputs (length (seq_tokens s) + 1)
              (t\<lparr>num_prefilled_tokens := num_prompt_tokens t\<rparr>)
            = (Inr (butlast (completion_token_ids s)), u)
          \<and> seq_tokens u = seq_tokens s \<and> \<not> is_recompute_replay u
          \<and> decode_input_token u = Inr (last (completion_token_ids s)))"
proof -
  obtain t where t: "start_recompute_replay s = (Inr (), t)"
    using n by (auto simp: start_recompute_replay_def)
  note st = seq_ok_start [OF ok t]
  let ?p = "t\<lparr>num_prefilled_tokens := num_prompt_tokens t\<rparr>"
  have okp: "seq_ok ?p" using st(1)
    by (auto simp: seq_ok_def num_completion_tokens_def replay_decode_token_count_def completion_token_ids_def)
  have dec: "is_recompute_decode ?p" using st by (simp add: is_recompute_decode_def is_recompute_replay_def)
  have cnt: "replay_decode_token_count ?p = num_completion_tokens s - 1"
    using n st by (simp add: replay_decode_token_count_def num_completion_tokens_def)
  have comp: "completion_token_ids ?p = completion_token_ids s"
    using st by (simp add: completion_token_ids_def)
  have bnd: "num_completion_tokens s \<le> int (length (seq_tokens s))"
    using ok by (auto simp: seq_ok_def num_completion_tokens_def)
  from replay_inputs_from [OF okp dec, of 0 "length (seq_tokens s) + 1"] obtain u where
    u: "replay_inputs (length (seq_tokens s) + 1) ?p = (Inr (butlast (completion_token_ids s)), u)"
      "seq_tokens u = seq_tokens s" "\<not> is_recompute_replay u" "seq_ok u"
    using st cnt n comp bnd by auto
  have "seq_tokens s \<noteq> []" using n bnd by auto
  moreover have "last (completion_token_ids s) = last (seq_tokens s)"
    using n ok by (auto simp: completion_token_ids_def seq_ok_def num_completion_tokens_def intro!: last_drop)
  ultimately have "decode_input_token u = Inr (last (completion_token_ids s))"
    using u(2,3,4) by (simp add: decode_input_token_def is_recompute_decode_def seq_ok_def)
  with t u show ?thesis by blast
qed

end
