(* ===== verification/Standard_Cache.thy ===== *)
theory Standard_Cache
  imports Prefix_System Slot_Ranges Sequence
begin

text \<open>
  \<open>StandardCacheManager\<close> of \<open>engine/cache_manager/standard.py\<close> with the \<open>PrefixCacheMixin\<close> of
  \<open>prefix_cache_mixin.py\<close>: the state, the stack of free KV slots, the rows and the prefix
  payloads. Prefix offload is off (\<open>prefix_offload_controller is None\<close>), so the branches on the
  controller are the ones without it.

  The manager owns the prefix index of \<open>Prefix_Index\<close>. Blocks are references into the store of
  the index and a block refers to its payload by an address of \<open>payload_at\<close>; an address that
  holds \<open>None\<close> is an object that is no \<open>StandardPrefixBlockPayload\<close>. Both objects are created
  together and share the address, taken from \<open>next_ref\<close>.
\<close>

section \<open>State\<close>

record std_payload =
  token_slots :: "int list option"
  block_start :: int
  block_end :: int
  host_block_index :: "int option"
  retained_offsets :: "int list option"

record prefix_runtime =
  rt_parent :: "bytes option"
  next_logical_block_idx :: int
  pending_tokens :: "int list"
  pending_slots :: "int list list"

record pending_block =
  pb_block_id :: bytes
  pb_parent_id :: "bytes option"
  pb_logical_idx :: int
  pb_payload :: std_payload
  pb_slots :: "int list"
  pb_token_ids :: "int list"

record std_cache =
  num_kvcache_slots :: int
  max_buffer_rows :: nat
  max_model_len :: int
  step_tokens :: int
  step_seqs :: int
  config_fingerprint :: bytes
  config_max_blocks :: "int option"
  sparse_name :: string
  enable_prefix_caching :: bool
  cache_block_size :: int
  free_slots_stack :: "int list"
  num_free :: int
  buffer_slots :: "int list list"
  seq_id_to_row :: "(int, nat) dict"
  free_rows :: "nat list"
  row_seq_lens :: "int list"
  row_logical_lens :: "int list"
  prefix_cache :: "index option"
  payload_at :: "nat \<Rightarrow> std_payload option"
  next_ref :: nat
  seq_id_to_prefix_blocks :: "(int, nat list) dict"
  seq_id_to_materialized_blocks :: "(int, nat list) dict"
  seq_id_to_cached_ranges :: "(int, ranges) dict"
  prefix_runtime_states :: "(int, prefix_runtime) dict"
  pending_prefix_blocks :: "(int, pending_block list) dict"

type_synonym 'a mg = "(std_cache, py_error, 'a) eff"

definition arange :: "int \<Rightarrow> int list" where
  "arange n = [0..n - 1]"

definition make_std_cache ::
    "int \<Rightarrow> nat \<Rightarrow> int \<Rightarrow> int \<Rightarrow> int \<Rightarrow> bytes \<Rightarrow> int option \<Rightarrow> string \<Rightarrow> bool \<Rightarrow> int
      \<Rightarrow> (nat \<Rightarrow> block) \<Rightarrow> std_cache res" where
  "make_std_cache num_slots rows maxlen tokens seqs fp cap name caching bs heap0 =
     (let enabled = caching \<and> name \<in> {'''', ''omnikv''};
          build = (\<lambda>ix. \<lparr>num_kvcache_slots = num_slots, max_buffer_rows = rows, max_model_len = maxlen,
            step_tokens = tokens, step_seqs = seqs, config_fingerprint = fp, config_max_blocks = cap,
            sparse_name = name, enable_prefix_caching = enabled, cache_block_size = bs,
            free_slots_stack = arange num_slots, num_free = num_slots,
            buffer_slots = replicate rows (replicate (nat maxlen) 0), seq_id_to_row = [],
            free_rows = [0..<rows], row_seq_lens = replicate rows 0,
            row_logical_lens = replicate rows 0, prefix_cache = ix, payload_at = (\<lambda>_. None),
            next_ref = 0, seq_id_to_prefix_blocks = [], seq_id_to_materialized_blocks = [],
            seq_id_to_cached_ranges = [], prefix_runtime_states = [], pending_prefix_blocks = []\<rparr>)
      in if enabled then
           (case make_index bs fp cap heap0 of Inl e \<Rightarrow> Inl e | Inr ix \<Rightarrow> Inr (build (Some ix)))
         else Inr (build None))"

abbreviation num_free_rows :: "std_cache \<Rightarrow> int" where
  "num_free_rows m \<equiv> int (length (free_rows m))"

text \<open>The prefix index is only called where it is known to exist.\<close>

definition on_index :: "'a ix \<Rightarrow> 'a mg" where
  "on_index f m =
     (case prefix_cache m of
        None \<Rightarrow> (Inl (AttributeError ''NoneType''), m)
      | Some ix \<Rightarrow> (case f ix of (r, ix') \<Rightarrow> (r, m\<lparr>prefix_cache := Some ix'\<rparr>)))"

definition caching :: "std_cache \<Rightarrow> bool" where
  "caching m \<longleftrightarrow> enable_prefix_caching m \<and> prefix_cache m \<noteq> None"

section \<open>Payloads\<close>

definition resident_tokens :: "int \<Rightarrow> std_payload \<Rightarrow> int" where
  "resident_tokens bs p =
     (case retained_offsets p of None \<Rightarrow> bs | Some offs \<Rightarrow> int (length offs))"

definition block_resident_tokens_or_full :: "std_cache \<Rightarrow> block \<Rightarrow> int" where
  "block_resident_tokens_or_full m b =
     (case payload_at m (payload b) of
        Some p \<Rightarrow> resident_tokens (cache_block_size m) p | None \<Rightarrow> cache_block_size m)"

definition block_at :: "std_cache \<Rightarrow> nat \<Rightarrow> block option" where
  "block_at m r = map_option (\<lambda>ix. obj ix r) (prefix_cache m)"

definition payload_of :: "std_cache \<Rightarrow> nat \<Rightarrow> std_payload option" where
  "payload_of m r = (case block_at m r of None \<Rightarrow> None | Some b \<Rightarrow> payload_at m (payload b))"

definition standard_payload :: "std_cache \<Rightarrow> nat \<Rightarrow> std_payload res" where
  "standard_payload m r =
     (case payload_of m r of
        None \<Rightarrow> Inl (RuntimeError ''Standard prefix cache block has an invalid payload.'')
      | Some p \<Rightarrow> Inr p)"

definition make_prefix_block_payload :: "int list \<Rightarrow> std_payload" where
  "make_prefix_block_payload slots =
     \<lparr>token_slots = Some slots, block_start = 0, block_end = int (length slots),
      host_block_index = None, retained_offsets = None\<rparr>"

section \<open>The stack of free slots\<close>

text \<open>\<open>n\<close> cells above the stack pointer are overwritten with the slots given back.\<close>

definition push_slots :: "int \<Rightarrow> int list \<Rightarrow> unit mg" where
  "push_slots n slots m =
     (let ptr = num_free m in
      case tstore ptr (ptr + n) slots (free_slots_stack m) of
        Inl e \<Rightarrow> (Inl e, m)
      | Inr st \<Rightarrow> (Inr (), m\<lparr>free_slots_stack := st, num_free := ptr + n\<rparr>))"

definition return_prefix_device_slots :: "int list \<Rightarrow> unit mg" where
  "return_prefix_device_slots slots = push_slots (int (length slots)) slots"

definition pop_slots :: "int \<Rightarrow> std_cache \<Rightarrow> int list \<times> std_cache" where
  "pop_slots n m =
     (let ptr = num_free m in
      (tslice (free_slots_stack m) (ptr - n) ptr, m\<lparr>num_free := ptr - n\<rparr>))"

section \<open>Eviction\<close>

definition free_device_prefix_block :: "nat \<Rightarrow> unit mg" where
  "free_device_prefix_block r m =
     (case payload_of m r of
        None \<Rightarrow> (Inl (RuntimeError ''Standard prefix cache block is missing its device payload.''), m)
      | Some p \<Rightarrow>
          (case token_slots p of
             None \<Rightarrow> (Inl (RuntimeError ''Standard prefix cache block has invalid device slots: ''), m)
           | Some slots \<Rightarrow>
               if int (length slots) \<noteq> resident_tokens (cache_block_size m) p then
                 (Inl (RuntimeError ''Standard prefix cache block has invalid device slots: ''), m)
               else bindE (push_slots (int (length slots)) slots) (\<lambda>_ t.
                 (Inr (), (case block_at t r of None \<Rightarrow> t | Some b \<Rightarrow>
                    t\<lparr>payload_at := (payload_at t)(payload b \<mapsto> p\<lparr>token_slots := None\<rparr>)\<rparr>))) m))"

text \<open>The result lists the blocks that also have a host payload.\<close>

fun free_block_payloads :: "nat list \<Rightarrow> nat list mg" where
  "free_block_payloads [] m = (Inr [], m)"
| "free_block_payloads (r # rs) m =
     (if payload_of m r = None then
        (Inl (RuntimeError ''Standard prefix cache block is missing token slots.''), m)
      else
        (let rd = map_option residency (block_at m r);
             dev = (rd \<noteq> None \<and> device_present (the rd));
             host = (rd \<noteq> None \<and> host_present (the rd))
         in case (if dev then free_device_prefix_block r m else (Inr (), m)) of
              (Inl e, t) \<Rightarrow> (Inl e, t)
            | (Inr _, t) \<Rightarrow>
                (case free_block_payloads rs t of
                   (Inl e, u) \<Rightarrow> (Inl e, u)
                 | (Inr hs, u) \<Rightarrow> (Inr (if host then r # hs else hs), u))))"

definition free_prefix_cache_blocks :: "nat list \<Rightarrow> unit mg" where
  "free_prefix_cache_blocks rs =
     bindE (free_block_payloads rs) (\<lambda>hs.
       failIf (hs \<noteq> [])
         (RuntimeError ''Prefix blocks have host payloads but no offload controller is active.''))"

definition evict_prefix_cache_until_free :: "int \<Rightarrow> unit mg" where
  "evict_prefix_cache_until_free needed m =
     (if \<not> caching m then (Inr (), m)
      else if needed \<le> num_free m then (Inr (), m)
      else bindE (on_index (evict_until_weight (needed - num_free m) (block_resident_tokens_or_full m)))
             free_prefix_cache_blocks m)"

definition evict_prefix_cache_for_insert :: "int \<Rightarrow> unit mg" where
  "evict_prefix_cache_for_insert needed m =
     (if \<not> caching m then (Inr (), m)
      else bindE (on_index (ensure_insert_capacity needed)) free_prefix_cache_blocks m)"

definition take_prefix_device_slots :: "int \<Rightarrow> int list mg" where
  "take_prefix_device_slots n =
     bindE (evict_prefix_cache_until_free n) (\<lambda>_ m.
       if num_free m < n then
         (Inl (RuntimeError ''Out of KV cache slots while promoting a CPU prefix: ''), m)
       else (case pop_slots n m of (slots, t) \<Rightarrow> (Inr slots, t)))"

section \<open>Rows\<close>

definition get_free_row :: "int \<Rightarrow> nat mg" where
  "get_free_row sid m =
     (case dict_get (seq_id_to_row m) sid of
        Some r \<Rightarrow> (Inr r, m)
      | None \<Rightarrow>
          (case free_rows m of
             [] \<Rightarrow> (Inl (RuntimeError ''No free rows in cache manager buffer!''), m)
           | r # rs \<Rightarrow> (Inr r, m\<lparr>free_rows := rs, seq_id_to_row := dict_set sid r (seq_id_to_row m)\<rparr>)))"

definition row_len :: "std_cache \<Rightarrow> nat \<Rightarrow> int" where
  "row_len m r = row_seq_lens m ! r"

definition store_row :: "nat \<Rightarrow> int \<Rightarrow> int \<Rightarrow> int list \<Rightarrow> unit mg" where
  "store_row r a b vs m =
     (case tstore a b vs (buffer_slots m ! r) of
        Inl e \<Rightarrow> (Inl e, m)
      | Inr row \<Rightarrow> (Inr (), m\<lparr>buffer_slots := (buffer_slots m)[r := row]\<rparr>))"

definition grow_row :: "nat \<Rightarrow> int \<Rightarrow> std_cache \<Rightarrow> std_cache" where
  "grow_row r amount m =
     m\<lparr>row_seq_lens := (row_seq_lens m)[r := row_seq_lens m ! r + amount],
       row_logical_lens := (row_logical_lens m)[r := row_logical_lens m ! r + amount]\<rparr>"

definition allocate :: "int \<Rightarrow> int \<Rightarrow> int list mg" where
  "allocate sid amount =
     bindE (evict_prefix_cache_until_free amount) (\<lambda>_.
     bindE (\<lambda>m. failIf (num_free m < amount) (AssertionError ''Out of KV cache slots: '') m) (\<lambda>_.
     bindE (get_free_row sid) (\<lambda>r m.
       let cur = row_len m r; (sel, m1) = pop_slots amount m
       in bindE (store_row r cur (cur + amount) sel) (\<lambda>_ t. (Inr sel, grow_row r amount t)) m1)))"

fun get_free_rows :: "int list \<Rightarrow> nat list mg" where
  "get_free_rows [] m = (Inr [], m)"
| "get_free_rows (sid # sids) m =
     (case get_free_row sid m of
        (Inl e, t) \<Rightarrow> (Inl e, t)
      | (Inr r, t) \<Rightarrow> (case get_free_rows sids t of
          (Inl e, u) \<Rightarrow> (Inl e, u) | (Inr rs, u) \<Rightarrow> (Inr (r # rs), u)))"

text \<open>
  \<open>buffer[rows, cols] = vals\<close> writes one cell per row, \<open>lens[rows] += 1\<close> of numpy reads all the
  old values first.
\<close>

definition store_cells :: "(nat \<times> int \<times> int) list \<Rightarrow> unit mg" where
  "store_cells cells m =
     (if \<exists>(r, c, v)\<in>set cells. int (length (buffer_slots m ! r)) \<le> c then
        (Inl (IndexError ''index is out of bounds''), m)
      else (Inr (), m\<lparr>buffer_slots :=
        fold (\<lambda>(r, c, v) b. b[r := (b ! r)[nat c := v]]) cells (buffer_slots m)\<rparr>))"

definition bump_all :: "nat list \<Rightarrow> int list \<Rightarrow> int list" where
  "bump_all rs xs = fold (\<lambda>(r, v) ys. ys[r := v]) (map (\<lambda>r. (r, xs ! r + 1)) rs) xs"

definition grow_rows :: "nat list \<Rightarrow> std_cache \<Rightarrow> std_cache" where
  "grow_rows rs m =
     m\<lparr>row_seq_lens := bump_all rs (row_seq_lens m),
       row_logical_lens := bump_all rs (row_logical_lens m)\<rparr>"

definition allocate_batch :: "int list \<Rightarrow> int \<Rightarrow> int list mg" where
  "allocate_batch sids amount =
     (let n = int (length sids) in
      bindE (failIf (amount \<noteq> 1)
        (AssertionError ''Batch allocation currently only supports size=1 (Decode)'')) (\<lambda>_.
      bindE (evict_prefix_cache_until_free n) (\<lambda>_.
      bindE (\<lambda>m. failIf (num_free m < n) (AssertionError ''Out of KV cache slots: '') m) (\<lambda>_.
      bindE (get_free_rows sids) (\<lambda>rs m.
        let cols = map (row_len m) rs; (sel, m1) = pop_slots n m
        in bindE (store_cells (zip rs (zip cols sel))) (\<lambda>_ t. (Inr sel, grow_rows rs t)) m1)))))"

text \<open>
  Decode into a captured graph plans the rows first and takes them only after the slots are
  known to be there; a plan that no longer fits the queue of free rows is refused.
\<close>

fun plan_rows :: "(int, nat) dict \<Rightarrow> nat list \<Rightarrow> int list \<Rightarrow> (nat list \<times> (int \<times> nat) list) res" where
  "plan_rows owned free [] = Inr ([], [])"
| "plan_rows owned free (sid # sids) =
     (case dict_get owned sid of
        Some r \<Rightarrow> map_sum id (\<lambda>(rows, pend). (r # rows, pend)) (plan_rows owned free sids)
      | None \<Rightarrow>
          (case free of
             [] \<Rightarrow> Inl (RuntimeError ''No free rows for static decode batch: '')
           | r # rest \<Rightarrow>
               map_sum id (\<lambda>(rows, pend). (r # rows, (sid, r) # pend)) (plan_rows owned rest sids)))"

definition plan_decode_rows :: "std_cache \<Rightarrow> int list \<Rightarrow> (nat list \<times> (int \<times> nat) list) res" where
  "plan_decode_rows m sids =
     (if \<forall>sid\<in>set sids. dict_get (seq_id_to_row m) sid \<noteq> None then
        Inr (map (\<lambda>sid. the (dict_get (seq_id_to_row m) sid)) sids, [])
      else plan_rows (seq_id_to_row m) (free_rows m) sids)"

definition commit_row :: "int \<times> nat \<Rightarrow> unit mg" where
  "commit_row p m =
     (case free_rows m of
        r # rs \<Rightarrow>
          if r = snd p then
            (Inr (), m\<lparr>free_rows := rs, seq_id_to_row := dict_set (fst p) r (seq_id_to_row m)\<rparr>)
          else (Inl (RuntimeError ''Static decode row plan changed before commit: ''), m)
      | [] \<Rightarrow> (Inl (RuntimeError ''Static decode row plan changed before commit: ''), m))"

definition commit_decode_rows :: "(int \<times> nat) list \<Rightarrow> unit mg" where
  "commit_decode_rows = forE commit_row"

definition allocate_decode_batch_static ::
    "int list \<Rightarrow> nat list \<Rightarrow> (int \<times> nat) list \<Rightarrow> (int list \<times> int list \<times> nat list) mg" where
  "allocate_decode_batch_static sids rows pending =
     (let n = int (length sids) in
      bindE (evict_prefix_cache_until_free n) (\<lambda>_.
      bindE (\<lambda>m. failIf (num_free m < n) (RuntimeError ''Out of KV cache slots: need '') m) (\<lambda>_.
      bindE (failIf (length rows \<noteq> length sids)
        (ValueError ''Static decode reservation rows must match the active batch: '')) (\<lambda>_.
      bindE (commit_decode_rows pending) (\<lambda>_ m.
        let (sel, m1) = pop_slots n m; m2 = grow_rows rows m1
        in (Inr (sel, map (row_len m2) rows, rows), m2))))))"

end
