(* ===== verification/Standard_Prefix.thy ===== *)
theory Standard_Prefix
  imports Standard_Cache
begin

text \<open>
  The prefix half of the Standard cache manager: materialization of full blocks of freshly
  written tokens, their commit to the index at the end of a forward pass, attaching a cached
  chain to a new row, giving a finished sequence back, deletion and pruning, and the two
  \<open>prepare\<close> methods that a step of the engine calls.
\<close>

section \<open>Block references\<close>

definition release_prefix_blocks :: "nat list \<Rightarrow> unit mg" where
  "release_prefix_blocks rs m =
     (if prefix_cache m = None \<and> rs \<noteq> [] then
        (Inl (RuntimeError ''Cannot release prefix blocks without a prefix cache.''), m)
      else forE (\<lambda>r. on_index (release_block_ref r negative_ref)) rs m)"

definition get_list :: "('k, 'a list) dict \<Rightarrow> 'k \<Rightarrow> 'a list" where
  "get_list d k = (case dict_get d k of None \<Rightarrow> [] | Some xs \<Rightarrow> xs)"

definition held_blocks :: "std_cache \<Rightarrow> int \<Rightarrow> nat list" where
  "held_blocks m sid =
     get_list (seq_id_to_prefix_blocks m) sid @ get_list (seq_id_to_materialized_blocks m) sid"

definition add_materialized :: "int \<Rightarrow> nat \<Rightarrow> std_cache \<Rightarrow> std_cache" where
  "add_materialized sid r m =
     m\<lparr>seq_id_to_materialized_blocks :=
         dict_set sid (get_list (seq_id_to_materialized_blocks m) sid @ [r])
           (seq_id_to_materialized_blocks m)\<rparr>"

definition hold_materialized_prefix_block_ref :: "int \<Rightarrow> nat \<Rightarrow> unit mg" where
  "hold_materialized_prefix_block_ref sid r m =
     (let key = (\<lambda>r. map_option stable_block_id (block_at m r)) in
      if \<exists>x\<in>set (held_blocks m sid). key x = key r then (Inr (), m)
      else if prefix_cache m = None then
        (Inl (RuntimeError ''Cannot hold a prefix block without a prefix cache.''), m)
      else bindE (on_index (acquire_block_ref r)) (\<lambda>_. modifyE (add_materialized sid r)) m)"

section \<open>Collecting full blocks\<close>

type_synonym building = "prefix_runtime \<times> pending_block list"

definition add_block ::
    "(bytes \<Rightarrow> bytes) \<Rightarrow> index \<Rightarrow> int list \<Rightarrow> int list \<Rightarrow> (building, py_error, unit) eff" where
  "add_block H ix tokens slots b =
     (let (st, pend) = b in
      case index_block_id H ix tokens (rt_parent st) of
        Inl e \<Rightarrow> (Inl e, b)
      | Inr bid \<Rightarrow>
          (Inr (), st\<lparr>rt_parent := Some bid, next_logical_block_idx := next_logical_block_idx st + 1\<rparr>,
           pend @ [\<lparr>pb_block_id = bid, pb_parent_id = rt_parent st,
                    pb_logical_idx = next_logical_block_idx st,
                    pb_payload = make_prefix_block_payload slots, pb_slots = slots,
                    pb_token_ids = tokens\<rparr>]))"

definition clear_pending :: "building \<Rightarrow> building" where
  "clear_pending b = ((fst b)\<lparr>pending_tokens := [], pending_slots := []\<rparr>, snd b)"

text \<open>The tokens that complete no block yet are kept with their slots.\<close>

definition collect_rest :: "int list \<Rightarrow> int list \<Rightarrow> building \<Rightarrow> building" where
  "collect_rest ids slots b =
     (if ids \<noteq> [] then ((fst b)\<lparr>pending_tokens := ids, pending_slots := [slots]\<rparr>, snd b)
      else clear_pending b)"

definition collect_full ::
    "(bytes \<Rightarrow> bytes) \<Rightarrow> index \<Rightarrow> nat \<Rightarrow> int list \<Rightarrow> int list \<Rightarrow> (building, py_error, unit) eff" where
  "collect_full H ix bs ids slots =
     (let full = length ids div bs * bs in
      bindE (forE (\<lambda>(ts, ss). add_block H ix ts ss) (zip (chunks bs ids) (chunks bs slots))) (\<lambda>_.
        modifyE (collect_rest (drop full ids) (drop full slots))))"

definition collect_blocks_of ::
    "(bytes \<Rightarrow> bytes) \<Rightarrow> index \<Rightarrow> nat \<Rightarrow> int list \<Rightarrow> int list \<Rightarrow> (building, py_error, unit) eff" where
  "collect_blocks_of H ix bs ids slots b =
     (let st = fst b in
      if pending_tokens st = [] then collect_full H ix bs ids slots b
      else
        (let n = min (bs - length (pending_tokens st)) (length ids);
             st1 = st\<lparr>pending_tokens := pending_tokens st @ take n ids,
                      pending_slots := pending_slots st @ [take n slots]\<rparr>
         in if length (pending_tokens st1) = bs then
              bindE (add_block H ix (pending_tokens st1) (concat (pending_slots st1))) (\<lambda>_.
              bindE (modifyE clear_pending) (\<lambda>_.
                collect_full H ix bs (drop n ids) (drop n slots))) (st1, snd b)
            else (Inr (), st1, snd b)))"

definition runtime_of :: "std_cache \<Rightarrow> seq \<Rightarrow> prefix_runtime" where
  "runtime_of m q =
     (case dict_get (prefix_runtime_states m) (seq_id q) of
        Some st \<Rightarrow> st
      | None \<Rightarrow> \<lparr>rt_parent = prefix_cache_hit_last_block_id q,
                 next_logical_block_idx = prefix_cache_hit_block_count q,
                 pending_tokens = [], pending_slots = []\<rparr>)"

definition record_prefix_materialization ::
    "(bytes \<Rightarrow> bytes) \<Rightarrow> seq \<Rightarrow> int list \<Rightarrow> int list \<Rightarrow> unit mg" where
  "record_prefix_materialization H q ids slots m =
     (if multimodal_digest q \<noteq> None \<or> \<not> caching m then (Inr (), m)
      else if length ids \<noteq> length slots then
        (Inl (RuntimeError ''Prefix materialization token/slot mismatch: ''), m)
      else if ids = [] then (Inr (), m)
      else case prefix_cache m of
        None \<Rightarrow> (Inr (), m)
      | Some ix \<Rightarrow>
          (case collect_blocks_of H ix (nat (cache_block_size m)) ids slots
                  (runtime_of m q, get_list (pending_prefix_blocks m) (seq_id q)) of
             (x, st, pend) \<Rightarrow>
               (x, m\<lparr>prefix_runtime_states := dict_set (seq_id q) st (prefix_runtime_states m),
                     pending_prefix_blocks := dict_set (seq_id q) pend (pending_prefix_blocks m)\<rparr>)))"

section \<open>Committing blocks after the forward pass\<close>

definition attached_resident :: "std_cache \<Rightarrow> int \<Rightarrow> int res" where
  "attached_resident m sid =
     map_sum id (\<lambda>ps. sum_list (map (resident_tokens (cache_block_size m)) ps))
       (mapE (standard_payload m) (get_list (seq_id_to_prefix_blocks m) sid))"

definition mark_materialized_prefix_block :: "seq \<Rightarrow> nat \<Rightarrow> unit mg" where
  "mark_materialized_prefix_block q r m0 =
     (let sid = seq_id q; old = get_list (seq_id_to_cached_ranges m0) sid;
          m = m0\<lparr>seq_id_to_cached_ranges := dict_set sid old (seq_id_to_cached_ranges m0)\<rparr>
      in case attached_resident m sid of
        Inl e \<Rightarrow> (Inl e, m)
      | Inr att \<Rightarrow>
          (let idx = (case block_at m r of None \<Rightarrow> 0 | Some b \<Rightarrow> logical_block_idx b);
               start = att + idx * cache_block_size m - prefix_cache_hit_len q
           in if start < 0 then
                (Inl (RuntimeError ''materialized prefix block resolved to a negative physical row offset: ''), m)
              else (Inr (), m\<lparr>seq_id_to_cached_ranges :=
                dict_set sid (old @ [(start, start + cache_block_size m)]) (seq_id_to_cached_ranges m)\<rparr>)))"

definition default_residency :: residency where
  "default_residency = \<lparr>device_present = True, host_present = False, transfer = None\<rparr>"

definition new_block :: "int \<Rightarrow> pending_block \<Rightarrow> nat \<Rightarrow> block" where
  "new_block bs p addr =
     \<lparr>stable_block_id = pb_block_id p, parent_block_id = pb_parent_id p, logical_tokens = bs,
      logical_block_idx = pb_logical_idx p, payload = addr, token_ids = pb_token_ids p,
      ref_count = 1, last_access = 0, eviction_priority = 0, residency = default_residency,
      prune_record = None\<rparr>"

text \<open>The block object and its payload get the next address; nothing else refers to it yet.\<close>

definition create_block :: "pending_block \<Rightarrow> nat mg" where
  "create_block p m =
     (let r = next_ref m in
      (Inr r, m\<lparr>next_ref := r + 1, payload_at := (payload_at m)(r \<mapsto> pb_payload p),
              prefix_cache := map_option (upd_obj r (\<lambda>_. new_block (cache_block_size m) p r))
                (prefix_cache m)\<rparr>))"

definition index_has :: "std_cache \<Rightarrow> bytes \<Rightarrow> bool" where
  "index_has m b = (case prefix_cache m of None \<Rightarrow> False | Some ix \<Rightarrow> has_block ix b)"

definition commit_block :: "seq \<Rightarrow> pending_block \<Rightarrow> unit mg" where
  "commit_block q p =
     bindE (\<lambda>m. if index_has m (pb_block_id p) then (Inr (), m)
                else evict_prefix_cache_for_insert 1 m) (\<lambda>_.
     bindE (create_block p) (\<lambda>r.
     bindE (on_index (insert_block r)) (\<lambda>inserted.
       if inserted \<noteq> r then hold_materialized_prefix_block_ref (seq_id q) inserted
       else bindE (modifyE (add_materialized (seq_id q) inserted)) (\<lambda>_.
              mark_materialized_prefix_block q inserted))))"

text \<open>The ids whose blocks must survive the evictions of the commit; their order is immaterial.\<close>

definition protected_ids :: "std_cache \<Rightarrow> pending_block list \<Rightarrow> bytes list" where
  "protected_ids m ps =
     remdups (filter (index_has m)
       (concat (map (\<lambda>p. (case pb_parent_id p of None \<Rightarrow> [] | Some b \<Rightarrow> [b]) @ [pb_block_id p]) ps)))"

fun protect :: "bytes list \<Rightarrow> nat list mg" where
  "protect [] m = (Inr [], m)"
| "protect (b # bs) m =
     (case (case prefix_cache m of None \<Rightarrow> None | Some ix \<Rightarrow> get_block ix b) of
        None \<Rightarrow> protect bs m
      | Some r \<Rightarrow>
          (case on_index (acquire_block_ref r) m of
             (Inl e, t) \<Rightarrow> (Inl e, t)
           | (Inr _, t) \<Rightarrow> (case protect bs t of
               (Inl e, u) \<Rightarrow> (Inl e, u) | (Inr rs, u) \<Rightarrow> (Inr (r # rs), u))))"

definition finallyE :: "'a mg \<Rightarrow> unit mg \<Rightarrow> 'a mg" where
  "finallyE body cleanup m =
     (case body m of (x, t) \<Rightarrow> (case cleanup t of (Inl e, u) \<Rightarrow> (Inl e, u) | (Inr _, u) \<Rightarrow> (x, u)))"

definition commit_seq :: "seq \<Rightarrow> unit mg" where
  "commit_seq q m =
     (let sid = seq_id q; ps = get_list (pending_prefix_blocks m) sid;
          m1 = m\<lparr>pending_prefix_blocks := dict_del sid (pending_prefix_blocks m)\<rparr>
      in if ps = [] then (Inr (), m1)
         else let m2 = m1\<lparr>seq_id_to_materialized_blocks :=
                dict_set sid (get_list (seq_id_to_materialized_blocks m1) sid)
                  (seq_id_to_materialized_blocks m1)\<rparr>
         in bindE (protect (protected_ids m2 ps)) (\<lambda>held.
              finallyE (forE (commit_block q) ps) (release_prefix_blocks held)) m2)"

definition on_forward_end :: "seq list \<Rightarrow> unit mg" where
  "on_forward_end qs m = (if \<not> caching m then (Inr (), m) else forE commit_seq qs m)"

section \<open>Attaching a cached prefix\<close>

definition check_attach_block :: "std_cache \<Rightarrow> nat \<Rightarrow> unit res" where
  "check_attach_block m r =
     (case (block_at m r, payload_of m r) of
        (Some b, Some p) \<Rightarrow>
          (case validate (residency b) of
             Inl e \<Rightarrow> Inl e
           | Inr _ \<Rightarrow>
               if \<not> device_present (residency b) then
                 Inl (RuntimeError ''Prefix lookup returned a non-device block that cannot be promoted: '')
               else (case token_slots p of
                  None \<Rightarrow> Inl (RuntimeError ''Invalid Standard prefix cache block slots for seq_id='')
                | Some slots \<Rightarrow>
                    if int (length slots) \<noteq> resident_tokens (cache_block_size m) p then
                      Inl (RuntimeError ''Invalid Standard prefix cache block slots for seq_id='')
                    else if transfer (residency b) = Some H2D then
                      Inl (AssertionError '''')
                    else Inr ()))
      | _ \<Rightarrow> Inl (RuntimeError ''Invalid Standard prefix cache payload for seq_id=''))"

text \<open>Copy the slots of the chain into the row, one cached range per nonempty block.\<close>

fun copy_chain :: "nat \<Rightarrow> nat list \<Rightarrow> int \<Rightarrow> ranges \<Rightarrow> (int \<times> ranges) mg" where
  "copy_chain row [] cursor rgs m = (Inr (cursor, rgs), m)"
| "copy_chain row (r # rs) cursor rgs m =
     (case Option.bind (payload_of m r) token_slots of
        None \<Rightarrow> (Inl (RuntimeError ''Prefix attach reached a block without device slots after promotion: ''), m)
      | Some slots \<Rightarrow>
          (let n = int (length slots); stop = cursor + n in
           if n = 0 then copy_chain row rs cursor rgs m
           else (case store_row row cursor stop slots m of
               (Inl e, t) \<Rightarrow> (Inl e, t)
             | (Inr _, t) \<Rightarrow> copy_chain row rs stop (rgs @ [(cursor, stop)]) t)))"

definition find_chain :: "std_cache \<Rightarrow> seq \<Rightarrow> nat list res" where
  "find_chain m q =
     (case prefix_cache_hit_last_block_id q of
        None \<Rightarrow> Inl (RuntimeError ''prefix hit length but no last block id.'')
      | Some b \<Rightarrow>
          if prefix_cache_hit_len q mod cache_block_size m \<noteq> 0 then
            Inl (RuntimeError ''prefix hit length is not block aligned: '')
          else (case prefix_cache m of
              None \<Rightarrow> Inl (AttributeError ''NoneType'')
            | Some ix \<Rightarrow>
                (case get_chain ix b (prefix_cache_hit_block_count q) of
                   Inl e \<Rightarrow> Inl e
                 | Inr blks \<Rightarrow>
                     if int (length blks) * cache_block_size m \<noteq> prefix_cache_hit_len q then
                       Inl (RuntimeError ''Prefix cache blks length does not match scheduler metadata: '')
                     else Inr blks)))"

definition check_row_free :: "std_cache \<Rightarrow> int \<Rightarrow> unit res" where
  "check_row_free m sid =
     (case dict_get (seq_id_to_row m) sid of
        Some r \<Rightarrow>
          if row_len m r \<noteq> 0 then Inl (RuntimeError ''Cannot attach prefix cache to non-empty row: '')
          else Inr ()
      | None \<Rightarrow>
          if free_rows m = [] then Inl (RuntimeError ''No free rows in cache manager buffer!'') else Inr ())"

definition attach_prefix_cache_if_needed :: "seq \<Rightarrow> unit mg" where
  "attach_prefix_cache_if_needed q m =
     (let sid = seq_id q; hit = prefix_cache_hit_len q in
      if \<not> caching m \<or> hit \<le> 0 \<or> dict_get (seq_id_to_prefix_blocks m) sid \<noteq> None then (Inr (), m)
      else case find_chain m q of Inl e \<Rightarrow> (Inl e, m) | Inr blks \<Rightarrow>
      (case mapE (check_attach_block m) blks of Inl e \<Rightarrow> (Inl e, m) | Inr _ \<Rightarrow>
      (case check_row_free m sid of Inl e \<Rightarrow> (Inl e, m) | Inr _ \<Rightarrow>
        bindE (forE (\<lambda>r. on_index (acquire_block_ref r)) blks) (\<lambda>_.
        bindE (get_free_row sid) (\<lambda>row t.
          let old = get_list (seq_id_to_cached_ranges t) sid in
          case copy_chain row blks 0 old t of
            (Inl e, u) \<Rightarrow> (Inl e, u)
          | (Inr (cursor, rgs), u) \<Rightarrow>
              (Inr (), u\<lparr>seq_id_to_cached_ranges := dict_set sid rgs (seq_id_to_cached_ranges u),
                 row_seq_lens := (row_seq_lens u)[row := cursor],
                 row_logical_lens := (row_logical_lens u)[row := hit],
                 seq_id_to_prefix_blocks := dict_set sid blks (seq_id_to_prefix_blocks u),
                 prefix_cache := map_option (touch_chain blks) (prefix_cache u)\<rparr>))) m)))"

section \<open>Giving a sequence back\<close>

fun free_ranges :: "nat \<Rightarrow> ranges \<Rightarrow> unit mg" where
  "free_ranges row [] m = (Inr (), m)"
| "free_ranges row ((s, e) # rgs) m =
     (case push_slots (e - s) (tslice (buffer_slots m ! row) s e) m of
        (Inl err, t) \<Rightarrow> (Inl err, t)
      | (Inr _, t) \<Rightarrow> free_ranges row rgs t)"

definition drop_runtime :: "int \<Rightarrow> std_cache \<Rightarrow> std_cache" where
  "drop_runtime sid m =
     m\<lparr>prefix_runtime_states := dict_del sid (prefix_runtime_states m),
       pending_prefix_blocks := dict_del sid (pending_prefix_blocks m)\<rparr>"

definition clear_row :: "nat \<Rightarrow> std_cache \<Rightarrow> std_cache" where
  "clear_row row m =
     m\<lparr>buffer_slots := (buffer_slots m)[row := map (\<lambda>_. 0) (buffer_slots m ! row)],
       row_seq_lens := (row_seq_lens m)[row := 0],
       row_logical_lens := (row_logical_lens m)[row := 0],
       free_rows := free_rows m @ [row]\<rparr>"

definition take_holdings :: "int \<Rightarrow> std_cache \<Rightarrow> nat list \<times> std_cache" where
  "take_holdings sid m =
     (held_blocks m sid,
      m\<lparr>seq_id_to_prefix_blocks := dict_del sid (seq_id_to_prefix_blocks m),
        seq_id_to_materialized_blocks := dict_del sid (seq_id_to_materialized_blocks m)\<rparr>)"

definition standard_free_seq :: "int \<Rightarrow> unit mg" where
  "standard_free_seq sid m =
     (case dict_get (seq_id_to_row m) sid of
        None \<Rightarrow> (Inl (ValueError ''''), m)
      | Some row \<Rightarrow>
          (let len = row_len m row; rgs = merge_ranges (get_list (seq_id_to_cached_ranges m) sid);
               m1 = m\<lparr>seq_id_to_row := dict_del sid (seq_id_to_row m),
                      seq_id_to_cached_ranges := dict_del sid (seq_id_to_cached_ranges m)\<rparr>
           in if len < 0 then
                (Inl (RuntimeError ''KV cache row length became negative for seq_id=''), m1)
              else bindE (free_ranges row (complement_ranges 0 len rgs)) (\<lambda>_ t.
                (case take_holdings sid t of (rs, u) \<Rightarrow>
                   bindE (release_prefix_blocks rs) (\<lambda>_.
                   bindE (modifyE (drop_runtime sid)) (\<lambda>_.
                     modifyE (clear_row row))) u)) m1))"

section \<open>Reset, deletion and pruning\<close>

definition reset_allocator_after_clear :: "unit mg" where
  "reset_allocator_after_clear m =
     (if seq_id_to_row m \<noteq> [] then
        (Inl (RuntimeError ''Cannot reset prefix cache while Standard sequences are active.''), m)
      else let n = num_kvcache_slots m in
        (case tstore 0 n (arange n) (free_slots_stack m) of
           Inl e \<Rightarrow> (Inl e, m)
         | Inr st \<Rightarrow> (Inr (), m\<lparr>free_slots_stack := st, num_free := n, seq_id_to_cached_ranges := []\<rparr>)))"

definition reset_prefix_cache :: "unit mg" where
  "reset_prefix_cache m =
     (if \<not> enable_prefix_caching m then (Inr (), m)
      else case prefix_cache m of None \<Rightarrow> (Inr (), m) | Some ix \<Rightarrow>
        if \<exists>(b, r)\<in>set (blocks ix). ref_count (obj ix r) \<noteq> 0 then
          (Inl (RuntimeError ''Cannot reset prefix cache while blocks are still referenced: ''), m)
        else bindE reset_allocator_after_clear (\<lambda>_ t.
          (case make_index (cache_block_size t) (config_fingerprint t) (config_max_blocks t) (obj ix) of
             Inl e \<Rightarrow> (Inl e, t)
           | Inr ix' \<Rightarrow> (Inr (), t\<lparr>prefix_cache := Some ix', seq_id_to_prefix_blocks := [],
               seq_id_to_materialized_blocks := [], prefix_runtime_states := [],
               pending_prefix_blocks := []\<rparr>))) m)"

definition reset_after_warmup :: "unit mg" where
  "reset_after_warmup m =
     (if caching m then reset_prefix_cache m else reset_allocator_after_clear m)"

definition no_prefix_cache :: py_error where
  "no_prefix_cache = RuntimeError ''prefix cache is not enabled for this cache manager.''"

definition require_prefix_cache :: "'a ix \<Rightarrow> 'a mg" where
  "require_prefix_cache f m = (if prefix_cache m = None then (Inl no_prefix_cache, m) else on_index f m)"

definition prefix_cache_delete_subtree :: "(bytes \<Rightarrow> bytes) \<Rightarrow> int list \<Rightarrow> delete_result mg" where
  "prefix_cache_delete_subtree H ids =
     bindE (require_prefix_cache (preview_delete_subtree H ids)) (\<lambda>_.
     bindE (on_index (safe_delete_subtree H ids)) (\<lambda>result.
     bindE (free_prefix_cache_blocks (planned result)) (\<lambda>_. retE result)))"

definition prefix_cache_set_eviction_priority ::
    "(bytes \<Rightarrow> bytes) \<Rightarrow> int list \<Rightarrow> int \<Rightarrow> priority_result mg" where
  "prefix_cache_set_eviction_priority H ids priority =
     require_prefix_cache (set_subtree_eviction_priority H ids priority)"

section \<open>Preparing a step\<close>

record step_input =
  in_input_ids :: "int list"
  in_positions :: "int list"
  in_cu_seqlens :: "int list"
  in_slot_mapping :: "int list"
  in_context_lens :: "int list"
  in_req_indices :: "nat list"

definition chunk_size_of :: "seq \<Rightarrow> int res" where
  "chunk_size_of q =
     (case current_chunk_size q of None \<Rightarrow> Inl (TypeError ''NoneType'') | Some c \<Rightarrow> Inr c)"

definition fit :: "int \<Rightarrow> 'a list \<Rightarrow> 'a list res" where
  "fit n xs =
     (if int (length xs) = n then Inr xs
      else if length xs = 1 then Inr (replicate (nat n) (hd xs))
      else Inl (ValueError ''could not broadcast input array''))"

definition chunk_tokens :: "seq \<Rightarrow> int \<Rightarrow> int list" where
  "chunk_tokens q c =
     (let ts = seq_tokens q; start = num_prefilled_tokens q in
      if c < int (length ts) then tslice ts start (start + c) else ts)"

definition prefill_one :: "(bytes \<Rightarrow> bytes) \<Rightarrow> seq \<Rightarrow> step_input \<Rightarrow> step_input mg" where
  "prefill_one H q acc m =
     (case chunk_size_of q of Inl e \<Rightarrow> (Inl e, m) | Inr c \<Rightarrow>
      (let sid = seq_id q; start = num_prefilled_tokens q; known = dict_get (seq_id_to_row m) sid;
           resident_start = (case known of None \<Rightarrow> 0 | Some r \<Rightarrow> row_len m r)
       in if (case known of None \<Rightarrow> False | Some r \<Rightarrow> row_logical_lens m ! r \<noteq> start) then
            (Inl (ValueError ''KV cache logical row length mismatch in prefill: ''), m)
          else bindE (allocate sid c) (\<lambda>slots t.
            case dict_get (seq_id_to_row t) sid of None \<Rightarrow> (Inl (KeyError ''seq_id''), t) | Some row \<Rightarrow>
            (case fit c (tslice (buffer_slots t ! row) resident_start (resident_start + c)) of
               Inl e \<Rightarrow> (Inl e, t) | Inr mapped \<Rightarrow>
             (case fit c (chunk_tokens q c) of Inl e \<Rightarrow> (Inl e, t) | Inr ids \<Rightarrow>
                bindE (record_prefix_materialization H q (chunk_tokens q c) slots) (\<lambda>_. retE
                  \<lparr>in_input_ids = in_input_ids acc @ ids,
                   in_positions = in_positions acc @ [start..start + c - 1],
                   in_cu_seqlens = in_cu_seqlens acc @ [last (in_cu_seqlens acc) + c],
                   in_slot_mapping = in_slot_mapping acc @ mapped,
                   in_context_lens = in_context_lens acc @ [resident_start + c],
                   in_req_indices = in_req_indices acc @ [row]\<rparr>) t))) m))"

fun prefill_all :: "(bytes \<Rightarrow> bytes) \<Rightarrow> seq list \<Rightarrow> step_input \<Rightarrow> step_input mg" where
  "prefill_all H [] acc = retE acc"
| "prefill_all H (q # qs) acc = bindE (prefill_one H q acc) (prefill_all H qs)"

definition no_input :: step_input where
  "no_input = \<lparr>in_input_ids = [], in_positions = [], in_cu_seqlens = [0], in_slot_mapping = [],
     in_context_lens = [], in_req_indices = []\<rparr>"

definition prepare_prefill :: "(bytes \<Rightarrow> bytes) \<Rightarrow> seq list \<Rightarrow> step_input mg" where
  "prepare_prefill H qs =
     bindE (forE attach_prefix_cache_if_needed qs) (\<lambda>_.
     bindE (liftE (mapE chunk_size_of qs)) (\<lambda>_. prefill_all H qs no_input))"

definition prepare_decode :: "(bytes \<Rightarrow> bytes) \<Rightarrow> seq list \<Rightarrow> step_input mg" where
  "prepare_decode H qs =
     bindE (liftE (mapE decode_input_token qs)) (\<lambda>ids.
     bindE (allocate_batch (map seq_id qs) 1) (\<lambda>slots m.
       let rows = map (\<lambda>q. the (dict_get (seq_id_to_row m) (seq_id q))) qs in
       bindE (forE (\<lambda>(q, t, s). record_prefix_materialization H q [t] [s]) (zip qs (zip ids slots)))
         (\<lambda>_ t. (Inr \<lparr>in_input_ids = ids, in_positions = map decode_input_position qs,
            in_cu_seqlens = [], in_slot_mapping = slots, in_context_lens = map (row_len t) rows,
            in_req_indices = rows\<rparr>, t)) m))"

end
