(* ===== verification/Slot_Pool.thy ===== *)
theory Slot_Pool
  imports Standard_Prefix
begin

text \<open>
  The stack of free KV slots as a pool: what it means to take slots from it and to give slots
  back, as a locale, and the interpretation on the stack of the Standard cache manager.
\<close>

section \<open>The interface\<close>

locale slot_pool =
  fixes ok :: "'s \<Rightarrow> bool"
    and free :: "'s \<Rightarrow> int multiset"
    and capacity :: "'s \<Rightarrow> nat"
    and give :: "int list \<Rightarrow> 's \<Rightarrow> 's"
    and take_out :: "nat \<Rightarrow> 's \<Rightarrow> int list \<times> 's"
  assumes give_law: "ok s \<Longrightarrow> size (free s) + length xs \<le> capacity s \<Longrightarrow>
      ok (give xs s) \<and> free (give xs s) = free s + mset xs \<and> capacity (give xs s) = capacity s"
    and take_law: "ok s \<Longrightarrow> n \<le> size (free s) \<Longrightarrow> take_out n s = (xs, t) \<Longrightarrow>
      ok t \<and> length xs = n \<and> free s = free t + mset xs \<and> capacity t = capacity s"
    and fits: "ok s \<Longrightarrow> size (free s) \<le> capacity s"
begin

lemma take_give:
  assumes "ok s" "n \<le> size (free s)" "take_out n s = (xs, t)"
  shows "free (give xs t) = free s" "ok (give xs t)"
proof -
  from take_law [OF assms] have t: "ok t" "length xs = n" "free s = free t + mset xs" "capacity t = capacity s"
    by auto
  then have "size (free t) + length xs \<le> capacity t" using fits [OF assms(1)] by simp
  from give_law [OF t(1) this] t(3) show "free (give xs t) = free s" "ok (give xs t)" by auto
qed

lemma give_all:
  assumes "ok s" "size (free s) + length (concat xss) \<le> capacity s"
  shows "ok (fold give xss s) \<and> free (fold give xss s) = free s + mset (concat xss)
    \<and> capacity (fold give xss s) = capacity s"
  using assms
proof (induction xss arbitrary: s)
  case (Cons xs xss)
  then have g: "ok (give xs s)" "free (give xs s) = free s + mset xs" "capacity (give xs s) = capacity s"
    using give_law [of s xs] by auto
  have "ok (fold give xss (give xs s)) \<and> free (fold give xss (give xs s)) = free (give xs s) + mset (concat xss)
    \<and> capacity (fold give xss (give xs s)) = capacity (give xs s)"
    by (rule Cons.IH) (use g Cons.prems(2) in auto)
  with g show ?case by simp
qed simp

end

section \<open>The stack of the Standard manager\<close>

definition stack_ok :: "std_cache \<Rightarrow> bool" where
  "stack_ok m \<longleftrightarrow> int (length (free_slots_stack m)) = num_kvcache_slots m
     \<and> 0 \<le> num_free m \<and> num_free m \<le> num_kvcache_slots m"

definition free_part :: "std_cache \<Rightarrow> int multiset" where
  "free_part m = mset (take (nat (num_free m)) (free_slots_stack m))"

lemma size_free_part: "stack_ok m \<Longrightarrow> int (size (free_part m)) = num_free m"
  by (auto simp: stack_ok_def free_part_def min_def nat_le_iff)

lemma push_slots_run:
  assumes ok: "stack_ok m" and n: "n = int (length xs)" and room: "num_free m + n \<le> num_kvcache_slots m"
  shows "\<exists>st. push_slots n xs m = (Inr (), m\<lparr>free_slots_stack := st, num_free := num_free m + n\<rparr>)
    \<and> stack_ok (m\<lparr>free_slots_stack := st, num_free := num_free m + n\<rparr>)
    \<and> free_part (m\<lparr>free_slots_stack := st, num_free := num_free m + n\<rparr>) = free_part m + mset xs"
proof -
  let ?k = "nat (num_free m)"
  let ?st = "take ?k (free_slots_stack m) @ xs @ drop (?k + length xs) (free_slots_stack m)"
  have k: "?k + length xs \<le> length (free_slots_stack m)" "0 \<le> num_free m"
    using ok room n by (auto simp: stack_ok_def)
  have "tstore (num_free m) (num_free m + n) xs (free_slots_stack m) = Inr ?st"
    by (rule tstore_in) (use ok room n in \<open>auto simp: stack_ok_def\<close>)
  then have "push_slots n xs m = (Inr (), m\<lparr>free_slots_stack := ?st, num_free := num_free m + n\<rparr>)"
    by (simp add: push_slots_def Let_def)
  moreover have "stack_ok (m\<lparr>free_slots_stack := ?st, num_free := num_free m + n\<rparr>)"
    using ok room n k by (auto simp: stack_ok_def)
  moreover have "nat (num_free m + n) = ?k + length xs" using k n by (simp add: nat_add_distrib)
  then have "free_part (m\<lparr>free_slots_stack := ?st, num_free := num_free m + n\<rparr>) = free_part m + mset xs"
    using k by (simp add: free_part_def)
  ultimately show ?thesis by blast
qed

lemma pop_slots_run:
  assumes ok: "stack_ok m" and n: "0 \<le> n" "n \<le> num_free m"
  shows "\<exists>xs. pop_slots n m = (xs, m\<lparr>num_free := num_free m - n\<rparr>) \<and> int (length xs) = n
    \<and> stack_ok (m\<lparr>num_free := num_free m - n\<rparr>)
    \<and> free_part m = free_part (m\<lparr>num_free := num_free m - n\<rparr>) + mset xs"
proof -
  let ?a = "num_free m - n" and ?b = "num_free m"
  let ?xs = "tslice (free_slots_stack m) ?a ?b"
  have bounds: "0 \<le> ?a" "?a \<le> ?b" "?b \<le> int (length (free_slots_stack m))"
    using ok n by (auto simp: stack_ok_def)
  have xs: "?xs = take (nat (?b - ?a)) (drop (nat ?a) (free_slots_stack m))"
    using tslice_in [OF bounds] .
  have "int (length ?xs) = n" using length_tslice_in [OF bounds] n by simp
  moreover have "nat ?b = nat ?a + nat (?b - ?a)" using bounds by linarith
  then have "take (nat ?b) (free_slots_stack m) = take (nat ?a) (free_slots_stack m) @ ?xs"
    unfolding xs by (simp only: take_add)
  then have "free_part m = free_part (m\<lparr>num_free := ?a\<rparr>) + mset ?xs"
    by (simp add: free_part_def)
  moreover have "stack_ok (m\<lparr>num_free := ?a\<rparr>)" using ok n by (auto simp: stack_ok_def)
  ultimately show ?thesis by (intro exI [of _ ?xs]) (simp add: pop_slots_def Let_def)
qed

definition give_slots :: "int list \<Rightarrow> std_cache \<Rightarrow> std_cache" where
  "give_slots xs m = snd (return_prefix_device_slots xs m)"

definition take_slots :: "nat \<Rightarrow> std_cache \<Rightarrow> int list \<times> std_cache" where
  "take_slots n = pop_slots (int n)"

interpretation std_pool: slot_pool stack_ok free_part "\<lambda>m. nat (num_kvcache_slots m)" give_slots take_slots
proof unfold_locales
  fix s :: std_cache and xs :: "int list"
  assume a: "stack_ok s" "size (free_part s) + length xs \<le> nat (num_kvcache_slots s)"
  then have "num_free s + int (length xs) \<le> num_kvcache_slots s"
    using size_free_part [OF a(1)] by (auto simp: stack_ok_def)
  from push_slots_run [OF a(1) refl this]
  show "stack_ok (give_slots xs s) \<and> free_part (give_slots xs s) = free_part s + mset xs
      \<and> nat (num_kvcache_slots (give_slots xs s)) = nat (num_kvcache_slots s)"
    by (auto simp: give_slots_def return_prefix_device_slots_def)
next
  fix s :: std_cache and xs n t
  assume a: "stack_ok s" "n \<le> size (free_part s)" "take_slots n s = (xs, t)"
  then have "int n \<le> num_free s" using size_free_part [OF a(1)] by linarith
  from pop_slots_run [OF a(1) _ this] a(3)
  show "stack_ok t \<and> length xs = n \<and> free_part s = free_part t + mset xs
      \<and> nat (num_kvcache_slots t) = nat (num_kvcache_slots s)"
    by (auto simp: take_slots_def)
next
  fix s :: std_cache
  assume a: "stack_ok s"
  then show "size (free_part s) \<le> nat (num_kvcache_slots s)"
    using size_free_part [OF a] by (auto simp: stack_ok_def)
qed

end
