(* ===== verification/Standard_Invariant.thy ===== *)
theory Standard_Invariant
  imports Slot_Pool
begin

text \<open>
  The invariant of the Standard cache manager. Every KV slot is in exactly one place: on the
  free stack, in the private part of the row of one sequence, or in the payload of one indexed
  prefix block. Every row has one owner or is queued as free. The reference count of a block
  is the number of times a live sequence holds it. The cached ranges of a row repeat the slots
  of the blocks the sequence holds, and the blocks still to be committed carry the slots of the
  row positions they will take over.
\<close>

section \<open>Where the slots are\<close>

definition owner :: "std_cache \<Rightarrow> int \<Rightarrow> nat option" where
  "owner m sid = dict_get (seq_id_to_row m) sid"

definition cell :: "std_cache \<Rightarrow> nat \<Rightarrow> int \<Rightarrow> int" where
  "cell m r k = buffer_slots m ! r ! nat k"

definition cells :: "std_cache \<Rightarrow> nat \<Rightarrow> int \<Rightarrow> int \<Rightarrow> int list" where
  "cells m r a b = map (cell m r) [a..b - 1]"

definition ranges_of :: "std_cache \<Rightarrow> int \<Rightarrow> ranges" where
  "ranges_of m sid = get_list (seq_id_to_cached_ranges m) sid"

definition private_positions :: "std_cache \<Rightarrow> int \<Rightarrow> nat \<Rightarrow> int list" where
  "private_positions m sid r = filter (\<lambda>k. \<not> covered (ranges_of m sid) k) [0..row_len m r - 1]"

definition private_slots :: "std_cache \<Rightarrow> int \<Rightarrow> int multiset" where
  "private_slots m sid =
     (case owner m sid of None \<Rightarrow> {#} | Some r \<Rightarrow> mset (map (cell m r) (private_positions m sid r)))"

definition block_slots :: "std_cache \<Rightarrow> nat \<Rightarrow> int list" where
  "block_slots m r =
     (case Option.bind (payload_at m r) token_slots of None \<Rightarrow> [] | Some xs \<Rightarrow> xs)"

definition owners :: "std_cache \<Rightarrow> int set" where
  "owners m = dom (owner m)"

definition indexed :: "std_cache \<Rightarrow> nat set" where
  "indexed m = (case prefix_cache m of None \<Rightarrow> {} | Some ix \<Rightarrow> ran (get_block ix))"

definition rows_part :: "std_cache \<Rightarrow> int multiset" where
  "rows_part m = (\<Sum>sid\<in>owners m. private_slots m sid)"

definition blocks_part :: "std_cache \<Rightarrow> int multiset" where
  "blocks_part m = (\<Sum>r\<in>indexed m. mset (block_slots m r))"

definition all_slots :: "std_cache \<Rightarrow> int multiset" where
  "all_slots m = free_part m + rows_part m + blocks_part m"

lemma finite_owners [simp]: "finite (owners m)"
  using finite_dom_map_of [of "seq_id_to_row m"] by (simp add: owners_def owner_def [abs_def])

lemma finite_indexed [simp]: "finite (indexed m)"
  by (auto simp: indexed_def finite_ran finite_dom_map_of split: option.splits)

section \<open>The invariant\<close>

definition shapes_ok :: "std_cache \<Rightarrow> bool" where
  "shapes_ok m \<longleftrightarrow> stack_ok m \<and> 0 \<le> max_model_len m
     \<and> length (buffer_slots m) = max_buffer_rows m
     \<and> (\<forall>row\<in>set (buffer_slots m). int (length row) = max_model_len m)
     \<and> length (row_seq_lens m) = max_buffer_rows m \<and> length (row_logical_lens m) = max_buffer_rows m
     \<and> (\<forall>r < max_buffer_rows m. 0 \<le> row_len m r \<and> row_len m r \<le> max_model_len m)"

definition rows_ok :: "std_cache \<Rightarrow> bool" where
  "rows_ok m \<longleftrightarrow> dict_ok (seq_id_to_row m)
     \<and> distinct (map snd (seq_id_to_row m) @ free_rows m)
     \<and> set (map snd (seq_id_to_row m) @ free_rows m) = {0..<max_buffer_rows m}
     \<and> (\<forall>r\<in>set (free_rows m). row_len m r = 0 \<and> row_logical_lens m ! r = 0)"

definition blocks_ok :: "std_cache \<Rightarrow> bool" where
  "blocks_ok m \<longleftrightarrow> (enable_prefix_caching m \<longleftrightarrow> prefix_cache m \<noteq> None)
     \<and> (\<forall>ix. prefix_cache m = Some ix \<longrightarrow> index_ok ix \<and> block_size ix = cache_block_size m
         \<and> (\<forall>r\<in>indexed m. r < next_ref m \<and> payload (obj ix r) = r
              \<and> residency (obj ix r) = default_residency
              \<and> (\<exists>p xs. payload_at m r = Some p \<and> token_slots p = Some xs
                   \<and> int (length xs) = resident_tokens (cache_block_size m) p
                   \<and> int (length xs) \<le> cache_block_size m)))"

text \<open>\<open>P\<close> counts the references an operation under way holds for itself.\<close>

definition holders :: "std_cache \<Rightarrow> nat \<Rightarrow> nat" where
  "holders m r = (\<Sum>sid\<in>owners m. count_list (held_blocks m sid) r)"

definition refs_ok :: "nat multiset \<Rightarrow> std_cache \<Rightarrow> bool" where
  "refs_ok P m \<longleftrightarrow>
     (\<forall>ix. prefix_cache m = Some ix \<longrightarrow>
        (\<forall>r\<in>indexed m. ref_count (obj ix r) = int (holders m r + count P r)))
     \<and> set_mset P \<subseteq> indexed m
     \<and> (\<forall>sid. set (held_blocks m sid) \<subseteq> indexed m)
     \<and> (\<forall>sid. held_blocks m sid \<noteq> [] \<longrightarrow> sid \<in> owners m)"

definition runtime :: "std_cache \<Rightarrow> int \<Rightarrow> prefix_runtime option" where
  "runtime m sid = dict_get (prefix_runtime_states m) sid"

definition pending_of :: "std_cache \<Rightarrow> int \<Rightarrow> pending_block list" where
  "pending_of m sid = get_list (pending_prefix_blocks m) sid"

definition tail_of :: "std_cache \<Rightarrow> int \<Rightarrow> int list" where
  "tail_of m sid = (case runtime m sid of None \<Rightarrow> [] | Some st \<Rightarrow> concat (pending_slots st))"

definition attached :: "std_cache \<Rightarrow> int \<Rightarrow> int" where
  "attached m sid =
     (\<Sum>r\<leftarrow>get_list (seq_id_to_prefix_blocks m) sid. int (length (block_slots m r)))"

text \<open>
  The layout of a row: the cached ranges lie below \<open>settled_at\<close>, then come the pending blocks, then
  the slots of the tokens that complete no block yet, then \<open>n\<close> slots just allocated.
\<close>

definition settled_at :: "std_cache \<Rightarrow> int \<Rightarrow> int \<Rightarrow> nat \<Rightarrow> int" where
  "settled_at m n sid r =
     row_len m r - n - int (length (tail_of m sid))
       - int (length (pending_of m sid)) * cache_block_size m"

definition pending_fits :: "std_cache \<Rightarrow> nat \<Rightarrow> int \<Rightarrow> int \<Rightarrow> pending_block list \<Rightarrow> bool" where
  "pending_fits m r start idx ps \<longleftrightarrow>
     (\<forall>i < length ps. let p = ps ! i; bs = cache_block_size m; a = start + int i * bs in
        token_slots (pb_payload p) = Some (cells m r a (a + bs)) \<and> retained_offsets (pb_payload p) = None
        \<and> pb_logical_idx p = idx + int i)"

definition covers :: "std_cache \<Rightarrow> nat list \<Rightarrow> nat \<Rightarrow> int \<times> int \<Rightarrow> bool" where
  "covers m held r rg \<longleftrightarrow> (\<exists>b\<in>set held. block_slots m b = cells m r (fst rg) (snd rg))"

text \<open>
  What the caller promises of a sequence while it owns a row: the hit length it was attached
  with, and whether its tokens are recorded (not for multimodal prompts).
\<close>

record promise =
  hit_of :: int
  recorded :: bool

definition layout_ok :: "promise \<Rightarrow> int \<Rightarrow> std_cache \<Rightarrow> int \<Rightarrow> nat \<Rightarrow> bool" where
  "layout_ok g n m sid r \<longleftrightarrow> 0 \<le> n \<and> 0 \<le> settled_at m n sid r
     \<and> (\<forall>(s, e)\<in>set (ranges_of m sid). 0 \<le> s \<and> s < e \<and> e \<le> settled_at m n sid r)
     \<and> (\<forall>rg\<in>set (ranges_of m sid). covers m (held_blocks m sid) r rg)
     \<and> tail_of m sid = cells m r (row_len m r - n - int (length (tail_of m sid))) (row_len m r - n)
     \<and> (\<forall>st. runtime m sid = Some st \<longrightarrow> caching m \<and> recorded g \<and> 0 < row_len m r
          \<and> length (concat (pending_slots st)) = length (pending_tokens st)
          \<and> (pending_slots st = [] \<longleftrightarrow> pending_tokens st = [])
          \<and> int (length (pending_tokens st)) < cache_block_size m
          \<and> pending_fits m r (settled_at m n sid r)
               (next_logical_block_idx st - int (length (pending_of m sid))) (pending_of m sid)
          \<and> settled_at m n sid r + int (length (pending_of m sid)) * cache_block_size m
              = attached m sid + next_logical_block_idx st * cache_block_size m - hit_of g)
     \<and> (runtime m sid = None \<longrightarrow> pending_of m sid = []
          \<and> (caching m \<and> recorded g \<longrightarrow> settled_at m n sid r = attached m sid))"

definition vacant :: "std_cache \<Rightarrow> int \<Rightarrow> bool" where
  "vacant m sid \<longleftrightarrow> ranges_of m sid = [] \<and> runtime m sid = None \<and> pending_of m sid = []"

definition seqs_ok :: "(int \<Rightarrow> promise) \<Rightarrow> (int \<Rightarrow> int) \<Rightarrow> std_cache \<Rightarrow> bool" where
  "seqs_ok G T m \<longleftrightarrow>
     (\<forall>sid. case owner m sid of None \<Rightarrow> vacant m sid | Some r \<Rightarrow> layout_ok (G sid) (T sid) m sid r)"

definition std_inv :: "nat multiset \<Rightarrow> (int \<Rightarrow> promise) \<Rightarrow> (int \<Rightarrow> int) \<Rightarrow> std_cache \<Rightarrow> bool" where
  "std_inv P G T m \<longleftrightarrow> shapes_ok m \<and> rows_ok m \<and> blocks_ok m \<and> refs_ok P m \<and> seqs_ok G T m
     \<and> all_slots m = mset (arange (num_kvcache_slots m))"

section \<open>Rows and cells\<close>

lemma length_cells [simp]: "length (cells m r a b) = nat (b - a)"
  by (simp add: cells_def)

lemma cells_append: "a \<le> b \<Longrightarrow> b \<le> c \<Longrightarrow> cells m r a c = cells m r a b @ cells m r b c"
  using upto_join [of a b "c - 1"] by (simp add: cells_def)

lemma cells_empty [simp]: "b \<le> a \<Longrightarrow> cells m r a b = []"
  by (simp add: cells_def)

lemma cells_nth: "i < nat (b - a) \<Longrightarrow> cells m r a b ! i = cell m r (a + int i)"
  by (simp add: cells_def)

lemma cells_cong:
  "(\<And>k. a \<le> k \<Longrightarrow> k < b \<Longrightarrow> cell m r k = cell m' r' k) \<Longrightarrow> cells m r a b = cells m' r' a b"
  by (auto simp: cells_def)

lemma tslice_map:
  assumes "0 \<le> a" "a \<le> b" "b \<le> int (length xs)"
  shows "tslice xs a b = map (\<lambda>k. xs ! nat k) [a..b - 1]"
  unfolding tslice_in [OF assms]
proof (rule nth_equalityI)
  show "length (take (nat (b - a)) (drop (nat a) xs)) = length (map (\<lambda>k. xs ! nat k) [a..b - 1])"
    using assms by auto
next
  fix i
  assume "i < length (take (nat (b - a)) (drop (nat a) xs))"
  then have i: "i < nat (b - a)" "nat a + i < length xs" by auto
  then have "nat (a + int i) = nat a + i" using assms by (simp add: nat_add_distrib)
  then show "take (nat (b - a)) (drop (nat a) xs) ! i = map (\<lambda>k. xs ! nat k) [a..b - 1] ! i"
    using i assms by simp
qed

lemma std_invD:
  assumes "std_inv P G T m"
  shows "shapes_ok m" "rows_ok m" "blocks_ok m" "refs_ok P m" "seqs_ok G T m"
    "all_slots m = mset (arange (num_kvcache_slots m))" "stack_ok m"
  using assms by (auto simp: std_inv_def shapes_ok_def)

lemma seqs_okD:
  assumes "seqs_ok G T m"
  shows "owner m sid = None \<Longrightarrow> vacant m sid"
    "owner m sid = Some r \<Longrightarrow> layout_ok (G sid) (T sid) m sid r"
  using assms [unfolded seqs_ok_def, rule_format, of sid] by simp_all

lemma seqs_okI:
  "(\<And>sid. owner m sid = None \<Longrightarrow> vacant m sid) \<Longrightarrow>
   (\<And>sid r. owner m sid = Some r \<Longrightarrow> layout_ok (G sid) (T sid) m sid r) \<Longrightarrow> seqs_ok G T m"
  by (simp add: seqs_ok_def split: option.split)

lemma owner_row:
  assumes "rows_ok m" "owner m sid = Some r"
  shows "r < max_buffer_rows m" "r \<notin> set (free_rows m)"
    "owner m sid' = Some r \<Longrightarrow> sid' = sid"
proof -
  have mem: "(sid, r) \<in> set (seq_id_to_row m)" using assms(2) by (auto simp: owner_def dest: map_of_SomeD)
  then have in_map: "r \<in> set (map snd (seq_id_to_row m))" by force
  then have "r \<in> set (map snd (seq_id_to_row m) @ free_rows m)" unfolding set_append by (rule UnI1)
  then have "r \<in> {0..<max_buffer_rows m}" using assms(1) unfolding rows_ok_def by blast
  then show "r < max_buffer_rows m" by simp
  have "set (map snd (seq_id_to_row m)) \<inter> set (free_rows m) = {}"
    using assms(1) unfolding rows_ok_def distinct_append by blast
  then show "r \<notin> set (free_rows m)" using in_map by blast
  assume "owner m sid' = Some r"
  then have "(sid', r) \<in> set (seq_id_to_row m)" by (auto simp: owner_def dest: map_of_SomeD)
  moreover have "inj_on snd (set (seq_id_to_row m))"
    using assms(1) by (auto simp: rows_ok_def distinct_map)
  ultimately show "sid' = sid" using mem by (auto dest!: inj_onD [where x = "(sid, r)" and y = "(sid', r)"])
qed

lemma row_shape:
  assumes "shapes_ok m" "r < max_buffer_rows m"
  shows "int (length (buffer_slots m ! r)) = max_model_len m" "0 \<le> row_len m r"
    "row_len m r \<le> max_model_len m"
  using assms by (auto simp: shapes_ok_def)

lemma no_caching:
  assumes "blocks_ok m"
  shows "caching m \<longleftrightarrow> prefix_cache m \<noteq> None"
  using assms by (auto simp: blocks_ok_def caching_def)

lemma indexed_iff:
  "prefix_cache m = Some ix \<Longrightarrow> r \<in> indexed m \<longleftrightarrow> (\<exists>b. get_block ix b = Some r)"
  by (auto simp: indexed_def ran_def)

lemma block_of_indexed:
  assumes ok: "blocks_ok m" and r: "r \<in> indexed m"
  obtains ix p xs where "prefix_cache m = Some ix" "index_ok ix" "payload (obj ix r) = r"
    "residency (obj ix r) = default_residency" "payload_at m r = Some p" "token_slots p = Some xs"
    "int (length xs) = resident_tokens (cache_block_size m) p" "block_slots m r = xs"
    "payload_of m r = Some p" "block_at m r = Some (obj ix r)" "r < next_ref m"
proof -
  obtain ix where ix: "prefix_cache m = Some ix" using r by (auto simp: indexed_def split: option.splits)
  with ok r obtain p xs where "payload (obj ix r) = r" "residency (obj ix r) = default_residency"
    "index_ok ix" "payload_at m r = Some p" "token_slots p = Some xs"
    "int (length xs) = resident_tokens (cache_block_size m) p" "r < next_ref m"
    by (auto simp: blocks_ok_def)
  with ix show thesis
    by (intro that) (auto simp: block_slots_def payload_of_def block_at_def)
qed

section \<open>Sums over owners and blocks\<close>

lemma rows_part_remove:
  "sid \<in> owners m \<Longrightarrow>
    rows_part m = private_slots m sid + (\<Sum>s\<in>owners m - {sid}. private_slots m s)"
  by (simp add: rows_part_def sum.remove)

lemma rows_part_cong:
  "owners m' = owners m \<Longrightarrow> (\<And>sid. sid \<in> owners m \<Longrightarrow> private_slots m' sid = private_slots m sid) \<Longrightarrow>
    rows_part m' = rows_part m"
  by (simp add: rows_part_def)

lemma rows_part_other:
  assumes "sid \<in> owners m" "owners m' = owners m"
    "\<And>s. s \<in> owners m \<Longrightarrow> s \<noteq> sid \<Longrightarrow> private_slots m' s = private_slots m s"
    "private_slots m' sid = private_slots m sid + D"
  shows "rows_part m' = rows_part m + D"
proof -
  have "(\<Sum>s\<in>owners m - {sid}. private_slots m' s) = (\<Sum>s\<in>owners m - {sid}. private_slots m s)"
    using assms(3) by (intro sum.cong) auto
  with rows_part_remove [of sid m'] rows_part_remove [of sid m] assms show ?thesis by simp
qed

lemma unheld_zero: "sid \<notin> owners m \<Longrightarrow> private_slots m sid = {#}"
  by (auto simp: private_slots_def owners_def split: option.splits)

end
