(* ===== verification/Standard_Evict.thy ===== *)
theory Standard_Evict
  imports Standard_Invariant
begin

text \<open>
  Evicting prefix blocks gives exactly their slots back: the invariant survives every removal of
  unreferenced blocks from the index, and slots held by a live sequence stay where they are.
\<close>

section \<open>Congruence of the parts\<close>

text \<open>
  The layout of a row survives what leaves its cells and the held blocks alone; slots added at
  the end of the row lie after everything the layout describes.
\<close>

lemma layout_grow:
  assumes ok: "layout_ok g n m sid r"
    and row: "row_len m' r = row_len m r + d" "0 \<le> d"
      "\<And>k. 0 \<le> k \<Longrightarrow> k < row_len m r \<Longrightarrow> cell m' r k = cell m r k"
    and same: "ranges_of m' sid = ranges_of m sid" "held_blocks m' sid = held_blocks m sid"
      "runtime m' sid = runtime m sid" "pending_of m' sid = pending_of m sid"
      "get_list (seq_id_to_prefix_blocks m') sid = get_list (seq_id_to_prefix_blocks m) sid"
      "cache_block_size m' = cache_block_size m" "caching m' = caching m"
    and slots: "\<And>b. b \<in> set (held_blocks m sid) \<Longrightarrow> block_slots m' b = block_slots m b"
  shows "layout_ok g (n + d) m' sid r"
proof -
  have tail: "tail_of m' sid = tail_of m sid" by (simp add: tail_of_def same)
  have settled_at: "settled_at m' (n + d) sid r = settled_at m n sid r" by (simp add: settled_at_def tail same row)
  have att: "attached m' sid = attached m sid"
    unfolding attached_def same by (intro arg_cong [where f = sum_list] map_cong)
      (use slots in \<open>auto simp: held_blocks_def\<close>)
  note D = ok [unfolded layout_ok_def]
  have n0: "0 \<le> n" "0 \<le> settled_at m n sid r" using D by blast+
  have bs: "pending_of m sid = [] \<or> 0 \<le> cache_block_size m" using D by (cases "runtime m sid") force+
  then have prod: "0 \<le> int (length (pending_of m sid)) * cache_block_size m" by auto
  have le: "settled_at m n sid r + int (length (pending_of m sid)) * cache_block_size m
      + int (length (tail_of m sid)) = row_len m r - n" by (simp add: settled_at_def)
  have cells: "cells m' r a b = cells m r a b" if "0 \<le> a" "b \<le> row_len m r" for a b
    using that row by (intro cells_cong) auto
  show ?thesis unfolding layout_ok_def settled_at att tail same row
  proof (intro conjI)
    show "0 \<le> n + d" using n0 row by simp
    show "\<forall>rg\<in>set (ranges_of m sid). covers m' (held_blocks m sid) r rg"
    proof
      fix rg
      assume rg: "rg \<in> set (ranges_of m sid)"
      obtain s e where se: "rg = (s, e)" by fastforce
      have "0 \<le> s" "e \<le> settled_at m n sid r" using D rg se by auto
      then have "cells m' r s e = cells m r s e" using le prod n0 by (intro cells) linarith+
      moreover have "covers m (held_blocks m sid) r rg" using D rg by blast
      ultimately show "covers m' (held_blocks m sid) r rg" using slots by (auto simp: covers_def se)
    qed
    have "cells m' r (row_len m r - n - int (length (tail_of m sid))) (row_len m r - n)
        = cells m r (row_len m r - n - int (length (tail_of m sid))) (row_len m r - n)"
      using le prod n0 by (intro cells) linarith+
    moreover have "tail_of m sid = cells m r (row_len m r - n - int (length (tail_of m sid))) (row_len m r - n)"
      using D by blast
    ultimately show "tail_of m sid = cells m' r (row_len m r + d - (n + d) - int (length (tail_of m sid)))
        (row_len m r + d - (n + d))" by (simp add: algebra_simps)
    have "pending_fits m' r (settled_at m n sid r) i (pending_of m sid)"
      if pf: "pending_fits m r (settled_at m n sid r) i (pending_of m sid)" for i
      unfolding pending_fits_def Let_def same
    proof (intro allI impI)
      fix k
      assume k: "k < length (pending_of m sid)"
      let ?a = "settled_at m n sid r + int k * cache_block_size m"
      have bs: "0 \<le> cache_block_size m" using bs k by auto
      have "int (Suc k) * cache_block_size m \<le> int (length (pending_of m sid)) * cache_block_size m"
        using k bs by (intro mult_right_mono) auto
      then have "int k * cache_block_size m + cache_block_size m
          \<le> int (length (pending_of m sid)) * cache_block_size m" by (simp add: algebra_simps)
      moreover have "0 \<le> int k * cache_block_size m" using bs by simp
      ultimately have "cells m' r ?a (?a + cache_block_size m) = cells m r ?a (?a + cache_block_size m)"
        using le n0 by (intro cells) linarith+
      then show "token_slots (pb_payload (pending_of m sid ! k)) = Some (cells m' r ?a (?a + cache_block_size m))
        \<and> retained_offsets (pb_payload (pending_of m sid ! k)) = None
        \<and> pb_logical_idx (pending_of m sid ! k) = i + int k"
        using pf k by (auto simp: pending_fits_def Let_def)
    qed
    moreover have "0 < row_len m r + d" if "runtime m sid = Some st" for st
      using D row(2) that by fastforce
    ultimately show "\<forall>st. runtime m sid = Some st \<longrightarrow> caching m \<and> recorded g \<and> 0 < row_len m r + d
          \<and> length (concat (pending_slots st)) = length (pending_tokens st)
          \<and> (pending_slots st = [] \<longleftrightarrow> pending_tokens st = [])
          \<and> int (length (pending_tokens st)) < cache_block_size m
          \<and> pending_fits m' r (settled_at m n sid r)
               (next_logical_block_idx st - int (length (pending_of m sid))) (pending_of m sid)
          \<and> settled_at m n sid r + int (length (pending_of m sid)) * cache_block_size m
              = attached m sid + next_logical_block_idx st * cache_block_size m - hit_of g"
      using D by blast
  qed (use D in blast)+
qed

lemma layout_cong:
  assumes ok: "layout_ok g n m sid r"
    and row: "row_len m' r = row_len m r"
      "\<And>k. 0 \<le> k \<Longrightarrow> k < row_len m r \<Longrightarrow> cell m' r k = cell m r k"
    and same: "ranges_of m' sid = ranges_of m sid" "held_blocks m' sid = held_blocks m sid"
      "runtime m' sid = runtime m sid" "pending_of m' sid = pending_of m sid"
      "get_list (seq_id_to_prefix_blocks m') sid = get_list (seq_id_to_prefix_blocks m) sid"
      "cache_block_size m' = cache_block_size m" "caching m' = caching m"
    and slots: "\<And>b. b \<in> set (held_blocks m sid) \<Longrightarrow> block_slots m' b = block_slots m b"
  shows "layout_ok g n m' sid r"
  using layout_grow [OF ok, of m' 0] row same slots by simp

lemma layout_settled_tail:
  assumes ok: "layout_ok g n m sid r"
  shows "settled_at m n sid r \<le> row_len m r - n"
proof -
  note D = ok [unfolded layout_ok_def]
  have "pending_of m sid = [] \<or> 0 \<le> cache_block_size m" using D by (cases "runtime m sid") force+
  then have "0 \<le> int (length (pending_of m sid)) * cache_block_size m" by auto
  then show ?thesis by (simp add: settled_at_def)
qed

lemma layout_settled:
  assumes ok: "layout_ok g n m sid r"
  shows "settled_at m n sid r \<le> row_len m r" "0 \<le> n" "0 \<le> settled_at m n sid r"
proof -
  show "0 \<le> n" "0 \<le> settled_at m n sid r" using ok unfolding layout_ok_def by blast+
  with layout_settled_tail [OF ok] show "settled_at m n sid r \<le> row_len m r" by linarith
qed

lemma private_cong:
  assumes "owner m' sid = owner m sid" "ranges_of m' sid = ranges_of m sid"
    "\<And>r. owner m sid = Some r \<Longrightarrow> row_len m' r = row_len m r"
    "\<And>r k. owner m sid = Some r \<Longrightarrow> 0 \<le> k \<Longrightarrow> k < row_len m r \<Longrightarrow> cell m' r k = cell m r k"
  shows "private_slots m' sid = private_slots m sid"
proof (cases "owner m sid")
  case (Some r)
  have "private_positions m' sid r = private_positions m sid r"
    using assms(2,3) Some by (simp add: private_positions_def)
  moreover have "image_mset (cell m' r) (mset (private_positions m sid r))
      = image_mset (cell m r) (mset (private_positions m sid r))"
    using assms(4) Some by (intro image_mset_cong) (auto simp: private_positions_def)
  ultimately show ?thesis using assms(1) Some by (simp add: private_slots_def)
qed (use assms(1) in \<open>simp add: private_slots_def\<close>)

section \<open>Room on the stack\<close>

lemma size_all_slots:
  assumes "std_inv P G T m"
  shows "int (size (all_slots m)) = num_kvcache_slots m"
  using std_invD(6,7) [OF assms] by (auto simp: stack_ok_def arange_def)

lemma room_for_blocks:
  assumes inv: "std_inv P G T m" and "distinct rs" "set rs \<subseteq> indexed m"
  shows "num_free m + (\<Sum>r\<leftarrow>rs. int (length (block_slots m r))) \<le> num_kvcache_slots m"
proof -
  have "(\<Sum>r\<in>set rs. mset (block_slots m r)) \<subseteq># blocks_part m"
    unfolding blocks_part_def using assms(3)
    by (metis finite_indexed mset_subset_eq_add_left sum.subset_diff add.commute)
  then have "size (\<Sum>r\<in>set rs. mset (block_slots m r)) \<le> size (blocks_part m)" by (rule size_mset_mono)
  moreover have "size (\<Sum>r\<in>set rs. mset (block_slots m r)) = (\<Sum>r\<in>set rs. length (block_slots m r))"
    by (simp add: size_multiset_sum)
  moreover have "(\<Sum>r\<leftarrow>rs. int (length (block_slots m r))) = int (\<Sum>r\<in>set rs. length (block_slots m r))"
    using assms(2) by (simp add: sum_list_distinct_conv_sum_set)
  moreover have "int (size (free_part m)) + int (size (rows_part m)) + int (size (blocks_part m)) = num_kvcache_slots m"
    using size_all_slots [OF inv] by (simp add: all_slots_def)
  ultimately show ?thesis using size_free_part [OF std_invD(7) [OF inv]] by linarith
qed

section \<open>Freeing payloads\<close>

definition has_payload :: "std_cache \<Rightarrow> nat \<Rightarrow> bool" where
  "has_payload m r \<longleftrightarrow>
     (\<exists>ix p xs. prefix_cache m = Some ix \<and> payload (obj ix r) = r
        \<and> residency (obj ix r) = default_residency \<and> payload_at m r = Some p
        \<and> token_slots p = Some xs \<and> int (length xs) = resident_tokens (cache_block_size m) p)"

lemma free_block_payloads_run:
  assumes "stack_ok m" "distinct rs" "\<And>r. r \<in> set rs \<Longrightarrow> has_payload m r"
    "num_free m + (\<Sum>r\<leftarrow>rs. int (length (block_slots m r))) \<le> num_kvcache_slots m"
  shows "\<exists>st pa t. free_block_payloads rs m = (Inr [], t)
    \<and> t = m\<lparr>free_slots_stack := st, payload_at := pa,
          num_free := num_free m + (\<Sum>r\<leftarrow>rs. int (length (block_slots m r)))\<rparr>
    \<and> stack_ok t \<and> free_part t = free_part m + (\<Sum>r\<leftarrow>rs. mset (block_slots m r))
    \<and> (\<forall>x. x \<notin> set rs \<longrightarrow> pa x = payload_at m x)"
  using assms
proof (induction rs arbitrary: m)
  case Nil
  then show ?case
    by (intro exI [of _ "free_slots_stack m"] exI [of _ "payload_at m"] exI [of _ m]) simp
next
  case (Cons r rs)
  obtain ix p xs where p: "prefix_cache m = Some ix" "payload (obj ix r) = r"
    "residency (obj ix r) = default_residency" "payload_at m r = Some p" "token_slots p = Some xs"
    "int (length xs) = resident_tokens (cache_block_size m) p"
    using Cons.prems(3) [of r] by (auto simp: has_payload_def)
  have bs: "block_slots m r = xs" using p by (simp add: block_slots_def)
  have at: "block_at m r = Some (obj ix r)" "payload_of m r = Some p"
    using p by (simp_all add: block_at_def payload_of_def)
  have nn: "0 \<le> (\<Sum>r\<leftarrow>rs. int (length (block_slots m r)))" by (intro sum_list_nonneg) auto
  then have "num_free m + int (length xs) \<le> num_kvcache_slots m" using Cons.prems(4) bs by simp
  from push_slots_run [OF Cons.prems(1) refl this] obtain st where
    st: "push_slots (int (length xs)) xs m
        = (Inr (), m\<lparr>free_slots_stack := st, num_free := num_free m + int (length xs)\<rparr>)"
      "stack_ok (m\<lparr>free_slots_stack := st, num_free := num_free m + int (length xs)\<rparr>)"
      "free_part (m\<lparr>free_slots_stack := st, num_free := num_free m + int (length xs)\<rparr>) = free_part m + mset xs"
    by blast
  let ?pa = "(payload_at m)(r \<mapsto> p\<lparr>token_slots := None\<rparr>)"
  let ?m1 = "m\<lparr>free_slots_stack := st, num_free := num_free m + int (length xs), payload_at := ?pa\<rparr>"
  have step: "free_device_prefix_block r m = (Inr (), ?m1)"
    using p at st(1) by (simp add: free_device_prefix_block_def bindE_run block_at_def)
  have same: "block_slots ?m1 x = block_slots m x" if "x \<noteq> r" for x using that by (simp add: block_slots_def)
  have notin: "r \<notin> set rs" "distinct rs" using Cons.prems(2) by simp_all
  have same': "block_slots ?m1 x = block_slots m x" if "x \<in> set rs" for x
    using same notin(1) that by metis
  have sum: "(\<Sum>x\<leftarrow>rs. int (length (block_slots ?m1 x))) = (\<Sum>x\<leftarrow>rs. int (length (block_slots m x)))"
    "(\<Sum>x\<leftarrow>rs. mset (block_slots ?m1 x)) = (\<Sum>x\<leftarrow>rs. mset (block_slots m x))"
    by (simp_all add: same' cong: map_cong)
  have hp: "has_payload ?m1 x" if "x \<in> set rs" for x
    using Cons.prems(3) [of x] that notin by (auto simp: has_payload_def)
  have ok1: "stack_ok ?m1" using st(2) by (simp add: stack_ok_def)
  have fp1: "free_part ?m1 = free_part m + mset xs" using st(3) by (simp add: free_part_def)
  from Cons.IH [OF ok1 notin(2) hp] Cons.prems(4) bs sum obtain st' pa t where
    ih: "free_block_payloads rs ?m1 = (Inr [], t)"
      "t = ?m1\<lparr>free_slots_stack := st', payload_at := pa,
          num_free := num_free ?m1 + (\<Sum>r\<leftarrow>rs. int (length (block_slots m r)))\<rparr>"
      "stack_ok t" "free_part t = free_part ?m1 + (\<Sum>r\<leftarrow>rs. mset (block_slots m r))"
      "\<forall>x. x \<notin> set rs \<longrightarrow> pa x = payload_at ?m1 x"
    by auto
  have "free_block_payloads (r # rs) m = (Inr [], t)"
    using at p step ih(1) by (simp add: default_residency_def)
  moreover have "t = m\<lparr>free_slots_stack := st', payload_at := pa,
      num_free := num_free m + (\<Sum>r\<leftarrow>r # rs. int (length (block_slots m r)))\<rparr>"
    using ih(2) bs by (simp add: add.assoc)
  ultimately show ?case using ih(3,4,5) fp1 bs notin
    by (intro exI [of _ st'] exI [of _ pa] exI [of _ t]) (auto simp: add.assoc)
qed

lemma free_blocks_run:
  assumes "stack_ok m" "distinct rs" "\<And>r. r \<in> set rs \<Longrightarrow> has_payload m r"
    "num_free m + (\<Sum>r\<leftarrow>rs. int (length (block_slots m r))) \<le> num_kvcache_slots m"
  shows "\<exists>st pa t. free_prefix_cache_blocks rs m = (Inr (), t)
    \<and> t = m\<lparr>free_slots_stack := st, payload_at := pa,
          num_free := num_free m + (\<Sum>r\<leftarrow>rs. int (length (block_slots m r)))\<rparr>
    \<and> stack_ok t \<and> free_part t = free_part m + (\<Sum>r\<leftarrow>rs. mset (block_slots m r))
    \<and> (\<forall>x. x \<notin> set rs \<longrightarrow> pa x = payload_at m x)"
proof -
  from free_block_payloads_run [OF assms] obtain st pa t where
    "free_block_payloads rs m = (Inr [], t)"
    "t = m\<lparr>free_slots_stack := st, payload_at := pa,
        num_free := num_free m + (\<Sum>r\<leftarrow>rs. int (length (block_slots m r)))\<rparr>"
    "stack_ok t" "free_part t = free_part m + (\<Sum>r\<leftarrow>rs. mset (block_slots m r))"
    "\<forall>x. x \<notin> set rs \<longrightarrow> pa x = payload_at m x" by blast
  then show ?thesis
    by (intro exI [of _ st] exI [of _ pa] exI [of _ t]) (simp add: free_prefix_cache_blocks_def bindE_run)
qed

section \<open>Removing unreferenced blocks\<close>

lemma get_block_inj:
  assumes "index_ok ix" "get_block ix a = Some r" "get_block ix b = Some r"
  shows "a = b"
  using index_okD(6) [OF assms(1,2)] index_okD(6) [OF assms(1,3)] by simp

lemma unreferenced_unheld:
  assumes inv: "std_inv P G T m" and ix: "prefix_cache m = Some ix" and r: "r \<in> indexed m"
    and zero: "ref_count (obj ix r) = 0"
  shows "r \<notin> set (held_blocks m sid)" "r \<notin># P"
proof -
  have "int (holders m r + count P r) = 0"
    using std_invD(4) [OF inv] ix r zero by (auto simp: refs_ok_def)
  then have z: "holders m r = 0" "count P r = 0" by simp_all
  then show "r \<notin># P" by (simp add: not_in_iff)
  show "r \<notin> set (held_blocks m sid)"
  proof
    assume h: "r \<in> set (held_blocks m sid)"
    then have "sid \<in> owners m" using std_invD(4) [OF inv] by (force simp: refs_ok_def)
    then have "count_list (held_blocks m sid) r = 0" using z(1) by (simp add: holders_def)
    with h show False by (simp add: count_list_0_iff)
  qed
qed

lemma map_Some_set: "map f ks = map Some rs \<Longrightarrow> r \<in> set rs \<longleftrightarrow> (\<exists>k\<in>set ks. f k = Some r)"
  by (metis (mono_tags, lifting) imageE imageI list.set_map option.inject)

definition removal :: "index \<Rightarrow> bytes list \<Rightarrow> nat list \<Rightarrow> index \<Rightarrow> bool" where
  "removal ix ks rs ix' \<longleftrightarrow> index_ok ix' \<and> obj ix' = obj ix \<and> block_size ix' = block_size ix
     \<and> (\<forall>b. get_block ix' b = (if b \<in> set ks then None else get_block ix b))
     \<and> map (get_block ix) ks = map Some rs \<and> distinct ks
     \<and> (\<forall>r\<in>set rs. ref_count (obj ix r) = 0)"

lemma removal_refs:
  assumes ok: "index_ok ix" and rm: "removal ix ks rs ix'"
  shows "distinct rs" "set rs \<subseteq> ran (get_block ix)" "ran (get_block ix') = ran (get_block ix) - set rs"
proof -
  have g: "map (get_block ix) ks = map Some rs" "distinct ks" using rm by (auto simp: removal_def)
  have "inj_on (get_block ix) (set ks)"
  proof (rule inj_onI)
    fix a b
    assume ab: "a \<in> set ks" "b \<in> set ks" "get_block ix a = get_block ix b"
    have "get_block ix a \<in> set (map Some rs)" using ab(1) g(1) by (metis imageI list.set_map)
    then obtain r where "get_block ix a = Some r" by auto
    with ab get_block_inj [OF ok] show "a = b" by metis
  qed
  then have "distinct (map Some rs)" using g by (metis distinct_map)
  then show "distinct rs" by (simp add: distinct_map)
  show "set rs \<subseteq> ran (get_block ix)" using map_Some_set [OF g(1)] by (auto simp: ran_def)
  have "get_block ix' b = Some r \<longleftrightarrow> get_block ix b = Some r \<and> r \<notin> set rs" for b r
    using rm map_Some_set [OF g(1), of r] get_block_inj [OF ok]
    by (auto simp: removal_def split: if_splits)
  then show "ran (get_block ix') = ran (get_block ix) - set rs" by (auto simp: ran_def)
qed

theorem remove_blocks_inv:
  assumes inv: "std_inv P G T m" and ix: "prefix_cache m = Some ix" and rm: "removal ix ks rs ix'"
  shows "\<exists>st pa t. free_prefix_cache_blocks rs (m\<lparr>prefix_cache := Some ix'\<rparr>) = (Inr (), t)
    \<and> t = m\<lparr>prefix_cache := Some ix', free_slots_stack := st, payload_at := pa,
          num_free := num_free m + (\<Sum>r\<leftarrow>rs. int (length (block_slots m r)))\<rparr>
    \<and> std_inv P G T t \<and> indexed t = indexed m - set rs
    \<and> (\<forall>r. r \<notin> set rs \<longrightarrow> payload_at t r = payload_at m r)"
proof -
  let ?m1 = "m\<lparr>prefix_cache := Some ix'\<rparr>"
  note D = std_invD [OF inv]
  have ok: "index_ok ix" using D(3) ix by (simp add: blocks_ok_def)
  note refs = removal_refs [OF ok rm]
  have ob: "obj ix' = obj ix" using rm by (simp add: removal_def)
  have ind: "indexed m = ran (get_block ix)" using ix by (simp add: indexed_def)
  have sub: "set rs \<subseteq> indexed m" using refs(2) ind by simp
  have hp: "has_payload ?m1 r" if "r \<in> set rs" for r
  proof -
    have "r \<in> indexed m" using that sub by auto
    with D(3) ix ob show ?thesis by (force simp: blocks_ok_def has_payload_def)
  qed
  have bs1: "block_slots ?m1 = block_slots m" by (rule ext) (simp add: block_slots_def)
  have so: "stack_ok ?m1" using D(7) by (simp add: stack_ok_def)
  have room: "num_free ?m1 + (\<Sum>r\<leftarrow>rs. int (length (block_slots ?m1 r))) \<le> num_kvcache_slots ?m1"
    using room_for_blocks [OF inv refs(1) sub] by (simp add: bs1)
  from free_blocks_run [OF so refs(1) hp room] obtain st pa t where
    run: "free_prefix_cache_blocks rs ?m1 = (Inr (), t)"
      "t = m\<lparr>prefix_cache := Some ix', free_slots_stack := st, payload_at := pa,
          num_free := num_free m + (\<Sum>r\<leftarrow>rs. int (length (block_slots m r)))\<rparr>"
      "stack_ok t" "free_part t = free_part m + (\<Sum>r\<leftarrow>rs. mset (block_slots m r))"
      "\<forall>x. x \<notin> set rs \<longrightarrow> pa x = payload_at m x"
    unfolding bs1 by (auto simp: free_part_def)
  have indt: "indexed t = indexed m - set rs" using refs(3) ind run(2) by (simp add: indexed_def)
  have pat: "payload_at t r = payload_at m r" if "r \<notin> set rs" for r using run(2,5) that by simp
  have bst: "block_slots t r = block_slots m r" if "r \<notin> set rs" for r
    using pat [OF that] by (simp add: block_slots_def)
  have held: "held_blocks t sid = held_blocks m sid" for sid using run(2) by (simp add: held_blocks_def)
  have own: "owner t sid = owner m sid" for sid using run(2) by (simp add: owner_def)
  have owns: "owners t = owners m" using own by (simp add: owners_def dom_def)
  have un: "r \<notin> set (held_blocks m sid) \<and> r \<notin># P" if "r \<in> set rs" for r sid
    using unreferenced_unheld [OF inv ix, of r] sub rm that by (auto simp: removal_def)
  have "shapes_ok t" using D(1) run(2,3) by (simp add: shapes_ok_def row_len_def)
  moreover have "rows_ok t" using D(2) run(2) by (simp add: rows_ok_def row_len_def)
  moreover have "blocks_ok t"
  proof -
    have "r < next_ref t \<and> payload (obj ix' r) = r \<and> residency (obj ix' r) = default_residency
        \<and> (\<exists>p xs. payload_at t r = Some p \<and> token_slots p = Some xs
             \<and> int (length xs) = resident_tokens (cache_block_size t) p
             \<and> int (length xs) \<le> cache_block_size t)" if "r \<in> indexed t" for r
      using that D(3) ix ob indt pat [of r] run(2) by (auto simp: blocks_ok_def)
    moreover have "index_ok ix'" "block_size ix' = cache_block_size t"
      using rm D(3) ix run(2) by (auto simp: removal_def blocks_ok_def)
    ultimately show ?thesis using D(3) ix run(2) by (auto simp: blocks_ok_def)
  qed
  moreover have "refs_ok P t"
  proof -
    have "holders t r = holders m r" for r by (simp add: holders_def held owns)
    then show ?thesis using D(4) ix ob run(2) un indt held owns
      by (auto simp: refs_ok_def)
  qed
  moreover have "seqs_ok G T t"
  proof -
    show ?thesis
    proof (rule seqs_okI)
      fix sid
      assume "owner t sid = None"
      then have "vacant m sid" using seqs_okD(1) [OF D(5)] own by simp
      then show "vacant t sid" using run(2)
        by (simp add: vacant_def ranges_of_def runtime_def pending_of_def)
    next
      fix sid r
      assume "owner t sid = Some r"
      then have lay: "layout_ok (G sid) (T sid) m sid r" using seqs_okD(2) [OF D(5)] own by simp
      show "layout_ok (G sid) (T sid) t sid r"
        by (rule layout_cong [OF lay]) (use run(2) ix held un bst in \<open>auto simp: row_len_def cell_def ranges_of_def
            runtime_def pending_of_def caching_def\<close>)
    qed
  qed
  moreover have "all_slots t = mset (arange (num_kvcache_slots t))"
  proof -
    have rp: "rows_part t = rows_part m"
    proof (rule rows_part_cong [OF owns])
      fix sid
      show "private_slots t sid = private_slots m sid"
        by (rule private_cong) (use run(2) own in \<open>auto simp: ranges_of_def row_len_def cell_def\<close>)
    qed
    have "blocks_part m = (\<Sum>r\<in>set rs. mset (block_slots m r)) + (\<Sum>r\<in>indexed m - set rs. mset (block_slots m r))"
      unfolding blocks_part_def using sub by (metis add.commute finite_indexed sum.subset_diff)
    moreover have "blocks_part t = (\<Sum>r\<in>indexed m - set rs. mset (block_slots m r))"
      unfolding blocks_part_def indt using bst by (intro sum.cong) auto
    moreover have "(\<Sum>r\<leftarrow>rs. mset (block_slots m r)) = (\<Sum>r\<in>set rs. mset (block_slots m r))"
      using refs(1) by (simp add: sum_list_distinct_conv_sum_set)
    ultimately have "all_slots t = all_slots m" using rp run(4) by (simp add: all_slots_def)
    then show ?thesis using D(6) run(2) by simp
  qed
  ultimately have "std_inv P G T t" by (simp add: std_inv_def)
  then show ?thesis using run indt pat by blast
qed

section \<open>Evicting until enough slots are free\<close>

text \<open>What an eviction may change; the surviving blocks and every row are as they were.\<close>

definition evicted_to :: "std_cache \<Rightarrow> std_cache \<Rightarrow> bool" where
  "evicted_to m t \<longleftrightarrow>
     (\<exists>pc st pa k. t = m\<lparr>prefix_cache := pc, free_slots_stack := st, payload_at := pa, num_free := k\<rparr>
        \<and> num_free m \<le> k
        \<and> (case (prefix_cache m, pc) of
             (None, None) \<Rightarrow> True
           | (Some ix, Some ix') \<Rightarrow> obj ix' = obj ix \<and> max_blocks ix' = max_blocks ix
               \<and> fingerprint ix' = fingerprint ix \<and> block_size ix' = block_size ix
               \<and> (\<forall>b r. get_block ix' b = Some r \<longrightarrow> get_block ix b = Some r)
           | _ \<Rightarrow> False)
        \<and> (\<forall>r\<in>indexed t. pa r = payload_at m r))"

lemma evicted_refl: "evicted_to m m"
  unfolding evicted_to_def
  by (intro exI [of _ "prefix_cache m"] exI [of _ "free_slots_stack m"] exI [of _ "payload_at m"]
      exI [of _ "num_free m"]) (auto split: option.splits)

definition freeable_slots :: "std_cache \<Rightarrow> int" where
  "freeable_slots m =
     (case prefix_cache m of None \<Rightarrow> 0
      | Some ix \<Rightarrow> (\<Sum>b\<in>free_set ix. int (length (block_slots m (the (get_block ix b))))))"

lemma weight_nonneg: "0 < cache_block_size m \<Longrightarrow> 0 \<le> block_resident_tokens_or_full m k"
  by (simp add: block_resident_tokens_or_full_def resident_tokens_def split: option.split)

lemma block_weight:
  assumes "blocks_ok m" "prefix_cache m = Some ix" "r \<in> indexed m"
  shows "block_resident_tokens_or_full m (obj ix r) = int (length (block_slots m r))"
proof -
  from assms obtain p xs where "payload (obj ix r) = r" "payload_at m r = Some p"
    "token_slots p = Some xs" "int (length xs) = resident_tokens (cache_block_size m) p"
    by (auto simp: blocks_ok_def)
  then show ?thesis by (simp add: block_resident_tokens_or_full_def block_slots_def)
qed

lemma free_set_sum:
  assumes ok: "index_ok ix" and ks: "map (get_block ix) ks = map Some rs" "distinct ks"
  shows "(\<Sum>b\<in>set ks. f (the (get_block ix b))) = (\<Sum>r\<leftarrow>rs. (f r :: int))"
proof -
  have "map (\<lambda>b. f (the (get_block ix b))) ks = map (f \<circ> the) (map (get_block ix) ks)" by simp
  also have "\<dots> = map f rs" by (simp only: ks) simp
  finally have "map (\<lambda>b. f (the (get_block ix b))) ks = map f rs" .
  then show ?thesis using sum_list_distinct_conv_sum_set [OF ks(2), of "\<lambda>b. f (the (get_block ix b))"] by simp
qed

lemma freed_not_blocked: "freeable s b \<Longrightarrow> get_block s b = Some r \<Longrightarrow> ref_count (obj s r) = 0"
  by (erule freeableE) (auto simp: locally_blocked_def)

theorem evict_until_free_inv:
  assumes inv: "std_inv P G T m"
  shows "\<exists>t. evict_prefix_cache_until_free n m = (Inr (), t) \<and> std_inv P G T t \<and> evicted_to m t
    \<and> min n (num_free m + freeable_slots m) \<le> num_free t"
proof (cases "caching m \<and> num_free m < n")
  case False
  moreover have "0 \<le> freeable_slots m" by (simp add: freeable_slots_def sum_nonneg split: option.split)
  moreover have "freeable_slots m = 0" if "\<not> caching m"
    using that no_caching [OF std_invD(3) [OF inv]] by (simp add: freeable_slots_def)
  ultimately show ?thesis using inv evicted_refl [of m]
    by (intro exI [of _ m]) (auto simp: evict_prefix_cache_until_free_def)
next
  case True
  then obtain ix where ix: "prefix_cache m = Some ix" by (auto simp: caching_def)
  note D = std_invD [OF inv]
  have ok: "index_ok ix" "block_size ix = cache_block_size m" using D(3) ix by (auto simp: blocks_ok_def)
  then have bs: "0 < cache_block_size m" using index_okD(1) by metis
  let ?w = "block_resident_tokens_or_full m"
  from evict_until_weight_spec [OF ok(1), of ?w "n - num_free m"] weight_nonneg [OF bs] obtain ks rs ix' where
    e: "evict_until_weight (n - num_free m) ?w ix = (Inr rs, ix')"
      "evicted_greedily ?w (n - num_free m) 0 ix ks rs ix'" by blast
  have ks: "map (get_block ix) ks = map Some rs" "distinct ks" "set ks \<subseteq> free_set ix"
    "free_set ix' = free_set ix - set ks" "index_ok ix'" "obj ix' = obj ix"
    "\<And>b. get_block ix' b = (if b \<in> set ks then None else get_block ix b)"
    "n - num_free m \<le> total_weight ?w ix rs \<or> free_set ix' = {}"
    using e(2) by (auto simp: evicted_greedily_def)
  have "ref_count (obj ix r) = 0" if r: "r \<in> set rs" for r
  proof -
    obtain b where "b \<in> set ks" "get_block ix b = Some r" using map_Some_set [OF ks(1)] r by blast
    then show ?thesis using ks(3) freed_not_blocked by (auto simp: free_set_def)
  qed
  then have rm: "removal ix ks rs ix'" using e(2) by (auto simp: removal_def evicted_greedily_def)
  from remove_blocks_inv [OF inv ix rm] obtain st pa t where
    t: "free_prefix_cache_blocks rs (m\<lparr>prefix_cache := Some ix'\<rparr>) = (Inr (), t)"
      "t = m\<lparr>prefix_cache := Some ix', free_slots_stack := st, payload_at := pa,
          num_free := num_free m + (\<Sum>r\<leftarrow>rs. int (length (block_slots m r)))\<rparr>"
      "std_inv P G T t" "indexed t = indexed m - set rs"
      "\<forall>r. r \<notin> set rs \<longrightarrow> payload_at t r = payload_at m r" by blast
  have run: "evict_prefix_cache_until_free n m = (Inr (), t)"
    using True ix e(1) t(1) by (simp add: evict_prefix_cache_until_free_def bindE_run on_index_def)
  have nn: "0 \<le> (\<Sum>r\<leftarrow>rs. int (length (block_slots m r)))" by (intro sum_list_nonneg) auto
  have "evicted_to m t"
    unfolding evicted_to_def
    using t(2,4,5) ix nn ks(6,7) e(2)
    by (intro exI [of _ "Some ix'"] exI [of _ st] exI [of _ pa]
        exI [of _ "num_free m + (\<Sum>r\<leftarrow>rs. int (length (block_slots m r)))"])
      (auto simp: evicted_greedily_def split: if_splits)
  moreover have "min n (num_free m + freeable_slots m) \<le> num_free t"
  proof -
    have sub: "set rs \<subseteq> indexed m" using removal_refs(2) [OF ok(1) rm] ix by (simp add: indexed_def)
    have w: "total_weight ?w ix rs = (\<Sum>r\<leftarrow>rs. int (length (block_slots m r)))"
      using block_weight [OF D(3) ix] sub by (intro arg_cong [where f = sum_list] map_cong) auto
    show ?thesis
    proof (cases "n - num_free m \<le> total_weight ?w ix rs")
      case True
      then show ?thesis using w t(2) by simp
    next
      case False
      then have "free_set ix = set ks" using ks(3,4,8) by auto
      then have "freeable_slots m = (\<Sum>r\<leftarrow>rs. int (length (block_slots m r)))"
        using free_set_sum [OF ok(1) ks(1,2), of "\<lambda>r. int (length (block_slots m r))"] ix
        by (simp add: freeable_slots_def)
      then show ?thesis using t(2) by simp
    qed
  qed
  ultimately show ?thesis using run t(3) by blast
qed

text \<open>Changes of the index that concern neither the membership nor the slots.\<close>

definition same_blocks :: "index \<Rightarrow> index \<Rightarrow> bool" where
  "same_blocks ix ix' \<longleftrightarrow> index_ok ix' \<and> block_size ix' = block_size ix
     \<and> (\<forall>b. get_block ix' b = get_block ix b)
     \<and> (\<forall>r\<in>ran (get_block ix). payload (obj ix' r) = payload (obj ix r)
          \<and> residency (obj ix' r) = residency (obj ix r) \<and> ref_count (obj ix' r) = ref_count (obj ix r))"

lemma seqs_ok_cong:
  assumes ok: "seqs_ok G T m"
    and same: "seq_id_to_row m' = seq_id_to_row m" "row_seq_lens m' = row_seq_lens m"
      "buffer_slots m' = buffer_slots m" "seq_id_to_cached_ranges m' = seq_id_to_cached_ranges m"
      "\<And>sid. held_blocks m' sid = held_blocks m sid"
      "prefix_runtime_states m' = prefix_runtime_states m"
      "pending_prefix_blocks m' = pending_prefix_blocks m"
      "seq_id_to_prefix_blocks m' = seq_id_to_prefix_blocks m"
      "cache_block_size m' = cache_block_size m" "caching m' = caching m"
    and slots: "\<And>sid b. b \<in> set (held_blocks m sid) \<Longrightarrow> block_slots m' b = block_slots m b"
  shows "seqs_ok G T m'"
proof (rule seqs_okI)
  fix sid
  assume "owner m' sid = None"
  then have "vacant m sid" using seqs_okD(1) [OF ok] same(1) by (simp add: owner_def)
  then show "vacant m' sid" using same by (simp add: vacant_def ranges_of_def runtime_def pending_of_def)
next
  fix sid r
  assume "owner m' sid = Some r"
  then have "layout_ok (G sid) (T sid) m sid r" using seqs_okD(2) [OF ok] same(1) by (simp add: owner_def)
  then show "layout_ok (G sid) (T sid) m' sid r"
    by (rule layout_cong) (use same slots in \<open>auto simp: row_len_def cell_def ranges_of_def runtime_def pending_of_def\<close>)
qed

theorem refs_move_inv:
  assumes inv: "std_inv P G T m" and ix: "prefix_cache m = Some ix"
    and ok: "index_ok ix'" "block_size ix' = block_size ix" "\<And>b. get_block ix' b = get_block ix b"
    and obj: "\<And>r. r \<in> ran (get_block ix) \<Longrightarrow> payload (obj ix' r) = payload (obj ix r)
        \<and> residency (obj ix' r) = residency (obj ix r)
        \<and> ref_count (obj ix' r) + int (count P r) = ref_count (obj ix r) + int (count P' r)"
    and P': "set_mset P' \<subseteq> ran (get_block ix)"
  shows "std_inv P' G T (m\<lparr>prefix_cache := Some ix'\<rparr>)"
proof -
  let ?t = "m\<lparr>prefix_cache := Some ix'\<rparr>"
  note D = std_invD [OF inv]
  have "get_block ix' = get_block ix" using ok(3) by (rule ext)
  then have ind: "indexed ?t = indexed m" "indexed m = ran (get_block ix)" using ix by (simp_all add: indexed_def)
  have own: "\<And>sid. owner ?t sid = owner m sid" by (simp add: owner_def)
  then have owns: "owners ?t = owners m" by (simp add: owners_def dom_def)
  have bs: "block_slots ?t = block_slots m" by (rule ext) (simp add: block_slots_def)
  have held: "held_blocks ?t sid = held_blocks m sid" for sid by (simp add: held_blocks_def)
  have "shapes_ok ?t" "rows_ok ?t"
    using D(1,2) by (simp_all add: shapes_ok_def stack_ok_def row_len_def rows_ok_def)
  moreover have "blocks_ok ?t" using D(3) ix ok obj ind by (auto simp: blocks_ok_def)
  moreover have "refs_ok P' ?t"
  proof -
    have "holders ?t r = holders m r" for r by (simp add: holders_def held owns)
    moreover have "ref_count (obj ix' r) = int (holders m r + count P' r)" if "r \<in> indexed m" for r
    proof -
      have "ref_count (obj ix r) = int (holders m r + count P r)"
        using D(4) ix that by (auto simp: refs_ok_def)
      then show ?thesis using obj [of r] that ind by auto
    qed
    ultimately show ?thesis using D(4) P' ind held owns by (auto simp: refs_ok_def)
  qed
  moreover have "seqs_ok G T ?t"
    by (rule seqs_ok_cong [OF D(5)]) (use held bs ix in \<open>auto simp: caching_def\<close>)
  moreover have "rows_part ?t = rows_part m"
    by (rule rows_part_cong [OF owns], rule private_cong) (auto simp: own ranges_of_def row_len_def cell_def)
  then have "all_slots ?t = mset (arange (num_kvcache_slots ?t))"
    using D(6) by (simp add: all_slots_def blocks_part_def ind(1) bs free_part_def)
  ultimately show ?thesis by (simp add: std_inv_def)
qed

corollary same_blocks_inv:
  assumes inv: "std_inv P G T m" and ix: "prefix_cache m = Some ix" and sb: "same_blocks ix ix'"
  shows "std_inv P G T (m\<lparr>prefix_cache := Some ix'\<rparr>)"
proof -
  have "set_mset P \<subseteq> ran (get_block ix)"
    using std_invD(4) [OF inv] ix by (auto simp: refs_ok_def indexed_def)
  then show ?thesis using sb by (intro refs_move_inv [OF inv ix]) (auto simp: same_blocks_def)
qed

text \<open>Making room in the index for one more block, or failing without a trace but the evictions.\<close>

theorem evict_for_insert_inv:
  assumes inv: "std_inv P G T m"
  shows "\<exists>x t. evict_prefix_cache_for_insert 1 m = (x, t) \<and> std_inv P G T t \<and> evicted_to m t
    \<and> (x = Inr () \<longrightarrow> (\<forall>ix k. prefix_cache t = Some ix \<and> max_blocks ix = Some k \<longrightarrow> int (length (blocks ix)) < k))"
proof (cases "prefix_cache m")
  case None
  then show ?thesis using inv evicted_refl [of m]
    by (intro exI [of _ "Inr ()"] exI [of _ m]) (simp add: evict_prefix_cache_for_insert_def caching_def)
next
  case (Some ix)
  note ix = Some
  note D = std_invD [OF inv]
  have ok: "index_ok ix" using D(3) ix by (auto simp: blocks_ok_def)
  have c: "caching m" using no_caching [OF D(3)] Some by simp
  have run: "evict_prefix_cache_for_insert 1 m =
      (case ensure_insert_capacity 1 ix of
         (Inl e, ix') \<Rightarrow> (Inl e, m\<lparr>prefix_cache := Some ix'\<rparr>)
       | (Inr rs, ix') \<Rightarrow> free_prefix_cache_blocks rs (m\<lparr>prefix_cache := Some ix'\<rparr>))"
    using c Some by (simp add: evict_prefix_cache_for_insert_def bindE_run on_index_def split: prod.split sum.split)
  show ?thesis
  proof (cases "max_blocks ix")
    case None
    have "free_prefix_cache_blocks [] m = (Inr (), m)" by (simp add: free_prefix_cache_blocks_def bindE_run)
    moreover have "m\<lparr>prefix_cache := Some ix\<rparr> = m" using ix by simp
    ultimately have "evict_prefix_cache_for_insert 1 m = (Inr (), m)"
      using run None by (simp add: ensure_insert_capacity_def)
    then show ?thesis using inv evicted_refl [of m] ix None by (intro exI [of _ "Inr ()"] exI [of _ m]) simp
  next
    case (Some k)
    note k = this
    let ?over = "int (length (blocks ix)) + 1 - k"
    have le: "?over \<le> 1" using index_okD(12) [OF ok k] by simp
    show ?thesis
    proof (cases "?over \<le> 0")
      case True
      have "free_prefix_cache_blocks [] m = (Inr (), m)" by (simp add: free_prefix_cache_blocks_def bindE_run)
      moreover have "m\<lparr>prefix_cache := Some ix\<rparr> = m" using ix by simp
      ultimately have "evict_prefix_cache_for_insert 1 m = (Inr (), m)"
        using run k True by (simp add: ensure_insert_capacity_def)
      then show ?thesis using inv evicted_refl [of m] ix k True
        by (intro exI [of _ "Inr ()"] exI [of _ m]) simp
    next
      case False
      with le have one: "?over = 1" by simp
      from evict_until_weight_spec [OF ok, of "\<lambda>_. 1" 1] obtain ks rs ix' where
        e: "evict_until_weight 1 (\<lambda>_. 1) ix = (Inr rs, ix')"
          "evicted_greedily (\<lambda>_. 1) 1 0 ix ks rs ix'" by auto
      have w: "total_weight (\<lambda>_. 1) ix xs = int (length xs)" for xs by (induction xs) auto
      have ks: "map (get_block ix) ks = map Some rs" "distinct ks" "set ks \<subseteq> free_set ix"
        "index_ok ix'" "obj ix' = obj ix" "block_size ix' = block_size ix" "max_blocks ix' = max_blocks ix"
        "fingerprint ix' = fingerprint ix"
        "\<And>b. get_block ix' b = (if b \<in> set ks then None else get_block ix b)"
        using e(2) by (auto simp: evicted_greedily_def)
      have short: "length rs \<le> 1"
      proof (rule ccontr)
        assume long: "\<not> length rs \<le> 1"
        then have "0 + total_weight (\<lambda>_. 1) ix (butlast rs) < 1"
          using e(2) unfolding evicted_greedily_def by fastforce
        then have "int (length (butlast rs)) < 1" using w [of "butlast rs"] by linarith
        with long show False by simp
      qed
      have len: "length ks = length rs" using ks(1) by (metis length_map)
      show ?thesis
      proof (cases "rs = []")
        case True
        let ?u = "snd (evictable_block_ids ix')"
        have go: "evict_prefix_cache_for_insert 1 m = (Inl (RuntimeError
            ''Prefix cache capacity exceeded and not enough blocks are evictable: ''), m\<lparr>prefix_cache := Some ?u\<rparr>)"
          using run k one e(1) True by (simp add: ensure_insert_capacity_def evict_until_freeable_def)
        have u: "blocks ?u = blocks ix'" "obj ?u = obj ix'" "max_blocks ?u = max_blocks ix'"
          "fingerprint ?u = fingerprint ix'" "block_size ?u = block_size ix'"
          by (simp_all add: evictable_block_ids_def Let_def)
        have "same_blocks ix ?u" using ks len True u by (simp add: same_blocks_def)
        then have "std_inv P G T (m\<lparr>prefix_cache := Some ?u\<rparr>)" by (rule same_blocks_inv [OF inv ix])
        moreover have "evicted_to m (m\<lparr>prefix_cache := Some ?u\<rparr>)"
          unfolding evicted_to_def using ix ks len True u
          by (intro exI [of _ "Some ?u"] exI [of _ "free_slots_stack m"] exI [of _ "payload_at m"]
              exI [of _ "num_free m"]) auto
        ultimately show ?thesis using go by (intro exI conjI) auto
      next
        case False
        with short have "length rs = 1" by (cases rs) auto
        have "ref_count (obj ix r) = 0" if r: "r \<in> set rs" for r
        proof -
          obtain b where "b \<in> set ks" "get_block ix b = Some r" using map_Some_set [OF ks(1)] r by blast
          then show ?thesis using ks(3) freed_not_blocked by (auto simp: free_set_def)
        qed
        then have rm: "removal ix ks rs ix'" using ks by (auto simp: removal_def)
        from remove_blocks_inv [OF inv ix rm] obtain st pa t where
          t: "free_prefix_cache_blocks rs (m\<lparr>prefix_cache := Some ix'\<rparr>) = (Inr (), t)"
            "t = m\<lparr>prefix_cache := Some ix', free_slots_stack := st, payload_at := pa,
                num_free := num_free m + (\<Sum>r\<leftarrow>rs. int (length (block_slots m r)))\<rparr>"
            "std_inv P G T t" "indexed t = indexed m - set rs"
            "\<forall>r. r \<notin> set rs \<longrightarrow> payload_at t r = payload_at m r" by blast
        have go: "evict_prefix_cache_for_insert 1 m = (Inr (), t)"
          using run k one e(1) t(1) \<open>length rs = 1\<close>
          by (simp add: ensure_insert_capacity_def evict_until_freeable_def)
        have nn: "0 \<le> (\<Sum>r\<leftarrow>rs. int (length (block_slots m r)))" by (intro sum_list_nonneg) auto
        have "evicted_to m t"
          unfolding evicted_to_def
          using t(2,4,5) ix nn ks(5-9)
          by (intro exI [of _ "Some ix'"] exI [of _ st] exI [of _ pa]
              exI [of _ "num_free m + (\<Sum>r\<leftarrow>rs. int (length (block_slots m r)))"])
            (auto split: if_splits)
        moreover have "int (length (blocks ix')) < k"
        proof -
          have "dom (get_block ix') = dom (get_block ix) - set ks" by (auto simp: dom_def ks(9))
          moreover have "set ks \<subseteq> dom (get_block ix)"
            using ks(3) freeable_indexed by (auto simp: free_set_def)
          moreover have "card (set ks) = 1" using ks(2) len \<open>length rs = 1\<close> by (simp add: distinct_card)
          ultimately have "card (dom (get_block ix')) = card (dom (get_block ix)) - 1"
            by (simp add: card_Diff_subset finite_dom_map_of)
          moreover have "0 < card (dom (get_block ix))"
            using \<open>set ks \<subseteq> dom (get_block ix)\<close> \<open>card (set ks) = 1\<close>
            by (metis card_gt_0_iff card.empty empty_subsetI finite_dom_map_of one_neq_zero subset_antisym)
          ultimately show ?thesis
            using dict_len_card [OF index_okD(4) [OF ok]] dict_len_card [OF index_okD(4) [OF ks(4)]] one by linarith
        qed
        ultimately show ?thesis using go t(2,3) ks(7) k by (intro exI [of _ "Inr ()"] exI [of _ t]) auto
      qed
    qed
  qed
qed

end
