(* ===== verification/Standard_Allocate.thy ===== *)
theory Standard_Allocate
  imports Standard_Evict
begin

text \<open>
  Rows and slots for a step: a new sequence gets a free row, and an allocation moves slots from
  the free stack to the end of the row. In between, the popped slots are in hand.
\<close>

section \<open>Slots in hand\<close>

definition inv_but :: "int multiset \<Rightarrow> nat multiset \<Rightarrow> (int \<Rightarrow> promise) \<Rightarrow> (int \<Rightarrow> int) \<Rightarrow> std_cache \<Rightarrow> bool" where
  "inv_but X P G T m \<longleftrightarrow> shapes_ok m \<and> rows_ok m \<and> blocks_ok m \<and> refs_ok P m \<and> seqs_ok G T m
     \<and> all_slots m + X = mset (arange (num_kvcache_slots m))"

lemma inv_but_none: "inv_but {#} P G T m = std_inv P G T m"
  by (simp add: inv_but_def std_inv_def)

lemma promise_free:
  assumes inv: "std_inv P G T m" and free: "owner m sid = None"
  shows "std_inv P (G(sid := g)) (T(sid := n)) m"
proof -
  have "seqs_ok (G(sid := g)) (T(sid := n)) m"
    by (rule seqs_okI) (use seqs_okD [OF std_invD(5) [OF inv]] free in \<open>auto split: if_splits\<close>)
  then show ?thesis using inv by (simp add: std_inv_def)
qed

lemma tails_free:
  assumes "std_inv P G T m" "\<And>s. owner m s \<noteq> None \<Longrightarrow> T' s = T s"
  shows "std_inv P G T' m"
proof -
  have "seqs_ok G T' m"
    by (rule seqs_okI) (use seqs_okD [OF std_invD(5) [OF assms(1)]] assms(2) in auto)
  then show ?thesis using assms by (simp add: std_inv_def)
qed

lemma stack_change_inv:
  assumes inv: "inv_but X P G T m" and t: "t = m\<lparr>free_slots_stack := st, num_free := k\<rparr>"
    and ok: "stack_ok t" "free_part m + X = free_part t + Y"
  shows "inv_but Y P G T t"
proof -
  have D: "shapes_ok m" "rows_ok m" "blocks_ok m" "refs_ok P m" "seqs_ok G T m"
    "all_slots m + X = mset (arange (num_kvcache_slots m))"
    using inv by (auto simp: inv_but_def)
  have own: "owner t sid = owner m sid" for sid by (simp add: owner_def t)
  then have owns: "owners t = owners m" by (simp add: owners_def dom_def)
  have bs: "block_slots t = block_slots m" by (rule ext) (simp add: block_slots_def t)
  have held: "held_blocks t sid = held_blocks m sid" for sid by (simp add: held_blocks_def t)
  have ind: "indexed t = indexed m" by (simp add: indexed_def t)
  have hold: "holders t r = holders m r" for r by (simp add: holders_def held owns)
  have rl: "row_len t = row_len m" by (simp add: row_len_def fun_eq_iff t)
  have "cell t = cell m" "ranges_of t = ranges_of m" by (simp_all add: cell_def ranges_of_def fun_eq_iff t)
  then have "rows_part t = rows_part m"
    by (intro rows_part_cong [OF owns] private_cong) (simp_all add: own rl)
  moreover have "num_kvcache_slots t = num_kvcache_slots m" by (simp add: t)
  ultimately have "all_slots t + Y = mset (arange (num_kvcache_slots t))"
    using D(6) ok(2) by (simp add: all_slots_def blocks_part_def ind bs union_ac)
      (metis union_assoc union_commute)
  moreover have "seqs_ok G T t"
    by (rule seqs_ok_cong [OF D(5)]) (simp_all add: held bs, simp_all add: caching_def t)
  moreover have "shapes_ok t" using D(1) ok(1) by (simp add: shapes_ok_def rl) (simp add: t)
  moreover have "rows_ok t" using D(2) by (simp add: rows_ok_def rl) (simp add: t)
  moreover have "blocks_ok t" using D(3) by (simp add: blocks_ok_def ind) (simp add: t)
  moreover have "refs_ok P t" using D(4) by (simp add: refs_ok_def ind hold held owns) (simp add: t)
  ultimately show ?thesis by (simp add: inv_but_def)
qed

lemma pop_slots_inv:
  assumes inv: "std_inv P G T m" and n: "0 \<le> n" "n \<le> num_free m"
  shows "\<exists>xs. pop_slots n m = (xs, m\<lparr>num_free := num_free m - n\<rparr>) \<and> int (length xs) = n
    \<and> inv_but (mset xs) P G T (m\<lparr>num_free := num_free m - n\<rparr>)"
proof -
  from pop_slots_run [OF std_invD(7) [OF inv] n] obtain xs where
    xs: "pop_slots n m = (xs, m\<lparr>num_free := num_free m - n\<rparr>)" "int (length xs) = n"
      "stack_ok (m\<lparr>num_free := num_free m - n\<rparr>)"
      "free_part m = free_part (m\<lparr>num_free := num_free m - n\<rparr>) + mset xs" by blast
  have "inv_but (mset xs) P G T (m\<lparr>num_free := num_free m - n\<rparr>)"
    by (rule stack_change_inv [OF inv [folded inv_but_none], where st = "free_slots_stack m" and k = "num_free m - n"])
      (use xs in simp_all)
  with xs show ?thesis by blast
qed

section \<open>Putting slots at the end of a row\<close>

definition put_slots :: "nat \<Rightarrow> int list \<Rightarrow> std_cache \<Rightarrow> std_cache" where
  "put_slots r xs m =
     (let row = buffer_slots m ! r; cur = nat (row_len m r) in
      grow_row r (int (length xs))
        (m\<lparr>buffer_slots := (buffer_slots m)[r := take cur row @ xs @ drop (cur + length xs) row]\<rparr>))"

lemma put_slots_fields:
  "put_slots r xs m = m\<lparr>buffer_slots := buffer_slots (put_slots r xs m),
     row_seq_lens := (row_seq_lens m)[r := row_len m r + int (length xs)],
     row_logical_lens := (row_logical_lens m)[r := row_logical_lens m ! r + int (length xs)]\<rparr>"
  by (simp add: put_slots_def grow_row_def Let_def row_len_def)

lemma put_slots_cells:
  assumes "r < length (buffer_slots m)" "r < length (row_seq_lens m)"
    "0 \<le> row_len m r" "row_len m r + int (length xs) \<le> int (length (buffer_slots m ! r))"
  shows "row_len (put_slots r xs m) r = row_len m r + int (length xs)"
    and "\<And>r'. r' \<noteq> r \<Longrightarrow> row_len (put_slots r xs m) r' = row_len m r'"
    and "\<And>r' k. r' \<noteq> r \<Longrightarrow> cell (put_slots r xs m) r' k = cell m r' k"
    and "\<And>k. 0 \<le> k \<Longrightarrow> k < row_len m r \<Longrightarrow> cell (put_slots r xs m) r k = cell m r k"
    and "cells (put_slots r xs m) r (row_len m r) (row_len m r + int (length xs)) = xs"
    and "\<And>r'. length (buffer_slots (put_slots r xs m) ! r') = length (buffer_slots m ! r')"
proof -
  have k: "nat (row_len m r) + length xs \<le> length (buffer_slots m ! r)" using assms(3,4) by linarith
  let ?row = "take (nat (row_len m r)) (buffer_slots m ! r) @ xs @ drop (nat (row_len m r) + length xs) (buffer_slots m ! r)"
  have buf: "buffer_slots (put_slots r xs m) = (buffer_slots m)[r := ?row]"
    by (simp add: put_slots_def grow_row_def Let_def)
  show "row_len (put_slots r xs m) r = row_len m r + int (length xs)"
    using assms(2) by (subst put_slots_fields) (simp add: row_len_def)
  show "\<And>r'. r' \<noteq> r \<Longrightarrow> row_len (put_slots r xs m) r' = row_len m r'"
    by (subst put_slots_fields) (simp add: row_len_def)
  show "\<And>r' k. r' \<noteq> r \<Longrightarrow> cell (put_slots r xs m) r' k = cell m r' k"
    by (simp add: cell_def buf)
  show "\<And>k. 0 \<le> k \<Longrightarrow> k < row_len m r \<Longrightarrow> cell (put_slots r xs m) r k = cell m r k"
    using assms(1) k by (simp add: cell_def buf nth_append)
  show "cells (put_slots r xs m) r (row_len m r) (row_len m r + int (length xs)) = xs"
  proof (rule nth_equalityI)
    fix i
    assume "i < length (cells (put_slots r xs m) r (row_len m r) (row_len m r + int (length xs)))"
    then have i: "i < length xs" by simp
    have "nat (row_len m r + int i) = nat (row_len m r) + i" using assms(3) by (simp add: nat_add_distrib)
    with i k assms(1) show "cells (put_slots r xs m) r (row_len m r) (row_len m r + int (length xs)) ! i = xs ! i"
      by (simp add: cells_nth cell_def buf nth_append)
  qed simp
  show "\<And>r'. length (buffer_slots (put_slots r xs m) ! r') = length (buffer_slots m ! r')"
  proof -
    fix r'
    show "length (buffer_slots (put_slots r xs m) ! r') = length (buffer_slots m ! r')"
      using k assms(1) by (cases "r' = r") (simp_all add: buf)
  qed
qed

lemma layout_bs:
  assumes "blocks_ok m" "caching m"
  shows "0 < cache_block_size m"
proof -
  obtain ix where "prefix_cache m = Some ix" using assms no_caching by auto
  with assms(1) have "index_ok ix" "block_size ix = cache_block_size m" by (auto simp: blocks_ok_def)
  then show ?thesis using index_okD(1) by metis
qed

lemma put_slots_inv:
  assumes inv: "inv_but (X + mset xs) P G T m" and own: "owner m sid = Some r"
    and fits: "row_len m r + int (length xs) \<le> max_model_len m"
  shows "inv_but X P G (T(sid := T sid + int (length xs))) (put_slots r xs m)"
proof -
  let ?t = "put_slots r xs m" and ?n = "int (length xs)"
  have D: "shapes_ok m" "rows_ok m" "blocks_ok m" "refs_ok P m" "seqs_ok G T m"
    "all_slots m + (X + mset xs) = mset (arange (num_kvcache_slots m))"
    using inv by (auto simp: inv_but_def)
  have r: "r < max_buffer_rows m" "r \<notin> set (free_rows m)" using owner_row [OF D(2) own] by auto
  note shape = row_shape [OF D(1) r(1)]
  have lens: "length (buffer_slots m) = max_buffer_rows m" "length (row_seq_lens m) = max_buffer_rows m"
    "length (row_logical_lens m) = max_buffer_rows m"
    using D(1) by (auto simp: shapes_ok_def)
  have cells: "row_len ?t r = row_len m r + ?n" "\<And>r'. r' \<noteq> r \<Longrightarrow> row_len ?t r' = row_len m r'"
    "\<And>r' k. r' \<noteq> r \<Longrightarrow> cell ?t r' k = cell m r' k"
    "\<And>k. 0 \<le> k \<Longrightarrow> k < row_len m r \<Longrightarrow> cell ?t r k = cell m r k"
    "cells ?t r (row_len m r) (row_len m r + ?n) = xs"
    "\<And>r'. length (buffer_slots ?t ! r') = length (buffer_slots m ! r')"
    by (rule put_slots_cells; use r lens shape fits in simp)+
  note F = put_slots_fields [of r xs m]
  have same: "seq_id_to_row ?t = seq_id_to_row m" "free_rows ?t = free_rows m" "prefix_cache ?t = prefix_cache m"
    "payload_at ?t = payload_at m" "next_ref ?t = next_ref m" "cache_block_size ?t = cache_block_size m"
    "enable_prefix_caching ?t = enable_prefix_caching m" "num_kvcache_slots ?t = num_kvcache_slots m"
    "max_buffer_rows ?t = max_buffer_rows m" "max_model_len ?t = max_model_len m"
    "free_slots_stack ?t = free_slots_stack m" "num_free ?t = num_free m"
    "seq_id_to_prefix_blocks ?t = seq_id_to_prefix_blocks m"
    "seq_id_to_materialized_blocks ?t = seq_id_to_materialized_blocks m"
    "seq_id_to_cached_ranges ?t = seq_id_to_cached_ranges m"
    "prefix_runtime_states ?t = prefix_runtime_states m" "pending_prefix_blocks ?t = pending_prefix_blocks m"
    by (subst F, simp)+
  have lens_t: "length (row_seq_lens ?t) = max_buffer_rows m" "length (row_logical_lens ?t) = max_buffer_rows m"
    "length (buffer_slots ?t) = max_buffer_rows m"
    using lens by (subst F, simp add: put_slots_def grow_row_def Let_def)+
  have log: "row_logical_lens ?t ! r' = row_logical_lens m ! r'" if "r' \<noteq> r" for r'
    using that by (subst F) simp
  have own_t: "owner ?t s = owner m s" for s by (simp add: owner_def same)
  then have owns: "owners ?t = owners m" by (simp add: owners_def dom_def)
  have bs: "block_slots ?t = block_slots m" by (rule ext) (simp add: block_slots_def same)
  have held: "held_blocks ?t s = held_blocks m s" for s by (simp add: held_blocks_def same)
  have ind: "indexed ?t = indexed m" by (simp add: indexed_def same)
  have hold: "holders ?t b = holders m b" for b by (simp add: holders_def held owns)
  have cach: "caching ?t = caching m" by (simp add: caching_def same)
  have lay: "layout_ok (G sid) (T sid) m sid r" by (rule seqs_okD(2) [OF D(5) own])
  have "shapes_ok ?t"
  proof -
    have "int (length row) = max_model_len m" if "row \<in> set (buffer_slots ?t)" for row
    proof -
      from that obtain r' where "r' < max_buffer_rows m" "row = buffer_slots ?t ! r'"
        using lens_t by (metis in_set_conv_nth)
      then show ?thesis using cells(6) D(1) by (simp add: shapes_ok_def)
    qed
    moreover have "0 \<le> row_len ?t r' \<and> row_len ?t r' \<le> max_model_len m" if "r' < max_buffer_rows m" for r'
      using that cells(1,2) fits shape(2) row_shape [OF D(1) that] by (cases "r' = r") auto
    ultimately show ?thesis using D(1) lens_t by (simp add: shapes_ok_def same stack_ok_def)
  qed
  moreover have "rows_ok ?t"
  proof -
    have "row_len ?t r' = 0 \<and> row_logical_lens ?t ! r' = 0" if "r' \<in> set (free_rows m)" for r'
    proof -
      have "r' \<noteq> r" using that r(2) by auto
      then show ?thesis using that cells(2) log D(2) by (simp add: rows_ok_def)
    qed
    then show ?thesis using D(2) by (simp add: rows_ok_def same)
  qed
  moreover have "blocks_ok ?t" using D(3) by (simp add: blocks_ok_def same ind)
  moreover have "refs_ok P ?t" using D(4) by (simp add: refs_ok_def same ind hold held owns)
  moreover have "seqs_ok G (T(sid := T sid + ?n)) ?t"
  proof (rule seqs_okI)
    fix s
    assume "owner ?t s = None"
    then have "vacant m s" using seqs_okD(1) [OF D(5)] own_t by simp
    then show "vacant ?t s" by (simp add: vacant_def ranges_of_def runtime_def pending_of_def same)
  next
    fix s r'
    assume "owner ?t s = Some r'"
    then have s: "owner m s = Some r'" using own_t by simp
    show "layout_ok (G s) ((T(sid := T sid + ?n)) s) ?t s r'"
    proof (cases "s = sid")
      case True
      then have "r' = r" using s own by simp
      have "layout_ok (G sid) (T sid + ?n) ?t sid r"
        by (rule layout_grow [OF lay]) (use cells bs held cach in \<open>auto simp: ranges_of_def runtime_def pending_of_def same\<close>)
      with True \<open>r' = r\<close> show ?thesis by simp
    next
      case False
      then have "r' \<noteq> r" using owner_row(3) [OF D(2) own] s by auto
      have "layout_ok (G s) (T s) ?t s r'"
        by (rule layout_cong [OF seqs_okD(2) [OF D(5) s]])
          (use \<open>r' \<noteq> r\<close> cells bs held cach in \<open>auto simp: ranges_of_def runtime_def pending_of_def same\<close>)
      with False show ?thesis by simp
    qed
  qed
  moreover have "all_slots ?t + X = mset (arange (num_kvcache_slots ?t))"
  proof -
    have so: "sid \<in> owners m" using own by (auto simp: owners_def)
    have other: "private_slots ?t s = private_slots m s" if "s \<in> owners m" "s \<noteq> sid" for s
    proof (rule private_cong)
      fix r' assume "owner m s = Some r'"
      then have "r' \<noteq> r" using owner_row(3) [OF D(2) own] that(2) by auto
      then show "row_len ?t r' = row_len m r'" "\<And>k. cell ?t r' k = cell m r' k" using cells by auto
    qed (simp_all add: own_t ranges_of_def same)
    have below: "\<not> covered (ranges_of m sid) k" if "row_len m r \<le> k" for k
    proof
      assume "covered (ranges_of m sid) k"
      then obtain s e where "(s, e) \<in> set (ranges_of m sid)" "k < e" by (auto simp: covered_def)
      moreover have "settled_at m (T sid) sid r \<le> row_len m r" using layout_settled [OF lay] by simp
      ultimately show False using lay that unfolding layout_ok_def by fastforce
    qed
    have "[0..row_len m r + ?n - 1] = [0..row_len m r - 1] @ [row_len m r..row_len m r + ?n - 1]"
      using shape(2) by (intro upto_join) auto
    then have "private_positions ?t sid r = private_positions m sid r @ [row_len m r..row_len m r + ?n - 1]"
      using below by (simp add: private_positions_def ranges_of_def same cells(1))
    moreover have "map (cell ?t r) (private_positions m sid r) = map (cell m r) (private_positions m sid r)"
      using cells(4) by (auto simp: private_positions_def)
    moreover have "map (cell ?t r) [row_len m r..row_len m r + ?n - 1] = xs"
      using cells(5) by (simp add: cells_def)
    ultimately have "map (cell ?t r) (private_positions ?t sid r) = map (cell m r) (private_positions m sid r) @ xs"
      by simp
    then have "private_slots ?t sid = private_slots m sid + mset xs"
      using own own_t unfolding private_slots_def by (metis mset_append option.simps(5))
    from rows_part_other [OF so owns other this] have "rows_part ?t = rows_part m + mset xs" .
    then show ?thesis using D(6)
      by (simp add: all_slots_def blocks_part_def ind bs free_part_def same union_ac)
  qed
  ultimately show ?thesis by (simp add: inv_but_def)
qed

section \<open>Taking a row\<close>

definition with_row :: "int \<Rightarrow> std_cache \<Rightarrow> std_cache" where
  "with_row sid m =
     (case owner m sid of
        Some r \<Rightarrow> m
      | None \<Rightarrow> m\<lparr>free_rows := tl (free_rows m),
          seq_id_to_row := dict_set sid (hd (free_rows m)) (seq_id_to_row m)\<rparr>)"

lemma get_free_row_run:
  "get_free_row sid m =
     (if owner m sid = None \<and> free_rows m = [] then
        (Inl (RuntimeError ''No free rows in cache manager buffer!''), m)
      else (Inr (the (owner (with_row sid m) sid)), with_row sid m))"
  by (auto simp: get_free_row_def owner_def with_row_def split: option.split list.split)

theorem with_row_inv:
  assumes inv: "std_inv P G T m" and free: "owner m sid = None \<Longrightarrow> free_rows m \<noteq> [] \<and> T sid = 0"
  shows "std_inv P G T (with_row sid m)" "owner (with_row sid m) sid \<noteq> None"
    "owner m sid = None \<Longrightarrow> row_len (with_row sid m) (the (owner (with_row sid m) sid)) = 0"
    "\<And>s. s \<noteq> sid \<Longrightarrow> owner (with_row sid m) s = owner m s"
proof -
  have "std_inv P G T (with_row sid m) \<and> owner (with_row sid m) sid \<noteq> None
    \<and> (owner m sid = None \<longrightarrow> row_len (with_row sid m) (the (owner (with_row sid m) sid)) = 0)
    \<and> (\<forall>s. s \<noteq> sid \<longrightarrow> owner (with_row sid m) s = owner m s)"
  proof (cases "owner m sid")
    case (Some r)
    then show ?thesis using inv by (simp add: with_row_def)
  next
    case None
    then obtain r rs where fr: "free_rows m = r # rs" "T sid = 0" using free by (cases "free_rows m") auto
    let ?t = "with_row sid m"
    have t: "?t = m\<lparr>free_rows := rs, seq_id_to_row := dict_set sid r (seq_id_to_row m)\<rparr>"
      using None fr by (simp add: with_row_def)
    note D = std_invD [OF inv]
    have new: "dict_get (seq_id_to_row m) sid = None" using None by (simp add: owner_def)
    have own: "owner ?t s = (if s = sid then Some r else owner m s)" for s by (simp add: t owner_def)
    have owns: "owners ?t = insert sid (owners m)" "sid \<notin> owners m"
      using None own by (auto simp: owners_def split: if_splits)
    note snds = dict_set_new [OF new, of r]
    have "rows_ok m" by (rule D(2))
    then have rows: "distinct (map snd (seq_id_to_row m) @ r # rs)"
      "set (map snd (seq_id_to_row m) @ r # rs) = {0..<max_buffer_rows m}"
      "row_len m r = 0" "row_logical_lens m ! r = 0"
      "\<forall>r\<in>set rs. row_len m r = 0 \<and> row_logical_lens m ! r = 0" "dict_ok (seq_id_to_row m)"
      using fr unfolding rows_ok_def by auto
    have held: "held_blocks ?t s = held_blocks m s" for s by (simp add: held_blocks_def t)
    have nohold: "held_blocks m sid = []" using D(4) owns(2) by (auto simp: refs_ok_def)
    have bs: "block_slots ?t = block_slots m" by (rule ext) (simp add: block_slots_def t)
    have ind: "indexed ?t = indexed m" by (simp add: indexed_def t)
    have hold: "holders ?t b = holders m b" for b
      using owns by (simp add: holders_def held nohold)
    have "shapes_ok ?t" using D(1) by (simp add: shapes_ok_def t stack_ok_def row_len_def)
    moreover have "rows_ok ?t"
      using rows snds dict_ok_set [OF rows(6), of sid r] unfolding rows_ok_def t
      by (auto simp: row_len_def)
    moreover have "blocks_ok ?t" using D(3) ind by (simp add: blocks_ok_def t)
    moreover have "refs_ok P ?t" using D(4) ind hold held owns by (auto simp: refs_ok_def t)
    moreover have "seqs_ok G T ?t"
    proof (rule seqs_okI)
      fix s assume "owner ?t s = None"
      then have "vacant m s" using seqs_okD(1) [OF D(5)] own by (auto split: if_splits)
      then show "vacant ?t s" by (simp add: vacant_def ranges_of_def runtime_def pending_of_def t)
    next
      fix s r' assume s: "owner ?t s = Some r'"
      show "layout_ok (G s) (T s) ?t s r'"
      proof (cases "s = sid")
        case True
        then have r': "r' = r" using s own by simp
        have "vacant m sid" using seqs_okD(1) [OF D(5) None] .
        then have v: "ranges_of ?t sid = []" "runtime ?t sid = None" "pending_of ?t sid = []"
          by (auto simp: vacant_def ranges_of_def runtime_def pending_of_def t)
        have "get_list (seq_id_to_prefix_blocks ?t) sid = []"
          using nohold by (simp add: held_blocks_def t)
        then have "attached ?t sid = 0" by (simp add: attached_def)
        moreover have "row_len ?t r = 0" using rows(3) by (simp add: t row_len_def)
        ultimately show ?thesis using True r' v fr(2)
          by (simp add: layout_ok_def settled_at_def tail_of_def)
      next
        case False
        then have "owner m s = Some r'" using s own by simp
        from seqs_okD(2) [OF D(5) this] show ?thesis
          by (rule layout_cong) (auto simp: t row_len_def cell_def ranges_of_def runtime_def pending_of_def
              caching_def held_blocks_def block_slots_def)
      qed
    qed
    moreover have "all_slots ?t = mset (arange (num_kvcache_slots ?t))"
    proof -
      have "private_slots ?t s = private_slots m s" if "s \<in> owners m" for s
        by (rule private_cong) (use that owns own in \<open>auto simp: t ranges_of_def row_len_def cell_def\<close>)
      moreover have "private_slots ?t sid = {#}"
        using rows(3) own by (simp add: private_slots_def private_positions_def t row_len_def)
      ultimately have "rows_part ?t = rows_part m" using owns by (simp add: rows_part_def)
      moreover have "blocks_part ?t = blocks_part m" by (simp add: blocks_part_def ind bs)
      moreover have "free_part ?t = free_part m" "num_kvcache_slots ?t = num_kvcache_slots m"
        by (simp_all add: free_part_def t)
      ultimately show ?thesis using D(6) by (simp add: all_slots_def)
    qed
    ultimately have "std_inv P G T ?t" by (simp add: std_inv_def)
    moreover have "row_len ?t r = 0" using rows(3) by (simp add: t row_len_def)
    ultimately show ?thesis using own None by simp
  qed
  then show "std_inv P G T (with_row sid m)" "owner (with_row sid m) sid \<noteq> None"
    "owner m sid = None \<Longrightarrow> row_len (with_row sid m) (the (owner (with_row sid m) sid)) = 0"
    "\<And>s. s \<noteq> sid \<Longrightarrow> owner (with_row sid m) s = owner m s" by auto
qed

section \<open>Allocating for one sequence\<close>

text \<open>What an allocation leaves alone: the prefix state of every sequence and the other rows.\<close>

definition steady :: "std_cache \<Rightarrow> std_cache \<Rightarrow> bool" where
  "steady m t \<longleftrightarrow> prefix_runtime_states t = prefix_runtime_states m
     \<and> pending_prefix_blocks t = pending_prefix_blocks m
     \<and> seq_id_to_cached_ranges t = seq_id_to_cached_ranges m
     \<and> seq_id_to_prefix_blocks t = seq_id_to_prefix_blocks m
     \<and> seq_id_to_materialized_blocks t = seq_id_to_materialized_blocks m
     \<and> cache_block_size t = cache_block_size m \<and> caching t = caching m
     \<and> enable_prefix_caching t = enable_prefix_caching m
     \<and> max_model_len t = max_model_len m \<and> num_kvcache_slots t = num_kvcache_slots m
     \<and> max_buffer_rows t = max_buffer_rows m \<and> next_ref t = next_ref m"

definition rows_kept :: "int set \<Rightarrow> std_cache \<Rightarrow> std_cache \<Rightarrow> bool" where
  "rows_kept S m t \<longleftrightarrow>
     (\<forall>s. s \<notin> S \<longrightarrow> owner t s = owner m s \<and> (\<forall>r. owner m s = Some r \<longrightarrow> row_len t r = row_len m r))"

definition seq_len :: "std_cache \<Rightarrow> int \<Rightarrow> int" where
  "seq_len m sid = (case owner m sid of None \<Rightarrow> 0 | Some r \<Rightarrow> row_len m r)"

lemma steady_trans: "steady a b \<Longrightarrow> steady b c \<Longrightarrow> steady a c"
  by (simp add: steady_def)

lemma steady_refl [simp]: "steady m m"
  by (simp add: steady_def)

lemma rows_kept_refl [simp]: "rows_kept S m m"
  by (simp add: rows_kept_def)

lemma rows_kept_trans:
  "rows_kept A a b \<Longrightarrow> rows_kept B b c \<Longrightarrow> A \<subseteq> C \<Longrightarrow> B \<subseteq> C \<Longrightarrow> rows_kept C a c"
  unfolding rows_kept_def by (metis subsetD)

lemma rows_kept_len: "rows_kept S m t \<Longrightarrow> s \<notin> S \<Longrightarrow> seq_len t s = seq_len m s"
  by (auto simp: rows_kept_def seq_len_def split: option.split)

lemma evicted_steady:
  assumes "evicted_to m t"
  shows "steady m t" "rows_kept S m t" "owner t = owner m" "free_rows t = free_rows m"
    "row_len t r = row_len m r" "num_free m \<le> num_free t" "seq_len t s = seq_len m s"
proof -
  obtain pc st pa k where t: "t = m\<lparr>prefix_cache := pc, free_slots_stack := st, payload_at := pa, num_free := k\<rparr>"
    and k: "num_free m \<le> k" and pc: "prefix_cache m = None \<longleftrightarrow> pc = None"
    using assms by (auto simp: evicted_to_def split: option.splits)
  show own: "owner t = owner m" by (rule ext) (simp add: t owner_def)
  show "steady m t" using pc by (auto simp: t steady_def caching_def)
  show "rows_kept S m t" using own by (simp add: rows_kept_def t row_len_def)
  show "free_rows t = free_rows m" "row_len t r = row_len m r" "num_free m \<le> num_free t"
    using k by (simp_all add: t row_len_def)
  show "seq_len t s = seq_len m s" unfolding seq_len_def own by (simp add: t row_len_def split: option.split)
qed

lemma with_row_steady:
  "steady m (with_row sid m)" "rows_kept {sid} m (with_row sid m)"
  "num_free (with_row sid m) = num_free m"
  by (auto simp: with_row_def steady_def caching_def rows_kept_def owner_def row_len_def split: option.split)

lemma put_slots_steady:
  assumes "rows_ok m" "owner m sid = Some r"
  shows "steady m (put_slots r xs m)" "rows_kept {sid} m (put_slots r xs m)"
    "owner (put_slots r xs m) = owner m"
proof -
  have "owner (put_slots r xs m) s = owner m s" for s by (subst put_slots_fields) (simp add: owner_def)
  then show "owner (put_slots r xs m) = owner m" by (rule ext)
  moreover have "row_len (put_slots r xs m) r' = row_len m r'" if "owner m s = Some r'" "s \<noteq> sid" for s r'
  proof -
    have "r' \<noteq> r" using owner_row(3) [OF assms] that by auto
    then show ?thesis by (subst put_slots_fields) (simp add: row_len_def)
  qed
  ultimately show "rows_kept {sid} m (put_slots r xs m)" by (simp add: rows_kept_def)
  show "steady m (put_slots r xs m)" by (subst put_slots_fields) (simp add: steady_def caching_def)
qed

lemma put_run:
  assumes "int (length xs) = n" "0 \<le> row_len m r" "row_len m r + n \<le> int (length (buffer_slots m ! r))"
  shows "bindE (store_row r (row_len m r) (row_len m r + n) xs) (\<lambda>_ t. (Inr xs, grow_row r n t)) m
    = (Inr xs, put_slots r xs m)"
proof -
  have "tstore (row_len m r) (row_len m r + n) xs (buffer_slots m ! r)
      = Inr (take (nat (row_len m r)) (buffer_slots m ! r) @ xs @ drop (nat (row_len m r) + length xs) (buffer_slots m ! r))"
    by (rule tstore_in) (use assms in auto)
  then show ?thesis using assms(1) by (simp add: bindE_run store_row_def put_slots_def Let_def)
qed

theorem allocate_inv:
  assumes inv: "std_inv P G T m" and n: "0 \<le> n"
    and new: "owner m sid = None \<Longrightarrow> T sid = 0"
    and fits: "seq_len m sid + n \<le> max_model_len m"
  obtains (no_slots) t where "allocate sid n m = (Inl (AssertionError ''Out of KV cache slots: ''), t)"
      "std_inv P G T t" "evicted_to m t" "num_free m + freeable_slots m < n"
  | (no_rows) e t where "allocate sid n m = (Inl (RuntimeError e), t)" "std_inv P G T t" "evicted_to m t"
      "owner m sid = None" "free_rows m = []"
  | (ok) xs t r where "allocate sid n m = (Inr xs, t)" "std_inv P G (T(sid := T sid + n)) t"
      "owner t sid = Some r" "int (length xs) = n" "row_len t r = seq_len m sid + n"
      "cells t r (seq_len m sid) (seq_len m sid + n) = xs" "steady m t" "rows_kept {sid} m t"
proof -
  from evict_until_free_inv [OF inv, of n] obtain u where
    u: "evict_prefix_cache_until_free n m = (Inr (), u)" "std_inv P G T u" "evicted_to m u"
      "min n (num_free m + freeable_slots m) \<le> num_free u" by blast
  note E = evicted_steady [OF u(3)]
  show thesis
  proof (cases "num_free u < n")
    case True
    then have "num_free m + freeable_slots m < n" using u(4) by simp
    with True u show thesis by (intro no_slots [of u]) (simp_all add: allocate_def bindE_run)
  next
    case room: False
    show thesis
    proof (cases "owner u sid = None \<and> free_rows u = []")
      case True
      then show thesis using u room E
        by (intro no_rows [of "''No free rows in cache manager buffer!''" u])
          (simp_all add: allocate_def bindE_run get_free_row_run)
    next
      case False
      let ?v = "with_row sid u"
      have "owner u sid = None \<Longrightarrow> free_rows u \<noteq> [] \<and> T sid = 0" using False new E by auto
      note W = with_row_inv [OF u(2) this]
      obtain r where r: "owner ?v sid = Some r" using W(2) by auto
      have cur: "row_len ?v r = seq_len m sid"
      proof (cases "owner u sid")
        case None
        then show ?thesis using W(3) r E by (simp add: seq_len_def)
      next
        case (Some r')
        then show ?thesis using r E by (simp add: with_row_def seq_len_def)
      qed
      have n_v: "n \<le> num_free ?v" using room by (simp add: with_row_steady)
      from pop_slots_inv [OF W(1) n n_v] obtain xs where
        xs: "pop_slots n ?v = (xs, ?v\<lparr>num_free := num_free ?v - n\<rparr>)" "int (length xs) = n"
          "inv_but (mset xs) P G T (?v\<lparr>num_free := num_free ?v - n\<rparr>)" by blast
      let ?w = "?v\<lparr>num_free := num_free ?v - n\<rparr>"
      have ow: "owner ?w sid = Some r" "owner ?w = owner ?v" "row_len ?w r = seq_len m sid"
        using r cur by (auto simp: owner_def row_len_def)
      have mm: "max_model_len ?w = max_model_len m"
        using E(1) with_row_steady(1) [of u sid] by (simp add: steady_def)
      have sh: "shapes_ok ?w" "rows_ok ?w" using xs(3) by (auto simp: inv_but_def)
      have rb: "r < max_buffer_rows ?w" by (rule owner_row(1) [OF sh(2) ow(1)])
      note RS = row_shape [OF sh(1) rb]
      have fit: "row_len ?w r + int (length xs) \<le> max_model_len ?w" using fits ow mm xs(2) by simp
      have "inv_but ({#} + mset xs) P G T ?w" using xs(3) by simp
      from put_slots_inv [OF this ow(1) fit] have
        inv': "std_inv P G (T(sid := T sid + n)) (put_slots r xs ?w)" by (simp add: inv_but_none xs(2))
      have C: "row_len (put_slots r xs ?w) r = row_len ?w r + int (length xs)"
        "cells (put_slots r xs ?w) r (row_len ?w r) (row_len ?w r + int (length xs)) = xs"
        using put_slots_cells [of r ?w xs] rb RS fit sh(1) by (auto simp: shapes_ok_def)
      have "allocate sid n m = (Inr xs, put_slots r xs ?w)"
        using u(1) room False r xs(1) put_run [of xs n ?w r] xs(2) RS fit ow(3) cur
        by (simp add: allocate_def bindE_run [of "evict_prefix_cache_until_free n"]
            bindE_run [of "\<lambda>m. failIf (num_free m < n) _ m"] bindE_run [of "get_free_row sid"]
            get_free_row_run Let_def row_len_def)
      moreover have "steady m (put_slots r xs ?w)"
      proof -
        have "steady ?v ?w" by (simp add: steady_def caching_def)
        then show ?thesis using E(1) with_row_steady(1) [of u sid] put_slots_steady(1) [OF sh(2) ow(1), of xs]
          by (blast intro: steady_trans)
      qed
      moreover have "rows_kept {sid} m (put_slots r xs ?w)"
      proof -
        have "rows_kept {sid} ?v ?w" by (simp add: rows_kept_def owner_def row_len_def)
        from rows_kept_trans [OF this put_slots_steady(2) [OF sh(2) ow(1), of xs]]
        have "rows_kept {sid} ?v (put_slots r xs ?w)" by simp
        from rows_kept_trans [OF with_row_steady(2) this] have "rows_kept {sid} u (put_slots r xs ?w)" by simp
        from rows_kept_trans [OF E(2) [of "{}"] this] show ?thesis by simp
      qed
      moreover have "owner (put_slots r xs ?w) sid = Some r"
        using put_slots_steady(3) [OF sh(2) ow(1)] ow(1) by simp
      ultimately show thesis using inv' C xs(2) ow(3)
        by (intro ok [of xs "put_slots r xs ?w" r]) auto
    qed
  qed
qed

end
