(* ===== verification/Standard_Batch.thy ===== *)
theory Standard_Batch
  imports Standard_Allocate
begin

text \<open>
  One slot for every sequence of a decode batch: the vectorized stores of \<open>_allocate_batch\<close> are
  the same as extending the rows one after the other, as long as no sequence is listed twice.
\<close>

section \<open>The vectorized stores\<close>

lemma bump_all_Cons:
  assumes "r \<notin> set rs"
  shows "bump_all (r # rs) xs = bump_all rs (xs[r := xs ! r + 1])"
proof -
  have *: "map (\<lambda>a. (a, xs ! a + 1)) rs = map (\<lambda>a. (a, (xs[r := xs ! r + 1]) ! a + 1)) rs"
    using assms by (intro map_cong refl) (metis nth_list_update_neq)
  show ?thesis unfolding bump_all_def list.map fold_simps prod.case * by (rule refl)
qed

definition put_each :: "(nat \<times> int) list \<Rightarrow> std_cache \<Rightarrow> std_cache" where
  "put_each = fold (\<lambda>(r, x). put_slots r [x])"

lemma put_each_simps [simp]:
  "put_each [] m = m" "put_each ((r, x) # ps) m = put_each ps (put_slots r [x] m)"
  by (simp_all add: put_each_def)

lemma vectorized:
  assumes "distinct rs" "length xs = length rs"
    "\<And>r. r \<in> set rs \<Longrightarrow> r < length (buffer_slots m) \<and> r < length (row_seq_lens m)
       \<and> 0 \<le> row_len m r \<and> row_len m r < int (length (buffer_slots m ! r))"
  shows "grow_rows rs (m\<lparr>buffer_slots := fold (\<lambda>(r, c, v) b. b[r := (b ! r)[nat c := v]])
      (zip rs (zip (map (row_len m) rs) xs)) (buffer_slots m)\<rparr>) = put_each (zip rs xs) m"
  using assms
proof (induction rs arbitrary: xs m)
  case Nil
  then show ?case by (simp add: grow_rows_def bump_all_def)
next
  case (Cons r rs)
  obtain x ys where xs: "xs = x # ys" using Cons.prems(2) by (cases xs) auto
  let ?m' = "put_slots r [x] m"
  have r: "r \<notin> set rs" "distinct rs" using Cons.prems(1) by auto
  have b: "r < length (buffer_slots m)" "r < length (row_seq_lens m)" "0 \<le> row_len m r"
    "row_len m r < int (length (buffer_slots m ! r))" using Cons.prems(3) by auto
  then have k: "nat (row_len m r) < length (buffer_slots m ! r)" by linarith
  have row: "take (nat (row_len m r)) (buffer_slots m ! r) @ [x] @ drop (nat (row_len m r) + 1) (buffer_slots m ! r)
      = (buffer_slots m ! r)[nat (row_len m r) := x]"
    using k by (simp add: upd_conv_take_nth_drop)
  then have m': "?m' = m\<lparr>buffer_slots := (buffer_slots m)[r := (buffer_slots m ! r)[nat (row_len m r) := x]],
      row_seq_lens := (row_seq_lens m)[r := row_seq_lens m ! r + 1],
      row_logical_lens := (row_logical_lens m)[r := row_logical_lens m ! r + 1]\<rparr>"
    by (simp add: put_slots_def grow_row_def Let_def)
  have len: "row_len ?m' r' = row_len m r'" if "r' \<in> set rs" for r'
  proof -
    have "r' \<noteq> r" using that r by auto
    then show ?thesis by (simp add: m' row_len_def)
  qed
  then have lens: "map (row_len ?m') rs = map (row_len m) rs" by simp
  have "grow_rows rs (?m'\<lparr>buffer_slots := fold (\<lambda>(r, c, v) b. b[r := (b ! r)[nat c := v]])
      (zip rs (zip (map (row_len ?m') rs) ys)) (buffer_slots ?m')\<rparr>) = put_each (zip rs ys) ?m'"
  proof (rule Cons.IH [OF r(2)])
    show "length ys = length rs" using Cons.prems(2) xs by simp
    fix r' assume r': "r' \<in> set rs"
    then have "r' \<noteq> r" using r by auto
    then show "r' < length (buffer_slots ?m') \<and> r' < length (row_seq_lens ?m')
       \<and> 0 \<le> row_len ?m' r' \<and> row_len ?m' r' < int (length (buffer_slots ?m' ! r'))"
      using Cons.prems(3) [of r'] r' len [OF r'] by (simp add: m')
  qed
  then show ?case using r bump_all_Cons [OF r(1)] unfolding lens xs
    by (simp add: m' grow_rows_def)
qed

section \<open>Rows for a batch\<close>

lemma get_free_rows_inv:
  assumes inv: "std_inv P G T m" and new: "\<And>s. owner m s = None \<Longrightarrow> T s = 0"
  obtains (no_rows) e t where "get_free_rows sids m = (Inl (RuntimeError e), t)" "std_inv P G T t"
      "\<exists>s\<in>set sids. owner m s = None" "steady m t" "\<forall>s. seq_len t s = seq_len m s"
  | (ok) rs t where "get_free_rows sids m = (Inr rs, t)" "std_inv P G T t"
      "map (owner t) sids = map Some rs" "steady m t" "rows_kept (set sids) m t"
      "\<forall>s. seq_len t s = seq_len m s" "num_free t = num_free m"
      "\<forall>s r. owner m s = Some r \<longrightarrow> owner t s = Some r"
  using inv new
proof (induction sids arbitrary: m thesis)
  case Nil
  show ?case by (rule Nil.prems(2) [of "[]" m]) (use Nil.prems(3) in simp_all)
next
  case (Cons sid sids)
  show ?case
  proof (cases "owner m sid = None \<and> free_rows m = []")
    case True
    then show ?thesis using Cons.prems by (simp add: get_free_row_run)
  next
    case False
    let ?v = "with_row sid m"
    have "owner m sid = None \<Longrightarrow> free_rows m \<noteq> [] \<and> T sid = 0" using False Cons.prems(4) by auto
    note W = with_row_inv [OF Cons.prems(3) this]
    obtain r where r: "owner ?v sid = Some r" using W(2) by auto
    have run: "get_free_row sid m = (Inr r, ?v)" using False r by (auto simp: get_free_row_run)
    have keep: "owner ?v s = None \<Longrightarrow> owner m s = None" for s
      using W(2,4) by (cases "s = sid") auto
    have len: "seq_len ?v s = seq_len m s" for s
    proof (cases "s = sid")
      case True
      then show ?thesis
      proof (cases "owner m sid")
        case None
        then show ?thesis using W(3) r True by (simp add: seq_len_def)
      qed (simp add: with_row_def)
    next
      case False
      then show ?thesis using rows_kept_len [OF with_row_steady(2)] by auto
    qed
    show ?thesis
    proof (rule Cons.IH [OF _ _ W(1)])
      fix s assume "owner ?v s = None"
      then show "T s = 0" using keep Cons.prems(4) by blast
    next
      fix e t
      assume a: "get_free_rows sids ?v = (Inl (RuntimeError e), t)" "std_inv P G T t"
        "\<exists>s\<in>set sids. owner ?v s = None" "steady ?v t" "\<forall>s. seq_len t s = seq_len ?v s"
      then have "\<exists>s\<in>set (sid # sids). owner m s = None" using keep by (meson list.set_intros(2))
      then show thesis
        by (intro Cons.prems(1) [of e t])
          (use a run len with_row_steady(1) [of m sid] in \<open>auto intro: steady_trans\<close>)
    next
      fix rs t
      assume a: "get_free_rows sids ?v = (Inr rs, t)" "std_inv P G T t"
        "map (owner t) sids = map Some rs" "steady ?v t" "rows_kept (set sids) ?v t"
        "\<forall>s. seq_len t s = seq_len ?v s" "num_free t = num_free ?v"
        "\<forall>s r. owner ?v s = Some r \<longrightarrow> owner t s = Some r"
      have "owner t sid = Some r" using a(8) r by blast
      moreover have "owner m s = Some q \<Longrightarrow> owner t s = Some q" for s q
      proof -
        assume q: "owner m s = Some q"
        then have "owner ?v s = Some q" using W(4) by (cases "s = sid") (auto simp: with_row_def)
        then show "owner t s = Some q" using a(8) by blast
      qed
      moreover have "steady m t" using steady_trans [OF with_row_steady(1) a(4)] .
      moreover have "rows_kept (set (sid # sids)) m t"
        by (rule rows_kept_trans [OF with_row_steady(2) a(5)]) auto
      ultimately show thesis
        by (intro Cons.prems(2) [of "r # rs" t]) (use a run len in \<open>auto simp: with_row_steady(3)\<close>)
    qed
  qed
qed

section \<open>A batch of puts\<close>

definition add_one :: "int set \<Rightarrow> (int \<Rightarrow> int) \<Rightarrow> int \<Rightarrow> int" where
  "add_one S T = (\<lambda>s. if s \<in> S then T s + 1 else T s)"

lemma put_each_other:
  assumes "r \<notin> fst ` set ps"
  shows "cell (put_each ps m) r k = cell m r k"
  using assms
proof (induction ps arbitrary: m)
  case (Cons p ps)
  obtain r' x where p: "p = (r', x)" by fastforce
  then have "cell (put_slots r' [x] m) r k = cell m r k"
    using Cons.prems by (simp add: cell_def put_slots_def grow_row_def Let_def)
  with Cons p show ?case by simp
qed simp

lemma put_each_inv:
  assumes "inv_but (X + mset xs) P G T m" "distinct sids" "map (owner m) sids = map Some rs"
    "length xs = length rs" "\<And>s. s \<in> set sids \<Longrightarrow> seq_len m s + 1 \<le> max_model_len m"
  shows "inv_but X P G (add_one (set sids) T) (put_each (zip rs xs) m)
    \<and> owner (put_each (zip rs xs) m) = owner m \<and> steady m (put_each (zip rs xs) m)
    \<and> rows_kept (set sids) m (put_each (zip rs xs) m)
    \<and> (\<forall>i < length sids. seq_len (put_each (zip rs xs) m) (sids ! i) = seq_len m (sids ! i) + 1
         \<and> cell (put_each (zip rs xs) m) (rs ! i) (seq_len m (sids ! i)) = xs ! i)"
  using assms
proof (induction sids arbitrary: rs xs m T)
  case Nil
  then show ?case by (simp add: add_one_def)
next
  case (Cons sid sids)
  obtain r rs' where rs: "rs = r # rs'" "owner m sid = Some r" "map (owner m) sids = map Some rs'"
    using Cons.prems(3) by (cases rs) auto
  obtain x xs' where xs: "xs = x # xs'" "length xs' = length rs'" using Cons.prems(4) rs(1) by (cases xs) auto
  let ?m = "put_slots r [x] m"
  have inv: "inv_but ((X + mset xs') + mset [x]) P G T m" using Cons.prems(1) xs(1) by simp
  have ok: "rows_ok m" "shapes_ok m" using inv by (auto simp: inv_but_def)
  have sl: "seq_len m sid = row_len m r" using rs(2) by (simp add: seq_len_def)
  have fit: "row_len m r + int (length [x]) \<le> max_model_len m" using Cons.prems(5) [of sid] sl by simp
  have inv': "inv_but (X + mset xs') P G (T(sid := T sid + 1)) ?m" using put_slots_inv [OF inv rs(2) fit] by simp
  note S = put_slots_steady [OF ok(1) rs(2), of "[x]"]
  have r: "r < max_buffer_rows m" by (rule owner_row(1) [OF ok(1) rs(2)])
  note RS = row_shape [OF ok(2) r]
  have lens: "length (buffer_slots m) = max_buffer_rows m" "length (row_seq_lens m) = max_buffer_rows m"
    using ok(2) by (auto simp: shapes_ok_def)
  have C: "row_len ?m r = row_len m r + 1" "cells ?m r (row_len m r) (row_len m r + int (length [x])) = [x]"
    "\<And>k. 0 \<le> k \<Longrightarrow> k < row_len m r \<Longrightarrow> cell ?m r k = cell m r k"
    using put_slots_cells [of r m "[x]"] r lens RS fit by auto
  then have cx: "cell ?m r (row_len m r) = x" by (simp add: cells_def)
  have mm: "max_model_len ?m = max_model_len m" using S(1) by (simp add: steady_def)
  have notin: "sid \<notin> set sids" "distinct sids" using Cons.prems(2) by auto
  have len: "seq_len ?m s = seq_len m s" if "s \<noteq> sid" for s
    using rows_kept_len [OF S(2)] that by simp
  let ?t = "put_each (zip rs' xs') ?m"
  have "inv_but X P G (add_one (set sids) (T(sid := T sid + 1))) ?t
    \<and> owner ?t = owner ?m \<and> steady ?m ?t \<and> rows_kept (set sids) ?m ?t
    \<and> (\<forall>i < length sids. seq_len ?t (sids ! i) = seq_len ?m (sids ! i) + 1
         \<and> cell ?t (rs' ! i) (seq_len ?m (sids ! i)) = xs' ! i)"
  proof (rule Cons.IH [OF inv' notin(2)])
    show "map (owner ?m) sids = map Some rs'" using rs(3) S(3) by simp
    show "length xs' = length rs'" by (rule xs(2))
    fix s assume s: "s \<in> set sids"
    then have "s \<noteq> sid" using notin by auto
    then show "seq_len ?m s + 1 \<le> max_model_len ?m" using Cons.prems(5) [of s] s len mm by simp
  qed
  then have ih: "inv_but X P G (add_one (set sids) (T(sid := T sid + 1))) ?t"
    "owner ?t = owner ?m" "steady ?m ?t" "rows_kept (set sids) ?m ?t"
    "\<And>i. i < length sids \<Longrightarrow> seq_len ?t (sids ! i) = seq_len ?m (sids ! i) + 1"
    "\<And>i. i < length sids \<Longrightarrow> cell ?t (rs' ! i) (seq_len ?m (sids ! i)) = xs' ! i" by auto
  have t: "put_each (zip rs xs) m = ?t" by (simp add: rs(1) xs(1))
  have tails: "add_one (set sids) (T(sid := T sid + 1)) = add_one (set (sid # sids)) T"
    using notin by (auto simp: add_one_def)
  have own: "owner ?t sid = Some r" using ih(2) S(3) rs(2) by simp
  have "rows_kept (set (sid # sids)) m ?t" by (rule rows_kept_trans [OF S(2) ih(4)]) auto
  moreover have "steady m ?t" by (rule steady_trans [OF S(1) ih(3)])
  moreover have "seq_len ?t ((sid # sids) ! i) = seq_len m ((sid # sids) ! i) + 1
      \<and> cell ?t (rs ! i) (seq_len m ((sid # sids) ! i)) = xs ! i" if i: "i < length (sid # sids)" for i
  proof (cases i)
    case 0
    have "seq_len ?t sid = seq_len ?m sid" using rows_kept_len [OF ih(4)] notin by simp
    moreover have "seq_len ?m sid = row_len m r + 1" using S(3) rs(2) C(1) by (simp add: seq_len_def)
    moreover have "cell ?t r (row_len m r) = x"
    proof -
      have "r \<notin> set rs'"
      proof
        assume "r \<in> set rs'"
        then have "Some r \<in> set (map (owner m) sids)" using rs(3) by simp
        then obtain s where "s \<in> set sids" "owner m s = Some r" by auto
        then show False using owner_row(3) [OF ok(1) rs(2)] notin by blast
      qed
      then have "r \<notin> fst ` set (zip rs' xs')" by (auto dest: set_zip_leftD)
      then have "cell ?t r k = cell ?m r k" for k by (rule put_each_other)
      then show ?thesis using cx by simp
    qed
    ultimately show ?thesis using 0 sl rs(1) xs(1) by simp
  next
    case (Suc j)
    then have j: "j < length sids" using i by simp
    then have "sids ! j \<noteq> sid" using notin by auto
    then show ?thesis using ih(5,6) [OF j] len Suc rs(1) xs(1) by simp
  qed
  ultimately show ?case using ih(1,2) S(3) unfolding t tails by auto
qed

section \<open>Allocating for a decode batch\<close>

theorem allocate_batch_inv:
  assumes inv: "std_inv P G T m" and d: "distinct sids"
    and new: "\<And>s. owner m s = None \<Longrightarrow> T s = 0"
    and fits: "\<And>s. s \<in> set sids \<Longrightarrow> seq_len m s + 1 \<le> max_model_len m"
  obtains (no_slots) t where "allocate_batch sids 1 m = (Inl (AssertionError ''Out of KV cache slots: ''), t)"
      "std_inv P G T t" "evicted_to m t" "num_free m + freeable_slots m < int (length sids)"
  | (no_rows) e t where "allocate_batch sids 1 m = (Inl (RuntimeError e), t)" "std_inv P G T t"
      "\<exists>s\<in>set sids. owner m s = None"
  | (ok) xs t rs where "allocate_batch sids 1 m = (Inr xs, t)" "std_inv P G (add_one (set sids) T) t"
      "map (owner t) sids = map Some rs" "length xs = length sids" "steady m t"
      "rows_kept (set sids) m t"
      "\<And>i. i < length sids \<Longrightarrow> seq_len t (sids ! i) = seq_len m (sids ! i) + 1
         \<and> cell t (rs ! i) (seq_len m (sids ! i)) = xs ! i"
proof -
  let ?n = "int (length sids)"
  from evict_until_free_inv [OF inv, of ?n] obtain u where
    u: "evict_prefix_cache_until_free ?n m = (Inr (), u)" "std_inv P G T u" "evicted_to m u"
      "min ?n (num_free m + freeable_slots m) \<le> num_free u" by blast
  note E = evicted_steady [OF u(3)]
  show thesis
  proof (cases "num_free u < ?n")
    case True
    then have "num_free m + freeable_slots m < ?n" using u(4) by simp
    with True u show thesis by (intro no_slots [of u]) (simp_all add: allocate_batch_def Let_def bindE_run)
  next
    case room: False
    have new': "owner u s = None \<Longrightarrow> T s = 0" for s using new E(3) by simp
    show thesis
    proof (rule get_free_rows_inv [OF u(2) new', of sids])
      fix e t
      assume a: "get_free_rows sids u = (Inl (RuntimeError e), t)" "std_inv P G T t"
        "\<exists>s\<in>set sids. owner u s = None"
      show thesis
        by (rule no_rows [of e t]) (use a u(1) room E(3) in \<open>simp_all add: allocate_batch_def Let_def bindE_run\<close>)
    next
      fix rs v
      assume a: "get_free_rows sids u = (Inr rs, v)" "std_inv P G T v" "map (owner v) sids = map Some rs"
        "steady u v" "rows_kept (set sids) u v" "\<forall>s. seq_len v s = seq_len u s" "num_free v = num_free u"
      have n_v: "?n \<le> num_free v" using room a(7) by simp
      from pop_slots_inv [OF a(2) _ n_v] obtain xs where
        xs: "pop_slots ?n v = (xs, v\<lparr>num_free := num_free v - ?n\<rparr>)" "int (length xs) = ?n"
          "inv_but (mset xs) P G T (v\<lparr>num_free := num_free v - ?n\<rparr>)" by auto
      let ?w = "v\<lparr>num_free := num_free v - ?n\<rparr>"
      have ow: "owner ?w = owner v" by (rule ext) (simp add: owner_def)
      have rw: "row_len ?w = row_len v" by (rule ext) (simp add: row_len_def)
      have "seq_len ?w s = seq_len v s" for s unfolding seq_len_def ow rw by (rule refl)
      then have sw: "seq_len ?w s = seq_len m s" for s using a(6) E(7) by simp
      have st: "steady m ?w"
        using E(1) a(4) by (auto simp: steady_def caching_def)
      then have mm: "max_model_len ?w = max_model_len m" by (simp add: steady_def)
      have sh: "shapes_ok ?w" "rows_ok ?w" using xs(3) by (auto simp: inv_but_def)
      have lrs: "length rs = length sids" using a(3) by (metis length_map)
      have orow: "map (owner ?w) sids = map Some rs" using a(3) ow by simp
      have inv0: "inv_but ({#} + mset xs) P G T ?w" using xs(3) by simp
      have lx: "length xs = length rs" using xs(2) lrs by simp
      have fit: "\<And>s. s \<in> set sids \<Longrightarrow> seq_len ?w s + 1 \<le> max_model_len ?w" using fits sw mm by simp
      note Q = put_each_inv [OF inv0 d orow lx fit]
      let ?t = "put_each (zip rs xs) ?w"
      have own_rs: "owner ?w (sids ! i) = Some (rs ! i)" if "i < length sids" for i
        using orow that lrs by (metis nth_map)
      have drs: "distinct rs"
      proof -
        have "inj_on (owner ?w) (set sids)"
        proof (rule inj_onI)
          fix x y assume xy: "x \<in> set sids" "y \<in> set sids" "owner ?w x = owner ?w y"
          have "owner ?w x \<in> set (map Some rs)" using xy(1) orow by (metis imageI list.set_map)
          then obtain r where "owner ?w x = Some r" by auto
          with xy(3) owner_row(3) [OF sh(2)] show "x = y" by metis
        qed
        then have "distinct (map Some rs)" using d orow by (metis distinct_map)
        then show ?thesis by (simp add: distinct_map)
      qed
      have bounds: "r < length (buffer_slots ?w) \<and> r < length (row_seq_lens ?w) \<and> 0 \<le> row_len ?w r
          \<and> row_len ?w r < int (length (buffer_slots ?w ! r))" if r: "r \<in> set rs" for r
      proof -
        obtain i where i: "i < length sids" "r = rs ! i" using r lrs by (metis in_set_conv_nth)
        have o: "owner ?w (sids ! i) = Some r" using own_rs [OF i(1)] i(2) by simp
        have rb: "r < max_buffer_rows ?w" by (rule owner_row(1) [OF sh(2) o])
        have "seq_len ?w (sids ! i) = row_len ?w r" using o by (simp add: seq_len_def)
        then have "row_len ?w r + 1 \<le> max_model_len ?w" using fit i(1) by (metis nth_mem)
        then show ?thesis using row_shape [OF sh(1) rb] rb sh(1) by (simp add: shapes_ok_def)
      qed
      have lw: "row_len ?w r = row_len v r" for r by (simp add: row_len_def)
      have run_store: "bindE (store_cells (zip rs (zip (map (row_len v) rs) xs))) (\<lambda>_ t. (Inr xs, grow_rows rs t)) ?w
          = (Inr xs, ?t)"
      proof -
        have "\<not> (\<exists>(r, c, x)\<in>set (zip rs (zip (map (row_len v) rs) xs)). int (length (buffer_slots ?w ! r)) \<le> c)"
        proof clarify
          fix r c x
          assume mem: "(r, c, x) \<in> set (zip rs (zip (map (row_len v) rs) xs))"
            and le: "int (length (buffer_slots ?w ! r)) \<le> c"
          then obtain i where "i < length rs" "r = rs ! i" "c = row_len v r" by (auto simp: set_zip)
          then show False using bounds [of r] lw [of r] le by simp
        qed
        then show ?thesis
          using vectorized [OF drs lx bounds]
          by (simp add: bindE_run store_cells_def rw)
      qed
      have "allocate_batch sids 1 m = (Inr xs, ?t)"
        using u(1) room a(1) xs(1) run_store
        by (simp add: allocate_batch_def Let_def bindE_run [of "evict_prefix_cache_until_free _"]
            bindE_run [of "\<lambda>m. failIf (num_free m < _) _ m"] bindE_run [of "failIf _ _"]
            bindE_run [of "get_free_rows _"])
      moreover have "rows_kept (set sids) m ?t"
      proof -
        have "rows_kept (set sids) v ?w" using ow by (simp add: rows_kept_def row_len_def)
        from rows_kept_trans [OF this] Q have "rows_kept (set sids) v ?t" by blast
        from rows_kept_trans [OF a(5) this] have "rows_kept (set sids) u ?t" by simp
        from rows_kept_trans [OF E(2) [of "{}"] this] show ?thesis by simp
      qed
      moreover have "map (owner ?t) sids = map Some rs" using Q orow by simp
      moreover have "steady m ?t" using Q st by (blast intro: steady_trans)
      moreover have "std_inv P G (add_one (set sids) T) ?t" using Q by (simp add: inv_but_none)
      ultimately show thesis using Q sw lx lrs by (intro ok [of xs ?t rs]) auto
    qed
  qed
qed

end
