(* ===== verification/Standard_Record.thy ===== *)
theory Standard_Record
  imports Standard_Batch
begin

text \<open>
  Recording freshly allocated slots: the tokens of a sequence are cut into blocks in the order
  of the row, whatever the sizes of the chunks they arrive in, and every collected block carries
  exactly the slots of its row positions.
\<close>

section \<open>Building blocks along a row\<close>

text \<open>\<open>b\<close> has turned the row positions from \<open>start\<close> to \<open>e\<close> into pending blocks.\<close>

definition fits_upto :: "std_cache \<Rightarrow> nat \<Rightarrow> int \<Rightarrow> int \<Rightarrow> building \<Rightarrow> int \<Rightarrow> bool" where
  "fits_upto m r start off b e \<longleftrightarrow>
     pending_fits m r start (next_logical_block_idx (fst b) - int (length (snd b))) (snd b)
     \<and> start + int (length (snd b)) * cache_block_size m = e
     \<and> off + next_logical_block_idx (fst b) * cache_block_size m = e"

definition build_ok :: "std_cache \<Rightarrow> nat \<Rightarrow> int \<Rightarrow> int \<Rightarrow> building \<Rightarrow> int \<Rightarrow> bool" where
  "build_ok m r start off b c \<longleftrightarrow>
     (let pt = pending_tokens (fst b); ss = concat (pending_slots (fst b)) in
      length ss = length pt \<and> (pending_slots (fst b) = [] \<longleftrightarrow> pt = [])
      \<and> int (length pt) < cache_block_size m
      \<and> ss = cells m r (c - int (length pt)) c
      \<and> fits_upto m r start off b (c - int (length pt)))"

lemma drop_cells: "0 \<le> int k \<Longrightarrow> drop k (cells m r a b) = cells m r (a + int k) b"
proof -
  have "drop k [a..b - 1] = [a + int k..b - 1]"
  proof (induction k arbitrary: a)
    case (Suc k)
    show ?case
    proof (cases "a \<le> b - 1")
      case True
      then have "[a..b - 1] = a # [a + 1..b - 1]" by (rule upto_rec1)
      then show ?thesis using Suc.IH [of "a + 1"] by (simp add: algebra_simps)
    qed simp
  qed simp
  then show ?thesis by (simp add: cells_def drop_map)
qed

lemma take_cells: "a + int k \<le> b \<Longrightarrow> take k (cells m r a b) = cells m r a (a + int k)"
  by (rule nth_equalityI) (auto simp: cells_nth)

lemma add_block_fits:
  assumes b: "fits_upto m r start off b e" and run: "add_block H ix ts ss b = (Inr (), b')"
    and ss: "ss = cells m r e (e + cache_block_size m)"
  shows "fits_upto m r start off b' (e + cache_block_size m)"
    "pending_tokens (fst b') = pending_tokens (fst b)" "pending_slots (fst b') = pending_slots (fst b)"
proof -
  obtain st pend where bb: "b = (st, pend)" by fastforce
  obtain bid where bid: "index_block_id H ix ts (rt_parent st) = Inr bid"
    using run by (auto simp: add_block_def bb split: sum.splits)
  let ?p = "\<lparr>pb_block_id = bid, pb_parent_id = rt_parent st, pb_logical_idx = next_logical_block_idx st,
      pb_payload = make_prefix_block_payload ss, pb_slots = ss, pb_token_ids = ts\<rparr>"
  have b': "b' = (st\<lparr>rt_parent := Some bid, next_logical_block_idx := next_logical_block_idx st + 1\<rparr>, pend @ [?p])"
    using run bid by (simp add: add_block_def bb)
  have "pending_fits m r start (next_logical_block_idx st - int (length pend)) (pend @ [?p])"
    unfolding pending_fits_def Let_def
  proof (intro allI impI)
    fix i
    assume i: "i < length (pend @ [?p])"
    show "token_slots (pb_payload ((pend @ [?p]) ! i)) = Some (cells m r (start + int i * cache_block_size m)
          (start + int i * cache_block_size m + cache_block_size m))
      \<and> retained_offsets (pb_payload ((pend @ [?p]) ! i)) = None
      \<and> pb_logical_idx ((pend @ [?p]) ! i) = next_logical_block_idx st - int (length pend) + int i"
    proof (cases "i < length pend")
      case True
      then show ?thesis using b by (simp add: fits_upto_def pending_fits_def Let_def bb nth_append)
    next
      case False
      then have "i = length pend" using i by simp
      then show ?thesis using b ss by (simp add: fits_upto_def bb make_prefix_block_payload_def)
    qed
  qed
  then show "fits_upto m r start off b' (e + cache_block_size m)"
    using b by (simp add: fits_upto_def bb b' algebra_simps)
  show "pending_tokens (fst b') = pending_tokens (fst b)" "pending_slots (fst b') = pending_slots (fst b)"
    by (simp_all add: bb b')
qed

lemma add_blocks_fit:
  assumes bs: "0 < cache_block_size m" "k = nat (cache_block_size m)"
    and "length ids = length ss" "ss = cells m r e (e + int (length ss))" "fits_upto m r start off b e"
    "forE (\<lambda>(ts, xs). add_block H ix ts xs) (zip (chunks k ids) (chunks k ss)) b = (Inr (), b')"
  shows "fits_upto m r start off b' (e + int (length ss div k * k))
    \<and> pending_tokens (fst b') = pending_tokens (fst b) \<and> pending_slots (fst b') = pending_slots (fst b)"
proof -
  have k: "0 < k" "int k = cache_block_size m" using bs by auto
  show ?thesis
    using k(1) assms(3-6)
  proof (induction ids arbitrary: ss e b rule: chunks_induct)
    case (short xs)
    then show ?case by simp
  next
    case (step xs)
    have len: "k \<le> length ss" using step by simp
    obtain b1 where b1: "add_block H ix (take k xs) (take k ss) b = (Inr (), b1)"
      "forE (\<lambda>(ts, xs). add_block H ix ts xs) (zip (chunks k (drop k xs)) (chunks k (drop k ss))) b1 = (Inr (), b')"
      using step.prems(4) chunks_step [OF k(1) step.hyps] chunks_step [OF k(1) len]
      by (auto simp: bindE_eq_Inr)
    have "take k ss = cells m r e (e + cache_block_size m)"
      using step.prems(2) take_cells [of e k "e + int (length ss)" m r] len k(2) by (metis of_nat_le_iff add_left_mono)
    from add_block_fits [OF step.prems(3) b1(1) this]
    have A: "fits_upto m r start off b1 (e + cache_block_size m)"
      "pending_tokens (fst b1) = pending_tokens (fst b)" "pending_slots (fst b1) = pending_slots (fst b)" .
    have l: "length (drop k xs) = length (drop k ss)" using step.prems(1) by simp
    have d: "drop k ss = cells m r (e + cache_block_size m) (e + cache_block_size m + int (length (drop k ss)))"
      using step.prems(2) drop_cells [of k m r e "e + int (length ss)"] len k(2)
      by (simp add: algebra_simps of_nat_diff)
    have "length ss div k * k = k + length (drop k ss) div k * k"
      using len k(1) by (simp add: le_div_geq)
    then have E: "e + cache_block_size m + int (length (drop k ss) div k * k) = e + int (length ss div k * k)"
      using k(2) by simp
    show ?case unfolding E [symmetric] using step.IH [OF l d A(1) b1(2)] A(2,3) by simp
  qed
qed

lemma collect_full_ok:
  assumes bs: "0 < cache_block_size m" "k = nat (cache_block_size m)"
    and len: "length ids = length ss" and ss: "ss = cells m r e (e + int (length ss))"
    and b: "fits_upto m r start off b e"
    and run: "collect_full H ix k ids ss b = (Inr (), b')"
  shows "build_ok m r start off b' (e + int (length ss))"
proof -
  have k: "0 < k" "int k = cache_block_size m" using bs by auto
  obtain b1 where b1: "forE (\<lambda>(ts, xs). add_block H ix ts xs) (zip (chunks k ids) (chunks k ss)) b = (Inr (), b1)"
    "b' = collect_rest (drop (length ids div k * k) ids) (drop (length ids div k * k) ss) b1"
    using run by (auto simp: collect_full_def Let_def bindE_eq_Inr)
  define full where "full = length ss div k * k"
  have f: "full \<le> length ss" "length ss - full < k" using k(1)
    by (simp_all add: minus_div_mult_eq_mod full_def)
  have b2: "b' = collect_rest (drop full ids) (drop full ss) b1" using b1(2) len by (simp add: full_def)
  have F: "fits_upto m r start off b1 (e + int full)"
    using add_blocks_fit [OF bs len ss b b1(1)] unfolding full_def by blast
  have rest: "drop full ss = cells m r (e + int full) (e + int (length ss))"
    using ss drop_cells [of full m r e "e + int (length ss)"] by simp
  show ?thesis
  proof (cases "drop full ids = []")
    case True
    then have "int full = int (length ss)" using len f by simp
    then show ?thesis using True F b2 len bs
      by (simp add: build_ok_def Let_def collect_rest_def clear_pending_def fits_upto_def)
  next
    case False
    have "int (length (drop full ids)) = int (length ss) - int full" using len f by simp
    moreover have "int (length ss) - int full < cache_block_size m" using f k by linarith
    moreover have "nat (int (length ss) - int full) = length ss - full" using f by (simp add: nat_diff_distrib)
    ultimately show ?thesis using False F b2 len f rest
      by (simp add: build_ok_def Let_def collect_rest_def fits_upto_def)
  qed
qed

theorem collect_blocks_ok:
  assumes bs: "0 < cache_block_size m" "k = nat (cache_block_size m)"
    and len: "length ids = length ss" and ss: "ss = cells m r c (c + int (length ss))"
    and b: "build_ok m r start off b c"
    and run: "collect_blocks_of H ix k ids ss b = (Inr (), b')"
  shows "build_ok m r start off b' (c + int (length ss))"
proof (cases "pending_tokens (fst b) = []")
  case True
  then have "fits_upto m r start off b c" using b by (simp add: build_ok_def Let_def)
  then show ?thesis using collect_full_ok [OF bs len ss] run True by (simp add: collect_blocks_of_def Let_def)
next
  case False
  have k: "0 < k" "int k = cache_block_size m" using bs by auto
  let ?st = "fst b" let ?pt = "pending_tokens (fst b)"
  let ?n = "min (k - length ?pt) (length ids)"
  let ?st1 = "?st\<lparr>pending_tokens := ?pt @ take ?n ids, pending_slots := pending_slots ?st @ [take ?n ss]\<rparr>"
  have B: "length (concat (pending_slots ?st)) = length ?pt" "int (length ?pt) < cache_block_size m"
    "concat (pending_slots ?st) = cells m r (c - int (length ?pt)) c"
    "fits_upto m r start off b (c - int (length ?pt))"
    using b by (auto simp: build_ok_def Let_def)
  have ptk: "length ?pt < k" using B(2) k(2) by linarith
  have n_le: "?n \<le> length ss" using len by simp
  have take_ss: "take ?n ss = cells m r c (c + int ?n)"
    using ss take_cells [of c ?n "c + int (length ss)" m r] n_le by simp
  have drop_ss: "drop ?n ss = cells m r (c + int ?n) (c + int ?n + int (length (drop ?n ss)))"
    using ss drop_cells [of ?n m r c "c + int (length ss)"] n_le by (simp add: of_nat_diff)
  have joined: "concat (pending_slots ?st1) = cells m r (c - int (length ?pt)) (c + int ?n)"
    using B(3) take_ss cells_append [of "c - int (length ?pt)" c "c + int ?n" m r] by simp
  have len1: "length (pending_tokens ?st1) = length ?pt + ?n" using len by simp
  have F1: "fits_upto m r start off (?st1, snd b) (c - int (length ?pt))"
    using B(4) by (simp add: fits_upto_def)
  show ?thesis
  proof (cases "length (pending_tokens ?st1) = k")
    case True
    obtain b1 where b1: "add_block H ix (pending_tokens ?st1) (concat (pending_slots ?st1)) (?st1, snd b) = (Inr (), b1)"
      "collect_full H ix k (drop ?n ids) (drop ?n ss) (clear_pending b1) = (Inr (), b')"
      using run False True by (auto simp: collect_blocks_of_def Let_def bindE_eq_Inr)
    have nk: "c + int ?n = c - int (length ?pt) + cache_block_size m" using True len1 k(2) by linarith
    have "concat (pending_slots ?st1) = cells m r (c - int (length ?pt)) (c - int (length ?pt) + cache_block_size m)"
      using joined nk by simp
    from add_block_fits(1) [OF F1 b1(1) this] have "fits_upto m r start off b1 (c + int ?n)" unfolding nk .
    then have F2: "fits_upto m r start off (clear_pending b1) (c + int ?n)"
      by (simp add: fits_upto_def clear_pending_def)
    have l2: "length (drop ?n ids) = length (drop ?n ss)" using len by simp
    have "build_ok m r start off b' (c + int ?n + int (length (drop ?n ss)))"
      by (rule collect_full_ok [OF bs l2 drop_ss F2 b1(2)])
    then show ?thesis using n_le by (simp add: of_nat_diff)
  next
    case short: False
    then have b': "b' = (?st1, snd b)" using run False by (simp add: collect_blocks_of_def Let_def)
    have "?n = length ids" using short len1 ptk by linarith
    then have all: "?n = length ss" "take ?n ids = ids" using len by auto
    have lt: "length ?pt + length ss < k" using short len1 all ptk by linarith
    show ?thesis
      using F1 joined all lt k(2) B(1) False len b' take_ss
      by (simp add: build_ok_def Let_def fits_upto_def)
  qed
qed

section \<open>Recording an allocation\<close>

definition keeps_promise :: "(int \<Rightarrow> promise) \<Rightarrow> std_cache \<Rightarrow> seq \<Rightarrow> bool" where
  "keeps_promise G m q \<longleftrightarrow> hit_of (G (seq_id q)) = prefix_cache_hit_len q
     \<and> recorded (G (seq_id q)) = (multimodal_digest q = None)
     \<and> (caching m \<longrightarrow> prefix_cache_hit_block_count q * cache_block_size m = prefix_cache_hit_len q)"

lemma layout_forget:
  assumes ok: "layout_ok g n m sid r" and no: "\<not> (caching m \<and> recorded g)"
  shows "layout_ok g 0 m sid r"
proof -
  note D = ok [unfolded layout_ok_def]
  have rt: "runtime m sid = None"
  proof (cases "runtime m sid")
    case (Some st)
    then have "caching m \<and> recorded g" using D by blast
    with no show ?thesis by blast
  qed
  then have tail: "tail_of m sid = []" by (simp add: tail_of_def)
  have "settled_at m n sid r \<le> settled_at m 0 sid r" using D by (simp add: settled_at_def)
  moreover have "\<forall>(s, e)\<in>set (ranges_of m sid). 0 \<le> s \<and> s < e \<and> e \<le> settled_at m n sid r" using D by blast
  ultimately have "\<forall>(s, e)\<in>set (ranges_of m sid). 0 \<le> s \<and> s < e \<and> e \<le> settled_at m 0 sid r"
    "0 \<le> settled_at m 0 sid r" using D by fastforce+
  moreover have "\<forall>rg\<in>set (ranges_of m sid). covers m (held_blocks m sid) r rg" "pending_of m sid = []"
    using D rt by blast+
  ultimately show ?thesis unfolding layout_ok_def using rt no tail by auto
qed

lemma layout_building:
  assumes ok: "layout_ok (G (seq_id q)) n m (seq_id q) r" and kp: "keeps_promise G m q"
    and c: "caching m" "multimodal_digest q = None" "0 < cache_block_size m"
  shows "build_ok m r (settled_at m n (seq_id q) r) (attached m (seq_id q) - prefix_cache_hit_len q)
    (runtime_of m q, pending_of m (seq_id q)) (row_len m r - n)"
proof (cases "runtime m (seq_id q)")
  case None
  then have "runtime_of m q = \<lparr>rt_parent = prefix_cache_hit_last_block_id q,
      next_logical_block_idx = prefix_cache_hit_block_count q, pending_tokens = [], pending_slots = []\<rparr>"
    by (simp add: runtime_of_def runtime_def)
  moreover have "pending_of m (seq_id q) = []" "settled_at m n (seq_id q) r = attached m (seq_id q)"
    using ok None kp c unfolding layout_ok_def keeps_promise_def by blast+
  moreover have "settled_at m n (seq_id q) r = row_len m r - n"
    using None \<open>pending_of m (seq_id q) = []\<close> by (simp add: settled_at_def tail_of_def)
  ultimately show ?thesis using kp c
    by (simp add: build_ok_def fits_upto_def pending_fits_def keeps_promise_def)
next
  case (Some st)
  let ?sid = "seq_id q"
  have rt: "runtime_of m q = st" using Some by (simp add: runtime_of_def runtime_def)
  have tail: "tail_of m ?sid = concat (pending_slots st)" using Some by (simp add: tail_of_def)
  note D = ok [unfolded layout_ok_def]
  have S: "length (concat (pending_slots st)) = length (pending_tokens st)"
    "pending_slots st = [] \<longleftrightarrow> pending_tokens st = []"
    "int (length (pending_tokens st)) < cache_block_size m"
    "pending_fits m r (settled_at m n ?sid r) (next_logical_block_idx st - int (length (pending_of m ?sid))) (pending_of m ?sid)"
    "settled_at m n ?sid r + int (length (pending_of m ?sid)) * cache_block_size m
        = attached m ?sid + next_logical_block_idx st * cache_block_size m - hit_of (G ?sid)"
    using D Some by blast+
  have T: "tail_of m ?sid = cells m r (row_len m r - n - int (length (tail_of m ?sid))) (row_len m r - n)"
    using D by blast
  have "settled_at m n ?sid r + int (length (pending_of m ?sid)) * cache_block_size m
      = row_len m r - n - int (length (pending_tokens st))"
    using S(1) by (simp add: settled_at_def tail)
  moreover have "hit_of (G ?sid) = prefix_cache_hit_len q" using kp by (simp add: keeps_promise_def)
  ultimately show ?thesis using S T
    by (simp add: build_ok_def fits_upto_def rt tail Let_def)
qed

theorem record_inv:
  assumes inv: "std_inv P G T m" and own: "owner m (seq_id q) = Some r"
    and n: "T (seq_id q) = int (length slots)"
    and slots: "slots = cells m r (row_len m r - int (length slots)) (row_len m r)"
    and kp: "keeps_promise G m q"
    and run: "record_prefix_materialization H q ids slots m = (Inr (), t)"
  shows "std_inv P G (T(seq_id q := 0)) t"
    and "\<exists>rts pps. t = m\<lparr>prefix_runtime_states := rts, pending_prefix_blocks := pps\<rparr>"
proof -
  let ?sid = "seq_id q"
  note D = std_invD [OF inv]
  have lay: "layout_ok (G ?sid) (T ?sid) m ?sid r" by (rule seqs_okD(2) [OF D(5) own])
  have quiet: "std_inv P G (T(?sid := 0)) m"
    if "layout_ok (G ?sid) 0 m ?sid r"
  proof -
    have "seqs_ok G (T(?sid := 0)) m"
      by (rule seqs_okI) (use seqs_okD [OF D(5)] own that in \<open>auto split: if_splits\<close>)
    then show ?thesis using inv by (simp add: std_inv_def)
  qed
  have "std_inv P G (T(?sid := 0)) t \<and> (\<exists>rts pps. t = m\<lparr>prefix_runtime_states := rts, pending_prefix_blocks := pps\<rparr>)"
  proof (cases "multimodal_digest q \<noteq> None \<or> \<not> caching m")
    case True
    then have t: "t = m" using run by (simp add: record_prefix_materialization_def split: if_splits)
    have "layout_ok (G ?sid) 0 m ?sid r"
      by (rule layout_forget [OF lay]) (use True kp in \<open>auto simp: keeps_promise_def\<close>)
    then have "std_inv P G (T(?sid := 0)) t" using quiet t by simp
    moreover have "t = m\<lparr>prefix_runtime_states := prefix_runtime_states m, pending_prefix_blocks := pending_prefix_blocks m\<rparr>"
      using t by simp
    ultimately show ?thesis by blast
  next
    case False
    then have mm: "multimodal_digest q = None" and c: "caching m" by auto
    have bs: "0 < cache_block_size m" by (rule layout_bs [OF D(3) c])
    obtain ix where ix: "prefix_cache m = Some ix" using c by (auto simp: caching_def)
    have len: "length ids = length slots" using run False by (auto simp: record_prefix_materialization_def split: if_splits)
    show ?thesis
    proof (cases "ids = []")
      case True
      then have "t = m" using run False len by (simp add: record_prefix_materialization_def)
      moreover have "layout_ok (G ?sid) 0 m ?sid r" using lay n True len by simp
      moreover have "m = m\<lparr>prefix_runtime_states := prefix_runtime_states m, pending_prefix_blocks := pending_prefix_blocks m\<rparr>"
        by simp
      ultimately show ?thesis using quiet by blast
    next
      case False
      obtain st pend where b': "collect_blocks_of H ix (nat (cache_block_size m)) ids slots
          (runtime_of m q, pending_of m ?sid) = (Inr (), st, pend)"
        "t = m\<lparr>prefix_runtime_states := dict_set ?sid st (prefix_runtime_states m),
               pending_prefix_blocks := dict_set ?sid pend (pending_prefix_blocks m)\<rparr>"
        using run False len mm c ix
        by (auto simp: record_prefix_materialization_def pending_of_def split: prod.splits)
      let ?c = "row_len m r - int (length slots)"
      let ?start = "settled_at m (T ?sid) ?sid r"
      have B0: "build_ok m r ?start (attached m ?sid - prefix_cache_hit_len q)
          (runtime_of m q, pending_of m ?sid) ?c"
        using layout_building [OF lay kp c mm bs] n by simp
      have "build_ok m r ?start (attached m ?sid - prefix_cache_hit_len q) (st, pend) (?c + int (length slots))"
        by (rule collect_blocks_ok [OF bs refl len _ B0 b'(1)]) (use slots in simp)
      then have B: "length (concat (pending_slots st)) = length (pending_tokens st)"
        "pending_slots st = [] \<longleftrightarrow> pending_tokens st = []"
        "int (length (pending_tokens st)) < cache_block_size m"
        "concat (pending_slots st) = cells m r (row_len m r - int (length (pending_tokens st))) (row_len m r)"
        "pending_fits m r ?start (next_logical_block_idx st - int (length pend)) pend"
        "?start + int (length pend) * cache_block_size m = row_len m r - int (length (pending_tokens st))"
        "attached m ?sid - prefix_cache_hit_len q + next_logical_block_idx st * cache_block_size m
          = row_len m r - int (length (pending_tokens st))"
        by (auto simp: build_ok_def Let_def fits_upto_def)
      have held: "held_blocks t s = held_blocks m s" for s by (simp add: b'(2) held_blocks_def)
      have own_t: "owner t s = owner m s" for s by (simp add: b'(2) owner_def)
      then have owns: "owners t = owners m" by (simp add: owners_def dom_def)
      have bsl: "block_slots t = block_slots m" by (rule ext) (simp add: b'(2) block_slots_def)
      have ind: "indexed t = indexed m" by (simp add: b'(2) indexed_def)
      have hold: "holders t x = holders m x" for x by (simp add: holders_def held owns)
      have rl: "row_len t = row_len m" "cells t = cells m" "cell t = cell m"
        by (auto simp: b'(2) row_len_def cells_def cell_def fun_eq_iff)
      have rg: "ranges_of t s = ranges_of m s" for s by (simp add: b'(2) ranges_of_def)
      have same: "seq_id_to_row t = seq_id_to_row m" "free_rows t = free_rows m" "prefix_cache t = prefix_cache m"
        "payload_at t = payload_at m" "next_ref t = next_ref m" "cache_block_size t = cache_block_size m"
        "enable_prefix_caching t = enable_prefix_caching m" "num_kvcache_slots t = num_kvcache_slots m"
        "max_buffer_rows t = max_buffer_rows m" "max_model_len t = max_model_len m"
        "free_slots_stack t = free_slots_stack m" "num_free t = num_free m" "buffer_slots t = buffer_slots m"
        "row_seq_lens t = row_seq_lens m" "row_logical_lens t = row_logical_lens m"
        by (simp_all add: b'(2))
      have sp: "seq_id_to_prefix_blocks t = seq_id_to_prefix_blocks m" by (simp add: b'(2))
      have att: "attached t s = attached m s" for s by (simp add: attached_def bsl sp)
      have rt: "runtime t s = (if s = ?sid then Some st else runtime m s)"
        "pending_of t s = (if s = ?sid then pend else pending_of m s)" for s
        by (simp_all add: b'(2) runtime_def pending_of_def get_list_def)
      have cs: "cache_block_size t = cache_block_size m" "caching t = caching m"
        by (simp_all add: b'(2) caching_def)
      have tail: "tail_of t ?sid = concat (pending_slots st)" by (simp add: tail_of_def rt)
      have start: "settled_at t 0 ?sid r = ?start" using B(1,6) by (simp add: settled_at_def tail rt rl cs)
      have pf: "pending_fits t = pending_fits m" by (simp add: pending_fits_def fun_eq_iff rl cs)
      have cov: "covers t = covers m" by (simp add: covers_def fun_eq_iff rl bsl)
      have pos: "0 < row_len m r"
      proof -
        have "0 < int (length slots)" using False len by auto
        moreover have "0 \<le> settled_at m (T ?sid) ?sid r" using layout_settled [OF lay] by simp
        moreover have "settled_at m (T ?sid) ?sid r \<le> row_len m r - T ?sid"
          using layout_settled_tail [OF lay] .
        ultimately show ?thesis using n by linarith
      qed
      have lay_t: "layout_ok (G ?sid) 0 t ?sid r"
        unfolding layout_ok_def start rg held pf cov tail att cs rl
      proof (intro conjI)
        show "\<forall>st'. runtime t ?sid = Some st' \<longrightarrow> caching m \<and> recorded (G ?sid) \<and> 0 < row_len m r
          \<and> length (concat (pending_slots st')) = length (pending_tokens st')
          \<and> (pending_slots st' = []) = (pending_tokens st' = [])
          \<and> int (length (pending_tokens st')) < cache_block_size m
          \<and> pending_fits m r ?start (next_logical_block_idx st' - int (length (pending_of t ?sid))) (pending_of t ?sid)
          \<and> ?start + int (length (pending_of t ?sid)) * cache_block_size m
            = attached m ?sid + next_logical_block_idx st' * cache_block_size m - hit_of (G ?sid)"
          using B kp mm c pos by (auto simp: rt keeps_promise_def)
        show "concat (pending_slots st) = cells m r (row_len m r - 0 - int (length (concat (pending_slots st)))) (row_len m r - 0)"
          using B(1,4) by simp
        show "runtime t ?sid = None \<longrightarrow> pending_of t ?sid = []
            \<and> (caching m \<and> recorded (G ?sid) \<longrightarrow> ?start = attached m ?sid)" by (simp add: rt)
      qed (use lay [unfolded layout_ok_def] in \<open>blast | simp\<close>)+
      have "seqs_ok G (T(?sid := 0)) t"
      proof (rule seqs_okI)
        fix s assume "owner t s = None"
        then have o: "owner m s = None" using own_t by simp
        then have "s \<noteq> ?sid" using own by auto
        then show "vacant t s" using seqs_okD(1) [OF D(5) o] by (simp add: vacant_def rg rt)
      next
        fix s r' assume "owner t s = Some r'"
        then have o: "owner m s = Some r'" using own_t by simp
        show "layout_ok (G s) ((T(?sid := 0)) s) t s r'"
        proof (cases "s = ?sid")
          case True
          then show ?thesis using lay_t o own by simp
        next
          case False
          have "layout_ok (G s) (T s) t s r'"
            by (rule layout_cong [OF seqs_okD(2) [OF D(5) o]])
              (use False in \<open>auto simp: rl rg held rt cs bsl sp\<close>)
          with False show ?thesis by simp
        qed
      qed
      moreover have "shapes_ok t" "rows_ok t" using D(1,2)
        by (simp_all add: shapes_ok_def rows_ok_def stack_ok_def rl same)
      moreover have "blocks_ok t" "refs_ok P t" using D(3,4)
        by (simp_all add: blocks_ok_def refs_ok_def ind hold held owns same)
      moreover have "all_slots t = mset (arange (num_kvcache_slots t))"
      proof -
        have "rows_part t = rows_part m"
          by (rule rows_part_cong [OF owns], rule private_cong) (auto simp: own_t rg rl)
        moreover have "free_part t = free_part m" "num_kvcache_slots t = num_kvcache_slots m"
          by (simp_all add: b'(2) free_part_def)
        ultimately show ?thesis using D(6) by (simp add: all_slots_def blocks_part_def ind bsl)
      qed
      ultimately have "std_inv P G (T(?sid := 0)) t" by (simp add: std_inv_def)
      with b'(2) show ?thesis by blast
    qed
  qed
  then show "std_inv P G (T(?sid := 0)) t"
    "\<exists>rts pps. t = m\<lparr>prefix_runtime_states := rts, pending_prefix_blocks := pps\<rparr>" by blast+
qed

end
