(* ===== verification/Standard_Refs.thy ===== *)
theory Standard_Refs
  imports Standard_Record
begin

text \<open>
  Taking and dropping block references, and giving a sequence back: its private slots return to
  the free stack, the blocks it held lose one reference each, its row is queued as free.
\<close>

section \<open>References on the index\<close>

definition refs_added :: "int \<Rightarrow> nat list \<Rightarrow> index \<Rightarrow> index \<Rightarrow> bool" where
  "refs_added d rs ix ix' \<longleftrightarrow> index_ok ix' \<and> block_size ix' = block_size ix
     \<and> max_blocks ix' = max_blocks ix \<and> fingerprint ix' = fingerprint ix \<and> blocks ix' = blocks ix
     \<and> (\<forall>r. obj ix' r = (obj ix r)\<lparr>ref_count := ref_count (obj ix r) + d * int (count_list rs r)\<rparr>)"

lemma set_ref_run:
  assumes ok: "index_ok ix" and b: "get_block ix b = Some r" and n: "0 \<le> n"
  shows "\<exists>ix'. set_block_ref_count r n msg ix = (Inr (), ix') \<and> index_ok ix'
    \<and> block_size ix' = block_size ix \<and> max_blocks ix' = max_blocks ix \<and> fingerprint ix' = fingerprint ix
    \<and> blocks ix' = blocks ix \<and> obj ix' = (obj ix)(r := (obj ix r)\<lparr>ref_count := n\<rparr>)"
proof -
  have v: "validate_indexed_block ix r"
    using b index_okD(6) [OF ok b] by (simp add: validate_indexed_block_def)
  have "index_ok (snd (set_block_ref_count r n msg ix))" by (rule set_block_ref_count_ok [OF ok])
  moreover have "(obj ix)(r := (obj ix r)\<lparr>ref_count := n\<rparr>) = obj ix" if "ref_count (obj ix r) = n"
    using that by (auto simp: fun_eq_iff)
  ultimately show ?thesis using v n
    by (auto simp: set_block_ref_count_def Let_def upd_obj_def mark_capacity_mutated_def mark_mutated_def
        split: if_splits)
qed

lemma acquire_all:
  assumes "index_ok ix" "set rs \<subseteq> ran (get_block ix)"
  shows "\<exists>ix'. forE acquire_block_ref rs ix = (Inr (), ix') \<and> refs_added 1 rs ix ix'"
  using assms
proof (induction rs arbitrary: ix)
  case Nil
  then show ?case by (simp add: refs_added_def)
next
  case (Cons r rs)
  then obtain b where b: "get_block ix b = Some r" by (auto simp: ran_def)
  have "0 \<le> ref_count (obj ix r)" using index_okD(9) [OF Cons.prems(1), of b "obj ix r"] b by (simp add: the_block_def)
  then have "0 \<le> ref_count (obj ix r) + 1" by simp
  from set_ref_run [OF Cons.prems(1) b this] obtain ix1 where
    i1: "acquire_block_ref r ix = (Inr (), ix1)" "index_ok ix1" "block_size ix1 = block_size ix"
      "max_blocks ix1 = max_blocks ix" "fingerprint ix1 = fingerprint ix" "blocks ix1 = blocks ix"
      "obj ix1 = (obj ix)(r := (obj ix r)\<lparr>ref_count := ref_count (obj ix r) + 1\<rparr>)"
    by (auto simp: acquire_block_ref_def)
  have "set rs \<subseteq> ran (get_block ix1)" using Cons.prems(2) i1(6) by simp
  from Cons.IH [OF i1(2) this] obtain ix2 where
    i2: "forE acquire_block_ref rs ix1 = (Inr (), ix2)" "refs_added 1 rs ix1 ix2" by blast
  have "refs_added 1 (r # rs) ix ix2"
    using i2(2) i1 by (auto simp: refs_added_def)
  then show ?case using i1(1) i2(1) by (auto simp: bindE_run)
qed

lemma release_all:
  assumes "index_ok ix" "set rs \<subseteq> ran (get_block ix)"
    "\<And>r. r \<in> set rs \<Longrightarrow> int (count_list rs r) \<le> ref_count (obj ix r)"
  shows "\<exists>ix'. forE (\<lambda>r. release_block_ref r negative_ref) rs ix = (Inr (), ix') \<and> refs_added (- 1) rs ix ix'"
  using assms
proof (induction rs arbitrary: ix)
  case Nil
  then show ?case by (simp add: refs_added_def)
next
  case (Cons r rs)
  then obtain b where b: "get_block ix b = Some r" by (auto simp: ran_def)
  have "0 \<le> ref_count (obj ix r) - 1" using Cons.prems(3) [of r] by simp
  from set_ref_run [OF Cons.prems(1) b this] obtain ix1 where
    i1: "release_block_ref r negative_ref ix = (Inr (), ix1)" "index_ok ix1" "block_size ix1 = block_size ix"
      "max_blocks ix1 = max_blocks ix" "fingerprint ix1 = fingerprint ix" "blocks ix1 = blocks ix"
      "obj ix1 = (obj ix)(r := (obj ix r)\<lparr>ref_count := ref_count (obj ix r) - 1\<rparr>)"
    by (auto simp: release_block_ref_def)
  have sub: "set rs \<subseteq> ran (get_block ix1)" using Cons.prems(2) i1(6) by simp
  have cnt: "int (count_list rs x) \<le> ref_count (obj ix1 x)" if "x \<in> set rs" for x
    using Cons.prems(3) [of x] that i1(7) by (auto split: if_splits)
  from Cons.IH [OF i1(2) sub cnt] obtain ix2 where
    i2: "forE (\<lambda>r. release_block_ref r negative_ref) rs ix1 = (Inr (), ix2)" "refs_added (- 1) rs ix1 ix2" by blast
  have "refs_added (- 1) (r # rs) ix ix2"
    using i2(2) i1 by (auto simp: refs_added_def)
  then show ?case using i1(1) i2(1) by (auto simp: bindE_run)
qed

lemma on_index_for:
  "prefix_cache m = Some ix \<Longrightarrow>
   forE (\<lambda>r. on_index (f r)) rs m = (case forE f rs ix of (x, ix') \<Rightarrow> (x, m\<lparr>prefix_cache := Some ix'\<rparr>))"
proof (induction rs arbitrary: m ix)
  case Nil
  then have "m = m\<lparr>prefix_cache := Some ix\<rparr>" by simp
  then show ?case by simp
next
  case (Cons r rs)
  obtain x ix1 where f: "f r ix = (x, ix1)" by fastforce
  then have "on_index (f r) m = (x, m\<lparr>prefix_cache := Some ix1\<rparr>)" using Cons.prems by (simp add: on_index_def)
  then show ?case using Cons.IH [of "m\<lparr>prefix_cache := Some ix1\<rparr>" ix1] f
    by (cases x) (auto simp: bindE_run split: prod.split)
qed

lemma count_mset_list: "count (mset xs) x = count_list xs x"
  by (induction xs) auto

lemma indexed_ran: "prefix_cache m = Some ix \<Longrightarrow> indexed m = ran (get_block ix)"
  by (simp add: indexed_def)

theorem acquire_inv:
  assumes inv: "std_inv P G T m" and ix: "prefix_cache m = Some ix" and rs: "set rs \<subseteq> indexed m"
  shows "\<exists>ix'. forE (\<lambda>r. on_index (acquire_block_ref r)) rs m = (Inr (), m\<lparr>prefix_cache := Some ix'\<rparr>)
    \<and> refs_added 1 rs ix ix' \<and> std_inv (P + mset rs) G T (m\<lparr>prefix_cache := Some ix'\<rparr>)"
proof -
  have ok: "index_ok ix" using std_invD(3) [OF inv] ix by (simp add: blocks_ok_def)
  have sub: "set rs \<subseteq> ran (get_block ix)" using rs ix by (simp add: indexed_ran)
  from acquire_all [OF ok sub] obtain ix' where
    a: "forE acquire_block_ref rs ix = (Inr (), ix')" "refs_added 1 rs ix ix'" by blast
  have Psub: "set_mset (P + mset rs) \<subseteq> ran (get_block ix)"
    using std_invD(4) [OF inv] sub ix by (auto simp: refs_ok_def indexed_ran)
  have "std_inv (P + mset rs) G T (m\<lparr>prefix_cache := Some ix'\<rparr>)"
    by (rule refs_move_inv [OF inv ix _ _ _ _ Psub])
      (use a(2) in \<open>auto simp: refs_added_def count_mset_list\<close>)
  moreover have "forE (\<lambda>r. on_index (acquire_block_ref r)) rs m = (Inr (), m\<lparr>prefix_cache := Some ix'\<rparr>)"
    using on_index_for [OF ix, of acquire_block_ref rs] a(1) by simp
  ultimately show ?thesis using a(2) by blast
qed

theorem release_inv:
  assumes inv: "std_inv (P + mset rs) G T m"
  shows "\<exists>pc. release_prefix_blocks rs m = (Inr (), m\<lparr>prefix_cache := pc\<rparr>)
    \<and> std_inv P G T (m\<lparr>prefix_cache := pc\<rparr>)
    \<and> (\<forall>ix. prefix_cache m = Some ix \<longrightarrow> (\<exists>ix'. pc = Some ix' \<and> refs_added (- 1) rs ix ix'))
    \<and> (prefix_cache m = None \<longrightarrow> pc = None)"
proof (cases "prefix_cache m")
  case None
  then have rs: "rs = []" using std_invD(4) [OF inv] by (auto simp: refs_ok_def indexed_def)
  have eq: "m\<lparr>prefix_cache := None\<rparr> = m" using None by simp
  have "std_inv P G T (m\<lparr>prefix_cache := None\<rparr>)" unfolding eq using inv rs by simp
  moreover have "release_prefix_blocks rs m = (Inr (), m\<lparr>prefix_cache := None\<rparr>)"
    unfolding eq by (simp add: release_prefix_blocks_def rs)
  ultimately show ?thesis unfolding None by (intro exI [of _ None]) simp_all
next
  case (Some ix)
  note D = std_invD [OF inv]
  have ok: "index_ok ix" using D(3) Some by (simp add: blocks_ok_def)
  have sub: "set rs \<subseteq> ran (get_block ix)" "set_mset P \<subseteq> ran (get_block ix)"
    using D(4) Some by (auto simp: refs_ok_def indexed_ran)
  have cnt: "int (count_list rs r) \<le> ref_count (obj ix r)" if "r \<in> ran (get_block ix)" for r
    using D(4) Some that by (auto simp: refs_ok_def indexed_ran count_mset_list)
  have "\<exists>ix'. forE (\<lambda>r. release_block_ref r negative_ref) rs ix = (Inr (), ix') \<and> refs_added (- 1) rs ix ix'"
    by (rule release_all [OF ok sub(1)]) (use cnt sub in auto)
  then obtain ix' where
    a: "forE (\<lambda>r. release_block_ref r negative_ref) rs ix = (Inr (), ix')" "refs_added (- 1) rs ix ix'" by blast
  have "std_inv P G T (m\<lparr>prefix_cache := Some ix'\<rparr>)"
    by (rule refs_move_inv [OF inv Some _ _ _ _ sub(2)])
      (use a(2) in \<open>auto simp: refs_added_def count_mset_list\<close>)
  moreover have "release_prefix_blocks rs m = (Inr (), m\<lparr>prefix_cache := Some ix'\<rparr>)"
    using a(1) Some on_index_for [OF Some, of "\<lambda>r. release_block_ref r negative_ref" rs]
    by (simp add: release_prefix_blocks_def)
  ultimately show ?thesis using a(2) Some by (intro exI [of _ "Some ix'"]) simp
qed

section \<open>Giving the slots of a row back\<close>

lemma free_ranges_run:
  assumes "stack_ok m" "num_free m + int (length (positions rgs)) \<le> num_kvcache_slots m"
    "\<And>s e. (s, e) \<in> set rgs \<Longrightarrow> 0 \<le> s \<and> s \<le> e \<and> e \<le> int (length (buffer_slots m ! row))"
  shows "\<exists>st t. free_ranges row rgs m = (Inr (), t)
    \<and> t = m\<lparr>free_slots_stack := st, num_free := num_free m + int (length (positions rgs))\<rparr>
    \<and> stack_ok t \<and> free_part t = free_part m + mset (map (cell m row) (positions rgs))"
  using assms
proof (induction rgs arbitrary: m)
  case Nil
  then show ?case by (intro exI [of _ "free_slots_stack m"] exI [of _ m]) simp
next
  case (Cons rg rgs)
  obtain s e where rg: "rg = (s, e)" by fastforce
  have se: "0 \<le> s" "s \<le> e" "e \<le> int (length (buffer_slots m ! row))" using Cons.prems(3) [of s e] rg by auto
  let ?xs = "tslice (buffer_slots m ! row) s e"
  have xs: "?xs = map (cell m row) [s..e - 1]" using tslice_map [OF se] by (simp add: cell_def)
  have n: "e - s = int (length ?xs)" using se by (simp add: xs)
  have "num_free m + (e - s) \<le> num_kvcache_slots m" using Cons.prems(2) rg se by simp
  from push_slots_run [OF Cons.prems(1) n this] obtain st where
    st: "push_slots (e - s) ?xs m = (Inr (), m\<lparr>free_slots_stack := st, num_free := num_free m + (e - s)\<rparr>)"
      "stack_ok (m\<lparr>free_slots_stack := st, num_free := num_free m + (e - s)\<rparr>)"
      "free_part (m\<lparr>free_slots_stack := st, num_free := num_free m + (e - s)\<rparr>) = free_part m + mset ?xs" by blast
  let ?m = "m\<lparr>free_slots_stack := st, num_free := num_free m + (e - s)\<rparr>"
  have c: "cell ?m = cell m" by (simp add: cell_def fun_eq_iff)
  have len: "int (length (positions (rg # rgs))) = (e - s) + int (length (positions rgs))" using rg se by simp
  then have "num_free ?m + int (length (positions rgs)) \<le> num_kvcache_slots ?m" using Cons.prems(2) by simp
  from Cons.IH [OF st(2) this] Cons.prems(3) obtain st' t where
    t: "free_ranges row rgs ?m = (Inr (), t)"
      "t = ?m\<lparr>free_slots_stack := st', num_free := num_free ?m + int (length (positions rgs))\<rparr>"
      "stack_ok t" "free_part t = free_part ?m + mset (map (cell ?m row) (positions rgs))" by auto
  have "t = m\<lparr>free_slots_stack := st', num_free := num_free m + int (length (positions (rg # rgs)))\<rparr>"
    using t(2) len by simp
  moreover have "free_part t = free_part m + mset (map (cell m row) (positions (rg # rgs)))"
    using t(4) st(3) rg by (simp add: c xs)
  ultimately show ?case using t(1,3) st(1) rg by (intro exI [of _ st'] exI [of _ t]) simp
qed

section \<open>Freeing a sequence\<close>

lemma release_local:
  assumes "prefix_cache a = prefix_cache b" "release_prefix_blocks rs b = (Inr (), b\<lparr>prefix_cache := pc\<rparr>)"
  shows "release_prefix_blocks rs a = (Inr (), a\<lparr>prefix_cache := pc\<rparr>)"
proof (cases "prefix_cache b")
  case None
  then have rs: "rs = []" using assms(2) by (auto simp: release_prefix_blocks_def split: if_splits)
  then have "b = b\<lparr>prefix_cache := pc\<rparr>" using assms(2) by (simp add: release_prefix_blocks_def)
  then have "prefix_cache b = prefix_cache (b\<lparr>prefix_cache := pc\<rparr>)" by (rule arg_cong)
  then have "prefix_cache b = pc" by simp
  then have "a\<lparr>prefix_cache := pc\<rparr> = a" using assms(1) by simp
  then show ?thesis by (simp add: release_prefix_blocks_def rs)
next
  case (Some ix)
  obtain x ix' where f: "forE (\<lambda>r. release_block_ref r negative_ref) rs ix = (x, ix')" by fastforce
  have "x = Inr () \<and> b\<lparr>prefix_cache := Some ix'\<rparr> = b\<lparr>prefix_cache := pc\<rparr>"
    using assms(2) Some f on_index_for [OF Some, of "\<lambda>r. release_block_ref r negative_ref" rs]
    by (simp add: release_prefix_blocks_def)
  moreover from this have "prefix_cache (b\<lparr>prefix_cache := Some ix'\<rparr>) = prefix_cache (b\<lparr>prefix_cache := pc\<rparr>)"
    by simp
  then have "Some ix' = pc" by simp
  ultimately show ?thesis
    using assms(1) Some f on_index_for [of a ix "\<lambda>r. release_block_ref r negative_ref" rs]
    by (simp add: release_prefix_blocks_def)
qed

lemma map_snd_delete:
  assumes "dict_ok d" "distinct (map snd d)" "dict_get d k = Some v"
  shows "set (map snd (dict_del k d)) = set (map snd d) - {v}" "distinct (map snd (dict_del k d))"
proof -
  have f: "dict_del k d = filter (\<lambda>p. fst p \<noteq> k) d" by (auto simp: AList.delete_eq case_prod_unfold intro: filter_cong)
  have mem: "(k, v) \<in> set d" using assms(3) by (rule map_of_SomeD)
  have "snd p \<noteq> v" if "p \<in> set d" "fst p \<noteq> k" for p
    using assms(2) that mem by (metis distinct_map fst_conv inj_onD snd_conv)
  moreover have "fst p \<noteq> k" if "p \<in> set d" "snd p \<noteq> v" for p
    using assms(1) that mem by (metis eq_key_imp_eq_value fst_conv prod.collapse)
  ultimately show "set (map snd (dict_del k d)) = set (map snd d) - {v}" unfolding f by force
  show "distinct (map snd (dict_del k d))" unfolding f using assms(2) by (simp add: distinct_map_filter)
qed

definition freed_row :: "int \<Rightarrow> nat \<Rightarrow> std_cache \<Rightarrow> std_cache" where
  "freed_row sid r m =
     clear_row r (drop_runtime sid (snd (take_holdings sid
       (m\<lparr>seq_id_to_row := dict_del sid (seq_id_to_row m),
          seq_id_to_cached_ranges := dict_del sid (seq_id_to_cached_ranges m)\<rparr>))))"

lemma freed_row_fields:
  "freed_row sid r m = m\<lparr>seq_id_to_row := dict_del sid (seq_id_to_row m),
     seq_id_to_cached_ranges := dict_del sid (seq_id_to_cached_ranges m),
     seq_id_to_prefix_blocks := dict_del sid (seq_id_to_prefix_blocks m),
     seq_id_to_materialized_blocks := dict_del sid (seq_id_to_materialized_blocks m),
     prefix_runtime_states := dict_del sid (prefix_runtime_states m),
     pending_prefix_blocks := dict_del sid (pending_prefix_blocks m),
     buffer_slots := (buffer_slots m)[r := map (\<lambda>_. 0) (buffer_slots m ! r)],
     row_seq_lens := (row_seq_lens m)[r := 0], row_logical_lens := (row_logical_lens m)[r := 0],
     free_rows := free_rows m @ [r]\<rparr>"
  by (simp add: freed_row_def clear_row_def drop_runtime_def take_holdings_def)

lemma freed_row_inv:
  assumes inv: "std_inv P G T m" and own: "owner m sid = Some r"
  shows "inv_but (private_slots m sid) (P + mset (held_blocks m sid)) G T (freed_row sid r m)"
    "owner (freed_row sid r m) = (owner m)(sid := None)"
proof -
  let ?t = "freed_row sid r m"
  note D = std_invD [OF inv]
  note F = freed_row_fields [of sid r m]
  have rb: "r < max_buffer_rows m" "r \<notin> set (free_rows m)" using owner_row [OF D(2) own] by auto
  note RS = row_shape [OF D(1) rb(1)]
  have lens: "length (buffer_slots m) = max_buffer_rows m" "length (row_seq_lens m) = max_buffer_rows m"
    "length (row_logical_lens m) = max_buffer_rows m"
    using D(1) by (auto simp: shapes_ok_def)
  have own_t: "owner ?t s = (if s = sid then None else owner m s)" for s by (simp add: F owner_def)
  then show "owner ?t = (owner m)(sid := None)" by (simp add: fun_eq_iff)
  have so: "sid \<in> owners m" using own by (auto simp: owners_def)
  have owns: "owners ?t = owners m - {sid}" using own_t by (auto simp: owners_def split: if_splits)
  have held: "held_blocks ?t s = (if s = sid then [] else held_blocks m s)" for s
    by (simp add: F held_blocks_def get_list_def)
  have pre: "get_list (seq_id_to_prefix_blocks ?t) s = (if s = sid then [] else get_list (seq_id_to_prefix_blocks m) s)" for s
    by (simp add: F get_list_def)
  have rng: "ranges_of ?t s = (if s = sid then [] else ranges_of m s)" for s
    by (simp add: F ranges_of_def get_list_def)
  have rt: "runtime ?t s = (if s = sid then None else runtime m s)"
    "pending_of ?t s = (if s = sid then [] else pending_of m s)" for s
    by (simp_all add: F runtime_def pending_of_def get_list_def)
  have bs: "block_slots ?t = block_slots m" by (rule ext) (simp add: F block_slots_def)
  have ind: "indexed ?t = indexed m" by (simp add: F indexed_def)
  have other: "row_len ?t r' = row_len m r'" "cell ?t r' k = cell m r' k"
    "row_logical_lens ?t ! r' = row_logical_lens m ! r'" if "r' \<noteq> r" for r' k
    using that by (simp_all add: F row_len_def cell_def)
  have own_other: "r' \<noteq> r" if "owner m s = Some r'" "s \<noteq> sid" for s r'
    using owner_row(3) [OF D(2) own] that by auto
  have zero: "row_len ?t r = 0" "row_logical_lens ?t ! r = 0"
    using rb lens by (simp_all add: F row_len_def)
  have same: "prefix_cache ?t = prefix_cache m" "payload_at ?t = payload_at m" "next_ref ?t = next_ref m"
    "cache_block_size ?t = cache_block_size m" "enable_prefix_caching ?t = enable_prefix_caching m"
    "num_kvcache_slots ?t = num_kvcache_slots m" "max_buffer_rows ?t = max_buffer_rows m"
    "max_model_len ?t = max_model_len m" "free_slots_stack ?t = free_slots_stack m" "num_free ?t = num_free m"
    "free_rows ?t = free_rows m @ [r]" "seq_id_to_row ?t = dict_del sid (seq_id_to_row m)"
    "caching ?t = caching m"
    by (simp_all add: F caching_def)
  have "shapes_ok ?t"
  proof -
    have "int (length row) = max_model_len m" if "row \<in> set (buffer_slots ?t)" for row
    proof -
      have "row \<in> insert (map (\<lambda>_. 0) (buffer_slots m ! r)) (set (buffer_slots m))"
        using that set_update_subset_insert [of "buffer_slots m" r "map (\<lambda>_. 0) (buffer_slots m ! r)"]
        by (auto simp: F)
      then show ?thesis using D(1) RS(1) by (auto simp: shapes_ok_def)
    qed
    moreover have "0 \<le> row_len ?t r' \<and> row_len ?t r' \<le> max_model_len m" if "r' < max_buffer_rows m" for r'
      using zero other row_shape [OF D(1) that] D(1) by (cases "r' = r") (auto simp: shapes_ok_def)
    moreover have "length (buffer_slots ?t) = max_buffer_rows m" "length (row_seq_lens ?t) = max_buffer_rows m"
      "length (row_logical_lens ?t) = max_buffer_rows m" using lens by (simp_all add: F)
    ultimately show ?thesis using D(1) by (simp add: shapes_ok_def stack_ok_def same)
  qed
  moreover have "rows_ok ?t"
  proof -
    have R: "dict_ok (seq_id_to_row m)" "distinct (map snd (seq_id_to_row m) @ free_rows m)"
      "set (map snd (seq_id_to_row m) @ free_rows m) = {0..<max_buffer_rows m}"
      "\<forall>r\<in>set (free_rows m). row_len m r = 0 \<and> row_logical_lens m ! r = 0"
      using D(2) unfolding rows_ok_def by blast+
    have dm: "distinct (map snd (seq_id_to_row m))" using R(2) by simp
    note del = map_snd_delete [OF R(1) dm own [unfolded owner_def]]
    have "r \<in> set (map snd (seq_id_to_row m))"
      using own map_of_SomeD [of "seq_id_to_row m" sid r] by (force simp: owner_def)
    then have "set (map snd (dict_del sid (seq_id_to_row m)) @ free_rows m @ [r]) = {0..<max_buffer_rows m}"
      using R(3) del(1) by auto
    moreover have "distinct (map snd (dict_del sid (seq_id_to_row m)) @ free_rows m @ [r])"
      using R(2) del rb(2) by auto
    moreover have "row_len ?t r' = 0 \<and> row_logical_lens ?t ! r' = 0" if "r' \<in> set (free_rows m @ [r])" for r'
      using that zero other R(4) by (cases "r' = r") auto
    ultimately show ?thesis using R(1) by (simp add: rows_ok_def same)
  qed
  moreover have "blocks_ok ?t" using D(3) by (simp add: blocks_ok_def same ind)
  moreover have "refs_ok (P + mset (held_blocks m sid)) ?t"
  proof -
    have "holders m x = count_list (held_blocks m sid) x + holders ?t x" for x
    proof -
      have "(\<Sum>s\<in>owners m - {sid}. count_list (held_blocks ?t s) x) = (\<Sum>s\<in>owners m - {sid}. count_list (held_blocks m s) x)"
        by (rule sum.cong) (auto simp: held)
      then show ?thesis using so by (simp add: holders_def owns sum.remove)
    qed
    then show ?thesis using D(4) by (auto simp: refs_ok_def same ind held owns count_mset_list)
  qed
  moreover have "seqs_ok G T ?t"
  proof (rule seqs_okI)
    fix s assume "owner ?t s = None"
    then show "vacant ?t s" using seqs_okD(1) [OF D(5), of s] own_t by (auto simp: vacant_def rng rt split: if_splits)
  next
    fix s r' assume o: "owner ?t s = Some r'"
    then have s: "s \<noteq> sid" "owner m s = Some r'" using own_t by (auto split: if_splits)
    show "layout_ok (G s) (T s) ?t s r'"
      by (rule layout_cong [OF seqs_okD(2) [OF D(5) s(2)]])
        (use s own_other other in \<open>auto simp: rng held rt bs same pre\<close>)
  qed
  moreover have "all_slots ?t + private_slots m sid = mset (arange (num_kvcache_slots ?t))"
  proof -
    have "private_slots ?t s = private_slots m s" if "s \<in> owners m - {sid}" for s
      by (rule private_cong) (use that own_t own_other other in \<open>auto simp: rng\<close>)
    then have "(\<Sum>s\<in>owners m - {sid}. private_slots ?t s) = (\<Sum>s\<in>owners m - {sid}. private_slots m s)"
      by (rule sum.cong [OF refl])
    then have "rows_part m = private_slots m sid + rows_part ?t"
      using rows_part_remove [OF so] by (simp add: rows_part_def owns)
    moreover have "free_part ?t = free_part m" by (simp add: free_part_def same)
    ultimately show ?thesis using D(6)
      by (simp add: all_slots_def blocks_part_def ind bs same union_ac)
  qed
  ultimately show "inv_but (private_slots m sid) (P + mset (held_blocks m sid)) G T ?t" by (simp add: inv_but_def)
qed

theorem standard_free_seq_inv:
  assumes inv: "std_inv P G T m" and own: "owner m sid = Some r"
  shows "\<exists>t. standard_free_seq sid m = (Inr (), t) \<and> std_inv P G T t \<and> owner t = (owner m)(sid := None)
    \<and> free_part t = free_part m + private_slots m sid
    \<and> free_rows t = free_rows m @ [r]
    \<and> (\<forall>ix. prefix_cache m = Some ix \<longrightarrow>
         (\<exists>ix'. prefix_cache t = Some ix' \<and> refs_added (- 1) (held_blocks m sid) ix ix'))"
proof -
  note D = std_invD [OF inv]
  have rb: "r < max_buffer_rows m" by (rule owner_row(1) [OF D(2) own])
  note RS = row_shape [OF D(1) rb]
  have lay: "layout_ok (G sid) (T sid) m sid r" by (rule seqs_okD(2) [OF D(5) own])
  have inside: "0 \<le> s \<and> e \<le> row_len m r" if "(s, e) \<in> set (ranges_of m sid)" for s e
    using lay that layout_settled [OF lay] unfolding layout_ok_def by fastforce
  let ?rgs = "complement_ranges 0 (row_len m r) (merge_ranges (ranges_of m sid))"
  let ?m1 = "m\<lparr>seq_id_to_row := dict_del sid (seq_id_to_row m),
      seq_id_to_cached_ranges := dict_del sid (seq_id_to_cached_ranges m)\<rparr>"
  have pos: "positions ?rgs = private_positions m sid r"
    using complement_merged(1) [of "ranges_of m sid" "row_len m r"] inside RS(2)
    by (simp add: private_positions_def)
  have ps: "private_slots m sid = mset (map (cell m r) (private_positions m sid r))"
    using own by (simp add: private_slots_def)
  have room: "num_free m + int (length (private_positions m sid r)) \<le> num_kvcache_slots m"
  proof -
    have "sid \<in> owners m" using own by (auto simp: owners_def)
    from rows_part_remove [OF this] have "size (private_slots m sid) \<le> size (rows_part m)" by simp
    then have "int (length (private_positions m sid r)) \<le> int (size (rows_part m))" by (simp add: ps)
    moreover have "int (size (free_part m)) + int (size (rows_part m)) + int (size (blocks_part m)) = num_kvcache_slots m"
      using size_all_slots [OF inv] by (simp add: all_slots_def)
    ultimately show ?thesis using size_free_part [OF D(7)] by linarith
  qed
  have so: "stack_ok ?m1" using D(7) by (simp add: stack_ok_def)
  have "num_free ?m1 + int (length (positions ?rgs)) \<le> num_kvcache_slots ?m1" using room pos by simp
  moreover have "0 \<le> s \<and> s \<le> e \<and> e \<le> int (length (buffer_slots ?m1 ! r))" if "(s, e) \<in> set ?rgs" for s e
    using complement_merged(2) [of "ranges_of m sid" "row_len m r" s e] inside RS that by auto
  ultimately obtain st t0 where f: "free_ranges r ?rgs ?m1 = (Inr (), t0)"
    "t0 = ?m1\<lparr>free_slots_stack := st, num_free := num_free ?m1 + int (length (positions ?rgs))\<rparr>"
    "stack_ok t0" "free_part t0 = free_part ?m1 + mset (map (cell ?m1 r) (positions ?rgs))"
    using free_ranges_run [OF so, of ?rgs r] by blast
  let ?k = "num_free m + int (length (private_positions m sid r))"
  let ?f = "freed_row sid r m"
  define m4 where "m4 = ?f\<lparr>free_slots_stack := st, num_free := ?k\<rparr>"
  note FR = freed_row_inv [OF inv own]
  have cell1: "cell ?m1 = cell m" by (simp add: cell_def fun_eq_iff)
  have fp: "free_part ?m1 = free_part m" "free_part ?f = free_part m"
    by (simp_all add: free_part_def freed_row_fields)
  have t0: "t0 = ?m1\<lparr>free_slots_stack := st, num_free := ?k\<rparr>" using f(2) pos by simp
  have fp4: "free_part m4 = free_part t0" by (simp add: free_part_def t0 m4_def)
  have fpt: "free_part t0 = free_part m + private_slots m sid" using f(4) pos ps fp(1) cell1 by simp
  have so4: "stack_ok m4" using f(3) by (simp add: stack_ok_def t0 freed_row_fields m4_def)
  have "inv_but {#} (P + mset (held_blocks m sid)) G T m4"
    by (rule stack_change_inv [OF FR(1) m4_def so4]) (simp add: fp4 fpt fp)
  then have "std_inv (P + mset (held_blocks m sid)) G T m4" by (simp add: inv_but_none)
  from release_inv [OF this] obtain pc where
    pc: "release_prefix_blocks (held_blocks m sid) m4 = (Inr (), m4\<lparr>prefix_cache := pc\<rparr>)"
      "std_inv P G T (m4\<lparr>prefix_cache := pc\<rparr>)"
      "\<forall>ix. prefix_cache m4 = Some ix \<longrightarrow> (\<exists>ix'. pc = Some ix' \<and> refs_added (- 1) (held_blocks m sid) ix ix')"
    by (elim exE conjE) (erule (2) that)
  define u where "u = snd (take_holdings sid t0)"
  have hold: "take_holdings sid t0 = (held_blocks m sid, u)"
    by (simp add: take_holdings_def t0 held_blocks_def u_def)
  have "prefix_cache u = prefix_cache m4"
    by (simp add: take_holdings_def t0 freed_row_fields m4_def u_def)
  from release_local [OF this pc(1)] have
    rel: "release_prefix_blocks (held_blocks m sid) u
      = (Inr (), u\<lparr>prefix_cache := pc\<rparr>)" .
  have fin: "clear_row r (drop_runtime sid (u\<lparr>prefix_cache := pc\<rparr>))
      = m4\<lparr>prefix_cache := pc\<rparr>"
    by (simp add: take_holdings_def t0 freed_row_fields clear_row_def drop_runtime_def m4_def u_def)
  have "standard_free_seq sid m = (Inr (), m4\<lparr>prefix_cache := pc\<rparr>)"
    using own RS(2) f(1) hold rel fin
    by (simp add: standard_free_seq_def owner_def [symmetric] ranges_of_def [symmetric] Let_def bindE_run
        row_len_def)
  moreover have "owner (m4\<lparr>prefix_cache := pc\<rparr>) = (owner m)(sid := None)"
    using FR(2) by (simp add: owner_def fun_eq_iff m4_def)
  moreover have "free_part (m4\<lparr>prefix_cache := pc\<rparr>) = free_part m + private_slots m sid"
    using fp4 fpt by (simp add: free_part_def)
  moreover have "free_rows (m4\<lparr>prefix_cache := pc\<rparr>) = free_rows m @ [r]" by (simp add: freed_row_fields m4_def)
  moreover have "prefix_cache m4 = prefix_cache m" by (simp add: freed_row_fields m4_def)
  ultimately show ?thesis using pc(2,3) by (intro exI [of _ "m4\<lparr>prefix_cache := pc\<rparr>"]) simp
qed

end
