(* ===== verification/Standard_Attach.thy ===== *)
theory Standard_Attach
  imports Standard_Refs
begin

text \<open>
  Attaching a cached prefix: the row of the sequence gets the slots of the chain, one after the
  other, without taking a single slot from the free stack; the blocks are referenced for as long
  as the sequence lives.
\<close>

section \<open>Copying the slots of a chain\<close>

abbreviation slots_of_all :: "std_cache \<Rightarrow> nat list \<Rightarrow> int list" where
  "slots_of_all m bs \<equiv> concat (map (block_slots m) bs)"

fun segments :: "std_cache \<Rightarrow> int \<Rightarrow> nat list \<Rightarrow> ranges" where
  "segments m c [] = []"
| "segments m c (b # bs) =
     (let n = int (length (block_slots m b)) in
      (if n = 0 then segments m c bs else (c, c + n) # segments m (c + n) bs))"

lemma segments_cover:
  "covered (segments m c bs) k \<longleftrightarrow> c \<le> k \<and> k < c + int (length (slots_of_all m bs))"
proof (induction bs arbitrary: c)
  case (Cons b bs)
  have "covered (segments m c (b # bs)) k \<longleftrightarrow> c \<le> k \<and> k < c + int (length (block_slots m b))
      \<or> covered (segments m (c + int (length (block_slots m b))) bs) k"
    by (auto simp: Let_def)
  then show ?case unfolding Cons.IH by auto
qed auto

lemma segments_bounds:
  "(s, e) \<in> set (segments m c bs) \<Longrightarrow> c \<le> s \<and> s < e \<and> e \<le> c + int (length (slots_of_all m bs))"
proof -
  assume mem: "(s, e) \<in> set (segments m c bs)"
  then have se: "s < e" by (induction bs arbitrary: c) (auto simp: Let_def split: if_splits)
  have "covered (segments m c bs) s" "covered (segments m c bs) (e - 1)"
    using range_covered [OF mem, of s] range_covered [OF mem, of "e - 1"] se by simp_all
  then have "c \<le> s" "e - 1 < c + int (length (slots_of_all m bs))"
    unfolding segments_cover by blast+
  with se show ?thesis by linarith
qed

lemma segments_cells:
  assumes "(s, e) \<in> set (segments m c bs)"
    "cells t r c (c + int (length (slots_of_all m bs))) = slots_of_all m bs"
  shows "\<exists>b\<in>set bs. block_slots m b = cells t r s e"
  using assms
proof (induction bs arbitrary: c)
  case (Cons b bs)
  let ?n = "int (length (block_slots m b))" and ?N = "int (length (slots_of_all m bs))"
  have "cells t r c (c + ?n) @ cells t r (c + ?n) (c + ?n + ?N) = block_slots m b @ slots_of_all m bs"
    using Cons.prems(2) cells_append [of c "c + ?n" "c + ?n + ?N" t r] by (simp add: add.assoc)
  then have split: "cells t r c (c + ?n) = block_slots m b"
    "cells t r (c + ?n) (c + ?n + ?N) = slots_of_all m bs"
    by (auto simp: append_eq_append_conv)
  show ?case
  proof (cases "?n = 0")
    case True
    then have "(s, e) \<in> set (segments m c bs)" "cells t r c (c + ?N) = slots_of_all m bs"
      using Cons.prems(1) split(2) by (auto simp: Let_def)
    from Cons.IH [OF this] show ?thesis by auto
  next
    case False
    then consider "s = c" "e = c + ?n" | "(s, e) \<in> set (segments m (c + ?n) bs)"
      using Cons.prems(1) by (auto simp: Let_def)
    then show ?thesis
    proof cases
      case 1
      then show ?thesis using split(1) by auto
    next
      case 2
      from Cons.IH [OF this split(2)] show ?thesis by auto
    qed
  qed
qed simp

lemma copy_chain_run:
  assumes "\<And>b. b \<in> set bs \<Longrightarrow> Option.bind (payload_of m b) token_slots = Some (block_slots m b)"
    "row < length (buffer_slots m)" "0 \<le> c"
    "c + int (length (slots_of_all m bs)) \<le> int (length (buffer_slots m ! row))"
  shows "\<exists>buf. copy_chain row bs c rgs m
      = (Inr (c + int (length (slots_of_all m bs)), rgs @ segments m c bs), m\<lparr>buffer_slots := buf\<rparr>)
    \<and> length buf = length (buffer_slots m) \<and> (\<forall>i. i \<noteq> row \<longrightarrow> buf ! i = buffer_slots m ! i)
    \<and> length (buf ! row) = length (buffer_slots m ! row)
    \<and> (\<forall>k. 0 \<le> k \<and> k < c \<longrightarrow> buf ! row ! nat k = buffer_slots m ! row ! nat k)
    \<and> cells (m\<lparr>buffer_slots := buf\<rparr>) row c (c + int (length (slots_of_all m bs))) = slots_of_all m bs"
  using assms
proof (induction bs arbitrary: c rgs m)
  case Nil
  then show ?case by (intro exI [of _ "buffer_slots m"]) simp
next
  case (Cons b bs)
  let ?xs = "block_slots m b"
  let ?n = "int (length ?xs)" and ?N = "int (length (slots_of_all m bs))"
  have b: "Option.bind (payload_of m b) token_slots = Some ?xs" using Cons.prems(1) by simp
  let ?old = "buffer_slots m ! row"
  let ?new = "take (nat c) ?old @ ?xs @ drop (nat c + length ?xs) ?old"
  let ?m = "m\<lparr>buffer_slots := (buffer_slots m)[row := ?new]\<rparr>"
  have room: "nat c + length ?xs + length (slots_of_all m bs) \<le> length ?old"
    using Cons.prems(3,4) by simp
  have st: "store_row row c (c + ?n) ?xs m = (Inr (), ?m)"
  proof -
    have "tstore c (c + ?n) ?xs ?old = Inr ?new"
      using Cons.prems(3) room by (intro tstore_in) linarith+
    then show ?thesis by (simp add: store_row_def)
  qed
  have same: "block_slots ?m = block_slots m" "payload_of ?m = payload_of m" "segments ?m = segments m"
  proof -
    show bs: "block_slots ?m = block_slots m" by (simp add: fun_eq_iff block_slots_def)
    show "payload_of ?m = payload_of m" by (simp add: fun_eq_iff payload_of_def block_at_def split: option.split)
    have "segments ?m c bs = segments m c bs" for c bs
      by (induction bs arbitrary: c) (simp_all add: bs Let_def)
    then show "segments ?m = segments m" by (simp add: fun_eq_iff)
  qed
  show ?case
  proof (cases "?n = 0")
    case True
    then have "?xs = []" by simp
    have "Option.bind (payload_of m x) token_slots = Some (block_slots m x)" if "x \<in> set bs" for x
      using Cons.prems(1) that by simp
    from Cons.IH [OF this Cons.prems(2,3), of rgs] Cons.prems(4) \<open>?xs = []\<close> b show ?thesis
      by (simp add: Let_def)
  next
    case False
    have "\<exists>buf. copy_chain row bs (c + ?n) (rgs @ [(c, c + ?n)]) ?m
        = (Inr (c + ?n + int (length (slots_of_all ?m bs)), (rgs @ [(c, c + ?n)]) @ segments ?m (c + ?n) bs),
           ?m\<lparr>buffer_slots := buf\<rparr>)
      \<and> length buf = length (buffer_slots ?m) \<and> (\<forall>i. i \<noteq> row \<longrightarrow> buf ! i = buffer_slots ?m ! i)
      \<and> length (buf ! row) = length (buffer_slots ?m ! row)
      \<and> (\<forall>k. 0 \<le> k \<and> k < c + ?n \<longrightarrow> buf ! row ! nat k = buffer_slots ?m ! row ! nat k)
      \<and> cells (?m\<lparr>buffer_slots := buf\<rparr>) row (c + ?n) (c + ?n + int (length (slots_of_all ?m bs))) = slots_of_all ?m bs"
      by (rule Cons.IH) (use Cons.prems room same in \<open>auto simp: nat_add_distrib\<close>)
    then obtain buf where ih: "copy_chain row bs (c + ?n) (rgs @ [(c, c + ?n)]) ?m
        = (Inr (c + ?n + ?N, rgs @ (c, c + ?n) # segments m (c + ?n) bs), ?m\<lparr>buffer_slots := buf\<rparr>)"
      "length buf = length (buffer_slots m)" "\<forall>i. i \<noteq> row \<longrightarrow> buf ! i = buffer_slots m ! i"
      "length (buf ! row) = length ?old"
      "\<forall>k. 0 \<le> k \<and> k < c + ?n \<longrightarrow> buf ! row ! nat k = ?new ! nat k"
      "cells (m\<lparr>buffer_slots := buf\<rparr>) row (c + ?n) (c + ?n + ?N) = slots_of_all m bs"
      using same Cons.prems(2) room by (auto simp: cells_def cell_def)
    have front: "buf ! row ! nat k = ?old ! nat k" if "0 \<le> k" "k < c" for k
      using ih(5) that room by (simp add: nth_append)
    have mid: "cells (m\<lparr>buffer_slots := buf\<rparr>) row c (c + ?n) = ?xs"
    proof (rule nth_equalityI)
      fix i assume "i < length (cells (m\<lparr>buffer_slots := buf\<rparr>) row c (c + ?n))"
      then have i: "i < length ?xs" by simp
      then have "buf ! row ! nat (c + int i) = ?new ! nat (c + int i)" using ih(5) Cons.prems(3) by simp
      moreover have "nat (c + int i) = nat c + i" using Cons.prems(3) by (simp add: nat_add_distrib)
      ultimately show "cells (m\<lparr>buffer_slots := buf\<rparr>) row c (c + ?n) ! i = ?xs ! i"
        using i room by (simp add: cells_nth cell_def nth_append)
    qed simp
    have "cells (m\<lparr>buffer_slots := buf\<rparr>) row c (c + ?n + ?N) = ?xs @ slots_of_all m bs"
      using cells_append [of c "c + ?n" "c + ?n + ?N" "m\<lparr>buffer_slots := buf\<rparr>" row] mid ih(6) by simp
    then show ?thesis using ih False b st front
      by (intro exI [of _ buf]) (simp add: Let_def add.assoc)
  qed
qed

section \<open>The chain a lookup found\<close>

lemma collect_blocks_indexed:
  "collect_blocks ix bs = Inr rs \<Longrightarrow> set rs \<subseteq> ran (get_block ix)"
  by (induction bs arbitrary: rs) (auto simp: ran_def split: option.splits sum.splits)

lemma get_chain_indexed: "get_chain ix b n = Inr rs \<Longrightarrow> set rs \<subseteq> ran (get_block ix)"
  by (auto simp: get_chain_def split: if_splits sum.splits dest: collect_blocks_indexed)

lemma find_chain_facts:
  assumes "find_chain m q = Inr blks"
  obtains ix where "prefix_cache m = Some ix" "set blks \<subseteq> indexed m"
    "int (length blks) * cache_block_size m = prefix_cache_hit_len q"
  using assms by (auto simp: find_chain_def indexed_ran split: option.splits if_splits sum.splits
      dest!: get_chain_indexed)

lemma touch_same:
  assumes ok: "index_ok ix"
  shows "same_blocks ix (touch_chain rs ix)" "max_blocks (touch_chain rs ix) = max_blocks ix"
    "blocks (touch_chain rs ix) = blocks ix"
proof -
  have f: "blocks (fold (\<lambda>r. upd_obj r (\<lambda>b. b\<lparr>last_access := a\<rparr>)) rs s) = blocks s
      \<and> block_size (fold (\<lambda>r. upd_obj r (\<lambda>b. b\<lparr>last_access := a\<rparr>)) rs s) = block_size s
      \<and> max_blocks (fold (\<lambda>r. upd_obj r (\<lambda>b. b\<lparr>last_access := a\<rparr>)) rs s) = max_blocks s
      \<and> (\<forall>r. payload (obj (fold (\<lambda>r. upd_obj r (\<lambda>b. b\<lparr>last_access := a\<rparr>)) rs s) r) = payload (obj s r)
          \<and> residency (obj (fold (\<lambda>r. upd_obj r (\<lambda>b. b\<lparr>last_access := a\<rparr>)) rs s) r) = residency (obj s r)
          \<and> ref_count (obj (fold (\<lambda>r. upd_obj r (\<lambda>b. b\<lparr>last_access := a\<rparr>)) rs s) r) = ref_count (obj s r))" for a s
    by (induction rs arbitrary: s) (auto simp: upd_obj_def)
  show "same_blocks ix (touch_chain rs ix)" "max_blocks (touch_chain rs ix) = max_blocks ix"
    "blocks (touch_chain rs ix) = blocks ix"
    using f [of "clock ix + 1" "ix\<lparr>clock := clock ix + 1\<rparr>"] touch_chain_ok [OF ok, of rs]
    by (auto simp: same_blocks_def touch_chain_def tick_def)
qed

lemma mapE_Inr: "mapE f xs = Inr ys \<Longrightarrow> x \<in> set xs \<Longrightarrow> \<exists>y. f x = Inr y"
  by (induction xs arbitrary: ys) (auto split: sum.splits)

lemma slots_of_all_le:
  assumes "\<And>b. b \<in> set bs \<Longrightarrow> int (length (block_slots m b)) \<le> k"
  shows "int (length (slots_of_all m bs)) \<le> int (length bs) * k"
  using assms by (induction bs) (force simp: algebra_simps)+

section \<open>Attaching keeps the invariant\<close>

lemma length_slots_of_all: "int (length (slots_of_all v blks)) = (\<Sum>r\<leftarrow>blks. int (length (block_slots v r)))"
  by (induction blks) simp_all

definition attached_row ::
    "int \<Rightarrow> nat \<Rightarrow> nat list \<Rightarrow> int list list \<Rightarrow> int \<Rightarrow> std_cache \<Rightarrow> std_cache" where
  "attached_row sid row blks buf hit v =
     v\<lparr>buffer_slots := buf,
       seq_id_to_cached_ranges := dict_set sid (segments v 0 blks) (seq_id_to_cached_ranges v),
       row_seq_lens := (row_seq_lens v)[row := int (length (slots_of_all v blks))],
       row_logical_lens := (row_logical_lens v)[row := hit],
       seq_id_to_prefix_blocks := dict_set sid blks (seq_id_to_prefix_blocks v)\<rparr>"

lemma attached_row_inv:
  assumes inv: "std_inv (P + mset blks) G T v" and own: "owner v sid = Some row"
    and empty: "row_len v row = 0" and none: "get_list (seq_id_to_prefix_blocks v) sid = []"
    and sub: "set blks \<subseteq> indexed v"
    and buf: "length buf = length (buffer_slots v)" "\<forall>i. i \<noteq> row \<longrightarrow> buf ! i = buffer_slots v ! i"
      "length (buf ! row) = length (buffer_slots v ! row)"
    and cells: "cells (v\<lparr>buffer_slots := buf\<rparr>) row 0 (int (length (slots_of_all v blks))) = slots_of_all v blks"
    and fits: "int (length (slots_of_all v blks)) \<le> max_model_len v"
  shows "std_inv P G T (attached_row sid row blks buf hit v)"
proof -
  let ?w = "attached_row sid row blks buf hit v" and ?N = "int (length (slots_of_all v blks))"
  note D = std_invD [OF inv]
  have rb: "row < max_buffer_rows v" "row \<notin> set (free_rows v)" using owner_row [OF D(2) own] by auto
  have lay: "layout_ok (G sid) (T sid) v sid row" by (rule seqs_okD(2) [OF D(5) own])
  note L = layout_settled [OF lay] layout_settled_tail [OF lay]
  have T0: "T sid = 0" "settled_at v (T sid) sid row = 0" using L empty by linarith+
  have rng0: "ranges_of v sid = []"
  proof (rule ccontr)
    assume "ranges_of v sid \<noteq> []"
    then obtain s e where "(s, e) \<in> set (ranges_of v sid)" by (metis list.set_intros(1) neq_Nil_conv surj_pair)
    then have "0 \<le> s \<and> s < e \<and> e \<le> settled_at v (T sid) sid row" using lay unfolding layout_ok_def by fast
    then show False using T0 by simp
  qed
  have rt0: "runtime v sid = None"
  proof (cases "runtime v sid")
    case (Some st)
    then have "0 < row_len v row" using lay unfolding layout_ok_def by blast
    then show ?thesis using empty by simp
  qed
  have pend0: "pending_of v sid = []" using lay rt0 unfolding layout_ok_def by blast
  have lens: "length (buffer_slots v) = max_buffer_rows v" "length (row_seq_lens v) = max_buffer_rows v"
    "length (row_logical_lens v) = max_buffer_rows v"
    using D(1) by (auto simp: shapes_ok_def)
  have same: "seq_id_to_row ?w = seq_id_to_row v" "free_rows ?w = free_rows v" "prefix_cache ?w = prefix_cache v"
    "payload_at ?w = payload_at v" "next_ref ?w = next_ref v" "cache_block_size ?w = cache_block_size v"
    "enable_prefix_caching ?w = enable_prefix_caching v" "num_kvcache_slots ?w = num_kvcache_slots v"
    "max_buffer_rows ?w = max_buffer_rows v" "max_model_len ?w = max_model_len v"
    "free_slots_stack ?w = free_slots_stack v" "num_free ?w = num_free v" "caching ?w = caching v"
    "buffer_slots ?w = buf"
    by (simp_all add: attached_row_def caching_def)
  have own_t: "owner ?w s = owner v s" for s by (simp add: owner_def same)
  then have owns: "owners ?w = owners v" by (simp add: owners_def dom_def)
  have so: "sid \<in> owners v" using own by (auto simp: owners_def)
  have bs: "block_slots ?w = block_slots v" by (rule ext) (simp add: block_slots_def same)
  have ind: "indexed ?w = indexed v" by (simp add: indexed_def same)
  have pre: "get_list (seq_id_to_prefix_blocks ?w) s = (if s = sid then blks else get_list (seq_id_to_prefix_blocks v) s)" for s
    by (simp add: attached_row_def get_list_def)
  have mat: "seq_id_to_materialized_blocks ?w = seq_id_to_materialized_blocks v" by (simp add: attached_row_def)
  have held: "held_blocks ?w s = (if s = sid then blks @ held_blocks v s else held_blocks v s)" for s
    using none by (simp add: held_blocks_def pre mat)
  have rng: "ranges_of ?w s = (if s = sid then segments v 0 blks else ranges_of v s)" for s
    by (simp add: attached_row_def ranges_of_def get_list_def)
  have rt: "runtime ?w s = runtime v s" "pending_of ?w s = pending_of v s" "tail_of ?w s = tail_of v s" for s
    by (simp_all add: attached_row_def runtime_def pending_of_def tail_of_def)
  have rl: "row_len ?w row = ?N" using rb lens by (simp add: attached_row_def row_len_def)
  have other: "row_len ?w r' = row_len v r'" "cell ?w r' k = cell v r' k"
    "row_logical_lens ?w ! r' = row_logical_lens v ! r'" if "r' \<noteq> row" for r' k
    using that buf(2) by (simp_all add: attached_row_def row_len_def cell_def)
  have cells_w: "cells ?w row 0 ?N = slots_of_all v blks"
  proof -
    have "cell ?w = cell (v\<lparr>buffer_slots := buf\<rparr>)" by (simp add: cell_def fun_eq_iff same)
    then show ?thesis using cells by (simp add: cells_def)
  qed
  have own_other: "r' \<noteq> row" if "owner v s = Some r'" "s \<noteq> sid" for s r'
    using owner_row(3) [OF D(2) own] that by auto
  have "shapes_ok ?w"
  proof -
    have "int (length rw) = max_model_len v" if rw: "rw \<in> set buf" for rw
    proof -
      obtain i where i: "i < length buf" "rw = buf ! i" using rw by (auto simp: in_set_conv_nth)
      then have "length rw = length (buffer_slots v ! i)" using buf by (cases "i = row") auto
      then show ?thesis using i(1) buf(1) lens D(1) by (simp add: shapes_ok_def)
    qed
    moreover have "0 \<le> row_len ?w r' \<and> row_len ?w r' \<le> max_model_len v" if "r' < max_buffer_rows v" for r'
      using rl other fits row_shape [OF D(1) that] by (cases "r' = row") auto
    moreover have "length (row_seq_lens ?w) = max_buffer_rows v" "length (row_logical_lens ?w) = max_buffer_rows v"
      using lens by (simp_all add: attached_row_def)
    ultimately show ?thesis using D(1) buf(1) by (simp add: shapes_ok_def stack_ok_def same)
  qed
  moreover have "rows_ok ?w"
  proof -
    have "row_len ?w r' = 0 \<and> row_logical_lens ?w ! r' = 0" if "r' \<in> set (free_rows v)" for r'
    proof -
      have "r' \<noteq> row" using that rb(2) by auto
      then show ?thesis using that other D(2) by (simp add: rows_ok_def)
    qed
    then show ?thesis using D(2) by (simp add: rows_ok_def same)
  qed
  moreover have "blocks_ok ?w" using D(3) by (simp add: blocks_ok_def same ind)
  moreover have "refs_ok P ?w"
  proof -
    have "holders ?w x = holders v x + count_list blks x" for x
    proof -
      have "(\<Sum>s\<in>owners v - {sid}. count_list (held_blocks ?w s) x) = (\<Sum>s\<in>owners v - {sid}. count_list (held_blocks v s) x)"
        by (rule sum.cong) (auto simp: held)
      then show ?thesis using so by (simp add: holders_def owns sum.remove held count_list_append)
    qed
    then show ?thesis using D(4) sub so by (auto simp: refs_ok_def same ind held owns count_mset_list)
  qed
  moreover have "seqs_ok G T ?w"
  proof (rule seqs_okI)
    fix s assume o: "owner ?w s = None"
    then have "s \<noteq> sid" using own own_t by auto
    then show "vacant ?w s" using seqs_okD(1) [OF D(5), of s] own_t o by (auto simp: vacant_def rng rt)
  next
    fix s r' assume "owner ?w s = Some r'"
    then have o: "owner v s = Some r'" using own_t by simp
    show "layout_ok (G s) (T s) ?w s r'"
    proof (cases "s = sid")
      case False
      show ?thesis
        by (rule layout_cong [OF seqs_okD(2) [OF D(5) o]])
          (use False o own_other other in \<open>auto simp: rng held rt bs same pre\<close>)
    next
      case True
      then have r': "r' = row" using o own by simp
      have set: "settled_at ?w 0 sid row = ?N"
        using rt0 pend0 by (simp add: settled_at_def rl rt tail_of_def)
      have att: "attached ?w sid = ?N" by (simp add: attached_def pre bs length_slots_of_all)
      have "covers ?w (held_blocks ?w sid) row (s', e')" if "(s', e') \<in> set (segments v 0 blks)" for s' e'
        using segments_cells [OF that, of ?w row] cells_w by (auto simp: covers_def held bs)
      moreover have "0 \<le> s' \<and> s' < e' \<and> e' \<le> ?N" if "(s', e') \<in> set (segments v 0 blks)" for s' e'
        using segments_bounds [OF that] by simp
      ultimately show ?thesis
        unfolding True r' T0(1) layout_ok_def set rng rt att rl
        using rt0 pend0 by (auto simp: tail_of_def)
    qed
  qed
  moreover have "all_slots ?w = mset (arange (num_kvcache_slots ?w))"
  proof -
    have "private_positions ?w sid row = []"
      by (auto simp: private_positions_def rl rng segments_cover filter_empty_conv)
    moreover have "private_positions v sid row = []" using empty by (simp add: private_positions_def)
    ultimately have "private_slots ?w sid = private_slots v sid" using own own_t by (simp add: private_slots_def)
    moreover have "private_slots ?w s = private_slots v s" if "s \<noteq> sid" for s
      by (rule private_cong) (use that own_t own_other other in \<open>auto simp: rng\<close>)
    ultimately have "rows_part ?w = rows_part v" by (metis rows_part_cong [OF owns])
    moreover have "free_part ?w = free_part v" by (simp add: free_part_def same)
    ultimately show ?thesis using D(6) by (simp add: all_slots_def blocks_part_def ind bs same)
  qed
  ultimately show ?thesis by (simp add: std_inv_def)
qed

definition chain_of :: "std_cache \<Rightarrow> seq \<Rightarrow> nat list" where
  "chain_of m q = (case find_chain m q of Inl e \<Rightarrow> [] | Inr blks \<Rightarrow> blks)"

theorem attach_inv:
  assumes inv: "std_inv P G T m" and new: "owner m (seq_id q) = None \<Longrightarrow> T (seq_id q) = 0"
    and fits: "prefix_cache_hit_len q \<le> max_model_len m"
  obtains (refused) e where "attach_prefix_cache_if_needed q m = (Inl e, m)"
  | (nothing) "attach_prefix_cache_if_needed q m = (Inr (), m)"
      "\<not> caching m \<or> prefix_cache_hit_len q \<le> 0 \<or> dict_get (seq_id_to_prefix_blocks m) (seq_id q) \<noteq> None"
  | (attached) t row where "attach_prefix_cache_if_needed q m = (Inr (), t)" "std_inv P G T t"
      "owner t (seq_id q) = Some row" "row_len t row = int (length (slots_of_all m (chain_of m q)))"
      "cells t row 0 (row_len t row) = slots_of_all m (chain_of m q)"
      "row_logical_lens t ! row = prefix_cache_hit_len q"
      "row_len t row \<le> prefix_cache_hit_len q" "free_part t = free_part m"
      "rows_kept {seq_id q} m t" "held_blocks t (seq_id q) = chain_of m q @ held_blocks m (seq_id q)"
      "prefix_runtime_states t = prefix_runtime_states m" "cache_block_size t = cache_block_size m"
      "caching t = caching m" "max_model_len t = max_model_len m"
      "\<forall>s. s \<noteq> seq_id q \<longrightarrow> dict_get (seq_id_to_prefix_blocks t) s = dict_get (seq_id_to_prefix_blocks m) s"
proof -
  let ?sid = "seq_id q" and ?hit = "prefix_cache_hit_len q"
  note D = std_invD [OF inv]
  show thesis
  proof (cases "\<not> caching m \<or> ?hit \<le> 0 \<or> dict_get (seq_id_to_prefix_blocks m) ?sid \<noteq> None")
    case True
    show thesis by (rule nothing) (use True in \<open>auto simp: attach_prefix_cache_if_needed_def\<close>)
  next
    case go: False
    show thesis
    proof (cases "find_chain m q")
      case (Inl e)
      then show thesis using go by (intro refused [of e]) (simp add: attach_prefix_cache_if_needed_def)
    next
      case blks: (Inr blks)
      show thesis
      proof (cases "mapE (check_attach_block m) blks")
        case (Inl e)
        then show thesis using go blks by (intro refused [of e]) (simp add: attach_prefix_cache_if_needed_def)
      next
        case checks: (Inr us)
        show thesis
        proof (cases "check_row_free m ?sid")
          case (Inl e)
          then show thesis using go blks checks
            by (intro refused [of e]) (simp add: attach_prefix_cache_if_needed_def)
        next
          case rowok: (Inr u)
          obtain ix where ix: "prefix_cache m = Some ix" "set blks \<subseteq> indexed m"
            "int (length blks) * cache_block_size m = ?hit"
            using find_chain_facts [OF blks] .
          from acquire_inv [OF inv ix(1,2)] obtain ix1 where
            a: "forE (\<lambda>r. on_index (acquire_block_ref r)) blks m = (Inr (), m\<lparr>prefix_cache := Some ix1\<rparr>)"
              "refs_added 1 blks ix ix1" "std_inv (P + mset blks) G T (m\<lparr>prefix_cache := Some ix1\<rparr>)"
            by blast
          define m1 where "m1 = m\<lparr>prefix_cache := Some ix1\<rparr>"
          have own1: "owner m1 = owner m" "free_rows m1 = free_rows m" "row_len m1 = row_len m"
            by (simp_all add: m1_def owner_def row_len_def fun_eq_iff)
          have rowfree: "owner m ?sid = None \<Longrightarrow> free_rows m \<noteq> []"
            "\<And>r. owner m ?sid = Some r \<Longrightarrow> row_len m r = 0"
            using rowok by (auto simp: check_row_free_def owner_def split: option.splits if_splits)
          have inv1: "std_inv (P + mset blks) G T m1" using a(3) by (simp add: m1_def)
          have "owner m1 ?sid = None \<Longrightarrow> free_rows m1 \<noteq> [] \<and> T ?sid = 0" using rowfree new own1 by simp
          note W = with_row_inv [OF inv1 this]
          define v where "v = with_row ?sid m1"
          obtain row where row: "owner v ?sid = Some row" using W(2) by (auto simp: v_def)
          have v_empty: "row_len v row = 0"
          proof (cases "owner m ?sid")
            case None
            then show ?thesis using W(3) own1 row by (simp add: v_def)
          next
            case (Some r)
            then show ?thesis using rowfree(2) own1 row by (simp add: v_def with_row_def)
          qed
          have getrow: "get_free_row ?sid m1 = (Inr row, v)"
            using rowfree(1) own1 row by (auto simp: get_free_row_run v_def)
          have inv_v: "std_inv (P + mset blks) G T v" using W(1) by (simp add: v_def)
          note DV = std_invD [OF inv_v]
          have st: "steady m1 v" "rows_kept {?sid} m1 v" by (simp_all add: v_def with_row_steady)
          have pcv: "prefix_cache v = Some ix1" "payload_at v = payload_at m"
            "seq_id_to_cached_ranges v = seq_id_to_cached_ranges m"
            "seq_id_to_prefix_blocks v = seq_id_to_prefix_blocks m"
            "seq_id_to_materialized_blocks v = seq_id_to_materialized_blocks m"
            "prefix_runtime_states v = prefix_runtime_states m" "cache_block_size v = cache_block_size m"
            "max_model_len v = max_model_len m" "enable_prefix_caching v = enable_prefix_caching m"
            "free_slots_stack v = free_slots_stack m" "num_free v = num_free m"
            by (auto simp: v_def with_row_def m1_def split: option.split)
          have bsv: "block_slots v = block_slots m" by (rule ext) (simp add: block_slots_def pcv)
          have "get_block ix1 = get_block ix" using a(2) by (simp add: refs_added_def)
          then have subv: "set blks \<subseteq> indexed v" using ix pcv by (simp add: indexed_ran)
          have small: "int (length (block_slots v b)) \<le> cache_block_size v" if "b \<in> set blks" for b
            using DV(3) subv that pcv(1) by (force simp: blocks_ok_def block_slots_def)
          have pay: "Option.bind (payload_of v b) token_slots = Some (block_slots v b)" if "b \<in> set blks" for b
          proof -
            have "b \<in> indexed v" using that subv by auto
            then show ?thesis by (rule block_of_indexed [OF DV(3)]) simp
          qed
          have total: "int (length (slots_of_all v blks)) \<le> ?hit"
            using slots_of_all_le [of blks v "cache_block_size v"] small ix(3) pcv(7) by simp
          have rb: "row < max_buffer_rows v" by (rule owner_row(1) [OF DV(2) row])
          have rlen: "int (length (buffer_slots v ! row)) = max_model_len m" "row < length (buffer_slots v)"
            using row_shape(1) [OF DV(1) rb] rb DV(1) pcv(8) by (auto simp: shapes_ok_def)
          have room: "0 + int (length (slots_of_all v blks)) \<le> int (length (buffer_slots v ! row))"
            using total fits rlen(1) by simp
          from copy_chain_run [OF pay rlen(2) order_refl room, of "[]"] obtain buf where
            c: "copy_chain row blks 0 [] v = (Inr (int (length (slots_of_all v blks)), segments v 0 blks), v\<lparr>buffer_slots := buf\<rparr>)"
              "length buf = length (buffer_slots v)" "\<forall>i. i \<noteq> row \<longrightarrow> buf ! i = buffer_slots v ! i"
              "length (buf ! row) = length (buffer_slots v ! row)"
              "cells (v\<lparr>buffer_slots := buf\<rparr>) row 0 (int (length (slots_of_all v blks))) = slots_of_all v blks"
            by auto
          have none: "get_list (seq_id_to_prefix_blocks v) ?sid = []" using go pcv by (simp add: get_list_def)
          define w where "w = attached_row ?sid row blks buf ?hit v"
          have inv_w: "std_inv P G T w"
            unfolding w_def using attached_row_inv [OF inv_v row v_empty none subv c(2-5)] total fits pcv(8) by simp
          have lay: "layout_ok (G ?sid) (T ?sid) v ?sid row" by (rule seqs_okD(2) [OF DV(5) row])
          have old: "get_list (seq_id_to_cached_ranges v) ?sid = []"
          proof (rule ccontr)
            assume "\<not> ?thesis"
            then obtain s e where "(s, e) \<in> set (ranges_of v ?sid)"
              by (metis list.set_intros(1) neq_Nil_conv ranges_of_def surj_pair)
            then have "0 \<le> s \<and> s < e \<and> e \<le> settled_at v (T ?sid) ?sid row" using lay unfolding layout_ok_def by fast
            then show False using layout_settled [OF lay] v_empty by simp
          qed
          have pcw: "prefix_cache w = Some ix1" by (simp add: w_def attached_row_def pcv)
          have okw: "index_ok ix1" using a(2) by (simp add: refs_added_def)
          let ?t = "w\<lparr>prefix_cache := Some (touch_chain blks ix1)\<rparr>"
          have inv_t: "std_inv P G T ?t" by (rule same_blocks_inv [OF inv_w pcw touch_same(1) [OF okw]])
          have run: "attach_prefix_cache_if_needed q m = (Inr (), ?t)"
            using go blks checks rowok a(1) getrow c(1) old pcv(1)
            by (simp add: attach_prefix_cache_if_needed_def m1_def [symmetric] bindE_run w_def attached_row_def Let_def)
          have chain: "chain_of m q = blks" using blks by (simp add: chain_of_def)
          have rl: "row_len ?t row = int (length (slots_of_all m blks))"
            using rb DV(1) by (simp add: w_def attached_row_def row_len_def shapes_ok_def bsv)
          have "cells ?t row 0 (row_len ?t row) = slots_of_all m blks"
          proof -
            have "cell ?t = cell (v\<lparr>buffer_slots := buf\<rparr>)" by (simp add: cell_def fun_eq_iff w_def attached_row_def)
            then show ?thesis using c(5) unfolding rl by (simp add: cells_def bsv)
          qed
          moreover have "rows_kept {?sid} m ?t"
          proof -
            have own_t: "owner ?t = owner v" by (simp add: w_def attached_row_def owner_def fun_eq_iff)
            have "row_len ?t r = row_len v r" if "owner v s = Some r" "s \<noteq> ?sid" for s r
            proof -
              have "r \<noteq> row" using owner_row(3) [OF DV(2) row] that by auto
              then show ?thesis by (simp add: w_def attached_row_def row_len_def)
            qed
            then have k: "rows_kept {?sid} v ?t" by (simp add: rows_kept_def own_t)
            have "rows_kept {} m m1" by (simp add: rows_kept_def own1)
            from rows_kept_trans [OF rows_kept_trans [OF this st(2)] k, of "{?sid}" "{?sid}"] show ?thesis by simp
          qed
          moreover have "row_logical_lens ?t ! row = ?hit"
            using rb DV(1) by (simp add: w_def attached_row_def shapes_ok_def)
          moreover have "held_blocks ?t ?sid = blks @ held_blocks m ?sid"
            using none pcv by (simp add: w_def attached_row_def held_blocks_def get_list_def)
          moreover have "free_part ?t = free_part m" by (simp add: free_part_def w_def attached_row_def pcv)
          moreover have "owner ?t ?sid = Some row" using row by (simp add: w_def attached_row_def owner_def)
          moreover have "caching ?t = caching m" using go by (simp add: caching_def w_def attached_row_def pcv)
          ultimately show thesis
            using run inv_t rl total bsv pcv
            by (intro attached [of ?t row]) (simp_all add: chain, simp_all add: w_def attached_row_def)
        qed
      qed
    qed
  qed
qed

end
