(* ===== verification/Standard_Commit.thy ===== *)
theory Standard_Commit
  imports Standard_Attach
begin

text \<open>
  The end of a forward pass: every pending block gets an object in the index, and the slots of
  the row it consists of pass from the sequence to the block. Whatever error cuts the commit
  short, no slot and no reference is lost.
\<close>

section \<open>What a commit leaves alone\<close>

definition undisturbed :: "std_cache \<Rightarrow> std_cache \<Rightarrow> bool" where
  "undisturbed m t \<longleftrightarrow> seq_id_to_row t = seq_id_to_row m \<and> free_rows t = free_rows m
     \<and> row_seq_lens t = row_seq_lens m \<and> row_logical_lens t = row_logical_lens m
     \<and> buffer_slots t = buffer_slots m \<and> seq_id_to_prefix_blocks t = seq_id_to_prefix_blocks m
     \<and> prefix_runtime_states t = prefix_runtime_states m
     \<and> pending_prefix_blocks t = pending_prefix_blocks m
     \<and> cache_block_size t = cache_block_size m \<and> caching t = caching m
     \<and> max_model_len t = max_model_len m \<and> num_kvcache_slots t = num_kvcache_slots m"

lemma undisturbed_refl [simp]: "undisturbed m m"
  by (simp add: undisturbed_def)

lemma undisturbed_trans [trans]: "undisturbed a b \<Longrightarrow> undisturbed b c \<Longrightarrow> undisturbed a c"
  by (simp add: undisturbed_def)

lemma undisturbedD:
  assumes "undisturbed m t"
  shows "owner t = owner m" "row_len t = row_len m" "cell t = cell m" "cells t = cells m"
    "runtime t = runtime m" "pending_of t = pending_of m" "tail_of t = tail_of m"
    "settled_at t = settled_at m" "pending_fits t = pending_fits m" "cache_block_size t = cache_block_size m"
    "caching t = caching m" "seq_id_to_prefix_blocks t = seq_id_to_prefix_blocks m"
proof -
  note U = assms [unfolded undisturbed_def]
  show a: "owner t = owner m" "row_len t = row_len m" "cell t = cell m"
    "runtime t = runtime m" "pending_of t = pending_of m" "cache_block_size t = cache_block_size m"
    "caching t = caching m" "seq_id_to_prefix_blocks t = seq_id_to_prefix_blocks m"
    using U by (simp_all add: fun_eq_iff owner_def row_len_def cell_def runtime_def pending_of_def)
  then show b: "cells t = cells m" "tail_of t = tail_of m" by (simp_all add: fun_eq_iff cells_def tail_of_def)
  with a show "settled_at t = settled_at m" "pending_fits t = pending_fits m"
    by (simp_all add: fun_eq_iff settled_at_def pending_fits_def)
qed

definition block_key :: "std_cache \<Rightarrow> nat \<Rightarrow> bytes option" where
  "block_key m r = map_option stable_block_id (block_at m r)"

definition held_ids :: "std_cache \<Rightarrow> int \<Rightarrow> bytes option set" where
  "held_ids m sid = block_key m ` set (held_blocks m sid)"

definition kept :: "std_cache \<Rightarrow> std_cache \<Rightarrow> bool" where
  "kept m t \<longleftrightarrow> undisturbed m t
     \<and> (\<forall>sid. get_list (seq_id_to_materialized_blocks t) sid = get_list (seq_id_to_materialized_blocks m) sid)
     \<and> seq_id_to_cached_ranges t = seq_id_to_cached_ranges m
     \<and> (\<forall>b sid. b \<in> set (held_blocks m sid) \<longrightarrow>
          block_slots t b = block_slots m b \<and> block_key t b = block_key m b)"

lemma kept_held: "kept m t \<Longrightarrow> held_blocks t sid = held_blocks m sid"
  by (simp add: kept_def undisturbed_def held_blocks_def)

lemma kept_refl [simp]: "kept m m"
  by (simp add: kept_def)

lemma kept_trans [trans]:
  assumes "kept a b" "kept b c"
  shows "kept a c"
  using assms kept_held [OF assms(1)] undisturbed_trans [of a b c] by (simp add: kept_def)

lemma kept_facts:
  assumes "kept m t"
  shows "undisturbed m t" "ranges_of t sid = ranges_of m sid" "attached t sid = attached m sid"
    "held_ids t sid = held_ids m sid"
proof -
  show u: "undisturbed m t" using assms by (simp add: kept_def)
  show "ranges_of t sid = ranges_of m sid" using assms by (simp add: kept_def ranges_of_def)
  have "block_slots t b = block_slots m b" if "b \<in> set (get_list (seq_id_to_prefix_blocks m) sid)" for b
    using assms that by (auto simp: kept_def held_blocks_def)
  then show "attached t sid = attached m sid"
    unfolding attached_def undisturbedD [OF u] by (intro arg_cong [where f = sum_list] map_cong) auto
  show "held_ids t sid = held_ids m sid"
    unfolding held_ids_def kept_held [OF assms] using assms by (intro image_cong) (auto simp: kept_def)
qed

text \<open>The blocks of a row still to be committed; nothing of the row above \<open>start\<close> is cached yet.\<close>

definition queued ::
    "std_cache \<Rightarrow> int \<Rightarrow> nat \<Rightarrow> int \<Rightarrow> int \<Rightarrow> int \<Rightarrow> int \<Rightarrow> pending_block list \<Rightarrow> bool" where
  "queued m sid row n hit start idx ps \<longleftrightarrow> owner m sid = Some row \<and> pending_of m sid = [] \<and> 0 \<le> start
     \<and> start + int (length ps) * cache_block_size m \<le> settled_at m n sid row
     \<and> (\<forall>(s, e)\<in>set (ranges_of m sid). e \<le> start)
     \<and> pending_fits m row start idx ps
     \<and> start = attached m sid + idx * cache_block_size m - hit"

lemma queuedD:
  assumes "queued m sid row n hit start idx ps"
  shows "owner m sid = Some row" "pending_of m sid = []" "0 \<le> start"
    "start + int (length ps) * cache_block_size m \<le> settled_at m n sid row"
    "\<forall>(s, e)\<in>set (ranges_of m sid). e \<le> start" "pending_fits m row start idx ps"
    "start = attached m sid + idx * cache_block_size m - hit"
  using assms unfolding queued_def by blast+

lemma queued_cong:
  assumes "queued m sid row n hit start idx ps" "undisturbed m t"
    "ranges_of t sid = ranges_of m sid" "attached t sid = attached m sid"
  shows "queued t sid row n hit start idx ps"
  using assms(1) unfolding queued_def undisturbedD [OF assms(2)] assms(3,4) .

lemma queued_kept: "queued m sid row n hit start idx ps \<Longrightarrow> kept m t \<Longrightarrow> queued t sid row n hit start idx ps"
  by (erule queued_cong) (rule kept_facts, assumption)+

section \<open>Changes of the index\<close>

lemma evicted_kept:
  assumes e: "evicted_to m t" and inv: "std_inv P G T t"
  shows "kept m t" "next_ref t = next_ref m"
proof -
  from e obtain pc st pa k where t: "t = m\<lparr>prefix_cache := pc, free_slots_stack := st, payload_at := pa, num_free := k\<rparr>"
    "(case (prefix_cache m, pc) of (None, None) \<Rightarrow> True
       | (Some ix, Some ix') \<Rightarrow> obj ix' = obj ix \<and> max_blocks ix' = max_blocks ix
           \<and> fingerprint ix' = fingerprint ix \<and> block_size ix' = block_size ix
           \<and> (\<forall>b r. get_block ix' b = Some r \<longrightarrow> get_block ix b = Some r)
       | _ \<Rightarrow> False)" "\<forall>r\<in>indexed t. pa r = payload_at m r"
    unfolding evicted_to_def by blast
  have pc: "pc \<noteq> None \<longleftrightarrow> prefix_cache m \<noteq> None" using t(2) by (auto split: option.splits)
  then have u: "undisturbed m t" by (simp add: undisturbed_def t(1) caching_def)
  have same: "held_blocks t sid = held_blocks m sid" for sid by (simp add: t(1) held_blocks_def)
  have "block_slots t b = block_slots m b \<and> block_key t b = block_key m b" if b: "b \<in> set (held_blocks m sid)" for b sid
  proof -
    have "set (held_blocks t sid) \<subseteq> indexed t" using std_invD(4) [OF inv] by (simp add: refs_ok_def)
    then have "b \<in> indexed t" using b same by auto
    then have "payload_at t b = payload_at m b" using t(1,3) by simp
    moreover have "block_at t b = block_at m b"
      using t(2) by (simp add: block_at_def t(1) split: option.splits)
    ultimately show ?thesis by (simp add: block_slots_def block_key_def)
  qed
  with u show "kept m t" by (simp add: kept_def t(1))
  show "next_ref t = next_ref m" by (simp add: t(1))
qed

text \<open>A write to the index that keeps keys and membership.\<close>

lemma index_kept:
  assumes inv: "std_inv P G T m" and ix: "prefix_cache m = Some ix"
    and same: "\<And>r. r \<in> indexed m \<Longrightarrow> stable_block_id (obj ix' r) = stable_block_id (obj ix r)"
  shows "kept m (m\<lparr>prefix_cache := Some ix'\<rparr>)"
proof -
  have "b \<in> indexed m" if "b \<in> set (held_blocks m sid)" for b sid
    using std_invD(4) [OF inv] that by (auto simp: refs_ok_def)
  then show ?thesis using ix same
    by (auto simp: kept_def undisturbed_def caching_def block_slots_def block_key_def block_at_def)
qed

lemma fresh_payload_inv:
  fixes p :: std_payload
  assumes inv: "std_inv P G T m"
  defines "t \<equiv> m\<lparr>next_ref := next_ref m + 1, payload_at := (payload_at m)(next_ref m := Some p)\<rparr>"
  shows "std_inv P G T t" "kept m t"
proof -
  note D = std_invD [OF inv]
  have lt: "b < next_ref m" if "b \<in> indexed m" for b using D(3) that by (auto simp: blocks_ok_def indexed_def)
  have pa: "payload_at t b = payload_at m b" if "b \<in> indexed m" for b using lt [OF that] by (simp add: t_def)
  then have bs: "block_slots t b = block_slots m b" if "b \<in> indexed m" for b using that by (simp add: block_slots_def)
  have hb: "b \<in> indexed m" if "b \<in> set (held_blocks m sid)" for b sid
    using D(4) that by (auto simp: refs_ok_def)
  have u: "undisturbed m t" by (simp add: undisturbed_def t_def caching_def)
  have held: "held_blocks t sid = held_blocks m sid" for sid by (simp add: t_def held_blocks_def)
  have own: "owner t = owner m" "owners t = owners m"
    using undisturbedD(1) [OF u] by (simp_all add: owners_def)
  have ind: "indexed t = indexed m" by (simp add: indexed_def t_def)
  have nr: "next_ref t = next_ref m + 1" "prefix_cache t = prefix_cache m"
    "enable_prefix_caching t = enable_prefix_caching m" "cache_block_size t = cache_block_size m"
    by (simp_all add: t_def)
  have "shapes_ok t" "rows_ok t" using D(1,2)
    by (simp_all add: t_def shapes_ok_def rows_ok_def stack_ok_def row_len_def)
  moreover have "blocks_ok t"
    using D(3) pa lt by (auto simp: blocks_ok_def ind nr less_SucI)
  moreover have "refs_ok P t" using D(4) by (simp add: refs_ok_def holders_def held own ind nr)
  moreover have "seqs_ok G T t"
    by (rule seqs_ok_cong [OF D(5)]) (use bs hb u held in \<open>auto simp: t_def caching_def\<close>)
  moreover have "all_slots t = mset (arange (num_kvcache_slots t))"
  proof -
    have "private_slots t s = private_slots m s" for s
      by (rule private_cong) (use undisturbedD(1-3) [OF u] in \<open>simp_all add: t_def ranges_of_def\<close>)
    then have "rows_part t = rows_part m" by (simp add: rows_part_def own)
    moreover have "free_part t = free_part m" "num_kvcache_slots t = num_kvcache_slots m"
      by (simp_all add: t_def free_part_def)
    ultimately have "all_slots t = mset (arange (num_kvcache_slots t))"
      using D(6) bs by (simp add: all_slots_def blocks_part_def ind)
    then show ?thesis .
  qed
  ultimately show "std_inv P G T t" by (simp add: std_inv_def)
  have "block_key t b = block_key m b" for b by (simp add: block_key_def block_at_def t_def)
  then show "kept m t" using u bs hb by (auto simp: kept_def t_def)
qed

text \<open>Creating a block object is invisible: its address is new.\<close>

lemma create_inv:
  assumes inv: "std_inv P G T m" and ix: "prefix_cache m = Some ix"
  shows "\<exists>ix1 t. create_block p m = (Inr (next_ref m), t) \<and> std_inv P G T t \<and> kept m t
    \<and> prefix_cache t = Some ix1 \<and> index_ok ix1 \<and> blocks ix1 = blocks ix \<and> max_blocks ix1 = max_blocks ix
    \<and> obj ix1 (next_ref m) = new_block (cache_block_size m) p (next_ref m)
    \<and> next_ref m \<notin> indexed t \<and> next_ref m < next_ref t \<and> payload_at t (next_ref m) = Some (pb_payload p)"
proof -
  let ?r = "next_ref m"
  define ix1 where "ix1 = upd_obj ?r (\<lambda>_. new_block (cache_block_size m) p ?r) ix"
  note D = std_invD [OF inv]
  have ok: "index_ok ix" using D(3) ix by (simp add: blocks_ok_def)
  have un: "?r \<notin> indexed m" using D(3) ix by (auto simp: blocks_ok_def)
  then have "get_block ix b \<noteq> Some ?r" for b using ix by (auto simp: indexed_iff)
  then have ok1: "index_ok ix1" using ok unindexed_write unfolding ix1_def by blast
  have f: "blocks ix1 = blocks ix" "max_blocks ix1 = max_blocks ix" "block_size ix1 = block_size ix"
    "obj ix1 ?r = new_block (cache_block_size m) p ?r" "\<And>x. x \<noteq> ?r \<Longrightarrow> obj ix1 x = obj ix x"
    by (simp_all add: ix1_def)
  have ob: "obj ix1 x = obj ix x" if "x \<in> indexed m" for x using that un f(5) by metis
  have "same_blocks ix ix1" using ok1 f(1,3) ob ix by (auto simp: same_blocks_def indexed_ran)
  then have inv1: "std_inv P G T (m\<lparr>prefix_cache := Some ix1\<rparr>)" by (rule same_blocks_inv [OF inv ix])
  have k1: "kept m (m\<lparr>prefix_cache := Some ix1\<rparr>)" by (rule index_kept [OF inv ix]) (simp add: ob)
  let ?m1 = "m\<lparr>prefix_cache := Some ix1\<rparr>"
  define t where "t = ?m1\<lparr>next_ref := next_ref ?m1 + 1, payload_at := (payload_at ?m1)(next_ref ?m1 \<mapsto> pb_payload p)\<rparr>"
  note F = fresh_payload_inv [OF inv1, of "pb_payload p", folded t_def]
  have "create_block p m = (Inr ?r, t)"
    by (simp add: create_block_def Let_def t_def ix ix1_def)
  moreover have "indexed t = indexed m" using f(1) ix by (simp add: indexed_def t_def)
  moreover have "prefix_cache t = Some ix1" "payload_at t ?r = Some (pb_payload p)" "?r < next_ref t"
    by (simp_all add: t_def)
  ultimately show ?thesis using F(1) kept_trans [OF k1 F(2)] ok1 f un by auto
qed

end
