(* ===== verification/Standard_Publish.thy ===== *)
theory Standard_Publish
  imports Standard_Commit
begin

text \<open>
  The commit of one pending block: duplicates only add a reference to the block already indexed,
  a new block takes over the slots of its range of the row.
\<close>

section \<open>Handing a reference to a sequence\<close>

lemma covers_mono: "covers m hs r rg \<Longrightarrow> set hs \<subseteq> set hs' \<Longrightarrow> covers m hs' r rg"
  by (auto simp: covers_def)

lemma layout_hold:
  assumes "layout_ok g n m sid r" and u: "undisturbed m t" and bs: "block_slots t = block_slots m"
    and held: "set (held_blocks m sid) \<subseteq> set (held_blocks t sid)" and rng: "ranges_of t sid = ranges_of m sid"
  shows "layout_ok g n t sid r"
proof -
  have "attached t sid = attached m sid" by (simp add: attached_def bs undisturbedD [OF u])
  moreover have "covers t (held_blocks t sid) r rg" if "covers m (held_blocks m sid) r rg" for rg
    using covers_mono [OF that held] by (simp add: covers_def bs undisturbedD [OF u])
  ultimately show ?thesis
    using assms(1) unfolding layout_ok_def undisturbedD [OF u] rng by auto
qed

theorem give_ref_inv:
  assumes inv: "std_inv (add_mset r P) G T m" and own: "owner m sid = Some row"
  shows "std_inv P G T (add_materialized sid r m)"
    "held_blocks (add_materialized sid r m) sid = held_blocks m sid @ [r]"
proof -
  let ?t = "add_materialized sid r m"
  note D = std_invD [OF inv]
  have u: "undisturbed m ?t" by (simp add: undisturbed_def add_materialized_def caching_def)
  have held: "held_blocks ?t s = held_blocks m s @ (if s = sid then [r] else [])" for s
    by (simp add: held_blocks_def add_materialized_def get_list_def)
  then show "held_blocks ?t sid = held_blocks m sid @ [r]" by simp
  have rng: "ranges_of ?t s = ranges_of m s" for s by (simp add: ranges_of_def add_materialized_def)
  have own_t: "owner ?t = owner m" "owners ?t = owners m" by (simp_all add: owners_def undisturbedD [OF u])
  have bs: "block_slots ?t = block_slots m" by (rule ext) (simp add: block_slots_def add_materialized_def)
  have ind: "indexed ?t = indexed m" by (simp add: indexed_def add_materialized_def)
  have so: "sid \<in> owners m" using own by (auto simp: owners_def)
  have same: "prefix_cache ?t = prefix_cache m" "enable_prefix_caching ?t = enable_prefix_caching m"
    "payload_at ?t = payload_at m" "next_ref ?t = next_ref m"
    by (simp_all add: add_materialized_def)
  have "shapes_ok ?t" "rows_ok ?t" using D(1,2)
    by (simp_all add: add_materialized_def shapes_ok_def rows_ok_def stack_ok_def row_len_def)
  moreover have "blocks_ok ?t" using D(3) by (simp add: blocks_ok_def ind same undisturbedD [OF u])
  moreover have "refs_ok P ?t"
  proof -
    have "holders ?t x = holders m x + (if x = r then 1 else 0)" for x
    proof -
      have "(\<Sum>s\<in>owners m - {sid}. count_list (held_blocks ?t s) x) = (\<Sum>s\<in>owners m - {sid}. count_list (held_blocks m s) x)"
        by (rule sum.cong) (auto simp: held)
      then show ?thesis using so by (simp add: holders_def own_t sum.remove held count_list_append)
    qed
    then show ?thesis using D(4) so by (auto simp: refs_ok_def same ind held own_t)
  qed
  moreover have "seqs_ok G T ?t"
  proof (rule seqs_okI)
    fix s assume "owner ?t s = None"
    then show "vacant ?t s" using seqs_okD(1) [OF D(5), of s]
      by (simp add: vacant_def rng undisturbedD [OF u])
  next
    fix s r' assume "owner ?t s = Some r'"
    then show "layout_ok (G s) (T s) ?t s r'" using seqs_okD(2) [OF D(5), of s r']
      by (intro layout_hold [OF _ u bs _ rng]) (simp_all add: own_t held)
  qed
  moreover have "all_slots ?t = mset (arange (num_kvcache_slots ?t))"
  proof -
    have "private_slots ?t s = private_slots m s" for s
      by (rule private_cong) (simp_all add: undisturbedD [OF u] rng)
    then have "rows_part ?t = rows_part m" by (simp add: rows_part_def own_t)
    moreover have "free_part ?t = free_part m" "num_kvcache_slots ?t = num_kvcache_slots m"
      by (simp_all add: add_materialized_def free_part_def)
    ultimately show ?thesis using D(6) by (simp add: all_slots_def blocks_part_def ind bs)
  qed
  ultimately show "std_inv P G T ?t" by (simp add: std_inv_def)
qed

lemma queued_hold:
  assumes "queued m sid row n hit start idx ps"
  shows "queued (add_materialized sid r m) sid row n hit start idx ps"
proof -
  let ?t = "add_materialized sid r m"
  have u: "undisturbed m ?t" by (simp add: undisturbed_def add_materialized_def caching_def)
  have bs: "block_slots ?t = block_slots m" by (rule ext) (simp add: block_slots_def add_materialized_def)
  show ?thesis
    by (rule queued_cong [OF assms u])
      (simp_all add: attached_def bs undisturbedD [OF u] ranges_of_def, simp add: add_materialized_def)
qed

text \<open>Adding a reference to a block of the index, unless the sequence holds the block already.\<close>

theorem hold_inv:
  assumes inv: "std_inv P G T m" and own: "owner m sid = Some row"
    and q: "queued m sid row n hit start idx ps" and r: "r \<in> indexed m"
  shows "\<exists>t. hold_materialized_prefix_block_ref sid r m = (Inr (), t) \<and> std_inv P G T t
    \<and> undisturbed m t \<and> queued t sid row n hit start idx ps
    \<and> held_ids t sid = insert (block_key m r) (held_ids m sid)"
proof (cases "\<exists>x\<in>set (held_blocks m sid). block_key m x = block_key m r")
  case True
  then have "hold_materialized_prefix_block_ref sid r m = (Inr (), m)"
    by (simp add: hold_materialized_prefix_block_ref_def block_key_def)
  moreover have "block_key m r \<in> held_ids m sid" using True unfolding held_ids_def by (metis imageI)
  ultimately show ?thesis using inv q by (intro exI [of _ m]) (auto simp: insert_absorb)
next
  case False
  obtain ix where ix: "prefix_cache m = Some ix" using r by (auto simp: indexed_def split: option.splits)
  from acquire_inv [OF inv ix, of "[r]"] r obtain ix1 where
    a: "forE (\<lambda>r. on_index (acquire_block_ref r)) [r] m = (Inr (), m\<lparr>prefix_cache := Some ix1\<rparr>)"
      "refs_added 1 [r] ix ix1" "std_inv (P + mset [r]) G T (m\<lparr>prefix_cache := Some ix1\<rparr>)" by auto
  define m1 where "m1 = m\<lparr>prefix_cache := Some ix1\<rparr>"
  have acq: "on_index (acquire_block_ref r) m = (Inr (), m1)"
    using a(1) by (simp add: m1_def bindE_run split: prod.splits sum.splits)
  have inv1: "std_inv (add_mset r P) G T m1" using a(3) by (simp add: m1_def)
  have k: "kept m m1" unfolding m1_def by (rule index_kept [OF inv ix]) (use a(2) in \<open>simp add: refs_added_def\<close>)
  have own1: "owner m1 sid = Some row" using own undisturbedD(1) [OF kept_facts(1) [OF k]] by simp
  let ?t = "add_materialized sid r m1"
  have "hold_materialized_prefix_block_ref sid r m = (Inr (), ?t)"
    using False ix acq by (simp add: hold_materialized_prefix_block_ref_def block_key_def bindE_run)
  moreover have "undisturbed m ?t"
    using kept_facts(1) [OF k] by (simp add: undisturbed_def add_materialized_def caching_def)
  moreover have "held_ids ?t sid = insert (block_key m r) (held_ids m sid)"
  proof -
    have "block_key ?t x = block_key m x" for x
      using a(2) ix by (simp add: block_key_def block_at_def add_materialized_def m1_def refs_added_def)
    then have "held_ids ?t sid = block_key m ` set (held_blocks m1 sid @ [r])"
      unfolding held_ids_def give_ref_inv(2) [OF inv1 own1] by simp
    then show ?thesis using kept_held [OF k] by (simp add: held_ids_def)
  qed
  ultimately show ?thesis
    using give_ref_inv(1) [OF inv1 own1] queued_hold [OF queued_kept [OF q k], of r] by blast
qed

section \<open>A new block takes its slots over\<close>

lemma filter_window:
  assumes "0 \<le> a" "a \<le> b" "b \<le> n"
  shows "filter (\<lambda>k. a \<le> k \<and> k < b) [0..n - 1] = [a..b - 1]"
proof -
  have "[0..n - 1] = [0..a - 1] @ [a..b - 1] @ [b..n - 1]"
    using assms upto_join [of 0 a "n - 1"] upto_join [of a b "n - 1"] by simp
  moreover have "filter (\<lambda>k. a \<le> k \<and> k < b) [0..a - 1] = []" "filter (\<lambda>k. a \<le> k \<and> k < b) [b..n - 1] = []"
    "filter (\<lambda>k. a \<le> k \<and> k < b) [a..b - 1] = [a..b - 1]"
    by (auto simp: filter_empty_conv filter_id_conv)
  ultimately show ?thesis by simp
qed

lemma private_split:
  assumes own: "owner m sid = Some row" "owner t sid = Some row" "row_len t = row_len m" "cell t = cell m"
    and rng: "ranges_of t sid = ranges_of m sid @ [(a, b)]" and ab: "0 \<le> a" "a \<le> b" "b \<le> row_len m row"
    and below: "\<forall>(s, e)\<in>set (ranges_of m sid). e \<le> a"
  shows "private_slots m sid = private_slots t sid + mset (cells m row a b)"
proof -
  let ?in = "\<lambda>k. a \<le> k \<and> k < b" and ?all = "[0..row_len m row - 1]" and ?old = "covered (ranges_of m sid)"
  have free: "\<not> ?old k" if "a \<le> k" for k
  proof
    assume "?old k"
    then obtain s e where "(s, e) \<in> set (ranges_of m sid)" "s \<le> k \<and> k < e" by (auto simp: covered_def)
    with below that show False by fastforce
  qed
  have "filter (\<lambda>k. \<not> ?old k \<and> ?in k) ?all = filter ?in ?all" by (rule filter_cong) (auto simp: free)
  then have window: "filter (\<lambda>k. \<not> ?old k \<and> ?in k) ?all = [a..b - 1]" using filter_window [OF ab] by simp
  have "mset (private_positions m sid row)
      = mset (filter (\<lambda>k. \<not> ?old k \<and> \<not> ?in k) ?all) + mset (filter (\<lambda>k. \<not> ?old k \<and> ?in k) ?all)"
    unfolding private_positions_def
    using multiset_partition [of "mset (filter (\<lambda>k. \<not> ?old k) ?all)" "\<lambda>k. \<not> ?in k"]
    by (simp add: conj_commute cong: filter_cong flip: mset_filter)
  also have "filter (\<lambda>k. \<not> ?old k \<and> \<not> ?in k) ?all = private_positions t sid row"
    unfolding private_positions_def by (rule filter_cong) (auto simp: own rng covered_def)
  finally show ?thesis using own by (simp add: private_slots_def window cells_def)
qed

lemma pending_fits_Cons:
  "pending_fits m row start idx (p # ps) \<longleftrightarrow>
     token_slots (pb_payload p) = Some (cells m row start (start + cache_block_size m))
     \<and> retained_offsets (pb_payload p) = None \<and> pb_logical_idx p = idx
     \<and> pending_fits m row (start + cache_block_size m) (idx + 1) ps"
proof -
  have "(\<forall>i < length (p # ps). Q i) \<longleftrightarrow> Q 0 \<and> (\<forall>i < length ps. Q (Suc i))" for Q
    using All_less_Suc2 [of "length ps" Q] by simp
  then show ?thesis by (simp add: pending_fits_def Let_def algebra_simps)
qed

theorem new_block_inv:
  assumes inv: "std_inv P G T m" and q: "queued m sid row (T sid) hit start idx (p # ps)"
    and ix: "prefix_cache m = Some ix" and r: "r \<notin> indexed m" "r < next_ref m" "payload_at m r = Some (pb_payload p)"
    and new: "get_block ix key = None"
    and ix': "index_ok ix'" "block_size ix' = block_size ix" "blocks ix' = dict_set key r (blocks ix)"
      "payload (obj ix' r) = r" "residency (obj ix' r) = default_residency" "ref_count (obj ix' r) = 1"
      "\<And>x. x \<noteq> r \<Longrightarrow> obj ix' x = obj ix x"
  defines "bs \<equiv> cache_block_size m"
  defines "u \<equiv> m\<lparr>prefix_cache := Some ix',
      seq_id_to_materialized_blocks := dict_set sid (get_list (seq_id_to_materialized_blocks m) sid @ [r])
        (seq_id_to_materialized_blocks m),
      seq_id_to_cached_ranges := dict_set sid (ranges_of m sid @ [(start, start + bs)]) (seq_id_to_cached_ranges m)\<rparr>"
  shows "std_inv P G T u" "queued u sid row (T sid) hit (start + bs) (idx + 1) ps"
    "undisturbed m u" "held_blocks u sid = held_blocks m sid @ [r]"
proof -
  note D = std_invD [OF inv]
  have own: "owner m sid = Some row" using q by (simp add: queued_def)
  have bs0: "0 < bs" using D(3) ix index_okD(1) by (fastforce simp: blocks_ok_def bs_def)
  have u: "undisturbed m u" using ix by (simp add: undisturbed_def u_def caching_def)
  then show "undisturbed m u" .
  note U = undisturbedD [OF u]
  have held: "held_blocks u s = held_blocks m s @ (if s = sid then [r] else [])" for s
    by (simp add: held_blocks_def u_def get_list_def)
  then show "held_blocks u sid = held_blocks m sid @ [r]" by simp
  have rng: "ranges_of u s = (if s = sid then ranges_of m sid @ [(start, start + bs)] else ranges_of m s)" for s
    by (simp add: ranges_of_def u_def get_list_def)
  have bsl: "block_slots u = block_slots m" by (rule ext) (simp add: block_slots_def u_def)
  have owns: "owners u = owners m" by (simp add: owners_def U)
  have so: "sid \<in> owners m" using own by (auto simp: owners_def)
  have gb: "get_block ix' = (get_block ix)(key \<mapsto> r)" using ix'(3) by (simp add: fun_eq_iff)
  have ind: "indexed u = insert r (indexed m)" using gb new ix by (simp add: u_def indexed_def ran_map_upd)
  have same: "prefix_cache u = Some ix'" "enable_prefix_caching u = enable_prefix_caching m"
    "payload_at u = payload_at m" "next_ref u = next_ref m" "num_kvcache_slots u = num_kvcache_slots m"
    by (simp_all add: u_def)
  have old: "obj ix' x = obj ix x" if "x \<in> indexed m" for x using that r(1) ix'(7) by metis
  have "pending_fits m row start idx (p # ps)" using q unfolding queued_def by blast
  note fit = this [unfolded pending_fits_Cons, folded bs_def]
  have br: "block_slots m r = cells m row start (start + bs)" using fit r(3) by (simp add: block_slots_def)
  have top: "start + bs + int (length ps) * bs \<le> settled_at m (T sid) sid row" "0 \<le> start"
    using q by (simp_all add: queued_def bs_def algebra_simps)
  have "0 \<le> int (length ps) * bs" using bs0 by simp
  then have top': "start + bs \<le> settled_at m (T sid) sid row" using top by linarith
  have lay: "layout_ok (G sid) (T sid) m sid row" by (rule seqs_okD(2) [OF D(5) own])
  have att: "attached u s = attached m s" for s by (simp add: attached_def bsl U)
  have cov: "covers u (held_blocks u s) r' rg" if "covers m (held_blocks m s) r' rg" for s r' rg
  proof -
    have "set (held_blocks m s) \<subseteq> set (held_blocks u s)" by (auto simp: held)
    from covers_mono [OF that this] show ?thesis by (simp add: covers_def bsl U)
  qed
  have "shapes_ok u" "rows_ok u" using D(1,2)
    by (simp_all add: u_def shapes_ok_def rows_ok_def stack_ok_def row_len_def)
  moreover have "blocks_ok u"
  proof -
    have "b < next_ref u \<and> payload (obj ix' b) = b \<and> residency (obj ix' b) = default_residency
        \<and> (\<exists>p xs. payload_at u b = Some p \<and> token_slots p = Some xs
             \<and> int (length xs) = resident_tokens bs p \<and> int (length xs) \<le> bs)" if "b \<in> indexed u" for b
    proof (cases "b = r")
      case True
      then show ?thesis using r ix' fit bs0 by (simp add: same resident_tokens_def)
    next
      case False
      then have b: "b \<in> indexed m" using that ind by simp
      then show ?thesis using D(3) ix old [OF b] by (auto simp: blocks_ok_def same bs_def)
    qed
    then show ?thesis using D(3) ix ix'(1,2) by (auto simp: blocks_ok_def same U bs_def)
  qed
  moreover have "refs_ok P u"
  proof -
    have H: "holders u x = holders m x + (if x = r then 1 else 0)" for x
    proof -
      have "(\<Sum>s\<in>owners m - {sid}. count_list (held_blocks u s) x) = (\<Sum>s\<in>owners m - {sid}. count_list (held_blocks m s) x)"
        by (rule sum.cong) (auto simp: held)
      then show ?thesis using so by (simp add: holders_def owns sum.remove held count_list_append)
    qed
    have sub: "set (held_blocks m s) \<subseteq> indexed m" for s using D(4) by (simp add: refs_ok_def)
    then have "holders m r = 0" using r(1) by (auto simp: holders_def count_list_0_iff)
    moreover have "count P r = 0" using D(4) r(1) by (auto simp: refs_ok_def not_in_iff [symmetric])
    ultimately have "ref_count (obj ix' x) = int (holders u x + count P x)" if "x \<in> indexed u" for x
      using that D(4) ix ix'(6) old [of x] r(1) by (auto simp: refs_ok_def ind H)
    then show ?thesis using D(4) so sub by (auto simp: refs_ok_def same ind held owns)
  qed
  moreover have "seqs_ok G T u"
  proof (rule seqs_okI)
    fix s assume "owner u s = None"
    then have "owner m s = None" "s \<noteq> sid" using own by (auto simp: U)
    then show "vacant u s" using seqs_okD(1) [OF D(5), of s] by (simp add: vacant_def rng U)
  next
    fix s r' assume "owner u s = Some r'"
    then have o: "owner m s = Some r'" by (simp add: U)
    note L = seqs_okD(2) [OF D(5) o]
    show "layout_ok (G s) (T s) u s r'"
    proof (cases "s = sid")
      case False
      show ?thesis by (rule layout_hold [OF L u bsl]) (use False in \<open>simp_all add: held rng\<close>)
    next
      case True
      then have r': "r' = row" using o own by simp
      have "covers u (held_blocks u sid) row (start, start + bs)" using br by (auto simp: covers_def held bsl U)
      then show ?thesis
        using lay cov top' top(2) bs0 unfolding True r' layout_ok_def U att by (auto simp: rng)
    qed
  qed
  moreover have "all_slots u = mset (arange (num_kvcache_slots u))"
  proof -
    have "private_slots m sid = private_slots u sid + mset (cells m row start (start + bs))"
      by (rule private_split [of m sid row u start "start + bs"])
        (use own q top' top(2) bs0 layout_settled(1) [OF lay] in \<open>auto simp: U rng queued_def\<close>)
    moreover have "private_slots u s = private_slots m s" if "s \<noteq> sid" for s
      by (rule private_cong) (use that in \<open>simp_all add: U rng\<close>)
    then have "(\<Sum>s\<in>owners m - {sid}. private_slots u s) = (\<Sum>s\<in>owners m - {sid}. private_slots m s)"
      by (intro sum.cong) auto
    ultimately have "rows_part m = rows_part u + mset (cells m row start (start + bs))"
      using rows_part_remove [OF so] rows_part_remove [of sid u] so by (simp add: owns)
    moreover have "blocks_part u = blocks_part m + mset (cells m row start (start + bs))"
      using r(1) by (simp add: blocks_part_def ind bsl br)
    moreover have "free_part u = free_part m" by (simp add: free_part_def u_def)
    ultimately show ?thesis using D(6) by (simp add: all_slots_def same union_ac)
  qed
  ultimately show "std_inv P G T u" by (simp add: std_inv_def)
  have "(s, e) \<in> set (ranges_of m sid) \<Longrightarrow> e \<le> start" for s e using q by (auto simp: queued_def)
  then have "\<forall>(s, e)\<in>set (ranges_of u sid). e \<le> start + bs" using bs0 by (fastforce simp: rng)
  moreover have "start = attached m sid + idx * bs - hit" using q by (simp add: queued_def bs_def)
  moreover have "pending_of m sid = []" using q by (simp add: queued_def)
  moreover have "start + bs = attached m sid + (idx + 1) * bs - hit"
    using \<open>start = attached m sid + idx * bs - hit\<close> by (simp add: algebra_simps)
  moreover have "0 \<le> start + bs" using top(2) bs0 by simp
  ultimately show "queued u sid row (T sid) hit (start + bs) (idx + 1) ps"
    unfolding queued_def U att bs_def [symmetric] using own top(1) fit by blast
qed

end
