(* ===== verification/Standard_Forward_End.thy ===== *)
theory Standard_Forward_End
  imports Standard_Publish
begin

text \<open>
  \<open>on_forward_end\<close>: the pending blocks of every sequence of the batch are committed while the
  blocks they extend are protected from eviction by references of their own.
\<close>

section \<open>Inserting into the index\<close>

lemma insert_block_size: "block_size (snd (insert_block r s)) = block_size s"
  by (auto simp: insert_block_def Let_def tick_def bindE_def on_backend_def record_routing_insert_def
      count_up_def mark_inserted_def mark_capacity_mutated_def mark_mutated_def evictable_block_ids_def
      modifyE_def split: sum.split prod.split option.split)

lemma insert_unindexed:
  assumes ok: "index_ok s" and res: "residency (obj s r) = default_residency" and rc: "0 \<le> ref_count (obj s r)"
    and un: "r \<notin> ran (get_block s)"
  obtains (known) x t where "insert_block r s = (Inr x, t)" "get_block s (stable_block_id (obj s r)) = Some x"
      "same_blocks s t" "\<forall>y. stable_block_id (obj t y) = stable_block_id (obj s y)"
  | (refused) e t where "insert_block r s = (Inl e, t)" "same_blocks s t"
  | (fresh) t where "insert_block r s = (Inr r, t)" "get_block s (stable_block_id (obj s r)) = None"
      "index_ok t" "block_size t = block_size s" "blocks t = dict_set (stable_block_id (obj s r)) r (blocks s)"
      "\<forall>y. y \<noteq> r \<longrightarrow> obj t y = obj s y" "payload (obj t r) = payload (obj s r)"
      "residency (obj t r) = default_residency" "ref_count (obj t r) = ref_count (obj s r)"
      "stable_block_id (obj t r) = stable_block_id (obj s r)" "logical_block_idx (obj t r) = logical_block_idx (obj s r)"
proof -
  let ?key = "stable_block_id (obj s r)"
  have v: "validate (residency (obj s r)) = Inr ()" by (simp add: res default_residency_def validate_def)
  have okt: "index_ok (snd (insert_block r s))" by (rule insert_block_ok [OF ok rc])
  show thesis
  proof (cases "get_block s ?key")
    case (Some x)
    then show thesis using v okt by (intro known) (auto simp: insert_block_def Let_def tick_def same_blocks_def)
  next
    case None
    show thesis
    proof (cases "\<exists>k. max_blocks s = Some k \<and> k \<le> int (length (blocks s))")
      case True
      let ?t = "snd (evictable_block_ids s)"
      have "blocks ?t = blocks s" "obj ?t = obj s" "block_size ?t = block_size s"
        by (simp_all add: evictable_block_ids_def Let_def)
      then have "same_blocks s ?t" using ok by (simp add: same_blocks_def)
      moreover have "\<exists>e. insert_block r s = (Inl e, ?t)"
        using v None True by (auto simp: insert_block_def Let_def)
      ultimately show thesis using refused by blast
    next
      case cap: False
      show thesis
      proof (cases "insert_admissible s (obj s r)")
        case (Inl e)
        then show thesis using v None cap ok
          by (intro refused [of e s]) (auto simp: insert_block_def Let_def same_blocks_def not_le split: option.splits)
      next
        case (Inr y)
        then have a: "insert_admissible s (obj s r) = Inr ()" by simp
        have c: "int (length (blocks s)) < k" if "max_blocks s = Some k" for k using cap that by force
        from insert_block_run [OF ok None v rc c a] obtain t where
          t: "insert_block r s = (Inr r, t)" "index_ok t" "blocks t = dict_set ?key r (blocks s)"
            "obj t = (obj s)(r := (obj s r)\<lparr>last_access := clock s + 1\<rparr>)" by blast
        have "block_size t = block_size s" using insert_block_size [of r s] t(1) by simp
        then show thesis using t None res by (intro fresh [of t]) auto
      qed
    qed
  qed
qed

section \<open>Marking the range of a new block\<close>

lemma attached_resident_run:
  assumes inv: "std_inv P G T m"
  shows "attached_resident m sid = Inr (attached m sid)"
proof -
  note D = std_invD [OF inv]
  have "\<exists>ps. mapE (standard_payload m) rs = Inr ps
      \<and> sum_list (map (resident_tokens (cache_block_size m)) ps) = (\<Sum>r\<leftarrow>rs. int (length (block_slots m r)))"
    if "set rs \<subseteq> indexed m" for rs
    using that
  proof (induction rs)
    case (Cons r rs)
    from Cons.prems have "r \<in> indexed m" by simp
    from block_of_indexed [OF D(3) this] obtain p where
      "payload_of m r = Some p" "int (length (block_slots m r)) = resident_tokens (cache_block_size m) p" by metis
    with Cons show ?case by (auto simp: standard_payload_def)
  qed simp
  moreover have "set (get_list (seq_id_to_prefix_blocks m) sid) \<subseteq> indexed m"
    using D(4) by (auto simp: refs_ok_def held_blocks_def)
  ultimately show ?thesis by (fastforce simp: attached_resident_def attached_def)
qed

section \<open>One pending block\<close>

lemma queued_skip:
  assumes "queued m sid row n hit start idx (p # ps)" "0 < cache_block_size m"
  shows "queued m sid row n hit (start + cache_block_size m) (idx + 1) ps"
proof -
  note q = queuedD [OF assms(1)]
  have "\<forall>(s, e)\<in>set (ranges_of m sid). e \<le> start + cache_block_size m" using q(5) assms(2) by fastforce
  moreover have "start + cache_block_size m + int (length ps) * cache_block_size m \<le> settled_at m n sid row"
    "start + cache_block_size m = attached m sid + (idx + 1) * cache_block_size m - hit"
    "0 \<le> start + cache_block_size m"
    using q(3,4,7) assms(2) by (simp_all add: algebra_simps)
  moreover have "pending_fits m row (start + cache_block_size m) (idx + 1) ps" using q(6) unfolding pending_fits_Cons by blast
  ultimately show ?thesis unfolding queued_def using q(1,2) by blast
qed

theorem commit_block_inv:
  assumes inv: "std_inv P G T m" and q: "queued m (seq_id q) row (T (seq_id q)) (prefix_cache_hit_len q) start idx (p # ps)"
    and c: "caching m"
  shows "\<exists>x t. commit_block q p m = (x, t) \<and> std_inv P G T t \<and> undisturbed m t
    \<and> (x = Inr () \<longrightarrow>
        queued t (seq_id q) row (T (seq_id q)) (prefix_cache_hit_len q) (start + cache_block_size m) (idx + 1) ps
        \<and> held_ids t (seq_id q) = insert (Some (pb_block_id p)) (held_ids m (seq_id q)))"
proof -
  let ?sid = "seq_id q" and ?n = "T (seq_id q)" and ?hit = "prefix_cache_hit_len q"
  let ?make = "\<lambda>m. if index_has m (pb_block_id p) then (Inr (), m) else evict_prefix_cache_for_insert 1 m"
  have "\<exists>x t. ?make m = (x, t) \<and> std_inv P G T t \<and> kept m t"
  proof (cases "index_has m (pb_block_id p)")
    case True
    then show ?thesis using inv by simp
  next
    case False
    then show ?thesis using evict_for_insert_inv [OF inv] evicted_kept(1) by auto
  qed
  then obtain x0 m0 where e: "?make m = (x0, m0)" "std_inv P G T m0" "kept m m0" by blast
  note k0 = kept_facts [OF e(3)]
  show ?thesis
  proof (cases x0)
    case (Inl err)
    then have "commit_block q p m = (Inl err, m0)" using e(1) by (simp add: commit_block_def bindE_run)
    then show ?thesis using e(2) k0(1) by blast
  next
    case (Inr y)
    then have run0: "commit_block q p m = bindE (create_block p) (\<lambda>r.
        bindE (on_index (insert_block r)) (\<lambda>inserted.
          if inserted \<noteq> r then hold_materialized_prefix_block_ref ?sid inserted
          else bindE (modifyE (add_materialized ?sid inserted)) (\<lambda>_.
             mark_materialized_prefix_block q inserted))) m0"
      using e(1) by (simp add: commit_block_def bindE_run)
    have "caching m0" using c undisturbedD [OF k0(1)] by simp
    then obtain ix0 where ix0: "prefix_cache m0 = Some ix0" by (auto simp: caching_def)
    let ?r = "next_ref m0"
    from create_inv [OF e(2) ix0] obtain ix1 m1 where
      c1: "create_block p m0 = (Inr ?r, m1)" "std_inv P G T m1" "kept m0 m1"
        "prefix_cache m1 = Some ix1" "index_ok ix1"
        "obj ix1 ?r = new_block (cache_block_size m0) p ?r"
        "?r \<notin> indexed m1" "?r < next_ref m1" "payload_at m1 ?r = Some (pb_payload p)" by blast
    have k1: "kept m m1" using kept_trans [OF e(3) c1(3)] .
    note K1 = kept_facts [OF k1] undisturbedD [OF kept_facts(1) [OF k1]]
    have q1: "queued m1 ?sid row ?n ?hit start idx (p # ps)" by (rule queued_kept [OF q k1])
    have bs: "cache_block_size m1 = cache_block_size m" "0 < cache_block_size m"
      using layout_bs [OF std_invD(3) [OF inv] c] K1 by auto
    have own1: "owner m1 ?sid = Some row" using q1 by (simp add: queued_def)
    have ob: "residency (obj ix1 ?r) = default_residency" "ref_count (obj ix1 ?r) = 1"
      "stable_block_id (obj ix1 ?r) = pb_block_id p" "payload (obj ix1 ?r) = ?r"
      "logical_block_idx (obj ix1 ?r) = pb_logical_idx p"
      by (simp_all add: c1(6) new_block_def)
    have un: "?r \<notin> ran (get_block ix1)" using c1(4,7) by (simp add: indexed_ran)
    have run1: "commit_block q p m = bindE (on_index (insert_block ?r)) (\<lambda>inserted.
          if inserted \<noteq> ?r then hold_materialized_prefix_block_ref ?sid inserted
          else bindE (modifyE (add_materialized ?sid inserted)) (\<lambda>_.
             mark_materialized_prefix_block q inserted)) m1"
      using run0 c1(1) by (simp add: bindE_run)
    have "0 \<le> ref_count (obj ix1 ?r)" by (simp add: ob)
    from c1(5) ob(1) this un show ?thesis
    proof (cases rule: insert_unindexed)
      case (refused err ix2)
      then have "commit_block q p m = (Inl err, m1\<lparr>prefix_cache := Some ix2\<rparr>)"
        using run1 c1(4) by (simp add: bindE_run on_index_def)
      moreover have "std_inv P G T (m1\<lparr>prefix_cache := Some ix2\<rparr>)" by (rule same_blocks_inv [OF c1(2,4) refused(2)])
      moreover have "undisturbed m (m1\<lparr>prefix_cache := Some ix2\<rparr>)"
        using K1(1) c1(4) by (simp add: undisturbed_def caching_def)
      ultimately show ?thesis by blast
    next
      case (known x ix2)
      let ?m2 = "m1\<lparr>prefix_cache := Some ix2\<rparr>"
      have inv2: "std_inv P G T ?m2" by (rule same_blocks_inv [OF c1(2,4) known(3)])
      have k2: "kept m1 ?m2" by (rule index_kept [OF c1(2,4)]) (use known(4) in simp)
      have "x \<noteq> ?r" using known(2) un by (auto simp: ran_def)
      then have run2: "commit_block q p m = hold_materialized_prefix_block_ref ?sid x ?m2"
        using run1 c1(4) known(1) by (simp add: bindE_run on_index_def)
      have "get_block ix2 (pb_block_id p) = Some x" using known(2,3) ob(3) by (simp add: same_blocks_def)
      then have x: "x \<in> indexed ?m2" by (auto simp: indexed_def ran_def)
      have key: "block_key ?m2 x = Some (pb_block_id p)"
        using known(2,4) index_okD(6) [OF c1(5)] ob(3) by (simp add: block_key_def block_at_def)
      have q2: "queued ?m2 ?sid row ?n ?hit (start + cache_block_size m) (idx + 1) ps"
        using queued_kept [OF queued_skip [OF q1] k2] bs by simp
      have own2: "owner ?m2 ?sid = Some row" using own1 by (simp add: owner_def)
      from hold_inv [OF inv2 own2 q2 x] obtain t where
        t: "hold_materialized_prefix_block_ref ?sid x ?m2 = (Inr (), t)" "std_inv P G T t" "undisturbed ?m2 t"
          "queued t ?sid row ?n ?hit (start + cache_block_size m) (idx + 1) ps"
          "held_ids t ?sid = insert (Some (pb_block_id p)) (held_ids ?m2 ?sid)" unfolding key by blast
      have "undisturbed m t" using K1(1) kept_facts(1) [OF k2] t(3) undisturbed_trans by blast
      moreover have "held_ids ?m2 ?sid = held_ids m ?sid" using kept_facts(4) [OF k2] K1(4) by simp
      ultimately show ?thesis using run2 t by simp
    next
      case (fresh ix2)
      let ?old = "ranges_of m1 ?sid" and ?bs = "cache_block_size m1"
      let ?m3 = "add_materialized ?sid ?r (m1\<lparr>prefix_cache := Some ix2\<rparr>)"
      define u where "u = m1\<lparr>prefix_cache := Some ix2,
        seq_id_to_materialized_blocks := dict_set ?sid (get_list (seq_id_to_materialized_blocks m1) ?sid @ [?r])
          (seq_id_to_materialized_blocks m1),
        seq_id_to_cached_ranges := dict_set ?sid (?old @ [(start, start + ?bs)]) (seq_id_to_cached_ranges m1)\<rparr>"
      note N = new_block_inv [OF c1(2) q1 c1(4,7,8,9) fresh(2,3,4,5) fresh(7) [unfolded ob(4)] fresh(8)
          fresh(9) [unfolded ob(2)] fresh(6) [rule_format], folded u_def]
      have run2: "commit_block q p m = mark_materialized_prefix_block q ?r ?m3"
        using run1 c1(4) fresh(1) by (simp add: bindE_run on_index_def)
      have key2: "block_key u x = block_key m1 x" if "x \<noteq> ?r" for x
        using fresh(6) that c1(4) by (simp add: block_key_def block_at_def u_def)
      note pf = queuedD(6) [OF q1]
      have start: "0 \<le> start" "start = attached m1 ?sid + idx * ?bs - ?hit"
        "start + ?bs = attached u ?sid + (idx + 1) * ?bs - ?hit"
        using queuedD(3,7) [OF q1] queuedD(7) [OF N(2)] undisturbedD(10) [OF N(3)] by simp_all
      have idx: "pb_logical_idx p = idx" using pf unfolding pending_fits_Cons by blast
      have att: "attached u ?sid = attached m1 ?sid" using start by (simp add: algebra_simps)
      let ?m4 = "?m3\<lparr>seq_id_to_cached_ranges := dict_set ?sid ?old (seq_id_to_cached_ranges m1)\<rparr>"
      have sp: "standard_payload ?m4 = standard_payload u"
        by (rule ext) (simp add: standard_payload_def payload_of_def block_at_def u_def add_materialized_def
            split: option.split)
      have "attached_resident ?m4 ?sid = attached_resident u ?sid"
        unfolding attached_resident_def sp by (simp add: u_def add_materialized_def)
      then have ar: "attached_resident ?m4 ?sid = Inr (attached m1 ?sid)"
        using attached_resident_run [OF N(1)] att by simp
      have bl: "logical_block_idx (obj ix2 ?r) = idx" using fresh(11) ob(5) idx by simp
      have "mark_materialized_prefix_block q ?r ?m3 = (Inr (), u)"
        using ar start(1) bl start(2) [symmetric]
        by (simp add: mark_materialized_prefix_block_def Let_def ranges_of_def add_materialized_def
            block_at_def u_def)
      moreover have "held_ids u ?sid = insert (Some (pb_block_id p)) (held_ids m ?sid)"
      proof -
        have "?r \<notin> set (held_blocks m1 ?sid)" using std_invD(4) [OF c1(2)] c1(7) by (auto simp: refs_ok_def)
        then have "block_key u ` set (held_blocks m1 ?sid) = block_key m1 ` set (held_blocks m1 ?sid)"
          using key2 by (metis (no_types, lifting) image_cong)
        moreover have "block_key u ?r = Some (pb_block_id p)"
          using fresh(10) ob(3) by (simp add: block_key_def block_at_def u_def)
        ultimately have "held_ids u ?sid = insert (Some (pb_block_id p)) (held_ids m1 ?sid)"
          unfolding held_ids_def using N(4) by simp
        then show ?thesis using K1(4) by simp
      qed
      ultimately show ?thesis
        using run2 N(1,2) undisturbed_trans [OF K1(1) N(3)] bs by simp
    qed
  qed
qed

lemma commit_all_inv:
  assumes "std_inv P G T m" "queued m (seq_id q) row (T (seq_id q)) (prefix_cache_hit_len q) start idx ps" "caching m"
  shows "\<exists>x t. forE (commit_block q) ps m = (x, t) \<and> std_inv P G T t \<and> undisturbed m t
    \<and> (x = Inr () \<longrightarrow> held_ids t (seq_id q) = held_ids m (seq_id q) \<union> (Some \<circ> pb_block_id) ` set ps)"
  using assms
proof (induction ps arbitrary: m start idx)
  case Nil
  then show ?case by simp
next
  case (Cons p ps)
  from commit_block_inv [OF Cons.prems] obtain x t where
    t: "commit_block q p m = (x, t)" "std_inv P G T t" "undisturbed m t"
      "x = Inr () \<Longrightarrow> queued t (seq_id q) row (T (seq_id q)) (prefix_cache_hit_len q)
          (start + cache_block_size m) (idx + 1) ps"
      "x = Inr () \<Longrightarrow> held_ids t (seq_id q) = insert (Some (pb_block_id p)) (held_ids m (seq_id q))" by blast
  show ?case
  proof (cases x)
    case (Inl e)
    then show ?thesis using t(1-3) by (simp add: bindE_run)
  next
    case (Inr y)
    have "caching t" using Cons.prems(3) undisturbedD [OF t(3)] by simp
    from Cons.IH [OF t(2) t(4) this] Inr obtain x' t' where
      t': "forE (commit_block q) ps t = (x', t')" "std_inv P G T t'" "undisturbed t t'"
        "x' = Inr () \<longrightarrow> held_ids t' (seq_id q) = held_ids t (seq_id q) \<union> (Some \<circ> pb_block_id) ` set ps" by auto
    then show ?thesis using t(1,5) Inr undisturbed_trans [OF t(3) t'(3)] by (auto simp: bindE_run)
  qed
qed

section \<open>Protecting the blocks the commit extends\<close>

lemma protect_inv:
  assumes "std_inv P G T m"
  shows "\<exists>rs t. protect bs m = (Inr rs, t) \<and> std_inv (P + mset rs) G T t \<and> kept m t"
  using assms
proof (induction bs arbitrary: P m)
  case Nil
  then show ?case by simp
next
  case (Cons b bs)
  show ?case
  proof (cases "case prefix_cache m of None \<Rightarrow> None | Some ix \<Rightarrow> get_block ix b")
    case None
    from Cons.IH [OF Cons.prems] show ?thesis unfolding protect.simps None by simp
  next
    case (Some r)
    then obtain ix where ix: "prefix_cache m = Some ix" "get_block ix b = Some r" by (auto split: option.splits)
    then have "set [r] \<subseteq> indexed m" by (auto simp: indexed_def ran_def)
    from acquire_inv [OF Cons.prems ix(1) this] obtain ix1 where
      a: "forE (\<lambda>r. on_index (acquire_block_ref r)) [r] m = (Inr (), m\<lparr>prefix_cache := Some ix1\<rparr>)"
        "refs_added 1 [r] ix ix1" "std_inv (P + mset [r]) G T (m\<lparr>prefix_cache := Some ix1\<rparr>)" by blast
    have acq: "on_index (acquire_block_ref r) m = (Inr (), m\<lparr>prefix_cache := Some ix1\<rparr>)"
      using a(1) by (simp add: bindE_run split: prod.splits sum.splits)
    have k: "kept m (m\<lparr>prefix_cache := Some ix1\<rparr>)"
      by (rule index_kept [OF Cons.prems ix(1)]) (use a(2) in \<open>simp add: refs_added_def\<close>)
    from Cons.IH [OF a(3)] obtain rs t where
      "protect bs (m\<lparr>prefix_cache := Some ix1\<rparr>) = (Inr rs, t)" "std_inv (P + mset [r] + mset rs) G T t"
      "kept (m\<lparr>prefix_cache := Some ix1\<rparr>) t" by blast
    with acq kept_trans [OF k] show ?thesis unfolding protect.simps Some by (auto simp: add_ac)
  qed
qed

section \<open>The pending blocks of one sequence\<close>

lemma layout_drop_pending:
  assumes ok: "layout_ok g n m sid r" and u: "owner t = owner m" "row_len t = row_len m" "cell t = cell m"
      "held_blocks t sid = held_blocks m sid" "ranges_of t sid = ranges_of m sid" "runtime t = runtime m"
      "attached t sid = attached m sid" "cache_block_size t = cache_block_size m" "caching t = caching m"
      "block_slots t = block_slots m"
    and none: "pending_of t sid = []"
  shows "layout_ok g n t sid r"
    and "pending_of m sid \<noteq> [] \<Longrightarrow>
      settled_at t n sid r = settled_at m n sid r + int (length (pending_of m sid)) * cache_block_size m"
proof -
  have same: "cells t = cells m" "tail_of t = tail_of m" "covers t = covers m"
    by (intro ext, simp add: cells_def tail_of_def covers_def u)+
  note D = ok [unfolded layout_ok_def]
  have set: "settled_at t n sid r = settled_at m n sid r + int (length (pending_of m sid)) * cache_block_size m"
    by (simp add: settled_at_def same u none)
  then show "pending_of m sid \<noteq> [] \<Longrightarrow>
      settled_at t n sid r = settled_at m n sid r + int (length (pending_of m sid)) * cache_block_size m" .
  have "pending_of m sid = [] \<or> 0 \<le> cache_block_size m" using D by (cases "runtime m sid") force+
  then have le: "settled_at m n sid r \<le> settled_at t n sid r" unfolding set by auto
  have "\<forall>(s, e)\<in>set (ranges_of m sid). 0 \<le> s \<and> s < e \<and> e \<le> settled_at m n sid r" using D by blast
  then have "\<forall>(s, e)\<in>set (ranges_of m sid). 0 \<le> s \<and> s < e \<and> e \<le> settled_at t n sid r" using le by fastforce
  moreover have "0 \<le> n" "0 \<le> settled_at t n sid r" using D le by auto
  moreover have "\<forall>rg\<in>set (ranges_of m sid). covers m (held_blocks m sid) r rg"
    "tail_of m sid = cells m r (row_len m r - n - int (length (tail_of m sid))) (row_len m r - n)"
    using D by blast+
  moreover have "runtime m sid = None \<longrightarrow> (caching m \<and> recorded g \<longrightarrow> settled_at t n sid r = attached m sid)"
    using D set by auto
  ultimately show "layout_ok g n t sid r"
    unfolding layout_ok_def same u none using D by (simp add: set pending_fits_def)
qed

lemma drop_pending_inv:
  fixes sid :: int
  assumes inv: "std_inv P G T m"
  defines "t \<equiv> m\<lparr>pending_prefix_blocks := dict_del sid (pending_prefix_blocks m)\<rparr>"
  shows "std_inv P G T t"
    and "pending_of m sid \<noteq> [] \<Longrightarrow>
      \<exists>row start idx. queued t sid row (T sid) (hit_of (G sid)) start idx (pending_of m sid)"
proof -
  note D = std_invD [OF inv]
  have pend: "pending_of t s = (if s = sid then [] else pending_of m s)" for s
    by (simp add: t_def pending_of_def get_list_def)
  have u: "owner t = owner m" "row_len t = row_len m" "cell t = cell m" "held_blocks t = held_blocks m"
    "ranges_of t = ranges_of m" "runtime t = runtime m" "cache_block_size t = cache_block_size m"
    "caching t = caching m" "block_slots t = block_slots m" "attached t = attached m"
    by (simp_all add: fun_eq_iff t_def owner_def row_len_def cell_def held_blocks_def ranges_of_def runtime_def
        caching_def block_slots_def attached_def)
  have owns: "owners t = owners m" "indexed t = indexed m" by (simp_all add: owners_def u) (simp add: t_def indexed_def)
  have same: "prefix_cache t = prefix_cache m" "payload_at t = payload_at m" "next_ref t = next_ref m"
    "enable_prefix_caching t = enable_prefix_caching m" "num_kvcache_slots t = num_kvcache_slots m"
    by (simp_all add: t_def)
  have "shapes_ok t" "rows_ok t" using D(1,2)
    by (simp_all add: t_def shapes_ok_def rows_ok_def stack_ok_def row_len_def)
  moreover have "blocks_ok t" "refs_ok P t" using D(3,4)
    by (simp_all add: blocks_ok_def refs_ok_def holders_def owns same u)
  moreover have "seqs_ok G T t"
  proof (rule seqs_okI)
    fix s assume "owner t s = None"
    then show "vacant t s" using seqs_okD(1) [OF D(5), of s] by (simp add: vacant_def u pend)
  next
    fix s r assume "owner t s = Some r"
    then have lay: "layout_ok (G s) (T s) m s r" using seqs_okD(2) [OF D(5)] by (simp add: u)
    show "layout_ok (G s) (T s) t s r"
    proof (cases "s = sid")
      case True
      show ?thesis by (rule layout_drop_pending(1) [OF lay]) (simp_all add: u pend True)
    next
      case False
      show ?thesis
        by (rule layout_cong [OF lay]) (use False in \<open>simp_all add: u pend\<close>, simp add: t_def)
    qed
  qed
  moreover have "all_slots t = mset (arange (num_kvcache_slots t))"
  proof -
    have "private_slots t s = private_slots m s" for s by (rule private_cong) (simp_all add: u)
    then have "rows_part t = rows_part m" by (simp add: rows_part_def owns)
    moreover have "free_part t = free_part m" by (simp add: free_part_def t_def)
    ultimately show ?thesis using D(6) by (simp add: all_slots_def blocks_part_def owns u same)
  qed
  ultimately show "std_inv P G T t" by (simp add: std_inv_def)
  assume ps: "pending_of m sid \<noteq> []"
  then have "\<not> vacant m sid" by (simp add: vacant_def)
  then obtain row where own: "owner m sid = Some row" using seqs_okD(1) [OF D(5), of sid] by (cases "owner m sid") auto
  note lay = seqs_okD(2) [OF D(5) own]
  note L = lay [unfolded layout_ok_def]
  obtain st where st: "runtime m sid = Some st" using L ps by (cases "runtime m sid") auto
  let ?len = "int (length (pending_of m sid))" and ?start = "settled_at m (T sid) sid row"
  have S: "pending_fits m row ?start (next_logical_block_idx st - ?len) (pending_of m sid)"
    "?start + ?len * cache_block_size m = attached m sid + next_logical_block_idx st * cache_block_size m - hit_of (G sid)"
    "\<forall>(s, e)\<in>set (ranges_of m sid). 0 \<le> s \<and> s < e \<and> e \<le> ?start" "0 \<le> ?start"
    using L st by blast+
  have "settled_at t (T sid) sid row = ?start + ?len * cache_block_size m"
    by (rule layout_drop_pending(2) [OF lay]) (simp_all add: u pend ps)
  moreover have "pending_fits t = pending_fits m" by (simp add: fun_eq_iff pending_fits_def u cells_def)
  moreover have "?start = attached m sid + (next_logical_block_idx st - ?len) * cache_block_size m - hit_of (G sid)"
    using S(2) by (simp add: algebra_simps)
  ultimately have "queued t sid row (T sid) (hit_of (G sid)) ?start (next_logical_block_idx st - ?len) (pending_of m sid)"
    using S(1,3,4) own unfolding queued_def u pend by (auto simp: pend)
  then show "\<exists>row start idx. queued t sid row (T sid) (hit_of (G sid)) start idx (pending_of m sid)" by blast
qed

text \<open>The empty list the commit may leave for a sequence reads like no entry.\<close>

lemma list_entry_inv:
  fixes sid :: int
  assumes inv: "std_inv P G T m"
  defines "t \<equiv> m\<lparr>seq_id_to_materialized_blocks :=
      dict_set sid (get_list (seq_id_to_materialized_blocks m) sid) (seq_id_to_materialized_blocks m)\<rparr>"
  shows "std_inv P G T t" "kept m t"
proof -
  note D = std_invD [OF inv]
  have mat: "get_list (seq_id_to_materialized_blocks t) s = get_list (seq_id_to_materialized_blocks m) s" for s
    by (simp add: t_def get_list_def)
  have u: "undisturbed m t" by (simp add: undisturbed_def t_def caching_def)
  have bs: "block_slots t = block_slots m" "block_key t = block_key m" "ranges_of t = ranges_of m"
    by (simp_all add: fun_eq_iff t_def block_slots_def block_key_def block_at_def ranges_of_def)
  moreover have "seq_id_to_cached_ranges t = seq_id_to_cached_ranges m" by (simp add: t_def)
  ultimately show "kept m t" using u by (simp add: kept_def mat)
  then have held: "held_blocks t s = held_blocks m s" for s by (rule kept_held)
  have own: "owner t = owner m" "owners t = owners m" "indexed t = indexed m"
    using undisturbedD(1) [OF u] by (simp_all add: owners_def) (simp add: t_def indexed_def)
  have same: "prefix_cache t = prefix_cache m" "payload_at t = payload_at m" "next_ref t = next_ref m"
    "enable_prefix_caching t = enable_prefix_caching m" "num_kvcache_slots t = num_kvcache_slots m"
    by (simp_all add: t_def)
  have "shapes_ok t" "rows_ok t" using D(1,2)
    by (simp_all add: t_def shapes_ok_def rows_ok_def stack_ok_def row_len_def)
  moreover have "blocks_ok t" "refs_ok P t" using D(3,4)
    by (simp_all add: blocks_ok_def refs_ok_def holders_def own same held undisturbedD [OF u])
  moreover have "seqs_ok G T t"
    by (rule seqs_ok_cong [OF D(5)]) (use u held bs in \<open>simp_all add: t_def caching_def\<close>)
  moreover have "all_slots t = mset (arange (num_kvcache_slots t))"
  proof -
    have "private_slots t s = private_slots m s" for s by (rule private_cong) (simp_all add: undisturbedD [OF u] bs)
    then have "rows_part t = rows_part m" by (simp add: rows_part_def own)
    moreover have "free_part t = free_part m" by (simp add: free_part_def t_def)
    ultimately show ?thesis using D(6) by (simp add: all_slots_def blocks_part_def own bs same)
  qed
  ultimately show "std_inv P G T t" by (simp add: std_inv_def)
qed

theorem commit_seq_inv:
  assumes inv: "std_inv P G T m" and c: "caching m"
    and hit: "pending_of m (seq_id q) \<noteq> [] \<Longrightarrow> hit_of (G (seq_id q)) = prefix_cache_hit_len q"
  shows "\<exists>x t. commit_seq q m = (x, t) \<and> std_inv P G T t
    \<and> undisturbed (m\<lparr>pending_prefix_blocks := dict_del (seq_id q) (pending_prefix_blocks m)\<rparr>) t
    \<and> (x = Inr () \<longrightarrow> held_ids t (seq_id q)
         = held_ids m (seq_id q) \<union> (Some \<circ> pb_block_id) ` set (pending_of m (seq_id q)))"
proof -
  let ?sid = "seq_id q" and ?ps = "pending_of m (seq_id q)"
  define m1 where "m1 = m\<lparr>pending_prefix_blocks := dict_del ?sid (pending_prefix_blocks m)\<rparr>"
  note I1 = drop_pending_inv [OF inv, of ?sid, folded m1_def]
  have hi: "held_ids m1 ?sid = held_ids m ?sid"
    by (simp add: held_ids_def held_blocks_def block_key_def block_at_def m1_def)
  show ?thesis
  proof (cases "?ps = []")
    case True
    then have "commit_seq q m = (Inr (), m1)" by (simp add: commit_seq_def Let_def pending_of_def m1_def)
    then show ?thesis using I1(1) hi True by (simp add: m1_def [symmetric])
  next
    case False
    from I1(2) [OF False] hit [OF False] obtain row start idx where
      q1: "queued m1 ?sid row (T ?sid) (prefix_cache_hit_len q) start idx ?ps" by auto
    define m2 where "m2 = m1\<lparr>seq_id_to_materialized_blocks :=
        dict_set ?sid (get_list (seq_id_to_materialized_blocks m1) ?sid) (seq_id_to_materialized_blocks m1)\<rparr>"
    note I2 = list_entry_inv [OF I1(1), of ?sid, folded m2_def]
    from protect_inv [OF I2(1), of "protected_ids m2 ?ps"] obtain rs m3 where
      p: "protect (protected_ids m2 ?ps) m2 = (Inr rs, m3)" "std_inv (P + mset rs) G T m3" "kept m2 m3" by blast
    note k3 = kept_trans [OF I2(2) p(3)]
    have q3: "queued m3 ?sid row (T ?sid) (prefix_cache_hit_len q) start idx ?ps" by (rule queued_kept [OF q1 k3])
    have "caching m1" using c by (simp add: m1_def caching_def)
    then have c3: "caching m3" using undisturbedD [OF kept_facts(1) [OF k3]] by simp
    from commit_all_inv [OF p(2) q3 c3] obtain x m4 where
      b: "forE (commit_block q) ?ps m3 = (x, m4)" "std_inv (P + mset rs) G T m4" "undisturbed m3 m4"
        "x = Inr () \<longrightarrow> held_ids m4 ?sid = held_ids m3 ?sid \<union> (Some \<circ> pb_block_id) ` set ?ps" by blast
    from release_inv [OF b(2)] obtain pc where
      r: "release_prefix_blocks rs m4 = (Inr (), m4\<lparr>prefix_cache := pc\<rparr>)" "std_inv P G T (m4\<lparr>prefix_cache := pc\<rparr>)"
        "\<forall>ix. prefix_cache m4 = Some ix \<longrightarrow> (\<exists>ix'. pc = Some ix' \<and> refs_added (- 1) rs ix ix')"
      by (elim exE conjE) (erule (2) that)
    obtain ix where ix: "prefix_cache m4 = Some ix"
      using c3 undisturbedD [OF b(3)] by (auto simp: caching_def)
    with r(3) obtain ix' where ix': "pc = Some ix'" "refs_added (- 1) rs ix ix'" by blast
    have k5: "kept m4 (m4\<lparr>prefix_cache := pc\<rparr>)" unfolding ix'(1)
      by (rule index_kept [OF b(2) ix]) (use ix'(2) in \<open>simp add: refs_added_def\<close>)
    have "commit_seq q m = (x, m4\<lparr>prefix_cache := pc\<rparr>)"
      using False p(1) b(1) r(1)
      by (simp add: commit_seq_def Let_def pending_of_def [symmetric] m1_def [symmetric] m2_def [symmetric]
          bindE_run finallyE_def split: sum.split)
    moreover have "undisturbed m1 (m4\<lparr>prefix_cache := pc\<rparr>)"
      using undisturbed_trans [OF undisturbed_trans [OF kept_facts(1) [OF k3] b(3)] kept_facts(1) [OF k5]] .
    moreover have "held_ids (m4\<lparr>prefix_cache := pc\<rparr>) ?sid = held_ids m ?sid \<union> (Some \<circ> pb_block_id) ` set ?ps"
      if "x = Inr ()"
      using b(4) that kept_facts(4) [OF k3] kept_facts(4) [OF k5] hi by simp
    ultimately show ?thesis using r(2) unfolding m1_def [symmetric] by blast
  qed
qed

section \<open>The whole batch\<close>

text \<open>
  A sequence whose blocks went in holds every one of them, so none of them can be evicted before
  the sequence ends.
\<close>

theorem forward_end_inv:
  assumes "std_inv P G T m"
    and "\<And>q. q \<in> set qs \<Longrightarrow> hit_of (G (seq_id q)) = prefix_cache_hit_len q"
  shows "\<exists>x t. on_forward_end qs m = (x, t) \<and> std_inv P G T t
    \<and> owner t = owner m \<and> row_len t = row_len m \<and> buffer_slots t = buffer_slots m
    \<and> runtime t = runtime m"
proof (cases "caching m")
  case False
  then show ?thesis using assms(1) by (simp add: on_forward_end_def)
next
  case True
  have "\<exists>x t. forE commit_seq qs m = (x, t) \<and> std_inv P G T t
    \<and> owner t = owner m \<and> row_len t = row_len m \<and> buffer_slots t = buffer_slots m \<and> runtime t = runtime m"
    using assms True
  proof (induction qs arbitrary: m)
    case Nil
    then show ?case by simp
  next
    case (Cons q qs)
    have "hit_of (G (seq_id q)) = prefix_cache_hit_len q" using Cons.prems(2) by simp
    from commit_seq_inv [OF Cons.prems(1,3) this] obtain x t where
      t: "commit_seq q m = (x, t)" "std_inv P G T t"
        "undisturbed (m\<lparr>pending_prefix_blocks := dict_del (seq_id q) (pending_prefix_blocks m)\<rparr>) t" by blast
    have same: "owner t = owner m" "row_len t = row_len m" "buffer_slots t = buffer_slots m" "runtime t = runtime m"
      "caching t"
      using t(3) Cons.prems(3)
      by (simp_all add: undisturbed_def fun_eq_iff owner_def row_len_def runtime_def caching_def)
    show ?case
    proof (cases x)
      case (Inl e)
      then show ?thesis using t same by (simp add: bindE_run)
    next
      case (Inr y)
      from Cons.IH [OF t(2) _ same(5)] Cons.prems(2) obtain x' t' where
        "forE commit_seq qs t = (x', t')" "std_inv P G T t'" "owner t' = owner t" "row_len t' = row_len t"
        "buffer_slots t' = buffer_slots t" "runtime t' = runtime t" by auto
      then show ?thesis using t(1) Inr same by (simp add: bindE_run)
    qed
  qed
  then show ?thesis using True by (simp add: on_forward_end_def)
qed

end
