(* ===== verification/Standard_Step.thy ===== *)
theory Standard_Step
  imports Standard_Forward_End
begin

text \<open>
  The two \<open>prepare\<close> methods: after a step was prepared, every token of it has a slot of its own
  at the end of its row and has been recorded for the prefix cache.
\<close>

abbreviation no_tail :: "int \<Rightarrow> int" where
  "no_tail \<equiv> \<lambda>_. 0"

lemma promises_free:
  assumes "std_inv P G T m" "\<And>s. owner m s \<noteq> None \<Longrightarrow> G' s = G s"
  shows "std_inv P G' T m"
proof -
  have "seqs_ok G' T m"
    by (rule seqs_okI) (use seqs_okD [OF std_invD(5) [OF assms(1)]] assms(2) in auto)
  then show ?thesis using assms by (simp add: std_inv_def)
qed

lemma promise_steady:
  "keeps_promise G m q \<Longrightarrow> caching t = caching m \<Longrightarrow> cache_block_size t = cache_block_size m \<Longrightarrow> keeps_promise G t q"
  by (simp add: keeps_promise_def)

lemma steadyD:
  assumes "steady m t"
  shows "caching t = caching m" "cache_block_size t = cache_block_size m" "max_model_len t = max_model_len m"
  using assms by (simp_all add: steady_def)

text \<open>Recording a step changes nothing but the two dictionaries of the prefix cache.\<close>

lemma recorded_same:
  assumes "t = m\<lparr>prefix_runtime_states := rts, pending_prefix_blocks := pps\<rparr>"
  shows "owner t = owner m" "row_len t = row_len m" "cell t = cell m" "cells t = cells m" "seq_len t = seq_len m"
    "caching t = caching m" "cache_block_size t = cache_block_size m" "max_model_len t = max_model_len m"
    "rows_kept S m t" "buffer_slots t = buffer_slots m"
proof -
  show a: "owner t = owner m" "row_len t = row_len m" "cell t = cell m" "caching t = caching m"
    "cache_block_size t = cache_block_size m" "max_model_len t = max_model_len m" "buffer_slots t = buffer_slots m"
    using assms by (simp_all add: fun_eq_iff owner_def row_len_def cell_def caching_def)
  show "cells t = cells m" "seq_len t = seq_len m"
    by (intro ext, simp add: cells_def seq_len_def a split: option.split)+
  show "rows_kept S m t" by (simp add: rows_kept_def a)
qed

section \<open>Prefill\<close>

text \<open>A prefill chunk that fits the row, after the cached prefix of the prompt was attached.\<close>

definition chunk_fits :: "std_cache \<Rightarrow> seq \<Rightarrow> bool" where
  "chunk_fits m q \<longleftrightarrow> (\<forall>c. current_chunk_size q = Some c \<longrightarrow>
     0 \<le> c \<and> max (seq_len m (seq_id q)) (prefix_cache_hit_len q) + c \<le> max_model_len m)"

theorem prefill_one_inv:
  assumes inv: "std_inv P G no_tail m" and kp: "keeps_promise G m q" and fits: "chunk_fits m q"
    and run: "prefill_one H q acc m = (Inr inp, t)"
  obtains c r where "current_chunk_size q = Some c" "std_inv P G no_tail t" "owner t (seq_id q) = Some r"
    "row_len t r = seq_len m (seq_id q) + c" "rows_kept {seq_id q} m t"
    "in_slot_mapping inp = in_slot_mapping acc @ cells t r (seq_len m (seq_id q)) (row_len t r)"
    "in_context_lens inp = in_context_lens acc @ [row_len t r]" "in_req_indices inp = in_req_indices acc @ [r]"
    "caching t = caching m" "cache_block_size t = cache_block_size m" "max_model_len t = max_model_len m"
proof -
  let ?sid = "seq_id q" and ?len = "seq_len m (seq_id q)"
  obtain c where c: "current_chunk_size q = Some c"
    using run by (auto simp: prefill_one_def chunk_size_of_def split: option.splits)
  have c0: "0 \<le> c" "?len + c \<le> max_model_len m" using fits c by (auto simp: chunk_fits_def)
  have start: "(case dict_get (seq_id_to_row m) ?sid of None \<Rightarrow> 0 | Some r \<Rightarrow> row_len m r) = ?len"
    by (simp add: seq_len_def owner_def)
  show thesis
  proof (rule allocate_inv [OF inv c0(1) _ c0(2)])
    fix u assume "allocate ?sid c m = (Inl (AssertionError ''Out of KV cache slots: ''), u)"
    then show thesis using run c by (auto simp: prefill_one_def chunk_size_of_def Let_def bindE_run split: if_splits option.splits)
  next
    fix e u assume "allocate ?sid c m = (Inl (RuntimeError e), u)"
    then show thesis using run c by (auto simp: prefill_one_def chunk_size_of_def Let_def bindE_run split: if_splits option.splits)
  next
    fix xs u r
    assume a: "allocate ?sid c m = (Inr xs, u)" "std_inv P G (no_tail(?sid := no_tail ?sid + c)) u"
      "owner u ?sid = Some r" "int (length xs) = c" "row_len u r = ?len + c"
      "cells u r ?len (?len + c) = xs" "steady m u" "rows_kept {?sid} m u"
    note DU = std_invD [OF a(2)]
    have rb: "r < max_buffer_rows u" by (rule owner_row(1) [OF DU(2) a(3)])
    have len0: "0 \<le> ?len" using std_invD(1,2) [OF inv] row_shape(2) owner_row(1)
      by (auto simp: seq_len_def split: option.split)
    have bl: "?len + c \<le> int (length (buffer_slots u ! r))"
      using row_shape(1) [OF DU(1) rb] c0(2) steadyD(3) [OF a(7)] by simp
    have mapped: "tslice (buffer_slots u ! r) ?len (?len + c) = xs"
      using tslice_map [OF len0 _ bl] c0(1) a(6) by (simp add: cells_def cell_def [abs_def])
    have "\<exists>ids. record_prefix_materialization H q (chunk_tokens q c) xs u = (Inr (), t)
        \<and> inp = \<lparr>in_input_ids = in_input_ids acc @ ids,
           in_positions = in_positions acc @ [num_prefilled_tokens q..num_prefilled_tokens q + c - 1],
           in_cu_seqlens = in_cu_seqlens acc @ [last (in_cu_seqlens acc) + c],
           in_slot_mapping = in_slot_mapping acc @ xs, in_context_lens = in_context_lens acc @ [?len + c],
           in_req_indices = in_req_indices acc @ [r]\<rparr>"
      using run c a(1,3,4) start mapped
      by (simp add: prefill_one_def chunk_size_of_def Let_def bindE_run owner_def fit_def
          split: if_splits sum.splits prod.splits) (auto simp: bindE_run split: sum.splits prod.splits)
    then obtain ids where rec: "record_prefix_materialization H q (chunk_tokens q c) xs u = (Inr (), t)"
      and inp: "inp = \<lparr>in_input_ids = in_input_ids acc @ ids,
           in_positions = in_positions acc @ [num_prefilled_tokens q..num_prefilled_tokens q + c - 1],
           in_cu_seqlens = in_cu_seqlens acc @ [last (in_cu_seqlens acc) + c],
           in_slot_mapping = in_slot_mapping acc @ xs, in_context_lens = in_context_lens acc @ [?len + c],
           in_req_indices = in_req_indices acc @ [r]\<rparr>" by blast
    have kpu: "keeps_promise G u q" by (rule promise_steady [OF kp]) (simp_all add: steadyD [OF a(7)])
    have T: "(no_tail(?sid := no_tail ?sid + c)) ?sid = int (length xs)"
      "xs = cells u r (row_len u r - int (length xs)) (row_len u r)"
      using a(4,5,6) by simp_all
    note R = record_inv [OF a(2,3) T kpu rec]
    obtain rts pps where t: "t = u\<lparr>prefix_runtime_states := rts, pending_prefix_blocks := pps\<rparr>" using R(2) by blast
    note S = recorded_same [OF t]
    have "no_tail(?sid := 0) = no_tail" by (simp add: fun_eq_iff)
    then have "std_inv P G no_tail t" using R(1) by (simp del: fun_upd_apply add: fun_upd_upd)
    moreover have "rows_kept {?sid} m t"
      using rows_kept_trans [OF a(8) S(9) [of "{?sid}"], of "{?sid}"] by simp
    ultimately show thesis using c a inp steadyD [OF a(7)] by (intro that [of c r]) (simp_all add: S)
  qed simp
qed

lemma attach_len:
  assumes inv: "std_inv P G T m" and new: "owner m (seq_id q) = None \<Longrightarrow> T (seq_id q) = 0"
    and fits: "prefix_cache_hit_len q \<le> max_model_len m"
  shows "\<exists>x t. attach_prefix_cache_if_needed q m = (x, t) \<and> std_inv P G T t
    \<and> rows_kept {seq_id q} m t \<and> seq_len t (seq_id q) \<le> max (seq_len m (seq_id q)) (prefix_cache_hit_len q)
    \<and> caching t = caching m \<and> cache_block_size t = cache_block_size m \<and> max_model_len t = max_model_len m"
proof (rule attach_inv [OF inv new fits])
  fix e assume "attach_prefix_cache_if_needed q m = (Inl e, m)"
  then show ?thesis using inv by simp
next
  assume "attach_prefix_cache_if_needed q m = (Inr (), m)"
  then show ?thesis using inv by simp
next
  fix t row
  assume a: "attach_prefix_cache_if_needed q m = (Inr (), t)" "std_inv P G T t" "owner t (seq_id q) = Some row"
    "row_len t row \<le> prefix_cache_hit_len q" "rows_kept {seq_id q} m t" "cache_block_size t = cache_block_size m"
    "caching t = caching m" "max_model_len t = max_model_len m"
  then have "seq_len t (seq_id q) \<le> max (seq_len m (seq_id q)) (prefix_cache_hit_len q)" by (simp add: seq_len_def)
  with a show ?thesis by blast
qed

text \<open>Attaching for a whole batch, whatever comes of it.\<close>

lemma attach_all_inv:
  assumes "std_inv P G no_tail m" "\<And>q. q \<in> set qs \<Longrightarrow> prefix_cache_hit_len q \<le> max_model_len m"
    "distinct (map seq_id qs)"
  shows "\<exists>x t. forE attach_prefix_cache_if_needed qs m = (x, t) \<and> std_inv P G no_tail t
    \<and> rows_kept (seq_id ` set qs) m t
    \<and> (\<forall>q\<in>set qs. seq_len t (seq_id q) \<le> max (seq_len m (seq_id q)) (prefix_cache_hit_len q))
    \<and> caching t = caching m \<and> cache_block_size t = cache_block_size m \<and> max_model_len t = max_model_len m"
  using assms
proof (induction qs arbitrary: m)
  case Nil
  then show ?case by simp
next
  case (Cons q qs)
  have "prefix_cache_hit_len q \<le> max_model_len m" using Cons.prems(2) by simp
  from attach_len [OF Cons.prems(1) refl this] obtain x t where
    t: "attach_prefix_cache_if_needed q m = (x, t)" "std_inv P G no_tail t" "rows_kept {seq_id q} m t"
      "seq_len t (seq_id q) \<le> max (seq_len m (seq_id q)) (prefix_cache_hit_len q)"
      "caching t = caching m" "cache_block_size t = cache_block_size m" "max_model_len t = max_model_len m" by blast
  have other: "seq_len t (seq_id p) = seq_len m (seq_id p)" if "p \<in> set qs" for p
    using Cons.prems(3) that by (intro rows_kept_len [OF t(3)]) (force simp: image_iff)
  show ?case
  proof (cases x)
    case (Inl e)
    have "rows_kept (seq_id ` set (q # qs)) m t" using t(3) by (auto simp: rows_kept_def)
    then show ?thesis using Inl t other by (simp add: bindE_run)
  next
    case (Inr y)
    from Cons.IH [OF t(2)] Cons.prems(2,3) t(7) obtain x' t' where
      t': "forE attach_prefix_cache_if_needed qs t = (x', t')" "std_inv P G no_tail t'"
        "rows_kept (seq_id ` set qs) t t'"
        "\<forall>q\<in>set qs. seq_len t' (seq_id q) \<le> max (seq_len t (seq_id q)) (prefix_cache_hit_len q)"
        "caching t' = caching t" "cache_block_size t' = cache_block_size t" "max_model_len t' = max_model_len t"
      by auto
    have "seq_len t' (seq_id q) = seq_len t (seq_id q)"
      using Cons.prems(3) by (intro rows_kept_len [OF t'(3)]) auto
    moreover have "rows_kept (seq_id ` set (q # qs)) m t'" by (rule rows_kept_trans [OF t(3) t'(3)]) auto
    ultimately show ?thesis using Inr t t' other by (simp add: bindE_run)
  qed
qed

lemma prefill_all_inv:
  assumes "std_inv P G no_tail m" "\<And>q. q \<in> set qs \<Longrightarrow> keeps_promise G m q \<and> chunk_fits m q"
    "distinct (map seq_id qs)" "prefill_all H qs acc m = (Inr inp, t)"
  shows "std_inv P G no_tail t \<and> rows_kept (seq_id ` set qs) m t
    \<and> (\<forall>q\<in>set qs. seq_len t (seq_id q) = seq_len m (seq_id q) + the (current_chunk_size q))
    \<and> caching t = caching m \<and> cache_block_size t = cache_block_size m \<and> max_model_len t = max_model_len m"
  using assms
proof (induction qs arbitrary: m acc)
  case Nil
  then show ?case by (simp add: retE_def)
next
  case (Cons q qs)
  obtain inp1 t1 where p: "prefill_one H q acc m = (Inr inp1, t1)" "prefill_all H qs inp1 t1 = (Inr inp, t)"
    using Cons.prems(4) by (auto simp: bindE_run split: prod.splits sum.splits)
  have kq: "keeps_promise G m q" "chunk_fits m q" using Cons.prems(2) by auto
  from Cons.prems(1) kq p(1) obtain c r where
    o: "current_chunk_size q = Some c" "std_inv P G no_tail t1" "owner t1 (seq_id q) = Some r"
      "row_len t1 r = seq_len m (seq_id q) + c" "rows_kept {seq_id q} m t1"
      "caching t1 = caching m" "cache_block_size t1 = cache_block_size m" "max_model_len t1 = max_model_len m"
    by (rule prefill_one_inv)
  have other: "seq_len t1 (seq_id p) = seq_len m (seq_id p)" if "p \<in> set qs" for p
    using Cons.prems(3) that by (intro rows_kept_len [OF o(5)]) (force simp: image_iff)
  have "keeps_promise G t1 p \<and> chunk_fits t1 p" if "p \<in> set qs" for p
    using Cons.prems(2) [of p] that other [OF that] o(6-8) by (auto simp: keeps_promise_def chunk_fits_def)
  from Cons.IH [OF o(2) this _ p(2)] Cons.prems(3) have
    t: "std_inv P G no_tail t" "rows_kept (seq_id ` set qs) t1 t"
      "\<forall>q\<in>set qs. seq_len t (seq_id q) = seq_len t1 (seq_id q) + the (current_chunk_size q)"
      "caching t = caching t1" "cache_block_size t = cache_block_size t1" "max_model_len t = max_model_len t1" by auto
  have "seq_len t (seq_id q) = seq_len m (seq_id q) + c"
  proof -
    have "seq_len t (seq_id q) = seq_len t1 (seq_id q)"
      using Cons.prems(3) by (intro rows_kept_len [OF t(2)]) auto
    then show ?thesis using o(3,4) by (simp add: seq_len_def)
  qed
  moreover have "rows_kept (seq_id ` set (q # qs)) m t" by (rule rows_kept_trans [OF o(5) t(2)]) auto
  ultimately show ?case using t o other by simp
qed

theorem prepare_prefill_inv:
  assumes inv: "std_inv P G no_tail m" and d: "distinct (map seq_id qs)"
    and q: "\<And>q. q \<in> set qs \<Longrightarrow> keeps_promise G m q \<and> chunk_fits m q \<and> prefix_cache_hit_len q \<le> max_model_len m"
    and run: "prepare_prefill H qs m = (Inr inp, t)"
  shows "std_inv P G no_tail t" "rows_kept (seq_id ` set qs) m t"
    "caching t = caching m" "cache_block_size t = cache_block_size m" "max_model_len t = max_model_len m"
proof -
  from attach_all_inv [OF inv _ d] q obtain x u where
    u: "forE attach_prefix_cache_if_needed qs m = (x, u)" "std_inv P G no_tail u" "rows_kept (seq_id ` set qs) m u"
      "\<forall>q\<in>set qs. seq_len u (seq_id q) \<le> max (seq_len m (seq_id q)) (prefix_cache_hit_len q)"
      "caching u = caching m" "cache_block_size u = cache_block_size m" "max_model_len u = max_model_len m" by auto
  have p: "prefill_all H qs no_input u = (Inr inp, t)"
    using run u(1) by (auto simp: prepare_prefill_def bindE_run liftE_def split: sum.splits prod.splits)
  have "keeps_promise G u p \<and> chunk_fits u p" if "p \<in> set qs" for p
    using q [OF that] u(4-7) that by (fastforce simp: keeps_promise_def chunk_fits_def)
  from prefill_all_inv [OF u(2) this d p] u(3,5-7) rows_kept_trans [OF u(3)] show
    "std_inv P G no_tail t" "rows_kept (seq_id ` set qs) m t"
    "caching t = caching m" "cache_block_size t = cache_block_size m" "max_model_len t = max_model_len m"
    by auto
qed

end
