(* ===== verification/Standard_Runs.thy ===== *)
theory Standard_Runs
  imports Standard_Step
begin

text \<open>
  Decode steps, the runs of the manager between two engine steps, and what every reachable
  manager guarantees: no slot is lost or handed out twice.
\<close>

section \<open>Decode\<close>

lemma record_each_inv:
  assumes "std_inv P G (add_one (seq_id ` set qs) no_tail) m" "distinct (map seq_id qs)"
    "length ids = length qs" "length slots = length qs" "\<And>q. q \<in> set qs \<Longrightarrow> keeps_promise G m q"
    "\<And>i. i < length qs \<Longrightarrow> \<exists>r. owner m (seq_id (qs ! i)) = Some r \<and> slots ! i = cell m r (row_len m r - 1)"
    "forE (\<lambda>(q, t, s). record_prefix_materialization H q [t] [s]) (zip qs (zip ids slots)) m = (Inr (), t)"
  shows "std_inv P G no_tail t \<and> (\<exists>rts pps. t = m\<lparr>prefix_runtime_states := rts, pending_prefix_blocks := pps\<rparr>)"
  using assms
proof (induction qs arbitrary: ids slots m)
  case Nil
  have tm: "t = m" using Nil.prems(7) by simp
  have none: "add_one (seq_id ` set []) no_tail = no_tail" by (simp add: add_one_def)
  show ?case unfolding tm
  proof (rule conjI)
    show "std_inv P G no_tail m" using Nil.prems(1) unfolding none .
    show "\<exists>rts pps. m = m\<lparr>prefix_runtime_states := rts, pending_prefix_blocks := pps\<rparr>"
      by (intro exI [of _ "prefix_runtime_states m"] exI [of _ "pending_prefix_blocks m"]) simp
  qed
next
  case (Cons q qs)
  obtain i ids' where ids: "ids = i # ids'" "length ids' = length qs" using Cons.prems(3) by (cases ids) auto
  obtain s slots' where slots: "slots = s # slots'" "length slots' = length qs" using Cons.prems(4) by (cases slots) auto
  obtain m1 where r1: "record_prefix_materialization H q [i] [s] m = (Inr (), m1)"
    "forE (\<lambda>(q, t, s). record_prefix_materialization H q [t] [s]) (zip qs (zip ids' slots')) m1 = (Inr (), t)"
    using Cons.prems(7) ids slots by (auto simp: bindE_run split: prod.splits sum.splits)
  obtain r where r: "owner m (seq_id q) = Some r" "s = cell m r (row_len m r - 1)"
    using Cons.prems(6) [of 0] slots by auto
  let ?T = "add_one (seq_id ` set (q # qs)) no_tail"
  have T: "?T (seq_id q) = int (length [s])" by (simp add: add_one_def)
  have s: "[s] = cells m r (row_len m r - int (length [s])) (row_len m r)" using r(2) by (simp add: cells_def)
  have kq: "keeps_promise G m q" using Cons.prems(5) by simp
  note R = record_inv [OF Cons.prems(1) r(1) T s kq r1(1)]
  obtain rts pps where m1: "m1 = m\<lparr>prefix_runtime_states := rts, pending_prefix_blocks := pps\<rparr>" using R(2) by blast
  note S = recorded_same [OF m1]
  have "?T(seq_id q := 0) = add_one (seq_id ` set qs) no_tail"
    using Cons.prems(2) by (auto simp: add_one_def fun_eq_iff)
  then have inv1: "std_inv P G (add_one (seq_id ` set qs) no_tail) m1" using R(1) by simp
  have "std_inv P G no_tail t \<and> (\<exists>rts pps. t = m1\<lparr>prefix_runtime_states := rts, pending_prefix_blocks := pps\<rparr>)"
  proof (rule Cons.IH [OF inv1 _ ids(2) slots(2) _ _ r1(2)])
    show "distinct (map seq_id qs)" using Cons.prems(2) by simp
    show "keeps_promise G m1 p" if "p \<in> set qs" for p
      by (rule promise_steady [OF Cons.prems(5) S(6,7)]) (use that in simp)
    show "\<exists>r. owner m1 (seq_id (qs ! i)) = Some r \<and> slots' ! i = cell m1 r (row_len m1 r - 1)"
      if "i < length qs" for i
      using Cons.prems(6) [of "Suc i"] that slots by (simp add: S)
  qed
  then show ?case using m1 by auto
qed

theorem prepare_decode_inv:
  assumes inv: "std_inv P G no_tail m" and d: "distinct (map seq_id qs)"
    and q: "\<And>q. q \<in> set qs \<Longrightarrow> keeps_promise G m q \<and> seq_len m (seq_id q) + 1 \<le> max_model_len m"
    and run: "prepare_decode H qs m = (Inr inp, t)"
  shows "std_inv P G no_tail t" "rows_kept (seq_id ` set qs) m t"
    "\<And>p. p \<in> set qs \<Longrightarrow> seq_len t (seq_id p) = seq_len m (seq_id p) + 1"
    "\<And>i. i < length qs \<Longrightarrow> \<exists>r. owner t (seq_id (qs ! i)) = Some r
        \<and> in_slot_mapping inp ! i = cell t r (row_len t r - 1)
        \<and> in_context_lens inp ! i = row_len t r \<and> in_req_indices inp ! i = r"
proof -
  let ?sids = "map seq_id qs"
  obtain ids where ids: "mapE decode_input_token qs = Inr ids"
    using run by (cases "mapE decode_input_token qs") (simp_all add: prepare_decode_def bindE_run)
  have len_ids: "length ids = length qs" using ids by (induction qs arbitrary: ids) (auto split: sum.splits)
  have fits: "seq_len m s + 1 \<le> max_model_len m" if "s \<in> set ?sids" for s using q that by auto
  have goal: "std_inv P G no_tail t \<and> rows_kept (seq_id ` set qs) m t
    \<and> (\<forall>p\<in>set qs. seq_len t (seq_id p) = seq_len m (seq_id p) + 1)
    \<and> (\<forall>i < length qs. \<exists>r. owner t (seq_id (qs ! i)) = Some r
        \<and> in_slot_mapping inp ! i = cell t r (row_len t r - 1)
        \<and> in_context_lens inp ! i = row_len t r \<and> in_req_indices inp ! i = r)"
  proof (rule allocate_batch_inv [OF inv d _ fits])
    fix u assume "allocate_batch ?sids 1 m = (Inl (AssertionError ''Out of KV cache slots: ''), u)"
    then show ?thesis using run ids by (simp add: prepare_decode_def bindE_run)
  next
    fix e u assume "allocate_batch ?sids 1 m = (Inl (RuntimeError e), u)"
    then show ?thesis using run ids by (simp add: prepare_decode_def bindE_run)
  next
    fix xs u rs
    assume a: "allocate_batch ?sids 1 m = (Inr xs, u)" "std_inv P G (add_one (set ?sids) no_tail) u"
      "map (owner u) ?sids = map Some rs" "length xs = length ?sids" "steady m u" "rows_kept (set ?sids) m u"
      "\<And>i. i < length ?sids \<Longrightarrow> seq_len u (?sids ! i) = seq_len m (?sids ! i) + 1
         \<and> cell u (rs ! i) (seq_len m (?sids ! i)) = xs ! i"
    have ow: "owner u (seq_id (qs ! i)) = Some (rs ! i)" if "i < length qs" for i
      using arg_cong [OF a(3), of "\<lambda>l. l ! i"] that map_eq_imp_length_eq [OF a(3)] by simp
    have lr: "length rs = length qs" using map_eq_imp_length_eq [OF a(3)] by simp
    have row: "row_len u (rs ! i) = seq_len m (seq_id (qs ! i)) + 1" if "i < length qs" for i
      using a(7) [of i] ow [OF that] that by (simp add: seq_len_def [of u])
    have cellu: "xs ! i = cell u (rs ! i) (row_len u (rs ! i) - 1)" if "i < length qs" for i
      using a(7) [of i] row [OF that] that by simp
    let ?rows = "map (\<lambda>q. the (dict_get (seq_id_to_row u) (seq_id q))) qs"
    have rec: "forE (\<lambda>(q, t, s). record_prefix_materialization H q [t] [s]) (zip qs (zip ids xs)) u = (Inr (), t)"
      and inp: "inp = \<lparr>in_input_ids = ids, in_positions = map decode_input_position qs,
            in_cu_seqlens = [], in_slot_mapping = xs, in_context_lens = map (row_len t) ?rows,
            in_req_indices = ?rows\<rparr>"
      using run ids a(1) by (auto simp: prepare_decode_def bindE_run Let_def split: prod.splits sum.splits)
    have inv_u: "std_inv P G (add_one (seq_id ` set qs) no_tail) u" using a(2) by simp
    have R: "std_inv P G no_tail t \<and> (\<exists>rts pps. t = u\<lparr>prefix_runtime_states := rts, pending_prefix_blocks := pps\<rparr>)"
    proof (rule record_each_inv [OF inv_u d len_ids _ _ _ rec])
      show "keeps_promise G u p" if "p \<in> set qs" for p
        using q [OF that] promise_steady steadyD [OF a(5)] by blast
      show "\<exists>r. owner u (seq_id (qs ! i)) = Some r \<and> xs ! i = cell u r (row_len u r - 1)" if "i < length qs" for i
        using ow cellu that by blast
    qed (use a(4) in simp)
    then obtain rts pps where t: "t = u\<lparr>prefix_runtime_states := rts, pending_prefix_blocks := pps\<rparr>" by blast
    note S = recorded_same [OF t]
    have "rows_kept (seq_id ` set qs) m t"
      using rows_kept_trans [OF a(6) S(9) [of "set ?sids"], of "set ?sids"] by simp
    moreover have "\<forall>p\<in>set qs. seq_len t (seq_id p) = seq_len m (seq_id p) + 1"
      using a(7) by (auto simp: S in_set_conv_nth)
    moreover have "\<exists>r. owner t (seq_id (qs ! i)) = Some r \<and> in_slot_mapping inp ! i = cell t r (row_len t r - 1)
        \<and> in_context_lens inp ! i = row_len t r \<and> in_req_indices inp ! i = r" if i: "i < length qs" for i
      using ow [OF i] cellu [OF i] i by (auto simp: inp S owner_def)
    ultimately show ?thesis using R by blast
  qed simp
  then show "std_inv P G no_tail t" "rows_kept (seq_id ` set qs) m t"
    "\<And>p. p \<in> set qs \<Longrightarrow> seq_len t (seq_id p) = seq_len m (seq_id p) + 1"
    "\<And>i. i < length qs \<Longrightarrow> \<exists>r. owner t (seq_id (qs ! i)) = Some r
        \<and> in_slot_mapping inp ! i = cell t r (row_len t r - 1)
        \<and> in_context_lens inp ! i = row_len t r \<and> in_req_indices inp ! i = r" by blast+
qed

section \<open>The empty manager\<close>

lemma make_std_cache_inv:
  assumes mk: "make_std_cache n rows maxlen tokens seqs fp cap name enabled bs heap0 = Inr m"
    and n: "0 \<le> n" "0 \<le> maxlen"
  shows "std_inv P G no_tail m \<longleftrightarrow> P = {#}" "owners m = {}"
proof -
  obtain ix where m: "m = \<lparr>num_kvcache_slots = n, max_buffer_rows = rows, max_model_len = maxlen,
      step_tokens = tokens, step_seqs = seqs, config_fingerprint = fp, config_max_blocks = cap,
      sparse_name = name, enable_prefix_caching = (enabled \<and> name \<in> {'''', ''omnikv''}), cache_block_size = bs,
      free_slots_stack = arange n, num_free = n,
      buffer_slots = replicate rows (replicate (nat maxlen) 0), seq_id_to_row = [],
      free_rows = [0..<rows], row_seq_lens = replicate rows 0,
      row_logical_lens = replicate rows 0, prefix_cache = ix, payload_at = (\<lambda>_. None),
      next_ref = 0, seq_id_to_prefix_blocks = [], seq_id_to_materialized_blocks = [],
      seq_id_to_cached_ranges = [], prefix_runtime_states = [], pending_prefix_blocks = []\<rparr>"
    and ix: "ix \<noteq> None \<longleftrightarrow> enabled \<and> name \<in> {'''', ''omnikv''}"
      "\<forall>x. ix = Some x \<longrightarrow> make_index bs fp cap heap0 = Inr x"
    using mk by (auto simp: make_std_cache_def Let_def split: if_splits sum.splits)
  have f: "length (arange n) = nat n" by (simp add: arange_def)
  have own: "owner m s = None" for s by (simp add: m owner_def)
  then show owns: "owners m = {}" by (auto simp: owners_def)
  have empty: "get_block x b = None" if "ix = Some x" for x b
    using ix(2) that by (auto simp: make_index_def split: if_splits)
  then have ind: "indexed m = {}" by (auto simp: indexed_def m ran_def split: option.split)
  have "shapes_ok m" using n by (auto simp: shapes_ok_def stack_ok_def f row_len_def m)
  moreover have "rows_ok m" by (auto simp: rows_ok_def m row_len_def)
  moreover have "blocks_ok m"
  proof -
    have "index_ok x \<and> block_size x = bs" if "ix = Some x" for x
      using ix(2) that index_ok_make by (auto simp: make_index_def split: if_splits)
    then show ?thesis using ix(1) by (auto simp: blocks_ok_def ind) (auto simp: m)
  qed
  moreover have "held_blocks m s = []" for s by (simp add: m held_blocks_def get_list_def)
  then have "refs_ok P m \<longleftrightarrow> P = {#}" by (auto simp: refs_ok_def ind)
  moreover have "seqs_ok G no_tail m"
    by (rule seqs_okI) (simp_all add: own vacant_def, simp_all add: m ranges_of_def runtime_def pending_of_def get_list_def)
  moreover have "all_slots m = mset (arange (num_kvcache_slots m))"
  proof -
    have "free_part m = mset (arange n)" "num_kvcache_slots m = n" by (simp_all add: free_part_def m f)
    then show ?thesis by (simp add: all_slots_def rows_part_def owns blocks_part_def ind)
  qed
  ultimately show "std_inv P G no_tail m \<longleftrightarrow> P = {#}" by (simp add: std_inv_def)
qed

section \<open>Runs\<close>

text \<open>
  The operations the engine performs on a manager, in any order. Preparing a step ends the run
  when it raises; the other operations may fail and the run goes on. \<open>G\<close> is what is known of
  the sequences that own a row; for any other sequence it may be chosen anew.
\<close>

inductive std_run :: "(bytes \<Rightarrow> bytes) \<Rightarrow> (int \<Rightarrow> promise) \<Rightarrow> std_cache \<Rightarrow> bool" for H where
  start: "make_std_cache n rows maxlen tokens seqs fp cap name enabled bs heap0 = Inr m \<Longrightarrow>
    0 \<le> n \<Longrightarrow> 0 \<le> maxlen \<Longrightarrow> std_run H G m"
| admit: "std_run H G m \<Longrightarrow> (\<And>s. owner m s \<noteq> None \<Longrightarrow> G' s = G s) \<Longrightarrow> std_run H G' m"
| prefill: "std_run H G m \<Longrightarrow> distinct (map seq_id qs) \<Longrightarrow>
    (\<And>q. q \<in> set qs \<Longrightarrow> keeps_promise G m q \<and> chunk_fits m q \<and> prefix_cache_hit_len q \<le> max_model_len m) \<Longrightarrow>
    prepare_prefill H qs m = (Inr inp, t) \<Longrightarrow> std_run H G t"
| decode: "std_run H G m \<Longrightarrow> distinct (map seq_id qs) \<Longrightarrow>
    (\<And>q. q \<in> set qs \<Longrightarrow> keeps_promise G m q \<and> seq_len m (seq_id q) + 1 \<le> max_model_len m) \<Longrightarrow>
    prepare_decode H qs m = (Inr inp, t) \<Longrightarrow> std_run H G t"
| attach: "std_run H G m \<Longrightarrow> prefix_cache_hit_len q \<le> max_model_len m \<Longrightarrow>
    attach_prefix_cache_if_needed q m = (x, t) \<Longrightarrow> std_run H G t"
| forward_end: "std_run H G m \<Longrightarrow> (\<And>q. q \<in> set qs \<Longrightarrow> hit_of (G (seq_id q)) = prefix_cache_hit_len q) \<Longrightarrow>
    on_forward_end qs m = (x, t) \<Longrightarrow> std_run H G t"
| free: "std_run H G m \<Longrightarrow> standard_free_seq sid m = (x, t) \<Longrightarrow> std_run H G t"
| evict: "std_run H G m \<Longrightarrow> evict_prefix_cache_until_free n m = (x, t) \<Longrightarrow> std_run H G t"

lemma standard_free_seq_outcome:
  assumes inv: "std_inv P G T m" and run: "standard_free_seq sid m = (x, t)"
  shows "std_inv P G T t"
proof (cases "owner m sid")
  case None
  then show ?thesis using inv run by (simp add: standard_free_seq_def owner_def)
next
  case (Some r)
  then show ?thesis using standard_free_seq_inv [OF inv Some] run by auto
qed

theorem std_run_inv: "std_run H G m \<Longrightarrow> std_inv {#} G no_tail m"
proof (induction rule: std_run.induct)
  case (start n rows maxlen tokens seqs fp cap name enabled bs heap0 m G)
  then show ?case using make_std_cache_inv(1) by blast
next
  case (admit G m G')
  show ?case by (rule promises_free [OF admit.IH admit.hyps(2)])
next
  case (prefill G m qs inp t)
  show ?case by (rule prepare_prefill_inv(1) [OF prefill.IH prefill.hyps(2,3,4)])
next
  case (decode G m qs inp t)
  show ?case by (rule prepare_decode_inv(1) [OF decode.IH decode.hyps(2,3,4)])
next
  case (attach G m q x t)
  show ?case using attach_len [OF attach.IH refl attach.hyps(2)] attach.hyps(3) by auto
next
  case (forward_end G m qs x t)
  from forward_end_inv [OF forward_end.IH, of qs] forward_end.hyps(2,3) show ?case by auto
next
  case (free G m sid x t)
  show ?case by (rule standard_free_seq_outcome [OF free.IH free.hyps(2)])
next
  case (evict G m n x t)
  show ?case using evict_until_free_inv [OF evict.IH] evict.hyps(2) by (metis prod.inject)
qed

section \<open>What a reachable manager guarantees\<close>

definition live_slot :: "std_cache \<Rightarrow> int \<Rightarrow> int \<Rightarrow> bool" where
  "live_slot m sid v \<longleftrightarrow>
     (\<exists>r k. owner m sid = Some r \<and> 0 \<le> k \<and> k < row_len m r \<and> cell m r k = v)"

lemma live_cases:
  assumes inv: "std_inv P G T m" and live: "live_slot m sid v"
  shows "sid \<in> owners m \<and> (v \<in># private_slots m sid \<or> (\<exists>b\<in>set (held_blocks m sid). v \<in> set (block_slots m b)))"
proof -
  from live obtain r k where r: "owner m sid = Some r" "0 \<le> k" "k < row_len m r" "cell m r k = v"
    by (auto simp: live_slot_def)
  then have so: "sid \<in> owners m" by (auto simp: owners_def)
  show ?thesis
  proof (cases "covered (ranges_of m sid) k")
    case True
    then obtain s e where se: "(s, e) \<in> set (ranges_of m sid)" "s \<le> k" "k < e" by (auto simp: covered_def)
    have "layout_ok (G sid) (T sid) m sid r" by (rule seqs_okD(2) [OF std_invD(5) [OF inv] r(1)])
    then have "covers m (held_blocks m sid) r (s, e)" using se(1) unfolding layout_ok_def by blast
    then obtain b where b: "b \<in> set (held_blocks m sid)" "block_slots m b = cells m r s e" by (auto simp: covers_def)
    have "v \<in> set (cells m r s e)" using se r(4) by (auto simp: cells_def)
    then have "\<exists>b\<in>set (held_blocks m sid). v \<in> set (block_slots m b)" using b by metis
    with so show ?thesis by blast
  next
    case False
    then have "k \<in> set (private_positions m sid r)" using r by (simp add: private_positions_def)
    then show ?thesis using r so by (auto simp: private_slots_def)
  qed
qed

lemma slots_once:
  assumes "std_inv P G T m"
  shows "count (all_slots m) v \<le> 1" "v \<in># all_slots m \<Longrightarrow> 0 \<le> v \<and> v < num_kvcache_slots m"
  unfolding std_invD(6) [OF assms] by (auto simp: arange_def)
    (metis One_nat_def count_greater_zero_iff distinct_count_atmost_1 distinct_upto le_less not_in_iff order_refl zero_le)

lemma private_part: "s \<in> owners m \<Longrightarrow> private_slots m s \<subseteq># rows_part m"
  by (simp add: rows_part_remove)

lemma block_part: "b \<in> indexed m \<Longrightarrow> mset (block_slots m b) \<subseteq># blocks_part m"
  by (simp add: blocks_part_def sum.remove)

lemma held_indexed:
  assumes "std_inv P G T m" "b \<in> set (held_blocks m s)"
  shows "b \<in> indexed m"
  using std_invD(4) [OF assms(1)] assms(2) by (auto simp: refs_ok_def)

theorem live_not_free:
  assumes inv: "std_inv P G T m" and live: "live_slot m sid v"
  shows "v \<notin># free_part m" "0 \<le> v \<and> v < num_kvcache_slots m"
proof -
  have v: "v \<in># rows_part m + blocks_part m"
    using live_cases [OF inv live] mset_subset_eqD [OF private_part] mset_subset_eqD [OF block_part]
      held_indexed [OF inv] by fastforce
  then show "0 \<le> v \<and> v < num_kvcache_slots m" by (intro slots_once(2) [OF inv]) (auto simp: all_slots_def)
  have "0 < count (rows_part m) v + count (blocks_part m) v"
    by (rule iffD2 [OF count_greater_zero_iff [of "rows_part m + blocks_part m" v], OF v, unfolded count_union])
  moreover have "count (free_part m) v + count (rows_part m) v + count (blocks_part m) v \<le> 1"
    using slots_once(1) [OF inv, of v] by (simp add: all_slots_def)
  ultimately show "v \<notin># free_part m" unfolding not_in_iff by linarith
qed

theorem shared_only_by_blocks:
  assumes inv: "std_inv P G T m" and a: "live_slot m a v" and b: "live_slot m b v" and ab: "a \<noteq> b"
  shows "\<exists>r\<in>set (held_blocks m a) \<inter> set (held_blocks m b). v \<in> set (block_slots m r)"
proof -
  have once: "count (rows_part m) v + count (blocks_part m) v \<le> 1"
    using slots_once(1) [OF inv, of v] by (simp add: all_slots_def)
  note A = live_cases [OF inv a] and B = live_cases [OF inv b]
  have not_both: "v \<notin># private_slots m x \<or> v \<notin># private_slots m y" if "x \<in> owners m" "y \<in> owners m" "x \<noteq> y" for x y
  proof (rule ccontr)
    assume "\<not> ?thesis"
    then have p: "0 < count (private_slots m x) v" "0 < count (private_slots m y) v"
      unfolding count_greater_zero_iff by auto
    have "rows_part m = private_slots m x + (private_slots m y + (\<Sum>s\<in>owners m - {x} - {y}. private_slots m s))"
      using that by (simp add: rows_part_def sum.remove)
    then have "count (private_slots m x) v + count (private_slots m y) v \<le> count (rows_part m) v" by simp
    then show False using p once by linarith
  qed
  have not_mixed: "v \<notin># private_slots m x" if "x \<in> owners m" "r \<in> indexed m" "v \<in> set (block_slots m r)" for x r
  proof
    assume "v \<in># private_slots m x"
    then have "0 < count (rows_part m) v" unfolding count_greater_zero_iff
      using mset_subset_eqD [OF private_part [OF that(1)]] by simp
    moreover have "0 < count (blocks_part m) v" unfolding count_greater_zero_iff
      using mset_subset_eqD [OF block_part [OF that(2)]] that(3) by simp
    ultimately show False using once by linarith
  qed
  have same: "r = r'" if "r \<in> indexed m" "r' \<in> indexed m" "v \<in> set (block_slots m r)" "v \<in> set (block_slots m r')" for r r'
  proof (rule ccontr)
    assume "r \<noteq> r'"
    then have "r' \<noteq> r" by simp
    then have "blocks_part m = mset (block_slots m r)
        + (mset (block_slots m r') + (\<Sum>s\<in>indexed m - {r} - {r'}. mset (block_slots m s)))"
      using that by (simp add: blocks_part_def sum.remove)
    then have "count (mset (block_slots m r)) v + count (mset (block_slots m r')) v \<le> count (blocks_part m) v" by simp
    moreover have "0 < count (mset (block_slots m r)) v" "0 < count (mset (block_slots m r')) v"
      unfolding count_greater_zero_iff using that by simp_all
    ultimately show False using once by linarith
  qed
  have "\<exists>r\<in>set (held_blocks m a). v \<in> set (block_slots m r)" "\<exists>r\<in>set (held_blocks m b). v \<in> set (block_slots m r)"
    using A B not_both [of a b] not_mixed held_indexed [OF inv] ab by blast+
  then show ?thesis using same held_indexed [OF inv] by blast
qed

end
