(* ===== verification/Prefix_Prune.thy ===== *)
theory Prefix_Prune
  imports Prelude Complex_Main
begin

text \<open>
  \<open>engine/prefix_prune.py\<close> (the checks of a prune request and the selection of the tokens
  a global prune keeps) and \<open>engine/prefill.py\<close> (the execution modes of a prefill). Scores
  are finite floats, taken as rationals.
\<close>

section \<open>Prefill execution modes\<close>

definition CHUNKED :: string where "CHUNKED = ''chunked''"
definition FULL :: string where "FULL = ''full''"
definition RAW_OFFLOAD :: string where "RAW_OFFLOAD = ''raw_offload''"

definition SUPPORTED_PREFILL_EXECUTION_MODES :: "string list" where
  "SUPPORTED_PREFILL_EXECUTION_MODES = [CHUNKED, FULL, RAW_OFFLOAD]"

definition validate_prefill_execution_mode :: "string \<Rightarrow> string res" where
  "validate_prefill_execution_mode m =
     (if m \<notin> set SUPPORTED_PREFILL_EXECUTION_MODES then
        Inl (ValueError ''Unsupported prefill execution mode='')
      else Inr m)"

section \<open>Prune requests\<close>

definition validate_prefix_prune_request ::
    "int \<Rightarrow> int \<Rightarrow> int \<Rightarrow> int \<Rightarrow> int \<Rightarrow> string \<Rightarrow> string res" where
  "validate_prefix_prune_request token_count range_start range_end keep_tokens block_size policy =
     (if policy \<notin> {''snapkv_global'', ''kvzip_global''} then
        Inl (ValueError ''prefix prune policy must be 'snapkv_global' or 'kvzip_global', '')
      else if block_size \<le> 0 then Inl (ValueError ''prefix prune block_size must be positive, got '')
      else if range_start < 0 \<or> range_end \<le> range_start \<or> token_count < range_end then
        Inl (ValueError ''prefix prune range must satisfy 0 <= L < R <= selector length: '')
      else if range_start mod block_size \<noteq> 0 \<or> range_end mod block_size \<noteq> 0 then
        Inl (ValueError ''prefix prune range must be block-aligned: '')
      else if keep_tokens < 0 \<or> range_end - range_start \<le> keep_tokens then
        Inl (ValueError ''prefix prune keep_tokens must satisfy 0 <= keep_tokens < R-L: '')
      else Inr policy)"

text \<open>An accepted request removes at least one token from a whole number of blocks.\<close>

theorem prune_request_spec:
  "validate_prefix_prune_request n l r k b p = Inr q \<longleftrightarrow>
     q = p \<and> (p = ''snapkv_global'' \<or> p = ''kvzip_global'') \<and> 0 < b \<and> 0 \<le> l \<and> l < r \<and> r \<le> n
     \<and> b dvd l \<and> b dvd r \<and> 0 \<le> k \<and> k < r - l"
proof (cases "p \<in> {''snapkv_global'', ''kvzip_global''}")
  case True
  then show ?thesis
    by (simp only: validate_prefix_prune_request_def simp_thms if_False)
      (simp add: dvd_eq_mod_eq_0 not_less not_le eq_commute [of q]; linarith?; blast)
next
  case False
  then show ?thesis by (simp add: validate_prefix_prune_request_def)
qed

section \<open>Selecting the tokens to keep\<close>

definition prune_key :: "rat list \<Rightarrow> nat \<Rightarrow> rat \<times> nat" where
  "prune_key scores i = (- (scores ! i), i)"

definition select_global_keep_indices :: "rat list \<Rightarrow> int \<Rightarrow> int list option \<Rightarrow> nat list res" where
  "select_global_keep_indices scores keep_tokens protected_indices =
     (if keep_tokens < 0 \<or> int (length scores) < keep_tokens then
        Inl (ValueError ''invalid global keep budget: keep='')
      else
        (let given = (case protected_indices of None \<Rightarrow> [] | Some ps \<Rightarrow> ps)
         in if \<exists>p\<in>set given. p < 0 \<or> int (length scores) \<le> p then
              Inl (ValueError ''protected token index is out of range: '')
            else
              (let protected = remdups (map nat given)
               in if keep_tokens < int (length protected) then
                    Inl (ValueError ''protected prefix-prune tokens exceed keep budget: '')
                  else
                    (let candidates = filter (\<lambda>i. i \<notin> set protected) [0..<length scores];
                         ranked = sort_key (prune_key scores) candidates
                     in Inr (sorted_list_of_set
                          (set protected \<union> set (take (nat keep_tokens - length protected) ranked)))))))"

lemma take_sorted_least:
  fixes f :: "'a \<Rightarrow> 'b::linorder"
  assumes "i \<in> set (take n (sort_key f xs))" "j \<in> set xs" "j \<notin> set (take n (sort_key f xs))"
  shows "f i \<le> f j"
proof -
  let ?s = "sort_key f xs"
  obtain a where a: "a < n" "a < length ?s" "?s ! a = i" using assms(1) by (auto simp: in_set_conv_nth)
  have "j \<in> set ?s" using assms(2) by simp
  then obtain b where b: "b < length ?s" "?s ! b = j" by (metis in_set_conv_nth)
  have "n \<le> b"
  proof (rule ccontr)
    assume "\<not> n \<le> b"
    with b have "j \<in> set (take n ?s)" by (auto simp: in_set_conv_nth)
    with assms(3) show False ..
  qed
  have "sorted (map f ?s)" by (rule sorted_sort_key)
  then have "map f ?s ! a \<le> map f ?s ! b"
    using a b \<open>n \<le> b\<close> by (intro sorted_nth_mono) auto
  with a b show ?thesis by simp
qed

theorem select_keep_spec:
  assumes run: "select_global_keep_indices scores keep protected = Inr sel"
  defines "prot \<equiv> nat ` set (case protected of None \<Rightarrow> [] | Some ps \<Rightarrow> ps)"
  shows "sorted sel" "distinct sel" "int (length sel) = keep" "prot \<subseteq> set sel"
    "set sel \<subseteq> {..<length scores}"
    "i \<in> set sel - prot \<Longrightarrow> j < length scores \<Longrightarrow> j \<notin> set sel \<Longrightarrow>
       scores ! j < scores ! i \<or> scores ! j = scores ! i \<and> i < j"
proof -
  let ?given = "case protected of None \<Rightarrow> [] | Some ps \<Rightarrow> ps"
  define P where "P = remdups (map nat ?given)"
  define C where "C = filter (\<lambda>i. i \<notin> set P) [0..<length scores]"
  define R where "R = sort_key (prune_key scores) C"
  define k where "k = nat keep - length P"
  have b: "0 \<le> keep" "keep \<le> int (length scores)" "\<forall>p\<in>set ?given. 0 \<le> p \<and> p < int (length scores)"
    "int (length P) \<le> keep" and sel: "sel = sorted_list_of_set (set P \<union> set (take k R))"
    using run by (auto simp: select_global_keep_indices_def Let_def P_def C_def R_def k_def
        not_less not_le split: if_splits)
  have prot: "prot = set P" by (simp add: prot_def P_def)
  have Pb: "set P \<subseteq> {..<length scores}" using b(3) by (auto simp: P_def)
  have Cs: "set C = {..<length scores} - set P" by (auto simp: C_def)
  have Rs: "set R = set C" by (simp add: R_def)
  have Rd: "distinct R" by (simp add: R_def C_def)
  have fin: "finite (set P \<union> set (take k R))" by simp
  have sets: "set sel = set P \<union> set (take k R)" by (simp add: sel)
  show "sorted sel" "distinct sel" by (simp_all add: sel)
  show "prot \<subseteq> set sel" by (simp add: prot sets)
  show "set sel \<subseteq> {..<length scores}"
    using Pb Cs Rs set_take_subset [of k R] by (auto simp: sets)
  have cP: "card (set P) = length P" unfolding P_def by (rule distinct_card) simp
  have "card (set C) = card {..<length scores} - card (set P)"
    unfolding Cs using Pb by (intro card_Diff_subset) auto
  then have "card (set C) = length scores - length P" using cP by simp
  then have lenR: "length R = length scores - length P"
    using Rd Rs by (simp add: distinct_card [symmetric])
  have "length sel = card (set P \<union> set (take k R))" by (simp add: sel)
  also have "\<dots> = card (set P) + card (set (take k R))"
    using Cs Rs set_take_subset [of k R] by (intro card_Un_disjoint) auto
  also have "card (set P) = length P" by (rule cP)
  also have "card (set (take k R)) = k"
  proof -
    have "k \<le> length R" using lenR b k_def by linarith
    then show ?thesis using Rd by (simp add: distinct_card)
  qed
  finally show "int (length sel) = keep" using b k_def by simp
  assume i: "i \<in> set sel - prot" and j: "j < length scores" "j \<notin> set sel"
  have "i \<in> set (take k R)" using i by (auto simp: sets prot)
  moreover have "j \<in> set C" "j \<notin> set (take k R)" using j by (auto simp: sets Cs)
  ultimately have "prune_key scores i \<le> prune_key scores j"
    unfolding R_def by (rule take_sorted_least)
  moreover have "i \<noteq> j" using i j by auto
  ultimately show "scores ! j < scores ! i \<or> scores ! j = scores ! i \<and> i < j"
    by (auto simp: prune_key_def less_eq_prod_def)
qed

end
