(* ===== verification/Memory_Oracle.thy ===== *)
theory Memory_Oracle
  imports Sequence Prefix_Prune
begin

text \<open>
  The interface the scheduler sees of the cache managers: \<open>MemoryOracle\<close> of
  \<open>engine/runtime_state.py\<close>, with the default implementations of
  \<open>engine/cache_manager/base.py\<close>.

  The oracle is a record of functions over a memory state \<open>'m\<close>; \<open>'k\<close> is the type of its
  batch compatibility keys. Queries read the memory and the sequence. The operations that
  write (a method's execution mode is sticky, a prefix lookup may change the index and fills
  in the hit fields of the sequence) are effects.
\<close>

section \<open>The interface\<close>

record ('m, 'k) memory_oracle =
  num_free_slots :: "'m \<Rightarrow> int"
  prefill_batched_tokens_margin :: "'m \<Rightarrow> int"
  remaining_prefill_tokens :: "'m \<Rightarrow> seq \<Rightarrow> int"
  prefill_execution_mode :: "seq \<Rightarrow> ('m, py_error, string) eff"
  prefill_batch_compatibility_key :: "'m \<Rightarrow> seq \<Rightarrow> 'k option"
  reset_prefill_execution_state :: "int \<Rightarrow> 'm \<Rightarrow> 'm"
  complete_prefill_execution :: "seq \<Rightarrow> 'm \<Rightarrow> 'm"
  reserved_prefill_slots :: "'m \<Rightarrow> seq list \<Rightarrow> int \<Rightarrow> int"
  should_schedule_full_prefill :: "'m \<Rightarrow> seq \<Rightarrow> bool"
  prefill_step_free_slots :: "'m \<Rightarrow> int"
  prefill_step_free_slots_for :: "'m \<Rightarrow> seq \<Rightarrow> int"
  min_final_prefill_chunk_size :: "'m \<Rightarrow> seq \<Rightarrow> int"
  prefill_step_reservation_cost :: "'m \<Rightarrow> seq \<Rightarrow> int \<Rightarrow> int"
  decode_step_free_slots :: "'m \<Rightarrow> int"
  decode_step_free_slots_for :: "'m \<Rightarrow> seq \<Rightarrow> int"
  decode_step_reservation_cost :: "'m \<Rightarrow> seq \<Rightarrow> int"
  prompt_admission_free_slots :: "'m \<Rightarrow> int"
  prompt_admission_budgets :: "'m \<Rightarrow> seq list \<Rightarrow> int \<Rightarrow> (string, int) dict"
  prompt_admission_costs :: "'m \<Rightarrow> seq \<Rightarrow> (string, int) dict"
  prompt_logical_reservation_cost :: "'m \<Rightarrow> seq \<Rightarrow> int"
  prompt_admission_failure_action :: "'m \<Rightarrow> string"
  on_prompt_admitted :: "seq \<Rightarrow> (string, int) dict \<Rightarrow> 'm \<Rightarrow> 'm"
  refresh_prefix_cache_hit :: "(seq \<times> 'm, py_error, unit) eff"
  oracle_clear_prefix_cache_hit :: "seq \<Rightarrow> 'm \<Rightarrow> seq \<times> 'm"

text \<open>
  \<open>prefill_batch_compatibility_key\<close> is \<open>None\<close> for a key that Python cannot hash.
\<close>

section \<open>The default implementations\<close>

record base_memory =
  free_slots :: int
  raw_offload_prefill_phases :: "(int, bool) dict"

definition base_remaining_prefill_tokens :: "base_memory \<Rightarrow> seq \<Rightarrow> int" where
  "base_remaining_prefill_tokens m q =
     (let virtual_prefilled = max (num_prefilled_tokens q) (prefix_cache_hit_len q)
      in num_prompt_tokens q - virtual_prefilled)"

definition apply_sticky_raw_offload_mode :: "seq \<Rightarrow> string \<Rightarrow> base_memory \<Rightarrow> string \<times> base_memory" where
  "apply_sticky_raw_offload_mode q m s =
     (let sid = seq_id q; replay_phase = is_recompute_replay q;
          phases = raw_offload_prefill_phases s;
          phases1 = (case dict_get phases sid of
              None \<Rightarrow> phases
            | Some previous \<Rightarrow> if previous \<noteq> replay_phase then dict_del sid phases else phases)
      in if dict_get phases1 sid \<noteq> None then
           (RAW_OFFLOAD, s\<lparr>raw_offload_prefill_phases := phases1\<rparr>)
         else (m, s\<lparr>raw_offload_prefill_phases :=
                 (if m = RAW_OFFLOAD then dict_set sid replay_phase phases1 else phases1)\<rparr>))"

definition base_reset_prefill_execution_state :: "int \<Rightarrow> base_memory \<Rightarrow> base_memory" where
  "base_reset_prefill_execution_state sid m =
     m\<lparr>raw_offload_prefill_phases := dict_del sid (raw_offload_prefill_phases m)\<rparr>"

definition base_reserved_prefill_slots :: "base_memory \<Rightarrow> seq list \<Rightarrow> int \<Rightarrow> int" where
  "base_reserved_prefill_slots m waiting_seqs chunk =
     fold (\<lambda>q reserved.
        if 0 < num_prefilled_tokens q \<and> num_prefilled_tokens q < num_prompt_tokens q
        then reserved + (num_prompt_tokens q - num_prefilled_tokens q) else reserved) waiting_seqs 0"

definition base_prompt_admission_cost :: "base_memory \<Rightarrow> seq \<Rightarrow> int" where
  "base_prompt_admission_cost m q = num_prompt_tokens q - prefix_cache_hit_len q"

definition base_prompt_admission_budgets :: "base_memory \<Rightarrow> seq list \<Rightarrow> int \<Rightarrow> (string, int) dict" where
  "base_prompt_admission_budgets m waiting_seqs chunk =
     [(''slots'', max 0 (free_slots m - base_reserved_prefill_slots m waiting_seqs chunk))]"

definition base_prompt_admission_costs :: "base_memory \<Rightarrow> seq \<Rightarrow> (string, int) dict" where
  "base_prompt_admission_costs m q = [(''slots'', base_prompt_admission_cost m q)]"

definition base_refresh_prefix_cache_hit :: "(seq \<times> base_memory, py_error, unit) eff" where
  "base_refresh_prefix_cache_hit qm = (Inr (), (clear_prefix_cache_hit (fst qm), snd qm))"

definition base_oracle :: "(base_memory, unit) memory_oracle" where
  "base_oracle =
     \<lparr>num_free_slots = free_slots,
      prefill_batched_tokens_margin = (\<lambda>m. 0),
      remaining_prefill_tokens = base_remaining_prefill_tokens,
      prefill_execution_mode = (\<lambda>q m. (Inr CHUNKED, m)),
      prefill_batch_compatibility_key = (\<lambda>m q. Some ()),
      reset_prefill_execution_state = base_reset_prefill_execution_state,
      complete_prefill_execution = (\<lambda>q. base_reset_prefill_execution_state (seq_id q)),
      reserved_prefill_slots = base_reserved_prefill_slots,
      should_schedule_full_prefill = (\<lambda>m q. False),
      prefill_step_free_slots = free_slots,
      prefill_step_free_slots_for = (\<lambda>m q. free_slots m),
      min_final_prefill_chunk_size = (\<lambda>m q. 0),
      prefill_step_reservation_cost = (\<lambda>m q scheduled_tokens. scheduled_tokens),
      decode_step_free_slots = free_slots,
      decode_step_free_slots_for = (\<lambda>m q. free_slots m),
      decode_step_reservation_cost = (\<lambda>m q. 1),
      prompt_admission_free_slots = free_slots,
      prompt_admission_budgets = base_prompt_admission_budgets,
      prompt_admission_costs = base_prompt_admission_costs,
      prompt_logical_reservation_cost = base_prompt_admission_cost,
      prompt_admission_failure_action = (\<lambda>m. ''defer''),
      on_prompt_admitted = (\<lambda>q costs m. m),
      refresh_prefix_cache_hit = base_refresh_prefix_cache_hit,
      oracle_clear_prefix_cache_hit = (\<lambda>q m. (clear_prefix_cache_hit q, m))\<rparr>"

lemma base_oracle_simps [simp]:
  "num_free_slots base_oracle = free_slots"
  "remaining_prefill_tokens base_oracle = base_remaining_prefill_tokens"
  "prefill_execution_mode base_oracle q m = (Inr CHUNKED, m)"
  "prefill_batch_compatibility_key base_oracle m q = Some ()"
  "refresh_prefix_cache_hit base_oracle = base_refresh_prefix_cache_hit"
  "oracle_clear_prefix_cache_hit base_oracle q m = (clear_prefix_cache_hit q, m)"
  "min_final_prefill_chunk_size base_oracle m q = 0"
  "prefill_step_free_slots base_oracle = free_slots"
  "prefill_step_free_slots_for base_oracle m q = free_slots m"
  "should_schedule_full_prefill base_oracle m q = False"
  "prefill_step_reservation_cost base_oracle m q c = c"
  "decode_step_free_slots base_oracle = free_slots"
  "decode_step_free_slots_for base_oracle m q = free_slots m"
  "decode_step_reservation_cost base_oracle m q = 1"
  "prefill_batched_tokens_margin base_oracle m = 0"
  "prompt_admission_failure_action base_oracle m = ''defer''"
  "prompt_admission_budgets base_oracle = base_prompt_admission_budgets"
  "prompt_admission_costs base_oracle = base_prompt_admission_costs"
  "prompt_logical_reservation_cost base_oracle = base_prompt_admission_cost"
  "prompt_admission_free_slots base_oracle = free_slots"
  "reserved_prefill_slots base_oracle = base_reserved_prefill_slots"
  "on_prompt_admitted base_oracle q costs m = m"
  by (simp_all add: base_oracle_def)

section \<open>The sticky mode\<close>

text \<open>
  Once a prompt is staged through raw offload it stays there until the state is reset or the
  sequence moves between its first prefill and a replay; other sequences are not touched.
\<close>

lemma sticky_raw_offload:
  assumes "apply_sticky_raw_offload_mode q RAW_OFFLOAD m = (x, m1)"
    and "seq_id r = seq_id q" "is_recompute_replay r = is_recompute_replay q"
  shows "fst (apply_sticky_raw_offload_mode r md m1) = RAW_OFFLOAD"
    and "snd (apply_sticky_raw_offload_mode r md m1) = m1"
    and "fst (apply_sticky_raw_offload_mode r md (base_reset_prefill_execution_state (seq_id q) m1)) = md"
  using assms
  by (auto simp: apply_sticky_raw_offload_mode_def base_reset_prefill_execution_state_def Let_def
      split: if_splits option.splits)

end
