(* ===== verification/Topology.thy ===== *)
theory Topology
  imports Prelude
begin

text \<open>
  \<open>distributed/topology.py\<close> and \<open>distributed/sharding.py\<close>: the parallel layout of a
  deployment, the mapping between world ranks and (data, expert, tensor) ranks, the
  communicator groups of both modes and the divisibility checks of a model.
\<close>

section \<open>Layouts\<close>

datatype parallel_mode = STANDARD | OUTER_TP_MOE

record topology =
  tensor_parallel_size :: int
  expert_parallel_size :: int
  data_parallel_size :: int
  mode :: parallel_mode

definition make_topology :: "int \<Rightarrow> int \<Rightarrow> int \<Rightarrow> parallel_mode \<Rightarrow> topology res" where
  "make_topology tp ep dp m =
     (if tp \<le> 0 \<or> ep \<le> 0 \<or> dp \<le> 0 then Inl (ValueError ''Parallel sizes must be positive, '')
      else if m = OUTER_TP_MOE \<and> dp \<noteq> 1 then
        Inl (ValueError ''Outer-TP MoE parallelism requires DP=1, '')
      else if m = OUTER_TP_MOE \<and> tp mod ep \<noteq> 0 then
        Inl (ValueError ''Outer-TP MoE requires TP divisible by EP, '')
      else Inr \<lparr>tensor_parallel_size = tp, expert_parallel_size = ep, data_parallel_size = dp,
                mode = m\<rparr>)"

definition is_outer_tp_moe :: "topology \<Rightarrow> bool" where
  "is_outer_tp_moe t \<longleftrightarrow> mode t = OUTER_TP_MOE"

definition attention_tp_size :: "topology \<Rightarrow> int" where
  "attention_tp_size t = tensor_parallel_size t"

definition moe_tp_size :: "topology \<Rightarrow> int" where
  "moe_tp_size t =
     (if is_outer_tp_moe t then tensor_parallel_size t div expert_parallel_size t
      else tensor_parallel_size t)"

definition world_size :: "topology \<Rightarrow> int" where
  "world_size t =
     (if is_outer_tp_moe t then tensor_parallel_size t
      else tensor_parallel_size t * expert_parallel_size t * data_parallel_size t)"

definition topology_ok :: "topology \<Rightarrow> bool" where
  "topology_ok t \<longleftrightarrow>
     0 < tensor_parallel_size t \<and> 0 < expert_parallel_size t \<and> 0 < data_parallel_size t
     \<and> (is_outer_tp_moe t \<longrightarrow>
          data_parallel_size t = 1 \<and> expert_parallel_size t dvd tensor_parallel_size t)"

lemma make_topology_ok: "make_topology tp ep dp m = Inr t \<Longrightarrow> topology_ok t"
  by (auto simp: make_topology_def topology_ok_def is_outer_tp_moe_def dvd_eq_mod_eq_0 split: if_splits)

section \<open>Rank mapping\<close>

definition world_rank_from_parallel_ranks :: "topology \<Rightarrow> int \<Rightarrow> int \<Rightarrow> int \<Rightarrow> int res" where
  "world_rank_from_parallel_ranks t dp_rank ep_rank tp_rank =
     (if is_outer_tp_moe t then
        Inl (ValueError ''Outer-TP MoE does not use standard DP/EP/TP rank mapping.'')
      else if \<not> (0 \<le> dp_rank \<and> dp_rank < data_parallel_size t) then
        Inl (ValueError ''dp_rank must be in [0, '')
      else if \<not> (0 \<le> ep_rank \<and> ep_rank < expert_parallel_size t) then
        Inl (ValueError ''ep_rank must be in [0, '')
      else if \<not> (0 \<le> tp_rank \<and> tp_rank < tensor_parallel_size t) then
        Inl (ValueError ''tp_rank must be in [0, '')
      else Inr ((dp_rank * expert_parallel_size t + ep_rank) * tensor_parallel_size t + tp_rank))"

definition parallel_ranks_from_world_rank :: "topology \<Rightarrow> int \<Rightarrow> (int \<times> int \<times> int) res" where
  "parallel_ranks_from_world_rank t world_rank =
     (if is_outer_tp_moe t then
        Inl (ValueError ''Outer-TP MoE does not use standard DP/EP/TP rank mapping.'')
      else if \<not> (0 \<le> world_rank \<and> world_rank < world_size t) then
        Inl (ValueError ''world_rank must be in [0, '')
      else
        (let dp_ep_rank = world_rank div tensor_parallel_size t;
             tp_rank = world_rank mod tensor_parallel_size t
         in Inr (dp_ep_rank div expert_parallel_size t, dp_ep_rank mod expert_parallel_size t, tp_rank)))"

section \<open>Communicator groups\<close>

record groups =
  tensor :: "int list list"
  expert :: "int list list"
  data :: "int list list"
  moe_tensor :: "int list list"

text \<open>The tuple comprehensions: an outer pair of ranges, one group per pair, an inner range.\<close>

definition group_table :: "(int \<Rightarrow> int \<Rightarrow> int \<Rightarrow> int res) \<Rightarrow> int \<Rightarrow> int \<Rightarrow> int \<Rightarrow> int list list res" where
  "group_table f m n k =
     mapE (\<lambda>(a, b). mapE (f a b) [0..k - 1]) (List.product [0..m - 1] [0..n - 1])"

definition standard_group_ranks :: "topology \<Rightarrow> groups res" where
  "standard_group_ranks t =
     (let tp = tensor_parallel_size t; ep = expert_parallel_size t; dp = data_parallel_size t;
          rank = world_rank_from_parallel_ranks t
      in case group_table (\<lambda>d e k. rank d e k) dp ep tp of Inl x \<Rightarrow> Inl x | Inr tensor_groups \<Rightarrow>
        (case group_table (\<lambda>d k e. rank d e k) dp tp ep of Inl x \<Rightarrow> Inl x | Inr expert_groups \<Rightarrow>
        (case group_table (\<lambda>e k d. rank d e k) ep tp dp of Inl x \<Rightarrow> Inl x | Inr data_groups \<Rightarrow>
          Inr \<lparr>tensor = tensor_groups, expert = expert_groups, data = data_groups,
               moe_tensor = tensor_groups\<rparr>)))"

definition outer_tp_moe_group_ranks :: "topology \<Rightarrow> groups" where
  "outer_tp_moe_group_ranks t =
     (let outer = attention_tp_size t; ep = expert_parallel_size t; mtp = moe_tp_size t
      in \<lparr>tensor = [[0..outer - 1]],
          expert = map (\<lambda>k. map (\<lambda>e. e * mtp + k) [0..ep - 1]) [0..mtp - 1],
          data = map (\<lambda>r. [r]) [0..outer - 1],
          moe_tensor = map (\<lambda>e. [e * mtp..(e + 1) * mtp - 1]) [0..ep - 1]\<rparr>)"

definition parallel_group_ranks :: "topology \<Rightarrow> groups res" where
  "parallel_group_ranks t =
     (if is_outer_tp_moe t then Inr (outer_tp_moe_group_ranks t) else standard_group_ranks t)"

section \<open>The rank mapping is a bijection\<close>

lemma rank_bounds:
  fixes d e k :: int
  assumes "0 \<le> d" "d < D" "0 \<le> e" "e < E" "0 \<le> k" "k < T"
  shows "0 \<le> (d * E + e) * T + k" "(d * E + e) * T + k < T * E * D"
proof -
  have 1: "0 \<le> d * E + e" using assms by simp
  then show "0 \<le> (d * E + e) * T + k" using assms by simp
  have "(d + 1) * E \<le> D * E" using assms by (intro mult_right_mono) auto
  then have "d * E + e + 1 \<le> D * E" using assms by (simp add: algebra_simps)
  then have "(d * E + e + 1) * T \<le> D * E * T" using assms by (intro mult_right_mono) auto
  then show "(d * E + e) * T + k < T * E * D" using assms by (simp add: algebra_simps)
qed

lemma rank_digits:
  fixes d e k :: int
  assumes "0 \<le> e" "e < E" "0 \<le> k" "k < T"
  shows "((d * E + e) * T + k) div T = d * E + e" "((d * E + e) * T + k) mod T = k"
    "(d * E + e) div E = d" "(d * E + e) mod E = e"
proof -
  have "T \<noteq> 0" "E \<noteq> 0" using assms by auto
  then show "((d * E + e) * T + k) div T = d * E + e" "((d * E + e) * T + k) mod T = k"
    "(d * E + e) div E = d" "(d * E + e) mod E = e"
    using assms by (simp_all add: div_pos_pos_trivial mod_pos_pos_trivial)
qed

lemma digit_inj:
  fixes b c M :: int
  assumes "0 \<le> b" "b < M" "0 \<le> b'" "b' < M" "c * M + b = c' * M + b'"
  shows "c = c' \<and> b = b'"
  using rank_digits(1,2) [of 0 1 b M c] rank_digits(1,2) [of 0 1 b' M c'] assms
  by (metis add.right_neutral mult.right_neutral zero_less_one order_refl)

lemma div_below:
  fixes r N T :: int
  assumes "0 < T" "r < N * T"
  shows "r div T < N"
proof (rule ccontr)
  assume "\<not> r div T < N"
  then have "N * T \<le> r div T * T" using assms(1) by (intro mult_right_mono) auto
  also have "\<dots> \<le> r" using assms(1) by (metis div_mult_mod_eq le_add_same_cancel1 pos_mod_sign)
  finally show False using assms(2) by simp
qed

theorem rank_roundtrip:
  assumes "world_rank_from_parallel_ranks t d e k = Inr r"
  shows "parallel_ranks_from_world_rank t r = Inr (d, e, k)"
proof -
  from assms have b: "\<not> is_outer_tp_moe t" "0 \<le> d" "d < data_parallel_size t" "0 \<le> e"
    "e < expert_parallel_size t" "0 \<le> k" "k < tensor_parallel_size t"
    and r: "r = (d * expert_parallel_size t + e) * tensor_parallel_size t + k"
    by (auto simp: world_rank_from_parallel_ranks_def split: if_splits)
  with rank_bounds [OF b(2-7)] rank_digits [OF b(4-7)] show ?thesis
    by (simp add: parallel_ranks_from_world_rank_def world_size_def Let_def)
qed

theorem rank_roundtrip_back:
  assumes ok: "topology_ok t" and p: "parallel_ranks_from_world_rank t r = Inr (d, e, k)"
  shows "world_rank_from_parallel_ranks t d e k = Inr r"
proof -
  let ?T = "tensor_parallel_size t" and ?E = "expert_parallel_size t" and ?D = "data_parallel_size t"
  from p have o: "\<not> is_outer_tp_moe t" and r: "0 \<le> r" "r < ?T * ?E * ?D"
    and d: "d = r div ?T div ?E" and e: "e = r div ?T mod ?E" and k: "k = r mod ?T"
    by (auto simp: parallel_ranks_from_world_rank_def world_size_def Let_def split: if_splits)
  have pos: "0 < ?T" "0 < ?E" "0 < ?D" using ok by (auto simp: topology_ok_def)
  have "r < ?E * ?D * ?T" using r(2) by (simp only: ac_simps)
  then have "r div ?T < ?D * ?E" using div_below [OF pos(1)] by (simp add: mult.commute)
  then have "d < ?D" unfolding d by (rule div_below [OF pos(2)])
  moreover have "0 \<le> d" using d r pos by (simp add: pos_imp_zdiv_nonneg_iff)
  moreover have "(d * ?E + e) * ?T + k = r" by (simp add: d e k)
  ultimately show ?thesis using o e k pos by (simp add: world_rank_from_parallel_ranks_def)
qed

section \<open>Every group family partitions the world\<close>

definition partitions :: "int list list \<Rightarrow> int \<Rightarrow> bool" where
  "partitions gs n \<longleftrightarrow> distinct (concat gs) \<and> set (concat gs) = {0..<n} \<and> (\<forall>g\<in>set gs. g \<noteq> [])"

lemma group_table_total:
  assumes "\<And>a b c. 0 \<le> a \<Longrightarrow> a < m \<Longrightarrow> 0 \<le> b \<Longrightarrow> b < n \<Longrightarrow> 0 \<le> c \<Longrightarrow> c < k \<Longrightarrow> f a b c = Inr (g a b c)"
  shows "group_table f m n k =
    Inr (map (\<lambda>(a, b). map (g a b) [0..k - 1]) (List.product [0..m - 1] [0..n - 1]))"
  unfolding group_table_def
proof (rule mapE_total)
  fix p assume p: "p \<in> set (List.product [0..m - 1] [0..n - 1])"
  obtain a b where "p = (a, b)" by (rule prod.exhaust)
  with p have "p = (a, b)" "0 \<le> a" "a < m" "0 \<le> b" "b < n" by auto
  then show "(case p of (a, b) \<Rightarrow> mapE (f a b) [0..k - 1]) =
      Inr (case p of (a, b) \<Rightarrow> map (g a b) [0..k - 1])"
    by (simp, intro mapE_total) (auto intro: assms)
qed

lemma table_partitions:
  assumes pos: "0 < m" "0 < n" "0 < k"
    and inj: "\<And>a b c a' b' c'. 0 \<le> a \<Longrightarrow> a < m \<Longrightarrow> 0 \<le> b \<Longrightarrow> b < n \<Longrightarrow> 0 \<le> c \<Longrightarrow> c < k \<Longrightarrow>
      0 \<le> a' \<Longrightarrow> a' < m \<Longrightarrow> 0 \<le> b' \<Longrightarrow> b' < n \<Longrightarrow> 0 \<le> c' \<Longrightarrow> c' < k \<Longrightarrow>
      g a b c = g a' b' c' \<Longrightarrow> a = a' \<and> b = b' \<and> c = c'"
    and rng: "\<And>a b c. 0 \<le> a \<Longrightarrow> a < m \<Longrightarrow> 0 \<le> b \<Longrightarrow> b < n \<Longrightarrow> 0 \<le> c \<Longrightarrow> c < k \<Longrightarrow>
      0 \<le> g a b c \<and> g a b c < w"
    and onto: "\<And>r. 0 \<le> r \<Longrightarrow> r < w \<Longrightarrow> \<exists>a b c. 0 \<le> a \<and> a < m \<and> 0 \<le> b \<and> b < n \<and> 0 \<le> c \<and> c < k \<and> r = g a b c"
  shows "partitions (map (\<lambda>(a, b). map (g a b) [0..k - 1]) (List.product [0..m - 1] [0..n - 1])) w"
proof -
  let ?P = "List.product (List.product [0..m - 1] [0..n - 1]) [0..k - 1]"
  have "concat (map (\<lambda>(a, b). map (g a b) zs) ps) = map (\<lambda>((a, b), c). g a b c) (List.product ps zs)"
    for ps zs by (induction ps) auto
  then have c: "concat (map (\<lambda>(a, b). map (g a b) [0..k - 1]) (List.product [0..m - 1] [0..n - 1]))
      = map (\<lambda>((a, b), c). g a b c) ?P" .
  have d: "distinct ?P" by (simp add: distinct_product)
  have "inj_on (\<lambda>((a, b), c). g a b c) (set ?P)"
    using inj by (intro inj_onI) fastforce
  with d have "distinct (map (\<lambda>((a, b), c). g a b c) ?P)" by (simp add: distinct_map)
  moreover have "set (map (\<lambda>((a, b), c). g a b c) ?P) = {0..<w}"
  proof (rule set_eqI)
    fix r
    show "r \<in> set (map (\<lambda>((a, b), c). g a b c) ?P) \<longleftrightarrow> r \<in> {0..<w}"
    proof
      assume "r \<in> set (map (\<lambda>((a, b), c). g a b c) ?P)"
      then show "r \<in> {0..<w}" using rng by fastforce
    next
      assume "r \<in> {0..<w}"
      with onto [of r] obtain a b c' where
        "0 \<le> a" "a < m" "0 \<le> b" "b < n" "0 \<le> c'" "c' < k" "r = g a b c'" by auto
      then show "r \<in> set (map (\<lambda>((a, b), c). g a b c) ?P)"
        by (auto intro!: image_eqI [where x = "((a, b), c')"])
    qed
  qed
  moreover have "g' \<noteq> []" if "g' \<in> set (map (\<lambda>(a, b). map (g a b) [0..k - 1]) (List.product [0..m - 1] [0..n - 1]))" for g'
    using that pos(3) by (auto simp: upto_Nil)
  ultimately show ?thesis unfolding partitions_def c by blast
qed

lemma standard_groups_partition:
  assumes ok: "topology_ok t" and o: "\<not> is_outer_tp_moe t"
  shows "\<exists>g. standard_group_ranks t = Inr g \<and> partitions (tensor g) (world_size t)
     \<and> partitions (expert g) (world_size t) \<and> partitions (data g) (world_size t)
     \<and> partitions (moe_tensor g) (world_size t)"
proof -
  let ?T = "tensor_parallel_size t" and ?E = "expert_parallel_size t" and ?D = "data_parallel_size t"
  let ?f = "\<lambda>d e k. (d * ?E + e) * ?T + k"
  have pos: "0 < ?T" "0 < ?E" "0 < ?D" using ok by (auto simp: topology_ok_def)
  have run: "world_rank_from_parallel_ranks t d e k = Inr (?f d e k)"
    if "0 \<le> d" "d < ?D" "0 \<le> e" "e < ?E" "0 \<le> k" "k < ?T" for d e k
    using that o by (simp add: world_rank_from_parallel_ranks_def)
  have inj: "d = d' \<and> e = e' \<and> k = k'"
    if "0 \<le> d" "d < ?D" "0 \<le> e" "e < ?E" "0 \<le> k" "k < ?T" "0 \<le> d'" "d' < ?D" "0 \<le> e'" "e' < ?E"
      "0 \<le> k'" "k' < ?T" "?f d e k = ?f d' e' k'" for d e k d' e' k'
    using rank_digits [OF that(3-6), of d] rank_digits [OF that(9-12), of d'] that(13) by metis
  have rng: "0 \<le> ?f d e k \<and> ?f d e k < world_size t"
    if "0 \<le> d" "d < ?D" "0 \<le> e" "e < ?E" "0 \<le> k" "k < ?T" for d e k
    using rank_bounds [OF that] o by (simp add: world_size_def)
  have onto: "\<exists>d e k. 0 \<le> d \<and> d < ?D \<and> 0 \<le> e \<and> e < ?E \<and> 0 \<le> k \<and> k < ?T \<and> r = ?f d e k"
    if "0 \<le> r" "r < world_size t" for r
  proof -
    have "parallel_ranks_from_world_rank t r = Inr (r div ?T div ?E, r div ?T mod ?E, r mod ?T)"
      using that o by (simp add: parallel_ranks_from_world_rank_def Let_def)
    then obtain d e k where p: "parallel_ranks_from_world_rank t r = Inr (d, e, k)" by blast
    from rank_roundtrip_back [OF ok p] show ?thesis
      by (intro exI [of _ d] exI [of _ e] exI [of _ k])
        (auto simp: world_rank_from_parallel_ranks_def split: if_splits)
  qed
  have 1: "group_table (\<lambda>d e k. world_rank_from_parallel_ranks t d e k) ?D ?E ?T =
      Inr (map (\<lambda>(a, b). map (?f a b) [0..?T - 1]) (List.product [0..?D - 1] [0..?E - 1]))"
    by (rule group_table_total) (rule run)
  have 2: "group_table (\<lambda>d k e. world_rank_from_parallel_ranks t d e k) ?D ?T ?E =
      Inr (map (\<lambda>(a, b). map (\<lambda>c. ?f a c b) [0..?E - 1]) (List.product [0..?D - 1] [0..?T - 1]))"
    by (rule group_table_total) (rule run)
  have 3: "group_table (\<lambda>e k d. world_rank_from_parallel_ranks t d e k) ?E ?T ?D =
      Inr (map (\<lambda>(a, b). map (\<lambda>c. ?f c a b) [0..?D - 1]) (List.product [0..?E - 1] [0..?T - 1]))"
    by (rule group_table_total) (rule run)
  have p1: "partitions (map (\<lambda>(a, b). map (?f a b) [0..?T - 1]) (List.product [0..?D - 1] [0..?E - 1])) (world_size t)"
  proof (rule table_partitions [OF pos(3,2,1)], goal_cases)
    case (1 a b c a' b' c') then show ?case by (intro inj)
  next case (2 a b c) then show ?case by (intro rng)
  next case (3 r) then show ?case by (rule onto)
  qed
  have p2: "partitions (map (\<lambda>(a, b). map (\<lambda>c. ?f a c b) [0..?E - 1]) (List.product [0..?D - 1] [0..?T - 1])) (world_size t)"
  proof (rule table_partitions [OF pos(3,1,2)], goal_cases)
    case (1 a b c a' b' c') then show ?case using inj [of a c b a' c' b'] by blast
  next case (2 a b c) then show ?case by (intro rng)
  next case (3 r) then show ?case using onto [of r] by blast
  qed
  have p3: "partitions (map (\<lambda>(a, b). map (\<lambda>c. ?f c a b) [0..?D - 1]) (List.product [0..?E - 1] [0..?T - 1])) (world_size t)"
  proof (rule table_partitions [OF pos(2,1,3)], goal_cases)
    case (1 a b c a' b' c') then show ?case using inj [of c a b c' a' b'] by blast
  next case (2 a b c) then show ?case by (intro rng)
  next case (3 r) then show ?case using onto [of r] by blast
  qed
  from 1 2 3 p1 p2 p3 show ?thesis by (simp add: standard_group_ranks_def Let_def)
qed

lemma outer_groups_partition:
  assumes ok: "topology_ok t" and o: "is_outer_tp_moe t"
  defines "g \<equiv> outer_tp_moe_group_ranks t"
  shows "partitions (tensor g) (world_size t) \<and> partitions (expert g) (world_size t)
     \<and> partitions (data g) (world_size t) \<and> partitions (moe_tensor g) (world_size t)"
proof -
  let ?T = "tensor_parallel_size t" and ?E = "expert_parallel_size t"
  define M where "M = ?T div ?E"
  have pos: "0 < ?T" "0 < ?E" and dv: "?E dvd ?T" using ok o by (auto simp: topology_ok_def)
  then have T: "?T = ?E * M" and M: "0 < M"
    by (auto simp: M_def pos_imp_zdiv_pos_iff zdvd_imp_le)
  have w: "world_size t = ?T" using o by (simp add: world_size_def)
  have m: "moe_tp_size t = M" using o by (simp add: moe_tp_size_def M_def)
  have up: "set [0..n - 1] = {0..<n}" for n :: int by auto
  have tensor: "partitions (tensor g) ?T"
    using pos by (auto simp: g_def outer_tp_moe_group_ranks_def Let_def attention_tp_size_def partitions_def upto_Nil)
  have "concat (map (\<lambda>r. [r]) xs) = xs" for xs :: "int list" by (induction xs) auto
  then have data: "partitions (data g) ?T"
    by (auto simp: g_def outer_tp_moe_group_ranks_def Let_def attention_tp_size_def partitions_def)
  have T1: "partitions (map (\<lambda>(a, b). map (\<lambda>c. c * M + b) [0..?E - 1]) (List.product [0..1 - 1] [0..M - 1])) ?T"
  proof (rule table_partitions, goal_cases)
    case (4 a b c a' b' c')
    then show ?case using digit_inj [of b M b' c c'] by auto
  next
    case (5 a b c)
    then show ?case using rank_bounds [of c ?E 0 1 b M] by (simp add: T mult.commute)
  next
    case (6 r)
    have "r div M < ?E" using 6 M by (intro div_below) (simp_all add: T)
    moreover have "0 \<le> r div M" using 6 M by (simp add: pos_imp_zdiv_nonneg_iff)
    moreover have "r = r div M * M + r mod M" by simp
    ultimately show ?case using M
      by (intro exI [of _ 0] exI [of _ "r mod M"] exI [of _ "r div M"]) auto
  qed (use pos M in auto)
  have "map (\<lambda>(a, b). map (\<lambda>c. c * M + b) [0..?E - 1]) (List.product [0..1 - 1] [0..M - 1]) =
      map (\<lambda>b. map (\<lambda>c. c * M + b) [0..?E - 1]) [0..M - 1]"
    by (simp add: comp_def)
  with T1 have "partitions (map (\<lambda>b. map (\<lambda>c. c * M + b) [0..?E - 1]) [0..M - 1]) ?T" by (simp only:)
  then have expert: "partitions (expert g) ?T"
    by (simp add: g_def outer_tp_moe_group_ranks_def Let_def m)
  have T2: "partitions (map (\<lambda>(a, b). map (\<lambda>c. b * M + c) [0..M - 1]) (List.product [0..1 - 1] [0..?E - 1])) ?T"
  proof (rule table_partitions, goal_cases)
    case (4 a b c a' b' c')
    then show ?case using digit_inj [of c M c' b b'] by auto
  next
    case (5 a b c)
    then show ?case using rank_bounds [of b ?E 0 1 c M] by (simp add: T mult.commute)
  next
    case (6 r)
    have "r div M < ?E" using 6 M by (intro div_below) (simp_all add: T)
    moreover have "0 \<le> r div M" using 6 M by (simp add: pos_imp_zdiv_nonneg_iff)
    moreover have "r = r div M * M + r mod M" by simp
    ultimately show ?case using M
      by (intro exI [of _ 0] exI [of _ "r div M"] exI [of _ "r mod M"]) auto
  qed (use pos M in auto)
  have shift: "map (\<lambda>c. b * M + c) [0..M - 1] = [b * M..(b + 1) * M - 1]" for b
  proof -
    have "map (\<lambda>c. x + c) [i..j] = [x + i..x + j]" for x i j :: int
    proof (induction i j rule: upto.induct)
      case (1 i j)
      show ?case
      proof (cases "i \<le> j")
        case True
        have "map (\<lambda>c. x + c) [i + 1..j] = [x + (i + 1)..x + j]" by (rule "1.IH" [OF True])
        with True show ?thesis by (simp add: upto_rec1 [of i] upto_rec1 [of "x + i"] add.assoc)
      qed simp
    qed
    from this [of "b * M" 0 "M - 1"] show ?thesis by (simp add: algebra_simps)
  qed
  have "map (\<lambda>(a, b). map (\<lambda>c. b * M + c) [0..M - 1]) (List.product [0..1 - 1] [0..?E - 1]) =
      map (\<lambda>b. [b * M..(b + 1) * M - 1]) [0..?E - 1]"
    by (simp add: comp_def shift)
  with T2 have "partitions (map (\<lambda>b. [b * M..(b + 1) * M - 1]) [0..?E - 1]) ?T" by (simp only:)
  then have moe: "partitions (moe_tensor g) ?T"
    by (simp add: g_def outer_tp_moe_group_ranks_def Let_def m)
  from tensor expert data moe w show ?thesis by simp
qed

theorem groups_partition:
  assumes ok: "topology_ok t"
  shows "\<exists>g. parallel_group_ranks t = Inr g \<and> partitions (tensor g) (world_size t)
     \<and> partitions (expert g) (world_size t) \<and> partitions (data g) (world_size t)
     \<and> partitions (moe_tensor g) (world_size t)"
proof (cases "is_outer_tp_moe t")
  case True
  with outer_groups_partition [OF ok True] show ?thesis by (simp add: parallel_group_ranks_def)
next
  case False
  with standard_groups_partition [OF ok False] show ?thesis by (simp add: parallel_group_ranks_def)
qed

section \<open>Sharding checks\<close>

definition validate_divisible :: "(string, int) dict \<Rightarrow> int \<Rightarrow> unit res" where
  "validate_divisible dims divisor =
     (if \<exists>(name, v)\<in>set dims. v \<le> 0 \<or> v mod divisor \<noteq> 0
      then Inl (ValueError '' dimensions must be positive and divisible by '') else Inr ())"

definition validate_model_sharding ::
    "topology \<Rightarrow> (string, int) dict \<Rightarrow> int option \<Rightarrow> (string, int) dict \<Rightarrow> unit res" where
  "validate_model_sharding t attention_fields num_experts moe_fields =
     (case validate_divisible attention_fields (attention_tp_size t) of
        Inl e \<Rightarrow> Inl e
      | Inr _ \<Rightarrow>
          (case num_experts of
             None \<Rightarrow> Inr ()
           | Some n \<Rightarrow>
               if n \<le> 0 \<or> n mod expert_parallel_size t \<noteq> 0 then
                 Inl (ValueError '' num_experts must be positive and divisible by '')
               else if moe_fields \<noteq> [] then validate_divisible moe_fields (moe_tp_size t)
               else Inr ()))"

definition validate_top_k :: "int \<Rightarrow> int \<Rightarrow> unit res" where
  "validate_top_k top_k num_experts =
     (if \<not> (1 \<le> top_k \<and> top_k \<le> num_experts)
      then Inl (ValueError '' top_k must be in [1, num_experts], '') else Inr ())"

text \<open>Accepted dimensions split evenly: every rank gets the same positive share.\<close>

theorem sharding_shares:
  assumes ok: "topology_ok t" and v: "validate_model_sharding t attn (Some n) moe = Inr ()"
  shows "(f, d) \<in> set attn \<Longrightarrow> \<exists>share. 0 < share \<and> d = share * attention_tp_size t"
    and "\<exists>share. 0 < share \<and> n = share * expert_parallel_size t"
    and "(f, d) \<in> set moe \<Longrightarrow> \<exists>share. 0 < share \<and> d = share * moe_tp_size t"
proof -
  have pos: "0 < attention_tp_size t" "0 < expert_parallel_size t" "0 < moe_tp_size t"
    using ok by (auto simp: topology_ok_def attention_tp_size_def moe_tp_size_def
        pos_imp_zdiv_pos_iff zdvd_imp_le)
  have share: "\<exists>share. 0 < share \<and> x = share * k" if "0 < x" "x mod k = 0" "0 < k" for x k :: int
  proof -
    from that(2) obtain q where "x = k * q" by auto
    with that show ?thesis by (intro exI [of _ q]) (simp add: zero_less_mult_iff mult.commute)
  qed
  show "(f, d) \<in> set attn \<Longrightarrow> \<exists>share. 0 < share \<and> d = share * attention_tp_size t"
    using v pos by (intro share) (auto simp: validate_model_sharding_def validate_divisible_def split: if_splits)
  show "\<exists>share. 0 < share \<and> n = share * expert_parallel_size t"
    using v pos by (intro share) (auto simp: validate_model_sharding_def split: if_splits sum.splits)
  show "(f, d) \<in> set moe \<Longrightarrow> \<exists>share. 0 < share \<and> d = share * moe_tp_size t"
    using v pos by (intro share)
      (auto simp: validate_model_sharding_def validate_divisible_def split: if_splits sum.splits)
qed

end
