(* ===== verification/Method_Registry.thy ===== *)
theory Method_Registry
  imports Topology
begin

text \<open>
  \<open>method_registry.py\<close>: the names of the sparse methods, their aliases, and the tables
  that decide which method runs with which prefill policy, attention contract and model.
  Strings hold code points below 256, with Python's \<open>strip\<close> and \<open>lower\<close> on that range.
\<close>

section \<open>Strings\<close>

definition code :: "char \<Rightarrow> nat" where
  "code c = of_char c"

definition py_space :: "char \<Rightarrow> bool" where
  "py_space c \<longleftrightarrow> (let n = code c in
     9 \<le> n \<and> n \<le> 13 \<or> 28 \<le> n \<and> n \<le> 32 \<or> n = 133 \<or> n = 160)"

definition py_lower_char :: "char \<Rightarrow> char" where
  "py_lower_char c = (let n = code c in
     if 65 \<le> n \<and> n \<le> 90 \<or> 192 \<le> n \<and> n \<le> 222 \<and> n \<noteq> 215 then char_of (n + 32) else c)"

definition py_lower :: "string \<Rightarrow> string" where
  "py_lower = map py_lower_char"

definition py_strip :: "string \<Rightarrow> string" where
  "py_strip s = rev (dropWhile py_space (rev (dropWhile py_space s)))"

definition replace_dash :: "string \<Rightarrow> string" where
  "replace_dash = map (\<lambda>c. if c = CHR ''-'' then CHR ''_'' else c)"

lemma code_lower: "code (py_lower_char c) =
    (if 65 \<le> code c \<and> code c \<le> 90 \<or> 192 \<le> code c \<and> code c \<le> 222 \<and> code c \<noteq> 215
     then code c + 32 else code c)"
  by (simp add: py_lower_char_def code_def Let_def)

lemma lower_space [simp]: "py_space (py_lower_char c) = py_space c"
  by (auto simp: py_space_def Let_def code_lower)

lemma lower_lower [simp]: "py_lower_char (py_lower_char c) = py_lower_char c"
proof -
  have "code (py_lower_char (py_lower_char c)) = code (py_lower_char c)"
    by (simp add: code_lower)
  then show ?thesis by (simp add: code_def of_char_eq_iff)
qed

lemma py_lower_idem [simp]: "py_lower (py_lower s) = py_lower s"
  by (simp add: py_lower_def comp_def)

lemma strip_lower: "py_strip (py_lower s) = py_lower (py_strip s)"
  by (simp add: py_strip_def py_lower_def dropWhile_map comp_def rev_map)

lemma dropWhile_idem: "dropWhile P (dropWhile P xs) = dropWhile P xs"
  by (induction xs) auto

lemma strip_idem [simp]: "py_strip (py_strip s) = py_strip s"
proof -
  let ?a = "dropWhile py_space s"
  let ?b = "dropWhile py_space (rev ?a)"
  have "dropWhile py_space (rev ?b) = rev ?b"
  proof (cases "rev ?b")
    case (Cons x xs)
    have "\<exists>ys. rev ?a = ys @ ?b" by (metis takeWhile_dropWhile_id)
    then obtain ys where "rev ?a = ys @ ?b" ..
    then have "?a = rev ?b @ rev ys" by (metis rev_append rev_rev_ident)
    with Cons have "hd ?a = x" "?a \<noteq> []" by auto
    then have "\<not> py_space x" using hd_dropWhile by blast
    with Cons show ?thesis by simp
  next
    case Nil
    then show ?thesis by (simp only: dropWhile.simps)
  qed
  then show ?thesis by (simp add: py_strip_def dropWhile_idem)
qed

section \<open>Names and aliases\<close>

definition METHOD_ALIASES :: "(string, string) dict" where
  "METHOD_ALIASES =
     [('''', ''''), (''vanilla'', ''''), (''attention-sink'', ''streamingllm''),
      (''attention_sink'', ''streamingllm''), (''r-kv'', ''rkv''), (''r_kv'', ''rkv''),
      (''skip-kv'', ''skipkv''), (''skip_kv'', ''skipkv''), (''shadow-kv'', ''shadowkv''),
      (''shadow_kv'', ''shadowkv''), (''deltakv-less-memory'', ''deltakv''),
      (''deltakv_less_memory'', ''deltakv''), (''deltakv-less-memory-cudagraph'', ''deltakv''),
      (''deltakv_less_memory_cudagraph'', ''deltakv'')]"

definition CANONICAL_SPARSE_METHODS :: "string list" where
  "CANONICAL_SPARSE_METHODS =
     ['''', ''streamingllm'', ''snapkv'', ''h2o'', ''pyramidkv'', ''omnikv'', ''quest'', ''rkv'',
      ''skipkv'', ''deltakv'', ''shadowkv'']"

definition PREFILL_SPARSE_METHOD_ALIASES :: "(string, string) dict" where
  "PREFILL_SPARSE_METHOD_ALIASES =
     [('''', ''''), (''dense'', ''''), (''h2o-prefill'', ''h2o_prefill''),
      (''h2o_prefill'', ''h2o_prefill''), (''flash-prefill-v2'', ''flashprefill_v2''),
      (''flash_prefill_v2'', ''flashprefill_v2''), (''flashprefill-v2'', ''flashprefill_v2''),
      (''flashprefill_v2'', ''flashprefill_v2'')]"

definition CANONICAL_PREFILL_SPARSE_METHODS :: "string list" where
  "CANONICAL_PREFILL_SPARSE_METHODS = ['''', ''h2o_prefill'', ''flashprefill_v2'']"

definition normalize_sparse_method :: "string option \<Rightarrow> string" where
  "normalize_sparse_method method =
     (case method of
        None \<Rightarrow> ''''
      | Some m \<Rightarrow>
          (let normalized = py_lower (py_strip m)
           in case dict_get METHOD_ALIASES normalized of None \<Rightarrow> normalized | Some c \<Rightarrow> c))"

definition normalize_prefill_sparse_method :: "string option \<Rightarrow> string" where
  "normalize_prefill_sparse_method method =
     (case method of
        None \<Rightarrow> ''''
      | Some m \<Rightarrow>
          (case dict_get PREFILL_SPARSE_METHOD_ALIASES m of
             Some c \<Rightarrow> c
           | None \<Rightarrow> replace_dash (py_lower (py_strip m))))"

definition resolve_prefill_sparse_method :: "string option \<Rightarrow> string option \<Rightarrow> string" where
  "resolve_prefill_sparse_method method sparse_method =
     (let normalized = normalize_prefill_sparse_method method
      in if normalized = '''' \<and> normalize_sparse_method sparse_method = ''h2o'' then ''h2o_prefill''
         else normalized)"

section \<open>Attention contracts\<close>

datatype score_kind = NoScore | RAW_QK_PER_HEAD | RAW_QK_REDUCED

datatype score_collection = NoCollection | METHOD_OWNED_POSTHOC_REDUCED | MAIN_ATTENTION_REDUCED

record prefill_contract =
  main_score_kind :: score_kind
  score_collection :: score_collection
  layer_varying_page_table :: bool

definition PREFILL_LAYER_VARYING_PAGE_TABLE :: "(string, bool) dict" where
  "PREFILL_LAYER_VARYING_PAGE_TABLE =
     [('''', False), (''streamingllm'', True), (''snapkv'', True), (''h2o'', True),
      (''pyramidkv'', True), (''omnikv'', False), (''quest'', False), (''rkv'', True),
      (''skipkv'', True), (''deltakv'', True), (''shadowkv'', False)]"

definition PREFILL_POSTHOC_SCORE_METHODS :: "string list" where
  "PREFILL_POSTHOC_SCORE_METHODS = [''snapkv'', ''pyramidkv'', ''h2o'', ''rkv'']"

definition DECODE_ATTENTION_SCORE_KINDS :: "(string, score_kind) dict" where
  "DECODE_ATTENTION_SCORE_KINDS =
     [(''pyramidkv'', RAW_QK_REDUCED), (''omnikv'', RAW_QK_PER_HEAD),
      (''skipkv'', RAW_QK_PER_HEAD), (''deltakv'', RAW_QK_PER_HEAD)]"

definition resolve_sparse_prefill_score_mode :: "string option \<Rightarrow> string option \<Rightarrow> string" where
  "resolve_sparse_prefill_score_mode method configured_mode =
     (case configured_mode of
        None \<Rightarrow> if normalize_sparse_method method = ''snapkv'' then ''logits'' else ''probability''
      | Some m \<Rightarrow> py_lower (py_strip m))"

definition sparse_prefill_attention_contract ::
    "string option \<Rightarrow> string option \<Rightarrow> string option \<Rightarrow> int \<Rightarrow> prefill_contract res" where
  "sparse_prefill_attention_contract method prefill_sparse_method score_mode h2o_window =
     (let normalized = normalize_sparse_method method
      in if normalized \<notin> set CANONICAL_SPARSE_METHODS then
           Inl (ValueError ''Unknown sparse method '')
         else
           let h2o_prefill = (normalized = ''h2o'' \<and>
                 resolve_prefill_sparse_method prefill_sparse_method (Some normalized) = ''h2o_prefill'')
           in case dict_get PREFILL_LAYER_VARYING_PAGE_TABLE normalized of
             None \<Rightarrow> Inl (KeyError normalized)
           | Some varying \<Rightarrow>
               if h2o_prefill \<and>
                  resolve_sparse_prefill_score_mode (Some normalized) score_mode = ''logits'' \<and>
                  h2o_window = 0
               then Inr \<lparr>main_score_kind = RAW_QK_REDUCED,
                         score_collection = MAIN_ATTENTION_REDUCED,
                         layer_varying_page_table = varying\<rparr>
               else Inr \<lparr>main_score_kind = NoScore,
                         score_collection =
                           (if normalized \<in> set PREFILL_POSTHOC_SCORE_METHODS
                            then METHOD_OWNED_POSTHOC_REDUCED else NoCollection),
                         layer_varying_page_table = varying\<rparr>)"

definition h2o_uses_fused_prefill_score ::
    "string option \<Rightarrow> string option \<Rightarrow> string option \<Rightarrow> int \<Rightarrow> bool" where
  "h2o_uses_fused_prefill_score sparse_method prefill_sparse_method score_mode h2o_window \<longleftrightarrow>
     normalize_sparse_method sparse_method = ''h2o''
     \<and> resolve_prefill_sparse_method prefill_sparse_method (Some ''h2o'') = ''h2o_prefill''
     \<and> resolve_sparse_prefill_score_mode (Some ''h2o'') score_mode = ''logits''
     \<and> h2o_window = 0"

definition sparse_decode_attention_score_kind :: "string option \<Rightarrow> score_kind res" where
  "sparse_decode_attention_score_kind method =
     (let normalized = normalize_sparse_method method
      in if normalized \<notin> set CANONICAL_SPARSE_METHODS then
           Inl (ValueError ''Unknown sparse method '')
         else case dict_get DECODE_ATTENTION_SCORE_KINDS normalized of
           None \<Rightarrow> Inr NoScore | Some k \<Rightarrow> Inr k)"

definition sparse_decode_attention_requires_scores :: "string option \<Rightarrow> bool res" where
  "sparse_decode_attention_requires_scores method =
     (case sparse_decode_attention_score_kind method of
        Inl e \<Rightarrow> Inl e | Inr k \<Rightarrow> Inr (k \<noteq> NoScore))"

section \<open>Model compatibility\<close>

record compatibility =
  sparse_methods :: "string list"
  prefix_cache_methods :: "string list"
  decode_graph_methods :: "string list"

definition PREFIX_CACHE_SUPPORTED_METHODS :: "string list" where
  "PREFIX_CACHE_SUPPORTED_METHODS =
     ['''', ''streamingllm'', ''omnikv'', ''quest'', ''snapkv'', ''h2o'', ''pyramidkv'', ''rkv'',
      ''skipkv'']"

definition MOE_SPARSE_METHODS :: "string list" where
  "MOE_SPARSE_METHODS =
     ['''', ''streamingllm'', ''snapkv'', ''h2o'', ''pyramidkv'', ''omnikv'', ''quest'', ''rkv'']"

definition DENSE_SPARSE_METHODS :: "string list" where
  "DENSE_SPARSE_METHODS = filter (\<lambda>m. m \<noteq> ''shadowkv'') CANONICAL_SPARSE_METHODS"

definition DENSE_MODEL_COMPATIBILITY :: compatibility where
  "DENSE_MODEL_COMPATIBILITY = \<lparr>sparse_methods = DENSE_SPARSE_METHODS,
     prefix_cache_methods = PREFIX_CACHE_SUPPORTED_METHODS,
     decode_graph_methods = DENSE_SPARSE_METHODS\<rparr>"

definition LLAMA_COMPATIBILITY :: compatibility where
  "LLAMA_COMPATIBILITY = \<lparr>sparse_methods = DENSE_SPARSE_METHODS @ [''shadowkv''],
     prefix_cache_methods = PREFIX_CACHE_SUPPORTED_METHODS,
     decode_graph_methods = DENSE_SPARSE_METHODS @ [''shadowkv'']\<rparr>"

definition QWEN3_MOE_EP_COMPATIBILITY :: compatibility where
  "QWEN3_MOE_EP_COMPATIBILITY = \<lparr>sparse_methods = MOE_SPARSE_METHODS,
     prefix_cache_methods = ['''', ''omnikv'', ''quest'', ''snapkv'', ''h2o'', ''pyramidkv'', ''rkv''],
     decode_graph_methods = MOE_SPARSE_METHODS\<rparr>"

definition QWEN3_MOE_TP_EP_COMPATIBILITY :: compatibility where
  "QWEN3_MOE_TP_EP_COMPATIBILITY = \<lparr>sparse_methods = MOE_SPARSE_METHODS,
     prefix_cache_methods = ['''', ''snapkv''], decode_graph_methods = MOE_SPARSE_METHODS\<rparr>"

definition QWEN35_MOE_COMPATIBILITY :: compatibility where
  "QWEN35_MOE_COMPATIBILITY =
     \<lparr>sparse_methods = sparse_methods QWEN3_MOE_TP_EP_COMPATIBILITY,
      prefix_cache_methods = [''''],
      decode_graph_methods = decode_graph_methods QWEN3_MOE_TP_EP_COMPATIBILITY\<rparr>"

definition MINIMAX_M2_EP_COMPATIBILITY :: compatibility where
  "MINIMAX_M2_EP_COMPATIBILITY = \<lparr>sparse_methods = MOE_SPARSE_METHODS,
     prefix_cache_methods = ['''', ''omnikv'', ''quest'', ''snapkv''],
     decode_graph_methods = MOE_SPARSE_METHODS\<rparr>"

definition MINIMAX_M2_TP_EP_COMPATIBILITY :: compatibility where
  "MINIMAX_M2_TP_EP_COMPATIBILITY =
     \<lparr>sparse_methods = sparse_methods MINIMAX_M2_EP_COMPATIBILITY,
      prefix_cache_methods = prefix_cache_methods MINIMAX_M2_EP_COMPATIBILITY,
      decode_graph_methods = decode_graph_methods MINIMAX_M2_EP_COMPATIBILITY\<rparr>"

definition GLM4_MOE_LITE_EP_COMPATIBILITY :: compatibility where
  "GLM4_MOE_LITE_EP_COMPATIBILITY =
     \<lparr>sparse_methods = ['''', ''streamingllm'', ''snapkv'', ''h2o'', ''omnikv'', ''quest'', ''rkv''],
      prefix_cache_methods = ['''', ''streamingllm'', ''snapkv'', ''h2o'', ''omnikv'', ''rkv''],
      decode_graph_methods = ['''', ''streamingllm'', ''snapkv'', ''h2o'', ''omnikv'', ''quest'', ''rkv'']\<rparr>"

definition GEMMA4_COMPATIBILITY :: compatibility where
  "GEMMA4_COMPATIBILITY = \<lparr>sparse_methods = ['''', ''streamingllm'', ''omnikv''],
     prefix_cache_methods = ['''', ''streamingllm'', ''omnikv''],
     decode_graph_methods = ['''', ''streamingllm'', ''omnikv'']\<rparr>"

definition MODEL_RUNTIME_COMPATIBILITY :: "(string \<times> parallel_mode, compatibility) dict" where
  "MODEL_RUNTIME_COMPATIBILITY =
     [((''qwen2'', STANDARD), DENSE_MODEL_COMPATIBILITY),
      ((''qwen3'', STANDARD), DENSE_MODEL_COMPATIBILITY),
      ((''qwen3_5'', STANDARD), DENSE_MODEL_COMPATIBILITY),
      ((''llama'', STANDARD), LLAMA_COMPATIBILITY),
      ((''qwen3_moe'', STANDARD), QWEN3_MOE_EP_COMPATIBILITY),
      ((''qwen3_moe'', OUTER_TP_MOE), QWEN3_MOE_TP_EP_COMPATIBILITY),
      ((''qwen3_5_moe'', STANDARD), QWEN35_MOE_COMPATIBILITY),
      ((''qwen3_5_moe'', OUTER_TP_MOE), QWEN35_MOE_COMPATIBILITY),
      ((''minimax_m2'', STANDARD), MINIMAX_M2_EP_COMPATIBILITY),
      ((''minimax_m2'', OUTER_TP_MOE), MINIMAX_M2_TP_EP_COMPATIBILITY),
      ((''glm4_moe_lite'', STANDARD), GLM4_MOE_LITE_EP_COMPATIBILITY),
      ((''glm4_moe_lite'', OUTER_TP_MOE), GLM4_MOE_LITE_EP_COMPATIBILITY),
      ((''gemma4'', STANDARD), GEMMA4_COMPATIBILITY),
      ((''gemma4'', OUTER_TP_MOE), GEMMA4_COMPATIBILITY)]"

definition TP_DECODE_CUDA_GRAPH_SUPPORTED_METHODS :: "string list" where
  "TP_DECODE_CUDA_GRAPH_SUPPORTED_METHODS =
     ['''', ''streamingllm'', ''snapkv'', ''h2o'', ''pyramidkv'', ''omnikv'', ''quest'', ''rkv'', ''skipkv'']"

definition is_deltakv_method :: "string option \<Rightarrow> bool" where
  "is_deltakv_method method \<longleftrightarrow> normalize_sparse_method method = ''deltakv''"

definition is_decode_cuda_graph_supported :: "string option \<Rightarrow> bool" where
  "is_decode_cuda_graph_supported method \<longleftrightarrow>
     normalize_sparse_method method \<in> set CANONICAL_SPARSE_METHODS"

definition is_tp_decode_cuda_graph_supported :: "string option \<Rightarrow> bool" where
  "is_tp_decode_cuda_graph_supported method \<longleftrightarrow>
     normalize_sparse_method method \<in> set TP_DECODE_CUDA_GRAPH_SUPPORTED_METHODS"

definition validate_model_runtime_compatibility ::
    "string \<Rightarrow> string option \<Rightarrow> topology \<Rightarrow> bool \<Rightarrow> bool \<Rightarrow> compatibility res" where
  "validate_model_runtime_compatibility model_type sparse_method t decode_graph enable_prefix_caching =
     (let mt = py_lower (py_strip model_type); method = normalize_sparse_method sparse_method
      in case dict_get MODEL_RUNTIME_COMPATIBILITY (mt, mode t) of
        None \<Rightarrow> Inl (NotImplementedError ''Unsupported Sparse-vLLM model_type='')
      | Some c \<Rightarrow>
          if decode_graph \<and> method \<notin> set (decode_graph_methods c) then
            Inl (ValueError '' v1 decode_graph is validated only for '')
          else if method \<notin> set (sparse_methods c) then
            Inl (ValueError ''Unsupported sparse method '')
          else if enable_prefix_caching \<and> method \<notin> set (prefix_cache_methods c) then
            Inl (ValueError '' prefix caching is validated only for '')
          else Inr c)"

section \<open>Decode boundaries and prefill policies\<close>

definition decode_sparse_long_text_threshold :: "string \<Rightarrow> int \<Rightarrow> int \<Rightarrow> int \<Rightarrow> int" where
  "decode_sparse_long_text_threshold method num_sink_tokens decode_keep_tokens num_recent_tokens =
     (if method = '''' then 0
      else if method \<in> {''streamingllm'', ''attention-sink'', ''attention_sink''}
      then num_sink_tokens + num_recent_tokens
      else num_sink_tokens + decode_keep_tokens + num_recent_tokens)"

definition decode_graph_path_id :: "string \<Rightarrow> bool \<Rightarrow> string" where
  "decode_graph_path_id method is_long_text =
     (if method = ''shadowkv'' then ''shadowkv''
      else if method = '''' then ''dense''
      else if is_long_text then ''long'' else ''short'')"

definition ALL_CHUNKED :: string where
  "ALL_CHUNKED = ''all_chunked''"

definition LONG_BS1FULL_SHORT_BATCH :: string where
  "LONG_BS1FULL_SHORT_BATCH = ''long_bs1full_short_batch''"

definition DEFAULT_PREFILL_POLICY_BY_METHOD :: "(string, string) dict" where
  "DEFAULT_PREFILL_POLICY_BY_METHOD =
     [('''', ALL_CHUNKED), (''streamingllm'', ALL_CHUNKED), (''snapkv'', ALL_CHUNKED),
      (''h2o'', ALL_CHUNKED), (''pyramidkv'', LONG_BS1FULL_SHORT_BATCH), (''omnikv'', ALL_CHUNKED),
      (''quest'', ALL_CHUNKED), (''rkv'', ALL_CHUNKED), (''skipkv'', ALL_CHUNKED),
      (''deltakv'', LONG_BS1FULL_SHORT_BATCH), (''shadowkv'', ALL_CHUNKED)]"

definition get_default_prefill_schedule_policy :: "string option \<Rightarrow> string res" where
  "get_default_prefill_schedule_policy method =
     (case dict_get DEFAULT_PREFILL_POLICY_BY_METHOD (normalize_sparse_method method) of
        None \<Rightarrow> Inl (ValueError ''Unsupported sparse_method='')
      | Some p \<Rightarrow> Inr p)"

definition resolve_prefill_schedule_policy :: "string option \<Rightarrow> string option \<Rightarrow> string res" where
  "resolve_prefill_schedule_policy method policy =
     (case get_default_prefill_schedule_policy method of
        Inl e \<Rightarrow> Inl e
      | Inr default_policy \<Rightarrow>
          (case policy of
             None \<Rightarrow> Inr default_policy
           | Some p \<Rightarrow>
               (let requested = py_lower (py_strip p)
                in if requested = '''' \<or> requested = ''auto'' then Inr default_policy
                   else if requested \<noteq> ALL_CHUNKED \<and> requested \<noteq> LONG_BS1FULL_SHORT_BATCH then
                     Inl (ValueError ''Unsupported prefill_schedule_policy='')
                   else if requested \<noteq> default_policy then
                     Inl (ValueError ''prefill_schedule_policy must match the registry default for reproducibility. '')
                   else Inr requested)))"

text \<open>The last component of a path without its trailing slashes.\<close>

definition path_basename :: "string \<Rightarrow> string" where
  "path_basename p =
     rev (takeWhile (\<lambda>c. c \<noteq> CHR ''/'') (dropWhile (\<lambda>c. c = CHR ''/'') (rev p)))"

definition SKIPKV_ASSET_MODEL_NAMES :: "string list" where
  "SKIPKV_ASSET_MODEL_NAMES =
     [''DeepSeek-R1-Distill-Llama-8B'', ''DeepSeek-R1-Distill-Qwen-7B'', ''DeepSeek-R1-Distill-Qwen-14B'']"

definition validate_sparse_method_assets :: "string option \<Rightarrow> string \<Rightarrow> unit res" where
  "validate_sparse_method_assets method model_path =
     (if normalize_sparse_method method \<noteq> ''skipkv'' then Inr ()
      else if path_basename model_path \<notin> set SKIPKV_ASSET_MODEL_NAMES then
        Inl (ValueError ''SkipKV is supported only for models with released steering assets: '')
      else Inr ())"

section \<open>Normalisation\<close>

text \<open>Every alias resolves to a canonical name, and canonical names are fixed points.\<close>

lemma alias_canonical:
  "dict_get METHOD_ALIASES k = Some c \<Longrightarrow> c \<in> set CANONICAL_SPARSE_METHODS"
  by (auto simp: METHOD_ALIASES_def CANONICAL_SPARSE_METHODS_def split: if_splits)

lemma canonical_fixed:
  "c \<in> set CANONICAL_SPARSE_METHODS \<Longrightarrow> normalize_sparse_method (Some c) = c"
  unfolding CANONICAL_SPARSE_METHODS_def
  by (simp only: set_simps insert_iff empty_iff) (elim disjE; simp; code_simp)

theorem normalize_idem:
  "normalize_sparse_method (Some (normalize_sparse_method m)) = normalize_sparse_method m"
proof (cases m)
  case None
  then have "normalize_sparse_method m = ''''" by (simp add: normalize_sparse_method_def)
  moreover have "normalize_sparse_method (Some '''') = ''''" by code_simp
  ultimately show ?thesis by simp
next
  case (Some s)
  let ?n = "py_lower (py_strip s)"
  show ?thesis
  proof (cases "dict_get METHOD_ALIASES ?n")
    case None
    then have n: "normalize_sparse_method m = ?n" using Some by (simp add: normalize_sparse_method_def Let_def)
    have "py_lower (py_strip ?n) = ?n" by (simp add: strip_lower)
    with None show ?thesis unfolding n by (simp add: normalize_sparse_method_def Let_def)
  next
    case c: (Some c)
    then have "normalize_sparse_method m = c" using Some by (simp add: normalize_sparse_method_def Let_def)
    with canonical_fixed [OF alias_canonical [OF c]] show ?thesis by simp
  qed
qed

section \<open>The tables agree\<close>

text \<open>The import-time check of the page-table contracts, and the coverage of the policy table.\<close>

lemma tables_cover:
  "set (map fst PREFILL_LAYER_VARYING_PAGE_TABLE) = set CANONICAL_SPARSE_METHODS"
  "set (map fst DEFAULT_PREFILL_POLICY_BY_METHOD) = set CANONICAL_SPARSE_METHODS"
  by (simp_all add: PREFILL_LAYER_VARYING_PAGE_TABLE_def DEFAULT_PREFILL_POLICY_BY_METHOD_def
      CANONICAL_SPARSE_METHODS_def)

lemma table_total: "k \<in> set (map fst d) \<Longrightarrow> \<exists>v. dict_get d k = Some v"
  by (metis map_of_eq_None_iff not_None_eq set_map)

theorem contract_total:
  "(\<exists>c. sparse_prefill_attention_contract m p s w = Inr c)
     \<longleftrightarrow> normalize_sparse_method m \<in> set CANONICAL_SPARSE_METHODS"
proof (cases "normalize_sparse_method m \<in> set CANONICAL_SPARSE_METHODS")
  case True
  then obtain v where "dict_get PREFILL_LAYER_VARYING_PAGE_TABLE (normalize_sparse_method m) = Some v"
    using table_total tables_cover(1) by metis
  with True show ?thesis by (auto simp: sparse_prefill_attention_contract_def Let_def)
qed (simp add: sparse_prefill_attention_contract_def Let_def)

theorem policy_resolution:
  "resolve_prefill_schedule_policy m p = Inr q \<longleftrightarrow>
     get_default_prefill_schedule_policy m = Inr q
     \<and> (case p of None \<Rightarrow> True | Some r \<Rightarrow> py_lower (py_strip r) \<in> {'''', ''auto'', q})"
proof -
  have q: "q = ALL_CHUNKED \<or> q = LONG_BS1FULL_SHORT_BATCH" if "get_default_prefill_schedule_policy m = Inr q"
    using that by (auto simp: get_default_prefill_schedule_policy_def DEFAULT_PREFILL_POLICY_BY_METHOD_def
        split: if_splits option.splits)
  show ?thesis
    using q by (auto simp: resolve_prefill_schedule_policy_def Let_def split: option.splits sum.splits if_splits)
qed

lemma default_policy_total:
  "(\<exists>q. get_default_prefill_schedule_policy m = Inr q)
     \<longleftrightarrow> normalize_sparse_method m \<in> set CANONICAL_SPARSE_METHODS"
proof -
  have "dict_get DEFAULT_PREFILL_POLICY_BY_METHOD (normalize_sparse_method m) \<noteq> None
      \<longleftrightarrow> normalize_sparse_method m \<in> set CANONICAL_SPARSE_METHODS"
    unfolding tables_cover(2) [symmetric] by (simp add: map_of_eq_None_iff)
  then show ?thesis by (auto simp: get_default_prefill_schedule_policy_def split: option.splits)
qed

lemma compat_tables:
  "dict_get MODEL_RUNTIME_COMPATIBILITY k = Some c \<Longrightarrow>
     set (decode_graph_methods c) \<subseteq> set (sparse_methods c)
     \<and> set (prefix_cache_methods c) \<subseteq> set (sparse_methods c)
     \<and> set (sparse_methods c) \<subseteq> set CANONICAL_SPARSE_METHODS \<and> '''' \<in> set (prefix_cache_methods c)"
  by (auto simp: MODEL_RUNTIME_COMPATIBILITY_def DENSE_MODEL_COMPATIBILITY_def LLAMA_COMPATIBILITY_def
      QWEN3_MOE_EP_COMPATIBILITY_def QWEN3_MOE_TP_EP_COMPATIBILITY_def QWEN35_MOE_COMPATIBILITY_def
      MINIMAX_M2_EP_COMPATIBILITY_def MINIMAX_M2_TP_EP_COMPATIBILITY_def
      GLM4_MOE_LITE_EP_COMPATIBILITY_def GEMMA4_COMPATIBILITY_def DENSE_SPARSE_METHODS_def
      MOE_SPARSE_METHODS_def PREFIX_CACHE_SUPPORTED_METHODS_def CANONICAL_SPARSE_METHODS_def
      split: if_splits)

end
