(* ===== verification/Scheduler.thy ===== *)
theory Scheduler
  imports Memory_Oracle Method_Registry
begin

text \<open>
  \<open>engine/scheduler.py\<close>: the scheduler of the engine. Sequences are objects shared between
  the queues and the caller, so they live in a store \<open>sq\<close> and the queues hold references.
  \<open>M\<close> is the memory oracle, \<open>C\<close> the configuration. A raise keeps the state of that moment:
  a sequence popped from a queue before the raise is in no queue any more.

  The logging and the \<open>SPARSEVLLM_DEBUG_SLOTS\<close> dumps are left out; they change no state.
  \<open>scheduler_capacity_snapshot\<close> caches oracle queries during one call and is left out too.
\<close>

section \<open>State\<close>

record sched_config =
  max_num_seqs_in_batch :: int
  max_num_batched_tokens :: int
  max_decoding_seqs :: int
  engine_prefill_chunk_size :: int
  config_sparse_method :: string
  sink_keep_tokens :: int
  recent_keep_tokens :: int
  decode_keep_tokens :: int
  sched_eos_token_ids :: "int list"

record 'm sched =
  mem :: 'm
  sq :: "nat \<Rightarrow> seq"
  waiting :: "nat list"
  decoding :: "nat list"
  admission_defer_warned_seq_ids :: "int set"
  total_preemptions :: int
  total_recompute_replays :: int

definition make_scheduler :: "'m \<Rightarrow> (nat \<Rightarrow> seq) \<Rightarrow> 'm sched" where
  "make_scheduler m q = \<lparr>mem = m, sq = q, waiting = [], decoding = [],
     admission_defer_warned_seq_ids = {}, total_preemptions = 0, total_recompute_replays = 0\<rparr>"

definition default_eos_token_ids :: "eos_arg \<Rightarrow> int option \<Rightarrow> int list" where
  "default_eos_token_ids configured fallback =
     sorted_list_of_set (resolve_eos_token_ids EosNone configured fallback)"

definition set_seq :: "nat \<Rightarrow> (seq \<Rightarrow> seq) \<Rightarrow> 'm sched \<Rightarrow> 'm sched" where
  "set_seq x f s = s\<lparr>sq := (sq s)(x := f (sq s x))\<rparr>"

text \<open>An effect on one sequence object and the memory.\<close>

definition with_seq :: "nat \<Rightarrow> (seq \<times> 'm, py_error, 'a) eff \<Rightarrow> ('m sched, py_error, 'a) eff" where
  "with_seq x f s =
     (case f (sq s x, mem s) of (r, q, m) \<Rightarrow> (r, s\<lparr>sq := (sq s)(x := q), mem := m\<rparr>))"

definition is_replay :: "'m sched \<Rightarrow> nat \<Rightarrow> bool" where
  "is_replay s x \<longleftrightarrow> is_recompute_replay (sq s x)"

section \<open>Queues\<close>

text \<open>\<open>deque.rotate(n)\<close> turns the queue \<open>n\<close> steps to the right, or to the left for \<open>n < 0\<close>.\<close>

definition deque_rotate :: "int \<Rightarrow> 'a list \<Rightarrow> 'a list" where
  "deque_rotate n xs = (if xs = [] then [] else rotate (nat (- n mod int (length xs))) xs)"

text \<open>\<open>_pop_waiting_at\<close> and \<open>_pop_decoding_at\<close>.\<close>

definition pop_at :: "nat \<Rightarrow> 'a list \<Rightarrow> ('a \<times> 'a list) res" where
  "pop_at i xs =
     (if i = 0 then
        (case xs of [] \<Rightarrow> Inl (IndexError ''pop from an empty deque'') | x # ys \<Rightarrow> Inr (x, ys))
      else
        (case deque_rotate (- int i) xs of
           [] \<Rightarrow> Inl (IndexError ''pop from an empty deque'')
         | x # ys \<Rightarrow> Inr (x, deque_rotate (int i) ys)))"

definition pop_waiting_at :: "nat \<Rightarrow> ('m sched, py_error, nat) eff" where
  "pop_waiting_at i s =
     (case pop_at i (waiting s) of
        Inl e \<Rightarrow> (Inl e, s) | Inr (x, xs) \<Rightarrow> (Inr x, s\<lparr>waiting := xs\<rparr>))"

definition pop_decoding_at :: "nat \<Rightarrow> ('m sched, py_error, nat) eff" where
  "pop_decoding_at i s =
     (case pop_at i (decoding s) of
        Inl e \<Rightarrow> (Inl e, s) | Inr (x, xs) \<Rightarrow> (Inr x, s\<lparr>decoding := xs\<rparr>))"

definition sched_is_finished :: "'m sched \<Rightarrow> bool" where
  "sched_is_finished s \<longleftrightarrow> length (waiting s) = 0 \<and> length (decoding s) = 0"

definition add_seq :: "nat \<Rightarrow> 'm sched \<Rightarrow> 'm sched" where
  "add_seq x s = s\<lparr>waiting := waiting s @ [x]\<rparr>"

definition abort_found ::
    "('m, 'k) memory_oracle \<Rightarrow> nat \<Rightarrow> bool \<Rightarrow> 'm sched \<Rightarrow> bool \<times> 'm sched" where
  "abort_found M x was_decoding s =
     (let s1 = set_seq x (\<lambda>q. q\<lparr>status := FINISHED\<rparr>) s; sid = seq_id (sq s x);
          s2 = s1\<lparr>admission_defer_warned_seq_ids := admission_defer_warned_seq_ids s1 - {sid},
                  mem := reset_prefill_execution_state M sid (mem s1)\<rparr>
      in (0 < num_prefilled_tokens (sq s2 x) \<or> was_decoding, s2))"

definition abort ::
    "('m, 'k) memory_oracle \<Rightarrow> int \<Rightarrow> 'm sched \<Rightarrow> bool \<times> 'm sched" where
  "abort M sid s =
     (case find (\<lambda>x. seq_id (sq s x) = sid) (waiting s) of
        Some x \<Rightarrow> abort_found M x False (s\<lparr>waiting := remove1 x (waiting s)\<rparr>)
      | None \<Rightarrow>
          (case find (\<lambda>x. seq_id (sq s x) = sid) (decoding s) of
             Some x \<Rightarrow> abort_found M x True (s\<lparr>decoding := remove1 x (decoding s)\<rparr>)
           | None \<Rightarrow> (False, s)))"

section \<open>Prefill buckets\<close>

definition long_text_threshold :: "sched_config \<Rightarrow> int" where
  "long_text_threshold C =
     decode_sparse_long_text_threshold (config_sparse_method C) (sink_keep_tokens C)
       (decode_keep_tokens C) (recent_keep_tokens C)"

definition is_long_text :: "sched_config \<Rightarrow> seq \<Rightarrow> bool \<Rightarrow> bool res" where
  "is_long_text C q is_prefill =
     (if config_sparse_method C = '''' then Inr False
      else if is_prefill then
        Inl (ValueError ''Prefill must use prefill_execution_mode(), not decode long-text partitioning.'')
      else Inr (long_text_threshold C < num_tokens q))"

definition sched_prefill_execution_mode ::
    "('m, 'k) memory_oracle \<Rightarrow> nat \<Rightarrow> ('m sched, py_error, string) eff" where
  "sched_prefill_execution_mode M x s =
     (case prefill_execution_mode M (sq s x) (mem s) of
        (Inl e, m) \<Rightarrow> (Inl e, s\<lparr>mem := m\<rparr>)
      | (Inr md, m) \<Rightarrow> (validate_prefill_execution_mode md, s\<lparr>mem := m\<rparr>))"

definition prefill_batch_key ::
    "('m, 'k) memory_oracle \<Rightarrow> nat \<Rightarrow> ('m sched, py_error, string \<times> 'k) eff" where
  "prefill_batch_key M x =
     bindE (sched_prefill_execution_mode M x) (\<lambda>md s.
       case prefill_batch_compatibility_key M (mem s) (sq s x) of
         None \<Rightarrow> (Inl (TypeError ''prefill_batch_compatibility_key must be hashable: ''), s)
       | Some k \<Rightarrow> (Inr (md, k), s))"

definition refresh_prefill_metadata ::
    "('m, 'k) memory_oracle \<Rightarrow> nat \<Rightarrow> ('m sched, py_error, unit) eff" where
  "refresh_prefill_metadata M x s =
     (if num_prefilled_tokens (sq s x) = 0 \<and> num_completion_tokens (sq s x) = 0
      then with_seq x (refresh_prefix_cache_hit M) s else (Inr (), s))"

fun count_modes ::
    "('m, 'k) memory_oracle \<Rightarrow> nat list \<Rightarrow> (string, nat) dict
       \<Rightarrow> ('m sched, py_error, (string, nat) dict) eff" where
  "count_modes M [] counts = retE counts"
| "count_modes M (x # xs) counts =
     bindE (refresh_prefill_metadata M x) (\<lambda>_.
     bindE (sched_prefill_execution_mode M x) (\<lambda>md.
       (case dict_get counts md of
          None \<Rightarrow> raiseE (KeyError md)
        | Some n \<Rightarrow> count_modes M xs (dict_set md (n + 1) counts))))"

definition prefill_execution_mode_counts ::
    "('m, 'k) memory_oracle \<Rightarrow> ('m sched, py_error, (string, nat) dict) eff" where
  "prefill_execution_mode_counts M s =
     count_modes M (waiting s) [(CHUNKED, 0), (FULL, 0), (RAW_OFFLOAD, 0)] s"

fun batch_keys ::
    "('m, 'k) memory_oracle \<Rightarrow> nat list \<Rightarrow> ('m sched, py_error, (string \<times> 'k) list) eff" where
  "batch_keys M [] = retE []"
| "batch_keys M (x # xs) =
     bindE (prefill_batch_key M x) (\<lambda>k. bindE (batch_keys M xs) (\<lambda>ks. retE (set_add k ks)))"

definition prefill_execution_mode_for_batch ::
    "('m, 'k) memory_oracle \<Rightarrow> nat list \<Rightarrow> ('m sched, py_error, string) eff" where
  "prefill_execution_mode_for_batch M xs =
     bindE (batch_keys M xs) (\<lambda>ks.
       (case ks of
          [(md, k)] \<Rightarrow> retE md
        | _ \<Rightarrow> raiseE (RuntimeError ''Scheduler produced an incompatible prefill batch: '')))"

fun mode_order_loop ::
    "('m, 'k) memory_oracle \<Rightarrow> bool \<Rightarrow> (string \<times> 'k) list \<Rightarrow> nat list
       \<Rightarrow> ('m sched, py_error, (string \<times> 'k) list) eff" where
  "mode_order_loop M replay_pending modes [] = retE modes"
| "mode_order_loop M replay_pending modes (x # xs) =
     bindE (getE (\<lambda>s. is_replay s x)) (\<lambda>replay.
       if replay_pending \<and> \<not> replay then mode_order_loop M replay_pending modes xs
       else
         bindE (refresh_prefill_metadata M x) (\<lambda>_.
         bindE (prefill_batch_key M x) (\<lambda>k.
           mode_order_loop M replay_pending (set_add k modes) xs)))"

definition prefill_mode_order ::
    "('m, 'k) memory_oracle \<Rightarrow> ('m sched, py_error, (string \<times> 'k) list) eff" where
  "prefill_mode_order M s =
     mode_order_loop M (\<exists>x\<in>set (waiting s). is_replay s x) [] (waiting s) s"

fun find_prefill_seq ::
    "('m, 'k) memory_oracle \<Rightarrow> bool \<Rightarrow> string \<times> 'k \<Rightarrow> nat \<Rightarrow> nat list
       \<Rightarrow> ('m sched, py_error, nat option) eff" where
  "find_prefill_seq M replay_pending target i [] = retE None"
| "find_prefill_seq M replay_pending target i (x # xs) =
     bindE (getE (\<lambda>s. is_replay s x)) (\<lambda>replay.
       if replay_pending \<and> \<not> replay then find_prefill_seq M replay_pending target (i + 1) xs
       else
         bindE (prefill_batch_key M x) (\<lambda>k.
           if k = target then bindE (pop_waiting_at i) (\<lambda>y. retE (Some y))
           else find_prefill_seq M replay_pending target (i + 1) xs))"

definition pop_next_prefill_seq ::
    "('m, 'k) memory_oracle \<Rightarrow> string \<times> 'k \<Rightarrow> ('m sched, py_error, nat option) eff" where
  "pop_next_prefill_seq M target s =
     (if waiting s = [] then (Inr None, s)
      else find_prefill_seq M (\<exists>x\<in>set (waiting s). is_replay s x) target 0 (waiting s) s)"

fun find_decoding_seq ::
    "sched_config \<Rightarrow> bool \<Rightarrow> nat \<Rightarrow> nat list \<Rightarrow> ('m sched, py_error, nat option) eff" where
  "find_decoding_seq C target_is_long i [] = retE None"
| "find_decoding_seq C target_is_long i (x # xs) =
     bindE (\<lambda>s. (is_long_text C (sq s x) False, s)) (\<lambda>long.
       if long = target_is_long then bindE (pop_decoding_at i) (\<lambda>y. retE (Some y))
       else find_decoding_seq C target_is_long (i + 1) xs)"

definition pop_next_decoding_seq ::
    "sched_config \<Rightarrow> bool \<Rightarrow> ('m sched, py_error, nat option) eff" where
  "pop_next_decoding_seq C target_is_long s =
     (if decoding s = [] then (Inr None, s)
      else find_decoding_seq C target_is_long 0 (decoding s) s)"

section \<open>Chunk sizes\<close>

definition prefill_step_tokens ::
    "sched_config \<Rightarrow> string \<Rightarrow> int \<Rightarrow> int \<Rightarrow> int \<Rightarrow> int res" where
  "prefill_step_tokens C md remaining batched_tokens step_free_count =
     (if md = FULL then
        (let available = min (max_num_batched_tokens C - batched_tokens) step_free_count
         in if remaining \<le> available then Inr remaining else Inr 0)
      else if md \<in> {CHUNKED, RAW_OFFLOAD} then
        Inr (min (min remaining (engine_prefill_chunk_size C))
               (min (max_num_batched_tokens C - batched_tokens) step_free_count))
      else Inl (ValueError ''Unknown prefill execution mode=''))"

definition respect_min_final_prefill_chunk ::
    "int \<Rightarrow> int \<Rightarrow> int \<Rightarrow> int res" where
  "respect_min_final_prefill_chunk min_final remaining proposed =
     (if min_final < 0 then Inl (ValueError ''min_final_prefill_chunk_size must be non-negative, '')
      else let remaining_after = remaining - proposed in
        if min_final = 0 \<or> remaining_after \<le> 0 \<or> min_final \<le> remaining_after then Inr proposed
        else Inr (max 0 (remaining - min_final)))"

end
