(* ===== verification/Scheduler_Step.thy ===== *)
theory Scheduler_Step
  imports Scheduler
begin

text \<open>
  One scheduling step and the postprocessing of its results: \<open>schedule\<close>, \<open>_schedule_impl\<close>,
  \<open>_preempt_decode_victim\<close> and \<open>postprocess\<close> of \<open>engine/scheduler.py\<close>. The local variables
  of \<open>_schedule_impl\<close> that its loops update are the record \<open>step_locals\<close>. Both loops carry a
  scan budget that drops with every popped sequence; they recurse on it.
\<close>

section \<open>Prefill: one candidate\<close>

record step_locals =
  scheduled_seqs :: "nat list"
  num_batched_seqs :: int
  num_batched_tokens :: int
  prompt_logical_free_count :: int
  step_free_count :: int
  admission_budgets :: "(string, int) dict"
  deferred_prompt_failure :: "(nat \<times> string \<times> int \<times> int) option"
  blocked_prefill_step_failure :: "(nat \<times> int \<times> int) option"
  blocked_prefill_capacity_failure :: "(nat \<times> int \<times> int \<times> int) option"
  decode_logical_free_count :: int
  blocked_decode_victim :: "nat option"

definition can_continue_prefill_batch ::
    "sched_config \<Rightarrow> string \<Rightarrow> int \<Rightarrow> step_locals \<Rightarrow> 'm sched \<Rightarrow> bool" where
  "can_continue_prefill_batch C target_mode margin L s =
     (if waiting s = [] then False
      else if \<exists>x\<in>set (scheduled_seqs L). is_replay s x then False
      else if max_decoding_seqs C \<le> int (length (decoding s)) then False
      else if target_mode = RAW_OFFLOAD then scheduled_seqs L = [] \<and> 0 < step_free_count L
      else 0 < step_free_count L \<and> num_batched_tokens L \<le> max_num_batched_tokens C - margin
           \<and> num_batched_seqs L < max_num_seqs_in_batch C)"

definition candidate_step_free ::
    "('m, 'k) memory_oracle \<Rightarrow> string \<Rightarrow> step_locals \<Rightarrow> 'm \<Rightarrow> seq \<Rightarrow> int" where
  "candidate_step_free M target_mode L m q =
     (let free = prefill_step_free_slots_for M m q
      in if target_mode \<noteq> RAW_OFFLOAD \<and> \<not> should_schedule_full_prefill M m q
         then min (step_free_count L) free else free)"

definition budget_of :: "(string, int) dict \<Rightarrow> string \<Rightarrow> int" where
  "budget_of d name = (case dict_get d name of None \<Rightarrow> 0 | Some v \<Rightarrow> v)"

definition first_failed_budget ::
    "(string, int) dict \<Rightarrow> (string, int) dict \<Rightarrow> (string \<times> int) option" where
  "first_failed_budget budgets costs = find (\<lambda>(name, need). budget_of budgets name < need) costs"

definition charge_budgets :: "(string, int) dict \<Rightarrow> (string, int) dict \<Rightarrow> (string, int) dict" where
  "charge_budgets budgets costs =
     fold (\<lambda>(name, need) d. dict_set name (budget_of d name - need) d) costs budgets"

text \<open>
  The admission of a prompt that has not started: \<open>Inr (L, True)\<close> admits it,
  \<open>Inr (L, False)\<close> defers it to the tail of the queue.
\<close>

definition admit_prompt ::
    "('m, 'k) memory_oracle \<Rightarrow> nat \<Rightarrow> step_locals
       \<Rightarrow> ('m sched, py_error, step_locals \<times> bool) eff" where
  "admit_prompt M x L s =
     (let q = sq s x; costs = prompt_admission_costs M (mem s) q
      in case first_failed_budget (admission_budgets L) costs of
           Some (name, need) \<Rightarrow>
             if prompt_admission_failure_action M (mem s) = ''defer'' then
               (Inr (L\<lparr>deferred_prompt_failure :=
                   (case deferred_prompt_failure L of
                      None \<Rightarrow> Some (x, name, need, budget_of (admission_budgets L) name)
                    | Some d \<Rightarrow> Some d)\<rparr>, False),
                s\<lparr>admission_defer_warned_seq_ids := insert (seq_id q) (admission_defer_warned_seq_ids s),
                  waiting := waiting s @ [x]\<rparr>)
             else (Inl (RuntimeError ''Insufficient KV cache slots to admit prompt. ''), s)
         | None \<Rightarrow>
             (let s1 = s\<lparr>admission_defer_warned_seq_ids := admission_defer_warned_seq_ids s - {seq_id q},
                         mem := on_prompt_admitted M q costs (mem s)\<rparr>;
                  L1 = L\<lparr>admission_budgets := charge_budgets (admission_budgets L) costs\<rparr>;
                  s2 = (if 0 < prefix_cache_hit_len q
                        then set_seq x (\<lambda>r. r\<lparr>num_prefilled_tokens := prefix_cache_hit_len r\<rparr>) s1
                        else s1);
                  need = prompt_logical_reservation_cost M (mem s2) (sq s2 x)
              in if prompt_logical_free_count L1 < need then
                   (Inl (RuntimeError ''Prompt admission budget mismatch after reservation check. ''), s2)
                 else (Inr (L1\<lparr>prompt_logical_free_count := prompt_logical_free_count L1 - need\<rparr>, True),
                       s2)))"

definition place_chunk ::
    "('m, 'k) memory_oracle \<Rightarrow> nat \<Rightarrow> int \<Rightarrow> step_locals \<Rightarrow> 'm sched \<Rightarrow> step_locals \<times> 'm sched" where
  "place_chunk M x can L s =
     (let s1 = set_seq x (\<lambda>q. q\<lparr>current_chunk_size := Some can\<rparr>) s;
          cost = prefill_step_reservation_cost M (mem s1) (sq s1 x) can
      in (L\<lparr>num_batched_seqs := num_batched_seqs L + 1,
            num_batched_tokens := num_batched_tokens L + can,
            step_free_count := max 0 (step_free_count L - cost),
            scheduled_seqs := scheduled_seqs L @ [x]\<rparr>,
          set_seq x (\<lambda>q. q\<lparr>status := RUNNING\<rparr>) s1))"

definition note_blocked ::
    "sched_config \<Rightarrow> string \<Rightarrow> nat \<Rightarrow> int \<Rightarrow> int \<Rightarrow> step_locals \<Rightarrow> step_locals" where
  "note_blocked C target_mode x remaining free L =
     (let L1 = (if free \<le> 0 \<and> 0 < step_free_count L \<and> blocked_prefill_capacity_failure L = None
                then L\<lparr>blocked_prefill_capacity_failure := Some (x, remaining, free, step_free_count L)\<rparr>
                else L)
      in if target_mode = FULL then
           L1\<lparr>blocked_prefill_step_failure :=
                Some (x, remaining, min (max_num_batched_tokens C - num_batched_tokens L) free)\<rparr>
         else L1)"

definition prefill_candidate ::
    "('m, 'k) memory_oracle \<Rightarrow> sched_config \<Rightarrow> string \<Rightarrow> nat \<Rightarrow> step_locals
       \<Rightarrow> ('m sched, py_error, step_locals) eff" where
  "prefill_candidate M C target_mode x L s =
     (let remaining = remaining_prefill_tokens M (mem s) (sq s x);
          free = candidate_step_free M target_mode L (mem s) (sq s x)
      in if remaining \<le> 0 then (Inl (ValueError ''BUG''), s)
         else case prefill_step_tokens C target_mode remaining (num_batched_tokens L) free of
           Inl e \<Rightarrow> (Inl e, s)
         | Inr proposed \<Rightarrow>
             (case respect_min_final_prefill_chunk (min_final_prefill_chunk_size M (mem s) (sq s x))
                     remaining proposed of
                Inl e \<Rightarrow> (Inl e, s)
              | Inr can \<Rightarrow>
                  if can \<le> 0 then
                    (Inr (note_blocked C target_mode x remaining free L), s\<lparr>waiting := waiting s @ [x]\<rparr>)
                  else if num_prefilled_tokens (sq s x) = 0 then
                    (case admit_prompt M x L s of
                       (Inl e, s1) \<Rightarrow> (Inl e, s1)
                     | (Inr (L1, admitted), s1) \<Rightarrow>
                         if admitted then (let (L2, s2) = place_chunk M x can L1 s1 in (Inr L2, s2))
                         else (Inr L1, s1))
                  else (let (L2, s2) = place_chunk M x can L s in (Inr L2, s2))))"

section \<open>Prefill: the loops\<close>

text \<open>A raw offload chunk ends the loop; every other candidate continues it.\<close>

fun prefill_bucket ::
    "('m, 'k) memory_oracle \<Rightarrow> sched_config \<Rightarrow> string \<times> 'k \<Rightarrow> int \<Rightarrow> nat \<Rightarrow> step_locals
       \<Rightarrow> ('m sched, py_error, step_locals) eff" where
  "prefill_bucket M C target margin 0 L s = (Inr L, s)"
| "prefill_bucket M C target margin (Suc budget) L s =
     (if \<not> can_continue_prefill_batch C (fst target) margin L s then (Inr L, s)
      else case pop_next_prefill_seq M target s of
        (Inl e, s1) \<Rightarrow> (Inl e, s1)
      | (Inr None, s1) \<Rightarrow> (Inr L, s1)
      | (Inr (Some x), s1) \<Rightarrow>
          (case prefill_candidate M C (fst target) x L s1 of
             (Inl e, s2) \<Rightarrow> (Inl e, s2)
           | (Inr L2, s2) \<Rightarrow>
               if fst target = RAW_OFFLOAD \<and> length (scheduled_seqs L2) \<noteq> length (scheduled_seqs L)
               then (Inr L2, s2)
               else prefill_bucket M C target margin budget L2 s2))"

fun prefill_buckets ::
    "('m, 'k) memory_oracle \<Rightarrow> sched_config \<Rightarrow> int \<Rightarrow> (string \<times> 'k) list \<Rightarrow> step_locals
       \<Rightarrow> ('m sched, py_error, step_locals) eff" where
  "prefill_buckets M C margin [] L = retE L"
| "prefill_buckets M C margin (k # ks) L =
     (if scheduled_seqs L \<noteq> [] then retE L
      else bindE (\<lambda>s. prefill_bucket M C k margin (length (waiting s)) L s)
             (\<lambda>L1. prefill_buckets M C margin ks L1))"

section \<open>Preemption\<close>

text \<open>A victim with accepted tokens starts a replay, any other starts its prompt again.\<close>

definition displace_victim :: "nat \<Rightarrow> ('m sched, py_error, unit) eff" where
  "displace_victim victim s =
     (let s1 = set_seq victim (\<lambda>q. q\<lparr>status := WAITING\<rparr>) s
      in if 0 < num_completion_tokens (sq s1 victim) then
           bindE (with_seq victim (\<lambda>(q, m). case start_recompute_replay q of (r, q') \<Rightarrow> (r, q', m)))
             (\<lambda>_. modifyE (\<lambda>s2. s2\<lparr>total_recompute_replays := total_recompute_replays s2 + 1\<rparr>)) s1
         else (Inr (), set_seq victim (\<lambda>q. q\<lparr>num_prefilled_tokens := 0\<rparr>) s1))"

definition checkpoint_survivors :: "'m sched \<Rightarrow> 'm sched" where
  "checkpoint_survivors s =
     fold (\<lambda>x. set_seq x (\<lambda>q. q\<lparr>decode_progress_checkpoint := num_completion_tokens q\<rparr>)) (decoding s) s"

definition requeue_victim ::
    "('m, 'k) memory_oracle \<Rightarrow> nat \<Rightarrow> nat list \<Rightarrow> 'm sched \<Rightarrow> 'm sched" where
  "requeue_victim M victim scheduled s =
     (let (q, m) = oracle_clear_prefix_cache_hit M (sq s victim) (mem s)
      in s\<lparr>sq := (sq s)(victim := q), mem := reset_prefill_execution_state M (seq_id q) m,
           waiting := waiting s @ [victim], decoding := scheduled @ decoding s,
           total_preemptions := total_preemptions s + 1\<rparr>)"

definition preempt_decode_victim ::
    "('m, 'k) memory_oracle \<Rightarrow> nat \<Rightarrow> nat list
       \<Rightarrow> ('m sched, py_error, nat list \<times> bool \<times> nat list) eff" where
  "preempt_decode_victim M victim scheduled s =
     (let v = sq s victim;
          has_waiting_replay = (\<exists>x\<in>set (waiting s). is_replay s x);
          made_progress = (decode_progress_checkpoint v < num_completion_tokens v)
      in if 0 < num_completion_tokens v \<and> decoding s = [] \<and> \<not> (has_waiting_replay \<and> made_progress) then
           (Inl (RuntimeError ''KV cache is too small for the sole remaining decode request ''), s)
         else case displace_victim victim s of
           (Inl e, s1) \<Rightarrow> (Inl e, s1)
         | (Inr _, s1) \<Rightarrow>
             (Inr ([], False, [victim]), requeue_victim M victim scheduled (checkpoint_survivors s1)))"

section \<open>Decode\<close>

text \<open>
  The decode loop: \<open>Inl v\<close> leaves it to preempt \<open>v\<close>, \<open>Inr L\<close> ends it.
\<close>

fun decode_loop ::
    "('m, 'k) memory_oracle \<Rightarrow> sched_config \<Rightarrow> bool \<Rightarrow> nat \<Rightarrow> step_locals
       \<Rightarrow> ('m sched, py_error, (nat \<times> step_locals) + step_locals) eff" where
  "decode_loop M C long 0 L s = (Inr (Inr L), s)"
| "decode_loop M C long (Suc budget) L s =
     (if \<not> (decoding s \<noteq> [] \<and> num_batched_seqs L < max_decoding_seqs C) then (Inr (Inr L), s)
      else case pop_next_decoding_seq C long s of
        (Inl e, s1) \<Rightarrow> (Inl e, s1)
      | (Inr None, s1) \<Rightarrow> (Inr (Inr L), s1)
      | (Inr (Some x), s1) \<Rightarrow>
          (let free = min (decode_logical_free_count L) (decode_step_free_slots_for M (mem s1) (sq s1 x));
               cost = decode_step_reservation_cost M (mem s1) (sq s1 x);
               blocked = L\<lparr>blocked_decode_victim :=
                   (case blocked_decode_victim L of None \<Rightarrow> Some x | Some b \<Rightarrow> Some b)\<rparr>;
               requeued = s1\<lparr>decoding := decoding s1 @ [x]\<rparr>
           in if free < cost then
                if 0 < decode_logical_free_count L then decode_loop M C long budget blocked requeued
                else if scheduled_seqs L \<noteq> [] then (Inr (Inr blocked), requeued)
                else (Inr (Inl (x, L)), s1)
              else decode_loop M C long budget
                     (L\<lparr>decode_logical_free_count := decode_logical_free_count L - cost,
                        num_batched_seqs := num_batched_seqs L + 1,
                        scheduled_seqs := scheduled_seqs L @ [x]\<rparr>) s1))"

definition decode_finish ::
    "('m, 'k) memory_oracle \<Rightarrow> step_locals
       \<Rightarrow> ('m sched, py_error, nat list \<times> bool \<times> nat list) eff" where
  "decode_finish M L s =
     (if scheduled_seqs L = [] then
        (case blocked_decode_victim L of
           Some v \<Rightarrow> preempt_decode_victim M v [] (s\<lparr>decoding := remove1 v (decoding s)\<rparr>)
         | None \<Rightarrow>
             if blocked_prefill_step_failure L \<noteq> None \<and> decoding s = [] then
               (Inl (RuntimeError ''Prefill candidate requires an atomic prefill step but cannot fit. ''), s)
             else if blocked_prefill_capacity_failure L \<noteq> None \<and> decoding s = [] then
               (Inl (RuntimeError ''No prefill candidate can use the remaining cache capacity. ''), s)
             else if deferred_prompt_failure L \<noteq> None \<and> decoding s = [] then
               (Inl (RuntimeError ''All prompt admissions were deferred and no runnable work remains. ''), s)
             else (Inr ([], False, []), s))
      else
        (let s1 = s\<lparr>decoding := scheduled_seqs L @ decoding s\<rparr>
         in case blocked_decode_victim L of
              None \<Rightarrow> (Inr (scheduled_seqs L, False, []), s1)
            | Some v \<Rightarrow> (Inr (scheduled_seqs L, False, []),
                         s1\<lparr>decoding := v # remove1 v (decoding s1)\<rparr>)))"

definition decode_phase ::
    "('m, 'k) memory_oracle \<Rightarrow> sched_config \<Rightarrow> step_locals
       \<Rightarrow> ('m sched, py_error, nat list \<times> bool \<times> nat list) eff" where
  "decode_phase M C L s =
     (let has_short = (\<exists>x\<in>set (decoding s). is_long_text C (sq s x) False = Inr False);
          target_is_long = (decoding s \<noteq> [] \<and> \<not> has_short)
      in case decode_loop M C target_is_long (length (decoding s)) L s of
           (Inl e, s1) \<Rightarrow> (Inl e, s1)
         | (Inr (Inl (v, L1)), s1) \<Rightarrow> preempt_decode_victim M v (scheduled_seqs L1) s1
         | (Inr (Inr L1), s1) \<Rightarrow> decode_finish M L1 s1)"

section \<open>A scheduling step\<close>

definition initial_locals ::
    "('m, 'k) memory_oracle \<Rightarrow> sched_config \<Rightarrow> 'm sched \<Rightarrow> step_locals" where
  "initial_locals M C s =
     (let m = mem s; queue = map (sq s) (waiting s);
          reserved = (if waiting s = [] then 0
                      else reserved_prefill_slots M m queue (engine_prefill_chunk_size C))
      in \<lparr>scheduled_seqs = [], num_batched_seqs = 0, num_batched_tokens = 0,
          prompt_logical_free_count =
            (if waiting s = [] then 0 else max 0 (prompt_admission_free_slots M m - reserved)),
          step_free_count =
            (if waiting s = [] then num_free_slots M m else prefill_step_free_slots M m),
          admission_budgets =
            (if waiting s = [] then []
             else prompt_admission_budgets M m queue (engine_prefill_chunk_size C)),
          deferred_prompt_failure = None, blocked_prefill_step_failure = None,
          blocked_prefill_capacity_failure = None,
          decode_logical_free_count = max 0 (decode_step_free_slots M m),
          blocked_decode_victim = None\<rparr>)"

definition schedule ::
    "('m, 'k) memory_oracle \<Rightarrow> sched_config
       \<Rightarrow> ('m sched, py_error, nat list \<times> bool \<times> nat list) eff" where
  "schedule M C s =
     (let margin = (if waiting s = [] then 0 else prefill_batched_tokens_margin M (mem s));
          replay_waiting = (\<exists>x\<in>set (waiting s). is_replay s x);
          modes = (if waiting s \<noteq> [] \<and> \<not> (replay_waiting \<and> decoding s \<noteq> [])
                   then prefill_mode_order M else retE [])
      in bindE (bindE modes (\<lambda>ks. prefill_buckets M C margin ks (initial_locals M C s)))
           (\<lambda>L. if scheduled_seqs L \<noteq> [] then retE (scheduled_seqs L, True, [])
                else decode_phase M C L) s)"

section \<open>Postprocessing\<close>

definition stops :: "sched_config \<Rightarrow> int \<Rightarrow> seq \<Rightarrow> bool" where
  "stops C t q \<longleftrightarrow>
     \<not> ignore_eos (sampling q)
       \<and> t \<in> resolve_eos_token_ids (EosList (eos_token_ids (sampling q)))
                (EosList (sched_eos_token_ids C)) None
     \<or> num_completion_tokens q = max_tokens (sampling q)"

type_synonym sample = "int \<times> pyfloat option \<times> (int \<times> pyfloat) list option"

definition post_prefill_one ::
    "('m, 'k) memory_oracle \<Rightarrow> sched_config \<Rightarrow> nat \<Rightarrow> sample \<Rightarrow> ('m sched, py_error, unit) eff" where
  "post_prefill_one M C x smp s =
     (case current_chunk_size (sq s x) of
        None \<Rightarrow> (Inl (TypeError ''unsupported operand''), s)
      | Some c \<Rightarrow>
          (let s1 = set_seq x (\<lambda>q. q\<lparr>num_prefilled_tokens := num_prefilled_tokens q + c\<rparr>) s
           in if num_prefilled_tokens (sq s1 x) < num_prompt_tokens (sq s1 x) then
                (Inr (), (set_seq x (\<lambda>q. q\<lparr>status := WAITING\<rparr>) s1)\<lparr>waiting := x # waiting s1\<rparr>)
              else
                (let s2 = s1\<lparr>mem := complete_prefill_execution M (sq s1 x) (mem s1)\<rparr>;
                     s3 = (set_seq x (\<lambda>q. q\<lparr>status := RUNNING\<rparr>) s2)\<lparr>decoding := decoding s2 @ [x]\<rparr>
                 in if is_replay s3 x then
                      (if replay_decode_token_count (sq s3 x) = 0
                       then with_seq x (\<lambda>(q, m). case finish_recompute_replay q of (r, q') \<Rightarrow> (r, q', m)) s3
                       else (Inr (), s3))
                    else
                      (case smp of (t, lp, tops) \<Rightarrow>
                         let s4 = set_seq x (append_token t lp tops) s3
                         in if stops C t (sq s4 x) then
                              (Inr (), (set_seq x (\<lambda>q. q\<lparr>status := FINISHED\<rparr>) s4)
                                         \<lparr>decoding := remove1 x (decoding s4)\<rparr>)
                            else (Inr (), s4)))))"

definition post_decode_one ::
    "sched_config \<Rightarrow> nat \<Rightarrow> sample \<Rightarrow> ('m sched, py_error, unit) eff" where
  "post_decode_one C x smp s =
     (if is_recompute_decode (sq s x) then
        with_seq x (\<lambda>(q, m). case advance_recompute_replay q of (r, q') \<Rightarrow> (r, q', m)) s
      else
        (case smp of (t, lp, tops) \<Rightarrow>
           let s1 = set_seq x (append_token t lp tops) s
           in if stops C t (sq s1 x) then
                (Inr (), (set_seq x (\<lambda>q. q\<lparr>status := FINISHED\<rparr>) s1)
                           \<lparr>decoding := remove1 x (decoding s1)\<rparr>)
              else (Inr (), s1)))"

definition or_nones :: "'a option list option \<Rightarrow> nat \<Rightarrow> 'a option list" where
  "or_nones xs n = (case xs of None \<Rightarrow> replicate n None
     | Some ys \<Rightarrow> if ys = [] then replicate n None else ys)"

definition postprocess ::
    "('m, 'k) memory_oracle \<Rightarrow> sched_config \<Rightarrow> nat list \<Rightarrow> int list \<Rightarrow> bool
       \<Rightarrow> pyfloat option list option \<Rightarrow> (int \<times> pyfloat) list option list option
       \<Rightarrow> ('m sched, py_error, unit) eff" where
  "postprocess M C seqs ts is_prefill lps tops =
     (let samples = zip ts (zip (or_nones lps (length seqs)) (or_nones tops (length seqs)))
      in if is_prefill then forE (\<lambda>(x, smp). post_prefill_one M C x smp) (zip seqs samples)
         else forE (\<lambda>(x, smp). post_decode_one C x smp) (zip seqs samples))"

end
