(* ===== verification/Scheduler_Queues.thy ===== *)
theory Scheduler_Queues
  imports Scheduler_Step
begin

text \<open>
  What a scheduling step does to the queues, whatever the memory oracle answers: popping at an
  index removes that element, candidates go back to the queue or into the batch, and the batch
  respects the budgets of the configuration.
\<close>

section \<open>Queue operations\<close>

lemma pop_at_spec: "i < length xs \<Longrightarrow> pop_at i xs = Inr (xs ! i, take i xs @ drop (Suc i) xs)"
proof (cases "i = 0")
  case True
  assume "i < length xs"
  then show ?thesis using True by (cases xs) (auto simp: pop_at_def)
next
  case False
  assume i: "i < length xs"
  have "deque_rotate (- int i) xs = drop i xs @ take i xs"
    using i by (auto simp: deque_rotate_def rotate_drop_take)
  also have "\<dots> = xs ! i # drop (Suc i) xs @ take i xs"
    using i by (simp add: Cons_nth_drop_Suc [symmetric])
  finally have 1: "deque_rotate (- int i) xs = xs ! i # drop (Suc i) xs @ take i xs" .
  let ?ys = "drop (Suc i) xs @ take i xs" and ?n = "length xs"
  have "deque_rotate (int i) ?ys = take i xs @ drop (Suc i) xs"
  proof (cases "?n = Suc i")
    case True
    have "- int i mod int i = 0" by simp
    then show ?thesis using True False by (auto simp: deque_rotate_def)
  next
    case no: False
    have len: "length ?ys = ?n - 1" using i by simp
    have "- int i mod int (?n - 1) = int (?n - 1 - i)"
    proof -
      have "- int i = int (?n - 1 - i) + int (?n - 1) * (- 1)" using i by simp
      then have "- int i mod int (?n - 1) = int (?n - 1 - i) mod int (?n - 1)"
        by (metis mod_mult_self2)
      also have "\<dots> = int (?n - 1 - i)" using False no i by (intro mod_pos_pos_trivial) auto
      finally show ?thesis .
    qed
    then have "deque_rotate (int i) ?ys = rotate (?n - 1 - i) ?ys"
      using False len by (auto simp: deque_rotate_def)
    also have "\<dots> = take i xs @ drop (Suc i) xs"
      using i no False len by (simp add: rotate_drop_take)
    finally show ?thesis .
  qed
  then show ?thesis using False 1 by (simp add: pop_at_def)
qed

text \<open>Only the memory changed.\<close>

definition mem_only :: "'m sched \<Rightarrow> 'm sched \<Rightarrow> bool" where
  "mem_only s t \<longleftrightarrow> (\<exists>m. t = s\<lparr>mem := m\<rparr>)"

lemma mem_only_refl [simp]: "mem_only s s"
  unfolding mem_only_def by (rule exI [of _ "mem s"]) simp

lemma mem_only_trans: "mem_only s t \<Longrightarrow> mem_only t u \<Longrightarrow> mem_only s u"
  by (auto simp: mem_only_def)

lemma mem_only_fields:
  assumes "mem_only s t"
  shows "sq t = sq s" "waiting t = waiting s" "decoding t = decoding s"
    "total_preemptions t = total_preemptions s" "is_replay t = is_replay s"
  using assms by (auto simp: mem_only_def is_replay_def fun_eq_iff)

lemma batch_key_mem_only: "prefill_batch_key M x s = (r, t) \<Longrightarrow> mem_only s t"
  by (auto simp: prefill_batch_key_def sched_prefill_execution_mode_def bindE_def mem_only_def
      split: prod.splits sum.splits option.splits)

text \<open>
  The memories a scheduling step passes through: only asking for the mode of a sequence, looking up
  a prefix hit and admitting a prompt may change it.
\<close>

inductive mem_path :: "('m, 'k) memory_oracle \<Rightarrow> 'm \<Rightarrow> 'm \<Rightarrow> bool" for M m where
  start: "mem_path M m m"
| mode: "mem_path M m m1 \<Longrightarrow> prefill_execution_mode M q m1 = (r, m2) \<Longrightarrow> mem_path M m m2"
| hit: "mem_path M m m1 \<Longrightarrow> refresh_prefix_cache_hit M (q, m1) = (r, q', m2) \<Longrightarrow> mem_path M m m2"
| admitted: "mem_path M m m1 \<Longrightarrow> mem_path M m (on_prompt_admitted M q costs m1)"

lemma mem_path_trans: "mem_path M m1 m2 \<Longrightarrow> mem_path M m m1 \<Longrightarrow> mem_path M m m2"
proof (induction rule: mem_path.induct)
  case (mode m1 q r m2)
  show ?case by (rule mem_path.mode [OF mode.IH [OF mode.prems] mode.hyps(2)])
next
  case (hit m1 q r q' m2)
  show ?case by (rule mem_path.hit [OF hit.IH [OF hit.prems] hit.hyps(2)])
next
  case (admitted m1 q costs)
  show ?case by (rule mem_path.admitted [OF admitted.IH [OF admitted.prems]])
qed

definition asked :: "('m, 'k) memory_oracle \<Rightarrow> 'm sched \<Rightarrow> 'm sched \<Rightarrow> bool" where
  "asked M s t \<longleftrightarrow> mem_only s t \<and> mem_path M (mem s) (mem t)"

lemma asked_refl [simp]: "asked M s s"
  by (simp add: asked_def mem_path.start)

lemma asked_trans: "asked M s t \<Longrightarrow> asked M t u \<Longrightarrow> asked M s u"
  by (metis asked_def mem_only_trans mem_path_trans)

lemma askedD: "asked M s t \<Longrightarrow> mem_only s t" "asked M s t \<Longrightarrow> mem_path M (mem s) (mem t)"
  by (simp_all add: asked_def)

lemma mode_path: "sched_prefill_execution_mode M x s = (r, t) \<Longrightarrow> mem_path M (mem s) (mem t)"
proof -
  assume run: "sched_prefill_execution_mode M x s = (r, t)"
  obtain y m where y: "prefill_execution_mode M (sq s x) (mem s) = (y, m)" by fastforce
  then have "mem t = m" using run by (auto simp: sched_prefill_execution_mode_def split: sum.splits)
  then show ?thesis using mem_path.mode [OF mem_path.start y] by simp
qed

lemma batch_key_asked: "prefill_batch_key M x s = (r, t) \<Longrightarrow> asked M s t"
proof -
  assume run: "prefill_batch_key M x s = (r, t)"
  obtain y u where y: "sched_prefill_execution_mode M x s = (y, u)" by fastforce
  then have "mem t = mem u" using run
    by (auto simp: prefill_batch_key_def bindE_def split: sum.splits option.splits)
  then show ?thesis using mode_path [OF y] batch_key_mem_only [OF run] by (simp add: asked_def)
qed

text \<open>The key of a sequence is what the oracle answers for it, in the memory the question left.\<close>

definition answers_key :: "('m, 'k) memory_oracle \<Rightarrow> 'm \<Rightarrow> seq \<Rightarrow> string \<times> 'k \<Rightarrow> 'm \<Rightarrow> bool" where
  "answers_key M m q k m' \<longleftrightarrow> prefill_execution_mode M q m = (Inr (fst k), m')
     \<and> prefill_batch_compatibility_key M m' q = Some (snd k)"

lemma batch_key_answers:
  assumes "prefill_batch_key M x s = (Inr k, t)"
  shows "answers_key M (mem s) (sq s x) k (mem t)"
proof -
  obtain md m where m: "prefill_execution_mode M (sq s x) (mem s) = (Inr md, m)"
    and v: "validate_prefill_execution_mode md = Inr (fst k)"
    using assms
    by (auto simp: prefill_batch_key_def sched_prefill_execution_mode_def bindE_def
        split: prod.splits sum.splits option.splits)
  obtain md' j where k: "k = (md', j)" by (cases k)
  have "md = fst k" using v by (auto simp: validate_prefill_execution_mode_def split: if_splits)
  then show ?thesis
    using assms m v unfolding k
    by (auto simp: answers_key_def prefill_batch_key_def sched_prefill_execution_mode_def bindE_def
        split: option.splits)
qed

definition popped ::
    "('m, 'k) memory_oracle \<Rightarrow> bool \<Rightarrow> string \<times> 'k \<Rightarrow> 'm sched \<Rightarrow> nat \<Rightarrow> 'm sched \<Rightarrow> bool" where
  "popped M rp k s x t \<longleftrightarrow> (\<exists>ys zs u v. waiting s = ys @ x # zs \<and> asked M s u
     \<and> t = u\<lparr>waiting := ys @ zs\<rparr> \<and> (rp \<longrightarrow> is_replay s x)
     \<and> asked M s v \<and> prefill_batch_key M x v = (Inr k, u))"

lemma popped_asked: "asked M s u \<Longrightarrow> popped M rp k u x t \<Longrightarrow> popped M rp k s x t"
  unfolding popped_def using mem_only_fields [OF askedD(1)] asked_trans by metis

lemma find_prefill_seq_spec:
  assumes "find_prefill_seq M rp k i xs s = (Inr r, t)" "waiting s = ws" "drop i ws = xs"
    "i + length xs = length ws"
  shows "case r of None \<Rightarrow> asked M s t
     | Some x \<Rightarrow> popped M rp k s x t"
  using assms
proof (induction xs arbitrary: i s r t)
  case Nil
  then show ?case by auto
next
  case (Cons x xs)
  have d: "drop (i + 1) ws = xs" using Cons.prems(3) by (metis Suc_eq_plus1 drop_Suc list.sel(3) tl_drop)
  have i: "i < length ws" using Cons.prems(4) by simp
  have xi: "ws ! i = x" using Cons.prems(3) i by (metis hd_drop_conv_nth list.sel(1))
  show ?case
  proof (cases "rp \<and> \<not> is_replay s x")
    case True
    then have "find_prefill_seq M rp k (i + 1) xs s = (Inr r, t)"
      using Cons.prems(1) by (simp add: bindE_def)
    from Cons.IH [OF this Cons.prems(2) d] Cons.prems(4) show ?thesis by simp
  next
    case False
    then obtain k' u where k: "prefill_batch_key M x s = (Inr k', u)"
      and rest: "(if k' = k then bindE (pop_waiting_at i) (\<lambda>y. retE (Some y))
           else find_prefill_seq M rp k (i + 1) xs) u = (Inr r, t)"
      using Cons.prems(1) by (auto simp: bindE_def split: prod.splits sum.splits)
    have mu: "asked M s u" using k by (rule batch_key_asked)
    note fu = mem_only_fields [OF askedD(1) [OF mu]]
    show ?thesis
    proof (cases "k' = k")
      case True
      have "pop_waiting_at i u = (Inr x, u\<lparr>waiting := take i ws @ drop (Suc i) ws\<rparr>)"
        using i xi Cons.prems(2) fu by (simp add: pop_waiting_at_def pop_at_spec)
      then have r: "r = Some x" "t = u\<lparr>waiting := take i ws @ drop (Suc i) ws\<rparr>"
        using rest True by (auto simp: bindE_def)
      moreover have "ws = take i ws @ x # drop (Suc i) ws" using i xi id_take_nth_drop by blast
      moreover have "rp \<longrightarrow> is_replay s x" using False by simp
      ultimately show ?thesis using mu k True Cons.prems(2)
        unfolding popped_def by (simp, metis asked_refl)
    next
      case no: False
      then have f: "find_prefill_seq M rp k (i + 1) xs u = (Inr r, t)" using rest by simp
      have "waiting u = ws" using fu Cons.prems(2) by simp
      from Cons.IH [OF f this d] Cons.prems(4) show ?thesis
        using asked_trans [OF mu] popped_asked [OF mu, of rp k] by (cases r) auto
    qed
  qed
qed

lemma pop_next_prefill_some:
  assumes "pop_next_prefill_seq M k s = (Inr (Some x), t)"
  shows "popped M (\<exists>y\<in>set (waiting s). is_replay s y) k s x t"
proof -
  have "find_prefill_seq M (\<exists>x\<in>set (waiting s). is_replay s x) k 0 (waiting s) s = (Inr (Some x), t)"
    using assms by (auto simp: pop_next_prefill_seq_def split: if_splits)
  from find_prefill_seq_spec [OF this refl] show ?thesis by simp
qed

lemma pop_next_prefill_none:
  assumes "pop_next_prefill_seq M k s = (Inr None, t)"
  shows "asked M s t"
proof (cases "waiting s = []")
  case True
  then show ?thesis using assms by (auto simp: pop_next_prefill_seq_def)
next
  case False
  then have "find_prefill_seq M (\<exists>x\<in>set (waiting s). is_replay s x) k 0 (waiting s) s = (Inr None, t)"
    using assms by (auto simp: pop_next_prefill_seq_def split: if_splits)
  from find_prefill_seq_spec [OF this refl] show ?thesis by simp
qed

lemma find_decoding_seq_spec:
  assumes "find_decoding_seq C long i xs s = (r, t)" "decoding s = ds" "drop i ds = xs"
    "i + length xs = length ds"
  shows "case r of Inl e \<Rightarrow> False
     | Inr None \<Rightarrow> t = s \<and> (\<forall>x\<in>set xs. is_long_text C (sq s x) False \<noteq> Inr long)
     | Inr (Some x) \<Rightarrow> \<exists>ys zs. ds = ys @ x # zs \<and> t = s\<lparr>decoding := ys @ zs\<rparr>
         \<and> is_long_text C (sq s x) False = Inr long"
  using assms
proof (induction xs arbitrary: i)
  case Nil
  then show ?case by auto
next
  case (Cons x xs)
  have d: "drop (i + 1) ds = xs" using Cons.prems(3) by (metis Suc_eq_plus1 drop_Suc list.sel(3) tl_drop)
  have i: "i < length ds" using Cons.prems(4) by simp
  have xi: "ds ! i = x" using Cons.prems(3) i by (metis hd_drop_conv_nth list.sel(1))
  obtain b where b: "is_long_text C (sq s x) False = Inr b"
    by (cases "config_sparse_method C = ''''") (auto simp: is_long_text_def)
  show ?case
  proof (cases "b = long")
    case True
    have "pop_decoding_at i s = (Inr x, s\<lparr>decoding := take i ds @ drop (Suc i) ds\<rparr>)"
      using i xi Cons.prems(2) by (simp add: pop_decoding_at_def pop_at_spec)
    then have "r = Inr (Some x)" "t = s\<lparr>decoding := take i ds @ drop (Suc i) ds\<rparr>"
      using Cons.prems(1) b True by (auto simp: bindE_def)
    moreover have "ds = take i ds @ x # drop (Suc i) ds" using i xi id_take_nth_drop by blast
    ultimately show ?thesis using b True by auto
  next
    case False
    then have "find_decoding_seq C long (i + 1) xs s = (r, t)"
      using Cons.prems(1) b by (simp add: bindE_def)
    from Cons.IH [OF this Cons.prems(2) d] Cons.prems(4) False b show ?thesis
      by (auto split: sum.splits option.splits)
  qed
qed

lemma pop_next_decoding_spec:
  "case pop_next_decoding_seq C long s of
     (Inl e, t) \<Rightarrow> False
   | (Inr None, t) \<Rightarrow> t = s \<and> (\<forall>x\<in>set (decoding s). is_long_text C (sq s x) False \<noteq> Inr long)
   | (Inr (Some x), t) \<Rightarrow> \<exists>ys zs. decoding s = ys @ x # zs \<and> t = s\<lparr>decoding := ys @ zs\<rparr>
       \<and> is_long_text C (sq s x) False = Inr long"
proof (cases "decoding s = []")
  case True
  then show ?thesis by (simp add: pop_next_decoding_seq_def)
next
  case False
  obtain r t where rt: "find_decoding_seq C long 0 (decoding s) s = (r, t)" by fastforce
  from find_decoding_seq_spec [OF rt refl] False rt show ?thesis
    by (auto simp: pop_next_decoding_seq_def split: sum.splits option.splits)
qed

section \<open>Chunk sizes\<close>

lemma step_tokens_bounds:
  assumes "prefill_step_tokens C md remaining batched free = Inr p" "0 < p"
  shows "p \<le> remaining" "p \<le> free" "batched + p \<le> max_num_batched_tokens C"
    "md = CHUNKED \<or> md = FULL \<or> md = RAW_OFFLOAD"
    "md = FULL \<Longrightarrow> p = remaining" "md \<noteq> FULL \<longrightarrow> p \<le> engine_prefill_chunk_size C"
  using assms by (auto simp: prefill_step_tokens_def Let_def split: if_splits)

lemma respect_min_final:
  assumes "respect_min_final_prefill_chunk m remaining p = Inr c" "0 < c"
  shows "c \<le> p" "0 \<le> m" "p \<le> remaining \<longrightarrow> c = remaining \<or> m \<le> remaining - c"
  using assms by (auto simp: respect_min_final_prefill_chunk_def Let_def split: if_splits)

text \<open>The chunk chosen for a candidate, as one definition.\<close>

definition chunk_for ::
    "('m, 'k) memory_oracle \<Rightarrow> sched_config \<Rightarrow> string \<Rightarrow> step_locals \<Rightarrow> 'm \<Rightarrow> seq \<Rightarrow> int \<Rightarrow> bool" where
  "chunk_for M C md L m q c \<longleftrightarrow>
     0 < c \<and> c \<le> remaining_prefill_tokens M m q \<and> c \<le> candidate_step_free M md L m q
     \<and> num_batched_tokens L + c \<le> max_num_batched_tokens C
     \<and> (if md = FULL then c = remaining_prefill_tokens M m q else c \<le> engine_prefill_chunk_size C)
     \<and> (c = remaining_prefill_tokens M m q
        \<or> min_final_prefill_chunk_size M m q \<le> remaining_prefill_tokens M m q - c)"

lemma chunk_forI:
  assumes "prefill_step_tokens C md (remaining_prefill_tokens M m q) (num_batched_tokens L)
      (candidate_step_free M md L m q) = Inr p"
    and "respect_min_final_prefill_chunk (min_final_prefill_chunk_size M m q)
      (remaining_prefill_tokens M m q) p = Inr c" "0 < c"
  shows "chunk_for M C md L m q c"
proof -
  have p: "0 < p" using respect_min_final(1) [OF assms(2,3)] assms(3) by simp
  note b = step_tokens_bounds [OF assms(1) p] and r = respect_min_final [OF assms(2,3)]
  have f: "md = FULL \<Longrightarrow> c = remaining_prefill_tokens M m q"
    using b(5) assms(2) by (auto simp: respect_min_final_prefill_chunk_def split: if_splits)
  show ?thesis using b(1-3,6) r assms(3) f by (auto simp: chunk_for_def)
qed

section \<open>One candidate\<close>

text \<open>
  A candidate that raises nothing either goes to the tail of the queue with its sequence
  untouched, or into the batch with a chunk; \<open>placed_seq\<close> is the sequence it becomes.
\<close>

definition placed_seq :: "int \<Rightarrow> seq \<Rightarrow> seq" where
  "placed_seq c q =
     q\<lparr>num_prefilled_tokens :=
         (if num_prefilled_tokens q = 0 \<and> 0 < prefix_cache_hit_len q then prefix_cache_hit_len q
          else num_prefilled_tokens q),
       current_chunk_size := Some c, status := RUNNING\<rparr>"

definition requeued_to :: "nat \<Rightarrow> step_locals \<Rightarrow> 'm sched \<Rightarrow> step_locals \<Rightarrow> 'm sched \<Rightarrow> bool" where
  "requeued_to x L s L' s' \<longleftrightarrow>
     scheduled_seqs L' = scheduled_seqs L \<and> num_batched_seqs L' = num_batched_seqs L
     \<and> num_batched_tokens L' = num_batched_tokens L \<and> step_free_count L' = step_free_count L
     \<and> waiting s' = waiting s @ [x] \<and> decoding s' = decoding s \<and> sq s' = sq s
     \<and> total_preemptions s' = total_preemptions s \<and> mem s' = mem s
     \<and> decode_logical_free_count L' = decode_logical_free_count L
     \<and> blocked_decode_victim L' = blocked_decode_victim L"

definition placed_to ::
    "('m, 'k) memory_oracle \<Rightarrow> sched_config \<Rightarrow> string \<Rightarrow> nat \<Rightarrow> step_locals \<Rightarrow> 'm sched
       \<Rightarrow> step_locals \<Rightarrow> 'm sched \<Rightarrow> bool" where
  "placed_to M C md x L s L' s' \<longleftrightarrow>
     (\<exists>c. chunk_for M C md L (mem s) (sq s x) c
        \<and> scheduled_seqs L' = scheduled_seqs L @ [x]
        \<and> num_batched_seqs L' = num_batched_seqs L + 1
        \<and> num_batched_tokens L' = num_batched_tokens L + c
        \<and> step_free_count L' \<le> max 0 (step_free_count L
             - prefill_step_reservation_cost M (mem s') ((placed_seq c (sq s x))\<lparr>status := status (sq s x)\<rparr>) c)
        \<and> sq s' = (sq s)(x := placed_seq c (sq s x)))
     \<and> waiting s' = waiting s \<and> decoding s' = decoding s \<and> mem_path M (mem s) (mem s')
     \<and> total_preemptions s' = total_preemptions s"

lemma admit_prompt_cases:
  assumes "admit_prompt M x L s = (Inr (L', b), s')" "num_prefilled_tokens (sq s x) = 0"
  shows "if b then scheduled_seqs L' = scheduled_seqs L \<and> num_batched_seqs L' = num_batched_seqs L
       \<and> num_batched_tokens L' = num_batched_tokens L \<and> step_free_count L' = step_free_count L
       \<and> waiting s' = waiting s \<and> decoding s' = decoding s \<and> mem_path M (mem s) (mem s')
       \<and> total_preemptions s' = total_preemptions s
       \<and> sq s' = (sq s)(x := (sq s x)\<lparr>num_prefilled_tokens :=
            (if 0 < prefix_cache_hit_len (sq s x) then prefix_cache_hit_len (sq s x) else 0)\<rparr>)
     else requeued_to x L s L' s'"
  using assms
  by (auto simp: admit_prompt_def Let_def set_seq_def requeued_to_def fun_eq_iff
      intro: mem_path.admitted [OF mem_path.start] split: option.splits if_splits)

lemma prefill_candidate_cases:
  assumes run: "prefill_candidate M C md x L s = (Inr L', s')"
  shows "requeued_to x L s L' s' \<or> placed_to M C md x L s L' s'"
proof -
  let ?rem = "remaining_prefill_tokens M (mem s) (sq s x)"
  have pos: "0 < ?rem" using run by (auto simp: prefill_candidate_def Let_def split: if_splits)
  obtain p where p: "prefill_step_tokens C md ?rem (num_batched_tokens L)
      (candidate_step_free M md L (mem s) (sq s x)) = Inr p"
    using run pos by (auto simp: prefill_candidate_def Let_def split: if_splits sum.splits)
  obtain c where c: "respect_min_final_prefill_chunk (min_final_prefill_chunk_size M (mem s) (sq s x))
      ?rem p = Inr c"
    using run pos p by (auto simp: prefill_candidate_def Let_def split: if_splits sum.splits)
  consider (blocked) "c \<le> 0" | (fresh) "0 < c" "num_prefilled_tokens (sq s x) = 0"
    | (started) "0 < c" "num_prefilled_tokens (sq s x) \<noteq> 0" by linarith
  then show ?thesis
  proof cases
    case blocked
    then have "L' = note_blocked C md x ?rem (candidate_step_free M md L (mem s) (sq s x)) L"
      "s' = s\<lparr>waiting := waiting s @ [x]\<rparr>"
      using run pos p c by (auto simp: prefill_candidate_def Let_def)
    then show ?thesis by (auto simp: requeued_to_def note_blocked_def Let_def)
  next
    case fresh
    have ch: "chunk_for M C md L (mem s) (sq s x) c" using chunk_forI [OF p c fresh(1)] .
    obtain L1 b s1 where a: "admit_prompt M x L s = (Inr (L1, b), s1)"
      and r: "(if b then (let (L2, s2) = place_chunk M x c L1 s1 in (Inr L2, s2)) else (Inr L1, s1))
          = (Inr L' :: (py_error + step_locals), s')"
      using run pos p c fresh by (auto simp: prefill_candidate_def Let_def split: prod.splits sum.splits)
    show ?thesis
    proof (cases b)
      case True
      then have r': "place_chunk M x c L1 s1 = (L', s')" using r by (auto split: prod.splits)
      have "placed_to M C md x L s L' s'"
        using r' admit_prompt_cases [OF a fresh(2)] True ch fresh
        unfolding placed_to_def
        by (intro conjI exI [of _ c])
          (auto simp: place_chunk_def Let_def set_seq_def placed_seq_def fun_eq_iff)
      then show ?thesis by simp
    next
      case False
      then show ?thesis using r admit_prompt_cases [OF a fresh(2)] by simp
    qed
  next
    case started
    have ch: "chunk_for M C md L (mem s) (sq s x) c" using chunk_forI [OF p c started(1)] .
    have r': "place_chunk M x c L s = (L', s')"
      using run pos p c started by (auto simp: prefill_candidate_def Let_def split: prod.splits)
    have "placed_to M C md x L s L' s'"
      using r' ch started mem_path.start unfolding placed_to_def
      by (intro conjI exI [of _ c])
        (auto simp: place_chunk_def Let_def set_seq_def placed_seq_def fun_eq_iff)
    then show ?thesis by simp
  qed
qed

section \<open>The prefill batch\<close>

text \<open>A property of the locals and the state that every step of a bucket keeps holds at its end.\<close>

lemma prefill_bucket_inv:
  assumes "prefill_bucket M C k margin n L s = (Inr L', s')" "I L s"
    and m: "\<And>L s t. I L s \<Longrightarrow> asked M s t \<Longrightarrow> I L t"
    and requeue: "\<And>L s x t L' s'. I L s \<Longrightarrow> popped M (\<exists>y\<in>set (waiting s). is_replay s y) k s x t \<Longrightarrow>
      requeued_to x L t L' s' \<Longrightarrow> I L' s'"
    and place: "\<And>L s x t L' s'. I L s \<Longrightarrow> can_continue_prefill_batch C (fst k) margin L s \<Longrightarrow>
      popped M (\<exists>y\<in>set (waiting s). is_replay s y) k s x t \<Longrightarrow>
      placed_to M C (fst k) x L t L' s' \<Longrightarrow> I L' s'"
  shows "I L' s'"
  using assms(1,2)
proof (induction n arbitrary: L s)
  case 0
  then show ?case by simp
next
  case (Suc n)
  show ?case
  proof (cases "can_continue_prefill_batch C (fst k) margin L s")
    case False
    then show ?thesis using Suc.prems by simp
  next
    case cont: True
    obtain r s1 where pop: "pop_next_prefill_seq M k s = (r, s1)" by fastforce
    have "\<exists>y. r = Inr y" using Suc.prems(1) cont pop by (cases r) auto
    then obtain y where r: "r = Inr y" by blast
    show ?thesis
    proof (cases y)
      case None
      then have "asked M s s1" "L' = L" "s' = s1"
        using Suc.prems(1) cont pop r pop_next_prefill_none [of M k s s1] by auto
      then show ?thesis using m Suc.prems(2) by blast
    next
      case (Some x)
      have px: "popped M (\<exists>y\<in>set (waiting s). is_replay s y) k s x s1"
        using pop r Some by (intro pop_next_prefill_some) simp
      obtain rc s2 where c: "prefill_candidate M C (fst k) x L s1 = (rc, s2)" by fastforce
      have "\<exists>L2. rc = Inr L2" using Suc.prems(1) cont pop r Some c by (cases rc) auto
      then obtain L2 where rc: "rc = Inr L2" by blast
      have i2: "I L2 s2"
        using prefill_candidate_cases [of M C "fst k" x L s1 L2 s2] c rc
          requeue [OF Suc.prems(2) px] place [OF Suc.prems(2) cont px] by blast
      have "(if fst k = RAW_OFFLOAD \<and> length (scheduled_seqs L2) \<noteq> length (scheduled_seqs L)
             then (Inr L2, s2) else prefill_bucket M C k margin n L2 s2) = (Inr L', s')"
        using Suc.prems(1) cont pop r Some c rc by simp
      then show ?thesis using Suc.IH [OF _ i2] i2 by (auto split: if_splits)
    qed
  qed
qed

text \<open>
  The chunk a sequence got: the oracle was asked for its mode and key in a memory \<open>m1\<close> on the way
  from \<open>m0\<close>, and in the memory \<open>m\<close> this left the chunk is no longer than what the prompt lacks, and as
  long as the answered mode allows.
\<close>

definition chunk_ok ::
    "('m, 'k) memory_oracle \<Rightarrow> sched_config \<Rightarrow> string \<times> 'k \<Rightarrow> 'm \<Rightarrow> seq \<Rightarrow> seq \<Rightarrow> bool" where
  "chunk_ok M C k m0 q0 q \<longleftrightarrow> (\<exists>c m1 m. mem_path M m0 m1 \<and> answers_key M m1 q0 k m
     \<and> q = placed_seq c q0 \<and> 0 < c \<and> c \<le> remaining_prefill_tokens M m q0
     \<and> (if fst k = FULL then c = remaining_prefill_tokens M m q0 else c \<le> engine_prefill_chunk_size C)
     \<and> (c = remaining_prefill_tokens M m q0
        \<or> min_final_prefill_chunk_size M m q0 \<le> remaining_prefill_tokens M m q0 - c))"

definition batch_tokens :: "'m sched \<Rightarrow> nat list \<Rightarrow> int" where
  "batch_tokens s xs = (\<Sum>x\<leftarrow>xs. or_zero (current_chunk_size (sq s x)))"

definition batch_queues :: "'m sched \<Rightarrow> nat list \<Rightarrow> 'm sched \<Rightarrow> bool" where
  "batch_queues s0 xs s \<longleftrightarrow>
     mset (waiting s) + mset xs = mset (waiting s0) \<and> decoding s = decoding s0
     \<and> total_preemptions s = total_preemptions s0"

definition batch_counts :: "sched_config \<Rightarrow> string \<Rightarrow> step_locals \<Rightarrow> 'm sched \<Rightarrow> bool" where
  "batch_counts C md L s \<longleftrightarrow>
     num_batched_seqs L = int (length (scheduled_seqs L))
     \<and> num_batched_tokens L = batch_tokens s (scheduled_seqs L)
     \<and> (scheduled_seqs L \<noteq> [] \<longrightarrow> num_batched_tokens L \<le> max_num_batched_tokens C)
     \<and> (if md = RAW_OFFLOAD then length (scheduled_seqs L) \<le> 1
        else scheduled_seqs L \<noteq> [] \<longrightarrow> num_batched_seqs L \<le> max_num_seqs_in_batch C)"

definition batch_replay :: "'m sched \<Rightarrow> nat list \<Rightarrow> bool" where
  "batch_replay s0 xs \<longleftrightarrow>
     ((\<exists>x\<in>set xs. is_replay s0 x) \<longrightarrow> length xs = 1)
     \<and> ((\<exists>x\<in>set (waiting s0). is_replay s0 x) \<longrightarrow> (\<forall>x\<in>set xs. is_replay s0 x))"

definition batch_inv ::
    "('m, 'k) memory_oracle \<Rightarrow> sched_config \<Rightarrow> int \<Rightarrow> string \<times> 'k \<Rightarrow> 'm sched \<Rightarrow> step_locals \<Rightarrow> 'm sched \<Rightarrow> bool" where
  "batch_inv M C df k s0 L s \<longleftrightarrow>
     batch_queues s0 (scheduled_seqs L) s \<and> batch_counts C (fst k) L s \<and> mem_path M (mem s0) (mem s)
     \<and> (\<forall>x. if x \<in> set (scheduled_seqs L) then chunk_ok M C k (mem s0) (sq s0 x) (sq s x)
          else sq s x = sq s0 x)
     \<and> batch_replay s0 (scheduled_seqs L)
     \<and> (scheduled_seqs L = [] \<longrightarrow>
          blocked_decode_victim L = None \<and> decode_logical_free_count L = df)"

lemma batch_inv_mem:
  assumes i: "batch_inv M C df k s0 L s" and a: "asked M s t"
  shows "batch_inv M C df k s0 L t"
proof -
  note f = mem_only_fields [OF askedD(1) [OF a]]
  note i' = i [unfolded batch_inv_def batch_queues_def batch_counts_def batch_tokens_def]
  have "mem_path M (mem s0) (mem t)"
    using i mem_path_trans [OF askedD(2) [OF a]] by (simp add: batch_inv_def)
  then show ?thesis
    unfolding batch_inv_def batch_queues_def batch_counts_def batch_tokens_def f using i' by blast
qed

lemma popped_fields:
  assumes "popped M rp k s x t"
  shows "mset (waiting s) = add_mset x (mset (waiting t))" "decoding t = decoding s" "sq t = sq s"
    "total_preemptions t = total_preemptions s" "rp \<Longrightarrow> is_replay s x"
    "set (waiting s) = insert x (set (waiting t))" "mem_path M (mem s) (mem t)"
    "\<exists>m. mem_path M (mem s) m \<and> answers_key M m (sq s x) k (mem t)"
proof -
  obtain ys zs u v where p: "waiting s = ys @ x # zs" "asked M s u" "t = u\<lparr>waiting := ys @ zs\<rparr>"
    "rp \<longrightarrow> is_replay s x" "asked M s v" "prefill_batch_key M x v = (Inr k, u)"
    using assms unfolding popped_def by blast
  note f = mem_only_fields [OF askedD(1) [OF p(2)]] and g = mem_only_fields [OF askedD(1) [OF p(5)]]
  show "mset (waiting s) = add_mset x (mset (waiting t))" "decoding t = decoding s" "sq t = sq s"
    "total_preemptions t = total_preemptions s" "rp \<Longrightarrow> is_replay s x"
    "set (waiting s) = insert x (set (waiting t))" "mem_path M (mem s) (mem t)"
    using p f askedD(2) [OF p(2)] by auto
  have "answers_key M (mem v) (sq s x) k (mem t)" using batch_key_answers [OF p(6)] g p(3) by simp
  then show "\<exists>m. mem_path M (mem s) m \<and> answers_key M m (sq s x) k (mem t)"
    using askedD(2) [OF p(5)] by blast
qed

lemma batch_inv_requeue:
  assumes i: "batch_inv M C df k s0 L s" and p: "popped M rp k s x t" and r: "requeued_to x L t L' s'"
  shows "batch_inv M C df k s0 L' s'"
proof -
  note pf = popped_fields [OF p]
  have f: "scheduled_seqs L' = scheduled_seqs L" "num_batched_seqs L' = num_batched_seqs L"
    "num_batched_tokens L' = num_batched_tokens L" "mset (waiting s') = mset (waiting s)"
    "decoding s' = decoding s" "sq s' = sq s" "total_preemptions s' = total_preemptions s"
    "blocked_decode_victim L' = blocked_decode_victim L"
    "decode_logical_free_count L' = decode_logical_free_count L"
    using r pf by (simp_all add: requeued_to_def)
  have "mem_path M (mem s0) (mem s')"
    using i r mem_path_trans [OF pf(7)] by (simp add: batch_inv_def requeued_to_def)
  then show ?thesis
    using i unfolding batch_inv_def batch_queues_def batch_counts_def batch_tokens_def f by blast
qed

lemma placed_replay [simp]: "is_recompute_replay (placed_seq c q) = is_recompute_replay q"
  by (simp add: placed_seq_def is_recompute_replay_def)

lemma chunk_ok_replay: "chunk_ok M C k m0 q0 q \<Longrightarrow> is_recompute_replay q = is_recompute_replay q0"
  by (auto simp: chunk_ok_def)

lemma batch_inv_replay: "batch_inv M C df k s0 L s \<Longrightarrow> is_replay s y = is_replay s0 y"
  unfolding batch_inv_def is_replay_def using chunk_ok_replay by metis

lemma batch_inv_place:
  assumes i: "batch_inv M C df k s0 L s" and d: "distinct (waiting s0)"
    and cont: "can_continue_prefill_batch C (fst k) margin L s"
    and p: "popped M (\<exists>y\<in>set (waiting s). is_replay s y) k s x t"
    and pl: "placed_to M C (fst k) x L t L' s'"
  shows "batch_inv M C df k s0 L' s'"
proof -
  let ?md = "fst k"
  note pf = popped_fields [OF p]
  let ?B = "scheduled_seqs L"
  obtain c where c: "chunk_for M C ?md L (mem t) (sq s x) c"
    and f: "scheduled_seqs L' = ?B @ [x]" "num_batched_seqs L' = num_batched_seqs L + 1"
      "num_batched_tokens L' = num_batched_tokens L + c" "sq s' = (sq s)(x := placed_seq c (sq s x))"
      "waiting s' = waiting t" "decoding s' = decoding s" "total_preemptions s' = total_preemptions s"
      "mem_path M (mem t) (mem s')"
    using pl pf unfolding placed_to_def by auto
  have q: "batch_queues s0 ?B s" and cn: "batch_counts C ?md L s" and path: "mem_path M (mem s0) (mem s)" and br: "batch_replay s0 ?B"
    using i by (simp_all add: batch_inv_def)
  have ms: "mset (waiting s) + mset ?B = mset (waiting s0)" using q by (simp add: batch_queues_def)
  have un: "set (waiting s) \<union> set ?B = set (waiting s0)" using ms by (metis set_append set_mset_mset mset_append)
  have "distinct (waiting s @ ?B)" using d ms by (metis mset_append mset_eq_imp_distinct_iff)
  then have x: "x \<notin> set ?B" using pf(6) by auto
  have q0: "sq s x = sq s0 x" using i x by (auto simp: batch_inv_def)
  note rep = batch_inv_replay [OF i]
  have none: "\<not> (\<exists>y\<in>set ?B. is_replay s y)"
    using cont by (auto simp: can_continue_prefill_batch_def split: if_splits)
  have one: "is_replay s0 x \<Longrightarrow> ?B = []"
  proof (rule ccontr)
    assume r: "is_replay s0 x" and "?B \<noteq> []"
    then obtain y where y: "y \<in> set ?B" by (cases ?B) auto
    have "x \<in> set (waiting s0)" using pf(6) un by auto
    then have "is_replay s0 y" using br r y by (auto simp: batch_replay_def)
    then show False using none y rep by auto
  qed
  have pend: "is_replay s0 x" if "y \<in> set (waiting s0)" "is_replay s0 y" for y
  proof -
    have "y \<notin> set ?B" using none rep that by auto
    then have "y \<in> set (waiting s)" using that un by auto
    then show ?thesis using pf(5) that rep by auto
  qed
  have "batch_queues s0 (?B @ [x]) s'"
    using q pf(1) f by (simp add: batch_queues_def)
  moreover have "batch_counts C ?md L' s'"
  proof -
    have "batch_tokens s' ?B = batch_tokens s ?B"
      unfolding batch_tokens_def using x f(4) by (intro arg_cong [where f = sum_list] map_cong) auto
    then have t: "batch_tokens s' (?B @ [x]) = batch_tokens s ?B + c"
      using f(4) by (simp add: batch_tokens_def placed_seq_def or_zero_def)
    have raw: "?md = RAW_OFFLOAD \<Longrightarrow> ?B = []" "?md \<noteq> RAW_OFFLOAD \<Longrightarrow> num_batched_seqs L < max_num_seqs_in_batch C"
      using cont by (auto simp: can_continue_prefill_batch_def split: if_splits)
    have lim: "num_batched_tokens L + c \<le> max_num_batched_tokens C" using c by (simp add: chunk_for_def)
    show ?thesis
    proof (cases "?md = RAW_OFFLOAD")
      case True
      then show ?thesis using cn t raw(1) lim by (simp add: batch_counts_def f)
    next
      case False
      then show ?thesis using cn t raw(2) lim by (simp add: batch_counts_def f)
    qed
  qed
  moreover have "mem_path M (mem s0) (mem s')"
    using mem_path_trans [OF f(8) mem_path_trans [OF pf(7) path]] .
  moreover obtain m1 where m1: "mem_path M (mem s) m1" "answers_key M m1 (sq s x) k (mem t)"
    using pf(8) by blast
  have "chunk_ok M C k (mem s0) (sq s0 x) (sq s' x)"
    unfolding chunk_ok_def using c f(4) q0 mem_path_trans [OF m1(1) path] m1(2)
    by (intro exI [of _ c] exI [of _ m1] exI [of _ "mem t"]) (simp add: chunk_for_def)
  then have "if y \<in> set (?B @ [x]) then chunk_ok M C k (mem s0) (sq s0 y) (sq s' y) else sq s' y = sq s0 y" for y
    using i f(4) by (cases "y = x") (auto simp: batch_inv_def split: if_splits)
  moreover have "batch_replay s0 (?B @ [x])"
    unfolding batch_replay_def
  proof (intro conjI impI)
    assume "\<exists>y\<in>set (?B @ [x]). is_replay s0 y"
    then have "is_replay s0 x" using none rep by auto
    then show "length (?B @ [x]) = 1" using one by simp
  next
    assume "\<exists>y\<in>set (waiting s0). is_replay s0 y"
    then show "\<forall>y\<in>set (?B @ [x]). is_replay s0 y" using pend br by (auto simp: batch_replay_def)
  qed
  ultimately show ?thesis by (simp add: batch_inv_def f(1))
qed

lemma prefill_buckets_inv:
  assumes "prefill_buckets M C margin ks L s = (Inr L', s')" "distinct (waiting s0)"
    "\<And>k. batch_inv M C df k s0 L s" "scheduled_seqs L = []"
  shows "\<exists>k. batch_inv M C df k s0 L' s'"
  using assms
proof (induction ks arbitrary: L s)
  case Nil
  then show ?case by auto
next
  case (Cons k ks)
  obtain L1 s1 where b: "prefill_bucket M C k margin (length (waiting s)) L s = (Inr L1, s1)"
    and r: "prefill_buckets M C margin ks L1 s1 = (Inr L', s')"
    using Cons.prems(1,4) by (auto simp: bindE_def split: prod.splits sum.splits)
  have i1: "batch_inv M C df k s0 L1 s1"
    using b Cons.prems(3)
    by (rule prefill_bucket_inv)
      (blast intro: batch_inv_mem batch_inv_requeue batch_inv_place [OF _ Cons.prems(2)])+
  show ?case
  proof (cases "scheduled_seqs L1 = []")
    case True
    have "batch_inv M C df j s0 L1 s1" for j
      using i1 True by (auto simp: batch_inv_def batch_counts_def)
    then show ?thesis using Cons.IH [OF r Cons.prems(2)] True by blast
  next
    case False
    then have "L' = L1" "s' = s1" using r by (cases ks; simp)+
    then show ?thesis using i1 by blast
  qed
qed

end
