(* ===== verification/Scheduler_Decode.thy ===== *)
theory Scheduler_Decode
  imports Scheduler_Queues
begin

text \<open>
  The decode half of a scheduling step: what the decode loop selects, what it leaves in the
  queue, and what a preemption does to the victim and to the survivors.
\<close>

section \<open>The decode loop\<close>

definition decode_costs :: "('m, 'k) memory_oracle \<Rightarrow> 'm sched \<Rightarrow> nat list \<Rightarrow> int" where
  "decode_costs M s xs = (\<Sum>x\<leftarrow>xs. decode_step_reservation_cost M (mem s) (sq s x))"

definition decode_inv ::
    "('m, 'k) memory_oracle \<Rightarrow> sched_config \<Rightarrow> bool \<Rightarrow> int \<Rightarrow> 'm sched \<Rightarrow> step_locals \<Rightarrow> 'm sched \<Rightarrow> bool" where
  "decode_inv M C long free s0 L s \<longleftrightarrow>
     s = s0\<lparr>decoding := decoding s\<rparr>
     \<and> mset (decoding s) + mset (scheduled_seqs L) = mset (decoding s0)
     \<and> num_batched_seqs L = int (length (scheduled_seqs L))
     \<and> (scheduled_seqs L \<noteq> [] \<longrightarrow> num_batched_seqs L \<le> max_decoding_seqs C)
     \<and> decode_logical_free_count L = free - decode_costs M s0 (scheduled_seqs L)
     \<and> 0 \<le> decode_logical_free_count L
     \<and> (\<forall>x\<in>set (scheduled_seqs L). is_long_text C (sq s0 x) False = Inr long
          \<and> decode_step_reservation_cost M (mem s0) (sq s0 x)
              \<le> decode_step_free_slots_for M (mem s0) (sq s0 x))
     \<and> (\<forall>v. blocked_decode_victim L = Some v \<longrightarrow>
          v \<in> set (decoding s) \<union> set (scheduled_seqs L))"

lemma decode_loop_inv:
  assumes "decode_loop M C long n L s = (Inr r, t)" "decode_inv M C long free s0 L s"
  shows "case r of
      Inr L' \<Rightarrow> decode_inv M C long free s0 L' t
    | Inl (v, L') \<Rightarrow> scheduled_seqs L' = [] \<and> v \<in> set (decoding s0)
        \<and> t = s0\<lparr>decoding := decoding t\<rparr> \<and> mset (decoding s0) = add_mset v (mset (decoding t))"
  using assms
proof (induction n arbitrary: L s)
  case 0
  then show ?case by auto
next
  case (Suc n)
  note inv = Suc.prems(2) [unfolded decode_inv_def]
  show ?case
  proof (cases "decoding s \<noteq> [] \<and> num_batched_seqs L < max_decoding_seqs C")
    case False
    then show ?thesis using Suc.prems by (auto split: if_splits)
  next
    case go: True
    obtain p s1 where pop: "pop_next_decoding_seq C long s = (p, s1)" by fastforce
    note sp = pop_next_decoding_spec [where C = C and long = long and s = s, unfolded pop]
    obtain y where y: "p = Inr y" using sp by (cases p) auto
    show ?thesis
    proof (cases y)
      case None
      then have "s1 = s" "r = Inr L" "t = s1" using Suc.prems(1) go pop y sp by auto
      then show ?thesis using Suc.prems(2) by simp
    next
      case (Some x)
      obtain ys zs where d: "decoding s = ys @ x # zs" and s1: "s1 = s\<lparr>decoding := ys @ zs\<rparr>"
        and long: "is_long_text C (sq s x) False = Inr long"
        using sp y Some by auto
      have s0: "s = s0\<lparr>decoding := decoding s\<rparr>" using inv by blast
      have same: "sq s1 = sq s0" "mem s1 = mem s0" "sq s = sq s0" "mem s = mem s0"
        by (subst s1, subst s0, simp)+ (subst s0, simp)+
      have s1': "s1 = s0\<lparr>decoding := ys @ zs\<rparr>" using s1 by (subst (asm) s0) simp
      let ?free = "min (decode_logical_free_count L) (decode_step_free_slots_for M (mem s0) (sq s0 x))"
      let ?cost = "decode_step_reservation_cost M (mem s0) (sq s0 x)"
      let ?bl = "L\<lparr>blocked_decode_victim :=
                   (case blocked_decode_victim L of None \<Rightarrow> Some x | Some b \<Rightarrow> Some b)\<rparr>"
      let ?rq = "s1\<lparr>decoding := decoding s1 @ [x]\<rparr>"
      have "decode_loop M C long (Suc n) L s = (if ?free < ?cost then
                if 0 < decode_logical_free_count L then decode_loop M C long n ?bl ?rq
                else if scheduled_seqs L \<noteq> [] then (Inr (Inr ?bl), ?rq)
                else (Inr (Inl (x, L)), s1)
              else decode_loop M C long n
                     (L\<lparr>decode_logical_free_count := decode_logical_free_count L - ?cost,
                        num_batched_seqs := num_batched_seqs L + 1,
                        scheduled_seqs := scheduled_seqs L @ [x]\<rparr>) s1)"
        using go pop y Some same by (simp add: Let_def)
      note run = trans [OF this [symmetric] Suc.prems(1)]
      have vb: "v \<in> set (decoding s0)" if "blocked_decode_victim L = Some v" for v
      proof -
        have "v \<in> set (decoding s) \<union> set (scheduled_seqs L)" using inv that by blast
        then show ?thesis using inv by (metis mset_append set_append set_mset_mset)
      qed
      have blocked: "decode_inv M C long free s0 ?bl ?rq"
        using inv d s1' long unfolding decode_inv_def
        by (auto split: option.splits)
      show ?thesis
      proof (cases "?free < ?cost")
        case True
        show ?thesis
        proof (cases "0 < decode_logical_free_count L")
          case pos: True
          then show ?thesis using run True Suc.IH [OF _ blocked] by simp
        next
          case zero: False
          show ?thesis
          proof (cases "scheduled_seqs L = []")
            case empty: True
            then have "r = Inl (x, L)" "t = s1" using run True zero by auto
            moreover have m: "mset (decoding s0) = add_mset x (mset (ys @ zs))"
              using inv d empty by simp
            then have "x \<in> set (decoding s0)" by (metis set_mset_mset union_single_eq_member)
            ultimately show ?thesis using empty m s1' by simp
          next
            case False
            then show ?thesis using run True zero blocked by auto
          qed
        qed
      next
        case fits: False
        have "decode_inv M C long free s0 (L\<lparr>decode_logical_free_count := decode_logical_free_count L - ?cost,
                        num_batched_seqs := num_batched_seqs L + 1,
                        scheduled_seqs := scheduled_seqs L @ [x]\<rparr>) s1"
          using inv d s1' long same fits go unfolding decode_inv_def decode_costs_def
          by auto
        then show ?thesis using run fits Suc.IH by simp
      qed
    qed
  qed
qed

section \<open>Preemption\<close>

text \<open>
  The victim goes to the tail of the queue with its hit cleared; with accepted tokens it starts
  a replay. The survivors take their current progress as the checkpoint.
\<close>

definition preempted_seq :: "seq \<Rightarrow> seq" where
  "preempted_seq q =
     (if 0 < num_completion_tokens q
      then snd (start_recompute_replay (q\<lparr>status := WAITING\<rparr>))
      else q\<lparr>status := WAITING, num_prefilled_tokens := 0\<rparr>)"

lemma completion_status: "num_completion_tokens (q\<lparr>status := w\<rparr>) = num_completion_tokens q"
  by (simp add: num_completion_tokens_def)

lemma checkpoint_fields [simp]:
  "sq (checkpoint_survivors s) y
     = (if y \<in> set (decoding s) then (sq s y)\<lparr>decode_progress_checkpoint := num_completion_tokens (sq s y)\<rparr>
        else sq s y)"
  "waiting (checkpoint_survivors s) = waiting s" "decoding (checkpoint_survivors s) = decoding s"
  "total_preemptions (checkpoint_survivors s) = total_preemptions s"
proof -
  have "sq (fold (\<lambda>x. set_seq x (\<lambda>q. q\<lparr>decode_progress_checkpoint := num_completion_tokens q\<rparr>)) xs s) y
      = (if y \<in> set xs then (sq s y)\<lparr>decode_progress_checkpoint := num_completion_tokens (sq s y)\<rparr> else sq s y)
    \<and> waiting (fold (\<lambda>x. set_seq x (\<lambda>q. q\<lparr>decode_progress_checkpoint := num_completion_tokens q\<rparr>)) xs s) = waiting s
    \<and> decoding (fold (\<lambda>x. set_seq x (\<lambda>q. q\<lparr>decode_progress_checkpoint := num_completion_tokens q\<rparr>)) xs s) = decoding s
    \<and> total_preemptions (fold (\<lambda>x. set_seq x (\<lambda>q. q\<lparr>decode_progress_checkpoint := num_completion_tokens q\<rparr>)) xs s)
       = total_preemptions s" for xs
    by (induction xs arbitrary: s) (auto simp: set_seq_def num_completion_tokens_def)
  then show "sq (checkpoint_survivors s) y
     = (if y \<in> set (decoding s) then (sq s y)\<lparr>decode_progress_checkpoint := num_completion_tokens (sq s y)\<rparr>
        else sq s y)"
    "waiting (checkpoint_survivors s) = waiting s" "decoding (checkpoint_survivors s) = decoding s"
    "total_preemptions (checkpoint_survivors s) = total_preemptions s"
    by (simp_all add: checkpoint_survivors_def)
qed

lemma displace_run:
  "\<exists>s1. displace_victim v s = (Inr (), s1) \<and> sq s1 = (sq s)(v := preempted_seq (sq s v))
     \<and> waiting s1 = waiting s \<and> decoding s1 = decoding s \<and> total_preemptions s1 = total_preemptions s"
proof (cases "0 < num_completion_tokens (sq s v)")
  case True
  have "start_recompute_replay ((sq s v)\<lparr>status := WAITING\<rparr>) = (Inr (), preempted_seq (sq s v))"
    using True by (simp add: preempted_seq_def start_recompute_replay_def completion_status)
  then show ?thesis
    using True
    by (simp add: displace_victim_def Let_def set_seq_def with_seq_def completion_status bindE_def)
next
  case False
  then show ?thesis
    by (simp add: displace_victim_def Let_def set_seq_def preempted_seq_def completion_status)
qed

lemma requeue_fields:
  "waiting (requeue_victim M v scheduled s) = waiting s @ [v]"
  "decoding (requeue_victim M v scheduled s) = scheduled @ decoding s"
  "total_preemptions (requeue_victim M v scheduled s) = total_preemptions s + 1"
  "sq (requeue_victim M v scheduled s)
     = (sq s)(v := fst (oracle_clear_prefix_cache_hit M (sq s v) (mem s)))"
  by (simp_all add: requeue_victim_def split: prod.split)

lemma preempt_run:
  assumes "preempt_decode_victim M v scheduled s = (Inr r, t)" "v \<notin> set (decoding s)"
  shows "r = ([], False, [v])" "waiting t = waiting s @ [v]" "decoding t = scheduled @ decoding s"
    "total_preemptions t = total_preemptions s + 1"
    "\<exists>m. sq t v = fst (oracle_clear_prefix_cache_hit M (preempted_seq (sq s v)) m)"
    "\<And>y. y \<noteq> v \<Longrightarrow> sq t y = (if y \<in> set (decoding s)
       then (sq s y)\<lparr>decode_progress_checkpoint := num_completion_tokens (sq s y)\<rparr> else sq s y)"
    "0 < num_completion_tokens (sq s v) \<Longrightarrow> decoding s \<noteq> []
       \<or> (\<exists>x\<in>set (waiting s). is_replay s x)
         \<and> decode_progress_checkpoint (sq s v) < num_completion_tokens (sq s v)"
proof -
  let ?g = "0 < num_completion_tokens (sq s v) \<and> decoding s = []
      \<and> \<not> ((\<exists>x\<in>set (waiting s). is_replay s x)
           \<and> decode_progress_checkpoint (sq s v) < num_completion_tokens (sq s v))"
  have g: "\<not> ?g" using assms(1) unfolding preempt_decode_victim_def Let_def
    by (cases ?g) simp_all
  then show "0 < num_completion_tokens (sq s v) \<Longrightarrow> decoding s \<noteq> []
       \<or> (\<exists>x\<in>set (waiting s). is_replay s x)
         \<and> decode_progress_checkpoint (sq s v) < num_completion_tokens (sq s v)" by blast
  obtain s1 where s1: "displace_victim v s = (Inr (), s1)" "sq s1 = (sq s)(v := preempted_seq (sq s v))"
    "waiting s1 = waiting s" "decoding s1 = decoding s" "total_preemptions s1 = total_preemptions s"
    using displace_run by blast
  have "preempt_decode_victim M v scheduled s
      = (Inr ([], False, [v]), requeue_victim M v scheduled (checkpoint_survivors s1))"
    unfolding preempt_decode_victim_def Let_def if_not_P [OF g] s1(1) by simp
  then have r: "r = ([], False, [v])" and t: "t = requeue_victim M v scheduled (checkpoint_survivors s1)"
    using assms(1) by simp_all
  show "r = ([], False, [v])" by (rule r)
  show "waiting t = waiting s @ [v]" "decoding t = scheduled @ decoding s"
    "total_preemptions t = total_preemptions s + 1"
    by (simp_all add: t requeue_fields s1)
  show "\<exists>m. sq t v = fst (oracle_clear_prefix_cache_hit M (preempted_seq (sq s v)) m)"
    using assms(2) by (intro exI [of _ "mem (checkpoint_survivors s1)"]) (simp add: t requeue_fields s1)
  show "sq t y = (if y \<in> set (decoding s)
       then (sq s y)\<lparr>decode_progress_checkpoint := num_completion_tokens (sq s y)\<rparr> else sq s y)"
    if "y \<noteq> v" for y
    using that by (simp add: t requeue_fields s1)
qed

end
