(* ===== verification/Scheduler_Correct.thy ===== *)
theory Scheduler_Correct
  imports Scheduler_Decode
begin

text \<open>
  A whole scheduling step: no sequence is lost or duplicated, prefill and decode do not mix,
  short sequences decode before long ones, and a step that returns nothing found no decode work.
\<close>

section \<open>The bucket order\<close>

text \<open>Only the memory and the sequences the prefix lookup refreshed changed.\<close>

definition refreshed :: "('m, 'k) memory_oracle \<Rightarrow> seq \<Rightarrow> seq \<Rightarrow> bool" where
  "refreshed M q q' \<longleftrightarrow> q' = q
     \<or> num_prefilled_tokens q = 0 \<and> num_completion_tokens q = 0
       \<and> (\<exists>m m'. refresh_prefix_cache_hit M (q, m) = (Inr (), q', m'))"

definition after_refresh :: "('m, 'k) memory_oracle \<Rightarrow> 'm sched \<Rightarrow> 'm sched \<Rightarrow> bool" where
  "after_refresh M s t \<longleftrightarrow>
     waiting t = waiting s \<and> decoding t = decoding s \<and> total_preemptions t = total_preemptions s
     \<and> (\<forall>x. if x \<in> set (waiting s) then refreshed M (sq s x) (sq t x) else sq t x = sq s x)"

lemma mode_order_loop_frame:
  assumes "mode_order_loop M rp modes xs s = (Inr r, t)" "distinct xs"
  shows "waiting t = waiting s \<and> decoding t = decoding s \<and> total_preemptions t = total_preemptions s
     \<and> (\<forall>x. if x \<in> set xs then refreshed M (sq s x) (sq t x) else sq t x = sq s x)"
  using assms
proof (induction xs arbitrary: modes s)
  case Nil
  then show ?case by simp
next
  case (Cons x xs)
  show ?case
  proof (cases "rp \<and> \<not> is_replay s x")
    case True
    then have "mode_order_loop M rp modes xs s = (Inr r, t)" using Cons.prems(1) by (simp add: bindE_def)
    from Cons.IH [OF this] Cons.prems(2) show ?thesis by (auto simp: refreshed_def split: if_splits)
  next
    case False
    then obtain a s1 k s2 where 1: "refresh_prefill_metadata M x s = (Inr a, s1)"
      and 2: "prefill_batch_key M x s1 = (Inr k, s2)"
      and 3: "mode_order_loop M rp (set_add k modes) xs s2 = (Inr r, t)"
      using Cons.prems(1) by (auto simp: bindE_def split: prod.splits sum.splits)
    note f2 = mem_only_fields [OF batch_key_mem_only [OF 2]]
    have f1: "waiting s1 = waiting s" "decoding s1 = decoding s" "total_preemptions s1 = total_preemptions s"
      "refreshed M (sq s x) (sq s1 x)" "\<And>y. y \<noteq> x \<Longrightarrow> sq s1 y = sq s y"
      using 1 by (auto simp: refresh_prefill_metadata_def with_seq_def refreshed_def
          split: if_splits prod.splits)
    have IH: "waiting t = waiting s2 \<and> decoding t = decoding s2 \<and> total_preemptions t = total_preemptions s2
     \<and> (\<forall>x. if x \<in> set xs then refreshed M (sq s2 x) (sq t x) else sq t x = sq s2 x)"
      using Cons.IH [OF 3] Cons.prems(2) by simp
    have "if y \<in> set (x # xs) then refreshed M (sq s y) (sq t y) else sq t y = sq s y" for y
    proof (cases "y = x")
      case True
      then have "sq t y = sq s1 x" using IH f2 Cons.prems(2) by (auto split: if_splits)
      then show ?thesis using True f1(4) by simp
    next
      case no: False
      then have "sq s2 y = sq s y" using f2(1) f1(5) by simp
      moreover have "if y \<in> set xs then refreshed M (sq s2 y) (sq t y) else sq t y = sq s2 y"
        using IH by blast
      ultimately show ?thesis using no by (auto split: if_splits)
    qed
    then show ?thesis using IH f1 f2 by simp
  qed
qed

lemma mode_order_refresh:
  "prefill_mode_order M s = (Inr ks, t) \<Longrightarrow> distinct (waiting s) \<Longrightarrow> after_refresh M s t"
  unfolding prefill_mode_order_def after_refresh_def by (rule mode_order_loop_frame)

lemma refresh_path: "refresh_prefill_metadata M x s = (r, t) \<Longrightarrow> mem_path M (mem s) (mem t)"
  by (auto simp: refresh_prefill_metadata_def with_seq_def intro: mem_path.start mem_path.hit [OF mem_path.start]
      split: if_splits prod.splits)

lemma mode_order_loop_path:
  "mode_order_loop M rp modes xs s = (Inr r, t) \<Longrightarrow> mem_path M (mem s) (mem t)"
proof (induction xs arbitrary: modes s)
  case Nil
  then show ?case by (simp add: mem_path.start)
next
  case (Cons x xs)
  show ?case
  proof (cases "rp \<and> \<not> is_replay s x")
    case True
    then show ?thesis using Cons by (simp add: bindE_def)
  next
    case False
    then obtain a s1 k s2 where 1: "refresh_prefill_metadata M x s = (Inr a, s1)"
      and 2: "prefill_batch_key M x s1 = (Inr k, s2)"
      and 3: "mode_order_loop M rp (set_add k modes) xs s2 = (Inr r, t)"
      using Cons.prems by (auto simp: bindE_def split: prod.splits sum.splits)
    show ?thesis
      using mem_path_trans [OF Cons.IH [OF 3]] mem_path_trans [OF askedD(2) [OF batch_key_asked [OF 2]]]
        refresh_path [OF 1] by blast
  qed
qed

section \<open>The decode phase\<close>

lemma decode_loop_keeps_work:
  assumes "decode_loop M C long n L s = (Inr (Inr L'), t)"
    "scheduled_seqs L \<noteq> [] \<or> blocked_decode_victim L \<noteq> None"
  shows "scheduled_seqs L' \<noteq> [] \<or> blocked_decode_victim L' \<noteq> None"
  using assms
  by (induction n arbitrary: L s)
    (auto simp: Let_def split: if_splits prod.splits sum.splits option.splits)

lemma decode_loop_finds_work:
  assumes run: "decode_loop M C long (length (decoding s)) L s = (Inr (Inr L'), t)"
    and x: "x \<in> set (decoding s)" "is_long_text C (sq s x) False = Inr long"
    and n: "num_batched_seqs L < max_decoding_seqs C"
  shows "scheduled_seqs L' \<noteq> [] \<or> blocked_decode_victim L' \<noteq> None"
proof -
  obtain n where len: "length (decoding s) = Suc n" using x(1) by (cases "decoding s") auto
  have ne: "decoding s \<noteq> []" using x by auto
  obtain p s1 where pop: "pop_next_decoding_seq C long s = (p, s1)" by fastforce
  note sp = pop_next_decoding_spec [where C = C and long = long and s = s, unfolded pop]
  obtain y where p: "p = Inr (Some y)"
    using sp x by (cases p; cases "projr p") auto
  show ?thesis
  proof (rule ccontr)
    assume no: "\<not> ?thesis"
    have idle: False if "decode_loop M C long n L2 s2 = (Inr (Inr L'), t)"
      "scheduled_seqs L2 \<noteq> [] \<or> blocked_decode_victim L2 \<noteq> None" for L2 s2
      using decode_loop_keeps_work [OF that] no by simp
    show False
      using run ne n no unfolding len
      by (auto simp: pop p Let_def split: if_splits option.splits dest: idle)
  qed
qed

definition decode_result ::
    "('m, 'k) memory_oracle \<Rightarrow> sched_config \<Rightarrow> int \<Rightarrow> 'm sched \<Rightarrow> nat list \<Rightarrow> 'm sched \<Rightarrow> bool" where
  "decode_result M C free s batch t \<longleftrightarrow>
     t = s\<lparr>decoding := decoding t\<rparr> \<and> mset (decoding t) = mset (decoding s)
     \<and> set batch \<subseteq> set (decoding s) \<and> distinct batch
     \<and> (batch \<noteq> [] \<longrightarrow> int (length batch) \<le> max_decoding_seqs C)
     \<and> decode_costs M s batch \<le> free
     \<and> (\<forall>x\<in>set batch. decode_step_reservation_cost M (mem s) (sq s x)
          \<le> decode_step_free_slots_for M (mem s) (sq s x))
     \<and> (\<forall>x\<in>set batch. is_long_text C (sq s x) False = Inr True \<longrightarrow>
          (\<forall>y\<in>set (decoding s). is_long_text C (sq s y) False = Inr True))
     \<and> (batch = [] \<longrightarrow> decoding s = [] \<or> max_decoding_seqs C \<le> 0)"

lemma is_long_text_bool: "\<exists>b. is_long_text C q False = Inr b"
  by (cases "config_sparse_method C = ''''") (auto simp: is_long_text_def)

lemma all_long: "is_long_text C q False \<noteq> Inr False \<Longrightarrow> is_long_text C q False = Inr True"
  using is_long_text_bool [of C q] by (metis (full_types))

lemma remove1_msets: "v \<in> set xs \<Longrightarrow> mset xs = add_mset v (mset (remove1 v xs))"
  by simp

lemma decode_phase_cases:
  assumes run: "decode_phase M C L s = (Inr (batch, isp, pre), t)" and d: "distinct (decoding s)"
    and L: "scheduled_seqs L = []" "blocked_decode_victim L = None" "num_batched_seqs L = 0"
      "decode_logical_free_count L = free" "0 \<le> free"
  shows "\<not> isp \<and> (pre = [] \<and> decode_result M C free s batch t
     \<or> (\<exists>v s2. pre = [v] \<and> batch = [] \<and> mset (decoding s) = add_mset v (mset (decoding s2))
          \<and> s2 = s\<lparr>decoding := decoding s2\<rparr>
          \<and> preempt_decode_victim M v [] s2 = (Inr ([], False, [v]), t)))"
proof -
  define long where "long \<longleftrightarrow> decoding s \<noteq> [] \<and> \<not> (\<exists>x\<in>set (decoding s). is_long_text C (sq s x) False = Inr False)"
  have inv: "decode_inv M C long free s L s"
    using L by (simp add: decode_inv_def decode_costs_def)
  obtain r s1 where lp: "decode_loop M C long (length (decoding s)) L s = (r, s1)" by fastforce
  have run': "(case (r, s1) of
           (Inl e, s1) \<Rightarrow> (Inl e, s1)
         | (Inr (Inl (v, L1)), s1) \<Rightarrow> preempt_decode_victim M v (scheduled_seqs L1) s1
         | (Inr (Inr L1), s1) \<Rightarrow> decode_finish M L1 s1) = (Inr (batch, isp, pre), t)"
    using run unfolding decode_phase_def Let_def long_def [symmetric] lp .
  then obtain o1 where r: "r = Inr o1" by (cases r) auto
  note out = decode_loop_inv [OF lp [unfolded r] inv]
  have preempted: "\<not> isp \<and> pre = [v] \<and> batch = [] \<and> preempt_decode_victim M v [] s2 = (Inr ([], False, [v]), t)"
    if "preempt_decode_victim M v [] s2 = (Inr (batch, isp, pre), t)" "v \<notin> set (decoding s2)" for v s2
    using that preempt_run(1) [OF that] by simp
  show ?thesis
  proof (cases o1)
    case (Inl vl)
    obtain v L1 where vl: "vl = (v, L1)" by (cases vl)
    have o: "scheduled_seqs L1 = []" "s1 = s\<lparr>decoding := decoding s1\<rparr>"
      "mset (decoding s) = add_mset v (mset (decoding s1))"
      using out Inl vl by auto
    have "v \<notin> set (decoding s1)" using d o(3)
      by (metis distinct.simps(2) mset.simps(2) mset_eq_imp_distinct_iff)
    moreover have "preempt_decode_victim M v [] s1 = (Inr (batch, isp, pre), t)"
      using run' r Inl vl o by simp
    ultimately have "\<not> isp \<and> pre = [v] \<and> batch = [] \<and> preempt_decode_victim M v [] s1 = (Inr ([], False, [v]), t)"
      by (rule preempted [rotated])
    then show ?thesis using o by blast
  next
    case (Inr L1)
    have inv1: "decode_inv M C long free s L1 s1" using out Inr by simp
    note i = inv1 [unfolded decode_inv_def]
    have fin: "decode_finish M L1 s1 = (Inr (batch, isp, pre), t)" using run' r Inr by simp
    have work: "scheduled_seqs L1 \<noteq> [] \<or> blocked_decode_victim L1 \<noteq> None"
      if ne: "decoding s \<noteq> []" "0 < max_decoding_seqs C"
    proof -
      obtain x where "x \<in> set (decoding s)" "is_long_text C (sq s x) False = Inr long"
      proof (cases "\<exists>x\<in>set (decoding s). is_long_text C (sq s x) False = Inr False")
        case True
        then show thesis using that by (auto simp: long_def)
      next
        case False
        obtain x where "x \<in> set (decoding s)" using ne by (cases "decoding s") auto
        moreover from this have "is_long_text C (sq s x) False = Inr True"
          using False all_long by blast
        moreover have long using False ne by (simp add: long_def)
        ultimately show thesis using that by simp
      qed
      then show ?thesis using decode_loop_finds_work [OF lp [unfolded r Inr]] L(3) ne(2) by simp
    qed
    show ?thesis
    proof (cases "scheduled_seqs L1 = []")
      case empty: True
      have same: "mset (decoding s1) = mset (decoding s)" using i empty by simp
      show ?thesis
      proof (cases "blocked_decode_victim L1")
        case (Some v)
        have v: "v \<in> set (decoding s1)" using i empty Some by auto
        let ?s2 = "s1\<lparr>decoding := remove1 v (decoding s1)\<rparr>"
        have d1: "distinct (decoding s1)" using d same by (metis mset_eq_imp_distinct_iff)
        have "preempt_decode_victim M v [] ?s2 = (Inr (batch, isp, pre), t)"
          using fin empty Some by (simp add: decode_finish_def)
        moreover have "v \<notin> set (decoding ?s2)" using d1 by simp
        ultimately have p: "\<not> isp \<and> pre = [v] \<and> batch = []
            \<and> preempt_decode_victim M v [] ?s2 = (Inr ([], False, [v]), t)"
          by (rule preempted)
        have "mset (decoding s) = add_mset v (mset (decoding ?s2))"
          using remove1_msets [OF v] same by simp
        moreover have "?s2 = s\<lparr>decoding := decoding ?s2\<rparr>" using i by (metis sched.surjective sched.update_convs(4))
        ultimately show ?thesis using p by blast
      next
        case None
        have f: "batch = []" "\<not> isp" "pre = []" "t = s1"
          using fin empty None by (auto simp: decode_finish_def split: if_splits)
        have "decoding s = [] \<or> max_decoding_seqs C \<le> 0" using work empty None by force
        then have "decode_result M C free s batch t"
          using f i same L(5) by (simp add: decode_result_def decode_costs_def)
        then show ?thesis using f by blast
      qed
    next
      case some: False
      let ?B = "scheduled_seqs L1"
      define ds where "ds = (case blocked_decode_victim L1 of None \<Rightarrow> ?B @ decoding s1
          | Some v \<Rightarrow> v # remove1 v (?B @ decoding s1))"
      have f: "batch = ?B" "\<not> isp" "pre = []" "t = s1\<lparr>decoding := ds\<rparr>"
        using fin some
        by (auto simp: decode_finish_def ds_def Let_def split: option.splits)
      have m: "mset (?B @ decoding s1) = mset (decoding s)" using i by (simp add: ac_simps)
      have dsm: "mset ds = mset (decoding s)"
      proof (cases "blocked_decode_victim L1")
        case None
        then show ?thesis using m by (simp add: ds_def)
      next
        case (Some v)
        then have "v \<in> set (?B @ decoding s1)" using i by auto
        from remove1_msets [OF this] have "mset ds = mset (?B @ decoding s1)"
          by (simp only: ds_def Some option.case mset.simps)
        then show ?thesis using m by simp
      qed
      have db: "distinct ?B" "set ?B \<subseteq> set (decoding s)"
        using m d by (metis distinct_append mset_eq_imp_distinct_iff,
            metis Un_upper1 mset_eq_setD set_append)
      have "t = s\<lparr>decoding := decoding t\<rparr>" using f(4) i
        by (metis sched.surjective sched.update_convs(4) sched.select_convs(4))
      moreover have "(\<forall>x\<in>set ?B. is_long_text C (sq s x) False = Inr True \<longrightarrow>
          (\<forall>y\<in>set (decoding s). is_long_text C (sq s y) False = Inr True))"
      proof (intro ballI impI)
        fix x y assume x: "x \<in> set ?B" "is_long_text C (sq s x) False = Inr True" and y: "y \<in> set (decoding s)"
        have long using i x by auto
        then show "is_long_text C (sq s y) False = Inr True"
          using y all_long unfolding long_def by blast
      qed
      ultimately have "decode_result M C free s batch t"
        using f i dsm db some unfolding decode_result_def by auto
      then show ?thesis using f by blast
    qed
  qed
qed

section \<open>The whole step\<close>

lemma schedule_cases:
  assumes run: "schedule M C s = (Inr (batch, isp, pre), t)" and d: "distinct (waiting s)"
  obtains (prefill) s0 md L where "after_refresh M s s0" "batch_inv M C (max 0 (decode_step_free_slots M (mem s))) md s0 L t"
      "batch = scheduled_seqs L" "batch \<noteq> []" "isp" "pre = []"
      "decoding s = [] \<or> (\<forall>x\<in>set (waiting s). \<not> is_replay s x)" "mem_path M (mem s) (mem s0)"
  | (decode) s0 md L s1 where "after_refresh M s s0"
      "batch_inv M C (max 0 (decode_step_free_slots M (mem s))) md s0 L s1" "scheduled_seqs L = []"
      "decode_phase M C L s1 = (Inr (batch, isp, pre), t)"
proof -
  let ?margin = "if waiting s = [] then 0 else prefill_batched_tokens_margin M (mem s)"
  let ?free = "max 0 (decode_step_free_slots M (mem s))"
  let ?modes = "if waiting s \<noteq> [] \<and> \<not> ((\<exists>x\<in>set (waiting s). is_replay s x) \<and> decoding s \<noteq> [])
                then prefill_mode_order M else retE []"
  obtain ks s0 L s1 where m: "?modes s = (Inr ks, s0)"
    and b: "prefill_buckets M C ?margin ks (initial_locals M C s) s0 = (Inr L, s1)"
    and r: "(if scheduled_seqs L \<noteq> [] then retE (scheduled_seqs L, True, []) else decode_phase M C L) s1
        = (Inr (batch, isp, pre), t)"
    using run unfolding schedule_def Let_def bindE_eq_Inr by blast
  have rf: "after_refresh M s s0"
  proof (cases "waiting s \<noteq> [] \<and> \<not> ((\<exists>x\<in>set (waiting s). is_replay s x) \<and> decoding s \<noteq> [])")
    case True
    then show ?thesis using m mode_order_refresh [OF _ d] by simp
  next
    case False
    then have "s0 = s" using m by (auto split: if_splits)
    then show ?thesis by (auto simp: after_refresh_def refreshed_def)
  qed
  have path: "mem_path M (mem s) (mem s0)"
    using m mode_order_loop_path
    by (auto simp: prefill_mode_order_def intro: mem_path.start split: if_splits)
  have L0: "scheduled_seqs (initial_locals M C s) = []"
    by (simp add: initial_locals_def Let_def)
  have "batch_inv M C ?free md s0 (initial_locals M C s) s0" for md
    by (simp add: batch_inv_def batch_queues_def batch_counts_def batch_replay_def batch_tokens_def
        initial_locals_def Let_def mem_path.start)
  moreover have "distinct (waiting s0)" using rf d by (simp add: after_refresh_def)
  ultimately obtain md where i: "batch_inv M C ?free md s0 L s1"
    using prefill_buckets_inv [OF b, of s0 ?free] L0 by blast
  show thesis
  proof (cases "scheduled_seqs L = []")
    case True
    then show thesis using decode [OF rf i True] r by simp
  next
    case False
    then have f: "batch = scheduled_seqs L" "isp" "pre = []" "t = s1" using r by auto
    have "decoding s = [] \<or> (\<forall>x\<in>set (waiting s). \<not> is_replay s x)"
    proof (rule ccontr)
      assume "\<not> ?thesis"
      then have "ks = []" using m by (auto split: if_splits)
      then show False using b L0 False by simp
    qed
    then show thesis using prefill [OF rf] i f False path by simp
  qed
qed

theorem schedule_queues:
  assumes run: "schedule M C s = (Inr (batch, isp, pre), t)" and d: "distinct (waiting s)" "distinct (decoding s)"
  shows "(if isp then batch \<noteq> [] \<and> pre = [] \<and> decoding t = decoding s
          \<and> mset (waiting t) + mset batch = mset (waiting s)
        else mset (waiting t) = mset (waiting s) + mset pre
          \<and> mset (decoding t) + mset pre = mset (decoding s)
          \<and> distinct batch \<and> set batch \<subseteq> set (decoding t) \<and> (pre \<noteq> [] \<longrightarrow> batch = []))
     \<and> total_preemptions t = total_preemptions s + int (length pre) \<and> length pre \<le> 1
     \<and> (batch = [] \<and> pre = [] \<longrightarrow> decoding s = [] \<or> max_decoding_seqs C \<le> 0)"
  using run d(1)
proof (cases rule: schedule_cases)
  case (prefill s0 md L)
  then have "batch_queues s0 batch t" "waiting s0 = waiting s" "decoding s0 = decoding s"
    "total_preemptions s0 = total_preemptions s"
    by (simp_all add: batch_inv_def after_refresh_def)
  then show ?thesis
    using prefill(4-6) by (simp_all add: batch_queues_def)
next
  case (decode s0 md L s1)
  have q: "mset (waiting s1) = mset (waiting s)" "decoding s1 = decoding s"
    "total_preemptions s1 = total_preemptions s"
    using decode(1-3) by (simp_all add: batch_inv_def after_refresh_def batch_queues_def)
  have L: "blocked_decode_victim L = None" "num_batched_seqs L = 0"
    "decode_logical_free_count L = max 0 (decode_step_free_slots M (mem s))"
    using decode(2,3) by (simp_all add: batch_inv_def batch_counts_def)
  have d1: "distinct (decoding s1)" using d(2) q by simp
  from decode_phase_cases [OF decode(4) d1 decode(3) L] have ni: "\<not> isp"
    and c: "pre = [] \<and> decode_result M C (max 0 (decode_step_free_slots M (mem s))) s1 batch t
     \<or> (\<exists>v s2. pre = [v] \<and> batch = [] \<and> mset (decoding s1) = add_mset v (mset (decoding s2))
          \<and> s2 = s1\<lparr>decoding := decoding s2\<rparr>
          \<and> preempt_decode_victim M v [] s2 = (Inr ([], False, [v]), t))" by auto
  have "mset (waiting t) = mset (waiting s) + mset pre \<and> mset (decoding t) + mset pre = mset (decoding s)
      \<and> distinct batch \<and> set batch \<subseteq> set (decoding t) \<and> (pre \<noteq> [] \<longrightarrow> batch = [])
      \<and> total_preemptions t = total_preemptions s + int (length pre) \<and> length pre \<le> 1
      \<and> (batch = [] \<and> pre = [] \<longrightarrow> decoding s = [] \<or> max_decoding_seqs C \<le> 0)"
    using c
  proof
    assume r: "pre = [] \<and> decode_result M C (max 0 (decode_step_free_slots M (mem s))) s1 batch t"
    then have "t = s1\<lparr>decoding := decoding t\<rparr>" by (simp add: decode_result_def)
    then have "waiting t = waiting s1" "total_preemptions t = total_preemptions s1"
      by (metis sched.ext_inject sched.surjective sched.update_convs(4))+
    moreover have "set (decoding t) = set (decoding s1)"
      using r by (metis decode_result_def mset_eq_setD)
    ultimately show ?thesis using r q by (simp add: decode_result_def)
  next
    assume "\<exists>v s2. pre = [v] \<and> batch = [] \<and> mset (decoding s1) = add_mset v (mset (decoding s2))
          \<and> s2 = s1\<lparr>decoding := decoding s2\<rparr>
          \<and> preempt_decode_victim M v [] s2 = (Inr ([], False, [v]), t)"
    then obtain v s2 where p: "pre = [v]" "batch = []"
      "mset (decoding s1) = add_mset v (mset (decoding s2))" "s2 = s1\<lparr>decoding := decoding s2\<rparr>"
      "preempt_decode_victim M v [] s2 = (Inr ([], False, [v]), t)" by blast
    have "v \<notin> set (decoding s2)" using d1 p(3)
      by (metis distinct.simps(2) mset.simps(2) mset_eq_imp_distinct_iff)
    note pr = preempt_run [OF p(5) this]
    have "waiting s2 = waiting s1" "total_preemptions s2 = total_preemptions s1"
      using p(4) by (metis sched.ext_inject sched.surjective sched.update_convs(4))+
    then show ?thesis using pr(2-4) p(1-3) q by simp
  qed
  then show ?thesis using ni by simp
qed

end
