(* ===== verification/Scheduler_Invariant.thy ===== *)
theory Scheduler_Invariant
  imports Scheduler_Correct
begin

text \<open>
  The invariant of the queued, scheduled and decoding sequences, and the contract of the memory
  oracle it rests on, as a locale. The default implementations meet the contract.
\<close>

section \<open>The contract of the memory oracle\<close>

definition hit_valid :: "seq \<Rightarrow> bool" where
  "hit_valid q \<longleftrightarrow> 0 \<le> prefix_cache_hit_len q
     \<and> (prefix_cache_hit_len q = 0 \<or> prefix_cache_hit_len q < num_prompt_tokens q)"

text \<open>Two sequences that differ in the fields of the prefix hit at most.\<close>

definition same_but_hit :: "seq \<Rightarrow> seq \<Rightarrow> bool" where
  "same_but_hit q q' \<longleftrightarrow> clear_prefix_cache_hit q' = clear_prefix_cache_hit q"

lemma same_but_hit_form:
  "same_but_hit q q' \<longleftrightarrow> (\<exists>en hl hb hi bs me. q' = q\<lparr>prefix_cache_enabled := en, prefix_cache_hit_len := hl,
     prefix_cache_hit_block_count := hb, prefix_cache_hit_last_block_id := hi,
     prefix_cache_block_size := bs, prefix_cache_method := me\<rparr>)" (is "?l = ?r")
proof
  assume ?l
  then have "q' = q\<lparr>prefix_cache_enabled := prefix_cache_enabled q', prefix_cache_hit_len := prefix_cache_hit_len q',
     prefix_cache_hit_block_count := prefix_cache_hit_block_count q',
     prefix_cache_hit_last_block_id := prefix_cache_hit_last_block_id q',
     prefix_cache_block_size := prefix_cache_block_size q', prefix_cache_method := prefix_cache_method q'\<rparr>"
    unfolding same_but_hit_def clear_prefix_cache_hit_def by (cases q, cases q') simp
  then show ?r by blast
next
  assume ?r
  then show ?l by (auto simp: same_but_hit_def clear_prefix_cache_hit_def)
qed

locale oracle_laws =
  fixes M :: "('m, 'k) memory_oracle"
  assumes refresh_hit: "refresh_prefix_cache_hit M (q, m) = (r, q', m') \<Longrightarrow> hit_valid q \<Longrightarrow>
      same_but_hit q q' \<and> hit_valid q'"
    and clear_hit: "fst (oracle_clear_prefix_cache_hit M q m) = clear_prefix_cache_hit q"
    and remaining_fresh: "num_prefilled_tokens q = 0 \<Longrightarrow>
      remaining_prefill_tokens M m q \<le> num_prompt_tokens q - prefix_cache_hit_len q"
    and remaining_started: "remaining_prefill_tokens M m q \<le> num_prompt_tokens q - num_prefilled_tokens q"

lemma base_oracle_laws: "oracle_laws base_oracle"
proof
  fix q q' :: seq and m m' :: base_memory and r
  assume "refresh_prefix_cache_hit base_oracle (q, m) = (r, q', m')" "hit_valid q"
  then have q: "q' = clear_prefix_cache_hit q" by (auto simp: base_refresh_prefix_cache_hit_def)
  then show "same_but_hit q q' \<and> hit_valid q'"
    unfolding q by (simp add: same_but_hit_def hit_valid_def clear_prefix_cache_hit_def)
qed (simp_all add: base_remaining_prefill_tokens_def Let_def)

section \<open>The invariants of a sequence\<close>

definition fresh_or_replay :: "seq \<Rightarrow> bool" where
  "fresh_or_replay q \<longleftrightarrow>
     (case recompute_replay_cursor q of None \<Rightarrow> num_completion_tokens q = 0 | Some c \<Rightarrow> c = 0)
     \<and> num_completion_tokens q < max_tokens (sampling q) \<and> hit_valid q"

definition queued_ok :: "seq \<Rightarrow> bool" where
  "queued_ok q \<longleftrightarrow> seq_ok q \<and> status q = WAITING \<and> num_prefilled_tokens q < num_prompt_tokens q
     \<and> fresh_or_replay q"

definition inflight_ok :: "seq \<Rightarrow> bool" where
  "inflight_ok q \<longleftrightarrow> seq_ok q \<and> status q = RUNNING \<and> fresh_or_replay q
     \<and> (\<exists>c. current_chunk_size q = Some c \<and> 0 < c \<and> num_prefilled_tokens q + c \<le> num_prompt_tokens q)"

definition decoding_ok :: "seq \<Rightarrow> bool" where
  "decoding_ok q \<longleftrightarrow> seq_ok q \<and> status q = RUNNING \<and> 0 < num_prompt_tokens q
     \<and> num_prompt_tokens q \<le> num_prefilled_tokens q
     \<and> 0 < num_completion_tokens q \<and> num_completion_tokens q < max_tokens (sampling q)
     \<and> (\<forall>c. recompute_replay_cursor q = Some c \<longrightarrow> c < replay_decode_token_count q)"

text \<open>What \<open>seq_ok\<close> reads: the history, and three fields with conditions of their own.\<close>

definition history :: "seq \<Rightarrow> int list \<times> int \<times> int \<times> int list option \<times> int option
    \<times> unique_tokens option \<times> unique_tokens option \<times> sampling_params" where
  "history q = (seq_tokens q, num_tokens q, num_prompt_tokens q, prompt_copy q, last_token q,
     presence_tokens q, repetition_tokens q, sampling q)"

definition progress_ok :: "seq \<Rightarrow> bool" where
  "progress_ok q \<longleftrightarrow> 0 \<le> num_prefilled_tokens q \<and> (\<forall>c. current_chunk_size q = Some c \<longrightarrow> 0 \<le> c)
     \<and> (\<forall>c. recompute_replay_cursor q = Some c \<longrightarrow> 0 \<le> c \<and> 0 < num_completion_tokens q
          \<and> (c = 0 \<or> c < replay_decode_token_count q))"

lemma history_fields:
  "history q' = history q \<Longrightarrow> num_completion_tokens q' = num_completion_tokens q"
  "history q' = history q \<Longrightarrow> completion_token_ids q' = completion_token_ids q"
  "history q' = history q \<Longrightarrow> replay_decode_token_count q' = replay_decode_token_count q"
  "history q' = history q \<Longrightarrow> num_prompt_tokens q' = num_prompt_tokens q"
  "history q' = history q \<Longrightarrow> sampling q' = sampling q"
  "history q' = history q \<Longrightarrow> seq_tokens q' = seq_tokens q"
  by (simp_all add: history_def num_completion_tokens_def completion_token_ids_def
      replay_decode_token_count_def)

lemma seq_ok_progress: "seq_ok q \<Longrightarrow> progress_ok q"
  by (simp only: seq_ok_def progress_ok_def) blast

lemma seq_ok_history:
  assumes ok: "seq_ok q" and h: "history q' = history q" and p: "progress_ok q'"
  shows "seq_ok q'"
proof -
  have f: "seq_tokens q' = seq_tokens q" "num_tokens q' = num_tokens q"
    "num_prompt_tokens q' = num_prompt_tokens q" "prompt_copy q' = prompt_copy q"
    "last_token q' = last_token q" "presence_tokens q' = presence_tokens q"
    "repetition_tokens q' = repetition_tokens q" "sampling q' = sampling q"
    using h by (simp_all add: history_def)
  show ?thesis
    using ok p unfolding seq_ok_def progress_ok_def f history_fields(2) [OF h] by blast
qed

lemma same_but_hit_fields:
  assumes "same_but_hit q q'"
  shows "status q' = status q" "num_prefilled_tokens q' = num_prefilled_tokens q"
    "num_prompt_tokens q' = num_prompt_tokens q" "num_completion_tokens q' = num_completion_tokens q"
    "recompute_replay_cursor q' = recompute_replay_cursor q" "sampling q' = sampling q"
    "seq_id q' = seq_id q" "seq_tokens q' = seq_tokens q" "num_tokens q' = num_tokens q"
    "current_chunk_size q' = current_chunk_size q"
  using assms by (auto simp: same_but_hit_form num_completion_tokens_def)

lemma same_but_hit_history: "same_but_hit q q' \<Longrightarrow> history q' = history q"
  by (auto simp: same_but_hit_form history_def)

lemma same_but_hit_ok: "same_but_hit q q' \<Longrightarrow> seq_ok q \<Longrightarrow> seq_ok q'"
  using same_but_hit_fields [of q q'] same_but_hit_history [of q q'] history_fields(3) [of q' q]
    seq_ok_progress [of q]
  by (intro seq_ok_history [of q q']) (auto simp: progress_ok_def)

lemma queued_refreshed:
  assumes s: "same_but_hit q q'" and h: "hit_valid q'" and q: "queued_ok q"
  shows "queued_ok q'"
  unfolding queued_ok_def fresh_or_replay_def same_but_hit_fields [OF s]
  using q h same_but_hit_ok [OF s] unfolding queued_ok_def fresh_or_replay_def by blast

lemma placed_fields:
  "num_prefilled_tokens (placed_seq c q) =
     (if num_prefilled_tokens q = 0 \<and> 0 < prefix_cache_hit_len q then prefix_cache_hit_len q
      else num_prefilled_tokens q)"
  "current_chunk_size (placed_seq c q) = Some c" "status (placed_seq c q) = RUNNING"
  "recompute_replay_cursor (placed_seq c q) = recompute_replay_cursor q"
  "prefix_cache_hit_len (placed_seq c q) = prefix_cache_hit_len q" "seq_id (placed_seq c q) = seq_id q"
  by (simp_all add: placed_seq_def)

lemma placed_history: "history (placed_seq c q) = history q"
  by (simp add: placed_seq_def history_def)

lemma placed_inflight:
  assumes q: "queued_ok q" and c: "0 < c"
    "num_prefilled_tokens q = 0 \<Longrightarrow> c \<le> num_prompt_tokens q - prefix_cache_hit_len q"
    "c \<le> num_prompt_tokens q - num_prefilled_tokens q"
  shows "inflight_ok (placed_seq c q)"
proof -
  let ?p = "if num_prefilled_tokens q = 0 \<and> 0 < prefix_cache_hit_len q then prefix_cache_hit_len q
          else num_prefilled_tokens q"
  have pq: "progress_ok q" using q seq_ok_progress by (simp add: queued_ok_def)
  have p: "0 \<le> ?p" "?p + c \<le> num_prompt_tokens q"
    using pq c by (auto simp: progress_ok_def)
  have "progress_ok (placed_seq c q)"
    unfolding progress_ok_def history_fields [OF placed_history] placed_fields
    using pq p(1) c(1) unfolding progress_ok_def by simp
  moreover have "seq_ok q" using q by (simp add: queued_ok_def)
  ultimately have "seq_ok (placed_seq c q)" using seq_ok_history [OF _ placed_history] by blast
  moreover have "fresh_or_replay (placed_seq c q)"
    unfolding fresh_or_replay_def hit_valid_def placed_fields history_fields [OF placed_history]
    using q unfolding queued_ok_def fresh_or_replay_def hit_valid_def by blast
  ultimately show ?thesis using p(2) c(1)
    unfolding inflight_ok_def placed_fields history_fields [OF placed_history] by auto
qed

lemma preempted_form:
  assumes "0 < num_completion_tokens q"
  shows "clear_prefix_cache_hit (preempted_seq q) = clear_prefix_cache_hit (q\<lparr>status := WAITING,
      recompute_replay_cursor := Some 0, decode_progress_checkpoint := num_completion_tokens q,
      num_prefilled_tokens := 0, current_chunk_size := None\<rparr>)"
  using assms by (simp add: preempted_seq_def start_recompute_replay_def clear_prefix_cache_hit_def
      num_completion_tokens_def)

lemma preempted_history: "history (clear_prefix_cache_hit (preempted_seq q)) = history q"
  by (simp add: preempted_seq_def start_recompute_replay_def clear_prefix_cache_hit_def history_def)

lemma preempted_queued:
  assumes q: "decoding_ok q"
  shows "queued_ok (clear_prefix_cache_hit (preempted_seq q))" (is "queued_ok ?p")
proof -
  have pos: "0 < num_completion_tokens q" "seq_ok q" "0 < num_prompt_tokens q"
    "num_completion_tokens q < max_tokens (sampling q)"
    using q by (simp_all add: decoding_ok_def)
  note h = history_fields [OF preempted_history, of q]
  have f: "status ?p = WAITING" "recompute_replay_cursor ?p = Some 0" "num_prefilled_tokens ?p = 0"
    "current_chunk_size ?p = None" "prefix_cache_hit_len ?p = 0"
    unfolding preempted_form [OF pos(1)] by (simp_all add: clear_prefix_cache_hit_def)
  have "progress_ok ?p" using pos(1) h by (simp add: progress_ok_def f)
  then have "seq_ok ?p" by (rule seq_ok_history [OF pos(2) preempted_history])
  then show ?thesis using pos h f by (simp add: queued_ok_def fresh_or_replay_def hit_valid_def)
qed

lemma checkpoint_decoding:
  assumes "decoding_ok q"
  shows "decoding_ok (q\<lparr>decode_progress_checkpoint := k\<rparr>)"
proof -
  let ?q = "q\<lparr>decode_progress_checkpoint := k\<rparr>"
  have h: "history ?q = history q" by (simp add: history_def)
  have "progress_ok ?q"
    using assms seq_ok_progress [of q] history_fields [OF h]
    by (simp add: decoding_ok_def progress_ok_def)
  then have "seq_ok ?q" using assms by (intro seq_ok_history [OF _ h]) (simp_all add: decoding_ok_def)
  then show ?thesis using assms history_fields [OF h] by (simp add: decoding_ok_def)
qed

section \<open>A scheduling step keeps the invariant\<close>

definition queues_ok :: "'m sched \<Rightarrow> bool" where
  "queues_ok s \<longleftrightarrow> (\<forall>x\<in>set (waiting s). queued_ok (sq s x)) \<and> (\<forall>x\<in>set (decoding s). decoding_ok (sq s x))"

definition sched_ok :: "'m sched \<Rightarrow> bool" where
  "sched_ok s \<longleftrightarrow> distinct (map (\<lambda>x. seq_id (sq s x)) (waiting s @ decoding s)) \<and> queues_ok s"

text \<open>The identity and the token history of every sequence stay what they were.\<close>

definition same_histories :: "'m sched \<Rightarrow> 'm sched \<Rightarrow> bool" where
  "same_histories s t \<longleftrightarrow>
     (\<forall>x. seq_id (sq t x) = seq_id (sq s x) \<and> history (sq t x) = history (sq s x))"

lemma same_histories_trans: "same_histories s t \<Longrightarrow> same_histories t u \<Longrightarrow> same_histories s u"
  by (simp add: same_histories_def)

lemma sched_ok_distinct: "sched_ok s \<Longrightarrow> distinct (waiting s) \<and> distinct (decoding s)
    \<and> distinct (waiting s @ decoding s)"
  by (auto simp: sched_ok_def distinct_map)

lemma distinct_submset:
  assumes "mset xs \<subseteq># mset ys" "distinct ys"
  shows "distinct xs"
proof -
  obtain zs where "mset ys = mset (xs @ zs)"
    using assms(1) by (metis ex_mset mset_append subset_mset.add_diff_inverse)
  then show ?thesis using assms(2) by (metis distinct_append mset_eq_imp_distinct_iff)
qed

text \<open>The queues hold the same sequences under the same identities.\<close>

lemma sched_ok_reorder:
  assumes "sched_ok s" "same_histories s t" "queues_ok t"
    and "mset (waiting t) + mset (decoding t) \<subseteq># mset (waiting s) + mset (decoding s)"
  shows "sched_ok t"
proof -
  have id: "(\<lambda>x. seq_id (sq t x)) = (\<lambda>x. seq_id (sq s x))"
    using assms(2) by (simp add: same_histories_def fun_eq_iff)
  have "mset (map (\<lambda>x. seq_id (sq s x)) (waiting t @ decoding t))
      \<subseteq># mset (map (\<lambda>x. seq_id (sq s x)) (waiting s @ decoding s))"
    using image_mset_subseteq_mono [OF assms(4), of "\<lambda>x. seq_id (sq s x)"] by simp
  moreover have "distinct (map (\<lambda>x. seq_id (sq s x)) (waiting s @ decoding s))"
    using assms(1) by (simp add: sched_ok_def)
  ultimately have "distinct (map (\<lambda>x. seq_id (sq s x)) (waiting t @ decoding t))"
    by (rule distinct_submset)
  then show ?thesis using assms(3) by (simp add: sched_ok_def id)
qed

context oracle_laws
begin

lemma refreshed_hit: "refreshed M q q' \<Longrightarrow> hit_valid q \<Longrightarrow> same_but_hit q q' \<and> hit_valid q'"
  using refresh_hit by (auto simp: refreshed_def same_but_hit_def)

lemma after_refresh_queues:
  assumes r: "after_refresh M s s0" and q: "\<forall>x\<in>set (waiting s). queued_ok (sq s x)"
  shows "\<forall>x\<in>set (waiting s0). queued_ok (sq s0 x)" "same_histories s s0"
    "\<And>x. x \<notin> set (waiting s) \<Longrightarrow> sq s0 x = sq s x"
proof -
  have h: "same_but_hit (sq s x) (sq s0 x) \<and> hit_valid (sq s0 x)" if "x \<in> set (waiting s)" for x
  proof (rule refreshed_hit)
    show "refreshed M (sq s x) (sq s0 x)" using r that by (auto simp: after_refresh_def)
    show "hit_valid (sq s x)" using q that by (simp add: queued_ok_def fresh_or_replay_def)
  qed
  show "\<And>x. x \<notin> set (waiting s) \<Longrightarrow> sq s0 x = sq s x"
    using r by (auto simp: after_refresh_def split: if_splits)
  then show "same_histories s s0"
    unfolding same_histories_def using h same_but_hit_history same_but_hit_fields(7) by metis
  have "waiting s0 = waiting s" using r by (simp add: after_refresh_def)
  then show "\<forall>x\<in>set (waiting s0). queued_ok (sq s0 x)"
    using h q queued_refreshed by auto
qed

lemma chunk_inflight:
  assumes "chunk_ok M C k m0 q0 q" "queued_ok q0"
  shows "inflight_ok q \<and> history q = history q0 \<and> seq_id q = seq_id q0"
proof -
  obtain c m where c: "q = placed_seq c q0" "0 < c" "c \<le> remaining_prefill_tokens M m q0"
    using assms(1) by (auto simp: chunk_ok_def)
  have "inflight_ok q"
    unfolding c(1)
  proof (rule placed_inflight [OF assms(2) c(2)])
    show "c \<le> num_prompt_tokens q0 - prefix_cache_hit_len q0" if "num_prefilled_tokens q0 = 0"
      using c(3) remaining_fresh [OF that, of m] by linarith
    show "c \<le> num_prompt_tokens q0 - num_prefilled_tokens q0"
      using c(3) remaining_started [of m q0] by linarith
  qed
  then show ?thesis using c(1) placed_history placed_fields(6) by simp
qed

lemma batch_states:
  assumes i: "batch_inv M C df md s0 L t" and q: "queues_ok s0"
    and d: "set (decoding s0) \<inter> set (waiting s0) = {}" "distinct (waiting s0)"
  shows "queues_ok t \<and> (\<forall>x\<in>set (scheduled_seqs L). inflight_ok (sq t x)) \<and> same_histories s0 t"
proof -
  have m: "mset (waiting t) + mset (scheduled_seqs L) = mset (waiting s0)" "decoding t = decoding s0"
    using i by (simp_all add: batch_inv_def batch_queues_def)
  have un: "set (waiting t) \<union> set (scheduled_seqs L) = set (waiting s0)"
    using m(1) by (metis mset_append set_append set_mset_mset)
  have dj: "set (waiting t) \<inter> set (scheduled_seqs L) = {}"
    using m(1) d(2) by (metis distinct_append mset_append mset_eq_imp_distinct_iff)
  have other: "sq t x = sq s0 x" if "x \<notin> set (scheduled_seqs L)" for x
    using i that by (auto simp: batch_inv_def)
  have placed: "inflight_ok (sq t x) \<and> history (sq t x) = history (sq s0 x) \<and> seq_id (sq t x) = seq_id (sq s0 x)"
    if x: "x \<in> set (scheduled_seqs L)" for x
  proof -
    have "chunk_ok M C md (mem s0) (sq s0 x) (sq t x)" using i x by (auto simp: batch_inv_def)
    moreover have "queued_ok (sq s0 x)" using q un x by (auto simp: queues_ok_def)
    ultimately show ?thesis by (rule chunk_inflight)
  qed
  have "same_histories s0 t" unfolding same_histories_def using other placed by metis
  moreover have "queued_ok (sq t x)" if "x \<in> set (waiting t)" for x
  proof -
    have "x \<notin> set (scheduled_seqs L)" "x \<in> set (waiting s0)" using dj un that by auto
    then show ?thesis using other q by (simp add: queues_ok_def)
  qed
  moreover have "decoding_ok (sq t x)" if "x \<in> set (decoding t)" for x
  proof -
    have "x \<in> set (decoding s0)" using m(2) that by simp
    moreover from this have "x \<notin> set (scheduled_seqs L)" using un d(1) by auto
    ultimately show ?thesis using other q by (simp add: queues_ok_def)
  qed
  ultimately show ?thesis using placed by (simp add: queues_ok_def)
qed

lemma schedule_states:
  assumes run: "schedule M C s = (Inr (batch, isp, pre), t)" and ok: "sched_ok s"
  shows "queues_ok t \<and> same_histories s t \<and> (isp \<longrightarrow> (\<forall>x\<in>set batch. inflight_ok (sq t x)))"
proof -
  have d: "distinct (waiting s)" "distinct (decoding s)" "set (decoding s) \<inter> set (waiting s) = {}"
    using sched_ok_distinct [OF ok] by auto
  have q: "queues_ok s" using ok by (simp add: sched_ok_def)
  have start: "queues_ok s0 \<and> same_histories s s0 \<and> waiting s0 = waiting s \<and> decoding s0 = decoding s"
    if r: "after_refresh M s s0" for s0
  proof -
    have w: "waiting s0 = waiting s" "decoding s0 = decoding s" using r by (simp_all add: after_refresh_def)
    note a = after_refresh_queues [OF r]
    have "decoding_ok (sq s0 x)" if x: "x \<in> set (decoding s)" for x
    proof -
      have "x \<notin> set (waiting s)" using d(3) x by auto
      with a(3) have "sq s0 x = sq s x" using q by (simp add: queues_ok_def)
      then show ?thesis using q x by (simp add: queues_ok_def)
    qed
    then show ?thesis using a(1,2) q w by (simp add: queues_ok_def)
  qed
  from run d(1) show ?thesis
  proof (cases rule: schedule_cases)
    case (prefill s0 md L)
    note st = start [OF prefill(1)]
    have "queues_ok t \<and> (\<forall>x\<in>set (scheduled_seqs L). inflight_ok (sq t x)) \<and> same_histories s0 t"
      using prefill(2) st d by (intro batch_states) auto
    then show ?thesis using st prefill(3) same_histories_trans by blast
  next
    case (decode s0 md L s1)
    note st = start [OF decode(1)]
    have b: "queues_ok s1 \<and> (\<forall>x\<in>set (scheduled_seqs L). inflight_ok (sq s1 x)) \<and> same_histories s0 s1"
      using decode(2) st d by (intro batch_states) auto
    have L: "blocked_decode_victim L = None" "num_batched_seqs L = 0"
      "decode_logical_free_count L = max 0 (decode_step_free_slots M (mem s))"
      "decoding s1 = decoding s" "mset (waiting s1) = mset (waiting s)"
      using decode(2,3) st by (simp_all add: batch_inv_def batch_counts_def batch_queues_def)
    have d1: "distinct (decoding s1)" using d(2) L by simp
    from decode_phase_cases [OF decode(4) d1 decode(3) L(1-3)] have ni: "\<not> isp"
      and c: "pre = [] \<and> decode_result M C (max 0 (decode_step_free_slots M (mem s))) s1 batch t
       \<or> (\<exists>v s2. pre = [v] \<and> batch = [] \<and> mset (decoding s1) = add_mset v (mset (decoding s2))
          \<and> s2 = s1\<lparr>decoding := decoding s2\<rparr>
          \<and> preempt_decode_victim M v [] s2 = (Inr ([], False, [v]), t))" by auto
    have "queues_ok t \<and> same_histories s1 t"
      using c
    proof
      assume r: "pre = [] \<and> decode_result M C (max 0 (decode_step_free_slots M (mem s))) s1 batch t"
      then have "t = s1\<lparr>decoding := decoding t\<rparr>" "set (decoding t) = set (decoding s1)"
        by (simp add: decode_result_def, metis decode_result_def mset_eq_setD)
      moreover from this(1) have "sq t = sq s1" "waiting t = waiting s1"
        by (metis sched.ext_inject sched.surjective sched.update_convs(4))+
      ultimately show ?thesis using b by (simp add: queues_ok_def same_histories_def)
    next
      assume "\<exists>v s2. pre = [v] \<and> batch = [] \<and> mset (decoding s1) = add_mset v (mset (decoding s2))
          \<and> s2 = s1\<lparr>decoding := decoding s2\<rparr>
          \<and> preempt_decode_victim M v [] s2 = (Inr ([], False, [v]), t)"
      then obtain v s2 where p: "mset (decoding s1) = add_mset v (mset (decoding s2))"
        "s2 = s1\<lparr>decoding := decoding s2\<rparr>"
        "preempt_decode_victim M v [] s2 = (Inr ([], False, [v]), t)" by blast
      have v: "v \<notin> set (decoding s2)" using d1 p(1)
        by (metis distinct.simps(2) mset.simps(2) mset_eq_imp_distinct_iff)
      note pr = preempt_run [OF p(3) v]
      have s2: "sq s2 = sq s1" "waiting s2 = waiting s1"
        using p(2) by (metis sched.ext_inject sched.surjective sched.update_convs(4))+
      have set1: "set (decoding s1) = insert v (set (decoding s2))"
        using p(1) by (metis set_mset_add_mset_insert set_mset_mset)
      have vt: "sq t v = clear_prefix_cache_hit (preempted_seq (sq s1 v))"
        using pr(5) clear_hit s2 by metis
      have vd: "v \<in> set (decoding s1)" "v \<notin> set (waiting s1)"
        using set1 d(3) L(4,5) by (auto dest: mset_eq_setD)
      have vok: "queued_ok (sq t v)" "history (sq t v) = history (sq s1 v)" "seq_id (sq t v) = seq_id (sq s1 v)"
        using vt preempted_queued b vd(1) preempted_history
        by (auto simp: queues_ok_def preempted_seq_def start_recompute_replay_def clear_prefix_cache_hit_def)
      have oth: "history (sq t y) = history (sq s1 y) \<and> seq_id (sq t y) = seq_id (sq s1 y)
          \<and> (decoding_ok (sq s1 y) \<longrightarrow> decoding_ok (sq t y))" if "y \<noteq> v" for y
        using pr(6) [OF that] s2 checkpoint_decoding by (auto simp: history_def)
      have "same_histories s1 t" unfolding same_histories_def using vok oth by metis
      moreover have "queued_ok (sq t y)" if "y \<in> set (waiting t)" for y
      proof (cases "y = v")
        case True
        then show ?thesis using vok by simp
      next
        case False
        then have y: "y \<in> set (waiting s1)" using that pr(2) s2 by simp
        then have "y \<notin> set (decoding s2)" using set1 d(3) L(4,5) by (auto dest: mset_eq_setD)
        then have "sq t y = sq s1 y" using pr(6) [OF False] s2 by simp
        then show ?thesis using b y by (simp add: queues_ok_def)
      qed
      moreover have "decoding_ok (sq t y)" if "y \<in> set (decoding t)" for y
      proof -
        have "y \<in> set (decoding s2)" using that pr(3) by simp
        then show ?thesis using oth [of y] v b set1 by (auto simp: queues_ok_def)
      qed
      ultimately show ?thesis by (simp add: queues_ok_def)
    qed
    then show ?thesis using ni st b same_histories_trans by blast
  qed
qed

end

interpretation base: oracle_laws base_oracle
  by (rule base_oracle_laws)

end
