(* ===== verification/Engine_Step.thy ===== *)
theory Engine_Step
  imports Scheduler_Invariant
begin

text \<open>
  One step of the engine: \<open>LLMEngine.step\<close> of \<open>engine/llm_engine.py\<close> for requests without a
  chain (those of the chain mode end through the chain coordinator instead). The workers are a
  parameter: \<open>run_model\<close> is the forward pass, \<open>free_slots_batch\<close> and \<open>finish_slots_batch\<close>
  release the cache of preempted and finished sequences. The throughput log is left out, its
  counting of the waiting prompts is not, because it refreshes their prefix hits.
\<close>

section \<open>The step\<close>

record 'm runner =
  run_model :: "seq list \<Rightarrow> bool \<Rightarrow> 'm \<Rightarrow>
    (int list \<times> pyfloat option list option \<times> (int \<times> pyfloat) list option list option) res \<times> 'm"
  free_slots_batch :: "int list \<Rightarrow> 'm \<Rightarrow> 'm"
  finish_slots_batch :: "int list \<Rightarrow> 'm \<Rightarrow> 'm"

definition release_preempted :: "'m runner \<Rightarrow> nat list \<Rightarrow> 'm sched \<Rightarrow> 'm sched" where
  "release_preempted R pre s =
     (if pre = [] then s
      else s\<lparr>mem := free_slots_batch R (map (\<lambda>x. seq_id (sq s x)) pre) (mem s)\<rparr>)"

text \<open>Whether the sampled token of a sequence is published to the caller.\<close>

definition publishes :: "bool \<Rightarrow> seq \<Rightarrow> bool res" where
  "publishes is_prefill q =
     (if \<not> should_publish_sample q then Inr False
      else if \<not> is_prefill then Inr True else is_last_chunk_prefill q)"

fun token_outputs :: "bool \<Rightarrow> (nat \<times> int) list \<Rightarrow> 'm sched \<Rightarrow> (int \<times> int list) list res" where
  "token_outputs is_prefill [] s = Inr []"
| "token_outputs is_prefill ((x, t) # xs) s =
     (case publishes is_prefill (sq s x) of
        Inl e \<Rightarrow> Inl e
      | Inr b \<Rightarrow> (case token_outputs is_prefill xs s of
          Inl e \<Rightarrow> Inl e
        | Inr outs \<Rightarrow> Inr (if b then (seq_id (sq s x), [t]) # outs else outs)))"

definition finished_of :: "nat list \<Rightarrow> 'm sched \<Rightarrow> nat list" where
  "finished_of batch s = filter (\<lambda>x. status (sq s x) = FINISHED) batch"

definition finish_sequences :: "'m runner \<Rightarrow> nat list \<Rightarrow> 'm sched \<Rightarrow> 'm sched" where
  "finish_sequences R batch s =
     (let ids = map (\<lambda>x. seq_id (sq s x)) (finished_of batch s)
      in if ids = [] then s else s\<lparr>mem := finish_slots_batch R ids (mem s)\<rparr>)"

definition engine_run ::
    "'m runner \<Rightarrow> nat list \<Rightarrow> bool \<Rightarrow> ('m sched, py_error,
      int list \<times> pyfloat option list option \<times> (int \<times> pyfloat) list option list option) eff" where
  "engine_run R batch is_prefill s =
     (case run_model R (map (sq s) batch) is_prefill (mem s) of (r, m) \<Rightarrow> (r, s\<lparr>mem := m\<rparr>))"

text \<open>With a batch: run it, collect what is published, postprocess, release the finished.\<close>

definition engine_conclude ::
    "('m, 'k) memory_oracle \<Rightarrow> sched_config \<Rightarrow> 'm runner \<Rightarrow> nat list \<Rightarrow> bool \<Rightarrow> int list
       \<Rightarrow> pyfloat option list option \<Rightarrow> (int \<times> pyfloat) list option list option
       \<Rightarrow> ('m sched, py_error, (int \<times> int list) list \<times> (int \<times> int list) list) eff" where
  "engine_conclude M C R batch is_prefill ts lps tops =
     bindE (\<lambda>s. (token_outputs is_prefill (zip batch ts) s, s)) (\<lambda>outs.
     bindE (postprocess M C batch ts is_prefill lps tops) (\<lambda>_.
     bindE (modifyE (finish_sequences R batch)) (\<lambda>_.
     bindE (getE (\<lambda>s. map (\<lambda>x. (seq_id (sq s x), completion_token_ids (sq s x))) (finished_of batch s)))
       (\<lambda>fin. bindE (prefill_execution_mode_counts M) (\<lambda>_. retE (outs, fin))))))"

definition engine_forward ::
    "('m, 'k) memory_oracle \<Rightarrow> sched_config \<Rightarrow> 'm runner \<Rightarrow> nat list \<Rightarrow> bool
       \<Rightarrow> ('m sched, py_error, (int \<times> int list) list \<times> (int \<times> int list) list) eff" where
  "engine_forward M C R batch is_prefill =
     bindE (engine_run R batch is_prefill)
       (\<lambda>(ts, lps, tops). engine_conclude M C R batch is_prefill ts lps tops)"

text \<open>Without one: a preemption or the end of all work is fine, anything else would hang.\<close>

definition engine_idle ::
    "('m, 'k) memory_oracle \<Rightarrow> nat list
       \<Rightarrow> ('m sched, py_error, (int \<times> int list) list \<times> (int \<times> int list) list) eff" where
  "engine_idle M pre =
     bindE (getE sched_is_finished) (\<lambda>finished.
       if pre \<noteq> [] \<or> finished
       then bindE (prefill_execution_mode_counts M) (\<lambda>_. retE ([], []))
       else raiseE (RuntimeError ''Scheduler returned no runnable sequences and no preemptions; ''))"

definition check_batch_mode ::
    "('m, 'k) memory_oracle \<Rightarrow> nat list \<Rightarrow> bool \<Rightarrow> ('m sched, py_error, unit) eff" where
  "check_batch_mode M batch is_prefill =
     (if batch \<noteq> [] \<and> is_prefill
      then bindE (prefill_execution_mode_for_batch M batch) (\<lambda>_. retE ()) else retE ())"

text \<open>The step returns the published tokens and the completions of the finished sequences.\<close>

definition engine_step ::
    "('m, 'k) memory_oracle \<Rightarrow> sched_config \<Rightarrow> 'm runner
       \<Rightarrow> ('m sched, py_error, (int \<times> int list) list \<times> (int \<times> int list) list) eff" where
  "engine_step M C R =
     bindE (schedule M C) (\<lambda>(batch, is_prefill, pre).
     bindE (check_batch_mode M batch is_prefill) (\<lambda>_.
     bindE (modifyE (release_preempted R pre)) (\<lambda>_.
       if batch = [] then engine_idle M pre else engine_forward M C R batch is_prefill)))"

section \<open>One sample\<close>

definition finished_ok :: "sched_config \<Rightarrow> int \<Rightarrow> seq \<Rightarrow> bool" where
  "finished_ok C t q \<longleftrightarrow> seq_ok q \<and> status q = FINISHED \<and> stops C t q
     \<and> num_completion_tokens q \<le> max_tokens (sampling q)
     \<and> (\<exists>ts. completion_token_ids q = ts @ [t])"

text \<open>
  What postprocessing one sample \<open>t\<close> of \<open>x\<close> does: the token is appended exactly when it is
  published, and the sequence ends up finished, waiting for its next chunk, or decoding.
\<close>

definition settled :: "sched_config \<Rightarrow> bool \<Rightarrow> nat \<Rightarrow> int \<Rightarrow> 'm sched \<Rightarrow> 'm sched \<Rightarrow> bool" where
  "settled C is_prefill x t s u \<longleftrightarrow>
     (\<forall>y. y \<noteq> x \<longrightarrow> sq u y = sq s y) \<and> seq_id (sq u x) = seq_id (sq s x)
     \<and> prompt_token_ids (sq u x) = prompt_token_ids (sq s x)
     \<and> \<not> isl (publishes is_prefill (sq s x))
     \<and> completion_token_ids (sq u x) = completion_token_ids (sq s x)
          @ (if publishes is_prefill (sq s x) = Inr True then [t] else [])
     \<and> (waiting u = waiting s \<and> decoding u = remove1 x (decoding s) \<and> finished_ok C t (sq u x)
        \<or> waiting u = x # waiting s \<and> decoding u = remove1 x (decoding s) \<and> queued_ok (sq u x)
        \<or> waiting u = waiting s \<and> mset (decoding u) = add_mset x (mset (remove1 x (decoding s)))
          \<and> decoding_ok (sq u x))"

lemma append_fields:
  "status (append_token t lp tops q) = status q"
  "num_prompt_tokens (append_token t lp tops q) = num_prompt_tokens q"
  "num_prefilled_tokens (append_token t lp tops q) = num_prefilled_tokens q"
  "recompute_replay_cursor (append_token t lp tops q) = recompute_replay_cursor q"
  "sampling (append_token t lp tops q) = sampling q" "seq_id (append_token t lp tops q) = seq_id q"
  "prompt_copy (append_token t lp tops q) = prompt_copy q"
  by (simp_all add: append_token_def track_penalty_token_def Let_def)

lemma seq_ok_basic:
  assumes "seq_ok q"
  shows "num_tokens q = int (length (seq_tokens q))" "0 \<le> num_prompt_tokens q"
    "num_prompt_tokens q \<le> num_tokens q" "prompt_copy q = Some (take (nat (num_prompt_tokens q)) (seq_tokens q))"
  using assms unfolding seq_ok_def by - (elim conjE, assumption)+

lemma completion_length:
  "seq_ok q \<Longrightarrow> num_completion_tokens q = int (length (completion_token_ids q))"
  using seq_ok_basic [of q] by (simp add: completion_token_ids_def num_completion_tokens_def)

lemma prompt_ids_ok: "seq_ok q \<Longrightarrow> prompt_token_ids q = take (nat (num_prompt_tokens q)) (seq_tokens q)"
  using seq_ok_basic [of q] by (simp add: prompt_token_ids_def)

text \<open>An accepted token: the sequence goes on decoding unless it stops.\<close>

lemma append_outcome:
  fixes t :: int and lp :: "pyfloat option" and tops :: "(int \<times> pyfloat) list option" and q :: seq
  assumes q: "seq_ok q" "status q = RUNNING" "0 < num_prompt_tokens q"
      "num_prompt_tokens q \<le> num_prefilled_tokens q" "recompute_replay_cursor q = None"
    and m: "num_completion_tokens q < max_tokens (sampling q)"
  defines "a \<equiv> append_token t lp tops q"
  shows "stops C t a \<Longrightarrow> finished_ok C t (a\<lparr>status := FINISHED\<rparr>)"
    and "\<not> stops C t a \<Longrightarrow> decoding_ok a"
    and "completion_token_ids (a\<lparr>status := w\<rparr>) = completion_token_ids q @ [t]"
    and "prompt_token_ids (a\<lparr>status := w\<rparr>) = prompt_token_ids q"
proof -
  note ap = seq_ok_append [OF q(1), of t lp tops, folded a_def]
  note f = append_fields [of t lp tops q, folded a_def]
  have c0: "0 \<le> num_completion_tokens q" using completion_length [OF q(1)] by simp
  have h: "history (a\<lparr>status := w\<rparr>) = history a" for w by (simp add: history_def)
  have so: "seq_ok (a\<lparr>status := w\<rparr>)" for w
  proof (rule seq_ok_history [OF ap(1) h])
    show "progress_ok (a\<lparr>status := w\<rparr>)"
      using seq_ok_progress [OF ap(1)] unfolding progress_ok_def history_fields [OF h] by simp
  qed
  show ct: "completion_token_ids (a\<lparr>status := w\<rparr>) = completion_token_ids q @ [t]" for w
    using ap(4) history_fields(2) [OF h] by simp
  show "prompt_token_ids (a\<lparr>status := w\<rparr>) = prompt_token_ids q"
    using f(7) seq_ok_basic(4) [OF q(1)] by (simp add: prompt_token_ids_def)
  show "finished_ok C t (a\<lparr>status := FINISHED\<rparr>)" if st: "stops C t a"
  proof -
    have "stops C t (a\<lparr>status := FINISHED\<rparr>)" using st by (simp add: stops_def num_completion_tokens_def)
    moreover have "num_completion_tokens (a\<lparr>status := FINISHED\<rparr>) \<le> max_tokens (sampling a)"
      using m ap(3) f(5) history_fields(1) [OF h] by simp
    ultimately show ?thesis using so ct by (simp add: finished_ok_def)
  qed
  show "decoding_ok a" if "\<not> stops C t a"
    using that ap f q m c0 by (auto simp: decoding_ok_def stops_def)
qed

lemma publishes_prefill:
  assumes "current_chunk_size q = Some c"
  shows "publishes True q
     = Inr (\<not> is_recompute_replay q \<and> num_prompt_tokens q \<le> num_prefilled_tokens q + c)"
  using assms by (simp add: publishes_def should_publish_sample_def is_last_chunk_prefill_def)

lemma publishes_decode: "publishes False q = Inr (\<not> is_recompute_replay q)"
  by (simp add: publishes_def should_publish_sample_def)

lemma remove1_absent: "x \<notin> set xs \<Longrightarrow> remove1 x xs = xs"
  by (induction xs) auto

lemma advanced_fields:
  assumes "seq_ok q" "status q = RUNNING" "fresh_or_replay q" "0 \<le> c"
    "num_prefilled_tokens q + c \<le> num_prompt_tokens q" "0 < num_prompt_tokens q"
  defines "p \<equiv> q\<lparr>num_prefilled_tokens := num_prefilled_tokens q + c\<rparr>"
  shows "seq_ok (p\<lparr>status := w\<rparr>)" "fresh_or_replay (p\<lparr>status := w\<rparr>)"
    "history (p\<lparr>status := w\<rparr>) = history q"
proof -
  show h: "history (p\<lparr>status := w\<rparr>) = history q" by (simp add: p_def history_def)
  show "seq_ok (p\<lparr>status := w\<rparr>)"
  proof (rule seq_ok_history [OF assms(1) h])
    show "progress_ok (p\<lparr>status := w\<rparr>)"
      unfolding progress_ok_def history_fields [OF h]
      using seq_ok_progress [OF assms(1)] assms(4) by (simp add: p_def progress_ok_def)
  qed
  show "fresh_or_replay (p\<lparr>status := w\<rparr>)"
    unfolding fresh_or_replay_def hit_valid_def history_fields [OF h]
    using assms(3) by (simp add: fresh_or_replay_def hit_valid_def p_def)
qed

lemma prompt_same:
  assumes "history q' = history q"
  shows "prompt_token_ids q' = prompt_token_ids q"
  using assms by (simp add: history_def prompt_token_ids_def split: option.split)

lemma post_prefill_settled:
  assumes q: "inflight_ok (sq s x)" and x: "x \<notin> set (decoding s)"
  shows "\<exists>u. post_prefill_one M C x (t, lp, tops) s = (Inr (), u) \<and> settled C True x t s u"
proof -
  let ?q = "sq s x"
  obtain c where c: "current_chunk_size ?q = Some c" "0 < c"
    "num_prefilled_tokens ?q + c \<le> num_prompt_tokens ?q"
    using q by (auto simp: inflight_ok_def)
  have ok: "seq_ok ?q" "status ?q = RUNNING" "fresh_or_replay ?q"
    using q by (simp_all add: inflight_ok_def)
  have nn: "0 \<le> num_prefilled_tokens ?q" using seq_ok_progress [OF ok(1)] by (simp add: progress_ok_def)
  then have pp: "0 < num_prompt_tokens ?q" using c by linarith
  define p where "p = ?q\<lparr>num_prefilled_tokens := num_prefilled_tokens ?q + c\<rparr>"
  note ad = advanced_fields [OF ok less_imp_le [OF c(2)] c(3) pp, folded p_def]
  have pub: "publishes True ?q = Inr (\<not> is_recompute_replay ?q \<and> num_prompt_tokens ?q \<le> num_prefilled_tokens ?q + c)"
    by (rule publishes_prefill [OF c(1)])
  note rx = remove1_absent [OF x]
  show ?thesis
  proof (cases "num_prefilled_tokens ?q + c < num_prompt_tokens ?q")
    case True
    let ?w = "p\<lparr>status := WAITING\<rparr>"
    let ?u = "s\<lparr>sq := (sq s)(x := ?w), waiting := x # waiting s\<rparr>"
    have "post_prefill_one M C x (t, lp, tops) s = (Inr (), ?u)"
      using True c by (simp add: post_prefill_one_def set_seq_def p_def Let_def)
    moreover have "queued_ok ?w"
      using ad(1,2) [of WAITING] True by (simp add: queued_ok_def p_def)
    then have "settled C True x t s ?u"
      using pub True rx history_fields(2) [OF ad(3)] prompt_same [OF ad(3), of WAITING]
      by (simp add: settled_def p_def)
    ultimately show ?thesis by blast
  next
    case False
    then have pe: "num_prefilled_tokens p = num_prompt_tokens p" using c(3) by (simp add: p_def)
    let ?r = "p\<lparr>status := RUNNING\<rparr>"
    note h = ad(3) [of RUNNING]
    define m where "m = complete_prefill_execution M p (mem s)"
    define s3 where "s3 = s\<lparr>mem := m, sq := (sq s)(x := ?r), decoding := decoding s @ [x]\<rparr>"
    have s3x: "sq s3 x = ?r" "decoding s3 = decoding s @ [x]" "waiting s3 = waiting s"
      "\<And>y. y \<noteq> x \<Longrightarrow> sq s3 y = sq s y" by (simp_all add: s3_def)
    have run: "post_prefill_one M C x (t, lp, tops) s =
        (if is_replay s3 x then
           (if replay_decode_token_count (sq s3 x) = 0
            then with_seq x (\<lambda>(q, m). case finish_recompute_replay q of (r, q') \<Rightarrow> (r, q', m)) s3
            else (Inr (), s3))
         else (let s4 = set_seq x (append_token t lp tops) s3
               in if stops C t (sq s4 x) then
                    (Inr (), (set_seq x (\<lambda>q. q\<lparr>status := FINISHED\<rparr>) s4)\<lparr>decoding := remove1 x (decoding s4)\<rparr>)
                  else (Inr (), s4)))"
      using False c by (simp add: post_prefill_one_def set_seq_def p_def [symmetric] m_def s3_def Let_def)
        (simp add: p_def)
    have rep: "is_replay s3 x = is_recompute_replay ?q" by (simp add: is_replay_def s3x p_def is_recompute_replay_def)
    show ?thesis
    proof (cases "is_recompute_replay ?q")
      case replay: True
      then obtain k where k: "recompute_replay_cursor ?q = Some k" by (auto simp: is_recompute_replay_def)
      have k0: "k = 0" "0 < num_completion_tokens ?q"
        using ok(3) k seq_ok_progress [OF ok(1)] by (auto simp: fresh_or_replay_def progress_ok_def)
      have mx: "num_completion_tokens ?q < max_tokens (sampling ?q)" using ok(3) by (simp add: fresh_or_replay_def)
      show ?thesis
      proof (cases "replay_decode_token_count ?r = 0")
        case fin: True
        let ?f = "?r\<lparr>recompute_replay_cursor := None, decode_progress_checkpoint := num_completion_tokens ?r\<rparr>"
        have hf: "history ?f = history ?q" using h by (simp add: history_def)
        have "seq_ok ?f"
        proof (rule seq_ok_history [OF ok(1) hf])
          show "progress_ok ?f"
            using seq_ok_progress [OF ad(1)] by (simp add: progress_ok_def)
        qed
        then have d: "decoding_ok ?f"
          unfolding decoding_ok_def history_fields [OF hf] using k0 mx pp pe by (simp add: p_def)
        let ?u = "s3\<lparr>sq := (sq s3)(x := ?f)\<rparr>"
        have "is_recompute_replay ?r" using replay by (simp add: p_def is_recompute_replay_def)
        then have "post_prefill_one M C x (t, lp, tops) s = (Inr (), ?u)"
          unfolding run using rep replay fin s3x
          by (simp add: with_seq_def finish_recompute_replay_def)
        moreover have "settled C True x t s ?u"
          using pub replay rx d s3x history_fields(2) [OF hf] prompt_same [OF hf]
          by (simp add: settled_def p_def)
        ultimately show ?thesis by blast
      next
        case more: False
        then have "0 < replay_decode_token_count ?r" by (simp add: replay_decode_token_count_def)
        then have d: "decoding_ok ?r"
          unfolding decoding_ok_def using ad(1) k k0 mx pp pe history_fields [OF h] by (simp add: p_def)
        have "post_prefill_one M C x (t, lp, tops) s = (Inr (), s3)"
          unfolding run using rep replay more s3x by simp
        moreover have "settled C True x t s s3"
          using pub replay rx d s3x history_fields(2) [OF h] prompt_same [OF h]
          by (simp add: settled_def p_def)
        ultimately show ?thesis by blast
      qed
    next
      case fresh: False
      have cur: "recompute_replay_cursor ?r = None" using fresh by (simp add: p_def is_recompute_replay_def)
      have mx: "num_completion_tokens ?r < max_tokens (sampling ?r)"
        using ok(3) history_fields [OF h] by (simp add: fresh_or_replay_def)
      let ?a = "append_token t lp tops ?r"
      have pr: "0 < num_prompt_tokens ?r" "num_prompt_tokens ?r \<le> num_prefilled_tokens ?r"
        using pe pp by (simp_all add: p_def)
      note ao = append_outcome [where t = t and lp = lp and tops = tops, OF ad(1) _ pr cur mx]
      have ids: "seq_id ?a = seq_id ?q" using append_fields(6) by (simp add: p_def)
      have pubT: "publishes True ?q = Inr True" using pub fresh False by simp
      show ?thesis
      proof (cases "stops C t ?a")
        case True
        let ?f = "?a\<lparr>status := FINISHED\<rparr>"
        let ?u = "s3\<lparr>sq := (sq s3)(x := ?f), decoding := remove1 x (decoding s3)\<rparr>"
        have "post_prefill_one M C x (t, lp, tops) s = (Inr (), ?u)"
          unfolding run using rep fresh True s3x by (simp add: set_seq_def Let_def)
        moreover have "settled C True x t s ?u"
          using pubT rx ao(1) [OF _ True] ao(3,4) [of FINISHED] s3x ids x
            history_fields(2) [OF h] prompt_same [OF h]
          by (simp add: settled_def remove1_append)
        ultimately show ?thesis by blast
      next
        case no: False
        let ?u = "s3\<lparr>sq := (sq s3)(x := ?a)\<rparr>"
        have "post_prefill_one M C x (t, lp, tops) s = (Inr (), ?u)"
          unfolding run using rep fresh no s3x by (simp add: set_seq_def Let_def)
        moreover have "status ?a = RUNNING" by (simp add: append_fields)
        then have "?a\<lparr>status := RUNNING\<rparr> = ?a" by (metis seq_meta.surjective seq_meta.update_convs(2))
        then have "settled C True x t s ?u"
          using pubT rx ao(2) [OF _ no] ao(3,4) [of RUNNING] s3x ids
            history_fields(2) [OF h] prompt_same [OF h]
          by (simp add: settled_def)
        ultimately show ?thesis by blast
      qed
    qed
  qed
qed

end
