(* ===== verification/Engine_Correct.thy ===== *)
theory Engine_Correct
  imports Engine_Step
begin

text \<open>
  A step of the engine keeps the invariant of the queues, loses no request, and publishes
  exactly the tokens it appends to the completions. Reachable states of the engine satisfy the
  invariant whatever the workers answer.
\<close>

section \<open>A decoded sample\<close>

lemma post_decode_settled:
  assumes q: "decoding_ok (sq s x)" and x: "x \<in> set (decoding s)"
  shows "\<exists>u. post_decode_one C x (t, lp, tops) s = (Inr (), u) \<and> settled C False x t s u"
proof -
  let ?q = "sq s x"
  have ok: "seq_ok ?q" "status ?q = RUNNING" "0 < num_prompt_tokens ?q"
    "num_prompt_tokens ?q \<le> num_prefilled_tokens ?q" "0 < num_completion_tokens ?q"
    "num_completion_tokens ?q < max_tokens (sampling ?q)"
    using q by (simp_all add: decoding_ok_def)
  have rd: "is_recompute_decode ?q = is_recompute_replay ?q"
    using ok(4) by (simp add: is_recompute_decode_def)
  have bk: "mset (decoding s) = add_mset x (mset (remove1 x (decoding s)))"
    using x by (rule remove1_msets)
  show ?thesis
  proof (cases "recompute_replay_cursor ?q")
    case None
    have nr: "\<not> is_recompute_replay ?q" using None by (simp add: is_recompute_replay_def)
    let ?a = "append_token t lp tops ?q"
    note ao = append_outcome [where t = t and lp = lp and tops = tops, OF ok(1-4) None ok(6)]
    have ids: "seq_id ?a = seq_id ?q" by (rule append_fields(6))
    have run: "post_decode_one C x (t, lp, tops) s =
       (let s1 = set_seq x (append_token t lp tops) s
        in if stops C t (sq s1 x) then
             (Inr (), (set_seq x (\<lambda>q. q\<lparr>status := FINISHED\<rparr>) s1)\<lparr>decoding := remove1 x (decoding s1)\<rparr>)
           else (Inr (), s1))"
      using rd nr by (simp add: post_decode_one_def)
    show ?thesis
    proof (cases "stops C t ?a")
      case True
      let ?u = "s\<lparr>sq := (sq s)(x := ?a\<lparr>status := FINISHED\<rparr>), decoding := remove1 x (decoding s)\<rparr>"
      have "post_decode_one C x (t, lp, tops) s = (Inr (), ?u)"
        unfolding run using True by (simp add: set_seq_def Let_def)
      moreover have "settled C False x t s ?u"
        using ao(1) [OF True] ao(3,4) [of FINISHED] ids nr by (simp add: settled_def publishes_decode)
      ultimately show ?thesis by blast
    next
      case False
      let ?u = "s\<lparr>sq := (sq s)(x := ?a)\<rparr>"
      have "post_decode_one C x (t, lp, tops) s = (Inr (), ?u)"
        unfolding run using False by (simp add: set_seq_def Let_def)
      moreover have "?a\<lparr>status := RUNNING\<rparr> = ?a"
        using append_fields(1) [of t lp tops ?q] ok(2) by (metis seq_meta.surjective seq_meta.update_convs(2))
      then have "settled C False x t s ?u"
        using ao(2) [OF False] ao(3,4) [of RUNNING] ids nr bk by (simp add: settled_def publishes_decode)
      ultimately show ?thesis by blast
    qed
  next
    case (Some k)
    have rep: "is_recompute_replay ?q" using Some by (simp add: is_recompute_replay_def)
    have k: "0 \<le> k" "k < replay_decode_token_count ?q"
      using q Some seq_ok_progress [OF ok(1)] by (auto simp: decoding_ok_def progress_ok_def)
    define c where "c = (if replay_decode_token_count ?q \<le> k + 1
      then ?q\<lparr>recompute_replay_cursor := None, decode_progress_checkpoint := num_completion_tokens ?q\<rparr>
      else ?q\<lparr>recompute_replay_cursor := Some (k + 1)\<rparr>)"
    have h: "history c = history ?q" by (simp add: c_def history_def)
    have "progress_ok c"
      unfolding progress_ok_def history_fields [OF h]
      using seq_ok_progress [OF ok(1)] k ok(5) by (auto simp: c_def progress_ok_def)
    then have "seq_ok c" by (rule seq_ok_history [OF ok(1) h])
    then have d: "decoding_ok c"
      unfolding decoding_ok_def history_fields [OF h] using ok by (auto simp: c_def)
    have adv: "advance_recompute_replay ?q = (Inr (), c)"
      using rd rep Some by (auto simp: advance_recompute_replay_def c_def or_zero_def Let_def
          finish_recompute_replay_def is_recompute_replay_def replay_decode_token_count_def num_completion_tokens_def)
    let ?u = "s\<lparr>sq := (sq s)(x := c)\<rparr>"
    have "post_decode_one C x (t, lp, tops) s = (Inr (), ?u)"
      using rd rep adv by (simp add: post_decode_one_def with_seq_def)
    moreover have "settled C False x t s ?u"
      using d rep bk history_fields(2) [OF h] prompt_same [OF h]
      by (simp add: settled_def publishes_decode) (simp add: c_def)
    ultimately show ?thesis by blast
  qed
qed

section \<open>A batch of samples\<close>

text \<open>
  All samples of a batch, one after the other: every sequence of the batch ends up in one
  place, and its completion grew by its token if that was published.
\<close>

definition settled_seq ::
    "sched_config \<Rightarrow> bool \<Rightarrow> 'm sched \<Rightarrow> 'm sched \<Rightarrow> nat \<Rightarrow> int \<Rightarrow> bool" where
  "settled_seq C is_prefill s u x t \<longleftrightarrow>
     seq_id (sq u x) = seq_id (sq s x) \<and> prompt_token_ids (sq u x) = prompt_token_ids (sq s x)
     \<and> \<not> isl (publishes is_prefill (sq s x))
     \<and> completion_token_ids (sq u x) = completion_token_ids (sq s x)
          @ (if publishes is_prefill (sq s x) = Inr True then [t] else [])
     \<and> (x \<in> set (waiting u) \<and> x \<notin> set (decoding u) \<and> queued_ok (sq u x)
        \<or> x \<in> set (decoding u) \<and> x \<notin> set (waiting u) \<and> decoding_ok (sq u x)
        \<or> x \<notin> set (waiting u) \<union> set (decoding u) \<and> finished_ok C t (sq u x))"

definition untouched :: "'m sched \<Rightarrow> 'm sched \<Rightarrow> nat \<Rightarrow> bool" where
  "untouched s u y \<longleftrightarrow> sq u y = sq s y \<and> (y \<in> set (waiting u) \<longleftrightarrow> y \<in> set (waiting s))
     \<and> (y \<in> set (decoding u) \<longleftrightarrow> y \<in> set (decoding s))"

definition batch_settled ::
    "sched_config \<Rightarrow> bool \<Rightarrow> (nat \<times> int) list \<Rightarrow> 'm sched \<Rightarrow> 'm sched \<Rightarrow> bool" where
  "batch_settled C is_prefill xts s u \<longleftrightarrow>
     (\<forall>y. y \<notin> fst ` set xts \<longrightarrow> untouched s u y)
     \<and> (\<forall>(x, t)\<in>set xts. settled_seq C is_prefill s u x t)
     \<and> distinct (waiting u @ decoding u)"

lemma untouched_trans: "untouched s u y \<Longrightarrow> untouched u v y \<Longrightarrow> untouched s v y"
  by (simp add: untouched_def)

lemma settled_then_untouched: "settled_seq C isp s u x t \<Longrightarrow> untouched u v x \<Longrightarrow> settled_seq C isp s v x t"
  by (simp add: untouched_def settled_seq_def)

lemma untouched_then_settled: "untouched s u x \<Longrightarrow> settled_seq C isp u v x t \<Longrightarrow> settled_seq C isp s v x t"
  by (simp add: untouched_def settled_seq_def)

lemma settled_queues:
  assumes st: "settled C isp x t s u" and d: "distinct (waiting s @ decoding s)" and x: "x \<notin> set (waiting s)"
  shows "distinct (waiting u @ decoding u)" "y \<noteq> x \<Longrightarrow> untouched s u y" "settled_seq C isp s u x t"
proof -
  let ?rest = "remove1 x (decoding s)"
  have r: "distinct ?rest" "x \<notin> set ?rest" "set ?rest = set (decoding s) - {x}"
    "set (waiting s) \<inter> set ?rest = {}" "distinct (waiting s)"
    using d by auto
  have sqs: "\<And>y. y \<noteq> x \<Longrightarrow> sq u y = sq s y" using st by (simp add: settled_def)
  consider (fin) "waiting u = waiting s" "decoding u = ?rest" "finished_ok C t (sq u x)"
    | (wait) "waiting u = x # waiting s" "decoding u = ?rest" "queued_ok (sq u x)"
    | (dec) "waiting u = waiting s" "mset (decoding u) = mset (x # ?rest)" "decoding_ok (sq u x)"
    using st unfolding settled_def by auto
  then have q: "distinct (waiting u @ decoding u) \<and> (y \<noteq> x \<longrightarrow> (y \<in> set (waiting u) \<longleftrightarrow> y \<in> set (waiting s))
        \<and> (y \<in> set (decoding u) \<longleftrightarrow> y \<in> set (decoding s)))
      \<and> (x \<in> set (waiting u) \<and> x \<notin> set (decoding u) \<and> queued_ok (sq u x)
        \<or> x \<in> set (decoding u) \<and> x \<notin> set (waiting u) \<and> decoding_ok (sq u x)
        \<or> x \<notin> set (waiting u) \<union> set (decoding u) \<and> finished_ok C t (sq u x))" for y
  proof cases
    case fin
    then show ?thesis using r x by simp
  next
    case wait
    then show ?thesis using r x by simp
  next
    case dec
    have "distinct (x # ?rest)" using r by simp
    then have "distinct (decoding u)" using dec(2) by (metis mset_eq_imp_distinct_iff)
    moreover have "set (decoding u) = insert x (set ?rest)" using mset_eq_setD [OF dec(2)] by simp
    ultimately show ?thesis using r x dec by auto
  qed
  show "distinct (waiting u @ decoding u)" using q by blast
  show "untouched s u y" if "y \<noteq> x" using q [of y] sqs that by (simp add: untouched_def)
  show "settled_seq C isp s u x t"
    using q st unfolding settled_seq_def settled_def by blast
qed

lemma batch_settled_run:
  assumes step: "\<And>x t lp tops s. P (sq s x) \<Longrightarrow> (x \<in> set (decoding s) \<longleftrightarrow> \<not> isp) \<Longrightarrow>
      \<exists>u. f x (t, lp, tops) s = (Inr (), u) \<and> settled C isp x t s u"
    and d: "distinct (map fst xs)" "distinct (waiting s @ decoding s)"
    and x: "\<And>x. x \<in> set (map fst xs) \<Longrightarrow> P (sq s x) \<and> x \<notin> set (waiting s) \<and> (x \<in> set (decoding s) \<longleftrightarrow> \<not> isp)"
  shows "\<exists>u. forE (\<lambda>(x, smp). f x smp) xs s = (Inr (), u)
     \<and> batch_settled C isp (map (\<lambda>(x, smp). (x, fst smp)) xs) s u"
  using d x
proof (induction xs arbitrary: s)
  case Nil
  then show ?case by (simp add: batch_settled_def untouched_def)
next
  case (Cons z zs)
  obtain x t lp tops where z: "z = (x, t, lp, tops)" by (cases z)
  let ?zs = "map (\<lambda>(x, smp). (x, fst smp)) zs"
  have fz: "fst ` set ?zs = set (map fst zs)" by force
  have px: "P (sq s x)" "x \<notin> set (waiting s)" "x \<in> set (decoding s) \<longleftrightarrow> \<not> isp"
    using Cons.prems(3) [of x] z by simp_all
  obtain u where u: "f x (t, lp, tops) s = (Inr (), u)" and st: "settled C isp x t s u"
    using step [OF px(1,3)] by blast
  note sq1 = settled_queues [OF st Cons.prems(2) px(2)]
  have nx: "x \<notin> set (map fst zs)" using Cons.prems(1) z by simp
  have rest: "P (sq u y) \<and> y \<notin> set (waiting u) \<and> (y \<in> set (decoding u) \<longleftrightarrow> \<not> isp)" if y: "y \<in> set (map fst zs)" for y
  proof -
    have "untouched s u y" using y nx by (intro sq1(2)) auto
    moreover have "P (sq s y) \<and> y \<notin> set (waiting s) \<and> (y \<in> set (decoding s) \<longleftrightarrow> \<not> isp)"
      using Cons.prems(3) [of y] y by simp
    ultimately show ?thesis by (simp add: untouched_def)
  qed
  have dz: "distinct (map fst zs)" using Cons.prems(1) by simp
  obtain v where v: "forE (\<lambda>(x, smp). f x smp) zs u = (Inr (), v)" and b: "batch_settled C isp ?zs u v"
    using Cons.IH [OF dz sq1(1) rest] by blast
  have un: "untouched u v y" if "y \<notin> set (map fst zs)" for y
    using b that fz unfolding batch_settled_def by blast
  have "settled_seq C isp s v x t" using sq1(3) un [OF nx] by (rule settled_then_untouched)
  moreover have "settled_seq C isp s v y t'" if "(y, t') \<in> set ?zs" for y t'
  proof -
    have "y \<in> set (map fst zs)" using that fz by force
    then have "untouched s u y" using nx by (intro sq1(2)) auto
    moreover have "settled_seq C isp u v y t'" using b that unfolding batch_settled_def by blast
    ultimately show ?thesis by (rule untouched_then_settled)
  qed
  ultimately have each: "\<forall>(y, t')\<in>insert (x, t) (set ?zs). settled_seq C isp s v y t'" by blast
  have keep: "untouched s v y" if "y \<notin> fst ` insert (x, t) (set ?zs)" for y
  proof -
    have y: "y \<noteq> x" "y \<notin> set (map fst zs)" using that fz by auto
    show ?thesis using sq1(2) [OF y(1)] un [OF y(2)] by (rule untouched_trans)
  qed
  have ls: "set (map (\<lambda>(x, smp). (x, fst smp)) (z # zs)) = insert (x, t) (set ?zs)"
    using z by simp
  have "distinct (waiting v @ decoding v)" using b by (simp add: batch_settled_def)
  then have "batch_settled C isp (map (\<lambda>(x, smp). (x, fst smp)) (z # zs)) s v"
    unfolding batch_settled_def ls using each keep by blast
  moreover have "forE (\<lambda>(x, smp). f x smp) (z # zs) s = (Inr (), v)"
    using u v z by simp
  ultimately show ?case by blast
qed

section \<open>Postprocessing a batch\<close>

definition runner_ok :: "'m runner \<Rightarrow> bool" where
  "runner_ok R \<longleftrightarrow> (\<forall>qs isp m ts lps tops m'. run_model R qs isp m = (Inr (ts, lps, tops), m') \<longrightarrow>
     length ts = length qs \<and> (\<forall>l. lps = Some l \<longrightarrow> length l = length qs)
     \<and> (\<forall>l. tops = Some l \<longrightarrow> length l = length qs))"

lemma or_nones_length: "(\<And>l. xs = Some l \<Longrightarrow> length l = n) \<Longrightarrow> length (or_nones xs n) = n"
  by (auto simp: or_nones_def split: option.splits)

lemma zip_samples:
  assumes "length ts = length xs" "length ls = length xs" "length ks = length xs"
  shows "map fst (zip xs (zip ts (zip ls ks))) = xs"
    "map (\<lambda>(x, smp). (x, fst smp)) (zip xs (zip ts (zip ls ks))) = zip xs ts"
  using assms by (auto simp: map_fst_zip intro!: nth_equalityI)

lemma postprocess_settled:
  assumes len: "length ts = length batch" "\<And>l. lps = Some l \<Longrightarrow> length l = length batch"
      "\<And>l. tops = Some l \<Longrightarrow> length l = length batch"
    and d: "distinct batch" "distinct (waiting s @ decoding s)"
    and b: "\<And>x. x \<in> set batch \<Longrightarrow> x \<notin> set (waiting s)
      \<and> (if isp then inflight_ok (sq s x) \<and> x \<notin> set (decoding s) else decoding_ok (sq s x) \<and> x \<in> set (decoding s))"
  shows "\<exists>u. postprocess M C batch ts isp lps tops s = (Inr (), u) \<and> batch_settled C isp (zip batch ts) s u"
proof -
  let ?xs = "zip batch (zip ts (zip (or_nones lps (length batch)) (or_nones tops (length batch))))"
  have l: "length (or_nones lps (length batch)) = length batch" "length (or_nones tops (length batch)) = length batch"
    using len(2,3) by (auto intro: or_nones_length)
  note z = zip_samples [OF len(1) l]
  show ?thesis
  proof (cases isp)
    case True
    have "\<exists>u. forE (\<lambda>(x, smp). post_prefill_one M C x smp) ?xs s = (Inr (), u)
     \<and> batch_settled C True (map (\<lambda>(x, smp). (x, fst smp)) ?xs) s u"
      by (rule batch_settled_run [where P = inflight_ok])
        (use post_prefill_settled z d b True in auto)
    then show ?thesis using True z by (simp add: postprocess_def Let_def)
  next
    case False
    have "\<exists>u. forE (\<lambda>(x, smp). post_decode_one C x smp) ?xs s = (Inr (), u)
     \<and> batch_settled C False (map (\<lambda>(x, smp). (x, fst smp)) ?xs) s u"
      by (rule batch_settled_run [where P = decoding_ok])
        (use post_decode_settled z d b False in auto)
    then show ?thesis using False z by (simp add: postprocess_def Let_def)
  qed
qed

section \<open>What is published\<close>

definition published :: "int \<Rightarrow> (int \<times> int list) list \<Rightarrow> int list" where
  "published sid outs = concat (map snd (filter (\<lambda>(i, ts). i = sid) outs))"

lemma published_absent:
  "token_outputs isp xts s = Inr outs \<Longrightarrow> sid \<notin> (\<lambda>x. seq_id (sq s x)) ` fst ` set xts \<Longrightarrow> published sid outs = []"
  by (induction xts arbitrary: outs) (auto simp: published_def split: sum.splits if_splits)

lemma published_batch:
  assumes "token_outputs isp xts s = Inr outs" "distinct (map (\<lambda>(x, t). seq_id (sq s x)) xts)" "(x, t) \<in> set xts"
  shows "published (seq_id (sq s x)) outs = (if publishes isp (sq s x) = Inr True then [t] else [])"
  using assms
proof (induction xts arbitrary: outs)
  case Nil
  then show ?case by simp
next
  case (Cons z zs)
  obtain y r where z: "z = (y, r)" by (cases z)
  obtain b os where b: "publishes isp (sq s y) = Inr b" and os: "token_outputs isp zs s = Inr os"
    and outs: "outs = (if b then (seq_id (sq s y), [r]) # os else os)"
    using Cons.prems(1) z by (auto split: sum.splits if_splits)
  have hd: "published (seq_id (sq s x)) outs
      = (if b \<and> seq_id (sq s y) = seq_id (sq s x) then r # published (seq_id (sq s x)) os
         else published (seq_id (sq s x)) os)"
    using outs by (simp add: published_def)
  have nd: "seq_id (sq s y) \<notin> (\<lambda>x. seq_id (sq s x)) ` fst ` set zs"
    using Cons.prems(2) z by (force simp: case_prod_beta)
  show ?case
  proof (cases "(x, t) = (y, r)")
    case True
    then have "published (seq_id (sq s x)) os = []" using published_absent [OF os] nd by simp
    then show ?thesis using hd b True by (cases b) auto
  next
    case False
    then have m: "(x, t) \<in> set zs" using Cons.prems(3) z by auto
    then have "seq_id (sq s y) \<noteq> seq_id (sq s x)" using nd by force
    then show ?thesis using hd Cons.IH [OF os _ m] Cons.prems(2) z by simp
  qed
qed

section \<open>The counting of the waiting prompts\<close>

lemma count_modes_frame:
  assumes "count_modes M xs counts s = (Inr r, t)" "distinct xs"
  shows "waiting t = waiting s \<and> decoding t = decoding s \<and> total_preemptions t = total_preemptions s
     \<and> (\<forall>x. if x \<in> set xs then refreshed M (sq s x) (sq t x) else sq t x = sq s x)"
  using assms
proof (induction xs arbitrary: counts s)
  case Nil
  then show ?case by simp
next
  case (Cons x xs)
  obtain a s1 md s2 n where 1: "refresh_prefill_metadata M x s = (Inr a, s1)"
    and 2: "sched_prefill_execution_mode M x s1 = (Inr md, s2)"
    and 3: "count_modes M xs (dict_set md (n + 1) counts) s2 = (Inr r, t)"
    using Cons.prems(1)
    by (auto simp: bindE_def split: prod.splits sum.splits option.splits)
  have m2: "mem_only s1 s2"
    using 2 by (auto simp: sched_prefill_execution_mode_def mem_only_def split: prod.splits sum.splits)
  note f2 = mem_only_fields [OF m2]
  have f1: "waiting s1 = waiting s" "decoding s1 = decoding s" "total_preemptions s1 = total_preemptions s"
    "refreshed M (sq s x) (sq s1 x)" "\<And>y. y \<noteq> x \<Longrightarrow> sq s1 y = sq s y"
    using 1 by (auto simp: refresh_prefill_metadata_def with_seq_def refreshed_def split: if_splits prod.splits)
  have IH: "waiting t = waiting s2 \<and> decoding t = decoding s2 \<and> total_preemptions t = total_preemptions s2
     \<and> (\<forall>x. if x \<in> set xs then refreshed M (sq s2 x) (sq t x) else sq t x = sq s2 x)"
    using Cons.IH [OF 3] Cons.prems(2) by simp
  have "if y \<in> set (x # xs) then refreshed M (sq s y) (sq t y) else sq t y = sq s y" for y
  proof (cases "y = x")
    case True
    then have "sq t y = sq s1 x" using IH f2 Cons.prems(2) by (auto split: if_splits)
    then show ?thesis using True f1(4) by simp
  next
    case no: False
    then have "sq s2 y = sq s y" using f2(1) f1(5) by simp
    moreover have "if y \<in> set xs then refreshed M (sq s2 y) (sq t y) else sq t y = sq s2 y"
      using IH by blast
    ultimately show ?thesis using no by (auto split: if_splits)
  qed
  then show ?case using IH f1 f2 by simp
qed

lemma counts_refresh:
  "prefill_execution_mode_counts M s = (Inr r, t) \<Longrightarrow> distinct (waiting s) \<Longrightarrow> after_refresh M s t"
  unfolding prefill_execution_mode_counts_def after_refresh_def by (rule count_modes_frame)

lemma batch_keys_mem_only: "batch_keys M xs s = (r, t) \<Longrightarrow> mem_only s t"
proof (induction xs arbitrary: s r)
  case (Cons x xs)
  then show ?case
    using batch_key_mem_only mem_only_trans
    by (auto simp: bindE_def split: prod.splits sum.splits) blast+
qed auto

lemma mode_for_batch_mem_only: "prefill_execution_mode_for_batch M xs s = (r, t) \<Longrightarrow> mem_only s t"
  using batch_keys_mem_only [of M xs s]
  by (auto simp: prefill_execution_mode_for_batch_def bindE_def split: prod.splits sum.splits list.splits)

end
