(* ===== verification/Engine_Reach.thy ===== *)
theory Engine_Reach
  imports Engine_Correct
begin

text \<open>
  The engine as a state machine: requests arrive, requests are aborted, the workers change the
  memory, and the engine takes steps. Every reachable state satisfies the invariant of the
  queues, and every step publishes what it appends.
\<close>

section \<open>The parts of a step\<close>

lemma finish_mem_only: "mem_only s (finish_sequences R batch s)"
  by (auto simp: finish_sequences_def mem_only_def Let_def)
    (rule exI [of _ "mem s"], simp)

lemma release_mem_only: "mem_only s (release_preempted R pre s)"
  by (auto simp: release_preempted_def mem_only_def) (rule exI [of _ "mem s"], simp)

lemma engine_concludeE:
  assumes "engine_conclude M C R batch isp ts lps tops s = (Inr (outs, fin), t)"
  obtains u ns where "token_outputs isp (zip batch ts) s = Inr outs"
    "postprocess M C batch ts isp lps tops s = (Inr (), u)"
    "fin = map (\<lambda>x. (seq_id (sq (finish_sequences R batch u) x),
        completion_token_ids (sq (finish_sequences R batch u) x))) (finished_of batch (finish_sequences R batch u))"
    "prefill_execution_mode_counts M (finish_sequences R batch u) = (Inr ns, t)"
proof -
  obtain os where os: "token_outputs isp (zip batch ts) s = Inr os"
    using assms by (cases "token_outputs isp (zip batch ts) s") (auto simp: engine_conclude_def bindE_def)
  obtain r u where u: "postprocess M C batch ts isp lps tops s = (r, u)" by fastforce
  obtain a where r: "r = Inr a"
    using assms os u by (cases r) (auto simp: engine_conclude_def bindE_def)
  obtain c w where cw: "prefill_execution_mode_counts M (finish_sequences R batch u) = (c, w)" by fastforce
  obtain ns where ns: "c = Inr ns"
    using assms os u r cw by (cases c) (auto simp: engine_conclude_def bindE_def)
  have "engine_conclude M C R batch isp ts lps tops s
      = (Inr (os, map (\<lambda>x. (seq_id (sq (finish_sequences R batch u) x),
        completion_token_ids (sq (finish_sequences R batch u) x))) (finished_of batch (finish_sequences R batch u))), w)"
    using os u r cw ns by (simp add: engine_conclude_def bindE_def)
  then have "os = outs" "w = t" "fin = map (\<lambda>x. (seq_id (sq (finish_sequences R batch u) x),
        completion_token_ids (sq (finish_sequences R batch u) x))) (finished_of batch (finish_sequences R batch u))"
    using assms by auto
  then show thesis using that os u r cw ns by simp
qed

text \<open>The states a successful step goes through.\<close>

lemma engine_step_cases:
  assumes "engine_step M C R s = (Inr (outs, fin), t)"
  obtains (idle) batch isp pre s1 s2 ns where "schedule M C s = (Inr (batch, isp, pre), s1)" "batch = []"
      "mem_only s1 s2" "prefill_execution_mode_counts M s2 = (Inr ns, t)" "outs = []" "fin = []"
      "pre \<noteq> [] \<or> sched_is_finished s2"
  | (run) batch isp pre s1 s2 ts lps tops m u v ns where
      "schedule M C s = (Inr (batch, isp, pre), s1)" "batch \<noteq> []" "mem_only s1 s2"
      "run_model R (map (sq s2) batch) isp m = (Inr (ts, lps, tops), mem s2)"
      "token_outputs isp (zip batch ts) s2 = Inr outs"
      "postprocess M C batch ts isp lps tops s2 = (Inr (), u)" "mem_only u v"
      "fin = map (\<lambda>x. (seq_id (sq v x), completion_token_ids (sq v x))) (finished_of batch v)"
      "prefill_execution_mode_counts M v = (Inr ns, t)"
proof -
  from assms obtain batch isp pre s1 a sa where
    sch: "schedule M C s = (Inr (batch, isp, pre), s1)"
    and md: "check_batch_mode M batch isp s1 = (Inr a, sa)"
    and rest: "(if batch = [] then engine_idle M pre else engine_forward M C R batch isp)
       (release_preempted R pre sa) = (Inr (outs, fin), t)"
  proof -
    obtain tri s1 where 1: "schedule M C s = (Inr tri, s1)"
      and 2: "(case tri of (batch, is_prefill, pre) \<Rightarrow>
       bindE (check_batch_mode M batch is_prefill) (\<lambda>_.
       bindE (modifyE (release_preempted R pre)) (\<lambda>_.
         if batch = [] then engine_idle M pre else engine_forward M C R batch is_prefill))) s1
       = (Inr (outs, fin), t)"
      using assms unfolding engine_step_def bindE_eq_Inr by blast
    obtain batch isp pre where tri: "tri = (batch, isp, pre)" by (cases tri)
    have "bindE (check_batch_mode M batch isp) (\<lambda>_.
       bindE (modifyE (release_preempted R pre)) (\<lambda>_.
         if batch = [] then engine_idle M pre else engine_forward M C R batch isp)) s1
       = (Inr (outs, fin), t)" using 2 tri by simp
    then obtain a sa where "check_batch_mode M batch isp s1 = (Inr a, sa)"
      "bindE (modifyE (release_preempted R pre)) (\<lambda>_.
         if batch = [] then engine_idle M pre else engine_forward M C R batch isp) sa = (Inr (outs, fin), t)"
      unfolding bindE_eq_Inr by blast
    then show thesis using that 1 tri by (simp add: bindE_def)
  qed
  let ?sb = "release_preempted R pre sa"
  have "mem_only s1 sa"
  proof (cases "batch \<noteq> [] \<and> isp")
    case True
    then obtain b where "prefill_execution_mode_for_batch M batch s1 = (Inr b, sa)"
      using md by (auto simp: check_batch_mode_def bindE_eq_Inr)
    then show ?thesis by (rule mode_for_batch_mem_only)
  next
    case False
    then show ?thesis using md by (auto simp: check_batch_mode_def split: if_splits)
  qed
  then have m: "mem_only s1 ?sb" using release_mem_only mem_only_trans by blast
  show thesis
  proof (cases "batch = []")
    case True
    then obtain ns where "pre \<noteq> [] \<or> sched_is_finished ?sb"
      "prefill_execution_mode_counts M ?sb = (Inr ns, t)" "outs = []" "fin = []"
      using rest by (auto simp: engine_idle_def bindE_eq_Inr split: if_splits)
    then show thesis using idle [OF sch True m] by blast
  next
    case False
    then have "engine_forward M C R batch isp ?sb = (Inr (outs, fin), t)" using rest by simp
    then obtain ts lps tops sc u ns where r: "engine_run R batch isp ?sb = (Inr (ts, lps, tops), sc)"
      and o1: "token_outputs isp (zip batch ts) sc = Inr outs"
      and p1: "postprocess M C batch ts isp lps tops sc = (Inr (), u)"
      and f1: "fin = map (\<lambda>x. (seq_id (sq (finish_sequences R batch u) x),
          completion_token_ids (sq (finish_sequences R batch u) x))) (finished_of batch (finish_sequences R batch u))"
      and c1: "prefill_execution_mode_counts M (finish_sequences R batch u) = (Inr ns, t)"
    proof -
      obtain tri sc where 1: "engine_run R batch isp ?sb = (Inr tri, sc)"
        and 2: "(case tri of (ts, lps, tops) \<Rightarrow> engine_conclude M C R batch isp ts lps tops) sc = (Inr (outs, fin), t)"
        using \<open>engine_forward M C R batch isp ?sb = (Inr (outs, fin), t)\<close>
        unfolding engine_forward_def bindE_eq_Inr by blast
      obtain ts lps tops where tri: "tri = (ts, lps, tops)" by (cases tri)
      have "engine_conclude M C R batch isp ts lps tops sc = (Inr (outs, fin), t)" using 2 tri by simp
      then show thesis using that 1 tri by (auto elim: engine_concludeE)
    qed
    obtain k where k: "sc = ?sb\<lparr>mem := k\<rparr>"
      "run_model R (map (sq ?sb) batch) isp (mem ?sb) = (Inr (ts, lps, tops), k)"
      using r by (auto simp: engine_run_def split: prod.splits)
    have "mem_only ?sb sc" unfolding mem_only_def using k(1) by blast
    then have ms: "mem_only s1 sc" using m mem_only_trans by blast
    have rm: "run_model R (map (sq sc) batch) isp (mem ?sb) = (Inr (ts, lps, tops), mem sc)"
      using k by simp
    show thesis by (rule run [OF sch False ms rm o1 p1 finish_mem_only f1 c1])
  qed
qed

section \<open>The invariant of a step\<close>

definition held :: "'m sched \<Rightarrow> nat set" where
  "held s = set (waiting s) \<union> set (decoding s)"

lemma sched_ok_ids: "sched_ok s \<Longrightarrow> inj_on (\<lambda>x. seq_id (sq s x)) (held s)"
  by (simp only: sched_ok_def held_def distinct_map set_append)

lemma sched_okI:
  assumes "distinct (waiting s @ decoding s)" "inj_on (\<lambda>x. seq_id (sq s x)) (held s)" "queues_ok s"
  shows "sched_ok s"
  using assms by (simp only: sched_ok_def held_def distinct_map set_append)

context oracle_laws
begin

lemma refresh_sched_ok:
  assumes r: "after_refresh M s t" and ok: "sched_ok s"
  shows "sched_ok t" "same_histories s t" "held t = held s"
proof -
  have q: "queues_ok s" using ok by (simp add: sched_ok_def)
  have w: "waiting t = waiting s" "decoding t = decoding s" using r by (simp_all add: after_refresh_def)
  note a = after_refresh_queues [OF r]
  have wq: "\<forall>x\<in>set (waiting s). queued_ok (sq s x)" using q by (simp add: queues_ok_def)
  have "decoding_ok (sq t x)" if x: "x \<in> set (decoding s)" for x
  proof -
    have "x \<notin> set (waiting s)" using sched_ok_distinct [OF ok] x by auto
    with a(3) [OF wq] have "sq t x = sq s x" by blast
    then show ?thesis using q x by (simp add: queues_ok_def)
  qed
  then have "queues_ok t" using a(1) [OF wq] w by (simp add: queues_ok_def)
  moreover show h: "same_histories s t" by (rule a(2) [OF wq])
  ultimately show "sched_ok t" using ok w by (intro sched_ok_reorder [of s t]) auto
  show "held t = held s" by (simp add: held_def w)
qed

lemma mem_only_sched_ok:
  assumes m: "mem_only s t" and ok: "sched_ok s"
  shows "sched_ok t" "same_histories s t" "held t = held s"
  using ok mem_only_fields [OF m]
  by (simp_all add: sched_ok_def queues_ok_def same_histories_def held_def)

text \<open>The state the workers run on: the batch is out of the queues (prefill) or in them (decode).\<close>

lemma schedule_batch:
  assumes sch: "schedule M C s = (Inr (batch, isp, pre), s1)" and ok: "sched_ok s" and m: "mem_only s1 s2"
  shows "distinct (waiting s2 @ decoding s2)" "held s = held s2 \<union> set batch" "same_histories s s2"
    "queues_ok s2" "distinct batch"
    "x \<in> set batch \<Longrightarrow> x \<notin> set (waiting s2) \<and>
       (if isp then inflight_ok (sq s2 x) \<and> x \<notin> set (decoding s2) else decoding_ok (sq s2 x) \<and> x \<in> set (decoding s2))"
    "batch = [] \<Longrightarrow> sched_ok s2"
proof -
  have d: "distinct (waiting s)" "distinct (decoding s)" "distinct (waiting s @ decoding s)"
    using sched_ok_distinct [OF ok] by auto
  note q = schedule_queues [OF sch d(1,2)]
  note st = schedule_states [OF sch ok]
  note f = mem_only_fields [OF m]
  have ms: "mset (waiting s1 @ decoding s1 @ (if isp then batch else [])) = mset (waiting s @ decoding s)"
    using q by (cases isp) (auto simp: ac_simps)
  then have dd: "distinct (waiting s1 @ decoding s1 @ (if isp then batch else []))"
    using d(3) by (metis mset_eq_imp_distinct_iff)
  have sets: "set (waiting s1) \<union> set (decoding s1) \<union> set (if isp then batch else []) = held s"
    using mset_eq_setD [OF ms] by (simp add: held_def Un_assoc)
  have sub: "\<not> isp \<Longrightarrow> set batch \<subseteq> set (decoding s1)" using q by simp
  show "distinct (waiting s2 @ decoding s2)" using dd f by auto
  show "held s = held s2 \<union> set batch" using sets sub f by (cases isp) (auto simp: held_def)
  show "distinct batch" using dd q by (cases isp) auto
  have h1: "same_histories s1 s2" using f by (simp add: same_histories_def)
  show sh: "same_histories s s2" using st h1 same_histories_trans by blast
  show qk: "queues_ok s2" using st f by (simp add: queues_ok_def)
  show "x \<notin> set (waiting s2) \<and>
       (if isp then inflight_ok (sq s2 x) \<and> x \<notin> set (decoding s2) else decoding_ok (sq s2 x) \<and> x \<in> set (decoding s2))"
    if x: "x \<in> set batch"
  proof (cases isp)
    case True
    then show ?thesis using st dd x f by auto
  next
    case False
    then have "x \<in> set (decoding s1)" using sub x by auto
    then show ?thesis using False qk dd f by (auto simp: queues_ok_def)
  qed
  show "sched_ok s2" if "batch = []"
  proof (rule sched_ok_reorder [OF ok sh qk])
    show "mset (waiting s2) + mset (decoding s2) \<subseteq># mset (waiting s) + mset (decoding s)"
      using ms that f by (simp split: if_splits)
  qed
qed

lemma postprocess_sched_ok:
  assumes b: "batch_settled C isp xts s u" and q: "queues_ok s"
    and inj: "inj_on (\<lambda>x. seq_id (sq s x)) (held s \<union> fst ` set xts)"
  shows "sched_ok u" "held u \<subseteq> held s \<union> fst ` set xts"
proof -
  have un: "untouched s u y" if "y \<notin> fst ` set xts" for y using b that by (simp add: batch_settled_def)
  have each: "settled_seq C isp s u x r" if "(x, r) \<in> set xts" for x r
    using b that by (auto simp: batch_settled_def)
  show lv: "held u \<subseteq> held s \<union> fst ` set xts"
  proof
    fix y assume y: "y \<in> held u"
    show "y \<in> held s \<union> fst ` set xts"
    proof (cases "y \<in> fst ` set xts")
      case False
      then show ?thesis using un [OF False] y by (simp add: untouched_def held_def)
    qed simp
  qed
  have ids: "seq_id (sq u y) = seq_id (sq s y)" for y
  proof (cases "y \<in> fst ` set xts")
    case True
    then obtain r where "(y, r) \<in> set xts" by force
    then show ?thesis using each by (simp add: settled_seq_def)
  next
    case False
    then show ?thesis using un by (simp add: untouched_def)
  qed
  have "queues_ok u"
    unfolding queues_ok_def
  proof (intro conjI ballI)
    fix y assume y: "y \<in> set (waiting u)"
    show "queued_ok (sq u y)"
    proof (cases "y \<in> fst ` set xts")
      case True
      then obtain r where "(y, r) \<in> set xts" by force
      then show ?thesis using each y unfolding settled_seq_def by blast
    next
      case False
      then show ?thesis using un [OF False] y q by (simp add: untouched_def queues_ok_def)
    qed
  next
    fix y assume y: "y \<in> set (decoding u)"
    show "decoding_ok (sq u y)"
    proof (cases "y \<in> fst ` set xts")
      case True
      then obtain r where "(y, r) \<in> set xts" by force
      then show ?thesis using each y unfolding settled_seq_def by blast
    next
      case False
      then show ?thesis using un [OF False] y q by (simp add: untouched_def queues_ok_def)
    qed
  qed
  moreover have "inj_on (\<lambda>x. seq_id (sq u x)) (held u)"
    unfolding ids using inj lv by (rule inj_on_subset)
  moreover have "distinct (waiting u @ decoding u)" using b by (simp add: batch_settled_def)
  ultimately show "sched_ok u" by (intro sched_okI)
qed

text \<open>
  One step: the invariant holds afterwards, no request leaves the queues unfinished, and the
  completion of every request grows by exactly what the step publishes under its identity.
\<close>

lemma engine_step_spec:
  assumes run: "engine_step M C R s = (Inr (outs, fin), t)" and ok: "sched_ok s" and R: "runner_ok R"
  shows "sched_ok t \<and> held t \<subseteq> held s
     \<and> (\<forall>x\<in>held s - held t. (\<exists>r. finished_ok C r (sq t x))
          \<and> (seq_id (sq t x), completion_token_ids (sq t x)) \<in> set fin)
     \<and> (\<forall>x\<in>held s. seq_id (sq t x) = seq_id (sq s x) \<and> prompt_token_ids (sq t x) = prompt_token_ids (sq s x)
          \<and> completion_token_ids (sq t x) = completion_token_ids (sq s x) @ published (seq_id (sq s x)) outs)"
  using run
proof (cases rule: engine_step_cases)
  case (idle batch isp pre s1 s2 ns)
  note b = schedule_batch [OF idle(1) ok idle(3)]
  note r = refresh_sched_ok [OF counts_refresh [OF idle(4)]]
  have d2: "distinct (waiting s2)" using b(1) by simp
  have "sched_ok t" "same_histories s2 t" "held t = held s2" using r [OF d2 b(7) [OF idle(2)]] by auto
  moreover have "same_histories s t" using b(3) \<open>same_histories s2 t\<close> same_histories_trans by blast
  moreover have "held s = held s2" using b(2) idle(2) by simp
  moreover have "seq_id (sq t x) = seq_id (sq s x) \<and> prompt_token_ids (sq t x) = prompt_token_ids (sq s x)
      \<and> completion_token_ids (sq t x) = completion_token_ids (sq s x)" for x
  proof -
    have h: "seq_id (sq t x) = seq_id (sq s x)" "history (sq t x) = history (sq s x)"
      using \<open>same_histories s t\<close> by (simp_all add: same_histories_def)
    then show ?thesis using prompt_same [OF h(2)] history_fields(2) [OF h(2)] by simp
  qed
  ultimately show ?thesis by (simp add: idle(5) published_def)
next
  case (run batch isp pre s1 s2 ts lps tops m u v ns)
  note b = schedule_batch [OF run(1) ok run(3)]
  have len: "length ts = length batch" "\<And>l. lps = Some l \<Longrightarrow> length l = length batch"
    "\<And>l. tops = Some l \<Longrightarrow> length l = length batch"
    using R run(4) unfolding runner_ok_def by (metis length_map)+
  let ?z = "zip batch ts"
  have fz: "fst ` set ?z = set batch" using len(1) by (metis map_fst_zip set_map)
  have bs: "batch_settled C isp ?z s2 u"
  proof -
    have "\<exists>u. postprocess M C batch ts isp lps tops s2 = (Inr (), u) \<and> batch_settled C isp ?z s2 u"
      by (rule postprocess_settled [OF len b(5,1) b(6)])
    then show ?thesis using run(6) by auto
  qed
  have ids: "seq_id (sq s2 x) = seq_id (sq s x)" "history (sq s2 x) = history (sq s x)" for x
    using b(3) by (simp_all add: same_histories_def)
  have inj: "inj_on (\<lambda>x. seq_id (sq s2 x)) (held s2 \<union> fst ` set ?z)"
    unfolding fz ids b(2) [symmetric] by (rule sched_ok_ids [OF ok])
  note pu = postprocess_sched_ok [OF bs b(4) inj]
  note mv = mem_only_sched_ok [OF run(7) pu(1)] and fv = mem_only_fields [OF run(7)]
  have dv: "distinct (waiting v)" using sched_ok_distinct [OF mv(1)] by simp
  note rt = refresh_sched_ok [OF counts_refresh [OF run(9) dv] mv(1)]
  have ht: "seq_id (sq t x) = seq_id (sq u x)" "history (sq t x) = history (sq u x)" for x
    using rt(2) fv(1) by (simp_all add: same_histories_def)
  have lt: "held t = held u" using rt(3) mv(3) by simp
  have sub: "held t \<subseteq> held s" using lt pu(2) b(2) fz by simp
  have each: "settled_seq C isp s2 u x r" if "(x, r) \<in> set ?z" for x r
    using bs that by (auto simp: batch_settled_def)
  have un: "untouched s2 u y" if "y \<notin> set batch" for y using bs that fz by (simp add: batch_settled_def)
  have tok: "seq_id (sq t x) = seq_id (sq s x) \<and> prompt_token_ids (sq t x) = prompt_token_ids (sq s x)
      \<and> completion_token_ids (sq t x) = completion_token_ids (sq s x) @ published (seq_id (sq s x)) outs"
    if x: "x \<in> held s" for x
  proof (cases "x \<in> set batch")
    case True
    then obtain r where r: "(x, r) \<in> set ?z" using fz by force
    have "distinct (map (\<lambda>x. seq_id (sq s2 x)) batch)"
      using inj fz b(5) by (simp add: distinct_map inj_on_Un)
    moreover have "map (\<lambda>(x, t). seq_id (sq s2 x)) ?z = map (\<lambda>x. seq_id (sq s2 x)) batch"
    proof -
      have "map (\<lambda>(x, t). seq_id (sq s2 x)) ?z = map (\<lambda>x. seq_id (sq s2 x)) (map fst ?z)"
        by (simp add: case_prod_beta')
      then show ?thesis using len(1) by (simp add: map_fst_zip)
    qed
    ultimately have "published (seq_id (sq s2 x)) outs = (if publishes isp (sq s2 x) = Inr True then [r] else [])"
      using published_batch [OF run(5) _ r] by simp
    then show ?thesis
      using each [OF r] ids [of x] prompt_same [OF ids(2)] history_fields(2) [OF ids(2)]
        prompt_same [OF ht(2)] history_fields(2) [OF ht(2)] ht(1)
      by (simp add: settled_seq_def)
  next
    case False
    have "seq_id (sq s2 x) \<notin> (\<lambda>x. seq_id (sq s2 x)) ` fst ` set ?z"
      using inj False x b(2) fz unfolding inj_on_def by blast
    then have "published (seq_id (sq s x)) outs = []" using published_absent [OF run(5)] ids by simp
    then show ?thesis
      using un [OF False] ids [of x] prompt_same [OF ids(2)] history_fields(2) [OF ids(2)]
        prompt_same [OF ht(2)] history_fields(2) [OF ht(2)] ht(1)
      by (simp add: untouched_def)
  qed
  have fins: "(\<exists>r. finished_ok C r (sq t x)) \<and> (seq_id (sq t x), completion_token_ids (sq t x)) \<in> set fin"
    if x: "x \<in> held s - held t" for x
  proof -
    have nl: "x \<notin> held u" "x \<in> held s2 \<union> set batch" using x lt b(2) by auto
    have xb: "x \<in> set batch"
    proof (rule ccontr)
      assume "x \<notin> set batch"
      then show False using un nl by (auto simp: untouched_def held_def)
    qed
    then obtain r where r: "(x, r) \<in> set ?z" using fz by force
    have f: "finished_ok C r (sq u x)" using each [OF r] nl by (auto simp: settled_seq_def held_def)
    have xt: "sq t x = sq v x"
    proof -
      have "x \<notin> set (waiting v)" using nl(1) mv(3) by (auto simp: held_def)
      then show ?thesis using counts_refresh [OF run(9) dv] by (auto simp: after_refresh_def)
    qed
    have "x \<in> set (finished_of batch v)" using xb f fv(1) by (simp add: finished_of_def finished_ok_def)
    then have "(seq_id (sq t x), completion_token_ids (sq t x)) \<in> set fin" using xt run(8) by auto
    moreover have "finished_ok C r (sq t x)" using f xt fv(1) by simp
    ultimately show ?thesis by blast
  qed
  show ?thesis using rt(1) sub tok fins by blast
qed

end

section \<open>Arrivals and aborts\<close>

definition fresh_request :: "seq \<Rightarrow> bool" where
  "fresh_request q \<longleftrightarrow> (\<exists>sid ts sp. q = make_seq sid ts sp \<and> ts \<noteq> [] \<and> 0 < max_tokens sp)"

lemma fresh_queued: "fresh_request q \<Longrightarrow> queued_ok q \<and> completion_token_ids q = []"
proof -
  assume "fresh_request q"
  then obtain sid ts sp where q: "q = make_seq sid ts sp" "ts \<noteq> []" "0 < max_tokens sp"
    by (auto simp: fresh_request_def)
  have "seq_ok q" using q(1) seq_ok_make by simp
  moreover have "status q = WAITING" "num_prefilled_tokens q = 0" "num_prompt_tokens q = int (length ts)"
    "recompute_replay_cursor q = None" "num_completion_tokens q = 0" "sampling q = sp"
    "prefix_cache_hit_len q = 0" "seq_tokens q = ts"
    by (simp_all add: q(1) make_seq_def num_completion_tokens_def)
  ultimately show ?thesis
    using q(2,3) by (simp add: queued_ok_def fresh_or_replay_def hit_valid_def completion_token_ids_def)
qed

lemma arrive_ok:
  assumes ok: "sched_ok s" and q: "fresh_request q" and x: "x \<notin> held s"
    and id: "seq_id q \<notin> (\<lambda>y. seq_id (sq s y)) ` held s"
  defines "t \<equiv> add_seq x (set_seq x (\<lambda>_. q) s)"
  shows "sched_ok t" "held t = insert x (held s)"
    "\<And>y. sq t y = (if y = x then q else sq s y)"
proof -
  have f: "waiting t = waiting s @ [x]" "decoding t = decoding s"
    by (simp_all add: t_def add_seq_def set_seq_def)
  show sqt: "\<And>y. sq t y = (if y = x then q else sq s y)" by (simp add: t_def add_seq_def set_seq_def)
  show lv: "held t = insert x (held s)" by (auto simp: held_def f)
  have "distinct (waiting t @ decoding t)" using sched_ok_distinct [OF ok] x by (auto simp: f held_def)
  moreover have "inj_on (\<lambda>y. seq_id (sq t y)) (held t)"
  proof -
    have same: "seq_id (sq t y) = seq_id (sq s y)" if "y \<in> held s" for y
      using that x sqt [of y] by (cases "y = x") simp_all
    have "inj_on (\<lambda>y. seq_id (sq t y)) (held s) = inj_on (\<lambda>y. seq_id (sq s y)) (held s)"
      by (rule inj_on_cong [OF same])
    then have i: "inj_on (\<lambda>y. seq_id (sq t y)) (held s)" using sched_ok_ids [OF ok] by (simp only:)
    have im: "(\<lambda>y. seq_id (sq t y)) ` held s = (\<lambda>y. seq_id (sq s y)) ` held s"
      by (rule image_cong [OF refl same])
    have new: "seq_id (sq t x) = seq_id q" by (simp add: sqt)
    have d: "held s - {x} = held s" using x by blast
    show ?thesis unfolding lv inj_on_insert d new im by (rule conjI [OF i id])
  qed
  moreover have "queues_ok t"
  proof -
    have old: "queues_ok s" using ok by (simp add: sched_ok_def)
    have same: "sq t y = sq s y" if "y \<in> held s" for y
      using that x sqt [of y] by (cases "y = x") simp_all
    have new: "queued_ok (sq t x) \<and> completion_token_ids (sq t x) = []"
      using fresh_queued [OF q] sqt [of x] by simp
    show ?thesis using old same new unfolding queues_ok_def f held_def by simp
  qed
  ultimately show "sched_ok t" by (rule sched_okI)
qed

lemma abort_cases:
  "(\<exists>x\<in>held s. seq_id (sq s x) = sid \<and> held (snd (abort M sid s)) \<subseteq> held s
      \<and> mset (waiting (snd (abort M sid s)) @ decoding (snd (abort M sid s))) \<subseteq># mset (waiting s @ decoding s)
      \<and> (sched_ok s \<longrightarrow> x \<notin> held (snd (abort M sid s)))
      \<and> status (sq (snd (abort M sid s)) x) = FINISHED
      \<and> fst (abort M sid s) = (0 < num_prefilled_tokens (sq s x) \<or> x \<notin> set (waiting s))
      \<and> set (waiting (snd (abort M sid s))) \<subseteq> set (waiting s)
      \<and> set (decoding (snd (abort M sid s))) \<subseteq> set (decoding s)
      \<and> (\<forall>y. y \<noteq> x \<longrightarrow> sq (snd (abort M sid s)) y = sq s y))
   \<or> (\<forall>x\<in>held s. seq_id (sq s x) \<noteq> sid) \<and> abort M sid s = (False, s)"
proof (cases "find (\<lambda>x. seq_id (sq s x) = sid) (waiting s)")
  case (Some x)
  then have x: "x \<in> set (waiting s)" "seq_id (sq s x) = sid" by (auto simp: find_Some_iff)
  let ?t = "snd (abort M sid s)"
  have f: "waiting ?t = remove1 x (waiting s)" "decoding ?t = decoding s"
    "sq ?t = (sq s)(x := (sq s x)\<lparr>status := FINISHED\<rparr>)" "fst (abort M sid s) = (0 < num_prefilled_tokens (sq s x))"
    using Some x by (simp_all add: abort_def abort_found_def set_seq_def Let_def)
  have "mset (waiting ?t @ decoding ?t) \<subseteq># mset (waiting s @ decoding s)"
    unfolding f using x by (simp add: diff_subset_eq_self)
  moreover have "sched_ok s \<longrightarrow> x \<notin> held ?t"
    using sched_ok_distinct [of s] x f by (auto simp: held_def)
  moreover have "set (remove1 x (waiting s)) \<subseteq> set (waiting s)" by (rule set_remove1_subset)
  ultimately show ?thesis using x f by (auto simp: held_def)
next
  case None
  then have nw: "\<forall>x\<in>set (waiting s). seq_id (sq s x) \<noteq> sid" by (auto simp: find_None_iff)
  show ?thesis
  proof (cases "find (\<lambda>x. seq_id (sq s x) = sid) (decoding s)")
    case (Some x)
    then have x: "x \<in> set (decoding s)" "seq_id (sq s x) = sid" by (auto simp: find_Some_iff)
    let ?t = "snd (abort M sid s)"
    have f: "waiting ?t = waiting s" "decoding ?t = remove1 x (decoding s)"
      "sq ?t = (sq s)(x := (sq s x)\<lparr>status := FINISHED\<rparr>)" "fst (abort M sid s)"
      using None Some x by (simp_all add: abort_def abort_found_def set_seq_def Let_def)
    have xw: "x \<notin> set (waiting s)" using nw x by auto
    have "mset (waiting ?t @ decoding ?t) \<subseteq># mset (waiting s @ decoding s)"
      unfolding f using x by (simp add: diff_subset_eq_self)
    moreover have "sched_ok s \<longrightarrow> x \<notin> held ?t"
      using sched_ok_distinct [of s] x xw f by (auto simp: held_def)
    moreover have "set (remove1 x (decoding s)) \<subseteq> set (decoding s)" by (rule set_remove1_subset)
    ultimately show ?thesis using x xw f by (auto simp: held_def)
  next
    case no: None
    then have "\<forall>x\<in>held s. seq_id (sq s x) \<noteq> sid" using nw by (auto simp: find_None_iff held_def)
    moreover have "abort M sid s = (False, s)" using None no by (simp add: abort_def)
    ultimately show ?thesis by blast
  qed
qed

lemma abort_ok:
  assumes ok: "sched_ok s"
  shows "sched_ok (snd (abort M sid s))" "held (snd (abort M sid s)) \<subseteq> held s"
    "\<And>y. y \<in> held (snd (abort M sid s)) \<Longrightarrow> sq (snd (abort M sid s)) y = sq s y"
proof -
  let ?t = "snd (abort M sid s)"
  consider (none) "?t = s" | (some) x where "x \<in> held s" "held ?t \<subseteq> held s"
    "mset (waiting ?t @ decoding ?t) \<subseteq># mset (waiting s @ decoding s)" "x \<notin> held ?t"
    "set (waiting ?t) \<subseteq> set (waiting s)" "set (decoding ?t) \<subseteq> set (decoding s)"
    "\<forall>y. y \<noteq> x \<longrightarrow> sq ?t y = sq s y"
    using abort_cases [where s = s and sid = sid and M = M] ok by (metis snd_conv)
  then have "sched_ok ?t \<and> held ?t \<subseteq> held s \<and> (\<forall>y\<in>held ?t. sq ?t y = sq s y)"
  proof cases
    case none
    then show ?thesis using ok by simp
  next
    case some
    have sqt: "\<forall>y\<in>held ?t. sq ?t y = sq s y" using some(4,7) by metis
    have "distinct (waiting ?t @ decoding ?t)"
      using distinct_submset [OF some(3)] sched_ok_distinct [OF ok] by blast
    moreover have "inj_on (\<lambda>y. seq_id (sq ?t y)) (held ?t)"
      using inj_on_subset [OF sched_ok_ids [OF ok] some(2)] sqt by (simp add: inj_on_def)
    moreover have "queues_ok ?t"
      using ok sqt some(5,6) by (auto simp: queues_ok_def sched_ok_def held_def)
    ultimately have "sched_ok ?t" by (rule sched_okI)
    then show ?thesis using some(2) sqt by blast
  qed
  then show "sched_ok ?t" "held ?t \<subseteq> held s" "\<And>y. y \<in> held ?t \<Longrightarrow> sq ?t y = sq s y" by blast+
qed

section \<open>Reachable states\<close>

text \<open>
  A run of the engine with the log of everything it has published. Sequence identities come
  from a counter, so an arriving request has one that was never used.
\<close>

inductive engine_trace ::
    "('m, 'k) memory_oracle \<Rightarrow> sched_config \<Rightarrow> 'm runner \<Rightarrow> 'm sched \<Rightarrow> (int \<times> int list) list \<Rightarrow> bool"
  for M C R where
  start: "engine_trace M C R (make_scheduler m q) []"
| arrive: "engine_trace M C R s lg \<Longrightarrow> fresh_request q \<Longrightarrow> x \<notin> held s \<Longrightarrow>
    seq_id q \<notin> (\<lambda>y. seq_id (sq s y)) ` held s \<Longrightarrow> seq_id q \<notin> fst ` set lg \<Longrightarrow>
    engine_trace M C R (add_seq x (set_seq x (\<lambda>_. q) s)) lg"
| leave: "engine_trace M C R s lg \<Longrightarrow> engine_trace M C R (snd (abort M sid s)) lg"
| memory: "engine_trace M C R s lg \<Longrightarrow> engine_trace M C R (s\<lparr>mem := m\<rparr>) lg"
| step: "engine_trace M C R s lg \<Longrightarrow> engine_step M C R s = (Inr (outs, fin), t) \<Longrightarrow>
    engine_trace M C R t (lg @ outs)"

definition trace_ok :: "'m sched \<Rightarrow> (int \<times> int list) list \<Rightarrow> bool" where
  "trace_ok s lg \<longleftrightarrow> sched_ok s
     \<and> (\<forall>x\<in>held s. completion_token_ids (sq s x) = published (seq_id (sq s x)) lg)"

lemma published_append: "published sid (a @ b) = published sid a @ published sid b"
  by (simp add: published_def)

lemma published_unused: "sid \<notin> fst ` set lg \<Longrightarrow> published sid lg = []"
  by (induction lg) (auto simp: published_def)

context oracle_laws
begin

lemma trace_invariant:
  assumes "engine_trace M C R s lg" "runner_ok R"
  shows "trace_ok s lg"
  using assms(1)
proof (induction rule: engine_trace.induct)
  case (start m q)
  show ?case by (simp add: trace_ok_def sched_ok_def queues_ok_def make_scheduler_def held_def)
next
  case (arrive s lg q x)
  have ok: "sched_ok s" using arrive.IH by (simp add: trace_ok_def)
  note a = arrive_ok [OF ok arrive.hyps(2-4)]
  show ?case
    using arrive.IH a fresh_queued [OF arrive.hyps(2)] published_unused [OF arrive.hyps(5)] arrive.hyps(3)
    by (auto simp: trace_ok_def)
next
  case (leave s lg sid)
  then show ?case using abort_ok [where s = s and M = M and sid = sid] by (auto simp: trace_ok_def)
next
  case (memory s lg m)
  then show ?case by (simp add: trace_ok_def sched_ok_def queues_ok_def held_def)
next
  case (step s lg outs fin t)
  have ok: "sched_ok s" using step.IH by (simp add: trace_ok_def)
  have sp: "sched_ok t" "held t \<subseteq> held s"
    "\<forall>x\<in>held s. seq_id (sq t x) = seq_id (sq s x)
      \<and> completion_token_ids (sq t x) = completion_token_ids (sq s x) @ published (seq_id (sq s x)) outs"
    using engine_step_spec [OF step.hyps(2) ok assms(2)] by blast+
  show ?case
    unfolding trace_ok_def
  proof (intro conjI ballI)
    show "sched_ok t" by (rule sp(1))
    fix x assume "x \<in> held t"
    then have x: "x \<in> held s" using sp(2) by blast
    then show "completion_token_ids (sq t x) = published (seq_id (sq t x)) (lg @ outs)"
      using sp(3) step.IH by (simp add: trace_ok_def published_append)
  qed
qed

lemma trace_finished:
  assumes tr: "engine_trace M C R s lg" and R: "runner_ok R"
    and st: "engine_step M C R s = (Inr (outs, fin), t)" and x: "x \<in> held s" "x \<notin> held t"
  defines "answer \<equiv> published (seq_id (sq s x)) (lg @ outs)"
  shows "(seq_id (sq s x), answer) \<in> set fin"
    "answer \<noteq> [] \<and> int (length answer) \<le> max_tokens (sampling (sq t x)) \<and> stops C (last answer) (sq t x)"
proof -
  have ok: "trace_ok s lg" using tr R by (rule trace_invariant)
  then have so: "sched_ok s" by (simp add: trace_ok_def)
  note sp = engine_step_spec [OF st so R]
  have tok: "seq_id (sq t x) = seq_id (sq s x)"
    "completion_token_ids (sq t x) = completion_token_ids (sq s x) @ published (seq_id (sq s x)) outs"
    using sp x(1) by blast+
  have fo: "(\<exists>r. finished_ok C r (sq t x)) \<and> (seq_id (sq t x), completion_token_ids (sq t x)) \<in> set fin"
    using sp x by blast
  have c: "completion_token_ids (sq t x) = answer"
    using tok ok x(1) by (simp add: trace_ok_def published_append answer_def)
  show "(seq_id (sq s x), answer) \<in> set fin" using fo c tok by simp
  obtain r where r: "finished_ok C r (sq t x)" using fo by blast
  then obtain as where "answer = as @ [r]" using c by (auto simp: finished_ok_def)
  then show "answer \<noteq> [] \<and> int (length answer) \<le> max_tokens (sampling (sq t x)) \<and> stops C (last answer) (sq t x)"
    using r c completion_length [of "sq t x"] by (simp add: finished_ok_def)
qed

end

end
