(* ===== verification/Scheduler_Batches.thy ===== *)
theory Scheduler_Batches
  imports Engine_Reach
begin

text \<open>
  What a scheduled batch looks like from outside: the three outcomes of a scheduling step
  (prefill batch, decode batch, preemption) with the limits each of them keeps.
\<close>

text \<open>Without a prefill batch the step is a decode batch or a preemption.\<close>

lemma schedule_decode:
  assumes run: "schedule M C s = (Inr (batch, False, pre), t)" and d: "distinct (waiting s)" "distinct (decoding s)"
  obtains (batch) s1 where "pre = []" "decoding s1 = decoding s" "mset (waiting s1) = mset (waiting s)"
      "\<forall>x\<in>set (decoding s). x \<notin> set (waiting s) \<longrightarrow> sq s1 x = sq s x"
      "decode_result M C (max 0 (decode_step_free_slots M (mem s))) s1 batch t"
  | (preempt) v s2 where "pre = [v]" "batch = []" "mset (decoding s) = add_mset v (mset (decoding s2))"
      "mset (waiting s2) = mset (waiting s)" "v \<notin> set (decoding s2)"
      "\<forall>x\<in>set (decoding s). x \<notin> set (waiting s) \<longrightarrow> sq s2 x = sq s x"
      "\<forall>x. x \<notin> set (waiting s) \<longrightarrow> sq s2 x = sq s x"
      "preempt_decode_victim M v [] s2 = (Inr ([], False, [v]), t)"
  using run d(1)
proof (cases rule: schedule_cases)
  case (prefill s0 md L)
  then show thesis by simp
next
  case (decode s0 md L s1)
  have q: "mset (waiting s1) = mset (waiting s)" "decoding s1 = decoding s"
    using decode(1-3) by (simp_all add: batch_inv_def after_refresh_def batch_queues_def)
  have keep: "sq s1 x = sq s x" if "x \<notin> set (waiting s)" for x
  proof -
    have "sq s1 x = sq s0 x" using decode(2,3) by (simp add: batch_inv_def)
    also have "sq s0 x = sq s x" using decode(1) that by (simp add: after_refresh_def)
    finally show ?thesis .
  qed
  have L: "blocked_decode_victim L = None" "num_batched_seqs L = 0"
    "decode_logical_free_count L = max 0 (decode_step_free_slots M (mem s))"
    using decode(2,3) by (simp_all add: batch_inv_def batch_counts_def)
  have d1: "distinct (decoding s1)" using d(2) q by simp
  from decode_phase_cases [OF decode(4) d1 decode(3) L]
  consider (b) "pre = []" "decode_result M C (max 0 (decode_step_free_slots M (mem s))) s1 batch t"
    | (p) v s2 where "pre = [v]" "batch = []" "mset (decoding s1) = add_mset v (mset (decoding s2))"
      "s2 = s1\<lparr>decoding := decoding s2\<rparr>" "preempt_decode_victim M v [] s2 = (Inr ([], False, [v]), t)"
    by auto
  then show thesis
  proof cases
    case b
    then show thesis using batch [OF b(1) q(2,1)] keep by blast
  next
    case p
    have "v \<notin> set (decoding s2)" using d1 p(3)
      by (metis distinct.simps(2) mset.simps(2) mset_eq_imp_distinct_iff)
    moreover have "waiting s2 = waiting s1" "sq s2 = sq s1"
      using p(4) by (metis sched.ext_inject sched.surjective sched.update_convs(4))+
    ultimately show thesis using preempt [OF p(1,2)] p(3,5) q keep by auto
  qed
qed

text \<open>The limits of a decode batch, stated over the state the step returns.\<close>

definition decode_batch_ok ::
    "('m, 'k) memory_oracle \<Rightarrow> sched_config \<Rightarrow> int \<Rightarrow> nat list \<Rightarrow> 'm sched \<Rightarrow> bool" where
  "decode_batch_ok M C free batch t \<longleftrightarrow>
     int (length batch) \<le> max 0 (max_decoding_seqs C)
     \<and> (\<Sum>x\<leftarrow>batch. decode_step_reservation_cost M (mem t) (sq t x)) \<le> free
     \<and> (\<forall>x\<in>set batch. decode_step_reservation_cost M (mem t) (sq t x)
          \<le> decode_step_free_slots_for M (mem t) (sq t x))
     \<and> (\<forall>x\<in>set batch. is_long_text C (sq t x) False = Inr True \<longrightarrow>
          (\<forall>y\<in>set (decoding t). is_long_text C (sq t y) False = Inr True))"

lemma decode_result_batch_ok:
  assumes r: "decode_result M C free s1 batch t"
  shows "decode_batch_ok M C free batch t"
proof -
  note r' = r [unfolded decode_result_def]
  have "t = s1\<lparr>decoding := decoding t\<rparr>" using r' by blast
  then have f: "sq t = sq s1" "mem t = mem s1"
    by (metis sched.ext_inject sched.surjective sched.update_convs(4))+
  have ds: "set (decoding t) = set (decoding s1)" using r' mset_eq_setD by blast
  have "int (length batch) \<le> max 0 (max_decoding_seqs C)" using r' by (cases "batch = []") auto
  then show ?thesis
    using r' unfolding decode_batch_ok_def f ds decode_costs_def by blast
qed

lemma schedule_prefill:
  assumes run: "schedule M C s = (Inr (batch, True, pre), t)" and d: "distinct (waiting s)" "distinct (decoding s)"
  obtains s0 k L where "after_refresh M s s0" "batch_inv M C (max 0 (decode_step_free_slots M (mem s))) k s0 L t"
      "batch = scheduled_seqs L" "batch \<noteq> []" "mem_path M (mem s) (mem s0)"
      "decoding s = [] \<or> (\<forall>x\<in>set (waiting s). \<not> is_replay s x)"
  using run d(1)
proof (cases rule: schedule_cases)
  case (prefill s0 md L)
  then show thesis using that by blast
next
  case (decode s0 md L s1)
  have q: "decoding s1 = decoding s"
    using decode(1-3) by (simp_all add: batch_inv_def after_refresh_def batch_queues_def)
  have L: "blocked_decode_victim L = None" "num_batched_seqs L = 0"
    "decode_logical_free_count L = max 0 (decode_step_free_slots M (mem s))"
    using decode(2,3) by (simp_all add: batch_inv_def batch_counts_def)
  have d1: "distinct (decoding s1)" using d(2) q by simp
  have "\<not> True" using decode_phase_cases [OF decode(4) d1 decode(3) L] by auto
  then show thesis by simp
qed

definition prefill_batch_ok ::
    "('m, 'k) memory_oracle \<Rightarrow> sched_config \<Rightarrow> string \<times> 'k \<Rightarrow> 'm sched \<Rightarrow> nat list \<Rightarrow> 'm sched \<Rightarrow> bool" where
  "prefill_batch_ok M C k s batch t \<longleftrightarrow>
     batch_tokens t batch \<le> max_num_batched_tokens C
     \<and> (if fst k = RAW_OFFLOAD then length batch = 1 else int (length batch) \<le> max_num_seqs_in_batch C)
     \<and> (\<forall>x\<in>set batch. \<exists>q. refreshed M (sq s x) q \<and> chunk_ok M C k (mem s) q (sq t x))
     \<and> ((\<exists>x\<in>set batch. is_replay t x) \<longrightarrow> length batch = 1)
     \<and> ((\<exists>x\<in>set (waiting t). is_replay t x) \<longrightarrow> (\<forall>x\<in>set batch. is_replay t x))"

lemma chunk_ok_path: "chunk_ok M C k m1 q0 q \<Longrightarrow> mem_path M m0 m1 \<Longrightarrow> chunk_ok M C k m0 q0 q"
  unfolding chunk_ok_def by (elim exE conjE) (intro exI conjI, rule mem_path_trans)

lemma prefill_batch_ok_inv:
  assumes r: "after_refresh M s s0" and b: "batch_inv M C df k s0 L t" and ne: "scheduled_seqs L \<noteq> []"
    and path: "mem_path M (mem s) (mem s0)"
  shows "prefill_batch_ok M C k s (scheduled_seqs L) t"
proof -
  note i = b [unfolded batch_inv_def batch_counts_def batch_queues_def batch_replay_def]
  have "mset (waiting t) + mset (scheduled_seqs L) = mset (waiting s0)" using i by blast
  then have sub: "set (scheduled_seqs L) \<subseteq> set (waiting s0)" "set (waiting t) \<subseteq> set (waiting s0)"
    by (metis Un_upper2 set_mset_mset set_mset_union, metis Un_upper1 set_mset_mset set_mset_union)
  have w: "waiting s0 = waiting s" using r by (simp add: after_refresh_def)
  have ref: "refreshed M (sq s x) (sq s0 x)" if "x \<in> set (scheduled_seqs L)" for x
    using r sub(1) that w by (auto simp: after_refresh_def)
  have chunk: "chunk_ok M C k (mem s) (sq s0 x) (sq t x)" if "x \<in> set (scheduled_seqs L)" for x
    using i that chunk_ok_path [OF _ path] by metis
  have tok: "batch_tokens t (scheduled_seqs L) \<le> max_num_batched_tokens C" using i ne by metis
  have num: "if fst k = RAW_OFFLOAD then length (scheduled_seqs L) = 1
      else int (length (scheduled_seqs L)) \<le> max_num_seqs_in_batch C"
  proof (cases "fst k = RAW_OFFLOAD")
    case True
    then have "length (scheduled_seqs L) \<le> 1" using i by simp
    moreover have "0 < length (scheduled_seqs L)" using ne by simp
    ultimately have "length (scheduled_seqs L) = 1" by linarith
    then show ?thesis using True by simp
  next
    case False
    then show ?thesis using i ne by simp
  qed
  have rp: "is_replay t x = is_replay s0 x" for x by (rule batch_inv_replay [OF b])
  have rep: "((\<exists>x\<in>set (scheduled_seqs L). is_replay s0 x) \<longrightarrow> length (scheduled_seqs L) = 1)
     \<and> ((\<exists>x\<in>set (waiting s0). is_replay s0 x) \<longrightarrow> (\<forall>x\<in>set (scheduled_seqs L). is_replay s0 x))"
    using i by blast
  show ?thesis
    unfolding prefill_batch_ok_def rp using tok num ref chunk rep sub(2) by blast
qed

text \<open>A preempted request goes back to the end of the waiting queue with its accepted tokens.\<close>

context oracle_laws
begin

lemma preempt_victim:
  assumes run: "schedule M C s = (Inr (batch, isp, [v]), t)" and ok: "sched_ok s"
  shows "batch = [] \<and> \<not> isp \<and> v \<in> set (decoding s) \<and> v \<notin> set (decoding t)
    \<and> last (waiting t) = v \<and> waiting t \<noteq> []
    \<and> status (sq t v) = WAITING \<and> num_prefilled_tokens (sq t v) = 0 \<and> prefix_cache_hit_len (sq t v) = 0
    \<and> seq_tokens (sq t v) = seq_tokens (sq s v) \<and> num_prompt_tokens (sq t v) = num_prompt_tokens (sq s v)
    \<and> recompute_replay_cursor (sq t v) = Some 0
    \<and> (decoding t \<noteq> [] \<or> decode_progress_checkpoint (sq s v) < num_completion_tokens (sq s v))"
proof -
  note dd = sched_ok_distinct [OF ok]
  have d: "distinct (waiting s)" "distinct (decoding s)" using dd by blast+
  have ni: "\<not> isp" using schedule_queues [OF run d] by (cases isp) auto
  then have run': "schedule M C s = (Inr (batch, False, [v]), t)" using run by simp
  show ?thesis
    using run' d
  proof (cases rule: schedule_decode)
    case (batch s1)
    then show ?thesis by simp
  next
    case (preempt w s2)
    have w: "w = v" using preempt(1) by simp
    note pr = preempt_run [OF preempt(8,5)]
    have vin: "v \<in> set (decoding s)" using preempt(3) w by (metis set_mset_mset union_single_eq_member add_mset_add_single union_commute)
    have vq: "sq s2 v = sq s v" using preempt(6) vin dd by auto
    have dec: "decoding_ok (sq s v)" using ok vin by (simp add: sched_ok_def queues_ok_def)
    then have c: "0 < num_completion_tokens (sq s v)" by (simp add: decoding_ok_def)
    obtain k where k: "sq t v = fst (oracle_clear_prefix_cache_hit M (preempted_seq (sq s2 v)) k)"
      using pr(5) w by blast
    have tv: "sq t v = clear_prefix_cache_hit (preempted_seq (sq s v))"
      unfolding k vq by (rule clear_hit)
    have q: "queued_ok (sq t v)" unfolding tv by (rule preempted_queued [OF dec])
    have h: "history (sq t v) = history (sq s v)" unfolding tv by (rule preempted_history)
    have f: "num_prefilled_tokens (sq t v) = 0" "recompute_replay_cursor (sq t v) = Some 0"
      "prefix_cache_hit_len (sq t v) = 0"
      unfolding tv preempted_form [OF c] by (simp_all add: clear_prefix_cache_hit_def)
    have wt: "waiting t = waiting s2 @ [v]" "decoding t = decoding s2" using pr(2,3) w by simp_all
    have prog: "decoding t \<noteq> [] \<or> decode_progress_checkpoint (sq s v) < num_completion_tokens (sq s v)"
      using pr(7) c vq w wt by auto
    show ?thesis
      using preempt(2) ni vin wt preempt(5) w q f prog history_fields(4,6) [OF h] by (simp add: queued_ok_def)
  qed
qed

end

end
