(* ===== verification/Examples.thy ===== *)
theory Examples
  imports Prefix_System Scheduler_Batches Method_Registry Prefix_Prune
begin

text \<open>
  Concrete values on which the properties are instantiated: a request of three prompt tokens
  that asks for two, a configuration, a runner that always samples the token 7, and the states
  the engine goes through with them.
\<close>

definition ex_params :: sampling_params where
  "ex_params = \<lparr>temperature = Fin 0, top_p = Fin 1, top_k = 0, presence_penalty = Fin 0,
     repetition_penalty = Fin 1, max_tokens = 2, ignore_eos = False, eos_token_ids = [],
     logprobs = None\<rparr>"

definition ex_config :: sched_config where
  "ex_config = \<lparr>max_num_seqs_in_batch = 4, max_num_batched_tokens = 64, max_decoding_seqs = 4,
     engine_prefill_chunk_size = 16, config_sparse_method = [], sink_keep_tokens = 4,
     recent_keep_tokens = 8, decode_keep_tokens = 16, sched_eos_token_ids = [0]\<rparr>"

definition ex_memory :: base_memory where
  "ex_memory = \<lparr>free_slots = 100, raw_offload_prefill_phases = []\<rparr>"

definition ex_runner :: "base_memory runner" where
  "ex_runner = \<lparr>run_model = (\<lambda>qs is_prefill m. (Inr (map (\<lambda>_. 7) qs, None, None), m)),
     free_slots_batch = (\<lambda>ids m. m), finish_slots_batch = (\<lambda>ids m. m)\<rparr>"

definition ex_request :: seq where
  "ex_request = make_seq 5 [1, 2, 3] ex_params"

definition ex_start :: "base_memory sched" where
  "ex_start = add_seq 0 (set_seq 0 (\<lambda>_. ex_request) (make_scheduler ex_memory (\<lambda>_. ex_request)))"

definition ex_step :: "base_memory sched \<Rightarrow> base_memory sched" where
  "ex_step s = snd (engine_step base_oracle ex_config ex_runner s)"

lemma ex_runner_ok: "runner_ok ex_runner"
  by (simp add: runner_ok_def ex_runner_def)

lemma ex_request_fresh: "fresh_request ex_request"
  unfolding fresh_request_def by (intro exI [of _ 5] exI [of _ "[1, 2, 3]"] exI [of _ ex_params])
    (simp add: ex_request_def ex_params_def)

lemma pair_split: "fst p = a \<Longrightarrow> p = (a, snd p)"
  by (cases p) simp

lemma ex_first_step:
  "engine_step base_oracle ex_config ex_runner ex_start = (Inr ([(5, [7])], []), ex_step ex_start)"
  unfolding ex_step_def by (rule pair_split) code_simp

lemma ex_second_step:
  "engine_step base_oracle ex_config ex_runner (ex_step ex_start)
     = (Inr ([(5, [7])], [(5, [7, 7])]), ex_step (ex_step ex_start))"
  unfolding ex_step_def [of "ex_step ex_start"] by (rule pair_split) code_simp

lemma ex_start_trace: "engine_trace base_oracle ex_config ex_runner ex_start []"
  unfolding ex_start_def
  by (rule engine_trace.arrive [OF engine_trace.start ex_request_fresh])
    (simp_all add: held_def make_scheduler_def)

lemma ex_trace1: "engine_trace base_oracle ex_config ex_runner (ex_step ex_start) [(5, [7])]"
  using engine_trace.step [OF ex_start_trace ex_first_step] by simp

lemma ex_trace1_ok: "sched_ok (ex_step ex_start)"
  using oracle_laws.trace_invariant [OF base_oracle_laws ex_trace1 ex_runner_ok] by (simp add: trace_ok_def)

lemma ex_schedule:
  "schedule base_oracle ex_config ex_start
     = (Inr ([0], True, []), snd (schedule base_oracle ex_config ex_start))"
  by (rule pair_split) code_simp

lemma ex_schedule_decode:
  "schedule base_oracle ex_config (ex_step ex_start)
     = (Inr ([0], False, []), snd (schedule base_oracle ex_config (ex_step ex_start)))"
  by (rule pair_split) code_simp

text \<open>The same engine without a free slot: the decoding request is preempted.\<close>

definition ex_two :: "base_memory sched" where
  "ex_two = add_seq 1 (set_seq 1 (\<lambda>_. make_seq 6 [1, 2] ex_params) ex_start)"

definition ex_full :: "base_memory sched" where
  "ex_full = (ex_step ex_two)\<lparr>mem := ex_memory\<lparr>free_slots := 0\<rparr>\<rparr>"

lemma ex_two_trace: "engine_trace base_oracle ex_config ex_runner ex_two []"
proof -
  have "fresh_request (make_seq 6 [1, 2] ex_params)"
    unfolding fresh_request_def by (intro exI [of _ 6] exI [of _ "[1, 2]"] exI [of _ ex_params])
      (simp add: ex_params_def)
  then show ?thesis
    unfolding ex_two_def
    by (rule engine_trace.arrive [OF ex_start_trace])
      (simp_all add: held_def ex_start_def add_seq_def set_seq_def make_scheduler_def ex_request_def make_seq_def)
qed

lemma ex_two_step:
  "engine_step base_oracle ex_config ex_runner ex_two
     = (Inr ([(5, [7]), (6, [7])], []), ex_step ex_two)"
  unfolding ex_step_def by (rule pair_split) code_simp

lemma ex_full_ok: "sched_ok ex_full"
proof -
  have "engine_trace base_oracle ex_config ex_runner (ex_step ex_two) ([] @ [(5, [7]), (6, [7])])"
    by (rule engine_trace.step [OF ex_two_trace ex_two_step])
  then have "engine_trace base_oracle ex_config ex_runner ex_full ([] @ [(5, [7]), (6, [7])])"
    unfolding ex_full_def by (rule engine_trace.memory)
  from oracle_laws.trace_invariant [OF base_oracle_laws this ex_runner_ok] show ?thesis
    by (simp add: trace_ok_def)
qed

lemma ex_full_schedule:
  "schedule base_oracle ex_config ex_full
     = (Inr ([], False, [0]), snd (schedule base_oracle ex_config ex_full))"
  by (rule pair_split) code_simp

section \<open>A prefix index with two blocks\<close>

text \<open>Block 1 hangs below block 0; block 2 would hang below block 1. The index holds two blocks at most.\<close>

definition ex_block :: "bytes \<Rightarrow> bytes option \<Rightarrow> nat \<Rightarrow> block" where
  "ex_block b p i = \<lparr>stable_block_id = b, parent_block_id = p, logical_tokens = 2,
     logical_block_idx = int i, payload = i, token_ids = [1, 2], ref_count = 0, last_access = 0,
     eviction_priority = 0,
     residency = \<lparr>device_present = True, host_present = False, transfer = None\<rparr>, prune_record = None\<rparr>"

definition ex_heap :: "nat \<Rightarrow> block" where
  "ex_heap r = (if r = 0 then ex_block [0] None 0 else if r = 1 then ex_block [1] (Some [0]) 1
     else ex_block [2] (Some [1]) 2)"

definition ex_index0 :: index where
  "ex_index0 = (case make_index 2 [] (Some 2) ex_heap of Inr s \<Rightarrow> s | Inl e \<Rightarrow> undefined)"

definition ex_index1 :: index where
  "ex_index1 = snd (insert_block 0 ex_index0)"

definition ex_index2 :: index where
  "ex_index2 = snd (insert_block 1 ex_index1)"

lemma ex_index0_ok: "index_ok ex_index0"
proof -
  have "\<exists>s. make_index 2 [] (Some 2) ex_heap = Inr s" by (simp add: make_index_def)
  then show ?thesis using index_ok_make by (auto simp: ex_index0_def)
qed

lemma ex_insert0: "get_block ex_index0 (stable_block_id (obj ex_index0 0)) = None"
  "validate (residency (obj ex_index0 0)) = Inr ()" "ref_count (obj ex_index0 0) = 0"
  "max_blocks ex_index0 = Some 2" "int (length (blocks ex_index0)) = 0"
  "insert_admissible ex_index0 (obj ex_index0 0) = Inr ()"
  by code_simp+

lemma ex_index1_ok: "index_ok ex_index1"
proof -
  have "\<exists>t. insert_block 0 ex_index0 = (Inr 0, t) \<and> index_ok t"
    using insert_block_run [OF ex_index0_ok ex_insert0(1,2) _ _ ex_insert0(6)] ex_insert0(3-5) by auto
  then show ?thesis by (auto simp: ex_index1_def)
qed

lemma ex_insert1: "get_block ex_index1 (stable_block_id (obj ex_index1 1)) = None"
  "validate (residency (obj ex_index1 1)) = Inr ()" "ref_count (obj ex_index1 1) = 0"
  "max_blocks ex_index1 = Some 2" "int (length (blocks ex_index1)) = 1"
  "insert_admissible ex_index1 (obj ex_index1 1) = Inr ()"
  by code_simp+

lemma ex_index2_ok: "index_ok ex_index2"
proof -
  have "\<exists>t. insert_block 1 ex_index1 = (Inr 1, t) \<and> index_ok t"
    using insert_block_run [OF ex_index1_ok ex_insert1(1,2) _ _ ex_insert1(6)] ex_insert1(3-5) by auto
  then show ?thesis by (auto simp: ex_index2_def)
qed

text \<open>Both blocks can be freed: the leaf, and its parent after it.\<close>

lemma ex_parents:
  "parent_map (backend ex_index2) [0] = Some None" "parent_map (backend ex_index2) [1] = Some (Some [0])"
  "parent_map (backend ex_index2) [2] = None"
  by code_simp+

lemma ex_blocks: "get_block ex_index2 b = (if b = [0] then Some 0 else if b = [1] then Some 1 else None)"
proof -
  have "blocks ex_index2 = [([0], 0), ([1], 1)]" by code_simp
  then show ?thesis by simp
qed

lemma ex_no_other: "c \<noteq> [0] \<Longrightarrow> c \<noteq> [1] \<Longrightarrow> parent_map (backend ex_index2) c = None"
proof -
  assume c: "c \<noteq> [0]" "c \<noteq> [1]"
  have "map fst (locations (backend ex_index2)) = [[0], [1]]" by code_simp
  then have "set (map fst (locations (backend ex_index2))) = {[0], [1]}" by simp
  then have "c \<notin> fst ` set (locations (backend ex_index2))" using c unfolding set_map by blast
  then have "loc (backend ex_index2) c = None" by (simp add: map_of_eq_None_iff)
  then show ?thesis by (simp only: parent_map_None)
qed

lemma ex_leaf: "parent_map (backend ex_index2) c \<noteq> Some (Some [1])"
  using ex_parents ex_no_other [of c] by (cases "c = [0]"; cases "c = [1]") simp_all

lemma ex_index2_run: "index_run id ex_index2"
proof -
  have "\<exists>s. make_index 2 [] (Some 2) ex_heap = Inr s" by (simp add: make_index_def)
  then have "index_run id ex_index0" using index_run.make by (fastforce simp: ex_index0_def)
  then have "index_run id ex_index1"
    unfolding ex_index1_def using ex_insert0(3) by (intro index_run.insert) simp_all
  then show ?thesis unfolding ex_index2_def using ex_insert1(3) by (intro index_run.insert) simp_all
qed

lemma ex_chain_ids: "\<exists>ids. chain_ids id [] None [[1], [x]] = Inr ids" if "0 \<le> x" "x < 2 ^ 63"
  using that by (simp add: stable_prefix_block_id_def id_input_def pack_q_def)

section \<open>A sequence with accepted tokens and its replay\<close>

definition ex_accepted :: seq where
  "ex_accepted = append_token 9 None None (append_token 8 None None (append_token 7 None None ex_request))"

lemma ex_accepted_ok: "seq_ok ex_accepted"
  unfolding ex_accepted_def ex_request_def by (intro seq_ok_append(1) seq_ok_make)

definition ex_replaying :: seq where
  "ex_replaying = (snd (start_recompute_replay ex_accepted))\<lparr>current_chunk_size := Some 2\<rparr>"

lemma ex_replaying_ok: "seq_ok ex_replaying"
proof -
  have "start_recompute_replay ex_accepted = (Inr (), snd (start_recompute_replay ex_accepted))"
    by (rule pair_split) code_simp
  from seq_ok_start(1) [OF ex_accepted_ok this]
  have ok: "seq_ok (snd (start_recompute_replay ex_accepted))" .
  have "history ex_replaying = history (snd (start_recompute_replay ex_accepted))"
    by (simp add: ex_replaying_def history_def)
  moreover have "num_prefilled_tokens ex_replaying = 0" "current_chunk_size ex_replaying = Some 2"
    "recompute_replay_cursor ex_replaying = Some 0" "0 < num_completion_tokens ex_replaying" by code_simp+
  then have "progress_ok ex_replaying" by (simp add: progress_ok_def)
  ultimately show ?thesis by (rule seq_ok_history [OF ok])
qed

end
