(* ===== verification/Chain_Cache.thy ===== *)
theory Chain_Cache
  imports Prefix_Ids "HOL-Library.Char_ord"
begin

text \<open>
  \<open>engine/chain_cache.py\<close>: the logical lifecycle of chains, the resident and non-branching
  caches of a conversation. A chain is created by a request, is ACTIVE while the request runs,
  IDLE between turns, and leaves a tombstone when it is evicted or invalidated. Records are
  mutable objects that only the index holds, so they are values of its dictionary here.

  SHA-256 is the parameter \<open>H\<close>. The details of a mismatch that only go into its message are left
  out, and so are \<open>new_chain_id\<close> (random) and \<open>build_chain_cache_fingerprint\<close> (JSON text).
\<close>

section \<open>Errors and records\<close>

datatype chain_error =
    ChainNotFound string
  | ChainBusy string
  | ChainPrefixMismatch "string option"
  | ChainFingerprintMismatch string
  | ChainGone string
  | ChainCapacity string
  | ChainOwnerMismatch "string option"
  | Raised py_error

datatype chain_state = ACTIVE | IDLE

record chain_record =
  rec_chain_id :: string
  rec_seq_id :: int
  rec_fingerprint :: bytes
  rec_state :: chain_state
  processed_token_count :: int
  processed_token_digest :: bytes
  history_tokens :: "32 word list"
  last_input_token_count :: int
  rec_last_access :: int
  physical_slots_by_layer :: "int list"
  resident_rows :: int
  rec_reserved_slots :: "int list"
  rec_reserved_rows :: int

record chain_plan =
  plan_chain_id :: string
  plan_seq_id :: int
  plan_status :: string
  plan_reused_tokens :: int
  plan_input_token_count :: int
  victim_chain_ids :: "string list"
  plan_reserved_slots :: "int list"
  plan_reserved_rows :: int

record chain_stats =
  chain_created :: int
  chain_resumed :: int
  chain_finished :: int
  chain_evicted :: int
  chain_invalidated :: int
  chain_prefix_mismatch :: int
  chain_busy :: int

record chain_index =
  max_tombstones :: nat
  max_token_history_tokens :: "int option"
  token_history_tokens :: int
  records :: "(string, chain_record) dict"
  seq_id_to_chain_id :: "(int, string) dict"
  tombstones :: "(string, int) dict"
  chain_clock :: int
  chain_counts :: chain_stats

type_synonym 'a chain_op = "(chain_index, chain_error, 'a) eff"

definition zero_chain_stats :: chain_stats where
  "zero_chain_stats = \<lparr>chain_created = 0, chain_resumed = 0, chain_finished = 0, chain_evicted = 0,
     chain_invalidated = 0, chain_prefix_mismatch = 0, chain_busy = 0\<rparr>"

definition make_chain_index :: "int \<Rightarrow> int option \<Rightarrow> chain_index res" where
  "make_chain_index tombs history =
     (if tombs \<le> 0 then Inl (ValueError ''chain_cache_max_tombstones must be > 0, got '')
      else if (case history of None \<Rightarrow> False | Some m \<Rightarrow> m \<le> 0) then
        Inl (ValueError ''max_token_history_tokens must be > 0 when set, got '')
      else Inr \<lparr>max_tombstones = nat tombs, max_token_history_tokens = history,
        token_history_tokens = 0, records = [], seq_id_to_chain_id = [], tombstones = [],
        chain_clock = 0, chain_counts = zero_chain_stats\<rparr>)"

definition chain_count :: "(chain_stats \<Rightarrow> chain_stats) \<Rightarrow> chain_index \<Rightarrow> chain_index" where
  "chain_count f s = s\<lparr>chain_counts := f (chain_counts s)\<rparr>"

definition set_record :: "string \<Rightarrow> chain_record \<Rightarrow> chain_index \<Rightarrow> chain_index" where
  "set_record c r s = s\<lparr>records := dict_set c r (records s)\<rparr>"

section \<open>Token digests\<close>

text \<open>
  The loop packs the tokens up to \<open>count\<close> and then compares their number with it; a token that
  does not fit eight bytes raises first.
\<close>

definition stable_token_digest ::
    "(bytes \<Rightarrow> bytes) \<Rightarrow> int list \<Rightarrow> int option \<Rightarrow> chain_error + bytes" where
  "stable_token_digest H ts cnt_opt =
     (let seen = (case cnt_opt of None \<Rightarrow> ts | Some c \<Rightarrow> take (nat c) ts)
      in case pack_token_ids seen of
        Inl e \<Rightarrow> Inl (Raised e)
      | Inr packed \<Rightarrow>
          if (case cnt_opt of None \<Rightarrow> False | Some c \<Rightarrow> int (length seen) \<noteq> c)
          then Inl (ChainPrefixMismatch None) else Inr (H packed))"

section \<open>Clock, tombstones and histories\<close>

definition chain_tick :: "chain_index \<Rightarrow> int \<times> chain_index" where
  "chain_tick s = (chain_clock s + 1, s\<lparr>chain_clock := chain_clock s + 1\<rparr>)"

fun pop_oldest :: "nat \<Rightarrow> 'a list \<Rightarrow> 'a list" where
  "pop_oldest n [] = []"
| "pop_oldest n (x # xs) = (if n < length (x # xs) then pop_oldest n xs else x # xs)"

definition add_tombstone :: "string \<Rightarrow> chain_index \<Rightarrow> chain_index" where
  "add_tombstone c s =
     (let s1 = s\<lparr>tombstones := dict_del c (tombstones s)\<rparr>; (t, s2) = chain_tick s1
      in s2\<lparr>tombstones := pop_oldest (max_tombstones s) (dict_set c t (tombstones s2))\<rparr>)"

fun to_uint32 :: "int list \<Rightarrow> 32 word list option" where
  "to_uint32 [] = Some []"
| "to_uint32 (t # ts) =
     (if t < 0 \<or> 2 ^ 32 \<le> t then None else map_option (\<lambda>ws. word_of_int t # ws) (to_uint32 ts))"

definition prepare_token_history ::
    "chain_index \<Rightarrow> chain_record \<Rightarrow> int list \<Rightarrow> int \<Rightarrow> chain_error + 32 word list" where
  "prepare_token_history s r ts processed =
     (if processed < 0 then Inl (Raised (ValueError ''processed_token_count must be >= 0, got ''))
      else case to_uint32 ts of
        None \<Rightarrow> Inl (ChainOwnerMismatch (Some (rec_chain_id r)))
      | Some ws \<Rightarrow>
          if int (length ws) < processed then Inl (ChainOwnerMismatch (Some (rec_chain_id r)))
          else
            (let next_total = token_history_tokens s - int (length (history_tokens r)) + int (length ws)
             in if (case max_token_history_tokens s of None \<Rightarrow> False | Some m \<Rightarrow> m < next_total)
                then Inl (ChainCapacity (rec_chain_id r)) else Inr ws))"

definition store_token_history :: "string \<Rightarrow> chain_record \<Rightarrow> 32 word list \<Rightarrow> chain_index \<Rightarrow> chain_index" where
  "store_token_history c r ws s =
     (set_record c (r\<lparr>history_tokens := ws\<rparr>) s)
       \<lparr>token_history_tokens :=
          token_history_tokens s - int (length (history_tokens r)) + int (length ws)\<rparr>"

definition chain_lookup :: "string \<Rightarrow> chain_index \<Rightarrow> chain_error + chain_record" where
  "chain_lookup c s =
     (case dict_get (records s) c of
        Some r \<Rightarrow> Inr r
      | None \<Rightarrow> if dict_get (tombstones s) c \<noteq> None then Inl (ChainGone c) else Inl (ChainNotFound c))"

section \<open>Admission\<close>

text \<open>
  The check of a resumed chain: the state, fingerprint and owner of its record, then its token
  prefix, either recomputed from the tokens or taken as a digest from rank 0.
\<close>

datatype chain_input = Tokens "int list" | Digest int bytes

fun input_count :: "chain_input \<Rightarrow> int" where
  "input_count (Tokens ts) = int (length ts)"
| "input_count (Digest n d) = n"

fun input_digest :: "(bytes \<Rightarrow> bytes) \<Rightarrow> string \<Rightarrow> chain_record \<Rightarrow> chain_input \<Rightarrow> chain_error + bytes" where
  "input_digest H c r (Tokens ts) =
     (case stable_token_digest H ts (Some (processed_token_count r)) of
        Inl (ChainPrefixMismatch None) \<Rightarrow> Inl (ChainPrefixMismatch (Some c))
      | x \<Rightarrow> x)"
| "input_digest H c r (Digest n d) =
     (if n < processed_token_count r then Inl (ChainPrefixMismatch (Some c)) else Inr d)"

definition bump_mismatch :: "chain_index \<Rightarrow> chain_index" where
  "bump_mismatch = chain_count (\<lambda>k. k\<lparr>chain_prefix_mismatch := chain_prefix_mismatch k + 1\<rparr>)"

text \<open>The status and the reused tokens of a request for the chain \<open>c\<close>.\<close>

definition check_resume ::
    "(bytes \<Rightarrow> bytes) \<Rightarrow> string \<Rightarrow> int \<Rightarrow> chain_input \<Rightarrow> bytes \<Rightarrow> (string \<times> int) chain_op" where
  "check_resume H c sid inp fp s =
     (case dict_get (records s) c of
        None \<Rightarrow>
          if dict_get (tombstones s) c \<noteq> None then (Inl (ChainGone c), s)
          else (Inr (''created'', 0), s)
      | Some r \<Rightarrow>
          if rec_state r = ACTIVE then
            (Inl (ChainBusy c), chain_count (\<lambda>k. k\<lparr>chain_busy := chain_busy k + 1\<rparr>) s)
          else if rec_fingerprint r \<noteq> fp then (Inl (ChainFingerprintMismatch c), s)
          else if rec_seq_id r \<noteq> sid then (Inl (ChainOwnerMismatch (Some c)), s)
          else
            (case input_digest H c r inp of
               Inl (ChainPrefixMismatch x) \<Rightarrow> (Inl (ChainPrefixMismatch x), bump_mismatch s)
             | Inl e \<Rightarrow> (Inl e, s)
             | Inr digest \<Rightarrow>
                 if digest \<noteq> processed_token_digest r
                 then (Inl (ChainPrefixMismatch (Some c)), bump_mismatch s)
                 else (Inr (''resumed'', processed_token_count r), s)))"

text \<open>The victims, least recently used first, until no deficit is left.\<close>

definition layer_resident :: "chain_record \<Rightarrow> nat \<Rightarrow> int" where
  "layer_resident r i =
     (if i < length (physical_slots_by_layer r) then physical_slots_by_layer r ! i else 0)"

fun pick_victims ::
    "chain_record list \<Rightarrow> int \<Rightarrow> int list \<Rightarrow> string list \<times> int \<times> int list" where
  "pick_victims [] rows slots = ([], rows, slots)"
| "pick_victims (v # vs) rows slots =
     (if rows \<le> 0 \<and> \<not> (\<exists>d\<in>set slots. d \<noteq> 0) then ([], rows, slots)
      else case pick_victims vs (max 0 (rows - resident_rows v))
             (map (\<lambda>i. max 0 (slots ! i - layer_resident v i)) [0..<length slots]) of
        (ids, rows', slots') \<Rightarrow> (rec_chain_id v # ids, rows', slots'))"

definition idle_candidates :: "chain_index \<Rightarrow> string \<Rightarrow> chain_record list" where
  "idle_candidates s c =
     sort_key (\<lambda>r. (rec_last_access r, rec_chain_id r))
       (filter (\<lambda>r. rec_state r = IDLE \<and> rec_chain_id r \<noteq> c) (map snd (records s)))"

definition plan_admission ::
    "(bytes \<Rightarrow> bytes) \<Rightarrow> string \<Rightarrow> int \<Rightarrow> chain_input \<Rightarrow> bytes \<Rightarrow> int list \<Rightarrow> int
       \<Rightarrow> int list \<Rightarrow> int \<Rightarrow> chain_plan chain_op" where
  "plan_admission H c sid inp fp required_slots row_deficit reserved_slots reserved_rows =
     bindE (check_resume H c sid inp fp) (\<lambda>(status, reused) s.
       case pick_victims (idle_candidates s c) (max 0 row_deficit) (map (max 0) required_slots) of
         (victims, rows, slots) \<Rightarrow>
           if 0 < rows \<or> (\<exists>d\<in>set slots. d \<noteq> 0) then (Inl (ChainCapacity c), s)
           else (Inr \<lparr>plan_chain_id = c, plan_seq_id = sid, plan_status = status,
                      plan_reused_tokens = reused, plan_input_token_count = input_count inp,
                      victim_chain_ids = victims, plan_reserved_slots = map (max 0) reserved_slots,
                      plan_reserved_rows = max 0 reserved_rows\<rparr>, s))"

section \<open>Turns and removal\<close>

text \<open>\<open>_drop_token_history\<close>, the two pops and the tombstone, shared by evict and invalidate.\<close>

definition drop_chain :: "string \<Rightarrow> chain_record \<Rightarrow> chain_index \<Rightarrow> chain_index" where
  "drop_chain c r s =
     add_tombstone c
       (s\<lparr>token_history_tokens := token_history_tokens s - int (length (history_tokens r)),
          records := dict_del c (records s),
          seq_id_to_chain_id := dict_del (rec_seq_id r) (seq_id_to_chain_id s)\<rparr>)"

definition chain_invalidate :: "string \<Rightarrow> chain_record chain_op" where
  "chain_invalidate c s =
     (case chain_lookup c s of
        Inl e \<Rightarrow> (Inl e, s)
      | Inr r \<Rightarrow> (Inr (r\<lparr>history_tokens := []\<rparr>),
                  chain_count (\<lambda>k. k\<lparr>chain_invalidated := chain_invalidated k + 1\<rparr>) (drop_chain c r s)))"

definition chain_evict :: "string \<Rightarrow> chain_record chain_op" where
  "chain_evict c s =
     (case chain_lookup c s of
        Inl e \<Rightarrow> (Inl e, s)
      | Inr r \<Rightarrow>
          if rec_state r = ACTIVE then (Inl (ChainBusy c), s)
          else (Inr (r\<lparr>history_tokens := []\<rparr>),
                chain_count (\<lambda>k. k\<lparr>chain_evicted := chain_evicted k + 1\<rparr>) (drop_chain c r s)))"

fun evict_all :: "string list \<Rightarrow> unit chain_op" where
  "evict_all [] = retE ()"
| "evict_all (c # cs) = bindE (chain_evict c) (\<lambda>_. evict_all cs)"

definition admit_created :: "chain_plan \<Rightarrow> bytes \<Rightarrow> chain_record chain_op" where
  "admit_created p fp s =
     (let c = plan_chain_id p in
      if dict_get (records s) c \<noteq> None then (Inl (ChainOwnerMismatch (Some c)), s)
      else if dict_get (seq_id_to_chain_id s) (plan_seq_id p) \<noteq> None then
        (Inl (ChainOwnerMismatch (Some c)), s)
      else
        (let (t, s1) = chain_tick s;
             r = \<lparr>rec_chain_id = c, rec_seq_id = plan_seq_id p, rec_fingerprint = fp,
                  rec_state = ACTIVE, processed_token_count = 0, processed_token_digest = [],
                  history_tokens = [], last_input_token_count = plan_input_token_count p,
                  rec_last_access = t, physical_slots_by_layer = [], resident_rows = 1,
                  rec_reserved_slots = plan_reserved_slots p,
                  rec_reserved_rows = plan_reserved_rows p\<rparr>
         in (Inr r, chain_count (\<lambda>k. k\<lparr>chain_created := chain_created k + 1\<rparr>)
               ((set_record c r s1)
                  \<lparr>seq_id_to_chain_id := dict_set (plan_seq_id p) c (seq_id_to_chain_id s1)\<rparr>))))"

definition admit_resumed :: "chain_plan \<Rightarrow> chain_record chain_op" where
  "admit_resumed p s =
     (let c = plan_chain_id p in
      case chain_lookup c s of
        Inl e \<Rightarrow> (Inl e, s)
      | Inr r \<Rightarrow>
          if rec_state r \<noteq> IDLE then (Inl (ChainBusy c), s)
          else
            (let (t, s1) = chain_tick s;
                 r1 = r\<lparr>rec_state := ACTIVE, last_input_token_count := plan_input_token_count p,
                        rec_last_access := t, rec_reserved_slots := plan_reserved_slots p,
                        rec_reserved_rows := plan_reserved_rows p\<rparr>
             in (Inr r1, chain_count (\<lambda>k. k\<lparr>chain_resumed := chain_resumed k + 1\<rparr>) (set_record c r1 s1))))"

definition apply_admission :: "chain_plan \<Rightarrow> bytes \<Rightarrow> chain_record chain_op" where
  "apply_admission p fp =
     bindE (evict_all (victim_chain_ids p)) (\<lambda>_.
       if plan_status p = ''created'' then admit_created p fp else admit_resumed p)"

definition finish_digest ::
    "string \<Rightarrow> bytes \<Rightarrow> int \<Rightarrow> int list \<Rightarrow> int \<Rightarrow> chain_record chain_op" where
  "finish_digest c digest processed slots rows s =
     (case chain_lookup c s of
        Inl e \<Rightarrow> (Inl e, s)
      | Inr r \<Rightarrow>
          if rec_state r \<noteq> ACTIVE then (Inl (ChainOwnerMismatch (Some c)), s)
          else if processed < processed_token_count r then (Inl (ChainOwnerMismatch (Some c)), s)
          else if length digest \<noteq> 32 then
            (Inl (Raised (ValueError ''processed_token_digest must be a SHA-256 digest, got '')), s)
          else
            (let (t, s1) = chain_tick s;
                 r1 = r\<lparr>processed_token_digest := digest, processed_token_count := processed,
                        physical_slots_by_layer := slots, resident_rows := rows,
                        rec_reserved_slots := [], rec_reserved_rows := 0, rec_state := IDLE,
                        rec_last_access := t\<rparr>
             in (Inr r1, chain_count (\<lambda>k. k\<lparr>chain_finished := chain_finished k + 1\<rparr>) (set_record c r1 s1))))"

definition chain_finish ::
    "(bytes \<Rightarrow> bytes) \<Rightarrow> string \<Rightarrow> int list \<Rightarrow> int \<Rightarrow> int list \<Rightarrow> int \<Rightarrow> chain_record chain_op" where
  "chain_finish H c ts processed slots rows s =
     (case chain_lookup c s of
        Inl e \<Rightarrow> (Inl e, s)
      | Inr existing \<Rightarrow>
          (case prepare_token_history s existing ts processed of
             Inl e \<Rightarrow> (Inl e, s)
           | Inr ws \<Rightarrow>
               (case stable_token_digest H ts (Some processed) of
                  Inl e \<Rightarrow> (Inl e, s)
                | Inr digest \<Rightarrow>
                    bindE (finish_digest c digest processed slots rows)
                      (\<lambda>r t. (Inr (r\<lparr>history_tokens := ws\<rparr>), store_token_history c r ws t)) s)))"

section \<open>Routing and reset\<close>

record chain_match =
  match_present :: bool
  match_state :: "chain_state option"
  match_tombstone :: bool

definition routing_match :: "chain_index \<Rightarrow> string \<Rightarrow> chain_match" where
  "routing_match s c =
     (case dict_get (records s) c of
        Some r \<Rightarrow> \<lparr>match_present = True, match_state = Some (rec_state r), match_tombstone = False\<rparr>
      | None \<Rightarrow> \<lparr>match_present = False, match_state = None,
                  match_tombstone = (dict_get (tombstones s) c \<noteq> None)\<rparr>)"

record chain_snapshot =
  active_chain_ids :: "string set"
  idle_chain_ids :: "string set"
  tombstone_chain_ids :: "string set"

definition chain_routing_snapshot :: "chain_index \<Rightarrow> chain_snapshot" where
  "chain_routing_snapshot s =
     \<lparr>active_chain_ids = rec_chain_id ` set (filter (\<lambda>r. rec_state r = ACTIVE) (map snd (records s))),
      idle_chain_ids = rec_chain_id ` set (filter (\<lambda>r. rec_state r = IDLE) (map snd (records s))),
      tombstone_chain_ids = set (map fst (tombstones s))\<rparr>"

definition chain_snapshot_match :: "chain_snapshot \<Rightarrow> string \<Rightarrow> chain_match" where
  "chain_snapshot_match v c =
     (if c \<in> active_chain_ids v then
        \<lparr>match_present = True, match_state = Some ACTIVE, match_tombstone = False\<rparr>
      else if c \<in> idle_chain_ids v then
        \<lparr>match_present = True, match_state = Some IDLE, match_tombstone = False\<rparr>
      else \<lparr>match_present = False, match_state = None, match_tombstone = c \<in> tombstone_chain_ids v\<rparr>)"

definition chain_reset :: "chain_index \<Rightarrow> chain_index" where
  "chain_reset s = s\<lparr>records := [], seq_id_to_chain_id := [], tombstones := [], chain_clock := 0,
     token_history_tokens := 0, chain_counts := zero_chain_stats\<rparr>"

end
