(* ===== verification/Chain_Invariant.thy ===== *)
theory Chain_Invariant
  imports Chain_Cache
begin

text \<open>
  The invariant of the chain index and its preservation; the victims of an admission; what a
  resumed chain may reuse.
\<close>

section \<open>Sums over a dictionary\<close>

definition dict_sum :: "('v \<Rightarrow> int) \<Rightarrow> ('k, 'v) dict \<Rightarrow> int" where
  "dict_sum f d = (\<Sum>p\<leftarrow>d. f (snd p))"

lemma dict_sum_new: "dict_get d k = None \<Longrightarrow> dict_sum f (dict_set k v d) = dict_sum f d + f v"
  by (induction d) (auto simp: dict_sum_def split: if_splits)

lemma dict_sum_old: "dict_get d k = Some w \<Longrightarrow> dict_sum f (dict_set k v d) = dict_sum f d - f w + f v"
  by (induction d) (auto simp: dict_sum_def split: if_splits)

lemma dict_del_absent: "dict_get d k = None \<Longrightarrow> dict_del k d = d"
  by (induction d) (auto simp: AList.delete_eq split: if_splits)

lemma dict_sum_del: "dict_ok d \<Longrightarrow> dict_get d k = Some w \<Longrightarrow> dict_sum f (dict_del k d) = dict_sum f d - f w"
proof (induction d)
  case (Cons p d)
  obtain a v where p: "p = (a, v)" by (cases p)
  show ?case
  proof (cases "a = k")
    case True
    then have "dict_get d k = None" using Cons.prems(1) p by (auto simp: map_of_eq_None_iff)
    then have "dict_del k (p # d) = d" using dict_del_absent [of d k] True p by (simp add: AList.delete_eq)
    then show ?thesis using True Cons.prems(2) p by (simp add: dict_sum_def)
  next
    case False
    then show ?thesis using Cons p by (simp add: dict_sum_def AList.delete_eq)
  qed
qed simp

lemma pop_oldest_drop: "pop_oldest n xs = drop (length xs - n) xs"
  by (induction xs) (auto simp: Suc_diff_le)

section \<open>The invariant\<close>

definition history_len :: "chain_record \<Rightarrow> int" where
  "history_len r = int (length (history_tokens r))"

definition owners_ok :: "chain_index \<Rightarrow> bool" where
  "owners_ok s \<longleftrightarrow>
     (\<forall>c r. dict_get (records s) c = Some r \<longrightarrow>
        rec_chain_id r = c \<and> dict_get (seq_id_to_chain_id s) (rec_seq_id r) = Some c)
     \<and> (\<forall>q c. dict_get (seq_id_to_chain_id s) q = Some c \<longrightarrow>
        (\<exists>r. dict_get (records s) c = Some r \<and> rec_seq_id r = q))"

definition histories_ok :: "chain_index \<Rightarrow> bool" where
  "histories_ok s \<longleftrightarrow>
     token_history_tokens s = dict_sum history_len (records s)
     \<and> (\<forall>m. max_token_history_tokens s = Some m \<longrightarrow> token_history_tokens s \<le> m)"

definition chain_ok :: "chain_index \<Rightarrow> bool" where
  "chain_ok s \<longleftrightarrow>
     dict_ok (records s) \<and> dict_ok (seq_id_to_chain_id s) \<and> dict_ok (tombstones s)
     \<and> owners_ok s \<and> histories_ok s
     \<and> (\<forall>c r. dict_get (records s) c = Some r \<longrightarrow>
          0 \<le> processed_token_count r \<and> rec_last_access r \<le> chain_clock s
          \<and> dict_get (tombstones s) c = None)
     \<and> 0 < max_tombstones s \<and> length (tombstones s) \<le> max_tombstones s"

lemma chain_count_simps [simp]:
  "records (chain_count f s) = records s" "tombstones (chain_count f s) = tombstones s"
  "seq_id_to_chain_id (chain_count f s) = seq_id_to_chain_id s" "chain_clock (chain_count f s) = chain_clock s"
  "token_history_tokens (chain_count f s) = token_history_tokens s"
  "max_tombstones (chain_count f s) = max_tombstones s"
  "max_token_history_tokens (chain_count f s) = max_token_history_tokens s"
  by (simp_all add: chain_count_def)

lemma chain_ok_count [simp]: "chain_ok (chain_count f s) = chain_ok s"
  by (simp add: chain_ok_def owners_ok_def histories_ok_def)

lemma set_record_simps [simp]:
  "records (set_record c r s) = dict_set c r (records s)" "tombstones (set_record c r s) = tombstones s"
  "seq_id_to_chain_id (set_record c r s) = seq_id_to_chain_id s" "chain_clock (set_record c r s) = chain_clock s"
  "token_history_tokens (set_record c r s) = token_history_tokens s"
  "max_tombstones (set_record c r s) = max_tombstones s"
  "max_token_history_tokens (set_record c r s) = max_token_history_tokens s"
  by (simp_all add: set_record_def)

lemma chain_okD:
  assumes "chain_ok s"
  shows "dict_ok (records s)" "dict_ok (seq_id_to_chain_id s)" "dict_ok (tombstones s)"
    "dict_get (records s) c = Some r \<Longrightarrow> rec_chain_id r = c"
    "dict_get (records s) c = Some r \<Longrightarrow> dict_get (seq_id_to_chain_id s) (rec_seq_id r) = Some c"
    "dict_get (records s) c = Some r \<Longrightarrow> 0 \<le> processed_token_count r"
    "dict_get (records s) c = Some r \<Longrightarrow> dict_get (tombstones s) c = None"
    "token_history_tokens s = dict_sum history_len (records s)"
    "max_token_history_tokens s = Some m \<Longrightarrow> token_history_tokens s \<le> m"
    "dict_get (seq_id_to_chain_id s) q = Some c \<Longrightarrow> \<exists>r. dict_get (records s) c = Some r \<and> rec_seq_id r = q"
    "dict_get (records s) c = Some r \<Longrightarrow> rec_last_access r \<le> chain_clock s"
  using assms unfolding chain_ok_def owners_ok_def histories_ok_def by blast+

lemma chain_ok_make: "make_chain_index tombs history = Inr s \<Longrightarrow> chain_ok s"
  by (auto simp: make_chain_index_def chain_ok_def owners_ok_def histories_ok_def dict_sum_def
      split: if_split_asm option.split_asm)

text \<open>
  Writing back the record of a chain: its owner stays, its history may change with the counter.
\<close>

lemma chain_ok_rewrite:
  assumes ok: "chain_ok s" and r: "dict_get (records s) c = Some r"
    and w: "rec_chain_id w = rec_chain_id r" "rec_seq_id w = rec_seq_id r" "0 \<le> processed_token_count w"
      "rec_last_access w \<le> k" "chain_clock s \<le> k"
    and h: "n = token_history_tokens s - history_len r + history_len w"
    and m: "\<And>m. max_token_history_tokens s = Some m \<Longrightarrow> n \<le> m"
  shows "chain_ok ((set_record c w s)\<lparr>chain_clock := k, token_history_tokens := n\<rparr>)"
proof -
  note old = chain_okD(11) [OF ok]
  have own: "\<exists>w'. dict_get (dict_set c w (records s)) d = Some w' \<and> rec_seq_id w' = q"
    if a: "dict_get (seq_id_to_chain_id s) q = Some d" for q d
  proof -
    obtain r' where "dict_get (records s) d = Some r'" "rec_seq_id r' = q"
      using chain_okD(10) [OF ok a] by blast
    then show ?thesis using r w(2) by (cases "d = c") auto
  qed
  have rec: "rec_chain_id r' = d \<and> dict_get (seq_id_to_chain_id s) (rec_seq_id r') = Some d
      \<and> 0 \<le> processed_token_count r' \<and> rec_last_access r' \<le> k \<and> dict_get (tombstones s) d = None"
    if a: "dict_get (dict_set c w (records s)) d = Some r'" for d r'
  proof (cases "d = c")
    case True
    then show ?thesis using a w chain_okD(4,5,7) [OF ok r] by simp
  next
    case False
    then have "dict_get (records s) d = Some r'" using a by simp
    from chain_okD(4-7) [OF ok this] old [OF this] w(5) show ?thesis by auto
  qed
  let ?t = "(set_record c w s)\<lparr>chain_clock := k, token_history_tokens := n\<rparr>"
  have f: "records ?t = dict_set c w (records s)" "seq_id_to_chain_id ?t = seq_id_to_chain_id s"
    "tombstones ?t = tombstones s" "max_tombstones ?t = max_tombstones s" "chain_clock ?t = k"
    "token_history_tokens ?t = n" "max_token_history_tokens ?t = max_token_history_tokens s" by simp_all
  have "owners_ok ?t" unfolding owners_ok_def f using rec own by blast
  moreover have "histories_ok ?t"
    unfolding histories_ok_def f dict_sum_old [OF r] using h m chain_okD(8) [OF ok] by simp
  moreover have "dict_ok (records ?t)" unfolding f using chain_okD(1) [OF ok] by simp
  ultimately show ?thesis
    using chain_okD(2,3) [OF ok] ok rec unfolding chain_ok_def f by blast
qed

lemma add_tombstone_simps [simp]:
  "records (add_tombstone c s) = records s" "seq_id_to_chain_id (add_tombstone c s) = seq_id_to_chain_id s"
  "token_history_tokens (add_tombstone c s) = token_history_tokens s"
  "max_tombstones (add_tombstone c s) = max_tombstones s" "chain_clock (add_tombstone c s) = chain_clock s + 1"
  "max_token_history_tokens (add_tombstone c s) = max_token_history_tokens s"
  by (simp_all add: add_tombstone_def chain_tick_def Let_def)

lemma tombstones_added:
  assumes d: "dict_ok (tombstones s)" and m: "0 < max_tombstones s"
  shows "dict_ok (tombstones (add_tombstone c s))" "length (tombstones (add_tombstone c s)) \<le> max_tombstones s"
    "dict_get (tombstones (add_tombstone c s)) c = Some (chain_clock s + 1)"
    "dict_get (tombstones (add_tombstone c s)) d \<noteq> None \<Longrightarrow> d = c \<or> dict_get (tombstones s) d \<noteq> None"
proof -
  let ?D = "dict_del c (tombstones s)" and ?x = "(c, chain_clock s + 1)"
  let ?j = "length (?D @ [?x]) - max_tombstones s"
  have abs: "dict_get ?D c = None" by simp
  have dD: "dict_ok ?D" using d by simp
  have j: "?j \<le> length ?D" using m by simp
  have eq: "tombstones (add_tombstone c s) = drop ?j ?D @ [?x]"
    using j dict_set_new [OF abs, of "chain_clock s + 1"]
    by (simp add: add_tombstone_def chain_tick_def Let_def pop_oldest_drop)
  have sub: "fst ` set (drop ?j ?D) \<subseteq> fst ` set ?D" using set_drop_subset [of ?j ?D] by blast
  have "c \<notin> fst ` set ?D" using abs by (simp only: map_of_eq_None_iff not_False_eq_True)
  then have c: "c \<notin> fst ` set (drop ?j ?D)" using sub by blast
  have "distinct (map fst (drop ?j ?D))" using dD by (simp add: distinct_drop drop_map [symmetric])
  then show "dict_ok (tombstones (add_tombstone c s))" using c unfolding eq by simp
  show "length (tombstones (add_tombstone c s)) \<le> max_tombstones s" unfolding eq using j by simp
  have "dict_get (drop ?j ?D) c = None" using c by (simp add: map_of_eq_None_iff)
  then show "dict_get (tombstones (add_tombstone c s)) c = Some (chain_clock s + 1)"
    unfolding eq by (simp add: map_add_def)
  assume "dict_get (tombstones (add_tombstone c s)) d \<noteq> None"
  then have "d \<in> fst ` set (drop ?j ?D @ [?x])" unfolding eq by (metis map_of_eq_None_iff)
  then have "d = c \<or> d \<in> fst ` set ?D" using sub by auto
  then have "d = c \<or> dict_get ?D d \<noteq> None" unfolding map_of_eq_None_iff by blast
  then show "d = c \<or> dict_get (tombstones s) d \<noteq> None" by (simp split: if_splits)
qed

lemma chain_ok_drop:
  assumes ok: "chain_ok s" and r: "dict_get (records s) c = Some r"
  shows "chain_ok (drop_chain c r s)"
proof -
  let ?s1 = "s\<lparr>token_history_tokens := token_history_tokens s - int (length (history_tokens r)),
          records := dict_del c (records s),
          seq_id_to_chain_id := dict_del (rec_seq_id r) (seq_id_to_chain_id s)\<rparr>"
  have t: "drop_chain c r s = add_tombstone c ?s1" by (simp add: drop_chain_def)
  note D = chain_okD [OF ok]
  have mx: "dict_ok (tombstones ?s1)" "0 < max_tombstones ?s1" using ok by (simp_all add: chain_ok_def)
  note ta = tombstones_added [OF mx, of c]
  have other: "rec_seq_id r' \<noteq> rec_seq_id r" if "dict_get (records s) d = Some r'" "d \<noteq> c" for d r'
    using D(5) [OF that(1)] D(5) [OF r] that(2) by auto
  have own: "owners_ok (add_tombstone c ?s1)"
    unfolding owners_ok_def
  proof (intro conjI allI impI)
    fix d r' assume a: "dict_get (records (add_tombstone c ?s1)) d = Some r'"
    then have "d \<noteq> c" "dict_get (records s) d = Some r'" by (auto split: if_splits)
    then show "rec_chain_id r' = d"
      "dict_get (seq_id_to_chain_id (add_tombstone c ?s1)) (rec_seq_id r') = Some d"
      using D(4,5) other by auto
  next
    fix q d assume a: "dict_get (seq_id_to_chain_id (add_tombstone c ?s1)) q = Some d"
    then have q: "q \<noteq> rec_seq_id r" "dict_get (seq_id_to_chain_id s) q = Some d" by (auto split: if_splits)
    then obtain r' where r': "dict_get (records s) d = Some r'" "rec_seq_id r' = q"
      using D(10) by blast
    have "d \<noteq> c" using q(1) r' r by auto
    then show "\<exists>r. dict_get (records (add_tombstone c ?s1)) d = Some r \<and> rec_seq_id r = q"
      using r' by simp
  qed
  have sum: "dict_sum history_len (dict_del c (records s)) = dict_sum history_len (records s) - history_len r"
    by (rule dict_sum_del [OF D(1) r])
  have hist: "histories_ok (add_tombstone c ?s1)"
    using D(8,9) sum by (auto simp: histories_ok_def history_len_def)
  have rest: "0 \<le> processed_token_count r' \<and> rec_last_access r' \<le> chain_clock s + 1
      \<and> dict_get (tombstones (add_tombstone c ?s1)) d = None"
    if a: "dict_get (records (add_tombstone c ?s1)) d = Some r'" for d r'
  proof -
    have d: "d \<noteq> c" "dict_get (records s) d = Some r'" using a by (auto split: if_splits)
    have "dict_get (tombstones (add_tombstone c ?s1)) d = None"
    proof (rule ccontr)
      assume "dict_get (tombstones (add_tombstone c ?s1)) d \<noteq> None"
      from ta(4) [OF this] show False using D(7) [OF d(2)] d(1) by simp
    qed
    then show ?thesis using D(6,11) [OF d(2)] by simp
  qed
  show ?thesis
    unfolding t chain_ok_def using own hist rest ta(1,2) D(1,2) mx by simp
qed

section \<open>Every operation keeps the invariant\<close>

lemma chain_lookup_Inr: "chain_lookup c s = Inr r \<longleftrightarrow> dict_get (records s) c = Some r"
  by (simp add: chain_lookup_def split: option.splits)

lemma chain_invalidate_ok: "chain_ok s \<Longrightarrow> chain_ok (snd (chain_invalidate c s))"
  using chain_ok_drop by (auto simp: chain_invalidate_def chain_lookup_Inr split: sum.splits)

lemma chain_evict_ok: "chain_ok s \<Longrightarrow> chain_ok (snd (chain_evict c s))"
  using chain_ok_drop by (auto simp: chain_evict_def chain_lookup_Inr split: sum.splits)

lemma evict_all_ok: "chain_ok s \<Longrightarrow> chain_ok (snd (evict_all cs s))"
proof (induction cs arbitrary: s)
  case (Cons c cs)
  obtain x t where x: "chain_evict c s = (x, t)" by fastforce
  then have "chain_ok t" using chain_evict_ok [OF Cons.prems, of c] by simp
  then show ?case using x Cons.IH by (cases x) (simp_all add: bindE_run)
qed simp

lemma admit_resumed_ok:
  assumes ok: "chain_ok s"
  shows "chain_ok (snd (admit_resumed p s))"
proof (cases "chain_lookup (plan_chain_id p) s")
  case (Inl e)
  then show ?thesis using ok by (simp add: admit_resumed_def Let_def)
next
  case (Inr r)
  show ?thesis
  proof (cases "rec_state r = IDLE")
    case True
    let ?c = "plan_chain_id p"
    let ?w = "r\<lparr>rec_state := ACTIVE, last_input_token_count := plan_input_token_count p,
        rec_last_access := chain_clock s + 1, rec_reserved_slots := plan_reserved_slots p,
        rec_reserved_rows := plan_reserved_rows p\<rparr>"
    have r: "dict_get (records s) ?c = Some r" using Inr by (simp add: chain_lookup_Inr)
    have "chain_ok ((set_record ?c ?w s)\<lparr>chain_clock := chain_clock s + 1,
        token_history_tokens := token_history_tokens s\<rparr>)"
      by (rule chain_ok_rewrite [OF ok r])
        (use chain_okD(6,9) [OF ok] r in \<open>auto simp: history_len_def\<close>)
    moreover have "admit_resumed p s = (Inr ?w, chain_count (\<lambda>k. k\<lparr>chain_resumed := chain_resumed k + 1\<rparr>)
        ((set_record ?c ?w s)\<lparr>chain_clock := chain_clock s + 1, token_history_tokens := token_history_tokens s\<rparr>))"
      using Inr True by (simp add: admit_resumed_def Let_def chain_tick_def set_record_def chain_count_def)
    ultimately show ?thesis by simp
  next
    case False
    then show ?thesis using Inr ok by (simp add: admit_resumed_def Let_def)
  qed
qed

lemma admit_created_ok:
  assumes ok: "chain_ok s" and t: "dict_get (tombstones s) (plan_chain_id p) = None"
  shows "chain_ok (snd (admit_created p fp s))"
proof (cases "dict_get (records s) (plan_chain_id p) = None \<and> dict_get (seq_id_to_chain_id s) (plan_seq_id p) = None")
  case False
  then show ?thesis using ok by (auto simp: admit_created_def Let_def)
next
  case True
  let ?c = "plan_chain_id p" and ?q = "plan_seq_id p"
  let ?r = "\<lparr>rec_chain_id = ?c, rec_seq_id = ?q, rec_fingerprint = fp,
      rec_state = ACTIVE, processed_token_count = 0, processed_token_digest = [],
      history_tokens = [], last_input_token_count = plan_input_token_count p,
      rec_last_access = chain_clock s + 1, physical_slots_by_layer = [], resident_rows = 1,
      rec_reserved_slots = plan_reserved_slots p, rec_reserved_rows = plan_reserved_rows p\<rparr>"
  let ?t = "(set_record ?c ?r (s\<lparr>chain_clock := chain_clock s + 1\<rparr>))
      \<lparr>seq_id_to_chain_id := dict_set ?q ?c (seq_id_to_chain_id s)\<rparr>"
  note D = chain_okD [OF ok]
  have f: "records ?t = dict_set ?c ?r (records s)" "seq_id_to_chain_id ?t = dict_set ?q ?c (seq_id_to_chain_id s)"
    "tombstones ?t = tombstones s" "max_tombstones ?t = max_tombstones s" "chain_clock ?t = chain_clock s + 1"
    "token_history_tokens ?t = token_history_tokens s"
    "max_token_history_tokens ?t = max_token_history_tokens s" by simp_all
  have new: "rec_seq_id r \<noteq> ?q" "d \<noteq> ?c" if "dict_get (records s) d = Some r" for d r
    using D(5) [OF that] that True by auto
  have rec: "rec_chain_id r' = d \<and> dict_get (seq_id_to_chain_id ?t) (rec_seq_id r') = Some d
      \<and> 0 \<le> processed_token_count r' \<and> rec_last_access r' \<le> chain_clock s + 1 \<and> dict_get (tombstones s) d = None"
    if a: "dict_get (records ?t) d = Some r'" for d r'
  proof (cases "d = ?c")
    case True
    then show ?thesis using a t by auto
  next
    case False
    then have o1: "dict_get (records s) d = Some r'" using a by simp
    from D(4-7,11) [OF o1] new [OF o1] show ?thesis by auto
  qed
  have own: "\<exists>r. dict_get (records ?t) d = Some r \<and> rec_seq_id r = q"
    if a: "dict_get (seq_id_to_chain_id ?t) q = Some d" for q d
  proof (cases "q = ?q")
    case True
    then show ?thesis using a by simp
  next
    case False
    then have "dict_get (seq_id_to_chain_id s) q = Some d" using a by simp
    from D(10) [OF this] obtain r where "dict_get (records s) d = Some r" "rec_seq_id r = q" by blast
    then show ?thesis using new(2) by auto
  qed
  have "owners_ok ?t" unfolding owners_ok_def using rec own by blast
  moreover have "histories_ok ?t"
    using D(8,9) dict_sum_new [of "records s" ?c history_len ?r] True by (simp add: histories_ok_def history_len_def)
  moreover have "dict_ok (records ?t)" "dict_ok (seq_id_to_chain_id ?t)" using D(1,2) by simp_all
  ultimately have "chain_ok ?t" using D(3) ok rec unfolding chain_ok_def f(3-7) by blast
  moreover have "admit_created p fp s = (Inr ?r, chain_count (\<lambda>k. k\<lparr>chain_created := chain_created k + 1\<rparr>) ?t)"
    using True by (simp add: admit_created_def Let_def chain_tick_def)
  ultimately show ?thesis by simp
qed

lemma finish_digest_ok:
  assumes ok: "chain_ok s"
  shows "chain_ok (snd (finish_digest c d n slots rows s))"
proof (cases "\<exists>r. dict_get (records s) c = Some r \<and> rec_state r = ACTIVE \<and> processed_token_count r \<le> n \<and> length d = 32")
  case False
  then show ?thesis using ok
    by (auto simp: finish_digest_def chain_lookup_def not_less not_le split: option.splits)
next
  case True
  then obtain r where r: "dict_get (records s) c = Some r" "rec_state r = ACTIVE"
    "processed_token_count r \<le> n" "length d = 32" by blast
  let ?w = "r\<lparr>processed_token_digest := d, processed_token_count := n, physical_slots_by_layer := slots,
      resident_rows := rows, rec_reserved_slots := [], rec_reserved_rows := 0, rec_state := IDLE,
      rec_last_access := chain_clock s + 1\<rparr>"
  have "chain_ok ((set_record c ?w s)\<lparr>chain_clock := chain_clock s + 1,
      token_history_tokens := token_history_tokens s\<rparr>)"
    by (rule chain_ok_rewrite [OF ok r(1)])
      (use chain_okD(6) [OF ok r(1)] chain_okD(9) [OF ok] r in \<open>auto simp: history_len_def\<close>)
  moreover have "finish_digest c d n slots rows s = (Inr ?w, chain_count (\<lambda>k. k\<lparr>chain_finished := chain_finished k + 1\<rparr>)
      ((set_record c ?w s)\<lparr>chain_clock := chain_clock s + 1, token_history_tokens := token_history_tokens s\<rparr>))"
    using r by (simp add: finish_digest_def chain_lookup_def chain_tick_def set_record_def chain_count_def Let_def)
  ultimately show ?thesis by simp
qed

text \<open>Storing a history that the capacity check let through.\<close>

lemma store_history_ok:
  assumes ok: "chain_ok s" and r: "dict_get (records s) c = Some r"
    and p: "prepare_token_history s r ts n = Inr ws"
  shows "chain_ok (store_token_history c r ws s)"
proof -
  let ?n = "token_history_tokens s - int (length (history_tokens r)) + int (length ws)"
  have cap: "\<And>m. max_token_history_tokens s = Some m \<Longrightarrow> ?n \<le> m"
    using p by (auto simp: prepare_token_history_def Let_def split: if_splits option.splits)
  have "chain_ok ((set_record c (r\<lparr>history_tokens := ws\<rparr>) s)\<lparr>chain_clock := chain_clock s, token_history_tokens := ?n\<rparr>)"
    by (rule chain_ok_rewrite [OF ok r])
      (use chain_okD(6,11) [OF ok r] cap in \<open>auto simp: history_len_def\<close>)
  moreover have "store_token_history c r ws s
      = (set_record c (r\<lparr>history_tokens := ws\<rparr>) s)\<lparr>chain_clock := chain_clock s, token_history_tokens := ?n\<rparr>"
    by (simp add: store_token_history_def set_record_def)
  ultimately show ?thesis by simp
qed

end
