(* ===== verification/Chain_Coordinator.thy ===== *)
theory Chain_Coordinator
  imports Chain_Invariant
begin

text \<open>
  \<open>ChainCacheCoordinator\<close> of \<open>engine/chain_cache.py\<close>: it asks the cache manager for the capacity
  a request needs, and drives the chain index with the answers. The cache manager's hooks are
  optional methods looked up by name, hence options here; their answers at one moment are the
  argument \<open>V\<close>.
\<close>

record chain_hooks =
  chain_capacity_deficits ::
    "(int \<Rightarrow> int \<Rightarrow> int list \<Rightarrow> int list \<Rightarrow> int \<Rightarrow> bool \<Rightarrow> int list \<times> int \<times> int list \<times> int) option"
  chain_has_residency :: "(int \<Rightarrow> bool) option"
  chain_physical_residency :: "(int \<Rightarrow> int list) option"

section \<open>Outstanding reservations\<close>

definition nth0 :: "int list \<Rightarrow> nat \<Rightarrow> int" where
  "nth0 xs i = (if i < length xs then xs ! i else 0)"

definition is_resident :: "chain_hooks \<Rightarrow> chain_record \<Rightarrow> bool" where
  "is_resident V r = (case chain_has_residency V of None \<Rightarrow> False | Some f \<Rightarrow> f (rec_seq_id r))"

definition current_slots :: "chain_hooks \<Rightarrow> chain_record \<Rightarrow> int list" where
  "current_slots V r =
     (case chain_physical_residency V of
        Some f \<Rightarrow> if is_resident V r then f (rec_seq_id r) else physical_slots_by_layer r
      | None \<Rightarrow> physical_slots_by_layer r)"

definition outstanding_slot :: "chain_hooks \<Rightarrow> chain_record \<Rightarrow> nat \<Rightarrow> int" where
  "outstanding_slot V r i =
     max 0 (nth0 (rec_reserved_slots r) i
            - max 0 (nth0 (current_slots V r) i - nth0 (physical_slots_by_layer r) i))"

fun outstanding_loop :: "chain_hooks \<Rightarrow> chain_record list \<Rightarrow> int list \<times> int \<Rightarrow> int list \<times> int" where
  "outstanding_loop V [] acc = acc"
| "outstanding_loop V (r # rs) (slots, rows) =
     (if rec_state r \<noteq> ACTIVE then outstanding_loop V rs (slots, rows)
      else
        (let k = length (rec_reserved_slots r);
             extended = slots @ replicate (k - length slots) 0
         in outstanding_loop V rs
              (map (\<lambda>i. extended ! i + (if i < k then outstanding_slot V r i else 0)) [0..<length extended],
               rows + max 0 (rec_reserved_rows r - (if is_resident V r then 1 else 0)))))"

definition outstanding_active_reservations :: "chain_hooks \<Rightarrow> chain_index \<Rightarrow> int list \<times> int" where
  "outstanding_active_reservations V s = outstanding_loop V (map snd (records s)) ([], 0)"

definition admission_requirements ::
    "chain_hooks \<Rightarrow> string \<Rightarrow> int \<Rightarrow> int \<Rightarrow> chain_index \<Rightarrow> int list \<times> int \<times> int list \<times> int" where
  "admission_requirements V c token_count generation_tokens s =
     (let r = dict_get (records s) c;
          reused = (case r of None \<Rightarrow> 0 | Some k \<Rightarrow> processed_token_count k);
          existing = (case r of None \<Rightarrow> [] | Some k \<Rightarrow> physical_slots_by_layer k);
          suffix = max 0 (token_count - reused)
      in case chain_capacity_deficits V of
           None \<Rightarrow> ([], 0, [], 0)
         | Some hook \<Rightarrow>
             (case outstanding_active_reservations V s of
                (slots, rows) \<Rightarrow> hook suffix (max 0 generation_tokens) existing slots rows (r = None)))"

section \<open>Operations\<close>

definition coordinator_plan ::
    "(bytes \<Rightarrow> bytes) \<Rightarrow> bytes \<Rightarrow> chain_hooks \<Rightarrow> string \<Rightarrow> int \<Rightarrow> chain_input \<Rightarrow> int \<Rightarrow> chain_plan chain_op" where
  "coordinator_plan H fp V c sid inp generation_tokens s =
     (case admission_requirements V c (input_count inp) generation_tokens s of
        (required_slots, required_rows, slots, rows) \<Rightarrow>
          plan_admission H c sid inp fp slots rows required_slots required_rows s)"

text \<open>Every rank recomputes the plan from the token count and the digest of the reused prefix.\<close>

definition validate_admission_plan ::
    "(bytes \<Rightarrow> bytes) \<Rightarrow> bytes \<Rightarrow> chain_hooks \<Rightarrow> chain_plan \<Rightarrow> int \<Rightarrow> bytes \<Rightarrow> int \<Rightarrow> chain_plan chain_op" where
  "validate_admission_plan H fp V expected n digest generation_tokens =
     bindE (coordinator_plan H fp V (plan_chain_id expected) (plan_seq_id expected) (Digest n digest)
              generation_tokens)
       (\<lambda>p. if p \<noteq> expected
            then raiseE (Raised (RuntimeError ''Chain-cache admission plan diverged from the rank-0 plan: ''))
            else retE p)"

definition residency_of :: "chain_hooks \<Rightarrow> int \<Rightarrow> int list" where
  "residency_of V sid = (case chain_physical_residency V of None \<Rightarrow> [] | Some f \<Rightarrow> f sid)"

definition finish_values ::
    "chain_hooks \<Rightarrow> string \<Rightarrow> int \<Rightarrow> bytes \<Rightarrow> int \<Rightarrow> chain_record chain_op" where
  "finish_values V c sid digest processed s =
     (case chain_lookup c s of
        Inl e \<Rightarrow> (Inl e, s)
      | Inr r \<Rightarrow>
          if rec_seq_id r \<noteq> sid then (Inl (ChainOwnerMismatch (Some c)), s)
          else finish_digest c digest processed (residency_of V sid) 1 s)"

definition remember_processed_tokens ::
    "(bytes \<Rightarrow> bytes) \<Rightarrow> string \<Rightarrow> int \<Rightarrow> int list \<Rightarrow> int \<Rightarrow> chain_record chain_op" where
  "remember_processed_tokens H c sid ts processed s =
     (case chain_lookup c s of
        Inl e \<Rightarrow> (Inl e, s)
      | Inr r \<Rightarrow>
          if rec_seq_id r \<noteq> sid then (Inl (ChainOwnerMismatch (Some c)), s)
          else if rec_state r \<noteq> IDLE then (Inl (ChainOwnerMismatch (Some c)), s)
          else
            (case prepare_token_history s r ts processed of
               Inl e \<Rightarrow> (Inl e, s)
             | Inr ws \<Rightarrow>
                 (case stable_token_digest H (map uint ws) (Some processed) of
                    Inl e \<Rightarrow> (Inl e, s)
                  | Inr digest \<Rightarrow>
                      if processed \<noteq> processed_token_count r \<or> digest \<noteq> processed_token_digest r
                      then (Inl (ChainOwnerMismatch (Some c)), s)
                      else (Inr (r\<lparr>history_tokens := ws\<rparr>), store_token_history c r ws s))))"

section \<open>Plans\<close>

lemma check_resume_cases:
  assumes "check_resume H c sid inp fp s = (x, t)"
  shows "t = s \<or> (\<exists>f. t = chain_count f s)"
  using assms
  by (auto simp: check_resume_def bump_mismatch_def split: option.splits if_splits sum.splits chain_error.splits)

lemma check_resume_Inr:
  assumes "check_resume H c sid inp fp s = (Inr (st, n), t)"
  shows "t = s"
    "dict_get (records s) c = None \<Longrightarrow> st = ''created'' \<and> n = 0 \<and> dict_get (tombstones s) c = None"
    "dict_get (records s) c = Some r \<Longrightarrow> st = ''resumed'' \<and> n = processed_token_count r \<and> rec_state r = IDLE
       \<and> rec_fingerprint r = fp \<and> rec_seq_id r = sid \<and> input_digest H c r inp = Inr (processed_token_digest r)"
  using assms chain_state.exhaust
  by (auto simp: check_resume_def split: option.splits if_splits sum.splits chain_error.splits)

lemma plan_admission_Inr:
  assumes "plan_admission H c sid inp fp req rowd resv resr s = (Inr p, t)"
  obtains victims rows slots where
    "check_resume H c sid inp fp s = (Inr (plan_status p, plan_reused_tokens p), s)" "t = s"
    "pick_victims (idle_candidates s c) (max 0 rowd) (map (max 0) req) = (victims, rows, slots)"
    "rows \<le> 0" "\<forall>d\<in>set slots. d = 0" "victim_chain_ids p = victims" "plan_chain_id p = c"
    "plan_seq_id p = sid" "plan_input_token_count p = input_count inp"
    "plan_reserved_slots p = map (max 0) resv" "plan_reserved_rows p = max 0 resr"
proof -
  obtain st n t1 where c1: "check_resume H c sid inp fp s = (Inr (st, n), t1)"
    and c2: "(case pick_victims (idle_candidates t1 c) (max 0 rowd) (map (max 0) req) of
         (victims, rows, slots) \<Rightarrow>
           if 0 < rows \<or> (\<exists>d\<in>set slots. d \<noteq> 0) then (Inl (ChainCapacity c), t1)
           else (Inr \<lparr>plan_chain_id = c, plan_seq_id = sid, plan_status = st,
                      plan_reused_tokens = n, plan_input_token_count = input_count inp,
                      victim_chain_ids = victims, plan_reserved_slots = map (max 0) resv,
                      plan_reserved_rows = max 0 resr\<rparr>, t1)) = (Inr p, t)"
    using assms unfolding plan_admission_def bindE_eq_Inr by auto
  have t1: "t1 = s" by (rule check_resume_Inr(1) [OF c1])
  obtain victims rows slots where pv: "pick_victims (idle_candidates s c) (max 0 rowd) (map (max 0) req)
      = (victims, rows, slots)" by (metis prod_cases3)
  show thesis
    using that [of victims rows slots] c1 c2 pv t1 by (auto split: if_splits)
qed

lemma plan_admission_state:
  assumes "plan_admission H c sid inp fp req rowd resv resr s = (x, t)"
  shows "t = s \<or> (\<exists>f. t = chain_count f s)"
proof -
  obtain y u where c: "check_resume H c sid inp fp s = (y, u)" by fastforce
  have "t = u" using assms c
    by (cases y) (auto simp: plan_admission_def bindE_run split: prod.splits if_splits)
  then show ?thesis using check_resume_cases [OF c] by simp
qed

text \<open>The rank-0 plan passes the validation of a rank in the same state.\<close>

lemma validate_same:
  assumes p: "coordinator_plan H fp V c sid (Tokens ts) gen s = (Inr p, t)"
    and d: "stable_token_digest H ts (Some (plan_reused_tokens p)) = Inr digest"
  shows "validate_admission_plan H fp V p (int (length ts)) digest gen t = (Inr p, t)"
proof -
  obtain rs rr ds dr where q: "admission_requirements V c (int (length ts)) gen s = (rs, rr, ds, dr)"
    by (metis prod_cases4)
  have pl: "plan_admission H c sid (Tokens ts) fp ds dr rs rr s = (Inr p, t)"
    using p q by (simp add: coordinator_plan_def)
  obtain victims rows slots where v:
    "check_resume H c sid (Tokens ts) fp s = (Inr (plan_status p, plan_reused_tokens p), s)" "t = s"
    "pick_victims (idle_candidates s c) (max 0 dr) (map (max 0) ds) = (victims, rows, slots)"
    "rows \<le> 0" "\<forall>d\<in>set slots. d = 0" "victim_chain_ids p = victims" "plan_chain_id p = c"
    "plan_seq_id p = sid" "plan_input_token_count p = input_count (Tokens ts)"
    "plan_reserved_slots p = map (max 0) rs" "plan_reserved_rows p = max 0 rr"
    by (rule plan_admission_Inr [OF pl])
  have chk: "check_resume H c sid (Digest (int (length ts)) digest) fp s
      = (Inr (plan_status p, plan_reused_tokens p), s)"
  proof (cases "dict_get (records s) c")
    case None
    then show ?thesis using v(1) by (auto simp: check_resume_def split: if_splits)
  next
    case (Some r)
    note k = check_resume_Inr(3) [OF v(1) Some]
    have n: "plan_reused_tokens p = processed_token_count r" using k by simp
    have dg: "digest = processed_token_digest r" using k d n by simp
    have len: "processed_token_count r \<le> int (length ts)"
      using d n by (auto simp: stable_token_digest_def Let_def split: sum.splits if_splits)
    show ?thesis using Some k dg len by (simp add: check_resume_def not_less)
  qed
  have "plan_admission H c sid (Digest (int (length ts)) digest) fp ds dr rs rr s = (Inr p, s)"
    using chk v(3-11) by (simp add: plan_admission_def bindE_run) 
  then show ?thesis using q v(2,7,8)
    by (simp add: validate_admission_plan_def coordinator_plan_def bindE_run)
qed

end
