(* ===== verification/Chain_Runs.thy ===== *)
theory Chain_Runs
  imports Chain_Coordinator
begin

text \<open>
  Admissions, turns and whole histories of the chain index: which idle chains an admission
  evicts, what applying a plan does to every chain, when a chain is resumed, and the invariant of
  every index that is reached.
\<close>

section \<open>Victims\<close>

text \<open>Evicting the chains \<open>vs\<close> frees enough rows and enough slots of every layer.\<close>

definition frees :: "chain_record list \<Rightarrow> int \<Rightarrow> int list \<Rightarrow> bool" where
  "frees vs rows slots \<longleftrightarrow>
     rows \<le> sum_list (map resident_rows vs)
     \<and> (\<forall>i<length slots. slots ! i \<le> (\<Sum>v\<leftarrow>vs. layer_resident v i))"

definition payload_ok :: "chain_record \<Rightarrow> bool" where
  "payload_ok r \<longleftrightarrow> 0 \<le> resident_rows r \<and> (\<forall>x\<in>set (physical_slots_by_layer r). 0 \<le> x)"

lemma layer_resident_nonneg: "payload_ok r \<Longrightarrow> 0 \<le> layer_resident r i"
  by (simp add: payload_ok_def layer_resident_def)

lemma frees_Cons:
  assumes "payload_ok v" "\<forall>u\<in>set vs. payload_ok u"
  shows "frees (v # vs) rows slots \<longleftrightarrow>
    frees vs (max 0 (rows - resident_rows v))
      (map (\<lambda>i. max 0 (slots ! i - layer_resident v i)) [0..<length slots])"
proof -
  have r: "0 \<le> sum_list (map resident_rows vs)"
    using assms(2) by (intro sum_list_nonneg) (auto simp: payload_ok_def)
  have l: "0 \<le> (\<Sum>u\<leftarrow>vs. layer_resident u i)" for i
    using assms(2) by (intro sum_list_nonneg) (auto simp: layer_resident_nonneg)
  show ?thesis using r l by (auto simp: frees_def algebra_simps)
qed

lemma frees_Nil:
  assumes "0 \<le> rows" "\<forall>d\<in>set slots. 0 \<le> d"
  shows "frees [] rows slots \<longleftrightarrow> rows \<le> 0 \<and> \<not> (\<exists>d\<in>set slots. d \<noteq> 0)"
  using assms by (auto simp: frees_def set_conv_nth intro: antisym)

lemma pick_victims_take:
  "pick_victims vs rows slots = (ids, rows', slots') \<Longrightarrow>
     \<exists>k\<le>length vs. ids = map rec_chain_id (take k vs)"
proof (induction vs arbitrary: rows slots ids)
  case (Cons v vs)
  show ?case
  proof (cases "rows \<le> 0 \<and> \<not> (\<exists>d\<in>set slots. d \<noteq> 0)")
    case True
    then have "ids = []" using Cons.prems by auto
    then show ?thesis by (intro exI [of _ 0]) simp
  next
    case False
    then obtain ids1 where i: "ids = rec_chain_id v # ids1"
      and p: "pick_victims vs (max 0 (rows - resident_rows v))
        (map (\<lambda>i. max 0 (slots ! i - layer_resident v i)) [0..<length slots]) = (ids1, rows', slots')"
      using Cons.prems by (simp add: if_not_P split: prod.splits)
    obtain k where "k \<le> length vs" "ids1 = map rec_chain_id (take k vs)" using Cons.IH [OF p] by blast
    then show ?thesis using i by (intro exI [of _ "Suc k"]) simp
  qed
qed simp

text \<open>The victims are the shortest prefix that frees enough, or all candidates if none does.\<close>

lemma pick_victims_spec:
  assumes "\<forall>v\<in>set vs. payload_ok v" "0 \<le> rows" "\<forall>d\<in>set slots. 0 \<le> d"
    and "pick_victims vs rows slots = (ids, rows', slots')"
  shows "\<exists>k\<le>length vs. ids = map rec_chain_id (take k vs) \<and> (\<forall>j<k. \<not> frees (take j vs) rows slots)
    \<and> (rows' \<le> 0 \<and> \<not> (\<exists>d\<in>set slots'. d \<noteq> 0) \<longleftrightarrow> frees (take k vs) rows slots)
    \<and> (k < length vs \<longrightarrow> frees (take k vs) rows slots)"
  using assms
proof (induction vs arbitrary: rows slots ids)
  case Nil
  then show ?case using frees_Nil [OF Nil.prems(2,3)] by auto
next
  case (Cons v vs)
  let ?rows = "max 0 (rows - resident_rows v)"
  let ?slots = "map (\<lambda>i. max 0 (slots ! i - layer_resident v i)) [0..<length slots]"
  have v: "payload_ok v" and vs: "\<forall>u\<in>set vs. payload_ok u" using Cons.prems(1) by simp_all
  note nil = frees_Nil [OF Cons.prems(2,3)]
  show ?case
  proof (cases "rows \<le> 0 \<and> \<not> (\<exists>d\<in>set slots. d \<noteq> 0)")
    case True
    then have "ids = []" "rows' = rows" "slots' = slots" using Cons.prems(4) by auto
    then show ?thesis using True nil by (intro exI [of _ 0]) simp
  next
    case False
    then obtain ids1 where i: "ids = rec_chain_id v # ids1"
      and p: "pick_victims vs ?rows ?slots = (ids1, rows', slots')"
      using Cons.prems(4) by (simp add: if_not_P split: prod.splits)
    have s: "\<forall>d\<in>set ?slots. 0 \<le> d" by auto
    obtain k where k: "k \<le> length vs" "ids1 = map rec_chain_id (take k vs)"
      "\<forall>j<k. \<not> frees (take j vs) ?rows ?slots"
      "rows' \<le> 0 \<and> \<not> (\<exists>d\<in>set slots'. d \<noteq> 0) \<longleftrightarrow> frees (take k vs) ?rows ?slots"
      "k < length vs \<longrightarrow> frees (take k vs) ?rows ?slots"
      using Cons.IH [OF vs _ s p] by auto
    have cons: "frees (take (Suc j) (v # vs)) rows slots = frees (take j vs) ?rows ?slots" for j
      using frees_Cons [of v "take j vs"] v vs by (metis in_set_takeD take_Suc_Cons)
    have "\<not> frees (take j (v # vs)) rows slots" if "j < Suc k" for j
      using that k(3) cons nil False by (cases j) auto
    then show ?thesis
      using i k cons by (intro exI [of _ "Suc k"]) simp
  qed
qed

lemma frees_positive:
  assumes "\<forall>v\<in>set vs. payload_ok v"
  shows "frees vs (max 0 rows) (map (max 0) slots) \<longleftrightarrow> frees vs rows slots"
proof -
  have r: "0 \<le> sum_list (map resident_rows vs)"
    using assms by (intro sum_list_nonneg) (auto simp: payload_ok_def)
  have l: "0 \<le> (\<Sum>v\<leftarrow>vs. layer_resident v i)" for i
    using assms by (intro sum_list_nonneg) (auto simp: layer_resident_nonneg)
  show ?thesis using r l by (auto simp: frees_def)
qed

text \<open>The candidates: every idle chain but the requested one, least recently used first.\<close>

lemma idle_candidates_set:
  assumes "chain_ok s"
  shows "r \<in> set (idle_candidates s c) \<longleftrightarrow>
    (\<exists>d. d \<noteq> c \<and> dict_get (records s) d = Some r \<and> rec_state r = IDLE)"
proof -
  note D = chain_okD(1,4) [OF assms]
  have "r \<in> snd ` set (records s) \<longleftrightarrow> (\<exists>d. dict_get (records s) d = Some r)"
    using dict_get_mem [OF D(1)] by force
  then show ?thesis using D(2) by (auto simp: idle_candidates_def)
qed

lemma idle_candidates_sorted:
  "sorted (map (\<lambda>r. (rec_last_access r, rec_chain_id r)) (idle_candidates s c))"
  by (simp add: idle_candidates_def)

lemma idle_candidates_distinct:
  assumes "chain_ok s"
  shows "distinct (map rec_chain_id (idle_candidates s c))"
proof -
  note D = chain_okD(1,4) [OF assms]
  have eq: "map rec_chain_id (map snd (records s)) = map fst (records s)"
    using D(2) dict_get_mem [OF D(1)] by fastforce
  have "distinct (map rec_chain_id (map snd (records s)))" unfolding eq by (rule D(1))
  then have "distinct (map rec_chain_id (filter P (map snd (records s))))" for P
    by (rule distinct_map_filter)
  then show ?thesis unfolding idle_candidates_def by (simp add: distinct_map)
qed

lemma victims_idle:
  assumes ok: "chain_ok s" and p: "plan_admission H c sid inp fp req rowd resv resr s = (Inr p, t)"
  shows "t = s" "distinct (victim_chain_ids p)" "c \<notin> set (victim_chain_ids p)"
    "\<forall>d\<in>set (victim_chain_ids p). \<exists>r. dict_get (records s) d = Some r \<and> rec_state r = IDLE"
proof -
  obtain victims rows slots where v: "t = s" "victim_chain_ids p = victims"
    "pick_victims (idle_candidates s c) (max 0 rowd) (map (max 0) req) = (victims, rows, slots)"
    by (rule plan_admission_Inr [OF p])
  obtain k where k: "victims = map rec_chain_id (take k (idle_candidates s c))"
    using pick_victims_take [OF v(3)] by blast
  show "t = s" by (rule v(1))
  show "distinct (victim_chain_ids p)"
    using idle_candidates_distinct [OF ok, of c] v(2) k by (simp add: take_map [symmetric] distinct_take)
  have m: "\<exists>r. dict_get (records s) d = Some r \<and> rec_state r = IDLE \<and> d \<noteq> c" if d: "d \<in> set victims" for d
  proof -
    obtain r where "r \<in> set (take k (idle_candidates s c))" "d = rec_chain_id r"
      using d k by auto
    then have r: "r \<in> set (idle_candidates s c)" "d = rec_chain_id r" by (auto dest: in_set_takeD)
    then show ?thesis using idle_candidates_set [OF ok] chain_okD(4) [OF ok] by metis
  qed
  show "c \<notin> set (victim_chain_ids p)" using m v(2) by blast
  show "\<forall>d\<in>set (victim_chain_ids p). \<exists>r. dict_get (records s) d = Some r \<and> rec_state r = IDLE"
    using m v(2) by blast
qed

section \<open>Applying a plan\<close>

lemma chain_evict_step:
  assumes ok: "chain_ok s" and r: "dict_get (records s) c = Some r" "rec_state r = IDLE"
  obtains t where "chain_evict c s = (Inr (r\<lparr>history_tokens := []\<rparr>), t)" "chain_ok t"
    "records t = dict_del c (records s)"
    "seq_id_to_chain_id t = dict_del (rec_seq_id r) (seq_id_to_chain_id s)"
    "dict_get (tombstones t) c \<noteq> None"
    "\<And>d. dict_get (tombstones t) d \<noteq> None \<Longrightarrow> d = c \<or> dict_get (tombstones s) d \<noteq> None"
proof -
  let ?t = "chain_count (\<lambda>k. k\<lparr>chain_evicted := chain_evicted k + 1\<rparr>) (drop_chain c r s)"
  have e: "chain_evict c s = (Inr (r\<lparr>history_tokens := []\<rparr>), ?t)"
    using r by (simp add: chain_evict_def chain_lookup_def)
  let ?s1 = "s\<lparr>token_history_tokens := token_history_tokens s - int (length (history_tokens r)),
          records := dict_del c (records s),
          seq_id_to_chain_id := dict_del (rec_seq_id r) (seq_id_to_chain_id s)\<rparr>"
  have d: "dict_ok (tombstones ?s1)" "0 < max_tombstones ?s1" using ok by (simp_all add: chain_ok_def)
  note ta = tombstones_added(3,4) [OF d, of c]
  have t4: "d = c \<or> dict_get (tombstones s) d \<noteq> None" if "dict_get (tombstones ?t) d \<noteq> None" for d
    using ta(2) [of d] that by (simp add: drop_chain_def)
  show thesis
    by (rule that [OF e]) (use chain_ok_drop [OF ok r(1)] ta(1) t4 in \<open>simp_all add: drop_chain_def\<close>)
qed

lemma evict_all_idle:
  assumes "chain_ok s" "distinct cs"
    and "\<forall>d\<in>set cs. \<exists>r. dict_get (records s) d = Some r \<and> rec_state r = IDLE"
  shows "\<exists>t. evict_all cs s = (Inr (), t) \<and> chain_ok t
    \<and> (\<forall>d. dict_get (records t) d = (if d \<in> set cs then None else dict_get (records s) d))
    \<and> (\<forall>d. dict_get (tombstones t) d \<noteq> None \<longrightarrow> d \<in> set cs \<or> dict_get (tombstones s) d \<noteq> None)
    \<and> (\<forall>q. dict_get (seq_id_to_chain_id s) q = None \<longrightarrow> dict_get (seq_id_to_chain_id t) q = None)"
  using assms
proof (induction cs arbitrary: s)
  case (Cons c cs)
  obtain r where r: "dict_get (records s) c = Some r" "rec_state r = IDLE" using Cons.prems(3) by auto
  obtain t where t: "chain_evict c s = (Inr (r\<lparr>history_tokens := []\<rparr>), t)" "chain_ok t"
    "records t = dict_del c (records s)"
    "seq_id_to_chain_id t = dict_del (rec_seq_id r) (seq_id_to_chain_id s)"
    "\<And>d. dict_get (tombstones t) d \<noteq> None \<Longrightarrow> d = c \<or> dict_get (tombstones s) d \<noteq> None"
    using chain_evict_step [OF Cons.prems(1) r] by metis
  have "\<forall>d\<in>set cs. \<exists>r. dict_get (records t) d = Some r \<and> rec_state r = IDLE"
    using Cons.prems(2,3) t(3) by auto
  from Cons.IH [OF t(2) _ this] Cons.prems(2) obtain u where u: "evict_all cs t = (Inr (), u)" "chain_ok u"
    "\<forall>d. dict_get (records u) d = (if d \<in> set cs then None else dict_get (records t) d)"
    "\<forall>d. dict_get (tombstones u) d \<noteq> None \<longrightarrow> d \<in> set cs \<or> dict_get (tombstones t) d \<noteq> None"
    "\<forall>q. dict_get (seq_id_to_chain_id t) q = None \<longrightarrow> dict_get (seq_id_to_chain_id u) q = None" by auto
  have 1: "evict_all (c # cs) s = (Inr (), u)" using t(1) u(1) by simp
  have 2: "dict_get (records u) d = (if d \<in> set (c # cs) then None else dict_get (records s) d)" for d
    using u(3) t(3) by simp
  have 3: "d \<in> set (c # cs) \<or> dict_get (tombstones s) d \<noteq> None"
    if "dict_get (tombstones u) d \<noteq> None" for d
    using u(4) [rule_format, OF that] t(5) [of d] by auto
  have 4: "dict_get (seq_id_to_chain_id u) q = None" if "dict_get (seq_id_to_chain_id s) q = None" for q
    using u(5) t(4) that by simp
  show ?case using 1 2 3 4 u(2) by blast
qed simp

text \<open>
  A plan applied to the state it was made in: the victims are gone, every other chain is as it was,
  and the requested chain is ACTIVE with the planned boundary.
\<close>

lemma apply_planned:
  assumes ok: "chain_ok s"
    and p: "plan_admission H c sid inp fp req rowd resv resr s = (Inr p, t)"
    and new: "plan_status p = ''created'' \<longrightarrow> dict_get (seq_id_to_chain_id s) sid = None"
  obtains r u where "apply_admission p fp t = (Inr r, u)" "chain_ok u" "dict_get (records u) c = Some r"
    "rec_state r = ACTIVE" "rec_seq_id r = sid" "rec_fingerprint r = fp"
    "processed_token_count r = plan_reused_tokens p"
    "rec_reserved_slots r = map (max 0) resv" "rec_reserved_rows r = max 0 resr"
    "\<forall>d. d \<noteq> c \<longrightarrow> dict_get (records u) d =
       (if d \<in> set (victim_chain_ids p) then None else dict_get (records s) d)"
proof -
  note v = victims_idle [OF ok p]
  obtain victims rows slots where q: "check_resume H c sid inp fp s = (Inr (plan_status p, plan_reused_tokens p), s)"
    "plan_chain_id p = c" "plan_seq_id p = sid" "plan_input_token_count p = input_count inp"
    "plan_reserved_slots p = map (max 0) resv" "plan_reserved_rows p = max 0 resr"
    by (rule plan_admission_Inr [OF p])
  obtain w where w: "evict_all (victim_chain_ids p) s = (Inr (), w)" "chain_ok w"
    "\<And>d. dict_get (records w) d = (if d \<in> set (victim_chain_ids p) then None else dict_get (records s) d)"
    "\<And>d. dict_get (tombstones w) d \<noteq> None \<Longrightarrow> d \<in> set (victim_chain_ids p) \<or> dict_get (tombstones s) d \<noteq> None"
    "\<And>q. dict_get (seq_id_to_chain_id s) q = None \<Longrightarrow> dict_get (seq_id_to_chain_id w) q = None"
    using evict_all_idle [OF ok v(2,4)] by blast
  have cw: "dict_get (records w) c = dict_get (records s) c" using w(3) v(3) by simp
  show thesis
  proof (cases "dict_get (records s) c")
    case None
    note k = check_resume_Inr(2) [OF q(1) None]
    let ?r = "\<lparr>rec_chain_id = c, rec_seq_id = sid, rec_fingerprint = fp,
        rec_state = ACTIVE, processed_token_count = 0, processed_token_digest = [],
        history_tokens = [], last_input_token_count = plan_input_token_count p,
        rec_last_access = chain_clock w + 1, physical_slots_by_layer = [], resident_rows = 1,
        rec_reserved_slots = map (max 0) resv, rec_reserved_rows = max 0 resr\<rparr>"
    have sq: "dict_get (seq_id_to_chain_id w) sid = None" using new k w(5) by simp
    obtain u where u: "admit_created p fp w = (Inr ?r, u)" "records u = dict_set c ?r (records w)"
      using q(2-6) cw None sq by (simp add: admit_created_def Let_def chain_tick_def)
    have tw: "dict_get (tombstones w) (plan_chain_id p) = None" using w(4) [of c] v(3) k q(2) by metis
    have uok: "chain_ok u" using admit_created_ok [OF w(2) tw, of fp] u(1) by simp
    have ap: "apply_admission p fp t = (Inr ?r, u)" using w(1) u(1) k v(1) by (simp add: apply_admission_def)
    show thesis by (rule that [OF ap uok]) (use u(2) w(3) k in simp_all)
  next
    case (Some r)
    note k = check_resume_Inr(3) [OF q(1) Some]
    let ?r = "r\<lparr>rec_state := ACTIVE, last_input_token_count := plan_input_token_count p,
        rec_last_access := chain_clock w + 1, rec_reserved_slots := map (max 0) resv,
        rec_reserved_rows := max 0 resr\<rparr>"
    obtain u where u: "admit_resumed p w = (Inr ?r, u)" "records u = dict_set c ?r (records w)"
      using q(2-6) cw Some k by (simp add: admit_resumed_def Let_def chain_tick_def chain_lookup_def)
    have uok: "chain_ok u" using admit_resumed_ok [OF w(2), of p] u(1) by simp
    have ap: "apply_admission p fp t = (Inr ?r, u)" using w(1) u(1) k v(1) by (simp add: apply_admission_def)
    show thesis by (rule that [OF ap uok]) (use u(2) w(3) k in simp_all)
  qed
qed

lemma apply_admission_ok:
  assumes ok: "chain_ok s"
    and p: "plan_admission H c sid inp fp req rowd resv resr s = (Inr p, t)"
  shows "chain_ok (snd (apply_admission p fp t))"
proof -
  note v = victims_idle [OF ok p]
  obtain victims rows slots where q: "check_resume H c sid inp fp s = (Inr (plan_status p, plan_reused_tokens p), s)"
    "plan_chain_id p = c" by (rule plan_admission_Inr [OF p])
  obtain w where w: "evict_all (victim_chain_ids p) s = (Inr (), w)" "chain_ok w"
    "\<And>d. dict_get (tombstones w) d \<noteq> None \<Longrightarrow> d \<in> set (victim_chain_ids p) \<or> dict_get (tombstones s) d \<noteq> None"
    using evict_all_idle [OF ok v(2,4)] by blast
  show ?thesis
  proof (cases "plan_status p = ''created''")
    case True
    have "dict_get (tombstones s) c = None"
      using check_resume_Inr(2) [OF q(1)] chain_okD(7) [OF ok, of c] by (cases "dict_get (records s) c") auto
    then have "dict_get (tombstones w) (plan_chain_id p) = None" using w(3) [of c] v(3) q(2) by metis
    then show ?thesis using admit_created_ok [OF w(2)] w(1) v(1) True by (simp add: apply_admission_def)
  next
    case False
    then show ?thesis using admit_resumed_ok [OF w(2)] w(1) v(1) by (simp add: apply_admission_def)
  qed
qed

section \<open>Turns\<close>

lemma finish_digest_Inr:
  assumes "finish_digest c d n slots rows s = (Inr r, t)"
  obtains r0 where "dict_get (records s) c = Some r0" "rec_state r0 = ACTIVE" "processed_token_count r0 \<le> n"
    "length d = 32"
    "r = r0\<lparr>processed_token_digest := d, processed_token_count := n, physical_slots_by_layer := slots,
       resident_rows := rows, rec_reserved_slots := [], rec_reserved_rows := 0, rec_state := IDLE,
       rec_last_access := chain_clock s + 1\<rparr>"
    "records t = dict_set c r (records s)" "tombstones t = tombstones s"
    "token_history_tokens t = token_history_tokens s"
    "max_token_history_tokens t = max_token_history_tokens s"
    "seq_id_to_chain_id t = seq_id_to_chain_id s"
  using assms that
  by (auto simp: finish_digest_def chain_tick_def chain_lookup_def Let_def not_less
      split: option.splits if_splits)

lemma prepare_history_cong:
  assumes "history_tokens r = history_tokens r'" "rec_chain_id r = rec_chain_id r'"
    "token_history_tokens s = token_history_tokens t"
    "max_token_history_tokens s = max_token_history_tokens t"
  shows "prepare_token_history s r ts n = prepare_token_history t r' ts n"
  unfolding prepare_token_history_def assms ..

lemma chain_finish_ok:
  assumes ok: "chain_ok s"
  shows "chain_ok (snd (chain_finish H c ts n slots rows s))"
proof (cases "\<exists>r ws d r1 t. chain_lookup c s = Inr r \<and> prepare_token_history s r ts n = Inr ws
    \<and> stable_token_digest H ts (Some n) = Inr d \<and> finish_digest c d n slots rows s = (Inr r1, t)")
  case True
  then obtain r ws d r1 t where 1: "chain_lookup c s = Inr r" "prepare_token_history s r ts n = Inr ws"
    "stable_token_digest H ts (Some n) = Inr d" "finish_digest c d n slots rows s = (Inr r1, t)" by blast
  obtain r0 where r0: "dict_get (records s) c = Some r0" "history_tokens r1 = history_tokens r0"
    "rec_chain_id r1 = rec_chain_id r0" "records t = dict_set c r1 (records s)"
    "token_history_tokens t = token_history_tokens s"
    "max_token_history_tokens t = max_token_history_tokens s"
    by (rule finish_digest_Inr [OF 1(4)]) auto
  have rr: "r0 = r" using 1(1) r0(1) by (simp add: chain_lookup_Inr)
  have tok: "chain_ok t" using finish_digest_ok [OF ok, of c d n slots rows] 1(4) by simp
  have pt: "prepare_token_history t r1 ts n = Inr ws"
    using prepare_history_cong [of r1 r t s ts n] r0 rr 1(2) by simp
  have g: "dict_get (records t) c = Some r1" using r0(4) by simp
  show ?thesis using store_history_ok [OF tok g pt] 1 by (simp add: chain_finish_def)
next
  case False
  show ?thesis
  proof (cases "chain_lookup c s")
    case r: (Inr r)
    show ?thesis
    proof (cases "prepare_token_history s r ts n")
      case ws: (Inr ws)
      show ?thesis
      proof (cases "stable_token_digest H ts (Some n)")
        case d: (Inr d)
        obtain x t where f: "finish_digest c d n slots rows s = (x, t)" by fastforce
        have "chain_ok t" using finish_digest_ok [OF ok, of c d n slots rows] f by simp
        moreover obtain e where "x = Inl e" using False r ws d f by (cases x) auto
        ultimately show ?thesis using r ws d f ok by (simp add: chain_finish_def)
      qed (use r ws ok in \<open>simp add: chain_finish_def\<close>)
    qed (use r ok in \<open>simp add: chain_finish_def\<close>)
  qed (use ok in \<open>simp add: chain_finish_def\<close>)
qed

lemma finish_values_ok: "chain_ok s \<Longrightarrow> chain_ok (snd (finish_values V c sid d n s))"
  by (auto simp: finish_values_def finish_digest_ok split: sum.splits)

lemma remember_Inr:
  assumes "remember_processed_tokens H c sid ts n s = (Inr r, t)"
  obtains r0 ws where "dict_get (records s) c = Some r0" "rec_seq_id r0 = sid" "rec_state r0 = IDLE"
    "prepare_token_history s r0 ts n = Inr ws" "n = processed_token_count r0"
    "stable_token_digest H (map uint ws) (Some n) = Inr (processed_token_digest r0)"
    "r = r0\<lparr>history_tokens := ws\<rparr>" "t = store_token_history c r0 ws s"
  using assms that
  by (auto simp: remember_processed_tokens_def chain_lookup_Inr split: sum.splits if_splits)

lemma remember_state:
  assumes "remember_processed_tokens H c sid ts n s = (Inl e, t)"
  shows "t = s"
  using assms by (auto simp: remember_processed_tokens_def split: sum.splits if_splits)

lemma remember_ok:
  assumes ok: "chain_ok s"
  shows "chain_ok (snd (remember_processed_tokens H c sid ts n s))"
proof (cases "remember_processed_tokens H c sid ts n s")
  case (Pair x t)
  show ?thesis
  proof (cases x)
    case (Inl e)
    then show ?thesis using Pair remember_state ok by fastforce
  next
    case (Inr r)
    then show ?thesis using Pair ok
      by (auto elim!: remember_Inr intro!: store_history_ok)
  qed
qed

section \<open>Histories\<close>

text \<open>The indexes that a sequence of calls reaches; an admission applies the plan it just made.\<close>

inductive chain_run :: "(bytes \<Rightarrow> bytes) \<Rightarrow> chain_index \<Rightarrow> bool" for H where
  made: "make_chain_index tombs history = Inr s \<Longrightarrow> chain_run H s"
| refused: "chain_run H s \<Longrightarrow> plan_admission H c sid inp fp req rowd resv resr s = (Inl e, t) \<Longrightarrow> chain_run H t"
| admitted: "chain_run H s \<Longrightarrow> plan_admission H c sid inp fp req rowd resv resr s = (Inr p, t)
    \<Longrightarrow> apply_admission p fp t = (x, u) \<Longrightarrow> chain_run H u"
| finished: "chain_run H s \<Longrightarrow> chain_finish H c ts n slots rows s = (x, t) \<Longrightarrow> chain_run H t"
| digested: "chain_run H s \<Longrightarrow> finish_values V c sid d n s = (x, t) \<Longrightarrow> chain_run H t"
| remembered: "chain_run H s \<Longrightarrow> remember_processed_tokens H c sid ts n s = (x, t) \<Longrightarrow> chain_run H t"
| evicted: "chain_run H s \<Longrightarrow> chain_evict c s = (x, t) \<Longrightarrow> chain_run H t"
| invalidated: "chain_run H s \<Longrightarrow> chain_invalidate c s = (x, t) \<Longrightarrow> chain_run H t"
| cleared: "chain_run H s \<Longrightarrow> chain_run H (chain_reset s)"

lemma chain_ok_reset:
  assumes ok: "chain_ok s"
  shows "chain_ok (chain_reset s)"
proof -
  have "0 \<le> dict_sum history_len (records s)"
    unfolding dict_sum_def by (rule sum_list_nonneg) (auto simp: history_len_def)
  then have "0 \<le> m" if "max_token_history_tokens s = Some m" for m
    using chain_okD(8) [OF ok] chain_okD(9) [OF ok that] by linarith
  then show ?thesis
    using ok by (simp add: chain_ok_def chain_reset_def owners_ok_def histories_ok_def dict_sum_def)
qed

lemma chain_run_ok: "chain_run H s \<Longrightarrow> chain_ok s"
proof (induction rule: chain_run.induct)
  case (made tombs history s)
  then show ?case by (rule chain_ok_make)
next
  case (refused s c sid inp fp req rowd resv resr e t)
  then show ?case using plan_admission_state [OF refused.hyps(2)] by auto
next
  case (admitted s c sid inp fp req rowd resv resr p t x u)
  then show ?case using apply_admission_ok [OF admitted.IH admitted.hyps(2)] by simp
next
  case (finished s c ts n slots rows x t)
  then show ?case using chain_finish_ok by (metis snd_conv)
next
  case (digested s V c sid d n x t)
  then show ?case using finish_values_ok by (metis snd_conv)
next
  case (remembered s c sid ts n x t)
  then show ?case using remember_ok by (metis snd_conv)
next
  case (evicted s c x t)
  then show ?case using chain_evict_ok by (metis snd_conv)
next
  case (invalidated s c x t)
  then show ?case using chain_invalidate_ok by (metis snd_conv)
next
  case (cleared s)
  then show ?case by (intro chain_ok_reset)
qed

section \<open>Victims and routing\<close>

lemma check_resume_no_capacity: "check_resume H c sid inp fp s \<noteq> (Inl (ChainCapacity d), t)"
proof
  assume "check_resume H c sid inp fp s = (Inl (ChainCapacity d), t)"
  then show False
    by (cases inp) (auto simp: check_resume_def stable_token_digest_def Let_def
        split: option.splits if_splits sum.splits chain_error.splits)
qed

lemma planned_victims:
  assumes ok: "chain_ok s" and pay: "\<forall>r\<in>set (idle_candidates s c). payload_ok r"
    and p: "plan_admission H c sid inp fp req rowd resv resr s = (out, t)"
  shows "(\<forall>p. out = Inr p \<longrightarrow> (\<exists>k\<le>length (idle_candidates s c).
        victim_chain_ids p = map rec_chain_id (take k (idle_candidates s c))
        \<and> frees (take k (idle_candidates s c)) rowd req
        \<and> (\<forall>j<k. \<not> frees (take j (idle_candidates s c)) rowd req)))
    \<and> (\<forall>d. out = Inl (ChainCapacity d) \<longrightarrow> \<not> frees (idle_candidates s c) rowd req)"
proof -
  let ?L = "idle_candidates s c"
  have pay': "\<forall>r\<in>set (take k ?L). payload_ok r" for k using pay by (meson in_set_takeD)
  note pos = frees_positive [OF pay']
  obtain y u where y: "check_resume H c sid inp fp s = (y, u)" by fastforce
  show ?thesis
  proof (cases y)
    case (Inl err)
    then have "out = Inl err" using p y by (simp add: plan_admission_def bindE_run)
    then show ?thesis using y Inl check_resume_no_capacity by force
  next
    case (Inr z)
    obtain st n where z: "z = (st, n)" by (cases z)
    have u: "u = s" using check_resume_Inr(1) y Inr z by blast
    obtain ids rows slots where pv: "pick_victims ?L (max 0 rowd) (map (max 0) req) = (ids, rows, slots)"
      by (metis prod_cases3)
    obtain k where k: "k \<le> length ?L" "ids = map rec_chain_id (take k ?L)"
      "\<forall>j<k. \<not> frees (take j ?L) (max 0 rowd) (map (max 0) req)"
      "rows \<le> 0 \<and> \<not> (\<exists>d\<in>set slots. d \<noteq> 0) \<longleftrightarrow> frees (take k ?L) (max 0 rowd) (map (max 0) req)"
      "k < length ?L \<longrightarrow> frees (take k ?L) (max 0 rowd) (map (max 0) req)"
      using pick_victims_spec [OF pay _ _ pv] by auto
    note k' = k(3-5) [unfolded pos]
    show ?thesis
    proof (cases "0 < rows \<or> (\<exists>d\<in>set slots. d \<noteq> 0)")
      case True
      then have "out = Inl (ChainCapacity c)"
        using p y Inr z u pv by (simp add: plan_admission_def bindE_run)
      moreover have "\<not> frees (take k ?L) rowd req" using k'(2) True by auto
      moreover have "take k ?L = ?L" using k'(3) calculation(2) k(1) by auto
      ultimately show ?thesis by simp
    next
      case False
      then have "\<exists>p. out = Inr p \<and> victim_chain_ids p = ids"
        using p y Inr z u pv by (auto simp: plan_admission_def bindE_run)
      moreover have "frees (take k ?L) rowd req" using k'(2) False by auto
      ultimately show ?thesis using k(1,2) k'(1) by auto
    qed
  qed
qed

lemma snapshot_match:
  assumes ok: "chain_ok s"
  shows "chain_snapshot_match (chain_routing_snapshot s) c = routing_match s c"
proof -
  note D = chain_okD(1,4) [OF ok]
  have ids: "c \<in> rec_chain_id ` set (filter P (map snd (records s)))
      \<longleftrightarrow> (\<exists>r. dict_get (records s) c = Some r \<and> P r)" for P
  proof
    assume "c \<in> rec_chain_id ` set (filter P (map snd (records s)))"
    then obtain d r where "(d, r) \<in> set (records s)" "P r" "c = rec_chain_id r" by auto
    then show "\<exists>r. dict_get (records s) c = Some r \<and> P r"
      using dict_get_mem [OF D(1), of d r] D(2) [of d r] by auto
  next
    assume "\<exists>r. dict_get (records s) c = Some r \<and> P r"
    then obtain r where r: "dict_get (records s) c = Some r" "P r" by blast
    then have "(c, r) \<in> set (records s)" "rec_chain_id r = c" using D(2) map_of_SomeD by auto
    then show "c \<in> rec_chain_id ` set (filter P (map snd (records s)))" using r(2) by force
  qed
  have tomb: "c \<in> set (map fst (tombstones s)) \<longleftrightarrow> dict_get (tombstones s) c \<noteq> None"
    by (metis list.set_map map_of_eq_None_iff)
  show ?thesis
    unfolding chain_snapshot_match_def chain_routing_snapshot_def routing_match_def
    using ids [of "\<lambda>r. rec_state r = ACTIVE"] ids [of "\<lambda>r. rec_state r = IDLE"] tomb chain_state.exhaust
    by (auto split: option.splits)
qed

end
