(* ===== verification/Chain_Engine.thy ===== *)
theory Chain_Engine
  imports Chain_Runs Engine_Reach Method_Registry
begin

text \<open>
  Chains in the engine: the chain half of \<open>RuntimeState\<close> (\<open>engine/runtime_state.py\<close>) and the
  chain mode of \<open>LLMEngine\<close> (\<open>engine/llm_engine.py\<close>): admission of a request, its end, abort
  and discard. Prompts are token lists; tokenizer and multimodal inputs are left out. The random
  \<open>new_chain_id\<close> is an argument. \<open>model_runner.call\<close> runs an operation on every rank; this is
  the state of rank 0.
\<close>

section \<open>State\<close>

text \<open>The cache manager: its hooks read the memory, the two calls change it.\<close>

record 'm chain_memory =
  hooks_of :: "'m \<Rightarrow> chain_hooks"
  free_seq :: "int \<Rightarrow> 'm \<Rightarrow> 'm"
  on_chain_turn_finished :: "int \<Rightarrow> int \<Rightarrow> 'm \<Rightarrow> 'm"

record chain_config =
  chain_max_model_len :: int
  chain_sparse_method :: string
  chain_fingerprint :: bytes

record 'm chain_engine =
  chain_cache :: chain_index
  resident_seq_ids :: "int list"
  active_chain_sequences :: "(int, nat) dict"
  sch :: "'m sched"

type_synonym ('m, 'a) engine_op = "('m chain_engine, chain_error, 'a) eff"

definition chain_call :: "'a chain_op \<Rightarrow> ('m, 'a) engine_op" where
  "chain_call f e = (case f (chain_cache e) of (r, s) \<Rightarrow> (r, e\<lparr>chain_cache := s\<rparr>))"

definition memory :: "'m chain_engine \<Rightarrow> 'm" where
  "memory e = mem (sch e)"

definition set_memory :: "('m \<Rightarrow> 'm) \<Rightarrow> 'm chain_engine \<Rightarrow> 'm chain_engine" where
  "set_memory f e = e\<lparr>sch := (sch e)\<lparr>mem := f (mem (sch e))\<rparr>\<rparr>"

section \<open>Runtime state\<close>

definition free_seq_payload :: "'m chain_memory \<Rightarrow> int \<Rightarrow> 'm chain_engine \<Rightarrow> 'm chain_engine" where
  "free_seq_payload K sid e =
     (set_memory (free_seq K sid) e)\<lparr>resident_seq_ids := set_discard sid (resident_seq_ids e)\<rparr>"

definition on_chain_prompt_admitted :: "int \<Rightarrow> int \<Rightarrow> 'm chain_engine \<Rightarrow> 'm chain_engine" where
  "on_chain_prompt_admitted sid cost e =
     (if 0 < cost then e\<lparr>resident_seq_ids := set_add sid (resident_seq_ids e)\<rparr> else e)"

definition chain_admission_plan ::
    "(bytes \<Rightarrow> bytes) \<Rightarrow> chain_config \<Rightarrow> 'm chain_memory \<Rightarrow> string \<Rightarrow> int \<Rightarrow> int list \<Rightarrow> int
       \<Rightarrow> ('m, chain_plan) engine_op" where
  "chain_admission_plan H C K c sid ts generation e =
     chain_call (coordinator_plan H (chain_fingerprint C) (hooks_of K (memory e)) c sid (Tokens ts) generation) e"

definition chain_validate_admission_plan ::
    "(bytes \<Rightarrow> bytes) \<Rightarrow> chain_config \<Rightarrow> 'm chain_memory \<Rightarrow> chain_plan \<Rightarrow> int \<Rightarrow> bytes \<Rightarrow> int
       \<Rightarrow> ('m, chain_plan) engine_op" where
  "chain_validate_admission_plan H C K p n digest generation e =
     chain_call (validate_admission_plan H (chain_fingerprint C) (hooks_of K (memory e)) p n digest generation) e"

definition chain_apply_admission ::
    "chain_config \<Rightarrow> 'm chain_memory \<Rightarrow> chain_plan \<Rightarrow> ('m, chain_record) engine_op" where
  "chain_apply_admission C K p e =
     (case mapE (\<lambda>c. chain_lookup c (chain_cache e)) (victim_chain_ids p) of
        Inl err \<Rightarrow> (Inl err, e)
      | Inr victims \<Rightarrow>
          bindE (chain_call (apply_admission p (chain_fingerprint C)))
            (\<lambda>r e. (Inr r, fold (free_seq_payload K) (map rec_seq_id victims) e)) e)"

definition runtime_chain_finish ::
    "'m chain_memory \<Rightarrow> string \<Rightarrow> int \<Rightarrow> bytes \<Rightarrow> int \<Rightarrow> ('m, chain_record) engine_op" where
  "runtime_chain_finish K c sid digest processed e =
     (let e1 = set_memory (on_chain_turn_finished K sid processed) e
      in chain_call (finish_values (hooks_of K (memory e1)) c sid digest processed) e1)"

definition runtime_chain_invalidate ::
    "'m chain_memory \<Rightarrow> string \<Rightarrow> int option \<Rightarrow> ('m, chain_record) engine_op" where
  "runtime_chain_invalidate K c expected e =
     (case chain_lookup c (chain_cache e) of
        Inl err \<Rightarrow> (Inl err, e)
      | Inr r \<Rightarrow>
          if (case expected of None \<Rightarrow> False | Some sid \<Rightarrow> rec_seq_id r \<noteq> sid)
          then (Inl (ChainOwnerMismatch (Some c)), e)
          else
            bindE (chain_call (chain_invalidate c))
              (\<lambda>r e. (Inr r,
                 if is_resident (hooks_of K (memory e)) r then free_seq_payload K (rec_seq_id r) e
                 else e\<lparr>resident_seq_ids := set_discard (rec_seq_id r) (resident_seq_ids e)\<rparr>)) e)"

definition reset_chains_after_warmup :: "'m chain_memory \<Rightarrow> 'm chain_engine \<Rightarrow> 'm chain_engine" where
  "reset_chains_after_warmup K e =
     (let sids = sorted_list_of_set
            (rec_seq_id ` set (map snd (records (chain_cache e))) \<inter> set (resident_seq_ids e));
          e1 = fold (free_seq_payload K) sids e
      in e1\<lparr>chain_cache := chain_reset (chain_cache e1), resident_seq_ids := []\<rparr>)"

section \<open>Admission of a request\<close>

record request_admission =
  admitted_seq_id :: int
  admitted_chain_id :: string
  admitted_status :: string
  admitted_reused :: int
  admitted_prefilled :: int
  admitted_prompt :: "int list"

text \<open>The existing chain of a request that names one, else none.\<close>

definition existing_chain :: "string \<Rightarrow> chain_index \<Rightarrow> chain_error + chain_record option" where
  "existing_chain c s = (if c = [] then Inr None else map_sum id Some (chain_lookup c s))"

definition request_prompt ::
    "string \<Rightarrow> bool \<Rightarrow> chain_record option \<Rightarrow> int list \<Rightarrow> chain_error + int list" where
  "request_prompt c append_only existing ts =
     (if append_only then
        (case existing of
           None \<Rightarrow> Inl (ChainNotFound c)
         | Some r \<Rightarrow>
             if ts = [] then Inl (ChainPrefixMismatch (Some c))
             else Inr (map uint (history_tokens r) @ ts))
      else Inr ts)"

text \<open>
  A plan for the chain the request names. On a token-prefix mismatch the chain is dropped and one
  with a new id is planned for the same sequence id, unless the request may only append. The
  result is the plan and whether the chain was recreated.
\<close>

definition plan_request ::
    "(bytes \<Rightarrow> bytes) \<Rightarrow> chain_config \<Rightarrow> 'm chain_memory \<Rightarrow> string \<Rightarrow> string \<Rightarrow> chain_record option \<Rightarrow> bool
       \<Rightarrow> int \<Rightarrow> int list \<Rightarrow> int \<Rightarrow> ('m, chain_plan \<times> bool) engine_op" where
  "plan_request H C K c new_id existing append_only sid ts max_toks e =
     (case chain_admission_plan H C K c sid ts max_toks e of
        (Inr p, e1) \<Rightarrow> (Inr (p, False), e1)
      | (Inl (ChainPrefixMismatch d), e1) \<Rightarrow>
          (case existing of
             None \<Rightarrow> (Inl (ChainPrefixMismatch d), e1)
           | Some r \<Rightarrow>
               if append_only then (Inl (ChainPrefixMismatch d), e1)
               else
                 bindE (runtime_chain_invalidate K c (Some (rec_seq_id r))) (\<lambda>_.
                 bindE (chain_admission_plan H C K new_id sid ts max_toks) (\<lambda>p.
                   retE (p, True))) e1)
      | (Inl err, e1) \<Rightarrow> (Inl err, e1))"

definition chain_sequence :: "chain_config \<Rightarrow> chain_plan \<Rightarrow> string \<Rightarrow> seq \<Rightarrow> seq" where
  "chain_sequence C p st q =
     q\<lparr>chain_id := Some (plan_chain_id p), chain_status := st, chain_reused_tokens := plan_reused_tokens p,
       num_prefilled_tokens := plan_reused_tokens p, prefix_cache_enabled := True,
       prefix_cache_hit_len := plan_reused_tokens p, prefix_cache_method := chain_sparse_method C\<rparr>"

definition commit_request ::
    "(bytes \<Rightarrow> bytes) \<Rightarrow> chain_config \<Rightarrow> 'm chain_memory \<Rightarrow> nat \<Rightarrow> seq \<Rightarrow> chain_plan \<Rightarrow> bool
       \<Rightarrow> ('m, request_admission) engine_op" where
  "commit_request H C K x q p recreated =
     (let ts = seq_tokens q; n = int (length ts); reused = plan_reused_tokens p;
          max_toks = max_tokens (sampling q);
          st = (if recreated then ''recreated'' else plan_status p)
      in bindE (failIf (plan_status p = ''resumed'' \<and> n \<le> reused)
               (ChainPrefixMismatch (Some (plan_chain_id p)))) (\<lambda>_.
         bindE (liftE (stable_token_digest H ts (Some reused))) (\<lambda>digest.
         bindE (chain_validate_admission_plan H C K p n digest max_toks) (\<lambda>_.
         bindE (chain_apply_admission C K p) (\<lambda>_.
         bindE (modifyE (\<lambda>e. e\<lparr>sch := add_seq x (set_seq x (\<lambda>_. chain_sequence C p st q) (sch e)),
                    active_chain_sequences := dict_set (seq_id q) x (active_chain_sequences e)\<rparr>)) (\<lambda>_.
         retE \<lparr>admitted_seq_id = seq_id q, admitted_chain_id = plan_chain_id p,
               admitted_status = st, admitted_reused = reused,
               admitted_prefilled = n - reused, admitted_prompt = ts\<rparr>))))))"

text \<open>
  \<open>x\<close> is the new sequence object, \<open>sid\<close> the identity its constructor draws; a request for an
  existing chain takes over the chain's identity.
\<close>

definition admit_chain_request ::
    "(bytes \<Rightarrow> bytes) \<Rightarrow> chain_config \<Rightarrow> 'm chain_memory \<Rightarrow> nat \<Rightarrow> int \<Rightarrow> string \<Rightarrow> int list
       \<Rightarrow> sampling_params \<Rightarrow> string option \<Rightarrow> bool \<Rightarrow> ('m, request_admission) engine_op" where
  "admit_chain_request H C K x sid new_id ts sp chain_arg append_only =
     (let c = py_strip (case chain_arg of None \<Rightarrow> [] | Some a \<Rightarrow> a) in
      bindE (\<lambda>e. (existing_chain c (chain_cache e), e)) (\<lambda>existing.
      bindE (liftE (request_prompt c append_only existing ts)) (\<lambda>prompt.
      bindE (failIf (chain_max_model_len C < int (length prompt) + max_tokens sp)
               (Raised (ValueError ''Prompt length + max_tokens exceeds max_model_len: ''))) (\<lambda>_.
        let owner = (case existing of None \<Rightarrow> sid | Some r \<Rightarrow> rec_seq_id r)
        in bindE (plan_request H C K (if c = [] then new_id else c) new_id existing append_only owner
                    prompt (max_tokens sp))
             (\<lambda>(p, recreated). commit_request H C K x (make_seq owner prompt sp) p recreated)))))"

section \<open>The end of a request\<close>

text \<open>
  A finished sequence of the step: a chain goes idle and remembers its tokens, any other sequence
  is left to \<open>finish_slots_batch\<close>. The result tells whether it was a chain.
\<close>

definition finish_request ::
    "(bytes \<Rightarrow> bytes) \<Rightarrow> 'm chain_memory \<Rightarrow> nat \<Rightarrow> ('m, bool) engine_op" where
  "finish_request H K x e =
     (let sid = seq_id (sq (sch e) x) in
      case dict_get (active_chain_sequences e) sid of
        None \<Rightarrow> (Inr False, e)
      | Some y \<Rightarrow>
          (let q = sq (sch e) y; c = (case chain_id q of None \<Rightarrow> ''None'' | Some c \<Rightarrow> c);
               processed = max 0 (num_tokens q - 1);
               e1 = e\<lparr>active_chain_sequences := dict_del sid (active_chain_sequences e)\<rparr>
           in bindE (liftE (stable_token_digest H (seq_tokens q) (Some processed))) (\<lambda>digest.
              bindE (runtime_chain_finish K c (seq_id q) digest processed) (\<lambda>_.
              bindE (chain_call (remember_processed_tokens H c (seq_id q) (seq_tokens q) processed)) (\<lambda>_.
                retE True))) e1))"

definition pop_active :: "int \<Rightarrow> 'm chain_engine \<Rightarrow> 'm chain_engine" where
  "pop_active sid e = e\<lparr>active_chain_sequences := dict_del sid (active_chain_sequences e)\<rparr>"

definition scheduler_abort :: "('m, 'k) memory_oracle \<Rightarrow> int \<Rightarrow> 'm chain_engine \<Rightarrow> bool \<times> 'm chain_engine" where
  "scheduler_abort M sid e = (case abort M sid (sch e) of (b, s) \<Rightarrow> (b, e\<lparr>sch := s\<rparr>))"

text \<open>\<open>abort_request\<close> with its only disposition \<open>invalidate\<close>, for text requests.\<close>

definition abort_chain_request ::
    "('m, 'k) memory_oracle \<Rightarrow> 'm chain_memory \<Rightarrow> int \<Rightarrow> ('m, unit) engine_op" where
  "abort_chain_request M K sid e =
     (let active = dict_get (active_chain_sequences e) sid;
          (should_free, e1) = scheduler_abort M sid e
      in case active of
           Some y \<Rightarrow>
             (let q = sq (sch e1) y; c = (case chain_id q of None \<Rightarrow> ''None'' | Some c \<Rightarrow> c)
              in bindE (runtime_chain_invalidate K c (Some (seq_id q))) (\<lambda>_. retE ()) (pop_active sid e1))
         | None \<Rightarrow>
             (case dict_get (seq_id_to_chain_id (chain_cache e1)) sid of
                Some c \<Rightarrow> bindE (runtime_chain_invalidate K c (Some sid)) (\<lambda>_. retE ()) e1
              | None \<Rightarrow> (Inr (), if should_free then free_seq_payload K sid e1 else e1)))"

definition discard_chain ::
    "('m, 'k) memory_oracle \<Rightarrow> 'm chain_memory \<Rightarrow> string \<Rightarrow> int \<Rightarrow> ('m, bool) engine_op" where
  "discard_chain M K c expected e =
     (case dict_get (records (chain_cache e)) c of
        None \<Rightarrow> (Inr False, e)
      | Some r \<Rightarrow>
          if rec_seq_id r \<noteq> expected then (Inl (ChainOwnerMismatch (Some c)), e)
          else bindE (runtime_chain_invalidate K c (Some (rec_seq_id r))) (\<lambda>_. retE True)
                 (pop_active (rec_seq_id r) (snd (scheduler_abort M (rec_seq_id r) e))))"

definition engine_invalidate_chain :: "'m chain_memory \<Rightarrow> string \<Rightarrow> ('m, unit) engine_op" where
  "engine_invalidate_chain K c e =
     (case chain_lookup c (chain_cache e) of
        Inl err \<Rightarrow> (Inl err, e)
      | Inr r \<Rightarrow> bindE (runtime_chain_invalidate K c (Some (rec_seq_id r))) (\<lambda>_. retE ())
                   (pop_active (rec_seq_id r) e))"

text \<open>
  A forward pass that raised: every chain of the batch is dropped and leaves the scheduler; an
  error while dropping one is only logged.
\<close>

fun fail_requests ::
    "('m, 'k) memory_oracle \<Rightarrow> 'm chain_memory \<Rightarrow> nat list \<Rightarrow> 'm chain_engine \<Rightarrow> 'm chain_engine" where
  "fail_requests M K [] e = e"
| "fail_requests M K (x # xs) e =
     (let sid = seq_id (sq (sch e) x) in
      case dict_get (active_chain_sequences e) sid of
        None \<Rightarrow> fail_requests M K xs e
      | Some y \<Rightarrow>
          (let q = sq (sch e) y; c = (case chain_id q of None \<Rightarrow> ''None'' | Some c \<Rightarrow> c)
           in case runtime_chain_invalidate K c (Some (seq_id q)) (pop_active sid e) of
                (Inl err, e1) \<Rightarrow> fail_requests M K xs e1
              | (Inr r, e1) \<Rightarrow> fail_requests M K xs (snd (scheduler_abort M (seq_id q) e1))))"

end
