(* ===== verification/Chain_Engine_Correct.thy ===== *)
theory Chain_Engine_Correct
  imports Chain_Engine
begin

text \<open>
  The invariant that ties the chain index to the engine: active chains and active sequences
  correspond, and every resident row belongs to a chain.
\<close>

section \<open>The invariant\<close>

text \<open>
  Two sets of sequence ids record what went wrong before: \<open>L\<close> the sequences whose chain was
  invalidated while they were running (the scheduler keeps them), \<open>J\<close> those whose end raised.
\<close>

definition active_ok :: "int set \<Rightarrow> 'm chain_engine \<Rightarrow> bool" where
  "active_ok J e \<longleftrightarrow>
     (\<forall>sid x. dict_get (active_chain_sequences e) sid = Some x \<longrightarrow>
        seq_id (sq (sch e) x) = sid
        \<and> (\<exists>c r. chain_id (sq (sch e) x) = Some c \<and> dict_get (records (chain_cache e)) c = Some r
             \<and> rec_seq_id r = sid \<and> rec_state r = ACTIVE))
     \<and> (\<forall>c r. dict_get (records (chain_cache e)) c = Some r \<and> rec_state r = ACTIVE \<longrightarrow>
          dict_get (active_chain_sequences e) (rec_seq_id r) \<noteq> None \<or> rec_seq_id r \<in> J)"

definition residents_ok :: "int set \<Rightarrow> 'm chain_engine \<Rightarrow> bool" where
  "residents_ok L e \<longleftrightarrow>
     distinct (resident_seq_ids e)
     \<and> (\<forall>sid\<in>set (resident_seq_ids e).
          dict_get (seq_id_to_chain_id (chain_cache e)) sid \<noteq> None \<or> sid \<in> L)"

definition engine_chains_ok :: "int set \<Rightarrow> int set \<Rightarrow> 'm chain_engine \<Rightarrow> bool" where
  "engine_chains_ok L J e \<longleftrightarrow> chain_ok (chain_cache e) \<and> active_ok J e \<and> residents_ok L e"

lemma active_okD:
  assumes "active_ok J e"
  shows "dict_get (active_chain_sequences e) sid = Some x \<Longrightarrow> seq_id (sq (sch e) x) = sid"
    "dict_get (active_chain_sequences e) sid = Some x \<Longrightarrow>
       \<exists>c r. chain_id (sq (sch e) x) = Some c \<and> dict_get (records (chain_cache e)) c = Some r
         \<and> rec_seq_id r = sid \<and> rec_state r = ACTIVE"
    "dict_get (records (chain_cache e)) c = Some r \<Longrightarrow> rec_state r = ACTIVE \<Longrightarrow>
       dict_get (active_chain_sequences e) (rec_seq_id r) \<noteq> None \<or> rec_seq_id r \<in> J"
  using assms unfolding active_ok_def by blast+

lemma engine_chains_okD:
  assumes "engine_chains_ok L J e"
  shows "chain_ok (chain_cache e)" "active_ok J e" "residents_ok L e"
  using assms by (simp_all add: engine_chains_ok_def)

lemma free_seq_payload_simps [simp]:
  "chain_cache (free_seq_payload K sid e) = chain_cache e"
  "active_chain_sequences (free_seq_payload K sid e) = active_chain_sequences e"
  "sq (sch (free_seq_payload K sid e)) = sq (sch e)"
  "waiting (sch (free_seq_payload K sid e)) = waiting (sch e)"
  "decoding (sch (free_seq_payload K sid e)) = decoding (sch e)"
  "resident_seq_ids (free_seq_payload K sid e) = set_discard sid (resident_seq_ids e)"
  by (simp_all add: free_seq_payload_def set_memory_def)

lemma free_payloads_simps [simp]:
  "chain_cache (fold (free_seq_payload K) sids e) = chain_cache e"
  "active_chain_sequences (fold (free_seq_payload K) sids e) = active_chain_sequences e"
  "sq (sch (fold (free_seq_payload K) sids e)) = sq (sch e)"
  "waiting (sch (fold (free_seq_payload K) sids e)) = waiting (sch e)"
  "decoding (sch (fold (free_seq_payload K) sids e)) = decoding (sch e)"
  "resident_seq_ids (fold (free_seq_payload K) sids e) = filter (\<lambda>q. q \<notin> set sids) (resident_seq_ids e)"
  by (induction sids arbitrary: e) (auto simp: set_discard_def intro: filter_cong)

lemma pop_active_simps [simp]:
  "chain_cache (pop_active sid e) = chain_cache e" "sch (pop_active sid e) = sch e"
  "resident_seq_ids (pop_active sid e) = resident_seq_ids e"
  "active_chain_sequences (pop_active sid e) = dict_del sid (active_chain_sequences e)"
  by (simp_all add: pop_active_def)

lemma chain_call_run:
  "chain_call f e = (fst (f (chain_cache e)), e\<lparr>chain_cache := snd (f (chain_cache e))\<rparr>)"
  by (simp add: chain_call_def split: prod.split)

text \<open>What stays when the chain index only counts.\<close>

lemma engine_chains_cong:
  assumes "records (chain_cache e') = records (chain_cache e)"
    "seq_id_to_chain_id (chain_cache e') = seq_id_to_chain_id (chain_cache e)"
    "active_chain_sequences e' = active_chain_sequences e" "resident_seq_ids e' = resident_seq_ids e"
    "\<And>sid x. dict_get (active_chain_sequences e) sid = Some x \<Longrightarrow>
       seq_id (sq (sch e') x) = seq_id (sq (sch e) x) \<and> chain_id (sq (sch e') x) = chain_id (sq (sch e) x)"
    and ok: "engine_chains_ok L J e" "chain_ok (chain_cache e')"
  shows "engine_chains_ok L J e'"
proof -
  note D = active_okD [OF engine_chains_okD(2) [OF ok(1)]]
  have "active_ok J e'"
    unfolding active_ok_def assms(1,3)
  proof (intro conjI allI impI)
    fix sid x assume a: "dict_get (active_chain_sequences e) sid = Some x"
    show "seq_id (sq (sch e') x) = sid" using D(1) [OF a] assms(5) [OF a] by simp
    show "\<exists>c r. chain_id (sq (sch e') x) = Some c \<and> dict_get (records (chain_cache e)) c = Some r
        \<and> rec_seq_id r = sid \<and> rec_state r = ACTIVE" using D(2) [OF a] assms(5) [OF a] by simp
  qed (use D(3) in blast)
  moreover have "residents_ok L e'"
    using engine_chains_okD(3) [OF ok(1)] by (simp add: residents_ok_def assms(2,4))
  ultimately show ?thesis using ok(2) by (simp add: engine_chains_ok_def)
qed

section \<open>Dropping a chain\<close>

lemma chain_invalidate_Inr:
  assumes "dict_get (records s) c = Some r"
  obtains t where "chain_invalidate c s = (Inr (r\<lparr>history_tokens := []\<rparr>), t)"
    "records t = dict_del c (records s)"
    "seq_id_to_chain_id t = dict_del (rec_seq_id r) (seq_id_to_chain_id s)"
  using assms that by (simp add: chain_invalidate_def chain_lookup_def drop_chain_def)

text \<open>The engine's own tables and the scheduler, apart from its memory.\<close>

definition same_queues :: "'m chain_engine \<Rightarrow> 'm chain_engine \<Rightarrow> bool" where
  "same_queues e e' \<longleftrightarrow>
     active_chain_sequences e' = active_chain_sequences e \<and> sq (sch e') = sq (sch e)
     \<and> waiting (sch e') = waiting (sch e) \<and> decoding (sch e') = decoding (sch e)"

lemma same_queues_refl [simp]: "same_queues e e"
  by (simp add: same_queues_def)

lemma same_queues_trans: "same_queues e e' \<Longrightarrow> same_queues e' e'' \<Longrightarrow> same_queues e e''"
  by (simp add: same_queues_def)

text \<open>
  The state after a chain was dropped: it is in neither table, its row is released, and the rest
  is untouched.
\<close>

definition chain_dropped :: "string \<Rightarrow> int \<Rightarrow> 'm chain_engine \<Rightarrow> 'm chain_engine \<Rightarrow> bool" where
  "chain_dropped c sid e e' \<longleftrightarrow>
     records (chain_cache e') = dict_del c (records (chain_cache e))
     \<and> seq_id_to_chain_id (chain_cache e') = dict_del sid (seq_id_to_chain_id (chain_cache e))
     \<and> resident_seq_ids e' = set_discard sid (resident_seq_ids e)
     \<and> same_queues e e'"

lemma runtime_invalidate_run:
  assumes ok: "chain_ok (chain_cache e)" and r: "dict_get (records (chain_cache e)) c = Some r" "rec_seq_id r = sid"
  obtains w e' where "runtime_chain_invalidate K c (Some sid) e = (Inr w, e')" "chain_ok (chain_cache e')"
    "chain_dropped c sid e e'"
proof -
  obtain t where t: "chain_invalidate c (chain_cache e) = (Inr (r\<lparr>history_tokens := []\<rparr>), t)"
    "records t = dict_del c (records (chain_cache e))"
    "seq_id_to_chain_id t = dict_del (rec_seq_id r) (seq_id_to_chain_id (chain_cache e))"
    by (rule chain_invalidate_Inr [OF r(1)])
  have tok: "chain_ok t" using chain_invalidate_ok [OF ok, of c] t(1) by simp
  let ?e = "e\<lparr>chain_cache := t\<rparr>"
  let ?e' = "if is_resident (hooks_of K (memory ?e)) (r\<lparr>history_tokens := []\<rparr>)
      then free_seq_payload K sid ?e else ?e\<lparr>resident_seq_ids := set_discard sid (resident_seq_ids ?e)\<rparr>"
  have "runtime_chain_invalidate K c (Some sid) e = (Inr (r\<lparr>history_tokens := []\<rparr>), ?e')"
    using t(1) r by (simp add: runtime_chain_invalidate_def chain_lookup_def chain_call_run bindE_run)
  moreover have "chain_ok (chain_cache ?e')" using tok by simp
  moreover have "chain_dropped c sid e ?e'" using t r(2) by (simp add: chain_dropped_def same_queues_def)
  ultimately show thesis by (rule that)
qed

text \<open>An idle chain may be dropped as it is; an active one together with its sequence.\<close>

lemma dropped_ok:
  assumes ok: "engine_chains_ok L J e" and k: "chain_ok (chain_cache e')" and d: "chain_dropped c sid e e'"
    and r: "dict_get (records (chain_cache e)) c = Some r" "rec_seq_id r = sid"
  shows "dict_get (active_chain_sequences e) sid = None \<Longrightarrow> engine_chains_ok L J e'"
    and "engine_chains_ok L J (pop_active sid e')"
proof -
  note C = chain_okD [OF engine_chains_okD(1) [OF ok]]
  note A = active_okD [OF engine_chains_okD(2) [OF ok]]
  have R: "distinct (resident_seq_ids e)"
    "\<And>q. q \<in> set (resident_seq_ids e) \<Longrightarrow> dict_get (seq_id_to_chain_id (chain_cache e)) q \<noteq> None \<or> q \<in> L"
    using engine_chains_okD(3) [OF ok] by (auto simp: residents_ok_def)
  note D = d [unfolded chain_dropped_def same_queues_def]
  have res: "residents_ok L e'" "residents_ok L (pop_active sid e')"
    using D R by (auto simp: residents_ok_def)
  have other: "d = c" if "dict_get (records (chain_cache e)) d = Some r'" "rec_seq_id r' = sid" for d r'
    using C(5) [OF that(1)] C(5) [OF r(1)] that(2) r(2) by simp
  have act: "active_ok J e''"
    if e: "chain_cache e'' = chain_cache e'" "sq (sch e'') = sq (sch e)"
      "\<And>q. dict_get (active_chain_sequences e'') q = (if q = sid then None else dict_get (active_chain_sequences e) q)"
    for e'' :: "'a chain_engine"
    unfolding active_ok_def
  proof (intro conjI allI impI)
    fix q x assume a: "dict_get (active_chain_sequences e'') q = Some x"
    then have q: "q \<noteq> sid" "dict_get (active_chain_sequences e) q = Some x"
      unfolding e(3) by (auto split: if_splits)
    show "seq_id (sq (sch e'') x) = q" using A(1) [OF q(2)] e(2) by simp
    obtain c' r' where r': "chain_id (sq (sch e) x) = Some c'" "dict_get (records (chain_cache e)) c' = Some r'"
      "rec_seq_id r' = q" "rec_state r' = ACTIVE" using A(2) [OF q(2)] by blast
    have "c' \<noteq> c" using r'(2,3) r q(1) by auto
    then show "\<exists>c r. chain_id (sq (sch e'') x) = Some c \<and> dict_get (records (chain_cache e'')) c = Some r
        \<and> rec_seq_id r = q \<and> rec_state r = ACTIVE" using r' e(1,2) D by auto
  next
    fix d r' assume a: "dict_get (records (chain_cache e'')) d = Some r' \<and> rec_state r' = ACTIVE"
    then have d: "d \<noteq> c" "dict_get (records (chain_cache e)) d = Some r'" using e(1) D by (auto split: if_splits)
    then have "rec_seq_id r' \<noteq> sid" using other by blast
    then show "dict_get (active_chain_sequences e'') (rec_seq_id r') \<noteq> None \<or> rec_seq_id r' \<in> J"
      using A(3) [OF d(2)] a unfolding e(3) by simp
  qed
  show "engine_chains_ok L J (pop_active sid e')"
    using act [of "pop_active sid e'"] k res(2) D by (simp add: engine_chains_ok_def)
  show "engine_chains_ok L J e'" if "dict_get (active_chain_sequences e) sid = None"
    using act [of e'] k res(1) D that by (auto simp: engine_chains_ok_def)
qed

section \<open>Planning in the engine\<close>

abbreviation planned ::
    "(bytes \<Rightarrow> bytes) \<Rightarrow> chain_config \<Rightarrow> 'm chain_memory \<Rightarrow> string \<Rightarrow> int \<Rightarrow> int list \<Rightarrow> int \<Rightarrow> chain_plan
       \<Rightarrow> 'm chain_engine \<Rightarrow> bool" where
  "planned H C K c sid ts g p e \<equiv>
     coordinator_plan H (chain_fingerprint C) (hooks_of K (memory e)) c sid (Tokens ts) g (chain_cache e)
       = (Inr p, chain_cache e)"

lemma coordinator_plan_obtain:
  assumes "coordinator_plan H fp V c sid inp g s = (x, t)"
  obtains req rowd resv resr where "plan_admission H c sid inp fp req rowd resv resr s = (x, t)"
  using assms that by (auto simp: coordinator_plan_def split: prod.splits)

lemma coordinator_plan_state:
  assumes "coordinator_plan H fp V c sid inp g s = (x, t)"
  shows "t = s \<or> (\<exists>f. t = chain_count f s)" "x = Inr p \<Longrightarrow> t = s"
proof -
  obtain req rowd resv resr where p: "plan_admission H c sid inp fp req rowd resv resr s = (x, t)"
    by (rule coordinator_plan_obtain [OF assms])
  show "t = s \<or> (\<exists>f. t = chain_count f s)" by (rule plan_admission_state [OF p])
  show "t = s" if "x = Inr p"
    by (rule plan_admission_Inr [OF p [unfolded that]])
qed

lemma chain_plan_run:
  assumes "chain_admission_plan H C K c sid ts g e = (x, e')"
  obtains t where "coordinator_plan H (chain_fingerprint C) (hooks_of K (memory e)) c sid (Tokens ts) g
      (chain_cache e) = (x, t)" "e' = e\<lparr>chain_cache := t\<rparr>"
  using assms that by (simp add: chain_admission_plan_def chain_call_def split: prod.splits)

lemma chain_plan_cases:
  assumes e: "engine_chains_ok L J e" and p: "chain_admission_plan H C K c sid ts g e = (x, e')"
  shows "engine_chains_ok L J e'" "records (chain_cache e') = records (chain_cache e)"
    "x = Inr p' \<Longrightarrow> e' = e \<and> planned H C K c sid ts g p' e" "same_queues e e'"
proof -
  obtain t where t: "coordinator_plan H (chain_fingerprint C) (hooks_of K (memory e)) c sid (Tokens ts) g (chain_cache e)
      = (x, t)" "e' = e\<lparr>chain_cache := t\<rparr>"
    by (rule chain_plan_run [OF p])
  note s = coordinator_plan_state [OF t(1)]
  have same: "records t = records (chain_cache e)" "seq_id_to_chain_id t = seq_id_to_chain_id (chain_cache e)"
    "chain_ok t" using s(1) engine_chains_okD(1) [OF e] by auto
  show "engine_chains_ok L J e'"
    by (rule engine_chains_cong [OF _ _ _ _ _ e]) (simp_all add: t(2) same)
  show "records (chain_cache e') = records (chain_cache e)" by (simp add: t(2) same)
  show "same_queues e e'" by (simp add: t(2) same_queues_def)
  show "e' = e \<and> planned H C K c sid ts g p' e" if "x = Inr p'"
    using s(2) [OF that] t that by simp
qed

lemma plan_mismatch:
  assumes "plan_admission H c sid inp fp req rowd resv resr s = (Inl (ChainPrefixMismatch d), t)"
  shows "\<exists>r. dict_get (records s) c = Some r \<and> rec_state r = IDLE"
proof -
  obtain y u where y: "check_resume H c sid inp fp s = (y, u)" by fastforce
  have "y = Inl (ChainPrefixMismatch d)"
    using assms y by (cases y) (auto simp: plan_admission_def bindE_run split: prod.splits if_splits)
  then show ?thesis
    using y chain_state.exhaust
    by (auto simp: check_resume_def split: option.splits if_splits sum.splits chain_error.splits)
qed

lemma idle_not_active:
  assumes e: "engine_chains_ok L J e" and r: "dict_get (records (chain_cache e)) c = Some r" "rec_state r = IDLE"
  shows "dict_get (active_chain_sequences e) (rec_seq_id r) = None"
proof (rule ccontr)
  assume "dict_get (active_chain_sequences e) (rec_seq_id r) \<noteq> None"
  then obtain x where x: "dict_get (active_chain_sequences e) (rec_seq_id r) = Some x" by blast
  obtain c' r' where r': "dict_get (records (chain_cache e)) c' = Some r'" "rec_seq_id r' = rec_seq_id r"
    "rec_state r' = ACTIVE" using active_okD(2) [OF engine_chains_okD(2) [OF e] x] by blast
  note o = chain_okD(5) [OF engine_chains_okD(1) [OF e]]
  have "c' = c" using o [OF r'(1)] o [OF r(1)] r'(2) by simp
  then show False using r r' by simp
qed

text \<open>The plan of a request: for the chain it names, or for a new chain in place of a dropped one.\<close>

lemma plan_request_ok:
  assumes e: "engine_chains_ok L J e" and p: "plan_request H C K c nid existing app sid ts g e = (x, e')"
    and ex: "existing = None \<and> dict_get (seq_id_to_chain_id (chain_cache e)) sid = None
      \<or> (\<exists>r. existing = Some r \<and> dict_get (records (chain_cache e)) c = Some r \<and> rec_seq_id r = sid)"
  shows "engine_chains_ok L J e' \<and> same_queues e e'
    \<and> (records (chain_cache e') = records (chain_cache e)
       \<or> records (chain_cache e') = dict_del c (records (chain_cache e)) \<and> \<not> app \<and> existing \<noteq> None
         \<and> (\<exists>r. dict_get (records (chain_cache e)) c = Some r \<and> rec_state r = IDLE))
    \<and> (\<forall>p' recreated. x = Inr (p', recreated) \<longrightarrow>
      planned H C K (if recreated then nid else c) sid ts g p' e'
      \<and> (plan_status p' = ''created'' \<longrightarrow> dict_get (seq_id_to_chain_id (chain_cache e')) sid = None)
      \<and> (if recreated then dict_get (records (chain_cache e')) c = None else e' = e))"
proof -
  obtain y e1 where y: "chain_admission_plan H C K c sid ts g e = (y, e1)" by fastforce
  note c1 = chain_plan_cases [OF e y]
  show ?thesis
  proof (cases "\<exists>d r. y = Inl (ChainPrefixMismatch d) \<and> existing = Some r \<and> \<not> app")
    case True
    then obtain d r where d: "y = Inl (ChainPrefixMismatch d)" and r: "existing = Some r" "\<not> app" by blast
    have r0: "dict_get (records (chain_cache e)) c = Some r" "rec_seq_id r = sid" using ex r(1) by auto
    have rr: "dict_get (records (chain_cache e1)) c = Some r" using r0 c1(2) by simp
    obtain req rowd resv resr t where "plan_admission H c sid (Tokens ts) (chain_fingerprint C) req rowd resv resr
        (chain_cache e) = (Inl (ChainPrefixMismatch d), t)"
      by (rule chain_plan_run [OF y [unfolded d]], erule coordinator_plan_obtain)
    then have st: "rec_state r = IDLE" using plan_mismatch r0(1) by fastforce
    then have idle: "dict_get (active_chain_sequences e1) sid = None"
      using idle_not_active [OF c1(1) rr] r0(2) by simp
    obtain w e2 where w: "runtime_chain_invalidate K c (Some sid) e1 = (Inr w, e2)" "chain_ok (chain_cache e2)"
      "chain_dropped c sid e1 e2"
      by (rule runtime_invalidate_run [OF engine_chains_okD(1) [OF c1(1)] rr r0(2)])
    have e2: "engine_chains_ok L J e2" by (rule dropped_ok(1) [OF c1(1) w(2,3) rr r0(2) idle])
    obtain z e3 where z: "chain_admission_plan H C K nid sid ts g e2 = (z, e3)" by fastforce
    note c2 = chain_plan_cases [OF e2 z]
    have run: "plan_request H C K c nid existing app sid ts g e
        = (case z of Inl err \<Rightarrow> (Inl err, e3) | Inr p \<Rightarrow> (Inr (p, True), e3))"
      using y d r w(1) r0(2) z by (simp add: plan_request_def bindE_run split: sum.split)
    have gone: "dict_get (records (chain_cache e2)) c = None"
      "dict_get (seq_id_to_chain_id (chain_cache e2)) sid = None"
      "records (chain_cache e3) = dict_del c (records (chain_cache e))"
      using w(3) c1(2) c2(2) by (simp_all add: chain_dropped_def)
    have "same_queues e1 e2" using w(3) by (simp add: chain_dropped_def)
    then have q: "same_queues e e3" by (rule same_queues_trans [OF same_queues_trans [OF c1(4)] c2(4)])
    have e': "e' = e3" "x = (case z of Inl err \<Rightarrow> Inl err | Inr p \<Rightarrow> Inr (p, True))"
      using p run by (auto split: sum.splits)
    show ?thesis
      using c2(1,3) gone q st r0(1) r unfolding e' by (cases z) auto
  next
    case False
    have run: "plan_request H C K c nid existing app sid ts g e
        = (case y of Inl err \<Rightarrow> (Inl err, e1) | Inr p \<Rightarrow> (Inr (p, False), e1))"
      using y False by (auto simp: plan_request_def split: sum.split chain_error.split option.split)
    show ?thesis
    proof (cases y)
      case (Inl err)
      then show ?thesis using run p c1(1,2,4) by auto
    next
      case (Inr p0)
      note k = c1(3) [OF Inr]
      have "dict_get (seq_id_to_chain_id (chain_cache e)) sid = None" if st: "plan_status p0 = ''created''"
      proof -
        obtain req rowd resv resr where pa: "plan_admission H c sid (Tokens ts) (chain_fingerprint C) req rowd resv resr
            (chain_cache e) = (Inr p0, chain_cache e)"
          using k by (auto elim: coordinator_plan_obtain)
        have "check_resume H c sid (Tokens ts) (chain_fingerprint C) (chain_cache e)
            = (Inr (plan_status p0, plan_reused_tokens p0), chain_cache e)"
          by (rule plan_admission_Inr [OF pa])
        note q = check_resume_Inr(3) [OF this]
        have "dict_get (records (chain_cache e)) c = None"
          using q st by (cases "dict_get (records (chain_cache e)) c") auto
        then show ?thesis using ex by auto
      qed
      then show ?thesis using run p k e Inr c1(4) by auto
    qed
  qed
qed

section \<open>Committing a plan\<close>

lemma planned_digest:
  assumes "coordinator_plan H fp V c sid (Tokens ts) g s = (Inr p, t)"
  shows "\<exists>d. stable_token_digest H ts (Some (plan_reused_tokens p)) = Inr d"
proof -
  obtain req rowd resv resr where pa: "plan_admission H c sid (Tokens ts) fp req rowd resv resr s = (Inr p, t)"
    by (rule coordinator_plan_obtain [OF assms])
  have k: "check_resume H c sid (Tokens ts) fp s = (Inr (plan_status p, plan_reused_tokens p), s)"
    by (rule plan_admission_Inr [OF pa])
  show ?thesis
  proof (cases "dict_get (records s) c")
    case None
    then have "plan_reused_tokens p = 0" using check_resume_Inr(2) [OF k] by simp
    then show ?thesis by (simp add: stable_token_digest_def)
  next
    case (Some r)
    then show ?thesis using check_resume_Inr(3) [OF k Some]
      by (auto split: sum.splits chain_error.splits option.splits)
  qed
qed

lemma lookup_victims:
  assumes "\<forall>d\<in>set cs. \<exists>r. dict_get (records s) d = Some r \<and> rec_state r = IDLE"
  shows "\<exists>rs. mapE (\<lambda>c. chain_lookup c s) cs = Inr rs \<and> length rs = length cs
    \<and> (\<forall>r\<in>set rs. \<exists>d\<in>set cs. dict_get (records s) d = Some r)
    \<and> (\<forall>d\<in>set cs. \<exists>r\<in>set rs. dict_get (records s) d = Some r)"
  using assms
proof (induction cs)
  case (Cons c cs)
  obtain r where r: "dict_get (records s) c = Some r" using Cons.prems by auto
  obtain rs where rs: "mapE (\<lambda>c. chain_lookup c s) cs = Inr rs" "length rs = length cs"
    "\<forall>r\<in>set rs. \<exists>d\<in>set cs. dict_get (records s) d = Some r"
    "\<forall>d\<in>set cs. \<exists>r\<in>set rs. dict_get (records s) d = Some r"
    using Cons by auto
  show ?case using r rs by (intro exI [of _ "r # rs"]) (auto simp: chain_lookup_def)
qed simp

text \<open>
  A planned admission applied by the runtime: the victims' rows are released with their chains,
  and the requested chain is active; the engine's own tables are not touched.
\<close>

lemma runtime_apply_run:
  assumes ok: "chain_ok (chain_cache e)" and p: "planned H C K c sid ts g p e"
    and new: "plan_status p = ''created'' \<longrightarrow> dict_get (seq_id_to_chain_id (chain_cache e)) sid = None"
  obtains r e' where "chain_apply_admission C K p e = (Inr r, e')" "chain_ok (chain_cache e')"
    "dict_get (records (chain_cache e')) c = Some r" "rec_state r = ACTIVE" "rec_seq_id r = sid"
    "rec_fingerprint r = chain_fingerprint C"
    "processed_token_count r = plan_reused_tokens p"
    "\<forall>d. d \<noteq> c \<longrightarrow> dict_get (records (chain_cache e')) d
       = (if d \<in> set (victim_chain_ids p) then None else dict_get (records (chain_cache e)) d)"
    "c \<notin> set (victim_chain_ids p)"
    "\<forall>d\<in>set (victim_chain_ids p).
       \<exists>r. dict_get (records (chain_cache e)) d = Some r \<and> rec_state r = IDLE"
    "\<forall>q. q \<in> set (resident_seq_ids e') \<longleftrightarrow> q \<in> set (resident_seq_ids e)
       \<and> \<not> (\<exists>d\<in>set (victim_chain_ids p). \<exists>r. dict_get (records (chain_cache e)) d = Some r \<and> rec_seq_id r = q)"
    "distinct (resident_seq_ids e) \<longrightarrow> distinct (resident_seq_ids e')"
    "active_chain_sequences e' = active_chain_sequences e" "sq (sch e') = sq (sch e)"
    "waiting (sch e') = waiting (sch e)" "decoding (sch e') = decoding (sch e)"
    "\<forall>r. dict_get (records (chain_cache e)) c = Some r \<longrightarrow> rec_seq_id r = sid \<and> rec_state r = IDLE"
proof -
  let ?s = "chain_cache e"
  obtain req rowd resv resr where pa: "plan_admission H c sid (Tokens ts) (chain_fingerprint C) req rowd resv resr ?s
      = (Inr p, ?s)" by (rule coordinator_plan_obtain [OF p])
  note v = victims_idle [OF ok pa]
  obtain rs where rs: "mapE (\<lambda>c. chain_lookup c ?s) (victim_chain_ids p) = Inr rs"
    "\<forall>r\<in>set rs. \<exists>d\<in>set (victim_chain_ids p). dict_get (records ?s) d = Some r"
    "\<forall>d\<in>set (victim_chain_ids p). \<exists>r\<in>set rs. dict_get (records ?s) d = Some r"
    using lookup_victims [OF v(4)] by blast
  obtain r u where u: "apply_admission p (chain_fingerprint C) ?s = (Inr r, u)" "chain_ok u"
    "dict_get (records u) c = Some r" "rec_state r = ACTIVE" "rec_seq_id r = sid"
    "rec_fingerprint r = chain_fingerprint C" "processed_token_count r = plan_reused_tokens p"
    "rec_reserved_slots r = map (max 0) resv" "rec_reserved_rows r = max 0 resr"
    "\<forall>d. d \<noteq> c \<longrightarrow> dict_get (records u) d = (if d \<in> set (victim_chain_ids p) then None else dict_get (records ?s) d)"
    by (rule apply_planned [OF ok pa new])
  let ?e = "fold (free_seq_payload K) (map rec_seq_id rs) (e\<lparr>chain_cache := u\<rparr>)"
  have run: "chain_apply_admission C K p e = (Inr r, ?e)"
    using rs(1) u(1) by (simp add: chain_apply_admission_def chain_call_run bindE_run)
  have res: "q \<in> set (resident_seq_ids ?e) \<longleftrightarrow> q \<in> set (resident_seq_ids e)
      \<and> \<not> (\<exists>d\<in>set (victim_chain_ids p). \<exists>r. dict_get (records ?s) d = Some r \<and> rec_seq_id r = q)" for q
    using rs(2,3) by fastforce
  have k: "check_resume H c sid (Tokens ts) (chain_fingerprint C) ?s = (Inr (plan_status p, plan_reused_tokens p), ?s)"
    by (rule plan_admission_Inr [OF pa])
  show thesis
    by (rule that [OF run]) (use u v(3,4) res check_resume_Inr(3) [OF k] in simp_all)
qed

definition request_committed ::
    "chain_config \<Rightarrow> nat \<Rightarrow> seq \<Rightarrow> chain_plan \<Rightarrow> bool \<Rightarrow> 'm chain_engine \<Rightarrow> 'm chain_engine \<Rightarrow> bool" where
  "request_committed C x q p recreated e e' \<longleftrightarrow>
     (\<exists>r. dict_get (records (chain_cache e')) (plan_chain_id p) = Some r \<and> rec_state r = ACTIVE
        \<and> rec_seq_id r = seq_id q \<and> rec_fingerprint r = chain_fingerprint C
        \<and> processed_token_count r = plan_reused_tokens p)
     \<and> (\<forall>d. d \<noteq> plan_chain_id p \<longrightarrow> dict_get (records (chain_cache e')) d
          = (if d \<in> set (victim_chain_ids p) then None else dict_get (records (chain_cache e)) d))
     \<and> (\<forall>d\<in>set (victim_chain_ids p). \<exists>r. dict_get (records (chain_cache e)) d = Some r
          \<and> rec_state r = IDLE \<and> rec_seq_id r \<notin> set (resident_seq_ids e'))
     \<and> waiting (sch e') = waiting (sch e) @ [x] \<and> decoding (sch e') = decoding (sch e)
     \<and> sq (sch e') = (sq (sch e))(x := chain_sequence C p
          (if recreated then ''recreated'' else plan_status p) q)
     \<and> active_chain_sequences e' = dict_set (seq_id q) x (active_chain_sequences e)"

lemma commit_request_run:
  assumes e: "engine_chains_ok L J e"
    and p: "planned H C K c (seq_id q) (seq_tokens q) (max_tokens (sampling q)) p e"
    and new: "plan_status p = ''created'' \<longrightarrow> dict_get (seq_id_to_chain_id (chain_cache e)) (seq_id q) = None"
    and x: "x \<notin> snd ` set (active_chain_sequences e)"
    and go: "\<not> (plan_status p = ''resumed'' \<and> int (length (seq_tokens q)) \<le> plan_reused_tokens p)"
  obtains a e' where "commit_request H C K x q p recreated e = (Inr a, e')" "engine_chains_ok L J e'"
    "admitted_chain_id a = c" "admitted_seq_id a = seq_id q" "admitted_reused a = plan_reused_tokens p"
    "admitted_prompt a = seq_tokens q" "request_committed C x q p recreated e e'" "plan_chain_id p = c"
proof -
  let ?ts = "seq_tokens q" and ?st = "if recreated then ''recreated'' else plan_status p"
  note E = engine_chains_okD [OF e]
  obtain req rowd resv resr where pa: "plan_admission H c (seq_id q) (Tokens ?ts) (chain_fingerprint C) req rowd resv resr
      (chain_cache e) = (Inr p, chain_cache e)" by (rule coordinator_plan_obtain [OF p])
  have pc: "plan_chain_id p = c" by (rule plan_admission_Inr [OF pa])
  obtain d where d: "stable_token_digest H ?ts (Some (plan_reused_tokens p)) = Inr d"
    using planned_digest [OF p] by blast
  have val: "chain_validate_admission_plan H C K p (int (length ?ts)) d (max_tokens (sampling q)) e = (Inr p, e)"
    using validate_same [OF p d] by (simp add: chain_validate_admission_plan_def chain_call_def)
  obtain r e1 where a: "chain_apply_admission C K p e = (Inr r, e1)" "chain_ok (chain_cache e1)"
    "dict_get (records (chain_cache e1)) c = Some r" "rec_state r = ACTIVE" "rec_seq_id r = seq_id q"
    "rec_fingerprint r = chain_fingerprint C"
    "processed_token_count r = plan_reused_tokens p"
    "\<forall>d. d \<noteq> c \<longrightarrow> dict_get (records (chain_cache e1)) d
       = (if d \<in> set (victim_chain_ids p) then None else dict_get (records (chain_cache e)) d)"
    "c \<notin> set (victim_chain_ids p)"
    "\<forall>d\<in>set (victim_chain_ids p).
       \<exists>r. dict_get (records (chain_cache e)) d = Some r \<and> rec_state r = IDLE"
    "\<forall>q. q \<in> set (resident_seq_ids e1) \<longleftrightarrow> q \<in> set (resident_seq_ids e)
       \<and> \<not> (\<exists>d\<in>set (victim_chain_ids p). \<exists>r. dict_get (records (chain_cache e)) d = Some r \<and> rec_seq_id r = q)"
    "distinct (resident_seq_ids e) \<longrightarrow> distinct (resident_seq_ids e1)"
    "active_chain_sequences e1 = active_chain_sequences e" "sq (sch e1) = sq (sch e)"
    "waiting (sch e1) = waiting (sch e)" "decoding (sch e1) = decoding (sch e)"
    "\<forall>r. dict_get (records (chain_cache e)) c = Some r \<longrightarrow> rec_seq_id r = seq_id q \<and> rec_state r = IDLE"
    by (rule runtime_apply_run [OF E(1) p new])
  let ?e = "e1\<lparr>sch := add_seq x (set_seq x (\<lambda>_. chain_sequence C p ?st q) (sch e1)),
      active_chain_sequences := dict_set (seq_id q) x (active_chain_sequences e1)\<rparr>"
  let ?a = "\<lparr>admitted_seq_id = seq_id q, admitted_chain_id = plan_chain_id p,
               admitted_status = ?st, admitted_reused = plan_reused_tokens p,
               admitted_prefilled = int (length ?ts) - plan_reused_tokens p, admitted_prompt = ?ts\<rparr>"
  have run: "commit_request H C K x q p recreated e = (Inr ?a, ?e)"
    using d val a(1) go by (simp add: commit_request_def Let_def bindE_run)
  note A = active_okD [OF E(2)]
  have vic: "\<forall>d\<in>set (victim_chain_ids p). \<exists>r. dict_get (records (chain_cache e)) d = Some r
      \<and> rec_state r = IDLE \<and> rec_seq_id r \<notin> set (resident_seq_ids e1)"
    using a(10,11) by blast
  have com: "request_committed C x q p recreated e ?e"
    using a(3-7,13-16) a(8) vic pc by (simp add: request_committed_def add_seq_def set_seq_def)
  have kept: "dict_get (records (chain_cache e1)) d = Some r' \<and> d \<noteq> c"
    if "dict_get (records (chain_cache e)) d = Some r'" "rec_state r' = ACTIVE" for d r'
    using that a(8,10,17) by (cases "d = c") fastforce+
  have old: "seq_id (sq (sch ?e) y) = k \<and> (\<exists>c r. chain_id (sq (sch ?e) y) = Some c
      \<and> dict_get (records (chain_cache e1)) c = Some r \<and> rec_seq_id r = k \<and> rec_state r = ACTIVE)"
    if y: "dict_get (active_chain_sequences e) k = Some y" for k y
  proof -
    have "y \<in> snd ` set (active_chain_sequences e)" using map_of_SomeD [OF y] by force
    then have "sq (sch ?e) y = sq (sch e) y" using x a(14) by (auto simp: add_seq_def set_seq_def)
    then show ?thesis using A(1,2) [OF y] kept by metis
  qed
  have act: "active_ok J ?e"
    unfolding active_ok_def
  proof (intro conjI allI impI)
    fix k y assume "dict_get (active_chain_sequences ?e) k = Some y"
    then have "k = seq_id q \<and> y = x \<or> dict_get (active_chain_sequences e) k = Some y"
      using a(13) by (auto split: if_splits)
    moreover have "seq_id (sq (sch ?e) x) = seq_id q" "chain_id (sq (sch ?e) x) = Some c"
      by (simp_all add: add_seq_def set_seq_def chain_sequence_def pc)
    ultimately show "seq_id (sq (sch ?e) y) = k"
      "\<exists>c r. chain_id (sq (sch ?e) y) = Some c \<and> dict_get (records (chain_cache ?e)) c = Some r
        \<and> rec_seq_id r = k \<and> rec_state r = ACTIVE"
      using old [of k y] a(3-5) by auto
  next
    fix d r' assume d: "dict_get (records (chain_cache ?e)) d = Some r' \<and> rec_state r' = ACTIVE"
    show "dict_get (active_chain_sequences ?e) (rec_seq_id r') \<noteq> None \<or> rec_seq_id r' \<in> J"
    proof (cases "d = c")
      case True
      then show ?thesis using d a(3,5) by simp
    next
      case False
      then have "dict_get (records (chain_cache e)) d = Some r'" using d a(8) by (auto split: if_splits)
      then show ?thesis using A(3) [of d r'] d a(13) by simp
    qed
  qed
  have res: "residents_ok L ?e"
    unfolding residents_ok_def
  proof (intro conjI ballI)
    show "distinct (resident_seq_ids ?e)" using E(3) a(12) by (simp add: residents_ok_def)
    fix k assume "k \<in> set (resident_seq_ids ?e)"
    then have k: "k \<in> set (resident_seq_ids e)"
      "\<not> (\<exists>d\<in>set (victim_chain_ids p). \<exists>r. dict_get (records (chain_cache e)) d = Some r \<and> rec_seq_id r = k)"
      using a(11) by simp_all
    show "dict_get (seq_id_to_chain_id (chain_cache ?e)) k \<noteq> None \<or> k \<in> L"
    proof (rule disjCI)
      assume "k \<notin> L"
      then obtain d where "dict_get (seq_id_to_chain_id (chain_cache e)) k = Some d"
        using E(3) k(1) by (auto simp: residents_ok_def)
      then obtain r' where r': "dict_get (records (chain_cache e)) d = Some r'" "rec_seq_id r' = k"
        using chain_okD(10) [OF E(1)] by blast
      note own = chain_okD(5) [OF a(2)]
      have "dict_get (seq_id_to_chain_id (chain_cache e1)) k \<noteq> None"
      proof (cases "d = c")
        case True
        then show ?thesis using own [OF a(3)] a(5,17) r' by simp
      next
        case False
        then have "dict_get (records (chain_cache e1)) d = Some r'" using a(8) r' k(2) by auto
        then show ?thesis using own r'(2) by blast
      qed
      then show "dict_get (seq_id_to_chain_id (chain_cache ?e)) k \<noteq> None" by simp
    qed
  qed
  show thesis
    by (rule that [OF run _ _ _ _ _ com pc]) (use act res a(2) pc in \<open>simp_all add: engine_chains_ok_def\<close>)
qed

end
