(* ===== verification/Chain_Engine_Runs.thy ===== *)
theory Chain_Engine_Runs
  imports Chain_Engine_Correct
begin

text \<open>
  The operations of the engine on chains, from admission to abort, and the invariant of every
  state they reach.
\<close>

section \<open>Admission\<close>

lemma existing_chain_Inr:
  assumes "existing_chain c s = Inr existing"
  shows "existing = None \<and> c = [] \<or> (\<exists>r. existing = Some r \<and> c \<noteq> [] \<and> dict_get (records s) c = Some r)"
  using assms
  by (cases "dict_get (records s) c") (auto simp: existing_chain_def chain_lookup_def split: if_splits)

definition requested_chain :: "string option \<Rightarrow> string" where
  "requested_chain chain_arg = py_strip (case chain_arg of None \<Rightarrow> [] | Some a \<Rightarrow> a)"

lemma admit_run:
  "admit_chain_request H C K x sid nid ts sp chain_arg app e =
     (case existing_chain (requested_chain chain_arg) (chain_cache e) of
        Inl err \<Rightarrow> (Inl err, e)
      | Inr existing \<Rightarrow>
          (case request_prompt (requested_chain chain_arg) app existing ts of
             Inl err \<Rightarrow> (Inl err, e)
           | Inr prompt \<Rightarrow>
               if chain_max_model_len C < int (length prompt) + max_tokens sp
               then (Inl (Raised (ValueError ''Prompt length + max_tokens exceeds max_model_len: '')), e)
               else
                 (case plan_request H C K (if requested_chain chain_arg = [] then nid else requested_chain chain_arg)
                         nid existing app (case existing of None \<Rightarrow> sid | Some r \<Rightarrow> rec_seq_id r) prompt
                         (max_tokens sp) e of
                    (Inl err, e1) \<Rightarrow> (Inl err, e1)
                  | (Inr (p, recreated), e1) \<Rightarrow>
                      commit_request H C K x
                        (make_seq (case existing of None \<Rightarrow> sid | Some r \<Rightarrow> rec_seq_id r) prompt sp)
                        p recreated e1)))"
  by (simp add: admit_chain_request_def requested_chain_def Let_def bindE_run
      split: sum.split prod.split)

lemma make_seq_fields [simp]:
  "seq_id (make_seq sid ts sp) = sid" "seq_tokens (make_seq sid ts sp) = ts"
  "sampling (make_seq sid ts sp) = sp"
  by (simp_all add: make_seq_def)
text \<open>
  The outcome of a request. Refused, it leaves the scheduler and the active sequences as they
  were; it may have dropped the idle chain it named. Admitted, its sequence waits with the reused
  prefix counted as prefilled. No ACTIVE chain is touched either way, and no chain but the admitted
  one is new or changed.
\<close>

definition admission_ok ::
    "chain_config \<Rightarrow> nat \<Rightarrow> string \<Rightarrow> chain_error + request_admission \<Rightarrow> 'm chain_engine
       \<Rightarrow> 'm chain_engine \<Rightarrow> bool" where
  "admission_ok C x c out e e' \<longleftrightarrow>
     (\<forall>d r. dict_get (records (chain_cache e)) d = Some r \<and> rec_state r = ACTIVE \<longrightarrow>
        dict_get (records (chain_cache e')) d = Some r)
     \<and> (case out of
          Inl err \<Rightarrow> same_queues e e'
            \<and> (records (chain_cache e') = records (chain_cache e)
               \<or> records (chain_cache e') = dict_del c (records (chain_cache e)))
        | Inr a \<Rightarrow>
            (\<exists>r. dict_get (records (chain_cache e')) (admitted_chain_id a) = Some r \<and> rec_state r = ACTIVE
               \<and> rec_seq_id r = admitted_seq_id a \<and> rec_fingerprint r = chain_fingerprint C
               \<and> processed_token_count r = admitted_reused a)
            \<and> (\<forall>d. d \<noteq> admitted_chain_id a \<longrightarrow> dict_get (records (chain_cache e')) d = None
                 \<or> dict_get (records (chain_cache e')) d = dict_get (records (chain_cache e)) d)
            \<and> waiting (sch e') = waiting (sch e) @ [x] \<and> decoding (sch e') = decoding (sch e)
            \<and> seq_id (sq (sch e') x) = admitted_seq_id a
            \<and> seq_tokens (sq (sch e') x) = admitted_prompt a
            \<and> num_prefilled_tokens (sq (sch e') x) = admitted_reused a
            \<and> (\<forall>y. y \<noteq> x \<longrightarrow> sq (sch e') y = sq (sch e) y)
            \<and> active_chain_sequences e' = dict_set (admitted_seq_id a) x (active_chain_sequences e))"

lemma commit_admission_ok:
  assumes "request_committed C x q p recreated e1 e'" "same_queues e e1"
    and "\<forall>d r. dict_get (records (chain_cache e)) d = Some r \<and> rec_state r = ACTIVE \<longrightarrow>
      dict_get (records (chain_cache e1)) d = Some r"
    and "\<forall>r. dict_get (records (chain_cache e1)) (plan_chain_id p) = Some r \<longrightarrow> rec_state r = IDLE"
    and "admitted_chain_id a = plan_chain_id p" "admitted_seq_id a = seq_id q"
    "admitted_reused a = plan_reused_tokens p" "admitted_prompt a = seq_tokens q"
    and sub: "\<forall>d r. dict_get (records (chain_cache e1)) d = Some r \<longrightarrow> dict_get (records (chain_cache e)) d = Some r"
  shows "admission_ok C x c (Inr a) e e'"
proof -
  note R = assms(1) [unfolded request_committed_def] and Q = assms(2) [unfolded same_queues_def]
  have act: "dict_get (records (chain_cache e')) d = Some r"
    if d: "dict_get (records (chain_cache e)) d = Some r" "rec_state r = ACTIVE" for d r
  proof -
    have d1: "dict_get (records (chain_cache e1)) d = Some r" using assms(3) d by blast
    then have "d \<noteq> plan_chain_id p" "d \<notin> set (victim_chain_ids p)" using assms(4) d(2) R by force+
    then show ?thesis using R d1 by simp
  qed
  have others: "dict_get (records (chain_cache e')) d = None
      \<or> dict_get (records (chain_cache e')) d = dict_get (records (chain_cache e)) d"
    if "d \<noteq> plan_chain_id p" for d
    using R that sub by (cases "dict_get (records (chain_cache e1)) d") auto
  have st: "seq_id (chain_sequence C p st q) = seq_id q" "seq_tokens (chain_sequence C p st q) = seq_tokens q"
    "num_prefilled_tokens (chain_sequence C p st q) = plan_reused_tokens p" for st
    by (simp_all add: chain_sequence_def)
  show ?thesis
    unfolding admission_ok_def using act others R Q assms(5-8) by (simp add: st)
qed

lemma planned_idle:
  assumes "planned H C K c sid ts g p e"
  shows "\<forall>r. dict_get (records (chain_cache e)) c = Some r \<longrightarrow> rec_state r = IDLE"
proof -
  obtain req rowd resv resr where pa: "plan_admission H c sid (Tokens ts) (chain_fingerprint C) req rowd resv resr
      (chain_cache e) = (Inr p, chain_cache e)" by (rule coordinator_plan_obtain [OF assms])
  have "check_resume H c sid (Tokens ts) (chain_fingerprint C) (chain_cache e)
      = (Inr (plan_status p, plan_reused_tokens p), chain_cache e)" by (rule plan_admission_Inr [OF pa])
  then show ?thesis using check_resume_Inr(3) by blast
qed

lemma admit_request_ok:
  assumes e: "engine_chains_ok L J e" and x: "x \<notin> snd ` set (active_chain_sequences e)"
    and sid: "dict_get (seq_id_to_chain_id (chain_cache e)) sid = None"
    and run: "admit_chain_request H C K x sid nid ts sp chain_arg app e = (out, e')"
  shows "engine_chains_ok L J e' \<and> admission_ok C x (requested_chain chain_arg) out e e'"
proof (cases "\<exists>err. (out, e') = (Inl err, e)")
  case True
  then show ?thesis using e by (auto simp: admission_ok_def)
next
  case False
  let ?c = "requested_chain chain_arg"
  obtain existing where ex: "existing_chain ?c (chain_cache e) = Inr existing"
    using run False by (auto simp: admit_run split: sum.splits)
  obtain prompt where pr: "request_prompt ?c app existing ts = Inr prompt"
    using run False ex by (auto simp: admit_run split: sum.splits)
  let ?owner = "case existing of None \<Rightarrow> sid | Some r \<Rightarrow> rec_seq_id r" and ?d = "if ?c = [] then nid else ?c"
  obtain y e1 where y: "plan_request H C K ?d nid existing app ?owner prompt (max_tokens sp) e = (y, e1)" by fastforce
  have own: "existing = None \<and> dict_get (seq_id_to_chain_id (chain_cache e)) ?owner = None
      \<or> (\<exists>r. existing = Some r \<and> dict_get (records (chain_cache e)) ?d = Some r \<and> rec_seq_id r = ?owner)"
    using existing_chain_Inr [OF ex] sid by auto
  note P = plan_request_ok [OF e y own]
  have out: "(out, e') = (case y of Inl err \<Rightarrow> (Inl err, e1)
      | Inr (p, recreated) \<Rightarrow> commit_request H C K x (make_seq ?owner prompt sp) p recreated e1)"
    using run False ex pr y by (auto simp: admit_run split: if_splits sum.splits)
  have act: "\<forall>d r. dict_get (records (chain_cache e)) d = Some r \<and> rec_state r = ACTIVE \<longrightarrow>
      dict_get (records (chain_cache e1)) d = Some r"
    using P by auto
  have recs: "records (chain_cache e1) = records (chain_cache e)
      \<or> records (chain_cache e1) = dict_del ?c (records (chain_cache e))"
    using P existing_chain_Inr [OF ex] by (auto split: if_splits)
  have refused: "engine_chains_ok L J e1 \<and> admission_ok C x ?c (Inl err) e e1" for err
    using P act recs by (simp add: admission_ok_def)
  show ?thesis
  proof (cases y)
    case (Inl err)
    then show ?thesis using out refused by simp
  next
    case (Inr z)
    then obtain p recreated where z: "y = Inr (p, recreated)" by (cases z) auto
    let ?q = "make_seq ?owner prompt sp"
    have pl: "planned H C K (if recreated then nid else ?d) (seq_id ?q) (seq_tokens ?q) (max_tokens (sampling ?q)) p e1"
      and new: "plan_status p = ''created'' \<longrightarrow> dict_get (seq_id_to_chain_id (chain_cache e1)) (seq_id ?q) = None"
      and e1: "engine_chains_ok L J e1" "same_queues e e1" using P z by simp_all
    have x1: "x \<notin> snd ` set (active_chain_sequences e1)" using x e1(2) by (simp add: same_queues_def)
    show ?thesis
    proof (cases "plan_status p = ''resumed'' \<and> int (length prompt) \<le> plan_reused_tokens p")
      case True
      then show ?thesis using out z refused by (simp add: commit_request_def bindE_run Let_def)
    next
      case False
      then have go: "\<not> (plan_status p = ''resumed'' \<and> int (length (seq_tokens ?q)) \<le> plan_reused_tokens p)"
        by simp
      obtain a e2 where c: "commit_request H C K x ?q p recreated e1 = (Inr a, e2)" "engine_chains_ok L J e2"
        "admitted_chain_id a = (if recreated then nid else ?d)" "admitted_seq_id a = seq_id ?q"
        "admitted_reused a = plan_reused_tokens p" "admitted_prompt a = seq_tokens ?q"
        "request_committed C x ?q p recreated e1 e2" "plan_chain_id p = (if recreated then nid else ?d)"
        by (rule commit_request_run [OF e1(1) pl new x1 go])
      have sub: "\<forall>d r. dict_get (records (chain_cache e1)) d = Some r \<longrightarrow> dict_get (records (chain_cache e)) d = Some r"
        using recs by (auto split: if_splits)
      have "admission_ok C x ?c (Inr a) e e2"
        by (rule commit_admission_ok [OF c(7) e1(2) act _ _ _ _ _ sub])
          (use planned_idle [OF pl] c(3-6,8) in simp_all)
      then show ?thesis using out z c(1,2) by simp
    qed
  qed
qed

text \<open>The identity of an admitted request: its own new one, or that of an idle chain.\<close>

lemma admitted_owner:
  assumes e: "engine_chains_ok L J e"
    and sid: "dict_get (seq_id_to_chain_id (chain_cache e)) sid = None"
    and run: "admit_chain_request H C K x sid nid ts sp chain_arg app e = (Inr a, e')"
  shows "admitted_seq_id a = sid
    \<or> (\<exists>d r. dict_get (records (chain_cache e)) d = Some r \<and> rec_state r = IDLE
         \<and> rec_seq_id r = admitted_seq_id a)"
proof -
  let ?c = "requested_chain chain_arg"
  obtain existing where ex: "existing_chain ?c (chain_cache e) = Inr existing"
    using run by (auto simp: admit_run split: sum.splits)
  obtain prompt where pr: "request_prompt ?c app existing ts = Inr prompt"
    using run ex by (auto simp: admit_run split: sum.splits)
  let ?owner = "case existing of None \<Rightarrow> sid | Some r \<Rightarrow> rec_seq_id r" and ?d = "if ?c = [] then nid else ?c"
  obtain p recreated e1 where y: "plan_request H C K ?d nid existing app ?owner prompt (max_tokens sp) e
      = (Inr (p, recreated), e1)"
    and com: "commit_request H C K x (make_seq ?owner prompt sp) p recreated e1 = (Inr a, e')"
    using run ex pr by (auto simp: admit_run split: if_splits sum.splits prod.splits)
  have a: "admitted_seq_id a = ?owner"
    using com by (auto simp: commit_request_def Let_def bindE_eq_Inr)
  show ?thesis
  proof (cases existing)
    case None
    then show ?thesis using a by simp
  next
    case (Some r)
    then have r: "dict_get (records (chain_cache e)) ?d = Some r" using existing_chain_Inr [OF ex] by auto
    have own: "existing = None \<and> dict_get (seq_id_to_chain_id (chain_cache e)) ?owner = None
        \<or> (\<exists>r. existing = Some r \<and> dict_get (records (chain_cache e)) ?d = Some r \<and> rec_seq_id r = ?owner)"
      using Some r by simp
    note P = plan_request_ok [OF e y own]
    have "rec_state r = IDLE"
    proof (cases recreated)
      case True
      then have "dict_get (records (chain_cache e1)) ?d = None" using P by auto
      then show ?thesis using P r by auto
    next
      case False
      then have "planned H C K ?d ?owner prompt (max_tokens sp) p e1" "e1 = e" using P by auto
      then show ?thesis using planned_idle r by blast
    qed
    then show ?thesis using a r Some by auto
  qed
qed

section \<open>Drops\<close>

text \<open>Every chain that is left is as it was.\<close>

definition fewer_chains :: "'m chain_engine \<Rightarrow> 'm chain_engine \<Rightarrow> bool" where
  "fewer_chains e e' \<longleftrightarrow>
     (\<forall>d r. dict_get (records (chain_cache e')) d = Some r \<longrightarrow> dict_get (records (chain_cache e)) d = Some r)"

lemma fewer_refl [simp]: "fewer_chains e e"
  by (simp add: fewer_chains_def)

lemma fewer_trans: "fewer_chains e e' \<Longrightarrow> fewer_chains e' e'' \<Longrightarrow> fewer_chains e e''"
  by (simp add: fewer_chains_def)

lemma dropped_fewer: "chain_dropped c sid e e' \<Longrightarrow> fewer_chains e e'"
  by (simp add: fewer_chains_def chain_dropped_def)

lemma fewer_same [simp]:
  "fewer_chains (pop_active sid e) e' = fewer_chains e e'"
  "fewer_chains e (free_seq_payload K sid e') = fewer_chains e e'"
  by (simp_all add: fewer_chains_def)

lemma dropped_popped:
  assumes ok: "engine_chains_ok L J e" and k: "chain_ok (chain_cache e')"
    and d: "chain_dropped c sid (pop_active sid e) e'"
    and r: "dict_get (records (chain_cache e)) c = Some r" "rec_seq_id r = sid"
  shows "engine_chains_ok L J e'"
proof -
  let ?e = "e'\<lparr>active_chain_sequences := active_chain_sequences e\<rparr>"
  have "chain_dropped c sid e ?e" using d by (simp add: chain_dropped_def same_queues_def)
  then have "engine_chains_ok L J (pop_active sid ?e)" using dropped_ok(2) [OF ok _ _ r] k by simp
  moreover have "pop_active sid ?e = e'" using d by (simp add: pop_active_def chain_dropped_def same_queues_def)
  ultimately show ?thesis by simp
qed

lemma drop_run:
  assumes ok: "engine_chains_ok L J e" and r: "dict_get (records (chain_cache e)) c = Some r" "rec_seq_id r = sid"
  obtains w e' where "runtime_chain_invalidate K c (Some sid) (pop_active sid e) = (Inr w, e')"
    "engine_chains_ok L J e'" "chain_dropped c sid (pop_active sid e) e'" "fewer_chains e e'"
proof -
  obtain w e' where w: "runtime_chain_invalidate K c (Some sid) (pop_active sid e) = (Inr w, e')"
    "chain_ok (chain_cache e')" "chain_dropped c sid (pop_active sid e) e'"
    by (rule runtime_invalidate_run [of "pop_active sid e" c r sid]) (use engine_chains_okD(1) [OF ok] r in simp_all)
  show thesis
    by (rule that [OF w(1) dropped_popped [OF ok w(2,3) r] w(3)]) (use dropped_fewer [OF w(3)] in simp)
qed

lemma abort_sq:
  "seq_id (sq (snd (abort M sid s)) y) = seq_id (sq s y)"
  "chain_id (sq (snd (abort M sid s)) y) = chain_id (sq s y)"
  by (simp_all add: abort_def abort_found_def set_seq_def Let_def split: option.split)

lemma scheduler_abort_ok:
  assumes "scheduler_abort M sid e = (b, e')"
  shows "chain_cache e' = chain_cache e" "active_chain_sequences e' = active_chain_sequences e"
    "resident_seq_ids e' = resident_seq_ids e" "sch e' = snd (abort M sid (sch e))"
    "engine_chains_ok L J e \<Longrightarrow> engine_chains_ok L J e'"
    "seq_id (sq (sch e') y) = seq_id (sq (sch e) y)" "chain_id (sq (sch e') y) = chain_id (sq (sch e) y)"
proof -
  have e': "e' = e\<lparr>sch := snd (abort M sid (sch e))\<rparr>"
    using assms by (auto simp: scheduler_abort_def split: prod.splits)
  show "chain_cache e' = chain_cache e" "active_chain_sequences e' = active_chain_sequences e"
    "resident_seq_ids e' = resident_seq_ids e" "sch e' = snd (abort M sid (sch e))"
    "seq_id (sq (sch e') y) = seq_id (sq (sch e) y)" "chain_id (sq (sch e') y) = chain_id (sq (sch e) y)"
    by (simp_all add: e' abort_sq)
  show "engine_chains_ok L J e \<Longrightarrow> engine_chains_ok L J e'"
    by (rule engine_chains_cong [where e = e]) (simp_all add: e' abort_sq engine_chains_ok_def)
qed

text \<open>The chain of an active sequence.\<close>

lemma active_chain:
  assumes ok: "engine_chains_ok L J e" and y: "dict_get (active_chain_sequences e) sid = Some y"
  obtains c r where "chain_id (sq (sch e) y) = Some c" "seq_id (sq (sch e) y) = sid"
    "dict_get (records (chain_cache e)) c = Some r" "rec_seq_id r = sid" "rec_state r = ACTIVE"
  using active_okD(1,2) [OF engine_chains_okD(2) [OF ok] y] that by blast

lemma abort_request_ok:
  assumes ok: "engine_chains_ok L J e"
  shows "\<exists>e'. abort_chain_request M K sid e = (Inr (), e') \<and> engine_chains_ok L J e' \<and> fewer_chains e e'
    \<and> dict_get (seq_id_to_chain_id (chain_cache e')) sid = None
    \<and> (sid \<in> set (resident_seq_ids e') \<longrightarrow> sid \<in> L)"
proof -
  obtain b e1 where b: "scheduler_abort M sid e = (b, e1)" by fastforce
  note S = scheduler_abort_ok [OF b]
  have ok1: "engine_chains_ok L J e1" by (rule S(5) [OF ok])
  show ?thesis
  proof (cases "dict_get (active_chain_sequences e) sid")
    case (Some y)
    obtain c r where c: "chain_id (sq (sch e1) y) = Some c" "seq_id (sq (sch e1) y) = sid"
      "dict_get (records (chain_cache e1)) c = Some r" "rec_seq_id r = sid"
      using active_chain [OF ok1] Some S(2) by metis
    obtain w e' where w: "runtime_chain_invalidate K c (Some sid) (pop_active sid e1) = (Inr w, e')"
      "engine_chains_ok L J e'" "chain_dropped c sid (pop_active sid e1) e'" "fewer_chains e1 e'"
      by (rule drop_run [OF ok1 c(3,4)])
    have "fewer_chains e e'" using w(4) S(1) by (simp add: fewer_chains_def)
    then show ?thesis using Some b c w by (simp add: abort_chain_request_def bindE_run chain_dropped_def)
  next
    case None
    show ?thesis
    proof (cases "dict_get (seq_id_to_chain_id (chain_cache e1)) sid")
      case (Some c)
      obtain r where r: "dict_get (records (chain_cache e1)) c = Some r" "rec_seq_id r = sid"
        using chain_okD(10) [OF engine_chains_okD(1) [OF ok1] Some] by blast
      obtain w e' where w: "runtime_chain_invalidate K c (Some sid) e1 = (Inr w, e')" "chain_ok (chain_cache e')"
        "chain_dropped c sid e1 e'" by (rule runtime_invalidate_run [OF engine_chains_okD(1) [OF ok1] r])
      have "engine_chains_ok L J e'" using dropped_ok(1) [OF ok1 w(2,3) r] None S(2) by simp
      moreover have "fewer_chains e e'" using dropped_fewer [OF w(3)] S(1) by (simp add: fewer_chains_def)
      ultimately show ?thesis using None Some b w by (simp add: abort_chain_request_def bindE_run chain_dropped_def)
    next
      case no: None
      let ?e = "if b then free_seq_payload K sid e1 else e1"
      have "active_ok J (free_seq_payload K sid e1) = active_ok J e1" by (simp add: active_ok_def)
      then have "engine_chains_ok L J (free_seq_payload K sid e1)"
        using ok1 by (simp add: engine_chains_ok_def residents_ok_def)
      then have "engine_chains_ok L J ?e" using ok1 by simp
      moreover have "sid \<in> set (resident_seq_ids e1) \<longrightarrow> sid \<in> L"
        using engine_chains_okD(3) [OF ok1] no by (auto simp: residents_ok_def)
      moreover have "fewer_chains e ?e" using S(1) by (simp add: fewer_chains_def)
      ultimately show ?thesis using None no b by (simp add: abort_chain_request_def)
    qed
  qed
qed

lemma discard_chain_ok:
  assumes ok: "engine_chains_ok L J e" and run: "discard_chain M K c expected e = (out, e')"
  shows "engine_chains_ok L J e'" "fewer_chains e e'"
    and "out = Inr b \<Longrightarrow> dict_get (records (chain_cache e')) c = None"
proof -
  have "engine_chains_ok L J e' \<and> fewer_chains e e' \<and> (\<forall>b. out = Inr b \<longrightarrow> dict_get (records (chain_cache e')) c = None)"
  proof (cases "\<exists>r. dict_get (records (chain_cache e)) c = Some r \<and> rec_seq_id r = expected")
    case False
    then show ?thesis using run ok by (auto simp: discard_chain_def split: option.splits if_splits)
  next
    case True
    then obtain r where r: "dict_get (records (chain_cache e)) c = Some r" "rec_seq_id r = expected" by blast
    obtain b e1 where b: "scheduler_abort M expected e = (b, e1)" by fastforce
    note S = scheduler_abort_ok [OF b]
    have r1: "dict_get (records (chain_cache e1)) c = Some r" using r(1) S(1) by simp
    obtain w e2 where w: "runtime_chain_invalidate K c (Some expected) (pop_active expected e1) = (Inr w, e2)"
      "engine_chains_ok L J e2" "chain_dropped c expected (pop_active expected e1) e2" "fewer_chains e1 e2"
      by (rule drop_run [OF S(5) [OF ok] r1 r(2)])
    have "fewer_chains e e2" using w(4) S(1) by (simp add: fewer_chains_def)
    then show ?thesis using run r b w by (auto simp: discard_chain_def bindE_run chain_dropped_def)
  qed
  then show "engine_chains_ok L J e'" "fewer_chains e e'" "out = Inr b \<Longrightarrow> dict_get (records (chain_cache e')) c = None" by blast+
qed

lemma invalidate_ok:
  assumes ok: "engine_chains_ok L J e"
  shows "engine_chains_ok L J (snd (engine_invalidate_chain K c e))
    \<and> fewer_chains e (snd (engine_invalidate_chain K c e))"
proof (cases "chain_lookup c (chain_cache e)")
  case (Inl err)
  then show ?thesis using ok by (simp add: engine_invalidate_chain_def)
next
  case (Inr r)
  then have r: "dict_get (records (chain_cache e)) c = Some r" by (simp add: chain_lookup_Inr)
  obtain w e' where w: "runtime_chain_invalidate K c (Some (rec_seq_id r)) (pop_active (rec_seq_id r) e) = (Inr w, e')"
    "engine_chains_ok L J e'" "fewer_chains e e'" by (rule drop_run [OF ok r refl])
  show ?thesis using Inr w by (simp add: engine_invalidate_chain_def bindE_run)
qed

lemma fail_requests_ok:
  "engine_chains_ok L J e \<Longrightarrow> engine_chains_ok L J (fail_requests M K xs e) \<and> fewer_chains e (fail_requests M K xs e)"
proof (induction xs arbitrary: e)
  case (Cons x xs)
  let ?sid = "seq_id (sq (sch e) x)"
  show ?case
  proof (cases "dict_get (active_chain_sequences e) ?sid")
    case None
    then show ?thesis using Cons by (simp add: Let_def)
  next
    case (Some y)
    obtain c r where c: "chain_id (sq (sch e) y) = Some c" "seq_id (sq (sch e) y) = ?sid"
      "dict_get (records (chain_cache e)) c = Some r" "rec_seq_id r = ?sid"
      by (rule active_chain [OF Cons.prems Some])
    obtain w e' where w: "runtime_chain_invalidate K c (Some ?sid) (pop_active ?sid e) = (Inr w, e')"
      "engine_chains_ok L J e'" "fewer_chains e e'" by (rule drop_run [OF Cons.prems c(3,4)])
    obtain b e1 where b: "scheduler_abort M ?sid e' = (b, e1)" by fastforce
    have e1: "engine_chains_ok L J e1" by (rule scheduler_abort_ok(5) [OF b w(2)])
    have "fewer_chains e e1" using w(3) scheduler_abort_ok(1) [OF b] by (simp add: fewer_chains_def)
    then show ?thesis using Some c w(1) b Cons.IH [OF e1] fewer_trans by (auto simp: Let_def)
  qed
qed simp

lemma reset_ok:
  assumes "engine_chains_ok L J e" "active_chain_sequences e = []"
  shows "engine_chains_ok L J (reset_chains_after_warmup K e)"
  using assms chain_ok_reset [OF engine_chains_okD(1) [OF assms(1)]]
  by (simp add: reset_chains_after_warmup_def Let_def engine_chains_ok_def active_ok_def residents_ok_def
      chain_reset_def)

lemma prompt_admitted_ok:
  assumes "engine_chains_ok L J e" "dict_get (active_chain_sequences e) sid \<noteq> None \<or> sid \<in> L"
  shows "engine_chains_ok L J (on_chain_prompt_admitted sid cost e)"
proof (cases "sid \<in> L")
  case True
  then show ?thesis using assms(1)
    by (auto simp: on_chain_prompt_admitted_def engine_chains_ok_def active_ok_def residents_ok_def)
next
  case False
  then obtain y where "dict_get (active_chain_sequences e) sid = Some y" using assms(2) by blast
  from active_chain [OF assms(1) this] obtain c r where r: "dict_get (records (chain_cache e)) c = Some r"
    "rec_seq_id r = sid" by metis
  have "dict_get (seq_id_to_chain_id (chain_cache e)) sid = Some c"
    using chain_okD(5) [OF engine_chains_okD(1) [OF assms(1)] r(1)] r(2) by simp
  then show ?thesis using assms(1)
    by (auto simp: on_chain_prompt_admitted_def engine_chains_ok_def active_ok_def residents_ok_def)
qed

section \<open>The queues\<close>

text \<open>
  Every sequence of a queue is the active one under its identity, or its chain was invalidated
  under it; an invalidated identity has neither chain nor active sequence.
\<close>

definition queue_ok :: "int set \<Rightarrow> 'm chain_engine \<Rightarrow> bool" where
  "queue_ok L e \<longleftrightarrow> distinct (waiting (sch e) @ decoding (sch e))
     \<and> (\<forall>x\<in>held (sch e). dict_get (active_chain_sequences e) (seq_id (sq (sch e) x)) = Some x
          \<or> seq_id (sq (sch e) x) \<in> L)
     \<and> (\<forall>sid\<in>L. dict_get (active_chain_sequences e) sid = None)
     \<and> (\<forall>c r. dict_get (records (chain_cache e)) c = Some r \<longrightarrow> rec_seq_id r \<notin> L)"

lemma queue_okD:
  assumes "queue_ok L e"
  shows "distinct (waiting (sch e) @ decoding (sch e))"
    "x \<in> held (sch e) \<Longrightarrow> dict_get (active_chain_sequences e) (seq_id (sq (sch e) x)) = Some x
       \<or> seq_id (sq (sch e) x) \<in> L"
    "sid \<in> L \<Longrightarrow> dict_get (active_chain_sequences e) sid = None"
    "dict_get (records (chain_cache e)) c = Some r \<Longrightarrow> rec_seq_id r \<notin> L"
  using assms unfolding queue_ok_def by blast+

text \<open>With the same queues and no new chain.\<close>

lemma queue_ok_same:
  assumes q: "queue_ok L e" and s: "same_queues e e'" and f: "fewer_chains e e'"
  shows "queue_ok L e'"
  using q s f by (simp add: queue_ok_def same_queues_def fewer_chains_def held_def) blast

text \<open>An abort of the scheduler removes the sequence of that identity, if there is one.\<close>

lemma abort_queues:
  assumes "distinct (waiting s @ decoding s)"
  shows "distinct (waiting (snd (abort M sid s)) @ decoding (snd (abort M sid s)))
    \<and> held (snd (abort M sid s)) \<subseteq> held s
    \<and> ((\<forall>x\<in>held s. seq_id (sq s x) \<noteq> sid)
       \<or> (\<exists>x\<in>held s. seq_id (sq s x) = sid \<and> x \<notin> held (snd (abort M sid s))))"
proof (cases "find (\<lambda>x. seq_id (sq s x) = sid) (waiting s)")
  case (Some x)
  then have x: "x \<in> set (waiting s)" "seq_id (sq s x) = sid" by (auto simp: find_Some_iff)
  let ?t = "snd (abort M sid s)"
  have f: "waiting ?t = remove1 x (waiting s)" "decoding ?t = decoding s"
    using Some x by (simp_all add: abort_def abort_found_def set_seq_def Let_def)
  have "x \<notin> held ?t" using assms x by (auto simp: held_def f)
  moreover have "distinct (waiting ?t @ decoding ?t)" "held ?t \<subseteq> held s"
    using assms x set_remove1_subset [of x "waiting s"] by (auto simp: f held_def)
  ultimately show ?thesis using x by (auto simp: held_def)
next
  case None
  then have nw: "\<forall>x\<in>set (waiting s). seq_id (sq s x) \<noteq> sid" by (auto simp: find_None_iff)
  show ?thesis
  proof (cases "find (\<lambda>x. seq_id (sq s x) = sid) (decoding s)")
    case (Some x)
    then have x: "x \<in> set (decoding s)" "seq_id (sq s x) = sid" by (auto simp: find_Some_iff)
    let ?t = "snd (abort M sid s)"
    have f: "waiting ?t = waiting s" "decoding ?t = remove1 x (decoding s)"
      using None Some x by (simp_all add: abort_def abort_found_def set_seq_def Let_def)
    have "x \<notin> held ?t" using assms x by (auto simp: held_def f)
    moreover have "distinct (waiting ?t @ decoding ?t)" "held ?t \<subseteq> held s"
      using assms x set_remove1_subset [of x "decoding s"] by (auto simp: f held_def)
    ultimately show ?thesis using x by (auto simp: held_def)
  next
    case no: None
    then have "\<forall>x\<in>held s. seq_id (sq s x) \<noteq> sid" using nw by (auto simp: find_None_iff held_def)
    moreover have "abort M sid s = (False, s)" using None no by (simp add: abort_def)
    ultimately show ?thesis using assms by simp
  qed
qed

lemma queue_ok_abort:
  assumes q: "queue_ok L e" and ok: "engine_chains_ok L J e"
    and w: "waiting (sch e') = waiting (snd (abort M sid (sch e)))"
      "decoding (sch e') = decoding (snd (abort M sid (sch e)))"
    and i: "\<And>x. seq_id (sq (sch e') x) = seq_id (sq (sch e) x)"
    and a: "dict_get (active_chain_sequences e') = (dict_get (active_chain_sequences e))(sid := None)
      \<or> dict_get (active_chain_sequences e') = dict_get (active_chain_sequences e)"
    and f: "fewer_chains e e'"
  shows "queue_ok L e'"
proof -
  note Q = queue_okD [OF q] and B = abort_queues [OF queue_okD(1) [OF q], of M sid]
  have h: "held (sch e') = held (snd (abort M sid (sch e)))" by (simp add: held_def w)
  have keep: "dict_get (active_chain_sequences e') (seq_id (sq (sch e) x)) = Some x \<or> seq_id (sq (sch e) x) \<in> L"
    if x: "x \<in> held (sch e')" for x
  proof (cases "seq_id (sq (sch e) x) = sid")
    case False
    then show ?thesis using Q(2) [of x] x h B a by (metis fun_upd_other subsetD)
  next
    case True
    have xe: "x \<in> held (sch e)" using x h B by blast
    then obtain y where y: "y \<in> held (sch e)" "seq_id (sq (sch e) y) = sid" "y \<notin> held (sch e')"
      using B True h by blast
    have "sid \<in> L"
    proof (rule ccontr)
      assume "sid \<notin> L"
      then have "x = y" using Q(2) [OF xe] Q(2) [OF y(1)] True y(2) by simp
      then show False using x y(3) by blast
    qed
    then show ?thesis using True by simp
  qed
  have act: "dict_get (active_chain_sequences e') s = None" if "s \<in> L" for s
    using a Q(3) [OF that] by (metis fun_upd_apply)
  have "distinct (waiting (sch e') @ decoding (sch e'))" using B w by simp
  moreover have "rec_seq_id r \<notin> L" if "dict_get (records (chain_cache e')) c = Some r" for c r
    using that f Q(4) unfolding fewer_chains_def by blast
  ultimately show ?thesis unfolding queue_ok_def i using keep act by blast
qed

lemma queue_ok_admission:
  assumes q: "queue_ok L e" and ok: "engine_chains_ok L J e" and x: "x \<notin> held (sch e)"
    and sid: "dict_get (seq_id_to_chain_id (chain_cache e)) sid = None" "sid \<notin> L"
    and run: "admit_chain_request H C K x sid nid ts sp chain_arg app e = (out, e')"
    and o: "admission_ok C x c out e e'"
  shows "queue_ok L e'"
proof (cases out)
  case (Inl err)
  then have "same_queues e e'" "fewer_chains e e'"
    using o by (auto simp: admission_ok_def fewer_chains_def split: if_splits)
  then show ?thesis by (rule queue_ok_same [OF q])
next
  case (Inr a)
  note Q = queue_okD [OF q] and A = active_okD [OF engine_chains_okD(2) [OF ok]]
  let ?s = "admitted_seq_id a"
  have w: "waiting (sch e') = waiting (sch e) @ [x]" "decoding (sch e') = decoding (sch e)"
    "seq_id (sq (sch e') x) = ?s" "\<forall>y. y \<noteq> x \<longrightarrow> sq (sch e') y = sq (sch e) y"
    "active_chain_sequences e' = dict_set ?s x (active_chain_sequences e)"
    using o Inr by (simp_all add: admission_ok_def)
  have own: "?s = sid \<or> (\<exists>d r. dict_get (records (chain_cache e)) d = Some r \<and> rec_state r = IDLE
      \<and> rec_seq_id r = ?s)"
    using admitted_owner [OF ok sid(1)] run Inr by simp
  have none: "dict_get (active_chain_sequences e) ?s = None"
  proof (cases "?s = sid")
    case True
    show ?thesis
    proof (rule ccontr)
      assume "dict_get (active_chain_sequences e) ?s \<noteq> None"
      then obtain y where "dict_get (active_chain_sequences e) ?s = Some y" by blast
      from A(2) [OF this] obtain d r where "dict_get (records (chain_cache e)) d = Some r" "rec_seq_id r = ?s"
        by blast
      then show False using chain_okD(5) [OF engine_chains_okD(1) [OF ok]] sid(1) True by fastforce
    qed
  next
    case False
    then show ?thesis using own idle_not_active [OF ok] by metis
  qed
  have s: "?s \<notin> L" using own sid(2) Q(4) by metis
  have h: "held (sch e') = insert x (held (sch e))" by (auto simp: held_def w)
  have keep: "dict_get (active_chain_sequences e') (seq_id (sq (sch e') y)) = Some y \<or> seq_id (sq (sch e') y) \<in> L"
    if y: "y \<in> held (sch e')" for y
  proof (cases "y = x")
    case True
    then show ?thesis using w(3,5) by simp
  next
    case False
    then have yy: "y \<in> held (sch e)" "sq (sch e') y = sq (sch e) y" using y h w(4) by auto
    then show ?thesis using Q(2) [OF yy(1)] none w(5) by auto
  qed
  have rec: "rec_seq_id r \<notin> L" if d: "dict_get (records (chain_cache e')) d = Some r" for d r
  proof (cases "d = admitted_chain_id a")
    case True
    then show ?thesis using o Inr d s by (auto simp: admission_ok_def)
  next
    case False
    then have "dict_get (records (chain_cache e')) d = None
        \<or> dict_get (records (chain_cache e')) d = dict_get (records (chain_cache e)) d"
      using o Inr by (simp add: admission_ok_def)
    then show ?thesis using d Q(4) by auto
  qed
  have "distinct (waiting (sch e') @ decoding (sch e'))"
    using Q(1) x by (auto simp: w held_def)
  moreover have "dict_get (active_chain_sequences e') t = None" if "t \<in> L" for t
    using that s Q(3) w(5) by auto
  ultimately show ?thesis unfolding queue_ok_def using keep rec by blast
qed

text \<open>The operations that take a chain away, and with it, but for an invalidation, its sequence.\<close>

lemma free_payload_queues [simp]:
  "waiting (sch (if b then free_seq_payload K sid e else e)) = waiting (sch e)"
  "decoding (sch (if b then free_seq_payload K sid e else e)) = decoding (sch e)"
  "sq (sch (if b then free_seq_payload K sid e else e)) = sq (sch e)"
  "active_chain_sequences (if b then free_seq_payload K sid e else e) = active_chain_sequences e"
  by simp_all

lemma abort_request_queues:
  assumes ok: "engine_chains_ok L J e" and q: "queue_ok L e"
    and run: "abort_chain_request M K sid e = (out, e')"
  shows "queue_ok L e'"
proof -
  obtain b e1 where b: "scheduler_abort M sid e = (b, e1)" by fastforce
  note S = scheduler_abort_ok [OF b]
  have ok1: "engine_chains_ok L J e1" by (rule S(5) [OF ok])
  have f: "fewer_chains e e'" using abort_request_ok [OF ok, of M K sid] run by auto
  have fin: "queue_ok L e'"
    if "waiting (sch e') = waiting (sch e1)" "decoding (sch e') = decoding (sch e1)" "sq (sch e') = sq (sch e1)"
      "dict_get (active_chain_sequences e') = (dict_get (active_chain_sequences e))(sid := None)
        \<or> dict_get (active_chain_sequences e') = dict_get (active_chain_sequences e)"
    by (rule queue_ok_abort [OF q ok, of e' M sid]) (use that S f in simp_all)
  show ?thesis
  proof (cases "dict_get (active_chain_sequences e) sid")
    case (Some y)
    obtain c r where c: "chain_id (sq (sch e1) y) = Some c" "seq_id (sq (sch e1) y) = sid"
      "dict_get (records (chain_cache e1)) c = Some r" "rec_seq_id r = sid"
      using active_chain [OF ok1] Some S(2) by metis
    obtain w e2 where w: "runtime_chain_invalidate K c (Some sid) (pop_active sid e1) = (Inr w, e2)"
      "engine_chains_ok L J e2" "chain_dropped c sid (pop_active sid e1) e2" "fewer_chains e1 e2"
      by (rule drop_run [OF ok1 c(3,4)])
    have "e' = e2" using run Some b c w(1) by (simp add: abort_chain_request_def bindE_run)
    then show ?thesis
      using w(3) S(2) by (intro fin) (simp_all add: chain_dropped_def same_queues_def AList.delete_conv')
  next
    case None
    show ?thesis
    proof (cases "dict_get (seq_id_to_chain_id (chain_cache e1)) sid")
      case (Some c)
      obtain r where r: "dict_get (records (chain_cache e1)) c = Some r" "rec_seq_id r = sid"
        using chain_okD(10) [OF engine_chains_okD(1) [OF ok1] Some] by blast
      obtain w e2 where w: "runtime_chain_invalidate K c (Some sid) e1 = (Inr w, e2)" "chain_ok (chain_cache e2)"
        "chain_dropped c sid e1 e2" by (rule runtime_invalidate_run [OF engine_chains_okD(1) [OF ok1] r])
      have "e' = e2" using run None Some b w(1) by (simp add: abort_chain_request_def bindE_run)
      then show ?thesis using w(3) S(2) by (intro fin) (simp_all add: chain_dropped_def same_queues_def)
    next
      case no: None
      have "e' = (if b then free_seq_payload K sid e1 else e1)"
        using run None no b by (simp add: abort_chain_request_def)
      then show ?thesis using S(2) by (intro fin) simp_all
    qed
  qed
qed

lemma discard_chain_queues:
  assumes ok: "engine_chains_ok L J e" and q: "queue_ok L e" and run: "discard_chain M K c expected e = (out, e')"
  shows "queue_ok L e'"
proof (cases "\<exists>r. dict_get (records (chain_cache e)) c = Some r \<and> rec_seq_id r = expected")
  case False
  then show ?thesis using run q by (auto simp: discard_chain_def split: option.splits if_splits)
next
  case True
  then obtain r where r: "dict_get (records (chain_cache e)) c = Some r" "rec_seq_id r = expected" by blast
  obtain b e1 where b: "scheduler_abort M expected e = (b, e1)" by fastforce
  note S = scheduler_abort_ok [OF b]
  have r1: "dict_get (records (chain_cache e1)) c = Some r" using r(1) S(1) by simp
  obtain w e2 where w: "runtime_chain_invalidate K c (Some expected) (pop_active expected e1) = (Inr w, e2)"
    "engine_chains_ok L J e2" "chain_dropped c expected (pop_active expected e1) e2" "fewer_chains e1 e2"
    by (rule drop_run [OF S(5) [OF ok] r1 r(2)])
  have "e' = e2" using run r b w by (auto simp: discard_chain_def bindE_run)
  moreover have "fewer_chains e e2" using w(4) S(1) by (simp add: fewer_chains_def)
  ultimately show ?thesis
    using w(3) S
    by (intro queue_ok_abort [OF q ok, of e' M expected])
      (simp_all add: chain_dropped_def same_queues_def AList.delete_conv')
qed

lemma fail_requests_queues:
  "engine_chains_ok L J e \<Longrightarrow> queue_ok L e \<Longrightarrow> queue_ok L (fail_requests M K xs e)"
proof (induction xs arbitrary: e)
  case (Cons x xs)
  let ?sid = "seq_id (sq (sch e) x)"
  show ?case
  proof (cases "dict_get (active_chain_sequences e) ?sid")
    case None
    then show ?thesis using Cons by (simp add: Let_def)
  next
    case (Some y)
    obtain c r where c: "chain_id (sq (sch e) y) = Some c" "seq_id (sq (sch e) y) = ?sid"
      "dict_get (records (chain_cache e)) c = Some r" "rec_seq_id r = ?sid"
      by (rule active_chain [OF Cons.prems(1) Some])
    obtain w e' where w: "runtime_chain_invalidate K c (Some ?sid) (pop_active ?sid e) = (Inr w, e')"
      "engine_chains_ok L J e'" "chain_dropped c ?sid (pop_active ?sid e) e'" "fewer_chains e e'"
      by (rule drop_run [OF Cons.prems(1) c(3,4)])
    obtain b e1 where b: "scheduler_abort M ?sid e' = (b, e1)" by fastforce
    note S = scheduler_abort_ok [OF b]
    have same: "waiting (sch e') = waiting (sch e)" "decoding (sch e') = decoding (sch e)" "sq (sch e') = sq (sch e)"
      using w(3) by (simp_all add: chain_dropped_def same_queues_def)
    have qs: "waiting (snd (abort M k s)) = waiting (snd (abort M k s'))
        \<and> decoding (snd (abort M k s)) = decoding (snd (abort M k s'))"
      if "waiting s = waiting s'" "decoding s = decoding s'" "sq s = sq s'" for k and s s' :: "'a sched"
      using that by (simp add: abort_def abort_found_def set_seq_def Let_def split: option.split)
    have "queue_ok L e1"
      by (rule queue_ok_abort [OF Cons.prems(2,1), of e1 M ?sid])
        (use S w(3,4) same qs [OF same] in
          \<open>simp_all add: chain_dropped_def same_queues_def fewer_chains_def AList.delete_conv'\<close>)
    then show ?thesis using Some c w(1) b Cons.IH [OF S(5) [OF w(2)]] by (auto simp: Let_def)
  qed
qed simp

text \<open>An invalidation leaves the sequence of an ACTIVE chain in the scheduler: its identity is lost.\<close>

definition lost_by :: "string \<Rightarrow> 'm chain_engine \<Rightarrow> int set" where
  "lost_by c e = {rec_seq_id r |r. dict_get (records (chain_cache e)) c = Some r \<and> rec_state r = ACTIVE}"

lemma engine_chains_more: "engine_chains_ok L J e \<Longrightarrow> L \<subseteq> L' \<Longrightarrow> J \<subseteq> J' \<Longrightarrow> engine_chains_ok L' J' e"
  unfolding engine_chains_ok_def active_ok_def residents_ok_def by blast

lemma invalidate_queues:
  assumes ok: "engine_chains_ok L J e" and q: "queue_ok L e" and run: "engine_invalidate_chain K c e = (out, e')"
  shows "queue_ok (L \<union> lost_by c e) e'"
proof (cases "chain_lookup c (chain_cache e)")
  case (Inl err)
  then have "dict_get (records (chain_cache e)) c = None"
    by (auto simp: chain_lookup_def split: option.splits)
  then have "lost_by c e = {}" by (simp add: lost_by_def)
  then show ?thesis using run q Inl by (simp add: engine_invalidate_chain_def)
next
  case (Inr r)
  let ?s = "rec_seq_id r"
  have r: "dict_get (records (chain_cache e)) c = Some r" using Inr by (simp add: chain_lookup_Inr)
  obtain w e2 where w: "runtime_chain_invalidate K c (Some ?s) (pop_active ?s e) = (Inr w, e2)"
    "engine_chains_ok L J e2" "chain_dropped c ?s (pop_active ?s e) e2" "fewer_chains e e2"
    by (rule drop_run [OF ok r refl])
  have e': "e' = e2" using run Inr w(1) by (simp add: engine_invalidate_chain_def bindE_run)
  note Q = queue_okD [OF q] and A = active_okD [OF engine_chains_okD(2) [OF ok]]
  have f: "waiting (sch e') = waiting (sch e)" "decoding (sch e') = decoding (sch e)" "sq (sch e') = sq (sch e)"
    "dict_get (active_chain_sequences e') = (dict_get (active_chain_sequences e))(?s := None)"
    "records (chain_cache e') = dict_del c (records (chain_cache e))"
    using w(3) unfolding e' by (simp_all add: chain_dropped_def same_queues_def AList.delete_conv')
  have lost: "lost_by c e = (if rec_state r = ACTIVE then {?s} else {})" using r by (auto simp: lost_by_def)
  have idle: "dict_get (active_chain_sequences e) ?s = None" if "rec_state r \<noteq> ACTIVE"
    using idle_not_active [OF ok r] that chain_state.exhaust by blast
  have keep: "dict_get (active_chain_sequences e') (seq_id (sq (sch e) x)) = Some x
      \<or> seq_id (sq (sch e) x) \<in> L \<union> lost_by c e" if "x \<in> held (sch e)" for x
    using Q(2) [OF that] idle lost f(4) by (cases "seq_id (sq (sch e) x) = ?s") auto
  have act: "dict_get (active_chain_sequences e') s = None" if "s \<in> L \<union> lost_by c e" for s
    using that Q(3) f(4) lost by (auto split: if_splits)
  have rec: "rec_seq_id r' \<notin> L \<union> lost_by c e" if d: "dict_get (records (chain_cache e')) d = Some r'" for d r'
  proof -
    have d': "d \<noteq> c" "dict_get (records (chain_cache e)) d = Some r'" using d f(5) by (auto split: if_splits)
    note own = chain_okD(5) [OF engine_chains_okD(1) [OF ok]]
    have "rec_seq_id r' \<noteq> ?s" using own [OF d'(2)] own [OF r] d'(1) by auto
    then show ?thesis using Q(4) [OF d'(2)] lost by (simp split: if_splits)
  qed
  show ?thesis
    using Q(1) keep act rec unfolding queue_ok_def held_def f by blast
qed

end
