(* ===== verification/Chain_Turns.thy ===== *)
theory Chain_Turns
  imports Chain_Engine_Runs
begin

text \<open>
  Turns of a chain: a finished request leaves its chain idle with its tokens recorded, and the
  next request resumes at exactly that boundary.
\<close>

section \<open>Recorded turns\<close>

definition turn_recorded :: "(bytes \<Rightarrow> bytes) \<Rightarrow> chain_record \<Rightarrow> bool" where
  "turn_recorded H r \<longleftrightarrow>
     processed_token_count r \<le> int (length (history_tokens r))
     \<and> stable_token_digest H (map uint (history_tokens r)) (Some (processed_token_count r))
         = Inr (processed_token_digest r)"

lemma to_uint32_uint: "to_uint32 ts = Some ws \<Longrightarrow> map uint ws = ts"
proof (induction ts arbitrary: ws)
  case (Cons t ts)
  then obtain vs where v: "0 \<le> t" "t < 2 ^ 32" "to_uint32 ts = Some vs" "ws = word_of_int t # vs"
    by (auto split: if_splits)
  have "uint (word_of_int t :: 32 word) = t"
    using v(1,2) by (simp add: uint_word_of_int take_bit_eq_mod)
  then show ?case using Cons.IH [OF v(3)] v(4) by simp
qed simp

lemma prepare_history_Inr:
  assumes "prepare_token_history s r ts n = Inr ws"
  shows "0 \<le> n" "n \<le> int (length ts)" "map uint ws = ts"
  using assms to_uint32_uint [of ts ws]
  by (auto simp: prepare_token_history_def Let_def split: if_splits option.splits)

lemma remember_recorded:
  assumes "remember_processed_tokens H c sid ts n s = (Inr r, t)"
  shows "turn_recorded H r" "map uint (history_tokens r) = ts" "processed_token_count r = n"
    "rec_state r = IDLE" "rec_seq_id r = sid" "records t = dict_set c r (records s)"
    "seq_id_to_chain_id t = seq_id_to_chain_id s"
    "\<exists>r0. dict_get (records s) c = Some r0 \<and> rec_fingerprint r = rec_fingerprint r0"
proof -
  obtain r0 ws where r: "dict_get (records s) c = Some r0" "rec_seq_id r0 = sid" "rec_state r0 = IDLE"
    "prepare_token_history s r0 ts n = Inr ws" "n = processed_token_count r0"
    "stable_token_digest H (map uint ws) (Some n) = Inr (processed_token_digest r0)"
    "r = r0\<lparr>history_tokens := ws\<rparr>" "t = store_token_history c r0 ws s"
    by (rule remember_Inr [OF assms])
  note p = prepare_history_Inr [OF r(4)]
  have "length ws = length ts" using p(3) by (metis length_map)
  then show "turn_recorded H r" "map uint (history_tokens r) = ts" "processed_token_count r = n"
    "rec_state r = IDLE" "rec_seq_id r = sid" "records t = dict_set c r (records s)"
    "seq_id_to_chain_id t = seq_id_to_chain_id s"
    "\<exists>r0. dict_get (records s) c = Some r0 \<and> rec_fingerprint r = rec_fingerprint r0"
    using r p by (simp_all add: turn_recorded_def store_token_history_def)
qed

lemma finish_values_Inr:
  assumes "finish_values V c sid d n s = (Inr r, t)"
  shows "\<exists>r0. dict_get (records s) c = Some r0 \<and> rec_seq_id r0 = sid \<and> rec_state r0 = ACTIVE
      \<and> processed_token_count r0 \<le> n \<and> rec_fingerprint r = rec_fingerprint r0 \<and> rec_seq_id r = sid"
    "records t = dict_set c r (records s)" "seq_id_to_chain_id t = seq_id_to_chain_id s"
proof -
  obtain r0 where r0: "dict_get (records s) c = Some r0" "rec_seq_id r0 = sid"
    and f: "finish_digest c d n (residency_of V sid) 1 s = (Inr r, t)"
    using assms by (auto simp: finish_values_def chain_lookup_Inr split: sum.splits if_splits)
  show "\<exists>r0. dict_get (records s) c = Some r0 \<and> rec_seq_id r0 = sid \<and> rec_state r0 = ACTIVE
      \<and> processed_token_count r0 \<le> n \<and> rec_fingerprint r = rec_fingerprint r0 \<and> rec_seq_id r = sid"
    "records t = dict_set c r (records s)" "seq_id_to_chain_id t = seq_id_to_chain_id s"
    using r0 by (auto intro: finish_digest_Inr [OF f])
qed

section \<open>The end of a turn\<close>

lemma finish_request_Inr:
  assumes ok: "engine_chains_ok L J e" and y: "dict_get (active_chain_sequences e) (seq_id (sq (sch e) x)) = Some y"
    and run: "finish_request H K x e = (Inr b, e')"
  obtains c r where "b" "chain_id (sq (sch e) y) = Some c" "seq_id (sq (sch e) y) = seq_id (sq (sch e) x)"
    "dict_get (records (chain_cache e')) = (dict_get (records (chain_cache e)))(c \<mapsto> r)"
    "seq_id_to_chain_id (chain_cache e') = seq_id_to_chain_id (chain_cache e)"
    "turn_recorded H r" "map uint (history_tokens r) = seq_tokens (sq (sch e) y)"
    "processed_token_count r = max 0 (num_tokens (sq (sch e) y) - 1)"
    "rec_state r = IDLE" "rec_seq_id r = seq_id (sq (sch e) x)"
    "\<exists>r0. dict_get (records (chain_cache e)) c = Some r0 \<and> rec_fingerprint r = rec_fingerprint r0"
    "active_chain_sequences e' = dict_del (seq_id (sq (sch e) x)) (active_chain_sequences e)"
    "sq (sch e') = sq (sch e)" "resident_seq_ids e' = resident_seq_ids e" "chain_ok (chain_cache e')"
    "waiting (sch e') = waiting (sch e)" "decoding (sch e') = decoding (sch e)"
proof -
  let ?sid = "seq_id (sq (sch e) x)" and ?q = "sq (sch e) y"
  obtain c r0 where c: "chain_id ?q = Some c" "seq_id ?q = ?sid"
    "dict_get (records (chain_cache e)) c = Some r0" "rec_seq_id r0 = ?sid"
    by (rule active_chain [OF ok y])
  let ?n = "max 0 (num_tokens ?q - 1)"
  let ?e1 = "set_memory (on_chain_turn_finished K ?sid ?n) (pop_active ?sid e)"
  let ?V = "hooks_of K (memory ?e1)"
  have pop: "e\<lparr>active_chain_sequences := dict_del ?sid (active_chain_sequences e)\<rparr> = pop_active ?sid e"
    by (simp add: pop_active_def)
  obtain d where d: "stable_token_digest H (seq_tokens ?q) (Some ?n) = Inr d"
    using run y c by (auto simp: finish_request_def Let_def bindE_run split: sum.splits)
  obtain r1 s1 where f: "finish_values ?V c ?sid d ?n (chain_cache e) = (Inr r1, s1)"
    and run2: "bindE (chain_call (remember_processed_tokens H c ?sid (seq_tokens ?q) ?n)) (\<lambda>_. retE True)
        (?e1\<lparr>chain_cache := s1\<rparr>) = (Inr b, e')"
    using run y c d
    by (auto simp: finish_request_def Let_def bindE_run runtime_chain_finish_def chain_call_def pop
        set_memory_def split: sum.splits prod.splits)
  obtain r s2 where m: "remember_processed_tokens H c ?sid (seq_tokens ?q) ?n s1 = (Inr r, s2)"
    and e': "b" "e' = ?e1\<lparr>chain_cache := s2\<rparr>"
    using run2 by (auto simp: bindE_run chain_call_def split: sum.splits prod.splits)
  note R = remember_recorded [OF m] and F = finish_values_Inr [OF f]
  have ok2: "chain_ok s2"
    using remember_ok [OF finish_values_ok [OF engine_chains_okD(1) [OF ok], of ?V c ?sid d ?n]] f m
    by (metis snd_conv)
  show thesis
    by (rule that [OF e'(1) c(1,2)])
      (use R F e'(2) ok2 in \<open>auto simp: set_memory_def\<close>)
qed

lemma finish_request_ok:
  assumes ok: "engine_chains_ok L J e" and run: "finish_request H K x e = (Inr b, e')"
  shows "engine_chains_ok L J e'"
proof (cases "dict_get (active_chain_sequences e) (seq_id (sq (sch e) x))")
  case None
  then show ?thesis using run ok by (simp add: finish_request_def Let_def)
next
  case (Some y)
  let ?sid = "seq_id (sq (sch e) x)"
  obtain c r where f: "b" "chain_id (sq (sch e) y) = Some c" "seq_id (sq (sch e) y) = ?sid"
    "dict_get (records (chain_cache e')) = (dict_get (records (chain_cache e)))(c \<mapsto> r)"
    "seq_id_to_chain_id (chain_cache e') = seq_id_to_chain_id (chain_cache e)"
    "turn_recorded H r" "map uint (history_tokens r) = seq_tokens (sq (sch e) y)"
    "processed_token_count r = max 0 (num_tokens (sq (sch e) y) - 1)"
    "rec_state r = IDLE" "rec_seq_id r = ?sid"
    "\<exists>r0. dict_get (records (chain_cache e)) c = Some r0 \<and> rec_fingerprint r = rec_fingerprint r0"
    "active_chain_sequences e' = dict_del ?sid (active_chain_sequences e)"
    "sq (sch e') = sq (sch e)" "resident_seq_ids e' = resident_seq_ids e" "chain_ok (chain_cache e')"
    by (rule finish_request_Inr [OF ok Some run])
  note A = active_okD [OF engine_chains_okD(2) [OF ok]] and own = chain_okD(5) [OF f(15)]
  have c': "c' \<noteq> c" if "dict_get (records (chain_cache e')) c' = Some r'" "rec_state r' = ACTIVE" for c' r'
    using that f(4,9) by auto
  have "active_ok J e'"
    unfolding active_ok_def
  proof (intro conjI allI impI)
    fix k z assume "dict_get (active_chain_sequences e') k = Some z"
    then have k: "k \<noteq> ?sid" "dict_get (active_chain_sequences e) k = Some z"
      using f(12) by (auto split: if_splits)
    show "seq_id (sq (sch e') z) = k" using A(1) [OF k(2)] f(13) by simp
    obtain c1 r1 where r1: "chain_id (sq (sch e) z) = Some c1" "dict_get (records (chain_cache e)) c1 = Some r1"
      "rec_seq_id r1 = k" "rec_state r1 = ACTIVE" using A(2) [OF k(2)] by blast
    have "c1 \<noteq> c"
    proof
      assume "c1 = c"
      then have "dict_get (seq_id_to_chain_id (chain_cache e)) k = Some c"
        using chain_okD(5) [OF engine_chains_okD(1) [OF ok] r1(2)] r1(3) by simp
      moreover have "dict_get (seq_id_to_chain_id (chain_cache e)) ?sid = Some c"
        using own [of c r] f(4,5,10) by simp
      moreover have "\<exists>r'. dict_get (records (chain_cache e)) c = Some r' \<and> rec_seq_id r' = ?sid"
        using chain_okD(10) [OF engine_chains_okD(1) [OF ok]] calculation(2) by blast
      ultimately show False using r1(2,3) k(1) \<open>c1 = c\<close> by simp
    qed
    then show "\<exists>c r. chain_id (sq (sch e') z) = Some c \<and> dict_get (records (chain_cache e')) c = Some r
        \<and> rec_seq_id r = k \<and> rec_state r = ACTIVE" using r1 f(4,13) by simp
  next
    fix d r' assume d: "dict_get (records (chain_cache e')) d = Some r' \<and> rec_state r' = ACTIVE"
    then have dc: "d \<noteq> c" using c' by blast
    then have d0: "dict_get (records (chain_cache e)) d = Some r'" using d f(4) by simp
    have "rec_seq_id r' \<noteq> ?sid" using own [of d r'] own [of c r] d f(4,10) dc by auto
    then show "dict_get (active_chain_sequences e') (rec_seq_id r') \<noteq> None \<or> rec_seq_id r' \<in> J"
      using A(3) [OF d0] d f(12) by auto
  qed
  moreover have "residents_ok L e'"
    using engine_chains_okD(3) [OF ok] f(5,14) by (simp add: residents_ok_def)
  ultimately show ?thesis using f(15) by (simp add: engine_chains_ok_def)
qed

text \<open>
  An end that raises still takes the sequence out of the active ones; its chain keeps its owner and
  is ACTIVE or IDLE as far as the end got.
\<close>

lemma finish_values_Inl: "finish_values V c sid d n s = (Inl err, t) \<Longrightarrow> t = s"
  by (auto simp: finish_values_def finish_digest_def Let_def chain_tick_def split: sum.splits if_splits)

lemma finish_request_Inl:
  assumes ok: "engine_chains_ok L J e" and run: "finish_request H K x e = (Inl err, e')"
  obtains y c r r' where "dict_get (active_chain_sequences e) (seq_id (sq (sch e) x)) = Some y"
    "dict_get (records (chain_cache e)) c = Some r" "rec_seq_id r = seq_id (sq (sch e) x)"
    "rec_seq_id r' = rec_seq_id r"
    "dict_get (records (chain_cache e')) = (dict_get (records (chain_cache e)))(c \<mapsto> r')"
    "seq_id_to_chain_id (chain_cache e') = seq_id_to_chain_id (chain_cache e)"
    "active_chain_sequences e' = dict_del (seq_id (sq (sch e) x)) (active_chain_sequences e)"
    "sq (sch e') = sq (sch e)" "waiting (sch e') = waiting (sch e)" "decoding (sch e') = decoding (sch e)"
    "resident_seq_ids e' = resident_seq_ids e" "chain_ok (chain_cache e')"
    "rec_fingerprint r' = rec_fingerprint r"
proof -
  let ?sid = "seq_id (sq (sch e) x)"
  obtain y where y: "dict_get (active_chain_sequences e) ?sid = Some y"
    using run by (auto simp: finish_request_def Let_def split: option.splits)
  let ?q = "sq (sch e) y"
  obtain c r where c: "chain_id ?q = Some c" "seq_id ?q = ?sid"
    "dict_get (records (chain_cache e)) c = Some r" "rec_seq_id r = ?sid"
    by (rule active_chain [OF ok y])
  let ?n = "max 0 (num_tokens ?q - 1)"
  let ?e1 = "set_memory (on_chain_turn_finished K ?sid ?n) (pop_active ?sid e)"
  let ?V = "hooks_of K (memory ?e1)"
  have pop: "e\<lparr>active_chain_sequences := dict_del ?sid (active_chain_sequences e)\<rparr> = pop_active ?sid e"
    by (simp add: pop_active_def)
  have okc: "chain_ok (chain_cache e)" by (rule engine_chains_okD(1) [OF ok])
  have same: "dict_get (records (chain_cache e)) = (dict_get (records (chain_cache e)))(c \<mapsto> r)"
    using c(3) by (auto simp: fun_eq_iff)
  show thesis
  proof (cases "stable_token_digest H (seq_tokens ?q) (Some ?n)")
    case (Inl m)
    then have "e' = pop_active ?sid e"
      using run y c by (simp add: finish_request_def Let_def bindE_run pop)
    then show thesis using y c okc same by (intro that [of y c r r]) simp_all
  next
    case (Inr d)
    obtain z s1 where f: "finish_values ?V c ?sid d ?n (chain_cache e) = (z, s1)" by fastforce
    show thesis
    proof (cases z)
      case (Inl m)
      have "s1 = chain_cache e" using finish_values_Inl f Inl by blast
      then have "e' = ?e1\<lparr>chain_cache := chain_cache e\<rparr>"
        using run y c Inr f Inl
        by (simp add: finish_request_def Let_def bindE_run runtime_chain_finish_def chain_call_def pop
            set_memory_def)
      then show thesis using y c okc same by (intro that [of y c r r]) (simp_all add: set_memory_def)
    next
      case r1: (Inr r1)
      note F = finish_values_Inr [OF f [unfolded r1]]
      obtain w s2 where m: "remember_processed_tokens H c ?sid (seq_tokens ?q) ?n s1 = (w, s2)" by fastforce
      obtain m' where w: "w = Inl m'" and e': "e' = ?e1\<lparr>chain_cache := s2\<rparr>"
        using run y c Inr f r1 m
        by (cases w) (auto simp: finish_request_def Let_def bindE_run runtime_chain_finish_def chain_call_def pop
            set_memory_def)
      have s2: "s2 = s1" using remember_state m w by blast
      have ok1: "chain_ok s1" using finish_values_ok [OF okc, of ?V c ?sid d ?n] f by simp
      show thesis
        using y c F ok1 s2 e' by (intro that [of y c r r1]) (auto simp: set_memory_def)
    qed
  qed
qed

lemma finish_raised_ok:
  assumes ok: "engine_chains_ok L J e" and run: "finish_request H K x e = (Inl err, e')"
  shows "engine_chains_ok L (insert (seq_id (sq (sch e) x)) J) e'"
proof -
  let ?sid = "seq_id (sq (sch e) x)"
  obtain y c r r' where f: "dict_get (active_chain_sequences e) ?sid = Some y"
    "dict_get (records (chain_cache e)) c = Some r" "rec_seq_id r = ?sid" "rec_seq_id r' = rec_seq_id r"
    "dict_get (records (chain_cache e')) = (dict_get (records (chain_cache e)))(c \<mapsto> r')"
    "seq_id_to_chain_id (chain_cache e') = seq_id_to_chain_id (chain_cache e)"
    "active_chain_sequences e' = dict_del ?sid (active_chain_sequences e)"
    "sq (sch e') = sq (sch e)" "resident_seq_ids e' = resident_seq_ids e" "chain_ok (chain_cache e')"
    by (rule finish_request_Inl [OF ok run])
  note A = active_okD [OF engine_chains_okD(2) [OF ok]] and own = chain_okD(5) [OF engine_chains_okD(1) [OF ok]]
  have "active_ok (insert ?sid J) e'"
    unfolding active_ok_def
  proof (intro conjI allI impI)
    fix k z assume "dict_get (active_chain_sequences e') k = Some z"
    then have k: "k \<noteq> ?sid" "dict_get (active_chain_sequences e) k = Some z"
      using f(7) by (auto split: if_splits)
    show "seq_id (sq (sch e') z) = k" using A(1) [OF k(2)] f(8) by simp
    obtain c1 r1 where r1: "chain_id (sq (sch e) z) = Some c1" "dict_get (records (chain_cache e)) c1 = Some r1"
      "rec_seq_id r1 = k" "rec_state r1 = ACTIVE" using A(2) [OF k(2)] by blast
    have "c1 \<noteq> c" using r1(2,3) f(2,3) k(1) by auto
    then show "\<exists>c r. chain_id (sq (sch e') z) = Some c \<and> dict_get (records (chain_cache e')) c = Some r
        \<and> rec_seq_id r = k \<and> rec_state r = ACTIVE" using r1 f(5,8) by simp
  next
    fix d s assume d: "dict_get (records (chain_cache e')) d = Some s \<and> rec_state s = ACTIVE"
    show "dict_get (active_chain_sequences e') (rec_seq_id s) \<noteq> None \<or> rec_seq_id s \<in> insert ?sid J"
    proof (cases "d = c")
      case True
      then show ?thesis using d f(3-5) by simp
    next
      case False
      then have d0: "dict_get (records (chain_cache e)) d = Some s" using d f(5) by simp
      then show ?thesis using A(3) [OF d0] d f(7) by (cases "rec_seq_id s = ?sid") auto
    qed
  qed
  moreover have "residents_ok L e'"
    using engine_chains_okD(3) [OF ok] f(6,9) by (simp add: residents_ok_def)
  ultimately show ?thesis using f(10) by (simp add: engine_chains_ok_def)
qed

text \<open>An end changes no queue.\<close>

lemma finish_queues:
  assumes ok: "engine_chains_ok L J e" and q: "queue_ok L e"
    and out: "\<And>y. dict_get (active_chain_sequences e) (seq_id (sq (sch e) x)) = Some y \<Longrightarrow> y \<notin> held (sch e)"
    and run: "finish_request H K x e = (out, e')"
  shows "queue_ok L e'"
proof (cases "dict_get (active_chain_sequences e) (seq_id (sq (sch e) x))")
  case None
  then show ?thesis using run q by (simp add: finish_request_def Let_def)
next
  case (Some y)
  let ?sid = "seq_id (sq (sch e) x)"
  note Q = queue_okD [OF q]
  have sid: "?sid \<notin> L" using Q(3) Some by auto
  obtain c r where f: "rec_seq_id r = ?sid"
    "dict_get (records (chain_cache e')) = (dict_get (records (chain_cache e)))(c \<mapsto> r)"
    "active_chain_sequences e' = dict_del ?sid (active_chain_sequences e)"
    "sq (sch e') = sq (sch e)" "waiting (sch e') = waiting (sch e)" "decoding (sch e') = decoding (sch e)"
  proof (cases out)
    case (Inl err)
    show thesis by (rule finish_request_Inl [OF ok run [unfolded Inl]]) (rule that, simp_all)
  next
    case (Inr b)
    show thesis by (rule finish_request_Inr [OF ok Some run [unfolded Inr]]) (rule that, simp_all)
  qed
  have keep: "dict_get (active_chain_sequences e') (seq_id (sq (sch e) z)) = Some z \<or> seq_id (sq (sch e) z) \<in> L"
    if z: "z \<in> held (sch e)" for z
    using Q(2) [OF z] out [OF Some] z Some f(3) by (cases "seq_id (sq (sch e) z) = ?sid") auto
  have act: "dict_get (active_chain_sequences e') s = None" if "s \<in> L" for s
    using Q(3) [OF that] f(3) by simp
  have rec: "rec_seq_id r' \<notin> L" if "dict_get (records (chain_cache e')) d = Some r'" for d r'
    using that Q(4) f(1,2) sid by (auto split: if_splits)
  show ?thesis using Q(1) keep act rec unfolding queue_ok_def held_def f(4-6) by blast
qed

section \<open>Resuming\<close>

lemma digest_prefix:
  assumes "n \<le> int (length ts)"
  shows "stable_token_digest H (ts @ us) (Some n) = stable_token_digest H ts (Some n)"
  using assms by (simp add: stable_token_digest_def)

text \<open>A request that extends the recorded tokens is resumed at the recorded boundary.\<close>

lemma resume_append:
  assumes r: "dict_get (records s) c = Some r" "rec_state r = IDLE" "rec_fingerprint r = fp" "turn_recorded H r"
  shows "check_resume H c (rec_seq_id r) (Tokens (map uint (history_tokens r) @ us)) fp s
    = (Inr (''resumed'', processed_token_count r), s)"
proof -
  have "stable_token_digest H (map uint (history_tokens r) @ us) (Some (processed_token_count r))
      = Inr (processed_token_digest r)"
    using r(4) by (simp add: turn_recorded_def digest_prefix)
  then show ?thesis using r(1-3) by (simp add: check_resume_def)
qed

text \<open>
  Conversely a request that is resumed agrees with the recorded tokens up to the boundary, unless
  the digest collides.
\<close>

lemma digest_Inr:
  assumes "stable_token_digest H ts (Some n) = Inr d"
  obtains b where "pack_token_ids (take (nat n) ts) = Inr b" "d = H b" "int (length (take (nat n) ts)) = n"
  using assms that by (auto simp: stable_token_digest_def Let_def split: sum.splits if_splits)

lemma resume_prefix:
  assumes q: "check_resume H c sid (Tokens ts) fp s = (Inr (st, n), t)"
    and r: "dict_get (records s) c = Some r" "turn_recorded H r"
    and inj: "\<And>a b. pack_token_ids (take (nat n) ts) = Inr a
      \<Longrightarrow> pack_token_ids (take (nat n) (map uint (history_tokens r))) = Inr b \<Longrightarrow> H a = H b \<Longrightarrow> a = b"
  shows "n = processed_token_count r" "n \<le> int (length ts)"
    "take (nat n) ts = take (nat n) (map uint (history_tokens r))"
proof -
  note k = check_resume_Inr(3) [OF q r(1)]
  show n: "n = processed_token_count r" using k by simp
  have "stable_token_digest H ts (Some n) = Inr (processed_token_digest r)"
    using k n by (auto split: sum.splits chain_error.splits option.splits)
  then obtain a where a: "pack_token_ids (take (nat n) ts) = Inr a" "processed_token_digest r = H a"
    "int (length (take (nat n) ts)) = n" by (rule digest_Inr)
  have "stable_token_digest H (map uint (history_tokens r)) (Some n) = Inr (processed_token_digest r)"
    using r(2) n by (simp add: turn_recorded_def)
  then obtain b where b: "pack_token_ids (take (nat n) (map uint (history_tokens r))) = Inr b"
    "processed_token_digest r = H b" by (rule digest_Inr)
  show "n \<le> int (length ts)" using a(3) by simp
  have "a = b" using inj [OF a(1) b(1)] a(2) b(2) by simp
  then show "take (nat n) ts = take (nat n) (map uint (history_tokens r))"
    using pack_inj a(1) b(1) by blast
qed

text \<open>The next request of a recorded chain: resumed at the boundary, or no capacity.\<close>

lemma plan_resumed:
  assumes k: "check_resume H c sid inp fp s = (Inr (''resumed'', n), s)"
    and p: "coordinator_plan H fp V c sid inp g s = (y, t)"
  shows "y = Inl (ChainCapacity c) \<and> t = s
    \<or> (\<exists>p. y = Inr p \<and> plan_status p = ''resumed'' \<and> plan_reused_tokens p = n)"
proof -
  obtain req rowd resv resr where pa: "plan_admission H c sid inp fp req rowd resv resr s = (y, t)"
    by (rule coordinator_plan_obtain [OF p])
  show ?thesis
    using pa k by (auto simp: plan_admission_def bindE_run split: prod.splits if_splits)
qed

lemma next_turn:
  assumes e: "engine_chains_ok L J e" and x: "x \<notin> snd ` set (active_chain_sequences e)"
    and r: "dict_get (records (chain_cache e)) c = Some r" "rec_state r = IDLE"
      "rec_fingerprint r = chain_fingerprint C" "turn_recorded H r"
    and c: "requested_chain chain_arg = c" "c \<noteq> []"
    and pr: "request_prompt c app (Some r) ts = Inr (map uint (history_tokens r) @ us)" "us \<noteq> []"
    and len: "int (length (history_tokens r)) + int (length us) + max_tokens sp \<le> chain_max_model_len C"
    and run: "admit_chain_request H C K x sid nid ts sp chain_arg app e = (out, e')"
  shows "out = Inl (ChainCapacity c) \<and> e' = e
    \<or> (\<exists>a. out = Inr a \<and> admitted_chain_id a = c \<and> admitted_seq_id a = rec_seq_id r
        \<and> admitted_reused a = processed_token_count r
        \<and> admitted_prompt a = map uint (history_tokens r) @ us)"
proof -
  let ?s = "chain_cache e" and ?ts = "map uint (history_tokens r) @ us" and ?sid = "rec_seq_id r"
  have ex: "existing_chain c ?s = Inr (Some r)" using r(1) c(2) by (simp add: existing_chain_def chain_lookup_def)
  obtain y e1 where y: "chain_admission_plan H C K c ?sid ?ts (max_tokens sp) e = (y, e1)" by fastforce
  obtain t where t: "coordinator_plan H (chain_fingerprint C) (hooks_of K (memory e)) c ?sid (Tokens ?ts)
      (max_tokens sp) ?s = (y, t)" "e1 = e\<lparr>chain_cache := t\<rparr>" by (rule chain_plan_run [OF y])
  have nl: "\<not> chain_max_model_len C < int (length ?ts) + max_tokens sp" using len by simp
  consider (full) "y = Inl (ChainCapacity c)" "t = ?s"
    | (fits) p where "y = Inr p" "plan_status p = ''resumed''" "plan_reused_tokens p = processed_token_count r"
    using plan_resumed [OF resume_append [OF r] t(1)] by blast
  then show ?thesis
  proof cases
    case full
    then have "admit_chain_request H C K x sid nid ts sp chain_arg app e = (Inl (ChainCapacity c), e)"
      using ex c pr(1) nl y t(2) by (simp add: admit_run plan_request_def)
    then show ?thesis using run by simp
  next
    case fits
    let ?q = "make_seq ?sid ?ts sp"
    have ee: "e1 = e" "planned H C K c (seq_id ?q) (seq_tokens ?q) (max_tokens (sampling ?q)) p e"
      using chain_plan_cases(3) [OF e y fits(1)] by simp_all
    have new: "plan_status p = ''created'' \<longrightarrow> dict_get (seq_id_to_chain_id ?s) (seq_id ?q) = None"
      using fits(2) by simp
    have go: "\<not> (plan_status p = ''resumed'' \<and> int (length (seq_tokens ?q)) \<le> plan_reused_tokens p)"
      using fits(3) r(4) pr(2) by (cases us) (simp_all add: turn_recorded_def)
    obtain a e2 where a: "commit_request H C K x ?q p False e = (Inr a, e2)" "engine_chains_ok L J e2"
      "admitted_chain_id a = c" "admitted_seq_id a = seq_id ?q" "admitted_reused a = plan_reused_tokens p"
      "admitted_prompt a = seq_tokens ?q" "request_committed C x ?q p False e e2" "plan_chain_id p = c"
      by (rule commit_request_run [OF e ee(2) new x go])
    have "admit_chain_request H C K x sid nid ts sp chain_arg app e = (Inr a, e2)"
      using ex c pr(1) nl y fits(1) ee(1) a(1) by (simp add: admit_run plan_request_def)
    then show ?thesis using run a(3-6) fits(3) by simp
  qed
qed

text \<open>An append that is too long for the model, or to a chain that is gone, is refused at once.\<close>

lemma next_turn_long:
  assumes r: "dict_get (records (chain_cache e)) c = Some r"
    and c: "requested_chain chain_arg = c" "c \<noteq> []"
    and pr: "request_prompt c app (Some r) ts = Inr prompt"
    and len: "chain_max_model_len C < int (length prompt) + max_tokens sp"
  shows "admit_chain_request H C K x sid nid ts sp chain_arg app e
    = (Inl (Raised (ValueError ''Prompt length + max_tokens exceeds max_model_len: '')), e)"
  using assms by (simp add: admit_run existing_chain_def chain_lookup_def)

lemma next_turn_gone:
  assumes "dict_get (records (chain_cache e)) c = None" "requested_chain chain_arg = c" "c \<noteq> []"
  shows "\<exists>err. admit_chain_request H C K x sid nid ts sp chain_arg app e = (Inl err, e)"
  using assms by (auto simp: admit_run existing_chain_def chain_lookup_def split: option.split)

section \<open>Reachable engine states\<close>

definition start_chain_engine :: "chain_index \<Rightarrow> 'm sched \<Rightarrow> 'm chain_engine" where
  "start_chain_engine s t = \<lparr>chain_cache = s, resident_seq_ids = [], active_chain_sequences = [], sch = t\<rparr>"

text \<open>
  Any sequence of the operations; between them the scheduler and the workers run. They keep the
  identity of the sequences and put no new one into a queue; a row is recorded for a sequence of a
  queue when its prompt is admitted, whether it is still active or not, and is given back when the
  sequence is preempted. A sequence has left the queues when its end is handled. New sequence ids
  come from a counter. \<open>L\<close> collects the identities whose chain was invalidated while it was ACTIVE,
  \<open>J\<close> those whose end raised.
\<close>

inductive engine_chain_run ::
    "(bytes \<Rightarrow> bytes) \<Rightarrow> chain_config \<Rightarrow> 'm chain_memory \<Rightarrow> ('m, 'k) memory_oracle \<Rightarrow> int set \<Rightarrow> int set
       \<Rightarrow> 'm chain_engine \<Rightarrow> bool"
  for H C K M where
  started: "make_chain_index tombs cap = Inr s \<Longrightarrow> held t = {} \<Longrightarrow>
    engine_chain_run H C K M {} {} (start_chain_engine s t)"
| worked: "engine_chain_run H C K M L J e \<Longrightarrow>
    distinct (waiting t @ decoding t) \<Longrightarrow> held t \<subseteq> held (sch e) \<Longrightarrow>
    (\<And>x. x \<in> held (sch e) \<or> x \<in> snd ` set (active_chain_sequences e) \<Longrightarrow>
       seq_id (sq t x) = seq_id (sq (sch e) x) \<and> chain_id (sq t x) = chain_id (sq (sch e) x)) \<Longrightarrow>
    engine_chain_run H C K M L J (e\<lparr>sch := t\<rparr>)"
| prompt_admitted: "engine_chain_run H C K M L J e \<Longrightarrow> x \<in> held (sch e) \<Longrightarrow>
    engine_chain_run H C K M L J (on_chain_prompt_admitted (seq_id (sq (sch e) x)) cost e)"
| released: "engine_chain_run H C K M L J e \<Longrightarrow> engine_chain_run H C K M L J (free_seq_payload K sid e)"
| requested: "engine_chain_run H C K M L J e \<Longrightarrow> x \<notin> snd ` set (active_chain_sequences e) \<Longrightarrow>
    dict_get (seq_id_to_chain_id (chain_cache e)) sid = None \<Longrightarrow> x \<notin> held (sch e) \<Longrightarrow> sid \<notin> L \<Longrightarrow>
    admit_chain_request H C K x sid nid ts sp chain_arg app e = (out, e') \<Longrightarrow> engine_chain_run H C K M L J e'"
| ended: "engine_chain_run H C K M L J e \<Longrightarrow>
    (\<And>y. dict_get (active_chain_sequences e) (seq_id (sq (sch e) x)) = Some y \<Longrightarrow> y \<notin> held (sch e)) \<Longrightarrow>
    finish_request H K x e = (out3, e') \<Longrightarrow>
    engine_chain_run H C K M L (if isl out3 then insert (seq_id (sq (sch e) x)) J else J) e'"
| aborted: "engine_chain_run H C K M L J e \<Longrightarrow> abort_chain_request M K sid e = (out, e') \<Longrightarrow>
    engine_chain_run H C K M L J e'"
| discarded: "engine_chain_run H C K M L J e \<Longrightarrow> discard_chain M K c sid e = (out2, e') \<Longrightarrow>
    engine_chain_run H C K M L J e'"
| dropped: "engine_chain_run H C K M L J e \<Longrightarrow> engine_invalidate_chain K c e = (out, e') \<Longrightarrow>
    engine_chain_run H C K M (L \<union> lost_by c e) J e'"
| failed: "engine_chain_run H C K M L J e \<Longrightarrow> engine_chain_run H C K M L J (fail_requests M K xs e)"
| warmed: "engine_chain_run H C K M L J e \<Longrightarrow> active_chain_sequences e = [] \<Longrightarrow>
    engine_chain_run H C K M L J (reset_chains_after_warmup K e)"

lemma engine_chain_run_ok: "engine_chain_run H C K M L J e \<Longrightarrow> engine_chains_ok L J e \<and> queue_ok L e"
proof (induction rule: engine_chain_run.induct)
  case (started tombs cap s t)
  moreover have "records s = []" using started by (auto simp: make_chain_index_def split: if_splits)
  ultimately show ?case using chain_ok_make [OF started(1)]
    by (simp add: engine_chains_ok_def active_ok_def residents_ok_def queue_ok_def start_chain_engine_def held_def)
next
  case (worked L J e t)
  note ok = conjunct1 [OF worked.IH] and q = conjunct2 [OF worked.IH]
  have id: "seq_id (sq t x) = seq_id (sq (sch e) x) \<and> chain_id (sq t x) = chain_id (sq (sch e) x)"
    if "dict_get (active_chain_sequences e) sid = Some x" for sid x
    by (rule worked.hyps(4)) (use map_of_SomeD [OF that] in force)
  have "engine_chains_ok L J (e\<lparr>sch := t\<rparr>)"
    by (rule engine_chains_cong [OF _ _ _ _ _ ok])
      (use id engine_chains_okD(1) [OF ok] in \<open>simp_all\<close>)
  moreover have "dict_get (active_chain_sequences e) (seq_id (sq t x)) = Some x \<or> seq_id (sq t x) \<in> L"
    if "x \<in> held t" for x
    using that worked.hyps(3,4) queue_okD(2) [OF q, of x] by auto
  then have "queue_ok L (e\<lparr>sch := t\<rparr>)"
    using queue_okD(3,4) [OF q] worked.hyps(2) by (simp add: queue_ok_def)
  ultimately show ?case by blast
next
  case (prompt_admitted L J e x cost)
  note ok = conjunct1 [OF prompt_admitted.IH] and q = conjunct2 [OF prompt_admitted.IH]
  have "queue_ok L (on_chain_prompt_admitted sid cost e)" for sid
    using q by (simp add: on_chain_prompt_admitted_def queue_ok_def)
  then show ?case using prompt_admitted_ok [OF ok] queue_okD(2) [OF q prompt_admitted.hyps(2)] by auto
next
  case (released L J e sid)
  have "active_ok J (free_seq_payload K sid e) = active_ok J e" by (simp add: active_ok_def)
  then show ?case
    using released.IH by (simp add: engine_chains_ok_def residents_ok_def queue_ok_def held_def)
next
  case (requested L J e x sid nid ts sp chain_arg app out e')
  note ok = conjunct1 [OF requested.IH] and q = conjunct2 [OF requested.IH]
  note a = admit_request_ok [OF ok requested.hyps(2,3,6)]
  show ?case
    using queue_ok_admission [OF q ok requested.hyps(4,3,5,6)] a by blast
next
  case (ended L J e x out3 e')
  note ok = conjunct1 [OF ended.IH] and q = conjunct2 [OF ended.IH]
  show ?case
    using finish_request_ok [OF ok] finish_raised_ok [OF ok] finish_queues [OF ok q ended.hyps(2,3)] ended.hyps(3)
    by (cases out3) auto
next
  case (aborted L J e sid out e')
  note ok = conjunct1 [OF aborted.IH]
  show ?case
    using abort_request_ok [OF ok, of M K sid] abort_request_queues [OF ok _ aborted.hyps(2)] aborted by auto
next
  case (discarded L J e c sid out2 e')
  then show ?case using discard_chain_ok(1) discard_chain_queues by metis
next
  case (dropped L J e c out e')
  note ok = conjunct1 [OF dropped.IH] and q = conjunct2 [OF dropped.IH]
  have "engine_chains_ok L J e'" using invalidate_ok [OF ok, of K c] dropped.hyps(2) by simp
  then have "engine_chains_ok (L \<union> lost_by c e) J e'" by (rule engine_chains_more) auto
  then show ?case using invalidate_queues [OF ok q dropped.hyps(2)] by blast
next
  case (failed L J e xs)
  then show ?case using fail_requests_ok fail_requests_queues by blast
next
  case (warmed L J e)
  then have "queue_ok L (reset_chains_after_warmup K e)"
    by (auto simp: queue_ok_def reset_chains_after_warmup_def Let_def chain_reset_def held_def)
  then show ?case using reset_ok warmed by blast
qed

text \<open>Every chain of an engine was created under its configuration.\<close>

definition fingerprints_ok :: "chain_config \<Rightarrow> 'm chain_engine \<Rightarrow> bool" where
  "fingerprints_ok C e \<longleftrightarrow>
     (\<forall>c r. dict_get (records (chain_cache e)) c = Some r \<longrightarrow> rec_fingerprint r = chain_fingerprint C)"

lemma fewer_fingerprints: "fewer_chains e e' \<Longrightarrow> fingerprints_ok C e \<Longrightarrow> fingerprints_ok C e'"
  by (auto simp: fewer_chains_def fingerprints_ok_def)

lemma admission_fingerprints:
  assumes "admission_ok C x c out e e'" "fingerprints_ok C e"
  shows "fingerprints_ok C e'"
  unfolding fingerprints_ok_def
proof (intro allI impI)
  fix d r assume d: "dict_get (records (chain_cache e')) d = Some r"
  show "rec_fingerprint r = chain_fingerprint C"
  proof (cases out)
    case (Inl err)
    then show ?thesis using assms d by (auto simp: admission_ok_def fingerprints_ok_def split: if_splits)
  next
    case (Inr a)
    then show ?thesis using assms d by (cases "d = admitted_chain_id a") (auto simp: admission_ok_def fingerprints_ok_def)
  qed
qed

lemma finish_fingerprints:
  assumes ok: "engine_chains_ok L J e" and run: "finish_request H K x e = (Inr b, e')" and f: "fingerprints_ok C e"
  shows "fingerprints_ok C e'"
proof (cases "dict_get (active_chain_sequences e) (seq_id (sq (sch e) x))")
  case None
  then show ?thesis using run f by (simp add: finish_request_def Let_def)
next
  case (Some y)
  then show ?thesis
    by (rule finish_request_Inr [OF ok _ run]) (use f in \<open>auto simp: fingerprints_ok_def\<close>)
qed

lemma engine_fingerprints: "engine_chain_run H C K M L J e \<Longrightarrow> fingerprints_ok C e"
proof (induction rule: engine_chain_run.induct)
  case (started tombs cap s t)
  have "records s = []" using started by (auto simp: make_chain_index_def split: if_splits)
  then show ?case by (simp add: fingerprints_ok_def start_chain_engine_def)
next
  case (requested L J e x sid nid ts sp chain_arg app out e')
  show ?case
    by (rule admission_fingerprints [OF conjunct2 [OF admit_request_ok
          [OF conjunct1 [OF engine_chain_run_ok [OF requested.hyps(1)]] requested.hyps(2,3,6)]] requested.IH])
next
  case (ended L J e x out3 e')
  note ok = conjunct1 [OF engine_chain_run_ok [OF ended.hyps(1)]]
  show ?case
  proof (cases out3)
    case (Inl err)
    show ?thesis by (rule finish_request_Inl [OF ok ended.hyps(3) [unfolded Inl]])
        (use ended.IH in \<open>auto simp: fingerprints_ok_def split: if_splits\<close>)
  next
    case (Inr b)
    then show ?thesis using finish_fingerprints [OF ok] ended by blast
  qed
next
  case (aborted L J e sid out e')
  then show ?case
    using abort_request_ok [OF conjunct1 [OF engine_chain_run_ok [OF aborted.hyps(1)]], of M K sid] fewer_fingerprints
    by auto
next
  case (discarded L J e c sid out2 e')
  then show ?case
    using discard_chain_ok(2) [OF conjunct1 [OF engine_chain_run_ok]] fewer_fingerprints by blast
next
  case (dropped L J e c out e')
  then show ?case
    using invalidate_ok [OF conjunct1 [OF engine_chain_run_ok [OF dropped.hyps(1)]], of K c] fewer_fingerprints
    by fastforce
next
  case (failed L J e xs)
  then show ?case
    using fail_requests_ok [OF conjunct1 [OF engine_chain_run_ok [OF failed.hyps(1)]]] fewer_fingerprints by blast
next
  case (warmed L J e)
  then show ?case by (simp add: fingerprints_ok_def reset_chains_after_warmup_def Let_def chain_reset_def)
qed (simp_all add: fingerprints_ok_def on_chain_prompt_admitted_def)

section \<open>A resumed prompt agrees with the record\<close>

lemma commit_Inr:
  assumes "commit_request H C K x q p recreated e = (Inr a, e')"
  shows "admitted_chain_id a = plan_chain_id p" "admitted_reused a = plan_reused_tokens p"
  using assms by (auto simp: commit_request_def Let_def bindE_eq_Inr)

lemma planned_check:
  assumes "planned H C K c sid ts g p e"
  shows "plan_chain_id p = c"
    "check_resume H c sid (Tokens ts) (chain_fingerprint C) (chain_cache e)
       = (Inr (plan_status p, plan_reused_tokens p), chain_cache e)"
proof -
  obtain req rowd resv resr where pa: "plan_admission H c sid (Tokens ts) (chain_fingerprint C) req rowd resv resr
      (chain_cache e) = (Inr p, chain_cache e)" by (rule coordinator_plan_obtain [OF assms])
  show "plan_chain_id p = c"
    "check_resume H c sid (Tokens ts) (chain_fingerprint C) (chain_cache e)
       = (Inr (plan_status p, plan_reused_tokens p), chain_cache e)"
    by (rule plan_admission_Inr [OF pa], assumption)+
qed

lemma next_turn_prefix:
  assumes e: "engine_chains_ok L J e"
    and r: "dict_get (records (chain_cache e)) c = Some r" "turn_recorded H r"
    and c: "requested_chain chain_arg = c" "c \<noteq> []"
    and run: "admit_chain_request H C K x sid nid ts sp chain_arg False e = (Inr a, e')"
    and inj: "\<And>a b. pack_token_ids (take (nat (processed_token_count r)) ts) = Inr a
      \<Longrightarrow> pack_token_ids (take (nat (processed_token_count r)) (map uint (history_tokens r))) = Inr b
      \<Longrightarrow> H a = H b \<Longrightarrow> a = b"
  shows "admitted_chain_id a = nid
    \<or> admitted_chain_id a = c \<and> admitted_reused a = processed_token_count r
      \<and> take (nat (processed_token_count r)) ts
          = take (nat (processed_token_count r)) (map uint (history_tokens r))"
proof -
  have ex: "existing_chain c (chain_cache e) = Inr (Some r)"
    using r(1) c(2) by (simp add: existing_chain_def chain_lookup_def)
  have pr: "request_prompt c False (Some r) ts = Inr ts" by (simp add: request_prompt_def)
  obtain y e1 where y: "plan_request H C K c nid (Some r) False (rec_seq_id r) ts (max_tokens sp) e = (y, e1)"
    by fastforce
  obtain p recreated where z: "y = Inr (p, recreated)"
    and com: "commit_request H C K x (make_seq (rec_seq_id r) ts sp) p recreated e1 = (Inr a, e')"
    using run ex pr c y by (cases y) (auto simp: admit_run split: if_splits)
  note A = commit_Inr [OF com]
  have P: "planned H C K (if recreated then nid else c) (rec_seq_id r) ts (max_tokens sp) p e1"
    "if recreated then dict_get (records (chain_cache e1)) c = None else e1 = e"
    using plan_request_ok [OF e y] r(1) z by auto
  note K = planned_check [OF P(1)]
  show ?thesis
  proof (cases recreated)
    case True
    then show ?thesis using A(1) K(1) by simp
  next
    case False
    then have ee: "e1 = e" using P(2) by simp
    have k: "check_resume H c (rec_seq_id r) (Tokens ts) (chain_fingerprint C) (chain_cache e)
        = (Inr (plan_status p, plan_reused_tokens p), chain_cache e)" using K(2) False ee by simp
    have n: "plan_reused_tokens p = processed_token_count r" using check_resume_Inr(3) [OF k r(1)] by simp
    have "take (nat (plan_reused_tokens p)) ts = take (nat (plan_reused_tokens p)) (map uint (history_tokens r))"
      by (rule resume_prefix(3) [OF k r inj]) (simp_all add: n)
    then show ?thesis using A K(1) False n by simp
  qed
qed

section \<open>Requests after a turn\<close>

text \<open>What a later request gets that names the chain \<open>c\<close>, whose finished turn left the record \<open>r\<close>.\<close>

definition later_requests ::
    "(bytes \<Rightarrow> bytes) \<Rightarrow> chain_config \<Rightarrow> 'm chain_memory \<Rightarrow> string \<Rightarrow> chain_record \<Rightarrow> 'm chain_engine \<Rightarrow> bool" where
  "later_requests H C K c r f \<longleftrightarrow>
     (\<forall>z sid nid us sp out f'. requested_chain (Some c) = c \<and> c \<noteq> [] \<and> us \<noteq> []
         \<and> z \<notin> snd ` set (active_chain_sequences f)
         \<and> admit_chain_request H C K z sid nid us sp (Some c) True f = (out, f') \<longrightarrow>
         (dict_get (records (chain_cache f)) c = None \<longrightarrow> isl out \<and> f' = f)
       \<and> (dict_get (records (chain_cache f)) c = Some r \<longrightarrow>
           (if chain_max_model_len C < int (length (map uint (history_tokens r)) + length us) + max_tokens sp
            then out = Inl (Raised (ValueError ''Prompt length + max_tokens exceeds max_model_len: '')) \<and> f' = f
            else out = Inl (ChainCapacity c) \<and> f' = f
              \<or> (\<exists>a. out = Inr a \<and> admitted_chain_id a = c \<and> admitted_seq_id a = rec_seq_id r
                   \<and> admitted_reused a = processed_token_count r
                   \<and> admitted_prompt a = map uint (history_tokens r) @ us))))
   \<and> (\<forall>z sid nid ts sp a f'. requested_chain (Some c) = c \<and> c \<noteq> []
         \<and> dict_get (records (chain_cache f)) c = Some r
         \<and> (\<forall>u v. H u = H v \<longrightarrow> pack_token_ids (take (nat (processed_token_count r)) ts) = Inr u \<longrightarrow>
              pack_token_ids (take (nat (processed_token_count r)) (map uint (history_tokens r))) = Inr v \<longrightarrow> u = v)
         \<and> admit_chain_request H C K z sid nid ts sp (Some c) False f = (Inr a, f') \<longrightarrow>
         admitted_chain_id a = nid
         \<or> admitted_chain_id a = c \<and> admitted_reused a = processed_token_count r
           \<and> take (nat (processed_token_count r)) ts
               = take (nat (processed_token_count r)) (map uint (history_tokens r)))"

lemma turn_later_requests:
  assumes ok: "engine_chains_ok L J f" and fp: "fingerprints_ok C f"
    and t: "turn_recorded H r" and idle: "rec_state r = IDLE"
  shows "later_requests H C K c r f"
  unfolding later_requests_def
proof (intro conjI allI impI; (elim conjE)?)
  fix z sid nid us sp out f'
  assume a: "requested_chain (Some c) = c" "c \<noteq> []" "admit_chain_request H C K z sid nid us sp (Some c) True f = (out, f')"
    "dict_get (records (chain_cache f)) c = None"
  obtain err where "admit_chain_request H C K z sid nid us sp (Some c) True f = (Inl err, f)"
    using next_turn_gone [OF a(4,1,2)] by blast
  then show "isl out" "f' = f" using a(3) by simp_all
next
  fix z sid nid us sp out f'
  assume a: "requested_chain (Some c) = c" "c \<noteq> []" "us \<noteq> []" "z \<notin> snd ` set (active_chain_sequences f)"
    "admit_chain_request H C K z sid nid us sp (Some c) True f = (out, f')"
    and r: "dict_get (records (chain_cache f)) c = Some r"
  have pr: "request_prompt c True (Some r) us = Inr (map uint (history_tokens r) @ us)"
    using a(3) by (simp add: request_prompt_def)
  have fr: "rec_fingerprint r = chain_fingerprint C" using fp r by (auto simp: fingerprints_ok_def)
  show "if chain_max_model_len C < int (length (map uint (history_tokens r)) + length us) + max_tokens sp
      then out = Inl (Raised (ValueError ''Prompt length + max_tokens exceeds max_model_len: '')) \<and> f' = f
      else out = Inl (ChainCapacity c) \<and> f' = f
        \<or> (\<exists>a. out = Inr a \<and> admitted_chain_id a = c \<and> admitted_seq_id a = rec_seq_id r
             \<and> admitted_reused a = processed_token_count r
             \<and> admitted_prompt a = map uint (history_tokens r) @ us)"
    using next_turn_long [OF r a(1,2) pr, of C sp H K z sid nid] next_turn [OF ok a(4) r idle fr t a(1,2) pr a(3) _ a(5)] a(5) by simp
next
  fix z sid nid ts sp a f'
  assume a: "requested_chain (Some c) = c" "c \<noteq> []" "dict_get (records (chain_cache f)) c = Some r"
    "\<forall>u v. H u = H v \<longrightarrow> pack_token_ids (take (nat (processed_token_count r)) ts) = Inr u \<longrightarrow>
       pack_token_ids (take (nat (processed_token_count r)) (map uint (history_tokens r))) = Inr v \<longrightarrow> u = v"
    "admit_chain_request H C K z sid nid ts sp (Some c) False f = (Inr a, f')"
  show "admitted_chain_id a = nid
      \<or> admitted_chain_id a = c \<and> admitted_reused a = processed_token_count r
        \<and> take (nat (processed_token_count r)) ts
            = take (nat (processed_token_count r)) (map uint (history_tokens r))"
    using next_turn_prefix [OF ok a(3) t a(1,2,5)] a(4) by blast
qed

end
