(* ===== verification/Chain_Examples.thy ===== *)
theory Chain_Examples
  imports Examples Chain_Turns
begin

text \<open>
  Concrete chains: a digest that pads its input to 32 bytes, an index after two finished turns,
  and an engine that admits a request, ends it and is asked to append to it.
\<close>

definition ex_hash :: "bytes \<Rightarrow> bytes" where
  "ex_hash b = take 32 (b @ replicate 32 0)"

definition ex_chain0 :: chain_index where
  "ex_chain0 = \<lparr>max_tombstones = 4, max_token_history_tokens = Some 100, token_history_tokens = 0,
     records = [], seq_id_to_chain_id = [], tombstones = [], chain_clock = 0,
     chain_counts = zero_chain_stats\<rparr>"

text \<open>A whole turn: plan, apply, finish with two tokens of which one is processed.\<close>

definition ex_turn :: "string \<Rightarrow> int \<Rightarrow> chain_index \<Rightarrow> chain_index" where
  "ex_turn c sid s =
     (case plan_admission ex_hash c sid (Tokens [5, 6]) [7] [] 0 [2] 1 s of
        (Inl e, t) \<Rightarrow> t
      | (Inr p, t) \<Rightarrow> snd (chain_finish ex_hash c [5, 6] 1 [2] 1 (snd (apply_admission p [7] t))))"

definition ex_chains :: chain_index where
  "ex_chains = ex_turn ''b'' 2 (ex_turn ''a'' 1 ex_chain0)"

lemma ex_chain0_made: "make_chain_index 4 (Some 100) = Inr ex_chain0"
  by (simp add: make_chain_index_def ex_chain0_def)

lemma ex_turn_run: "chain_run ex_hash s \<Longrightarrow> chain_run ex_hash (ex_turn c sid s)"
proof -
  assume s: "chain_run ex_hash s"
  obtain out t where p: "plan_admission ex_hash c sid (Tokens [5, 6]) [7] [] 0 [2] 1 s = (out, t)" by fastforce
  show ?thesis
  proof (cases out)
    case (Inl e)
    then show ?thesis using chain_run.refused [OF s] p by (simp add: ex_turn_def)
  next
    case (Inr q)
    obtain x u where a: "apply_admission q [7] t = (x, u)" by fastforce
    have "chain_run ex_hash u" using chain_run.admitted [OF s _ a] p Inr by simp
    moreover obtain y v where "chain_finish ex_hash c [5, 6] 1 [2] 1 u = (y, v)" by fastforce
    ultimately show ?thesis using chain_run.finished p Inr a by (simp add: ex_turn_def)
  qed
qed

lemma ex_chains_run: "chain_run ex_hash ex_chains"
  unfolding ex_chains_def by (intro ex_turn_run chain_run.made [OF ex_chain0_made])

lemma ex_chains_records:
  "map (\<lambda>p. (fst p, rec_seq_id (snd p), rec_state (snd p), physical_slots_by_layer (snd p),
       resident_rows (snd p))) (records ex_chains) = [(''a'', 1, IDLE, [2], 1), (''b'', 2, IDLE, [2], 1)]"
  by code_simp

lemma ex_chains_plan:
  "(case plan_admission ex_hash ''c'' 3 (Tokens [5]) [7] [3] 1 [] 0 ex_chains of
      (Inl e, t) \<Rightarrow> None | (Inr p, t) \<Rightarrow> Some (victim_chain_ids p)) = Some [''a'', ''b'']"
  by code_simp

lemma ex_chains_payload: "\<forall>r\<in>set (idle_candidates ex_chains c). payload_ok r"
proof -
  have "\<forall>r\<in>set (map snd (records ex_chains)). payload_ok r"
    unfolding payload_ok_def by code_simp
  then show ?thesis by (auto simp: idle_candidates_def)
qed

section \<open>An engine\<close>

definition ex_cache :: "base_memory chain_memory" where
  "ex_cache = \<lparr>hooks_of = (\<lambda>m. \<lparr>chain_capacity_deficits = None, chain_has_residency = None,
     chain_physical_residency = None\<rparr>), free_seq = (\<lambda>sid m. m), on_chain_turn_finished = (\<lambda>sid n m. m)\<rparr>"

definition ex_chain_config :: chain_config where
  "ex_chain_config = \<lparr>chain_max_model_len = 16, chain_sparse_method = ''snapkv'', chain_fingerprint = [7]\<rparr>"

definition ex_engine0 :: "base_memory chain_engine" where
  "ex_engine0 = start_chain_engine ex_chain0 (make_scheduler ex_memory (\<lambda>_. ex_request))"

definition ex_admit where
  "ex_admit = admit_chain_request ex_hash ex_chain_config ex_cache 0 5 ''n'' [5, 6] ex_params None False ex_engine0"

lemma ex_engine0_run: "engine_chain_run ex_hash ex_chain_config ex_cache base_oracle {} {} ex_engine0"
  unfolding ex_engine0_def
  by (rule engine_chain_run.started [OF ex_chain0_made]) (simp add: held_def make_scheduler_def)

lemma ex_admitted:
  "ex_admit = (Inr \<lparr>admitted_seq_id = 5, admitted_chain_id = ''n'', admitted_status = ''created'',
     admitted_reused = 0, admitted_prefilled = 2, admitted_prompt = [5, 6]\<rparr>, snd ex_admit)"
  by (rule pair_split) code_simp

lemma ex_admit_run: "engine_chain_run ex_hash ex_chain_config ex_cache base_oracle {} {} (snd ex_admit)"
proof (rule engine_chain_run.requested [OF ex_engine0_run])
  show "admit_chain_request ex_hash ex_chain_config ex_cache 0 5 ''n'' [5, 6] ex_params None False ex_engine0
      = (fst ex_admit, snd ex_admit)" by (simp add: ex_admit_def)
qed (simp_all add: ex_engine0_def start_chain_engine_def ex_chain0_def held_def make_scheduler_def)

text \<open>The last sample finishes the sequence, which leaves the queue; then its end is handled.\<close>

definition ex_sampled :: "base_memory chain_engine" where
  "ex_sampled = (snd ex_admit)\<lparr>sch := (sch (snd ex_admit))\<lparr>waiting := []\<rparr>\<rparr>"

lemma ex_sampled_run: "engine_chain_run ex_hash ex_chain_config ex_cache base_oracle {} {} ex_sampled"
proof -
  have d: "decoding (sch (snd ex_admit)) = []" by code_simp
  show ?thesis unfolding ex_sampled_def
    by (rule engine_chain_run.worked [OF ex_admit_run]) (simp_all add: d held_def)
qed

definition ex_finish where
  "ex_finish = finish_request ex_hash ex_cache 0 ex_sampled"

lemma ex_finished: "ex_finish = (Inr True, snd ex_finish)"
  by (rule pair_split) code_simp

lemma ex_finish_run: "engine_chain_run ex_hash ex_chain_config ex_cache base_oracle {} {} (snd ex_finish)"
proof -
  have h: "held (sch ex_sampled) = {}"
  proof -
    have "waiting (sch ex_sampled) = []" "decoding (sch ex_sampled) = []" by code_simp+
    then show ?thesis by (simp add: held_def)
  qed
  have "finish_request ex_hash ex_cache 0 ex_sampled = (Inr True, snd ex_finish)"
    using ex_finished by (simp add: ex_finish_def)
  from engine_chain_run.ended [OF ex_sampled_run _ this] h show ?thesis by simp
qed

text \<open>
  The chain of a waiting request is invalidated, the scheduler keeps the request, and its prompt is
  admitted: the engine holds a row that belongs to no chain.
\<close>

definition ex_invalidated :: "base_memory chain_engine" where
  "ex_invalidated = snd (engine_invalidate_chain ex_cache ''n'' (snd ex_admit))"

definition ex_orphan :: "base_memory chain_engine" where
  "ex_orphan = on_chain_prompt_admitted (seq_id (sq (sch ex_invalidated) 0)) 1 ex_invalidated"

lemma ex_orphan_run: "engine_chain_run ex_hash ex_chain_config ex_cache base_oracle {5} {} ex_orphan"
proof -
  have l: "lost_by ''n'' (snd ex_admit) = {5}"
  proof -
    have "map_option (\<lambda>r. (rec_seq_id r, rec_state r)) (dict_get (records (chain_cache (snd ex_admit))) ''n'')
        = Some (5, ACTIVE)" by code_simp
    then show ?thesis by (auto simp: lost_by_def)
  qed
  have "engine_chain_run ex_hash ex_chain_config ex_cache base_oracle {5} {} ex_invalidated"
    using engine_chain_run.dropped [OF ex_admit_run, of "''n''" "fst (engine_invalidate_chain ex_cache ''n'' (snd ex_admit))"
        ex_invalidated] by (simp add: ex_invalidated_def l)
  moreover have "0 \<in> held (sch ex_invalidated)"
  proof -
    have "waiting (sch ex_invalidated) = [0]" by code_simp
    then show ?thesis by (simp add: held_def)
  qed
  ultimately show ?thesis unfolding ex_orphan_def by (rule engine_chain_run.prompt_admitted)
qed

lemma invalidated_chain_leaves_row:
  "\<exists>L J. engine_chain_run ex_hash ex_chain_config ex_cache base_oracle L J ex_orphan
     \<and> resident_seq_ids ex_orphan = [5] \<and> records (chain_cache ex_orphan) = []
     \<and> waiting (sch ex_orphan) = [0]"
proof -
  have "resident_seq_ids ex_orphan = [5]" "records (chain_cache ex_orphan) = []" "waiting (sch ex_orphan) = [0]"
    by code_simp+
  then show ?thesis using ex_orphan_run by blast
qed

end
