(* ===== verification/Standard_Examples.thy ===== *)
theory Standard_Examples
  imports Standard_Runs Chain_Examples
begin

text \<open>
  A manager of eight slots and two rows with blocks of two tokens: a prompt of three tokens is
  prefilled and committed, a decode step completes its second block, a second sequence attaches
  the cached prefix, and the first one ends.
\<close>

declare path_up.simps [code]

definition ex_digest :: "bytes \<Rightarrow> bytes" where
  "ex_digest b = [sum_list b, of_nat (length b)]"

definition ex_std0 :: std_cache where
  "ex_std0 = (case make_std_cache 8 2 6 16 4 [1] (Some 4) '''' True 2 ex_heap of
     Inr m \<Rightarrow> m | Inl e \<Rightarrow> undefined)"

definition ex_seq_a :: seq where
  "ex_seq_a = (make_seq 5 [1, 2, 3] ex_params)\<lparr>current_chunk_size := Some 3\<rparr>"

definition ex_seq_a' :: seq where
  "ex_seq_a' = ex_seq_a\<lparr>last_token := Some 4\<rparr>"

definition ex_seq_b :: seq where
  "ex_seq_b = (make_seq 6 [1, 2, 9] ex_params)\<lparr>current_chunk_size := Some 1, num_prefilled_tokens := 2,
     prefix_cache_hit_len := 2, prefix_cache_hit_block_count := 1,
     prefix_cache_hit_last_block_id := Some [4, 18]\<rparr>"

definition ex_promise :: "int \<Rightarrow> promise" where
  "ex_promise sid = \<lparr>hit_of = (if sid = 6 then 2 else 0), recorded = True\<rparr>"

definition ex_std1 :: std_cache where
  "ex_std1 = snd (prepare_prefill ex_digest [ex_seq_a] ex_std0)"

definition ex_std2 :: std_cache where
  "ex_std2 = snd (on_forward_end [ex_seq_a] ex_std1)"

definition ex_std3 :: std_cache where
  "ex_std3 = snd (prepare_decode ex_digest [ex_seq_a'] ex_std2)"

definition ex_std4 :: std_cache where
  "ex_std4 = snd (on_forward_end [ex_seq_a'] ex_std3)"

definition ex_std5 :: std_cache where
  "ex_std5 = snd (prepare_prefill ex_digest [ex_seq_b] ex_std4)"

definition ex_input :: "int list \<Rightarrow> int list \<Rightarrow> int list \<Rightarrow> int list \<Rightarrow> int list \<Rightarrow> nat list \<Rightarrow> step_input" where
  "ex_input ids ps cu slots lens rows =
     \<lparr>in_input_ids = ids, in_positions = ps, in_cu_seqlens = cu, in_slot_mapping = slots,
      in_context_lens = lens, in_req_indices = rows\<rparr>"

lemma ex_std0_made: "make_std_cache 8 2 6 16 4 [1] (Some 4) '''' True 2 ex_heap = Inr ex_std0"
  by (simp add: ex_std0_def make_std_cache_def make_index_def)

lemma ex_std1_run: "prepare_prefill ex_digest [ex_seq_a] ex_std0
    = (Inr (ex_input [1, 2, 3] [0, 1, 2] [0, 3] [5, 6, 7] [3] [0]), ex_std1)"
  unfolding ex_std1_def by (rule pair_split) code_simp

lemma ex_std2_run: "on_forward_end [ex_seq_a] ex_std1 = (Inr (), ex_std2)"
  unfolding ex_std2_def by (rule pair_split) code_simp

lemma ex_std3_run: "prepare_decode ex_digest [ex_seq_a'] ex_std2
    = (Inr (ex_input [4] [2] [] [4] [4] [0]), ex_std3)"
  unfolding ex_std3_def by (rule pair_split) code_simp

lemma ex_std4_run: "on_forward_end [ex_seq_a'] ex_std3 = (Inr (), ex_std4)"
  unfolding ex_std4_def by (rule pair_split) code_simp

lemma ex_std5_run: "prepare_prefill ex_digest [ex_seq_b] ex_std4
    = (Inr (ex_input [9] [2] [0, 1] [3] [3] [1]), ex_std5)"
  unfolding ex_std5_def by (rule pair_split) code_simp

lemma ex_std_lens: "max_model_len ex_std0 = 6" "seq_len ex_std0 5 = 0"
  "max_model_len ex_std2 = 6" "seq_len ex_std2 5 = 3" "max_model_len ex_std4 = 6" "seq_len ex_std4 6 = 0"
  by code_simp+

lemma ex_promise_kept: "keeps_promise ex_promise ex_std0 ex_seq_a" "keeps_promise ex_promise ex_std2 ex_seq_a'"
  "keeps_promise ex_promise ex_std4 ex_seq_b"
  unfolding keeps_promise_def by code_simp+

lemma ex_std_run0: "std_run ex_digest ex_promise ex_std0"
  by (rule std_run.start [OF ex_std0_made]) simp_all

lemma ex_std_run1: "std_run ex_digest ex_promise ex_std1"
  by (rule std_run.prefill [OF ex_std_run0 _ _ ex_std1_run])
    (simp_all add: ex_promise_kept chunk_fits_def ex_std_lens, simp_all add: ex_seq_a_def make_seq_def ex_std_lens)

lemma ex_std_run2: "std_run ex_digest ex_promise ex_std2"
  by (rule std_run.forward_end [OF ex_std_run1 _ ex_std2_run]) (simp add: ex_promise_def ex_seq_a_def make_seq_def)

lemma ex_std_run3: "std_run ex_digest ex_promise ex_std3"
  by (rule std_run.decode [OF ex_std_run2 _ _ ex_std3_run])
    (simp_all add: ex_promise_kept, simp_all add: ex_seq_a'_def ex_seq_a_def make_seq_def ex_std_lens)

lemma ex_std_run4: "std_run ex_digest ex_promise ex_std4"
  by (rule std_run.forward_end [OF ex_std_run3 _ ex_std4_run])
    (simp add: ex_promise_def ex_seq_a'_def ex_seq_a_def make_seq_def)

lemma ex_std_run5: "std_run ex_digest ex_promise ex_std5"
  by (rule std_run.prefill [OF ex_std_run4 _ _ ex_std5_run])
    (simp_all add: ex_promise_kept chunk_fits_def, simp_all add: ex_seq_b_def make_seq_def ex_std_lens)

text \<open>After the attach, both sequences hold block 0 with the slots 5 and 6.\<close>

lemma ex_std5_state:
  "num_free ex_std5 = 3" "owner ex_std5 5 = Some 0" "owner ex_std5 6 = Some 1"
  "row_len ex_std5 0 = 4" "row_len ex_std5 1 = 3" "cells ex_std5 0 0 4 = [5, 6, 7, 4]"
  "cells ex_std5 1 0 3 = [5, 6, 3]" "held_blocks ex_std5 5 = [0, 1]" "held_blocks ex_std5 6 = [0]"
  "get_block (the (prefix_cache ex_std5)) [4, 18] = Some 0" "seq_id_to_row ex_std5 = [(5, 0), (6, 1)]"
  "free_rows ex_std5 = []" "max_model_len ex_std5 = 6" "prefix_cache ex_std5 \<noteq> None"
  by code_simp+

lemma ex_std2_state:
  "num_free ex_std2 = 5" "owner ex_std2 5 = Some 0" "seq_id_to_row ex_std2 = [(5, 0)]" "free_rows ex_std2 = [1]"
  by code_simp+

lemma ex_std3_state:
  "caching ex_std3" "map pb_block_id (pending_of ex_std3 5) = [[31, 20]]"
  "caching ex_std4" "dict_get (seq_id_to_prefix_blocks ex_std4) 6 = None"
  "fst (attach_prefix_cache_if_needed ex_seq_b ex_std4) = Inr ()"
  "concat (map (block_slots ex_std4) (chain_of ex_std4 ex_seq_b)) = [5, 6]"
  by code_simp+

end
