(* ===== verification/Spec2Isabelle.thy ===== *)
theory Spec2Isabelle
  imports Standard_Examples
begin

text \<open>
  Sparse-vLLM serves language models with a compressed key-value cache. This library models the
  logic of its engine that runs on the host: what is decided, in which order, and in which state it
  leaves the queues, the sequences and the prefix cache. Paths below are relative to
  \<open>src/src/sparsevllm/\<close>.

  The program's parts and the theories that model them:

  \<^item> \<open>engine/sequence.py\<close> (\<open>Sequence\<close>): a request with its tokens, its prefill progress, its
    recompute replay, the token tensors of its penalties, and its serialisation to the workers.
    \<open>sampling_params.py\<close> (\<open>Sampling\<close>): its parameters, and the stop tokens in force.
  \<^item> \<open>engine/scheduler.py\<close> (\<open>Scheduler\<close>, \<open>Scheduler_Step\<close>): the waiting and decoding queues; one
    call of \<open>schedule\<close> picks a prefill batch, or a decode batch, or preempts a request;
    \<open>postprocess\<close> writes the samples back. Sequences are objects shared by the queues and the
    caller, so they live in a store (\<open>sq\<close>) and the queues hold references.
  \<^item> \<open>engine/runtime_state.py\<close>, \<open>engine/cache_manager/base.py\<close> (\<open>Memory_Oracle\<close>): the protocol by
    which the scheduler asks the cache manager what fits, as a record of functions, and the
    default implementation.
  \<^item> \<open>engine/llm_engine.py\<close> (\<open>Engine_Step\<close>): \<open>LLMEngine.step\<close>, which schedules, releases the
    preempted, runs the workers (a parameter), publishes the tokens and collects what is finished.
  \<^item> \<open>engine/prefix_cache.py\<close>: the AVL tree of block ids published to the router
    (\<open>Routing_Membership\<close>); the compressed radix tree of blocks, with its node objects in an
    explicit store (\<open>Radix_Tree\<close>); block ids and routing snapshots (\<open>Prefix_Ids\<close>, the hash is the
    parameter \<open>H\<close>); the index with reference counts, residency and transfers (\<open>Prefix_Index\<close>);
    eviction, demotion, deletion and priorities (\<open>Prefix_Eviction\<close>).
  \<^item> \<open>engine/chain_cache.py\<close>: the index of chains, the caches that stay resident between the turns
    of a conversation (\<open>Chain_Cache\<close>), and its coordinator, which asks the cache manager for
    capacity (\<open>Chain_Coordinator\<close>). \<open>Chain_Engine\<close>: the chain half of \<open>engine/runtime_state.py\<close> and
    the chain mode of \<open>engine/llm_engine.py\<close>, from the admission of a request to the end of its turn,
    abort or discard, over the scheduler's state and the index.
  \<^item> \<open>engine/cache_manager/standard.py\<close> and \<open>prefix_cache_mixin.py\<close>: the cache manager of dense
    attention with its prefix blocks. \<open>Slot_Ranges\<close>: slices of tensors and the merging and
    complementing of cached ranges; \<open>Standard_Cache\<close>: state, payloads, the stack of free slots, rows,
    allocation and eviction; \<open>Standard_Prefix\<close>: materialization and commit of blocks, attaching a
    chain, \<open>free_seq\<close> (\<open>standard_free_seq\<close> here), reset, and the preparation of prefill and decode steps.
    Prefix offload is off, so the branches on its controller are not there; \<open>caching\<close> of
    \<open>make_std_cache\<close> stands for the configured switch on a model without linear attention layers.
  \<^item> \<open>engine/prefix_prune.py\<close>, \<open>engine/prefill.py\<close> (\<open>Prefix_Prune\<close>), \<open>method_registry.py\<close>
    (\<open>Method_Registry\<close>), \<open>distributed/topology.py\<close> and \<open>sharding.py\<close> (\<open>Topology\<close>).

  \<open>Prelude\<close> has the errors, the state-and-error effects, dictionaries, insertion-ordered sets and
  lists of chunks that all of them share. A Python raise is the left side of a sum (\<open>res\<close>), and an
  operation that raises keeps the state of that moment. Python integers are \<open>int\<close>, the bytes that
  are hashed are \<open>8 word\<close> lists, a dictionary is a list of pairs in insertion order.

  What the groups of lemmas show:

  \<^item> \<open>Radix_Invariant\<close>, \<open>Radix_Operations\<close>, \<open>Radix_Queries\<close>: the radix tree implements a forest,
    seen as the map from a block to its parent; \<open>Block_Forest\<close> states that contract as a locale,
    with the lemmas its clients use, and interprets it on the radix tree. The routing membership
    meets the contract of a finite set (locale \<open>id_set\<close> in \<open>Routing_Membership\<close>).
  \<^item> \<open>Prefix_Invariant\<close>, \<open>Prefix_Eviction_Correct\<close>, \<open>Prefix_System\<close>: the index invariant, kept by every
    public operation, hence in every reachable state; the order and the amount of eviction.
  \<^item> \<open>Scheduler_Queues\<close>, \<open>Scheduler_Decode\<close>, \<open>Scheduler_Correct\<close>, \<open>Scheduler_Batches\<close>: what one
    scheduling step does to the queues and the limits each batch keeps; \<open>mem_path\<close> are the memories a step's
    own calls lead to, \<open>answers_key\<close> says which mode and key the oracle answers in one of them.
  \<^item> \<open>Scheduler_Invariant\<close>, \<open>Engine_Correct\<close>, \<open>Engine_Reach\<close>: the invariant of queued, running and
    decoding sequences, its preservation by a step of the engine under the contract of the memory
    oracle (locale \<open>oracle_laws\<close>, interpreted on the default implementation), and the runs of the
    engine with the log of what they publish.
  \<^item> \<open>Chain_Invariant\<close>, \<open>Chain_Runs\<close>: the invariant of the chain index in every reachable state, the
    choice of victims, what applying a plan changes. \<open>Chain_Engine_Correct\<close>, \<open>Chain_Engine_Runs\<close>,
    \<open>Chain_Turns\<close>: active chains, active sequences, queues and resident rows correspond in every run of the
    engine, but for the identities of chains invalidated while ACTIVE (\<open>L\<close>, whose sequences the scheduler
    keeps) and of ends that raised (\<open>J\<close>); and what a later request of a chain gets after a finished turn.
  \<^item> \<open>Slot_Pool\<close>: the free stack as a bag of slots (locale \<open>slot_pool\<close>). \<open>Standard_Invariant\<close>: the
    invariant of the manager, with the slots as a multiset that the free stack, the rows and the prefix
    blocks share out. \<open>Standard_Evict\<close>, \<open>Standard_Allocate\<close>, \<open>Standard_Batch\<close>, \<open>Standard_Record\<close>,
    \<open>Standard_Refs\<close>, \<open>Standard_Attach\<close>, \<open>Standard_Commit\<close>, \<open>Standard_Publish\<close>, \<open>Standard_Forward_End\<close>,
    \<open>Standard_Step\<close>: each operation keeps it, on its error paths too where the run goes on.
    \<open>Standard_Runs\<close>: the runs of a manager and what holds in every reachable state.
  \<^item> \<open>Examples\<close>, \<open>Chain_Examples\<close>, \<open>Standard_Examples\<close>: concrete values for the instances of the properties below.

  Loops: the eviction and demotion loops are total functions (the block dictionary, the device
  blocks or the heap shrink); the radix tree's walks and the worklists are partial functions whose
  \<open>None\<close> is divergence, and the lemmas show that lookups and paths return on well-formed trees.
  The scheduler's scans are bounded by the length of the queue at their start, as in the code.

  Not modelled: GPU kernels, tensors and CUDA streams, the model runner, HTTP serving, logging and
  profiling, the cache managers of the sparse methods, the pruning commit, statistics and graph
  buffers of the Standard manager, the prefix cache coordinators with their device-to-host copies. Of the chain cache, the random chain ids are
  arguments, the text of the fingerprint and of error messages is left out, and multimodal requests,
  which have no chains, are too.
  Floats are rationals with infinities and NaN (\<open>Sampling\<close>) or rationals (scores of a prune).
\<close>

section \<open>The engine and its scheduler\<close>

text \<open>C1. In every run of the engine - requests arrive and are aborted, memory changes, steps succeed -
the queues stay well formed: no request is queued twice, every waiting request is a fresh prompt or a
replay that still needs prefill, every decoding one has accepted tokens but fewer than its limit; and the
completion of every request is exactly the concatenation of what has been published under its id.\<close>
theorem run_invariant:
  assumes "oracle_laws M" "runner_ok R" "engine_trace M C R s lg"
  shows "distinct (waiting s @ decoding s) \<and> inj_on (\<lambda>x. seq_id (sq s x)) (held s)
    \<and> (\<forall>x\<in>set (waiting s). queued_ok (sq s x)) \<and> (\<forall>x\<in>set (decoding s). decoding_ok (sq s x))
    \<and> (\<forall>x\<in>held s. completion_token_ids (sq s x) = published (seq_id (sq s x)) lg)"
proof -
  have "trace_ok s lg" using oracle_laws.trace_invariant [OF assms(1,3,2)] .
  then show ?thesis using sched_ok_distinct [of s] sched_ok_ids [of s]
    unfolding trace_ok_def sched_ok_def queues_ok_def by blast
qed

lemma run_invariant_witness:
  "completion_token_ids (sq (ex_step ex_start) 0) = published 5 [(5, [7])]
     \<and> decoding_ok (sq (ex_step ex_start) 0) \<and> decoding (ex_step ex_start) = [0]"
proof -
  have d: "decoding (ex_step ex_start) = [0]" "seq_id (sq (ex_step ex_start) 0) = 5" by code_simp+
  then show ?thesis
    using run_invariant [OF base_oracle_laws ex_runner_ok ex_trace1] by (simp add: held_def)
qed

text \<open>C2. When a request leaves the queues in a step of a run, the step returns it as finished with
exactly the tokens published under its id over the whole run; that answer is not empty, is no longer than
the request's token limit, and its last token is one that stops the request (a stop token, or the limit).\<close>
theorem finished_answer:
  assumes "oracle_laws M" "runner_ok R" "engine_trace M C R s lg"
    and "engine_step M C R s = (Inr (outs, fin), t)" "x \<in> held s" "x \<notin> held t"
  defines "answer \<equiv> published (seq_id (sq s x)) (lg @ outs)"
  shows "(seq_id (sq s x), answer) \<in> set fin \<and> answer \<noteq> []
    \<and> int (length answer) \<le> max_tokens (sampling (sq t x)) \<and> stops C (last answer) (sq t x)"
  unfolding answer_def using oracle_laws.trace_finished [OF assms(1,3,2,4-6)] by blast

lemma finished_answer_witness:
  "(5, [7, 7]) \<in> set [(5::int, [7, 7::int])]
     \<and> stops ex_config 7 (sq (ex_step (ex_step ex_start)) 0)"
proof -
  have h: "0 \<in> held (ex_step ex_start)" "0 \<notin> held (ex_step (ex_step ex_start))"
    "seq_id (sq (ex_step ex_start) 0) = 5" by code_simp+
  have "published 5 ([(5, [7])] @ [(5, [7])]) = [7, 7]" by code_simp
  then show ?thesis
    using finished_answer [OF base_oracle_laws ex_runner_ok ex_trace1 ex_second_step h(1,2)] h(3) by simp
qed

text \<open>C3. Scheduling loses and duplicates no request. A prefill step moves its batch out of the waiting
queue and touches nothing else; otherwise the decoding queue keeps the batch, and at most one victim moves
from decoding to waiting, is counted as a preemption, and comes with an empty batch. This is about the calls that
return: one that raises after it has popped a request leaves that request in no queue.\<close>
theorem schedule_conserves:
  assumes "schedule M C s = (Inr (batch, is_prefill, pre), t)" "distinct (waiting s)" "distinct (decoding s)"
  shows "(if is_prefill then batch \<noteq> [] \<and> pre = [] \<and> decoding t = decoding s
      \<and> mset (waiting t) + mset batch = mset (waiting s)
    else mset (waiting t) = mset (waiting s) + mset pre
      \<and> mset (decoding t) + mset pre = mset (decoding s)
      \<and> distinct batch \<and> set batch \<subseteq> set (decoding t) \<and> (pre \<noteq> [] \<longrightarrow> batch = []))
    \<and> total_preemptions t = total_preemptions s + int (length pre) \<and> length pre \<le> 1"
  using schedule_queues [OF assms] by simp

lemma schedule_conserves_witness:
  "mset (waiting (snd (schedule base_oracle ex_config ex_start))) + mset [0] = mset (waiting ex_start)"
proof -
  have "distinct (waiting ex_start)" "distinct (decoding ex_start)"
    by (simp_all add: ex_start_def add_seq_def make_scheduler_def set_seq_def)
  from schedule_conserves [OF ex_schedule this] show ?thesis by simp
qed

text \<open>C4. While some request is decoding and the configuration allows a decode batch at all, a
successful scheduling step is never idle: it returns a batch to run, or preempts a request.\<close>
theorem no_idle_while_decoding:
  assumes "schedule M C s = (Inr (batch, is_prefill, pre), t)" "distinct (waiting s)" "distinct (decoding s)"
    and "decoding s \<noteq> []" "0 < max_decoding_seqs C"
  shows "batch \<noteq> [] \<or> pre \<noteq> []"
  using schedule_queues [OF assms(1-3)] assms(4,5) by linarith

lemma no_idle_while_decoding_witness:
  "\<exists>batch isp pre t. schedule base_oracle ex_config (ex_step ex_start) = (Inr (batch, isp, pre), t)
     \<and> (batch \<noteq> [] \<or> pre \<noteq> [])"
proof -
  have d: "waiting (ex_step ex_start) = []" "decoding (ex_step ex_start) = [0]" by code_simp+
  have "distinct (waiting (ex_step ex_start))" "distinct (decoding (ex_step ex_start))"
    "decoding (ex_step ex_start) \<noteq> []" "0 < max_decoding_seqs ex_config"
    by (simp_all add: d ex_config_def)
  from no_idle_while_decoding [OF ex_schedule_decode this] ex_schedule_decode show ?thesis by blast
qed

text \<open>C5. A prefill batch keeps every limit. The whole batch has one key k: for every sequence of it the memory
answered k (the mode fst k with the compatibility key) when the scheduler asked about that sequence as it stood before its
chunk, in a memory that the step's own calls lead to. The chunks sum to at most max_num_batched_tokens tokens and the
batch has at most max_num_seqs_in_batch sequences, exactly one when the answered mode is raw offload. Every chunk is positive
and no larger than what is left: all of it when the answered mode is full, at most the chunk size otherwise, and never one
that leaves a final chunk below the minimum. A replay runs alone and before new prompts, and no replay is rebuilt
while other requests are decoding.\<close>
theorem prefill_batch_bounds:
  assumes run: "schedule M C s = (Inr (batch, True, pre), t)"
    and d: "distinct (waiting s)" "distinct (decoding s)"
  shows "\<exists>k. batch_tokens t batch \<le> max_num_batched_tokens C
    \<and> (if fst k = RAW_OFFLOAD then length batch = 1 else int (length batch) \<le> max_num_seqs_in_batch C)
    \<and> (\<forall>x\<in>set batch. \<exists>q. refreshed M (sq s x) q \<and> chunk_ok M C k (mem s) q (sq t x))
    \<and> ((\<exists>x\<in>set batch. is_replay t x) \<longrightarrow> length batch = 1)
    \<and> ((\<exists>x\<in>set (waiting t). is_replay t x) \<longrightarrow> (\<forall>x\<in>set batch. is_replay t x))
    \<and> (decoding s = [] \<or> (\<forall>x\<in>set (waiting s). \<not> is_replay s x))"
proof -
  obtain s0 k L where L: "after_refresh M s s0"
    "batch_inv M C (max 0 (decode_step_free_slots M (mem s))) k s0 L t" "batch = scheduled_seqs L"
    "batch \<noteq> []" "mem_path M (mem s) (mem s0)" "decoding s = [] \<or> (\<forall>x\<in>set (waiting s). \<not> is_replay s x)"
    by (rule schedule_prefill [OF run d])
  have "prefill_batch_ok M C k s batch t" using prefill_batch_ok_inv [OF L(1,2) _ L(5)] L(3,4) by simp
  then show ?thesis using L(6) unfolding prefill_batch_ok_def by blast
qed

lemma prefill_batch_bounds_witness:
  "batch_tokens (snd (schedule base_oracle ex_config ex_start)) [0] \<le> max_num_batched_tokens ex_config"
proof -
  have "distinct (waiting ex_start)" "distinct (decoding ex_start)"
    by (simp_all add: ex_start_def add_seq_def make_scheduler_def set_seq_def)
  from prefill_batch_bounds [OF ex_schedule this] show ?thesis by blast
qed

text \<open>C6. A decode batch keeps every limit: at most max_decoding_seqs sequences, whose reservation
costs together fit the free decode slots seen at the start of the step and one by one fit the slots the
memory grants them; and short sequences go first: a long one is only in the batch when every decoding
sequence is long.\<close>
theorem decode_batch_bounds:
  assumes run: "schedule M C s = (Inr (batch, False, []), t)"
    and d: "distinct (waiting s)" "distinct (decoding s)"
  shows "int (length batch) \<le> max 0 (max_decoding_seqs C)
    \<and> (\<Sum>x\<leftarrow>batch. decode_step_reservation_cost M (mem t) (sq t x)) \<le> max 0 (decode_step_free_slots M (mem s))
    \<and> (\<forall>x\<in>set batch. decode_step_reservation_cost M (mem t) (sq t x)
         \<le> decode_step_free_slots_for M (mem t) (sq t x))
    \<and> (\<forall>x\<in>set batch. is_long_text C (sq t x) False = Inr True \<longrightarrow>
         (\<forall>y\<in>set (decoding t). is_long_text C (sq t y) False = Inr True))"
proof -
  obtain s1 where "decode_result M C (max 0 (decode_step_free_slots M (mem s))) s1 batch t"
    using run d by (rule schedule_decode) simp_all
  from decode_result_batch_ok [OF this] show ?thesis unfolding decode_batch_ok_def .
qed

lemma decode_batch_bounds_witness:
  "int (length [0::nat]) \<le> max 0 (max_decoding_seqs ex_config)"
proof -
  note d = sched_ok_distinct [OF ex_trace1_ok]
  show ?thesis using decode_batch_bounds [OF ex_schedule_decode] d by blast
qed

text \<open>C7. Preemption loses no accepted token: the victim leaves the decoding queue for the end of the
waiting queue with its tokens unchanged, without prefix hit or prefilled tokens, and with a replay cursor at
0, so that its accepted tokens are fed again. And it cannot go on forever on the same request: other requests
stay in decode, or the victim has accepted tokens since the checkpoint of its last replay.\<close>
theorem preemption_keeps_tokens:
  assumes "oracle_laws M" "schedule M C s = (Inr (batch, is_prefill, [v]), t)" "sched_ok s"
  shows "batch = [] \<and> \<not> is_prefill \<and> v \<in> set (decoding s) \<and> v \<notin> set (decoding t)
    \<and> waiting t \<noteq> [] \<and> last (waiting t) = v
    \<and> status (sq t v) = WAITING \<and> num_prefilled_tokens (sq t v) = 0 \<and> prefix_cache_hit_len (sq t v) = 0
    \<and> seq_tokens (sq t v) = seq_tokens (sq s v) \<and> num_prompt_tokens (sq t v) = num_prompt_tokens (sq s v)
    \<and> recompute_replay_cursor (sq t v) = Some 0
    \<and> (decoding t \<noteq> [] \<or> decode_progress_checkpoint (sq s v) < num_completion_tokens (sq s v))"
  using oracle_laws.preempt_victim [OF assms] by blast

lemma preemption_keeps_tokens_witness:
  "seq_tokens (sq (snd (schedule base_oracle ex_config ex_full)) 0) = seq_tokens (sq ex_full 0)"
  using preemption_keeps_tokens [OF base_oracle_laws ex_full_schedule ex_full_ok] by blast

section \<open>The slots of the Standard cache manager\<close>

text \<open>C8. No KV slot is lost and none is handed out twice: in every state the manager reaches, the free
stack, the slots that belong to one sequence alone and the slots of the indexed prefix blocks are together
exactly the slots of the cache, each once. The states are those std_run reaches: by prepared prefill and decode steps that
return, and, whether they return or raise, by attaching a prefix, the end of a forward pass with its commits, the end
of a sequence and eviction. Deleting a subtree, the reset after warmup, the captured decode allocation and
preparations that raise are not among its steps.\<close>
theorem standard_slot_partition:
  assumes "std_run H G m"
  shows "mset (take (nat (num_free m)) (free_slots_stack m)) + (\<Sum>sid\<in>owners m. private_slots m sid)
    + (\<Sum>r\<in>indexed m. mset (block_slots m r)) = mset [0..num_kvcache_slots m - 1]"
  using std_invD(6) [OF std_run_inv [OF assms]]
  by (simp add: all_slots_def free_part_def rows_part_def blocks_part_def arange_def)

lemma standard_slot_partition_witness:
  "mset (take (nat (num_free ex_std5)) (free_slots_stack ex_std5)) + (\<Sum>sid\<in>owners ex_std5. private_slots ex_std5 sid)
    + (\<Sum>r\<in>indexed ex_std5. mset (block_slots ex_std5 r)) = mset [0..num_kvcache_slots ex_std5 - 1]"
  by (rule standard_slot_partition [OF ex_std_run5])

text \<open>C9. The slots in the row of a live sequence are safe: they are slots of the cache, none is on the free
stack, and if another live sequence has the same slot in its row, both hold the prefix block it belongs to.\<close>
theorem standard_rows_isolated:
  assumes "std_run H G m" "live_slot m a v"
  shows "0 \<le> v \<and> v < num_kvcache_slots m \<and> v \<notin> set (take (nat (num_free m)) (free_slots_stack m))
    \<and> (\<forall>b. b \<noteq> a \<and> live_slot m b v \<longrightarrow>
         (\<exists>r\<in>set (held_blocks m a) \<inter> set (held_blocks m b). v \<in> set (block_slots m r)))"
proof -
  note inv = std_run_inv [OF assms(1)]
  show ?thesis using live_not_free [OF inv assms(2)] shared_only_by_blocks [OF inv assms(2)]
    by (auto simp: free_part_def)
qed

lemma standard_rows_isolated_witness:
  "live_slot ex_std5 5 5 \<and> live_slot ex_std5 6 5
     \<and> (\<exists>r\<in>set (held_blocks ex_std5 5) \<inter> set (held_blocks ex_std5 6). 5 \<in> set (block_slots ex_std5 r))"
proof -
  have "cell ex_std5 0 0 = 5" "cell ex_std5 1 0 = 5" by code_simp+
  then have "live_slot ex_std5 5 5" "live_slot ex_std5 6 5"
    using ex_std5_state by (auto simp: live_slot_def)
  then show ?thesis using standard_rows_isolated [OF ex_std_run5, of 5 5] by auto
qed

text \<open>C10. Reference counts are exact: the count of an indexed block is the number of times live sequences hold
it, as an attached or as a materialized block. (So a block in use has a positive count, and eviction, which only takes
blocks with count zero, leaves it alone.)\<close>
theorem standard_reference_counts:
  assumes "std_run H G m" "prefix_cache m = Some ix" "get_block ix b = Some r"
  shows "ref_count (obj ix r) = int (\<Sum>sid\<in>owners m. count_list (held_blocks m sid) r)"
proof -
  have "r \<in> indexed m" using assms(2,3) by (auto simp: indexed_def ran_def)
  then show ?thesis using std_invD(4) [OF std_run_inv [OF assms(1)]] assms(2)
    by (simp add: refs_ok_def holders_def)
qed

lemma standard_reference_counts_witness: "ref_count (obj (the (prefix_cache ex_std5)) 0) = 2"
proof -
  have "owners ex_std5 = {5, 6}" unfolding owners_def owner_def ex_std5_state by auto
  then show ?thesis
    using standard_reference_counts [OF ex_std_run5, of "the (prefix_cache ex_std5)" "[4, 18]" 0] ex_std5_state
    by simp
qed

text \<open>C11. Ending a live sequence always succeeds and gives back what it took: its row is queued as free, the
slots that belong to it alone return to the free stack, no other slot does, and each block it held loses
exactly its references.\<close>
theorem standard_free_returns:
  assumes "std_run H G m" "owner m sid = Some r"
  shows "\<exists>t. standard_free_seq sid m = (Inr (), t) \<and> owner t = (owner m)(sid := None)
    \<and> free_rows t = free_rows m @ [r]
    \<and> mset (take (nat (num_free t)) (free_slots_stack t))
        = mset (take (nat (num_free m)) (free_slots_stack m)) + private_slots m sid
    \<and> (\<forall>ix. prefix_cache m = Some ix \<longrightarrow> (\<exists>ix'. prefix_cache t = Some ix'
         \<and> refs_added (- 1) (held_blocks m sid) ix ix'))"
  using standard_free_seq_inv [OF std_run_inv [OF assms(1)] assms(2)] unfolding free_part_def by blast

lemma standard_free_returns_witness:
  "\<exists>t. standard_free_seq 5 ex_std5 = (Inr (), t) \<and> owner t 5 = None \<and> free_rows t = [0]"
  using standard_free_returns [OF ex_std_run5, of 5 0] ex_std5_state by auto

text \<open>C12. An allocation that fits succeeds: if the row has room, a row can be had, and the free slots together
with those of the prefix blocks eviction can free are enough, the sequence gets as many slots as it asked
for, at the end of its row and in the order returned, and no other row changes its owner or length.\<close>
theorem standard_allocation:
  assumes "std_run H G m" "0 \<le> n" "seq_len m sid + n \<le> max_model_len m"
    "n \<le> num_free m + freeable_slots m" "owner m sid \<noteq> None \<or> free_rows m \<noteq> []"
  shows "\<exists>xs t r. allocate sid n m = (Inr xs, t) \<and> int (length xs) = n \<and> owner t sid = Some r
    \<and> row_len t r = seq_len m sid + n \<and> cells t r (seq_len m sid) (row_len t r) = xs
    \<and> (\<forall>s. s \<noteq> sid \<longrightarrow> owner t s = owner m s \<and> seq_len t s = seq_len m s)"
proof (rule allocate_inv [OF std_run_inv [OF assms(1)] assms(2) _ assms(3)])
  fix t assume "num_free m + freeable_slots m < n"
  then show ?thesis using assms(4) by simp
next
  fix e t assume "owner m sid = None" "free_rows m = []"
  then show ?thesis using assms(5) by simp
next
  fix xs t r assume a: "allocate sid n m = (Inr xs, t)" "owner t sid = Some r" "int (length xs) = n"
    "row_len t r = seq_len m sid + n" "cells t r (seq_len m sid) (seq_len m sid + n) = xs" "rows_kept {sid} m t"
  have "owner t s = owner m s \<and> seq_len t s = seq_len m s" if "s \<noteq> sid" for s
    using a(6) rows_kept_len [OF a(6), of s] that by (simp add: rows_kept_def)
  then show ?thesis using a by auto
qed simp

lemma standard_allocation_witness:
  "\<exists>xs t. allocate 5 2 ex_std2 = (Inr xs, t) \<and> length xs = 2 \<and> seq_len t 6 = seq_len ex_std2 6"
proof -
  have "0 \<le> freeable_slots ex_std2" by (simp add: freeable_slots_def sum_nonneg split: option.split)
  then show ?thesis
    using standard_allocation [OF ex_std_run2, of 2 5] ex_std2_state ex_std_lens by auto
qed

text \<open>C13. A prepared decode step gives every sequence of the batch one slot: its row grows by that slot, the
slot mapping, context lengths and row indices handed to the model say so in batch order, and rows outside the
batch keep their owner and length. The sequences of the batch have distinct ids, room for one more token, and
the prefix hit they were admitted with, the same in tokens and in blocks (keeps_promise).\<close>
theorem standard_decode_step:
  assumes "std_run H G m" "distinct (map seq_id qs)"
    "\<And>q. q \<in> set qs \<Longrightarrow> keeps_promise G m q \<and> seq_len m (seq_id q) + 1 \<le> max_model_len m"
    "prepare_decode H qs m = (Inr inp, t)" "i < length qs"
  shows "\<exists>r. owner t (seq_id (qs ! i)) = Some r \<and> row_len t r = seq_len m (seq_id (qs ! i)) + 1
    \<and> in_slot_mapping inp ! i = cell t r (row_len t r - 1)
    \<and> in_context_lens inp ! i = row_len t r \<and> in_req_indices inp ! i = r
    \<and> (\<forall>s. s \<notin> seq_id ` set qs \<longrightarrow> owner t s = owner m s \<and> seq_len t s = seq_len m s)"
proof -
  note inv = std_run_inv [OF assms(1)]
  have kept: "rows_kept (seq_id ` set qs) m t" by (rule prepare_decode_inv(2) [OF inv assms(2-4)])
  have "\<exists>r. owner t (seq_id (qs ! i)) = Some r \<and> in_slot_mapping inp ! i = cell t r (row_len t r - 1)
      \<and> in_context_lens inp ! i = row_len t r \<and> in_req_indices inp ! i = r"
    by (rule prepare_decode_inv(4) [OF inv assms(2-5)])
  then obtain r where r: "owner t (seq_id (qs ! i)) = Some r" "in_slot_mapping inp ! i = cell t r (row_len t r - 1)"
    "in_context_lens inp ! i = row_len t r" "in_req_indices inp ! i = r" by blast
  have "seq_len t (seq_id (qs ! i)) = seq_len m (seq_id (qs ! i)) + 1"
    by (rule prepare_decode_inv(3) [OF inv assms(2-4)]) (use assms(5) in simp_all)
  then have "row_len t r = seq_len m (seq_id (qs ! i)) + 1" using r(1) by (simp add: seq_len_def)
  moreover have "owner t s = owner m s \<and> seq_len t s = seq_len m s" if "s \<notin> seq_id ` set qs" for s
    using kept rows_kept_len [OF kept that] that by (simp add: rows_kept_def)
  ultimately show ?thesis using r by blast
qed

lemma standard_decode_step_witness: "\<exists>r. owner ex_std3 5 = Some r \<and> row_len ex_std3 r = 4"
proof -
  have q: "seq_id ex_seq_a' = 5" by (simp add: ex_seq_a'_def ex_seq_a_def make_seq_def)
  have "keeps_promise ex_promise ex_std2 q \<and> seq_len ex_std2 (seq_id q) + 1 \<le> max_model_len ex_std2"
    if "q \<in> set [ex_seq_a']" for q using that ex_promise_kept q ex_std_lens by simp
  from standard_decode_step [OF ex_std_run2 _ this ex_std3_run, of 0] show ?thesis
    using q ex_std_lens by auto
qed

text \<open>C14. Attaching a cached prefix costs no slot: when it succeeds for a sequence with a hit that has nothing
attached yet, the row starts with the slots of the chain of blocks, in order, its logical length is the hit,
the sequence holds the blocks of the chain, and the free stack is untouched.\<close>
theorem standard_attach_copies:
  assumes "std_run H G m" "caching m" "0 < prefix_cache_hit_len q" "prefix_cache_hit_len q \<le> max_model_len m"
    "dict_get (seq_id_to_prefix_blocks m) (seq_id q) = None" "attach_prefix_cache_if_needed q m = (Inr (), t)"
  shows "\<exists>row. owner t (seq_id q) = Some row
    \<and> cells t row 0 (row_len t row) = concat (map (block_slots m) (chain_of m q))
    \<and> row_logical_lens t ! row = prefix_cache_hit_len q
    \<and> held_blocks t (seq_id q) = chain_of m q @ held_blocks m (seq_id q) \<and> free_part t = free_part m"
proof (rule attach_inv [OF std_run_inv [OF assms(1)] refl assms(4)])
  fix e assume "attach_prefix_cache_if_needed q m = (Inl e, m)"
  then show ?thesis using assms(6) by simp
next
  assume "\<not> caching m \<or> prefix_cache_hit_len q \<le> 0 \<or> dict_get (seq_id_to_prefix_blocks m) (seq_id q) \<noteq> None"
  then show ?thesis using assms by auto
next
  fix u row
  assume "attach_prefix_cache_if_needed q m = (Inr (), u)" "owner u (seq_id q) = Some row"
    "cells u row 0 (row_len u row) = slots_of_all m (chain_of m q)"
    "row_logical_lens u ! row = prefix_cache_hit_len q" "free_part u = free_part m"
    "held_blocks u (seq_id q) = chain_of m q @ held_blocks m (seq_id q)"
  then show ?thesis using assms(6) by auto
qed

lemma standard_attach_copies_witness:
  "\<exists>t row. attach_prefix_cache_if_needed ex_seq_b ex_std4 = (Inr (), t) \<and> cells t row 0 (row_len t row) = [5, 6]"
proof -
  have q: "seq_id ex_seq_b = 6" "prefix_cache_hit_len ex_seq_b = 2" by (simp_all add: ex_seq_b_def make_seq_def)
  obtain t where t: "attach_prefix_cache_if_needed ex_seq_b ex_std4 = (Inr (), t)"
    using ex_std3_state(5) by (metis prod.collapse)
  show ?thesis using standard_attach_copies [OF ex_std_run4 ex_std3_state(3) _ _ _ t] t q ex_std_lens ex_std3_state
    by auto
qed

text \<open>C15. Whatever comes of committing the pending blocks of a sequence, an error in the middle included, the
slots still partition the cache, every reference count is exact and no row changes; if the commit succeeds, the
sequence holds a block for every pending one, so none of them can be evicted while the sequence lives.\<close>
theorem standard_commit_outcome:
  assumes "std_run H G m" "caching m" "commit_seq q m = (x, t)"
    "pending_of m (seq_id q) \<noteq> [] \<Longrightarrow> hit_of (G (seq_id q)) = prefix_cache_hit_len q"
  shows "all_slots t = mset [0..num_kvcache_slots t - 1]
    \<and> (\<forall>ix r. prefix_cache t = Some ix \<and> r \<in> indexed t \<longrightarrow> ref_count (obj ix r) = int (holders t r))
    \<and> owner t = owner m \<and> row_len t = row_len m \<and> buffer_slots t = buffer_slots m
    \<and> (x = Inr () \<longrightarrow> (\<forall>p\<in>set (pending_of m (seq_id q)).
         \<exists>r\<in>set (held_blocks t (seq_id q)). block_key t r = Some (pb_block_id p)))"
proof -
  have c: "std_inv {#} G no_tail t"
    "undisturbed (m\<lparr>pending_prefix_blocks := dict_del (seq_id q) (pending_prefix_blocks m)\<rparr>) t"
    "x = Inr () \<longrightarrow> held_ids t (seq_id q) = held_ids m (seq_id q) \<union> (Some \<circ> pb_block_id) ` set (pending_of m (seq_id q))"
    using commit_seq_inv [OF std_run_inv [OF assms(1)] assms(2,4)] assms(3) by auto
  have "owner t = owner m \<and> row_len t = row_len m \<and> buffer_slots t = buffer_slots m"
    using c(2) by (simp add: undisturbed_def fun_eq_iff owner_def row_len_def)
  moreover have "\<forall>p\<in>set (pending_of m (seq_id q)). \<exists>r\<in>set (held_blocks t (seq_id q)). block_key t r = Some (pb_block_id p)"
    if "x = Inr ()"
  proof
    fix p assume "p \<in> set (pending_of m (seq_id q))"
    then have "Some (pb_block_id p) \<in> held_ids t (seq_id q)" using c(3) that by auto
    then show "\<exists>r\<in>set (held_blocks t (seq_id q)). block_key t r = Some (pb_block_id p)"
      unfolding held_ids_def by fastforce
  qed
  ultimately show ?thesis using std_invD(4,6) [OF c(1)] by (simp add: refs_ok_def arange_def)
qed

lemma standard_commit_outcome_witness:
  "\<exists>t. commit_seq ex_seq_a' ex_std3 = (Inr (), t)
     \<and> (\<exists>r\<in>set (held_blocks t 5). block_key t r = Some [31, 20])"
proof -
  have q: "seq_id ex_seq_a' = 5" "prefix_cache_hit_len ex_seq_a' = 0"
    by (simp_all add: ex_seq_a'_def ex_seq_a_def make_seq_def)
  have "fst (commit_seq ex_seq_a' ex_std3) = Inr ()" by code_simp
  then obtain t where t: "commit_seq ex_seq_a' ex_std3 = (Inr (), t)" by (metis prod.collapse)
  obtain p where "p \<in> set (pending_of ex_std3 5)" "pb_block_id p = [31, 20]"
    using ex_std3_state(2) by (cases "pending_of ex_std3 5") auto
  moreover have "hit_of (ex_promise 5) = 0" by (simp add: ex_promise_def)
  ultimately show ?thesis
    using standard_commit_outcome [OF ex_std_run3 ex_std3_state(1) t] t q by fastforce
qed

text \<open>C16. The interval arithmetic of giving a row back is set difference: for cached ranges inside the row, in any
order, overlapping, touching or empty, the complement of the merged ranges lists exactly the positions of the row
that no cached range covers, each once and in order, as non-empty ranges inside the row.\<close>
theorem slot_ranges_difference:
  assumes "\<forall>(s, e)\<in>set rs. 0 \<le> s \<and> e \<le> hi" "0 \<le> hi"
  shows "concat (map (\<lambda>(s, e). [s..e - 1]) (complement_ranges 0 hi (merge_ranges rs)))
      = filter (\<lambda>i. \<not> (\<exists>(s, e)\<in>set rs. s \<le> i \<and> i < e)) [0..hi - 1]
    \<and> (\<forall>(s, e)\<in>set (complement_ranges 0 hi (merge_ranges rs)). 0 \<le> s \<and> s < e \<and> e \<le> hi)"
proof -
  have i: "0 \<le> s \<and> e \<le> hi" if "(s, e) \<in> set rs" for s e using assms(1) that by auto
  show ?thesis using complement_merged(1) [OF i assms(2)] complement_merged(2) [OF i assms(2)]
    by (auto simp: positions_def covered_def)
qed

lemma slot_ranges_difference_witness:
  "concat (map (\<lambda>(s, e). [s..e - 1]) (complement_ranges 0 9 (merge_ranges [(4, 6), (0, 2), (5, 8), (3, 3)]))) = [2, 3, 8]"
proof -
  have "filter (\<lambda>i. \<not> (\<exists>(s, e)\<in>set [(4, 6), (0, 2), (5, 8), (3, 3)]. s \<le> i \<and> i < e)) [0..9 - 1] = [2, 3, 8 :: int]"
    by code_simp
  then show ?thesis using slot_ranges_difference [of "[(4, 6), (0, 2), (5, 8), (3, 3)]" 9] by simp
qed

section \<open>Sequences\<close>

text \<open>C17. Postprocessing a scheduled batch with one sample per sequence cannot fail. Every sequence of
the batch ends up in exactly one place - waiting for its next chunk, decoding, or finished and in no queue -
in a well-formed state of that place; its completion grows by its sample exactly when that sample is
published, a replayed or partial prefill appends nothing; and the sequences outside the batch are left
alone.\<close>
theorem postprocess_settles:
  assumes "length ts = length batch" "\<forall>l. lps = Some l \<longrightarrow> length l = length batch"
      "\<forall>l. tops = Some l \<longrightarrow> length l = length batch"
    and "distinct batch" "distinct (waiting s @ decoding s)"
    and "\<forall>x\<in>set batch. x \<notin> set (waiting s)
      \<and> (if isp then inflight_ok (sq s x) \<and> x \<notin> set (decoding s) else decoding_ok (sq s x) \<and> x \<in> set (decoding s))"
  shows "\<exists>u. postprocess M C batch ts isp lps tops s = (Inr (), u)
    \<and> (\<forall>(x, t)\<in>set (zip batch ts).
        completion_token_ids (sq u x) = completion_token_ids (sq s x)
          @ (if publishes isp (sq s x) = Inr True then [t] else [])
      \<and> (x \<in> set (waiting u) \<and> x \<notin> set (decoding u) \<and> queued_ok (sq u x)
        \<or> x \<in> set (decoding u) \<and> x \<notin> set (waiting u) \<and> decoding_ok (sq u x)
        \<or> x \<notin> set (waiting u) \<union> set (decoding u) \<and> finished_ok C t (sq u x)))
    \<and> (\<forall>y. y \<notin> set batch \<longrightarrow> sq u y = sq s y \<and> (y \<in> set (waiting u) \<longleftrightarrow> y \<in> set (waiting s))
        \<and> (y \<in> set (decoding u) \<longleftrightarrow> y \<in> set (decoding s)))"
proof -
  obtain u where u: "postprocess M C batch ts isp lps tops s = (Inr (), u)" "batch_settled C isp (zip batch ts) s u"
    using postprocess_settled [of ts batch lps tops s isp M C] assms by blast
  have b: "fst ` set (zip batch ts) = set batch"
    using assms(1) by (metis list.set_map map_fst_zip)
  show ?thesis
    using u(2) unfolding batch_settled_def b settled_seq_def untouched_def
    by (intro exI [of _ u]) (use u(1) in \<open>simp add: split_def\<close>)
qed

lemma postprocess_settles_witness:
  "\<exists>u. postprocess base_oracle ex_config [0] [7] False None None (ex_step ex_start) = (Inr (), u)
     \<and> completion_token_ids (sq u 0) = [7, 7]"
proof -
  have d: "decoding (ex_step ex_start) = [0]" "waiting (ex_step ex_start) = []"
    "publishes False (sq (ex_step ex_start) 0) = Inr True"
    "completion_token_ids (sq (ex_step ex_start) 0) = [7]" by code_simp+
  have "decoding_ok (sq (ex_step ex_start) 0)"
    using ex_trace1_ok d(1) by (simp add: sched_ok_def queues_ok_def)
  then show ?thesis
    using postprocess_settles [of "[7]" "[0]" None None "ex_step ex_start" False base_oracle ex_config] d by auto
qed

text \<open>C18. Recompute replay rebuilds the state it lost: after the preemption of a sequence with more than one accepted
token, once the prompt is prefilled again, the decode steps of the replay feed exactly the accepted completion tokens
but the last, in order; then the replay ends, the tokens of the sequence are untouched, and the next decode input is
the last accepted token. The steps are those of the sequence alone: replay_inputs asks for the input and
advances the cursor until the replay is over, which the engine and postprocess do around each forward pass.\<close>
theorem replay_feeds_completion:
  assumes "seq_ok q" "1 < num_completion_tokens q"
  shows "\<exists>t. start_recompute_replay q = (Inr (), t)
    \<and> (\<exists>u. replay_inputs (length (seq_tokens q) + 1) (t\<lparr>num_prefilled_tokens := num_prompt_tokens t\<rparr>)
          = (Inr (butlast (completion_token_ids q)), u)
        \<and> seq_tokens u = seq_tokens q \<and> \<not> is_recompute_replay u
        \<and> decode_input_token u = Inr (last (completion_token_ids q)))"
  using assms by (rule replay_feeds_history)

lemma replay_feeds_completion_witness:
  "\<exists>t u. start_recompute_replay ex_accepted = (Inr (), t)
     \<and> replay_inputs 7 (t\<lparr>num_prefilled_tokens := num_prompt_tokens t\<rparr>) = (Inr [7, 8], u)
     \<and> decode_input_token u = Inr 9"
proof -
  have "completion_token_ids ex_accepted = [7, 8, 9]" "length (seq_tokens ex_accepted) = 6"
    "1 < num_completion_tokens ex_accepted" by code_simp+
  then show ?thesis using replay_feeds_completion [OF ex_accepted_ok] by auto
qed

text \<open>C19. Shipping a decoding sequence to the workers and rebuilding it there keeps every scalar field,
the token it decodes next and its position; if the sequence cannot be shipped, it has no decode input
either.\<close>
theorem decode_shipping:
  assumes "seq_ok q" "0 < num_completion_tokens q" "\<not> is_recompute_prefill q"
  shows "\<exists>w t. getstate q = Inr w \<and> setstate w = Inr t \<and> seq_meta.truncate t = seq_meta.truncate q
      \<and> decode_input_token t = decode_input_token q \<and> decode_input_position t = decode_input_position q
    \<or> (\<exists>e. getstate q = Inl e \<and> decode_input_token q = Inl e)"
  using assms by (rule ship_decode)

lemma decode_shipping_witness:
  "decode_input_token (case getstate ex_accepted of Inr w \<Rightarrow> (case setstate w of Inr t \<Rightarrow> t | Inl _ \<Rightarrow> ex_request)
      | Inl _ \<Rightarrow> ex_request) = Inr 9"
proof -
  have h: "0 < num_completion_tokens ex_accepted" "\<not> is_recompute_prefill ex_accepted"
    "decode_input_token ex_accepted = Inr 9" by code_simp+
  from decode_shipping [OF ex_accepted_ok h(1,2)] h(3) show ?thesis by auto
qed

text \<open>Shipping a sequence that rebuilds its prompt keeps every scalar field and the tokens of the
chunk it replays, which are the slice of its token list that the chunk covers.\<close>
theorem replay_shipping:
  assumes "seq_ok q" "is_recompute_prefill q" "current_chunk_size q = Some c"
    "num_prefilled_tokens q + c \<le> num_prompt_tokens q"
  shows "\<exists>w t. getstate q = Inr w \<and> setstate w = Inr t \<and> seq_meta.truncate t = seq_meta.truncate q
    \<and> replay_input_token_ids t = replay_input_token_ids q
    \<and> replay_input_token_ids q = slice (num_prefilled_tokens q) (num_prefilled_tokens q + c) (seq_tokens q)"
  using assms by (rule ship_replay_prefill)

lemma replay_shipping_witness: "replay_input_token_ids ex_replaying = [1, 2]"
proof -
  have "is_recompute_prefill ex_replaying" "current_chunk_size ex_replaying = Some 2"
    "num_prefilled_tokens ex_replaying + 2 \<le> num_prompt_tokens ex_replaying"
    "slice (num_prefilled_tokens ex_replaying) (num_prefilled_tokens ex_replaying + 2) (seq_tokens ex_replaying)
       = [1, 2]" by code_simp+
  with replay_shipping [OF ex_replaying_ok] show ?thesis by auto
qed

text \<open>C20. The cached tensor of a penalty's tokens always reads as the distinct tokens in the order they
were first seen, however often and with whatever capacity it was synchronised before, and synchronising it
leaves it in step with the token list.\<close>
theorem penalty_tensor_values:
  assumes "unique_ok u" "0 < vocab_size" "ut_values u \<noteq> []"
  shows "\<exists>v. to_tensor dev vocab_size n u = (Inr (Some (map Some (ut_values u))), v)
    \<and> unique_ok v \<and> ut_values v = ut_values u \<and> synced_count v = length (ut_values u)"
  using assms by (rule to_tensor_values)

lemma penalty_tensor_values_witness:
  "fst (to_tensor 0 100 4 (add_unique 9 (make_unique [3, 5, 3]))) = Inr (Some [Some 3, Some 5, Some 9])"
proof -
  have "unique_ok (add_unique 9 (make_unique [3, 5, 3]))" using make_unique_ok add_unique_ok by blast
  moreover have "ut_values (add_unique 9 (make_unique [3, 5, 3])) = [3, 5, 9]" by code_simp
  ultimately show ?thesis
    using penalty_tensor_values [of "add_unique 9 (make_unique [3, 5, 3])" 100 0 4] by auto
qed

section \<open>The routing membership set\<close>

text \<open>C21. Inserting into the persistent AVL tree never raises, keeps it a balanced search tree with
correct heights, adds exactly the new id, reports whether it was new, returns the tree unchanged when it was
not, and grows the height by one at most.\<close>
theorem membership_insert_avl:
  assumes "avl t" "bst t"
  shows "\<exists>t' ins. insert_routing_membership t x = Inr (t', ins) \<and> avl t' \<and> bst t'
    \<and> node_set t' = insert x (node_set t) \<and> (ins \<longleftrightarrow> x \<notin> node_set t) \<and> (\<not> ins \<longrightarrow> t' = t)
    \<and> routing_membership_height t \<le> routing_membership_height t'
    \<and> routing_membership_height t' \<le> routing_membership_height t + 1"
  using insert_routing_ok [OF assms, of x] by (auto simp: inserted_ok_def)

lemma membership_insert_avl_witness:
  "\<exists>t'. insert_routing_membership (MNode 2 (MNode (1::int) MNone MNone 1) MNone 2) 3 = Inr (t', True)
     \<and> node_set t' = {1, 2, 3}"
proof -
  let ?t = "MNode 2 (MNode (1::int) MNone MNone 1) MNone 2"
  have "avl ?t" "bst ?t" "node_set ?t = {1, 2}" by (auto simp: bst_def node_set_def)
  then show ?thesis using membership_insert_avl [of ?t 3] by auto
qed

text \<open>C22. Removing from the AVL tree never raises, keeps it a balanced search tree, removes exactly the
given id, reports whether it was there, returns the tree unchanged when it was not, and lowers the height by
one at most.\<close>
theorem membership_remove_avl:
  assumes "avl t" "bst t"
  shows "\<exists>t' rem. remove_routing_membership t x = Inr (t', rem) \<and> avl t' \<and> bst t'
    \<and> node_set t' = node_set t - {x} \<and> (rem \<longleftrightarrow> x \<in> node_set t) \<and> (\<not> rem \<longrightarrow> t' = t)
    \<and> routing_membership_height t' \<le> routing_membership_height t
    \<and> routing_membership_height t \<le> routing_membership_height t' + 1"
  using remove_routing_ok [OF assms, of x] by (auto simp: removed_ok_def)

lemma membership_remove_avl_witness:
  "\<exists>t'. remove_routing_membership (MNode 2 (MNode (1::int) MNone MNone 1) MNone 2) 2 = Inr (t', True)
     \<and> node_set t' = {1}"
proof -
  let ?t = "MNode 2 (MNode (1::int) MNone MNone 1) MNone 2"
  have "avl ?t" "bst ?t" "node_set ?t = {1, 2}" by (auto simp: bst_def node_set_def)
  then show ?thesis using membership_remove_avl [of ?t 2] by auto
qed

text \<open>A lookup in the membership tree visits a number of nodes logarithmic in its size: the height h
of a balanced tree satisfies 2 ^ (h div 2) <= size + 1.\<close>
theorem membership_height_log:
  assumes "avl t"
  shows "2 ^ (routing_membership_height t div 2) \<le> length (inorder t) + 1"
  using assms by (rule avl_size_height)

lemma membership_height_log_witness:
  "(2::nat) ^ (routing_membership_height (MNode 2 (MNode (1::int) MNone MNone 1) MNone 2) div 2) \<le> 3"
proof -
  let ?t = "MNode 2 (MNode (1::int) MNone MNone 1) MNone 2"
  have "avl ?t" by simp
  from membership_height_log [OF this] show ?thesis by simp
qed

text \<open>The membership object implements a finite set: contains answers membership, the live count is
the cardinality, inserting a new id adds it and a known one raises, removing a known id deletes it and an
unknown one raises, and well-formedness is kept throughout.\<close>
theorem membership_is_a_set:
  assumes "membership_ok m"
  shows "(membership_contains m b \<longleftrightarrow> b \<in> membership_set m) \<and> live_blocks m = card (membership_set m)
    \<and> (if b \<in> membership_set m
       then (\<exists>msg. membership_insert m b = Inl (RuntimeError msg))
         \<and> (\<exists>m'. membership_remove m b = Inr m' \<and> membership_ok m' \<and> membership_set m' = membership_set m - {b})
       else (\<exists>msg. membership_remove m b = Inl (RuntimeError msg))
         \<and> (\<exists>m'. membership_insert m b = Inr m' \<and> membership_ok m' \<and> membership_set m' = insert b (membership_set m)))"
  using membership.contains_elems [OF assms] membership.size_card [OF assms]
    membership.ins_new [OF assms] membership.ins_old [OF assms] membership.rem_old [OF assms]
    membership.rem_new [OF assms] by simp

lemma membership_is_a_set_witness:
  "\<exists>m'. membership_insert empty_membership (4::int) = Inr m' \<and> membership_ok m' \<and> membership_set m' = {4}"
  using membership_is_a_set [OF membership.ok_empty, of "4::int"] by (simp add: membership.elems_empty)

section \<open>The radix tree\<close>

text \<open>C23. The compressed radix tree implements a forest of blocks: inserting a new block below a present
parent (or at the top) never raises, keeps every structural invariant of the tree (locations, child
dictionaries, parent links, leaf set, no cycles), whatever segments have to be split, and the parent of every
block is unchanged but for the new one, which gets the parent asked for.\<close>
theorem radix_insert:
  assumes "radix_ok s" "parent_map s b = None" "\<forall>p. po = Some p \<longrightarrow> parent_map s p \<noteq> None"
  shows "\<exists>t. insert_child po b s = (Inr (), t) \<and> radix_ok t \<and> parent_map t = (parent_map s)(b \<mapsto> po)"
  using insert_child_spec [OF assms(1,2)] assms(3) by blast

lemma radix_insert_witness:
  "\<exists>t. insert_child None (7::int) empty_radix = (Inr (), t) \<and> radix_ok t \<and> parent_map t 7 = Some None"
proof -
  have "parent_map (empty_radix :: int radix) 7 = None" by (simp add: parent_map_def empty_radix_def)
  from radix_insert [OF radix_ok_empty this, of None] show ?thesis by auto
qed

text \<open>C24. Removing a block from the radix tree: a missing block raises KeyError, a block with children
raises RuntimeError, both without changing the tree; a leaf block is removed, every other block keeps its
parent, and the invariants hold.\<close>
theorem radix_remove:
  assumes "radix_ok s"
  shows "if parent_map s b = None then
      remove_block b s = (Inl (KeyError ''Prefix cache block id is not present in radix tree.''), s)
    else if \<exists>c. parent_map s c = Some (Some b) then
      remove_block b s = (Inl (RuntimeError ''Cannot remove a prefix cache tree block with live children.''), s)
    else \<exists>t. remove_block b s = (Inr (), t) \<and> radix_ok t \<and> parent_map t = (parent_map s)(b := None)"
  using remove_block_absent [of s b] remove_block_spec [OF assms, of b] by (simp split: if_splits)

lemma radix_remove_witness:
  "\<exists>t. remove_block [1] (backend ex_index2) = (Inr (), t) \<and> parent_map t [0] = Some None
     \<and> parent_map t [1] = None"
proof -
  have ok: "radix_ok (backend ex_index2)" using ex_index2_ok by (simp add: index_ok_def)
  show ?thesis
    using radix_remove [OF ok, of "[1]"] ex_parents ex_leaf by (auto simp: fun_upd_apply)
qed

text \<open>C25. The radix lookup finds the longest cached chain: whatever the segments look like, it returns n
blocks and the id of the last, where the first n ids hang below each other from the top of the forest, and no
longer prefix within the limit does.\<close>
theorem radix_lookup_longest:
  assumes "radix_ok s"
  shows "\<exists>n. radix_lookup s ids k = Inr (n, if n = 0 then None else Some (ids ! (n - 1)))
    \<and> n \<le> length ids \<and> n \<le> nat k \<and> chain (parent_map s) None (take n ids)
    \<and> (\<forall>j. j \<le> nat k \<longrightarrow> j \<le> length ids \<longrightarrow> chain (parent_map s) None (take j ids) \<longrightarrow> j \<le> n)"
proof -
  obtain n b where r: "radix_lookup s ids k = Inr (n, b)"
    using radix_lookup_spec [OF assms, of ids k] by (simp add: Let_def)
  note f = radix.found_is_cached [OF assms r]
  have "b = (if n = 0 then None else Some (ids ! (n - 1)))" using f(5,6) by (cases "n = 0") auto
  then show ?thesis using r f(1-4) by blast
qed

lemma radix_lookup_longest_witness:
  "radix_lookup (backend ex_index2) [[0], [1], [9]] 5 = Inr (2, Some [1])"
proof -
  have ok: "radix_ok (backend ex_index2)" using ex_index2_ok by (simp add: index_ok_def)
  have ex_9: "parent_map (backend ex_index2) [9] = None" by (rule ex_no_other) simp_all
  have c: "chain (parent_map (backend ex_index2)) None (take 2 [[0], [1], [9]])"
    "\<not> chain (parent_map (backend ex_index2)) None (take 3 [[0], [1], [9]])"
    using ex_parents ex_9 by simp_all
  obtain n where n: "radix_lookup (backend ex_index2) [[0], [1], [9]] 5
        = Inr (n, if n = 0 then None else Some ([[0], [1], [9]] ! (n - 1)))" "n \<le> 3"
      "chain (parent_map (backend ex_index2)) None (take n [[0], [1], [9]])" "2 \<le> n"
    using radix_lookup_longest [OF ok, of "[[0], [1], [9]]" 5] c(1) by auto
  have "n = 2" using n(2-4) c(2) by (cases "n = 3") auto
  then show ?thesis using n(1) by simp
qed

text \<open>C26. The queries of the radix tree agree with the forest: the path of a present block is the chain
from the top to it, its children are listed once each and counted, and the leaves are the blocks without
children.\<close>
theorem radix_queries:
  assumes ok: "radix_ok s" and b: "parent_map s b \<noteq> None"
  shows "(\<exists>xs. path_to_block s b = Inr xs \<and> xs \<noteq> [] \<and> last xs = b \<and> chain (parent_map s) None xs)
    \<and> (\<exists>cs. child_block_ids s b = Inr cs \<and> distinct cs \<and> set cs = {c. parent_map s c = Some (Some b)}
         \<and> child_count s b = Inr (length cs))
    \<and> (b \<in> set (leaf_block_ids s) \<longleftrightarrow> (\<nexists>c. parent_map s c = Some (Some b)))"
proof -
  obtain n i where l: "loc s b = Some (n, i)" using b by (cases "loc s b") (auto simp: parent_map_None)
  obtain cs where "child_block_ids s b = Inr cs" "distinct cs"
    "set cs = {c. parent_map s c = Some (Some b)}" "child_count s b = Inr (length cs)"
    by (rule child_block_ids_spec [OF ok l])
  then show ?thesis using path_to_block_spec [OF ok b] leaf_block_ids_spec [OF ok] b by blast
qed

lemma radix_queries_witness: "\<exists>xs. path_to_block (backend ex_index2) [1] = Inr xs \<and> last xs = [1]"
proof -
  have ok: "radix_ok (backend ex_index2)" using ex_index2_ok by (simp add: index_ok_def)
  show ?thesis using radix_queries [OF ok, of "[1]"] ex_parents by auto
qed

section \<open>The prefix index\<close>

text \<open>C27. Whatever operations of a prefix index are called, in whatever order and with whatever
outcome (a block is inserted with a reference count that is not negative, which the code leaves to its callers;
inspect_prefix, which only reports, is not among the steps): the radix tree holds exactly the blocks of the dictionary with the parents their objects name, the
routing set holds exactly their ids, the capacity is respected, reference counts are not negative, every
block has a legal residency, and a block on the device (on the host) has its parent there too. A cached
routing snapshot describes the current state.\<close>
theorem index_invariant:
  assumes "index_run H s"
  shows "(\<forall>b. parent_map (backend s) b = map_option (\<lambda>r. parent_block_id (obj s r)) (get_block s b))
    \<and> (\<forall>b r. get_block s b = Some r \<longrightarrow> stable_block_id (obj s r) = b \<and> 0 \<le> ref_count (obj s r)
         \<and> validate (residency (obj s r)) = Inr ())
    \<and> (\<forall>b. membership_contains (routing s) b \<longleftrightarrow> get_block s b \<noteq> None)
    \<and> live_blocks (routing s) = length (blocks s)
    \<and> (\<forall>m. max_blocks s = Some m \<longrightarrow> int (length (blocks s)) \<le> m)
    \<and> (\<forall>b r p. get_block s b = Some r \<and> parent_of s (obj s r) = Some p \<longrightarrow>
         (device_present (residency (obj s r)) \<longrightarrow> device_present (residency p))
         \<and> (host_present (residency (obj s r)) \<longrightarrow> host_present (residency p)))
    \<and> radix_ok (backend s) \<and> membership_ok (routing s) \<and> snapshot_current s"
  using index_facts [OF index_run_ok [OF assms]] by blast

lemma index_invariant_witness:
  "membership_contains (routing ex_index2) [1] \<and> device_present (residency (obj ex_index2 0))"
proof -
  have d: "parent_of ex_index2 (obj ex_index2 1) = Some (obj ex_index2 0)"
    "device_present (residency (obj ex_index2 1))" by code_simp+
  have b: "get_block ex_index2 [1] = Some 1" by (simp add: ex_blocks)
  note i = index_invariant [OF ex_index2_run]
  have "\<forall>b. membership_contains (routing ex_index2) b \<longleftrightarrow> get_block ex_index2 b \<noteq> None" using i by (elim conjE)
  then have "membership_contains (routing ex_index2) [1]" using b by simp
  moreover have "\<forall>b r p. get_block ex_index2 b = Some r \<and> parent_of ex_index2 (obj ex_index2 r) = Some p \<longrightarrow>
         (device_present (residency (obj ex_index2 r)) \<longrightarrow> device_present (residency p))
         \<and> (host_present (residency (obj ex_index2 r)) \<longrightarrow> host_present (residency p))" using i by (elim conjE)
  then have "device_present (residency (obj ex_index2 0))" using b d by blast
  ultimately show ?thesis by (rule conjI)
qed

text \<open>Inserting a new admissible block under the capacity limit succeeds: the dictionary maps its id to
it, the forest gets it below the parent it names, its access time is the ticked clock, it is counted as
committed, and the invariant holds.\<close>
theorem insert_new_block:
  assumes "index_ok s" "get_block s (stable_block_id (obj s r)) = None"
    and "validate (residency (obj s r)) = Inr ()" "0 \<le> ref_count (obj s r)"
    and "\<forall>m. max_blocks s = Some m \<longrightarrow> int (length (blocks s)) < m"
    and "insert_admissible s (obj s r) = Inr ()"
  shows "\<exists>t. insert_block r s = (Inr r, t) \<and> index_ok t
    \<and> blocks t = dict_set (stable_block_id (obj s r)) r (blocks s)
    \<and> obj t = (obj s)(r := (obj s r)\<lparr>last_access := clock s + 1\<rparr>)
    \<and> parent_map (backend t) = (parent_map (backend s))(stable_block_id (obj s r) \<mapsto> parent_block_id (obj s r))
    \<and> clock t = clock s + 1 \<and> committed_blocks (cnt t) = committed_blocks (cnt s) + 1"
  using insert_block_run [OF assms(1-4) _ assms(6)] assms(5) by blast

lemma insert_new_block_witness:
  "\<exists>t. insert_block 1 ex_index1 = (Inr 1, t) \<and> parent_map (backend t) [1] = Some (Some [0])"
proof -
  have d: "stable_block_id (obj ex_index1 1) = [1]" "parent_block_id (obj ex_index1 1) = Some [0]" by code_simp+
  show ?thesis
    using insert_new_block [OF ex_index1_ok ex_insert1(1,2) _ _ ex_insert1(6)] ex_insert1(3-5) d by auto
qed

text \<open>C28. Weight eviction never raises on a well-formed index with non-negative weights. It evicts only
freeable blocks, one after the other, each time a leaf that can be evicted at that moment and that goes before every other
such leaf: the one with the largest eviction priority, of these the one whose last access is oldest, of these
the one with the least id. It stops as soon as the weight reaches the need and not before, or when nothing freeable
is left; all other blocks stay and the invariant holds.\<close>
theorem eviction_order:
  assumes "index_ok s" "\<forall>k. 0 \<le> weight_of k"
  shows "\<exists>ks rs t. evict_until_weight needed weight_of s = (Inr rs, t)
    \<and> index_ok t \<and> map (get_block s) ks = map Some rs \<and> distinct ks \<and> greedy s {} ks
    \<and> set ks \<subseteq> free_set s \<and> free_set t = free_set s - set ks
    \<and> (\<forall>b. get_block t b = (if b \<in> set ks then None else get_block s b)) \<and> obj t = obj s
    \<and> (needed \<le> total_weight weight_of s rs \<or> free_set t = {})
    \<and> (rs \<noteq> [] \<longrightarrow> total_weight weight_of s (butlast rs) < needed)
    \<and> (\<forall>i<length ks. ks ! i \<in> evictable_after s (set (take i ks))
        \<and> (\<forall>c q. c \<in> evictable_after s (set (take i ks)) \<and> get_block s c = Some q \<longrightarrow>
             (eviction_priority (obj s q) < eviction_priority (obj s (rs ! i))
              \<or> eviction_priority (obj s q) = eviction_priority (obj s (rs ! i))
                \<and> (last_access (obj s (rs ! i)) < last_access (obj s q)
                  \<or> last_access (obj s (rs ! i)) = last_access (obj s q) \<and> ks ! i \<le> c))))"
proof -
  obtain ks rs t where e: "evict_until_weight needed weight_of s = (Inr rs, t)"
    "evicted_greedily weight_of needed 0 s ks rs t"
    using evict_until_weight_spec [OF assms(1), of weight_of needed] assms(2) by blast
  note D = e(2) [unfolded evicted_greedily_def]
  have k: "get_block s (ks ! i) = Some (rs ! i)" if "i < length ks" for i
    using D that by (metis length_map nth_map)
  have g: "greedy s {} ks" using D by blast
  have o: "ks ! i \<in> evictable_after s (set (take i ks))" if "i < length ks" for i
    using greedy_nth [OF g that] by simp
  show ?thesis
    using e(1) D o greedy_order [OF g _ k, unfolded evicted_before_def split_conv]
    unfolding add_0 by blast
qed

lemma eviction_order_witness:
  "\<exists>ks rs t. evict_until_weight 1 (\<lambda>_. 1) ex_index2 = (Inr rs, t) \<and> greedy ex_index2 {} ks
     \<and> map (get_block ex_index2) ks = map Some rs"
  using eviction_order [OF ex_index2_ok, of "\<lambda>_. 1" 1] by auto

text \<open>Making room for new blocks in a bounded index works exactly when it can: if the blocks over
capacity are at most the freeable ones, exactly that many are evicted and the new blocks fit; otherwise a
RuntimeError is raised. Both ways the index stays well formed.\<close>
theorem eviction_makes_room:
  assumes "index_ok s" "max_blocks s = Some m" "0 < needed"
  defines "over \<equiv> int (length (blocks s)) + needed - m"
  shows "if over \<le> int (card (free_set s))
    then \<exists>rs t. ensure_insert_capacity needed s = (Inr rs, t) \<and> index_ok t
      \<and> int (length (blocks t)) + needed \<le> m \<and> int (length rs) = max 0 over
    else \<exists>e t. ensure_insert_capacity needed s = (Inl (RuntimeError e), t) \<and> index_ok t"
  using ensure_insert_capacity_spec [OF assms(1-3)] unfolding over_def by (auto simp: not_le)

lemma eviction_makes_room_witness:
  "if 1 \<le> int (card (free_set ex_index2))
   then \<exists>rs t. ensure_insert_capacity 1 ex_index2 = (Inr rs, t) \<and> int (length (blocks t)) \<le> 1
   else \<exists>e t. ensure_insert_capacity 1 ex_index2 = (Inl (RuntimeError e), t)"
proof -
  have d: "max_blocks ex_index2 = Some 2" "length (blocks ex_index2) = 2" by code_simp+
  show ?thesis using eviction_makes_room [OF ex_index2_ok d(1), of 1] d(2) by (auto split: if_splits)
qed

section \<open>Block identifiers\<close>

text \<open>C29. Chained block ids identify whole prefixes: two sequences of equally many full blocks whose last
ids agree are the same, provided the hash has no collision among the inputs it is applied to for the two. In
particular the id of a block never depends on that block alone.\<close>
theorem block_ids_injective:
  assumes "chain_ids H fp None cs = Inr ids" "chain_ids H fp None ds = Inr jds"
    and "\<forall>c \<in> set cs \<union> set ds. length c = k"
    and "inj_on H (chain_inputs H fp None cs \<union> chain_inputs H fp None ds)"
    and "length cs = length ds" "cs \<noteq> []" "last ids = last jds"
  shows "cs = ds"
  using chain_ids_injective [OF assms(1,2) _ assms(4-7)] assms(3) by blast

lemma block_ids_injective_witness:
  "\<exists>ids jds. chain_ids id [] None [[1], [2]] = Inr ids \<and> chain_ids id [] None [[1], [3]] = Inr jds
     \<and> last ids \<noteq> last jds"
proof -
  obtain ids jds where i: "chain_ids id [] None [[1], [2]] = Inr ids" "chain_ids id [] None [[1], [3]] = Inr jds"
    using ex_chain_ids [of 2] ex_chain_ids [of 3] by auto
  have "last ids \<noteq> last jds" using block_ids_injective [OF i, of 1] by auto
  then show ?thesis using i by blast
qed

text \<open>Packing token ids for hashing loses nothing: when it succeeds, it takes eight bytes a token, and
reading them back as little-endian signed 64-bit integers gives the tokens; it succeeds exactly when every
token fits into a signed 64-bit integer.\<close>
theorem token_packing:
  "(case pack_token_ids ts of
      Inr b \<Rightarrow> length b = 8 * length ts \<and> map unpack_q (chunks 8 b) = ts
        \<and> (\<forall>t\<in>set ts. - (2 ^ 63) \<le> t \<and> t < 2 ^ 63)
    | Inl e \<Rightarrow> \<exists>t\<in>set ts. t < - (2 ^ 63) \<or> 2 ^ 63 \<le> t)"
  by (rule pack_roundtrip)

lemma token_packing_witness:
  "\<exists>b. pack_token_ids [1, - 2] = Inr b \<and> map unpack_q (chunks 8 b) = [1, - 2]"
  using token_packing [of "[1, - 2]"] by (cases "pack_token_ids [1, - 2]") auto

text \<open>The part of a prompt that may come from the prefix cache is a whole number of blocks, always
leaves at least one token to prefill, and leaves at most one block's worth.\<close>
theorem usable_prefix_bounds:
  assumes "0 < bs" "0 < n"
  shows "\<exists>u. usable_prefix_cache_tokens n bs = Inr u \<and> 0 \<le> u \<and> bs dvd u \<and> u < n \<and> n \<le> u + bs"
  using assms by (rule usable_tokens_spec)

lemma usable_prefix_bounds_witness: "\<exists>u. usable_prefix_cache_tokens 17 8 = Inr u \<and> u < 17 \<and> 17 \<le> u + 8"
  using usable_prefix_bounds [of 8 17] by auto

section \<open>Sampling parameters\<close>

text \<open>C30. Sampling parameters are accepted exactly when every check passes, and then only the stop tokens
change, to a duplicate-free tuple. The exact set of accepted values is stated: among the temperatures are all
non-negative numbers and also infinity and NaN.\<close>
theorem sampling_params_accepted:
  "post_init p eos = Inr q \<longleftrightarrow> q = p\<lparr>eos_token_ids := normal_eos eos\<rparr>
    \<and> (temperature q = NaN \<or> temperature q = PInf \<or> (\<exists>t. temperature q = Fin t \<and> 0 \<le> t))
    \<and> (\<exists>x. top_p q = Fin x \<and> 0 < x \<and> x \<le> 1) \<and> 0 \<le> top_k q
    \<and> (\<exists>x. presence_penalty q = Fin x \<and> - 2 \<le> x \<and> x \<le> 2)
    \<and> (repetition_penalty q = PInf \<or> (\<exists>x. repetition_penalty q = Fin x \<and> 0 < x))
    \<and> 0 < max_tokens q \<and> distinct (eos_token_ids q) \<and> (\<forall>t\<in>set (eos_token_ids q). 0 \<le> t)
    \<and> (\<forall>k. logprobs q = Some k \<longrightarrow> 0 \<le> k)"
  unfolding post_init_spec params_ok_def by (rule refl)

lemma sampling_params_accepted_witness:
  "post_init ex_params (EosList [3, 5, 3]) = Inr (ex_params\<lparr>eos_token_ids := [3, 5]\<rparr>)
     \<and> (\<exists>q. post_init (ex_params\<lparr>temperature := NaN\<rparr>) EosNone = Inr q \<and> temperature q = NaN)"
proof -
  have "normal_eos (EosList [3, 5, 3]) = [3, 5]" "normal_eos EosNone = []" by code_simp+
  then show ?thesis by (simp add: sampling_params_accepted) (simp add: ex_params_def)
qed

section \<open>Parallel topology\<close>

text \<open>C31. On every topology that can be built, world ranks and parallel ranks are two names for the same
workers: going from one to the other and back is the identity, in both directions.\<close>
theorem parallel_ranks_bijective:
  assumes "make_topology tp ep dp md = Inr t"
  shows "world_rank_from_parallel_ranks t d e k = Inr r \<longleftrightarrow> parallel_ranks_from_world_rank t r = Inr (d, e, k)"
  using rank_roundtrip [of t d e k r] rank_roundtrip_back [OF make_topology_ok [OF assms], of r d e k] by blast

lemma parallel_ranks_bijective_witness:
  "\<exists>t. make_topology 2 3 2 STANDARD = Inr t \<and> world_rank_from_parallel_ranks t 1 2 1 = Inr 11
     \<and> parallel_ranks_from_world_rank t 11 = Inr (1, 2, 1)"
proof -
  obtain t where t: "make_topology 2 3 2 STANDARD = Inr t" by (auto simp: make_topology_def)
  have "world_rank_from_parallel_ranks t 1 2 1 = Inr 11"
    using t by (auto simp: make_topology_def world_rank_from_parallel_ranks_def is_outer_tp_moe_def Let_def)
  then show ?thesis using t parallel_ranks_bijective [OF t] by blast
qed

text \<open>C32. The process groups of every buildable topology exist and partition the workers: each rank is in
exactly one tensor, one expert, one data and one MoE tensor group, and no group is empty.\<close>
theorem process_groups_partition:
  assumes "make_topology tp ep dp md = Inr t"
  shows "\<exists>g. parallel_group_ranks t = Inr g
    \<and> (\<forall>gs\<in>{tensor g, expert g, data g, moe_tensor g}.
         distinct (concat gs) \<and> set (concat gs) = {0..<world_size t} \<and> (\<forall>x\<in>set gs. x \<noteq> []))"
  using groups_partition [OF make_topology_ok [OF assms]] by (auto simp: partitions_def)

lemma process_groups_partition_witness:
  "\<exists>t g. make_topology 2 3 2 STANDARD = Inr t \<and> parallel_group_ranks t = Inr g
     \<and> set (concat (expert g)) = {0..<world_size t}"
proof -
  obtain t where t: "make_topology 2 3 2 STANDARD = Inr t" by (auto simp: make_topology_def)
  show ?thesis using t process_groups_partition [OF t] by blast
qed

text \<open>A model that passes the sharding checks of a buildable topology splits evenly: every attention
dimension over the attention ranks, the experts over the expert ranks, every MoE dimension over the MoE
tensor ranks, with a positive share each.\<close>
theorem sharding_divides:
  assumes "make_topology tp ep dp md = Inr t" "validate_model_sharding t attn (Some n) moe = Inr ()"
  shows "(\<forall>(f, d)\<in>set attn. \<exists>share. 0 < share \<and> d = share * attention_tp_size t)
    \<and> (\<exists>share. 0 < share \<and> n = share * expert_parallel_size t)
    \<and> (\<forall>(f, d)\<in>set moe. \<exists>share. 0 < share \<and> d = share * moe_tp_size t)"
  using sharding_shares [OF make_topology_ok [OF assms(1)] assms(2)] by blast

lemma sharding_divides_witness:
  "\<exists>t. make_topology 2 4 1 STANDARD = Inr t \<and> (\<exists>share. 0 < share \<and> 8 = share * expert_parallel_size t)"
proof -
  obtain t where t: "make_topology 2 4 1 STANDARD = Inr t" by (auto simp: make_topology_def)
  have "validate_model_sharding t [(''heads'', 8)] (Some 8) [(''moe'', 16)] = Inr ()"
    using t by (auto simp: make_topology_def validate_model_sharding_def validate_divisible_def
        attention_tp_size_def moe_tp_size_def is_outer_tp_moe_def)
  from sharding_divides [OF t this] t show ?thesis by blast
qed

section \<open>Method registry\<close>

text \<open>C33. The tables of the method registry cover exactly the canonical methods: a prefill contract and a
default prefill policy exist for a method name, as the user may write it, if and only if it normalises to a
canonical one; normalising twice changes nothing; and an explicit policy is accepted only when it is empty,
auto, or that default.\<close>
theorem method_tables_total:
  "((\<exists>c. sparse_prefill_attention_contract m p s w = Inr c)
      \<longleftrightarrow> normalize_sparse_method m \<in> set CANONICAL_SPARSE_METHODS)
   \<and> ((\<exists>q. get_default_prefill_schedule_policy m = Inr q)
      \<longleftrightarrow> normalize_sparse_method m \<in> set CANONICAL_SPARSE_METHODS)
   \<and> normalize_sparse_method (Some (normalize_sparse_method m)) = normalize_sparse_method m
   \<and> (resolve_prefill_schedule_policy m r = Inr q \<longleftrightarrow>
        get_default_prefill_schedule_policy m = Inr q
        \<and> (case r of None \<Rightarrow> True | Some x \<Rightarrow> py_lower (py_strip x) \<in> {'''', ''auto'', q}))"
  by (intro conjI contract_total default_policy_total normalize_idem policy_resolution)

section \<open>Prefix pruning\<close>

text \<open>A prune request is accepted exactly when its policy is known, its range is a non-empty,
block-aligned part of the selector, and it keeps fewer tokens than the range holds.\<close>
theorem prune_request_accepted:
  "validate_prefix_prune_request n l r k b p = Inr q \<longleftrightarrow>
     q = p \<and> (p = ''snapkv_global'' \<or> p = ''kvzip_global'') \<and> 0 < b \<and> 0 \<le> l \<and> l < r \<and> r \<le> n
     \<and> b dvd l \<and> b dvd r \<and> 0 \<le> k \<and> k < r - l"
  by (rule prune_request_spec)

text \<open>C34. The kept positions of a prune are sorted, distinct, within range, exactly as many as asked for,
contain every protected position, and of the others none was dropped that scores higher than a kept
unprotected one (with equal scores the earlier position is kept).\<close>
theorem prune_keeps_best:
  assumes "select_global_keep_indices scores keep protected = Inr sel"
  defines "prot \<equiv> nat ` set (case protected of None \<Rightarrow> [] | Some ps \<Rightarrow> ps)"
  shows "sorted sel \<and> distinct sel \<and> int (length sel) = keep \<and> prot \<subseteq> set sel
    \<and> set sel \<subseteq> {..<length scores}
    \<and> (\<forall>i\<in>set sel - prot. \<forall>j<length scores. j \<notin> set sel \<longrightarrow>
         scores ! j < scores ! i \<or> scores ! j = scores ! i \<and> i < j)"
  using select_keep_spec [OF assms(1)] unfolding prot_def by (intro conjI ballI allI impI) blast+

lemma prune_keeps_best_witness:
  "\<exists>sel. select_global_keep_indices [3, 1, 4, 1, 5] 3 (Some [1]) = Inr sel
     \<and> int (length sel) = 3 \<and> 1 \<in> set sel"
proof -
  have run: "select_global_keep_indices [3, 1, 4, 1, 5] 3 (Some [1]) = Inr [1, 2, 4]" by code_simp
  show ?thesis using prune_keeps_best [OF run] run by auto
qed

section \<open>The memory oracle\<close>

text \<open>A prompt once staged through raw offload stays there: later queries for the same sequence in the
same phase answer raw offload whatever mode is proposed and change nothing, until its state is reset; from
then on the proposed mode counts again.\<close>
theorem raw_offload_sticks:
  assumes "apply_sticky_raw_offload_mode q RAW_OFFLOAD m = (x, m1)"
    and "seq_id r = seq_id q" "is_recompute_replay r = is_recompute_replay q"
  shows "apply_sticky_raw_offload_mode r md m1 = (RAW_OFFLOAD, m1)
    \<and> fst (apply_sticky_raw_offload_mode r md (base_reset_prefill_execution_state (seq_id q) m1)) = md"
  using sticky_raw_offload [OF assms, of md] by (cases "apply_sticky_raw_offload_mode r md m1") simp

lemma raw_offload_sticks_witness:
  "\<exists>m. apply_sticky_raw_offload_mode ex_request RAW_OFFLOAD ex_memory = (RAW_OFFLOAD, m)
     \<and> apply_sticky_raw_offload_mode ex_request CHUNKED m = (RAW_OFFLOAD, m)"
proof -
  obtain x m where m: "apply_sticky_raw_offload_mode ex_request RAW_OFFLOAD ex_memory = (x, m)" by fastforce
  have "x = RAW_OFFLOAD"
    using m by (simp add: apply_sticky_raw_offload_mode_def ex_memory_def Let_def)
  then show ?thesis using raw_offload_sticks [OF m refl refl] m by blast
qed

section \<open>Chain cache\<close>

text \<open>C35. In every state the chain index reaches, whatever calls succeeded or raised: records and sequence
ids own each other one to one, no live chain has a tombstone, the tombstones are bounded, the token
history counter is the sum of the stored histories and stays within its cap, and the routing snapshot
answers every chain id as the index itself does.\<close>
theorem chain_index_invariant:
  assumes "chain_run H s"
  shows "(\<forall>c r. dict_get (records s) c = Some r \<longrightarrow>
        rec_chain_id r = c \<and> dict_get (seq_id_to_chain_id s) (rec_seq_id r) = Some c
        \<and> dict_get (tombstones s) c = None)
    \<and> (\<forall>q c. dict_get (seq_id_to_chain_id s) q = Some c \<longrightarrow>
        (\<exists>r. dict_get (records s) c = Some r \<and> rec_seq_id r = q))
    \<and> length (tombstones s) \<le> max_tombstones s
    \<and> token_history_tokens s = (\<Sum>(c, r)\<leftarrow>records s. int (length (history_tokens r)))
    \<and> (\<forall>m. max_token_history_tokens s = Some m \<longrightarrow> token_history_tokens s \<le> m)
    \<and> (\<forall>c. chain_snapshot_match (chain_routing_snapshot s) c = routing_match s c)"
proof -
  have ok: "chain_ok s" by (rule chain_run_ok [OF assms])
  have "dict_sum history_len (records s) = (\<Sum>(c, r)\<leftarrow>records s. int (length (history_tokens r)))"
    by (simp add: dict_sum_def history_len_def case_prod_unfold)
  then show ?thesis
    using chain_okD [OF ok] snapshot_match [OF ok] ok by (auto simp: chain_ok_def)
qed

lemma chain_index_invariant_witness:
  "token_history_tokens ex_chains = 4 \<and> routing_match ex_chains ''a'' \<noteq> routing_match ex_chains ''c''
    \<and> chain_snapshot_match (chain_routing_snapshot ex_chains) ''a'' = routing_match ex_chains ''a''"
proof -
  have "token_history_tokens ex_chains = 4" "routing_match ex_chains ''a'' \<noteq> routing_match ex_chains ''c''"
    by code_simp+
  then show ?thesis using chain_index_invariant [OF ex_chains_run] by blast
qed

text \<open>C36. An admission evicts the shortest least-recently-used run of the other idle chains that frees
the missing rows and the missing slots of every layer; it never evicts an active chain, and it
reports missing capacity only when evicting every idle chain would not be enough. This is about the plan, which the
admission then carries out; the residencies recorded for the idle chains are not negative.\<close>
theorem chain_victims:
  assumes "chain_run H s" "\<forall>r\<in>set (idle_candidates s c). payload_ok r"
    and "plan_admission H c sid inp fp required row_deficit reserved rows s = (out, t)"
  shows "sorted (map (\<lambda>r. (rec_last_access r, rec_chain_id r)) (idle_candidates s c))
    \<and> set (idle_candidates s c)
        = {r. rec_state r = IDLE \<and> (\<exists>d. d \<noteq> c \<and> dict_get (records s) d = Some r)}
    \<and> (\<forall>p. out = Inr p \<longrightarrow> (\<exists>k\<le>length (idle_candidates s c).
          victim_chain_ids p = map rec_chain_id (take k (idle_candidates s c))
          \<and> frees (take k (idle_candidates s c)) row_deficit required
          \<and> (\<forall>j<k. \<not> frees (take j (idle_candidates s c)) row_deficit required)))
    \<and> (\<forall>d. out = Inl (ChainCapacity d) \<longrightarrow> \<not> frees (idle_candidates s c) row_deficit required)"
proof -
  have ok: "chain_ok s" by (rule chain_run_ok [OF assms(1)])
  show ?thesis
    using idle_candidates_sorted [of s c] idle_candidates_set [OF ok, of _ c] planned_victims [OF ok assms(2,3)]
    by blast
qed

lemma chain_victims_witness:
  "\<exists>p t. plan_admission ex_hash ''c'' 3 (Tokens [5]) [7] [3] 1 [] 0 ex_chains = (Inr p, t)
     \<and> (\<exists>k\<le>2. victim_chain_ids p = map rec_chain_id (take k (idle_candidates ex_chains ''c''))
          \<and> frees (take k (idle_candidates ex_chains ''c'')) 1 [3])"
proof -
  obtain out t where p: "plan_admission ex_hash ''c'' 3 (Tokens [5]) [7] [3] 1 [] 0 ex_chains = (out, t)"
    by fastforce
  obtain q where q: "out = Inr q" using ex_chains_plan p by (cases out) auto
  have "length (idle_candidates ex_chains ''c'') = 2" by code_simp
  then show ?thesis using chain_victims [OF ex_chains_run ex_chains_payload p] p q by auto
qed



text \<open>C38. A chain request that is refused, at any check, leaves the queues and the active sequences as they
were and at most drops the idle chain it named; one that is admitted waits at the end of the queue
with exactly the reused prefix counted as prefilled, its chain is ACTIVE under its sequence id, and
every chain but it is unchanged or evicted. No ACTIVE chain is touched in either case.\<close>
theorem chain_admission_outcome:
  assumes "engine_chain_run H C K M L J e" "x \<notin> snd ` set (active_chain_sequences e)"
    and "dict_get (seq_id_to_chain_id (chain_cache e)) sid = None"
    and "admit_chain_request H C K x sid new_id ts sp chain_arg append_only e = (out, e')"
  shows "admission_ok C x (requested_chain chain_arg) out e e'"
  using admit_request_ok [OF conjunct1 [OF engine_chain_run_ok [OF assms(1)]] assms(2-4)] by blast

lemma chain_admission_outcome_witness:
  "admission_ok ex_chain_config 0 [] (fst ex_admit) ex_engine0 (snd ex_admit) \<and> \<not> isl (fst ex_admit)"
proof -
  have 1: "0 \<notin> snd ` set (active_chain_sequences ex_engine0)"
    "dict_get (seq_id_to_chain_id (chain_cache ex_engine0)) 5 = None"
    "requested_chain None = []"
    by (simp_all add: ex_engine0_def start_chain_engine_def ex_chain0_def requested_chain_def py_strip_def)
  have "admit_chain_request ex_hash ex_chain_config ex_cache 0 5 ''n'' [5, 6] ex_params None False ex_engine0
      = (fst ex_admit, snd ex_admit)" by (simp add: ex_admit_def)
  from chain_admission_outcome [OF ex_engine0_run 1(1,2) this] show ?thesis
    using ex_admitted 1(3) by (metis fst_conv sum.disc(2))
qed

text \<open>C39. A finished turn records all tokens of its sequence and the boundary one token before their end. Take the
state right after it, or any state f of a run of the engine, and a later request that names the chain. If the chain is gone
there (evicted, discarded, invalidated), a request that appends at least one token is refused and changes nothing. If
the record still stands, such a request is refused with ValueError when the record, the new tokens and
max_tokens exceed max_model_len; otherwise it is resumed exactly at the boundary, under the same sequence id and with the
recorded tokens as its prefix, or refused for capacity. And a request with a full prompt of its own that is admitted is
resumed only if the prompt agrees with the record up to the boundary, unless it gets a new chain or the digest
collides on these two prefixes.\<close>
theorem chain_turn_resumes:
  assumes "engine_chain_run H C K M L J e"
    and "dict_get (active_chain_sequences e) (seq_id (sq (sch e) x)) = Some y"
    and "finish_request H K x e = (Inr b, e')"
  shows "\<exists>c r. chain_id (sq (sch e) y) = Some c \<and> dict_get (records (chain_cache e')) c = Some r
    \<and> rec_state r = IDLE \<and> map uint (history_tokens r) = seq_tokens (sq (sch e) y)
    \<and> processed_token_count r = max 0 (num_tokens (sq (sch e) y) - 1)
    \<and> (\<forall>f. f = e' \<or> (\<exists>L' J'. engine_chain_run H C K M L' J' f) \<longrightarrow>
      (\<forall>z sid nid us sp out f'. requested_chain (Some c) = c \<and> c \<noteq> [] \<and> us \<noteq> []
          \<and> z \<notin> snd ` set (active_chain_sequences f)
          \<and> admit_chain_request H C K z sid nid us sp (Some c) True f = (out, f') \<longrightarrow>
          (dict_get (records (chain_cache f)) c = None \<longrightarrow> isl out \<and> f' = f)
        \<and> (dict_get (records (chain_cache f)) c = Some r \<longrightarrow>
            (if chain_max_model_len C < int (length (seq_tokens (sq (sch e) y)) + length us) + max_tokens sp
             then out = Inl (Raised (ValueError ''Prompt length + max_tokens exceeds max_model_len: '')) \<and> f' = f
             else out = Inl (ChainCapacity c) \<and> f' = f
               \<or> (\<exists>a. out = Inr a \<and> admitted_chain_id a = c \<and> admitted_seq_id a = seq_id (sq (sch e) x)
                    \<and> admitted_reused a = processed_token_count r
                    \<and> admitted_prompt a = seq_tokens (sq (sch e) y) @ us))))
    \<and> (\<forall>z sid nid ts sp a f'. requested_chain (Some c) = c \<and> c \<noteq> []
          \<and> dict_get (records (chain_cache f)) c = Some r
          \<and> (\<forall>u v. H u = H v \<longrightarrow> pack_token_ids (take (nat (processed_token_count r)) ts) = Inr u \<longrightarrow>
               pack_token_ids (take (nat (processed_token_count r)) (seq_tokens (sq (sch e) y))) = Inr v \<longrightarrow> u = v)
          \<and> admit_chain_request H C K z sid nid ts sp (Some c) False f = (Inr a, f') \<longrightarrow>
          admitted_chain_id a = nid
          \<or> admitted_chain_id a = c \<and> admitted_reused a = processed_token_count r
            \<and> take (nat (processed_token_count r)) ts
                = take (nat (processed_token_count r)) (seq_tokens (sq (sch e) y))))"
proof -
  have ok: "engine_chains_ok L J e" by (rule conjunct1 [OF engine_chain_run_ok [OF assms(1)]])
  obtain c r where f: "b" "chain_id (sq (sch e) y) = Some c" "seq_id (sq (sch e) y) = seq_id (sq (sch e) x)"
    "dict_get (records (chain_cache e')) = (dict_get (records (chain_cache e)))(c \<mapsto> r)"
    "seq_id_to_chain_id (chain_cache e') = seq_id_to_chain_id (chain_cache e)"
    "turn_recorded H r" "map uint (history_tokens r) = seq_tokens (sq (sch e) y)"
    "processed_token_count r = max 0 (num_tokens (sq (sch e) y) - 1)"
    "rec_state r = IDLE" "rec_seq_id r = seq_id (sq (sch e) x)"
    by (rule finish_request_Inr [OF ok assms(2,3)])
  have r: "dict_get (records (chain_cache e')) c = Some r" using f(4) by simp
  have now: "later_requests H C K c r e'"
    using finish_request_ok [OF ok assms(3)] finish_fingerprints [OF ok assms(3) engine_fingerprints [OF assms(1)]] f(6,9)
    by (rule turn_later_requests)
  have run: "later_requests H C K c r g" if "engine_chain_run H C K M L' J' g" for L' J' g
    using conjunct1 [OF engine_chain_run_ok [OF that]] engine_fingerprints [OF that] f(6,9) by (rule turn_later_requests)
  have later: "\<forall>f. f = e' \<or> (\<exists>L' J'. engine_chain_run H C K M L' J' f) \<longrightarrow> later_requests H C K c r f"
    using now run by blast
  show ?thesis
    using f(2,7-9) r later [unfolded later_requests_def f(7,10)]
    by (intro exI [of _ c] exI [of _ r] conjI)
qed

lemma chain_turn_resumes_witness:
  "\<exists>r. dict_get (records (chain_cache (snd ex_finish))) ''n'' = Some r \<and> rec_state r = IDLE
     \<and> map uint (history_tokens r) = [5, 6] \<and> processed_token_count r = 1"
proof -
  have 1: "dict_get (active_chain_sequences ex_sampled) (seq_id (sq (sch ex_sampled) 0)) = Some 0"
    "chain_id (sq (sch ex_sampled) 0) = Some ''n''" "seq_tokens (sq (sch ex_sampled) 0) = [5, 6]"
    "num_tokens (sq (sch ex_sampled) 0) = 2" by code_simp+
  have "finish_request ex_hash ex_cache 0 ex_sampled = (Inr True, snd ex_finish)"
    using ex_finished by (simp add: ex_finish_def)
  from chain_turn_resumes [OF ex_sampled_run 1(1) this] 1(2-4) show ?thesis by auto
qed

end
